(* ===== verification/Prelude.thy ===== *)
theory Prelude
  imports Main "HOL-Library.Word" "HOL-Library.Multiset"
begin

text \<open>
  Shared vocabulary of the development: the machine types the C++ sources use, the
  naming of coroutine handles, the collections of facts the component theories
  extend, and the generic lemmas on lists, finite sets of handles and 64-bit words
  that the component proofs rely on.
\<close>

subsection \<open>Machine types\<close>

text \<open>
  A \<open>std::coroutine_handle<>\<close> is an address; the null handle is address 0 and
  \<open>if (handle)\<close> of the sources is the test against it.  \<open>size_t\<close> and
  \<open>uint64_t\<close> are 64-bit words, whose \<open>+\<close> and \<open>-\<close> wrap around.
\<close>

type_synonym handle = "64 word"
type_synonym size_t = "64 word"
type_synonym uint64 = "64 word"
type_synonym uint32 = "32 word"
type_synonym uint16 = "16 word"

abbreviation null_handle :: handle where
  "null_handle \<equiv> 0"

text \<open>
  \<open>if (to_wake) to_wake.resume();\<close>: what is resumed after the critical section.
\<close>

definition resume_if :: "handle \<Rightarrow> handle list" where
  "resume_if h = (if h \<noteq> null_handle then [h] else [])"

lemma resume_if_simps [simp]:
  "h \<noteq> 0 \<Longrightarrow> resume_if h = [h]"
  "resume_if 0 = []"
  by (simp_all add: resume_if_def)

subsection \<open>Collections of facts\<close>

text \<open>
  \<open>op_defs\<close> collects the definitions of the modelled operations, \<open>inv_defs\<close> the
  definitions of the invariants, so that component proofs unfold a whole interface
  with one name.
\<close>

named_theorems op_defs "definitions of modelled operations"
named_theorems inv_defs "definitions of invariants"

subsection \<open>Sets of handles\<close>

lemma Collect_upd_in:
  "P v \<Longrightarrow> {h. P ((f(a := v)) h)} = insert a {h. P (f h)}"
  by auto

lemma Collect_upd_out:
  "\<not> P v \<Longrightarrow> {h. P ((f(a := v)) h)} = {h. P (f h)} - {a}"
  by auto

text \<open>How the number of handles in a given phase changes when one handle moves.\<close>

lemma card_phase_enter:
  fixes f :: "'h :: finite \<Rightarrow> 'p"
  assumes "P v" and "\<not> P (f a)"
  shows "card {h. P ((f(a := v)) h)} = Suc (card {h. P (f h)})"
  using assms by (subst Collect_upd_in) auto

lemma card_phase_leave:
  fixes f :: "'h :: finite \<Rightarrow> 'p"
  assumes "\<not> P v" and "P (f a)"
  shows "Suc (card {h. P ((f(a := v)) h)}) = card {h. P (f h)}"
proof -
  have "a \<in> {h. P (f h)}" using assms(2) by simp
  then have "0 < card {h. P (f h)}" by (auto simp: card_gt_0_iff)
  with \<open>a \<in> {h. P (f h)}\<close> show ?thesis
    by (subst Collect_upd_out [of P, OF assms(1)]) (simp add: card_Diff_singleton)
qed

lemma card_phase_keep:
  fixes f :: "'h :: finite \<Rightarrow> 'p"
  assumes "P v = P (f a)"
  shows "{h. P ((f(a := v)) h)} = {h. P (f h)}"
  using assms by auto

text \<open>
  Handles are 64-bit addresses and one of them is null, so fewer than \<open>2 ^ 64\<close>
  coroutines exist at a time: counters of coroutines do not wrap around.
\<close>

lemma card_handles_less:
  fixes A :: "handle set"
  assumes "0 \<notin> A"
  shows "card A < 2 ^ 64"
proof -
  have "A \<subset> UNIV" using assms by auto
  then have "card A < card (UNIV :: handle set)"
    by (simp add: psubset_card_mono)
  then show ?thesis by (simp add: card_word)
qed

subsection \<open>Counters of width 64\<close>

lemma unat_dec:
  fixes x :: "64 word"
  assumes "x \<noteq> 0"
  shows "unat (x - 1) = unat x - 1"
  using assms by (simp add: unat_minus_one)

lemma unat_inc:
  fixes x :: "64 word"
  assumes "unat x < 2 ^ 64 - 1"
  shows "unat (x + 1) = Suc (unat x)"
  using assms by (simp add: unat_word_ariths)

lemma word_less_succ:
  fixes x :: "64 word"
  assumes "x + 1 \<noteq> 0"
  shows "x < x + 1"
proof -
  have "unat x \<noteq> 2 ^ 64 - 1"
  proof
    assume "unat x = 2 ^ 64 - 1"
    then have "unat (x + 1) = 0" by (simp add: unat_word_ariths)
    then show False using assms by (simp add: unat_eq_0)
  qed
  moreover have "unat x < 2 ^ 64" using unsigned_less [of x, where ?'a = nat] by simp
  ultimately have "unat x < 2 ^ 64 - 1" by simp
  from unat_inc [OF this] show ?thesis by (simp add: word_less_nat_alt)
qed

lemma unat_pos_iff:
  fixes x :: "64 word"
  shows "0 < x \<longleftrightarrow> 0 < unat x" and "(x \<noteq> 0) \<longleftrightarrow> 0 < unat x"
  by (simp_all add: word_less_nat_alt unat_gt_0)

subsection \<open>Lists\<close>

lemma length_remove1_Suc: "x \<in> set xs \<Longrightarrow> length xs = Suc (length (remove1 x xs))"
  by (induction xs) auto

lemma distinct_snoc:
  "distinct (xs @ [x]) \<longleftrightarrow> distinct xs \<and> x \<notin> set xs"
  by auto

lemma concat_map_singleton [simp]: "concat (map (\<lambda>x. [f x]) xs) = map f xs"
  by (induction xs) auto

end
