(* ===== verification/Errors.thy ===== *)
theory Errors
  imports Prelude
begin

text \<open>
  The error codes of the library: \<open>enum class Errc\<close> and \<open>make_error_code\<close>
  (\<open>core/error.hpp\<close>) and the error category with its messages
  (\<open>core/error.cpp\<close>).  An error code of the library or of the system category is a
  pair of a number and a category; it converts to true exactly when the number is not 0.
\<close>

datatype Errc =
    NoExecutor | InvalidArgument | IoError | SocketCreateFailed | ConnectFailed
  | ResolveFailed | BindFailed | ListenFailed | AcceptFailed | SendFailed | RecvFailed
  | NotConnected | ListenerNotInitialized | RetryExhausted | InvalidAddress
  | EventfdFailed | TimerfdFailed | IoUringInitFailed

text \<open>The underlying value: \<open>NoExecutor = 1\<close> and the following enumerators count up.\<close>

fun errc_value :: "Errc \<Rightarrow> int" where
  "errc_value NoExecutor = 1"
| "errc_value InvalidArgument = 2"
| "errc_value IoError = 3"
| "errc_value SocketCreateFailed = 4"
| "errc_value ConnectFailed = 5"
| "errc_value ResolveFailed = 6"
| "errc_value BindFailed = 7"
| "errc_value ListenFailed = 8"
| "errc_value AcceptFailed = 9"
| "errc_value SendFailed = 10"
| "errc_value RecvFailed = 11"
| "errc_value NotConnected = 12"
| "errc_value ListenerNotInitialized = 13"
| "errc_value RetryExhausted = 14"
| "errc_value InvalidAddress = 15"
| "errc_value EventfdFailed = 16"
| "errc_value TimerfdFailed = 17"
| "errc_value IoUringInitFailed = 18"

datatype error_category = HotcocoCategory | SystemCategory

record error_code =
  ec_value :: int
  ec_category :: error_category

text \<open>\<open>explicit operator bool\<close> of \<open>std::error_code\<close>, and the default constructed code.\<close>

definition ec_bool :: "error_code \<Rightarrow> bool" where
  "ec_bool ec \<longleftrightarrow> ec_value ec \<noteq> 0"

definition ec_default :: error_code where
  "ec_default = \<lparr>ec_value = 0, ec_category = SystemCategory\<rparr>"

definition make_error_code :: "Errc \<Rightarrow> error_code" where
  "make_error_code e = \<lparr>ec_value = errc_value e, ec_category = HotcocoCategory\<rparr>"

definition system_error :: "int \<Rightarrow> error_code" where
  "system_error n = \<lparr>ec_value = n, ec_category = SystemCategory\<rparr>"

definition HotcocoCategoryImpl_name :: string where
  "HotcocoCategoryImpl_name = ''hotcoco''"

definition HotcocoCategoryImpl_message :: "int \<Rightarrow> string" where
  "HotcocoCategoryImpl_message ev =
    (if ev = errc_value NoExecutor then ''No current executor''
     else if ev = errc_value InvalidArgument then ''Invalid argument''
     else if ev = errc_value IoError then ''I/O error''
     else if ev = errc_value SocketCreateFailed then ''Failed to create socket''
     else if ev = errc_value ConnectFailed then ''Failed to connect''
     else if ev = errc_value ResolveFailed then ''Failed to resolve host''
     else if ev = errc_value BindFailed then ''Failed to bind''
     else if ev = errc_value ListenFailed then ''Failed to listen''
     else if ev = errc_value AcceptFailed then ''Failed to accept connection''
     else if ev = errc_value SendFailed then ''Failed to send data''
     else if ev = errc_value RecvFailed then ''Failed to receive data''
     else if ev = errc_value NotConnected then ''Not connected''
     else if ev = errc_value ListenerNotInitialized then ''Listener not initialized''
     else if ev = errc_value RetryExhausted then ''All retry attempts exhausted''
     else if ev = errc_value InvalidAddress then ''Invalid address''
     else if ev = errc_value EventfdFailed then ''Failed to create eventfd''
     else if ev = errc_value TimerfdFailed then ''Failed to create timerfd''
     else if ev = errc_value IoUringInitFailed then ''Failed to initialize io_uring''
     else ''Unknown hotcoco error'')"

subsection \<open>Facts\<close>

lemma errc_value_pos [simp]: "0 < errc_value e"
  by (cases e) simp_all

lemma make_error_code_true [simp]: "ec_bool (make_error_code e)"
  by (cases e) (simp_all add: ec_bool_def make_error_code_def)

lemma ec_default_false [simp]: "\<not> ec_bool ec_default"
  by (simp add: ec_bool_def ec_default_def)

lemma errc_value_eq_iff [simp]: "errc_value a = errc_value b \<longleftrightarrow> a = b"
  by (cases a; cases b) simp_all

lemma make_error_code_eq_iff [simp]: "make_error_code a = make_error_code b \<longleftrightarrow> a = b"
  by (simp add: make_error_code_def)

lemma errc_message_known:
  "HotcocoCategoryImpl_message (errc_value e) \<noteq> ''Unknown hotcoco error''"
  by (cases e) (simp_all add: HotcocoCategoryImpl_message_def)

lemma errc_message_inj:
  "HotcocoCategoryImpl_message (errc_value a) = HotcocoCategoryImpl_message (errc_value b)
   \<Longrightarrow> a = b"
  by (cases a; cases b) (simp_all add: HotcocoCategoryImpl_message_def)

end
