(* ===== verification/Result.thy ===== *)
theory Result
  imports Errors
begin

text \<open>
  \<open>Result<T, E>\<close> of \<open>core/result.hpp\<close>: the tagged union of a success value and an
  error, its observers, its accessors and its combinators, and the specialisation
  \<open>Result<void, E>\<close>, which is stored as an optional error.  Reading the wrong
  alternative of the variant has no defined result: \<open>Value\<close> and \<open>Error\<close> return
  \<open>None\<close> there.
\<close>

datatype ('t, 'e) Result = Ok 't | Err 'e

definition Result_IsOk :: "('t, 'e) Result \<Rightarrow> bool" where
  "Result_IsOk r = (case r of Ok _ \<Rightarrow> True | Err _ \<Rightarrow> False)"

definition Result_IsErr :: "('t, 'e) Result \<Rightarrow> bool" where
  "Result_IsErr r = (case r of Ok _ \<Rightarrow> False | Err _ \<Rightarrow> True)"

definition Result_Value :: "('t, 'e) Result \<Rightarrow> 't option" where
  "Result_Value r = (case r of Ok v \<Rightarrow> Some v | Err _ \<Rightarrow> None)"

definition Result_Error :: "('t, 'e) Result \<Rightarrow> 'e option" where
  "Result_Error r = (case r of Ok _ \<Rightarrow> None | Err e \<Rightarrow> Some e)"

definition Result_ValueOr_optional :: "('t, 'e) Result \<Rightarrow> 't option" where
  "Result_ValueOr_optional r = (if Result_IsOk r then Result_Value r else None)"

definition Result_ValueOr :: "('t, 'e) Result \<Rightarrow> 't \<Rightarrow> 't" where
  "Result_ValueOr r d = (case r of Ok v \<Rightarrow> v | Err _ \<Rightarrow> d)"

definition Result_Map :: "('t \<Rightarrow> 'u) \<Rightarrow> ('t, 'e) Result \<Rightarrow> ('u, 'e) Result" where
  "Result_Map f r = (case r of Ok v \<Rightarrow> Ok (f v) | Err e \<Rightarrow> Err e)"

definition Result_MapErr :: "('e \<Rightarrow> 'f) \<Rightarrow> ('t, 'e) Result \<Rightarrow> ('t, 'f) Result" where
  "Result_MapErr f r = (case r of Err e \<Rightarrow> Err (f e) | Ok v \<Rightarrow> Ok v)"

definition Result_AndThen ::
  "('t \<Rightarrow> ('u, 'e) Result) \<Rightarrow> ('t, 'e) Result \<Rightarrow> ('u, 'e) Result" where
  "Result_AndThen f r = (case r of Ok v \<Rightarrow> f v | Err e \<Rightarrow> Err e)"

definition Result_OrElse ::
  "('e \<Rightarrow> ('t, 'f) Result) \<Rightarrow> ('t, 'e) Result \<Rightarrow> ('t, 'f) Result" where
  "Result_OrElse f r = (case r of Err e \<Rightarrow> f e | Ok v \<Rightarrow> Ok v)"

text \<open>\<open>operator==\<close>: the alternatives are compared first, then the payloads.\<close>

definition Result_eq :: "('t, 'e) Result \<Rightarrow> ('t, 'e) Result \<Rightarrow> bool" where
  "Result_eq l r =
    (if Result_IsOk l \<noteq> Result_IsOk r then False
     else if Result_IsOk l then Result_Value l = Result_Value r
     else Result_Error l = Result_Error r)"

text \<open>\<open>Result<void, E>\<close>: \<open>error_\<close> is empty on success.\<close>

record 'e VoidResult =
  vr_error :: "'e option"

definition VoidResult_Ok :: "'e VoidResult" where
  "VoidResult_Ok = \<lparr>vr_error = None\<rparr>"

definition VoidResult_Err :: "'e \<Rightarrow> 'e VoidResult" where
  "VoidResult_Err e = \<lparr>vr_error = Some e\<rparr>"

definition VoidResult_IsOk :: "'e VoidResult \<Rightarrow> bool" where
  "VoidResult_IsOk r \<longleftrightarrow> vr_error r = None"

definition VoidResult_IsErr :: "'e VoidResult \<Rightarrow> bool" where
  "VoidResult_IsErr r \<longleftrightarrow> vr_error r \<noteq> None"

lemmas Result_defs [op_defs] =
  Result_IsOk_def Result_IsErr_def Result_Value_def Result_Error_def
  Result_ValueOr_optional_def Result_ValueOr_def Result_Map_def Result_MapErr_def
  Result_AndThen_def Result_OrElse_def Result_eq_def

lemmas VoidResult_defs [op_defs] =
  VoidResult_Ok_def VoidResult_Err_def VoidResult_IsOk_def VoidResult_IsErr_def

subsection \<open>Facts\<close>

lemma Result_IsErr_iff: "Result_IsErr r \<longleftrightarrow> \<not> Result_IsOk r"
  by (cases r) (simp_all add: Result_defs)

lemma VoidResult_IsErr_iff: "VoidResult_IsErr r \<longleftrightarrow> \<not> VoidResult_IsOk r"
  by (simp add: VoidResult_defs)

lemma Result_Map_AndThen: "Result_Map f r = Result_AndThen (\<lambda>v. Ok (f v)) r"
  by (cases r) (simp_all add: Result_defs)

lemma Result_Map_compose: "Result_Map g (Result_Map f r) = Result_Map (g \<circ> f) r"
  by (cases r) (simp_all add: Result_defs)

lemma Result_AndThen_assoc:
  "Result_AndThen g (Result_AndThen f r) = Result_AndThen (\<lambda>v. Result_AndThen g (f v)) r"
  by (cases r) (simp_all add: Result_defs)

lemma Result_AndThen_Ok [simp]: "Result_AndThen f (Ok v) = f v"
  and Result_AndThen_Ok_right [simp]: "Result_AndThen Ok r = r"
  by (cases r; simp add: Result_defs)+

lemma Result_OrElse_Err [simp]: "Result_OrElse f (Err e) = f e"
  and Result_OrElse_Err_right [simp]: "Result_OrElse Err r = r"
  by (cases r; simp add: Result_defs)+

lemma Result_eq_iff: "Result_eq l r \<longleftrightarrow> l = r"
  by (cases l; cases r) (simp_all add: Result_defs)

text \<open>A chain of fallible steps stops at the first error and skips the rest.\<close>

fun Result_chain :: "('t \<Rightarrow> ('t, 'e) Result) list \<Rightarrow> ('t, 'e) Result \<Rightarrow> ('t, 'e) Result" where
  "Result_chain [] r = r"
| "Result_chain (f # fs) r = Result_chain fs (Result_AndThen f r)"

lemma Result_chain_Err: "Result_chain fs (Err e) = Err e"
  by (induction fs) (simp_all add: Result_defs)

lemma Result_chain_append:
  "Result_chain (fs @ gs) r = Result_chain gs (Result_chain fs r)"
  by (induction fs arbitrary: r) simp_all

lemma Result_chain_first_error:
  assumes "Result_chain fs r = Ok v" and "f v = Err e"
  shows "Result_chain (fs @ f # gs) r = Err e"
  using assms by (simp add: Result_chain_append Result_chain_Err)

end
