(* ===== verification/Raii.thy ===== *)
theory Raii
  imports Prelude
begin

text \<open>
  The interface of the library's move-only owners.  \<open>Task\<close>, \<open>WhenAllTask\<close>,
  \<open>Generator\<close>, the lock guards, \<open>Defer\<close>, \<open>SyncTcpStream\<close>, \<open>SyncTcpListener\<close>
  and \<open>File\<close> all follow the same protocol: at most one resource, a move constructor
  that empties its source, a move assignment that releases what the target owned, and
  a destructor that releases what is still owned.

  The locale states that protocol; the theories of those classes interpret it on their
  own constructors, assignments and destructors.  What it gives: over any sequence of
  moves and destructions of any number of objects a resource is released at most once,
  no resource is lost, and after the last destruction everything has been released.
\<close>

subsection \<open>Programs over a set of owner variables\<close>

text \<open>
  \<open>MoveCtor x\<close> declares a new variable initialised from \<open>std::move(x)\<close>,
  \<open>MoveAssign x y\<close> is \<open>x = std::move(y)\<close> and \<open>Destroy x\<close> ends the life of
  \<open>x\<close>.  Variables are positions of a list; a destroyed one is \<open>None\<close>.  The
  assignment to itself is the \<open>this != &other\<close> test of the sources: nothing happens.
\<close>

datatype owner_cmd = MoveCtor nat | MoveAssign nat nat | Destroy nat

definition live :: "'o option list \<Rightarrow> nat \<Rightarrow> bool" where
  "live vs i \<longleftrightarrow> i < length vs \<and> vs ! i \<noteq> None"

fun owner_step ::
  "('o \<Rightarrow> 'o \<times> 'o) \<Rightarrow> ('o \<Rightarrow> 'o \<Rightarrow> 'o \<times> 'o \<times> 'r list) \<Rightarrow> ('o \<Rightarrow> 'r list) \<Rightarrow>
   owner_cmd \<Rightarrow> 'o option list \<Rightarrow> 'o option list \<times> 'r list" where
  "owner_step ctor asg dtor (MoveCtor x) vs =
     (if live vs x
      then (let (n, m) = ctor (the (vs ! x)) in (vs[x := Some m] @ [Some n], []))
      else (vs, []))"
| "owner_step ctor asg dtor (MoveAssign x y) vs =
     (if live vs x \<and> live vs y \<and> x \<noteq> y
      then (let (a, b, rel) = asg (the (vs ! x)) (the (vs ! y))
            in (vs[x := Some a, y := Some b], rel))
      else (vs, []))"
| "owner_step ctor asg dtor (Destroy x) vs =
     (if live vs x then (vs[x := None], dtor (the (vs ! x))) else (vs, []))"

fun owner_run ::
  "('o \<Rightarrow> 'o \<times> 'o) \<Rightarrow> ('o \<Rightarrow> 'o \<Rightarrow> 'o \<times> 'o \<times> 'r list) \<Rightarrow> ('o \<Rightarrow> 'r list) \<Rightarrow>
   owner_cmd list \<Rightarrow> 'o option list \<Rightarrow> 'o option list \<times> 'r list" where
  "owner_run ctor asg dtor [] vs = (vs, [])"
| "owner_run ctor asg dtor (c # cs) vs =
     (let (vs', rel) = owner_step ctor asg dtor c vs;
          (vs'', rel') = owner_run ctor asg dtor cs vs'
      in (vs'', rel @ rel'))"

subsection \<open>The contract\<close>

definition opt_list :: "'a option \<Rightarrow> 'a list" where
  "opt_list x = (case x of None \<Rightarrow> [] | Some a \<Rightarrow> [a])"

lemma opt_list_simps [simp]: "opt_list None = []" "opt_list (Some a) = [a]"
  by (simp_all add: opt_list_def)

definition owned_by :: "('o \<Rightarrow> 'r option) \<Rightarrow> 'o option \<Rightarrow> 'r list" where
  "owned_by res v = (case v of None \<Rightarrow> [] | Some ob \<Rightarrow> opt_list (res ob))"

lemma owned_by_simps [simp]:
  "owned_by res None = []" "owned_by res (Some ob) = opt_list (res ob)"
  by (simp_all add: owned_by_def)

definition owned :: "('o \<Rightarrow> 'r option) \<Rightarrow> 'o option list \<Rightarrow> 'r list" where
  "owned res vs = concat (map (owned_by res) vs)"

lemma mset_concat_update:
  assumes "i < length xs"
  shows "mset (concat (map f (xs[i := v]))) + mset (f (xs ! i)) =
         mset (concat (map f xs)) + mset (f v)"
proof -
  let ?l = "take i xs" and ?r = "drop (Suc i) xs"
  have xs: "map f xs = map f ?l @ f (xs ! i) # map f ?r"
    using arg_cong [OF id_take_nth_drop [OF assms], of "map f"] by simp
  have upd: "map f (xs[i := v]) = map f ?l @ f v # map f ?r"
    using assms by (simp add: upd_conv_take_nth_drop)
  show ?thesis
    unfolding xs upd by (simp add: union_assoc union_commute union_lcomm)
qed

lemma owned_update:
  assumes "i < length vs"
  shows "mset (owned res (vs[i := v])) + mset (owned_by res (vs ! i)) =
         mset (owned res vs) + mset (owned_by res v)"
  using mset_concat_update [OF assms] unfolding owned_def .

lemma owned_append [simp]: "owned res (vs @ ws) = owned res vs @ owned res ws"
  by (simp add: owned_def)

lemma owned_all_dead: "(\<And>i. \<not> live vs i) \<Longrightarrow> owned res vs = []"
  by (auto simp: owned_def live_def in_set_conv_nth owned_by_def split: option.splits)

locale unique_owner =
  fixes res :: "'o \<Rightarrow> 'r option"
    and ctor :: "'o \<Rightarrow> 'o \<times> 'o"
    and asg :: "'o \<Rightarrow> 'o \<Rightarrow> 'o \<times> 'o \<times> 'r list"
    and dtor :: "'o \<Rightarrow> 'r list"
  assumes ctor_new: "res (fst (ctor ob)) = res ob"
    and ctor_old: "res (snd (ctor ob)) = None"
    and asg_target: "res (fst (asg a b)) = res b"
    and asg_source: "res (fst (snd (asg a b))) = None"
    and asg_released: "snd (snd (asg a b)) = opt_list (res a)"
    and dtor_released: "dtor ob = opt_list (res ob)"
begin

lemma assign_conserves:
  assumes x: "x < length vs" "vs ! x = Some p" and y: "y < length vs" "vs ! y = Some q" and ne: "x \<noteq> y"
    and ab: "asg p q = (a, b, r)"
  shows "mset (owned res (vs[x := Some a, y := Some b])) + mset r = mset (owned res vs)"
proof -
  have 1: "mset (owned res (vs[x := Some a])) + mset (opt_list (res p)) =
           mset (owned res vs) + mset (opt_list (res q))"
    using owned_update [OF x(1), of res "Some a"] asg_target [of p q] x ab by simp
  have 2: "mset (owned res (vs[x := Some a, y := Some b])) + mset (opt_list (res q)) =
           mset (owned res (vs[x := Some a]))"
    using owned_update [of y "vs[x := Some a]" res "Some b"] asg_source [of p q] y ne ab by simp
  have "r = opt_list (res p)" using asg_released [of p q] ab by simp
  with 1 [folded 2] have "mset (owned res (vs[x := Some a, y := Some b])) + mset r + mset (opt_list (res q)) =
      mset (owned res vs) + mset (opt_list (res q))"
    by (simp add: union_assoc union_commute union_lcomm)
  then show ?thesis by simp
qed

lemma step_conserves:
  assumes "owner_step ctor asg dtor c vs = (vs', rel)"
  shows "mset (owned res vs') + mset rel = mset (owned res vs)"
proof (cases c)
  case (MoveCtor x)
  show ?thesis
  proof (cases "live vs x")
    case True
    then obtain ob where x: "x < length vs" "vs ! x = Some ob"
      by (auto simp: live_def)
    obtain n m where nm: "ctor ob = (n, m)" by (cases "ctor ob")
    have "mset (owned res (vs[x := Some m])) + mset (opt_list (res ob)) = mset (owned res vs)"
      using owned_update [OF x(1), of res "Some m"] ctor_old [of ob] x nm by simp
    with assms MoveCtor True x nm ctor_new [of ob] show ?thesis
      by (auto simp: owned_def [of res "[Some n]"])
  next
    case False
    with assms MoveCtor show ?thesis by simp
  qed
next
  case (MoveAssign x y)
  show ?thesis
  proof (cases "live vs x \<and> live vs y \<and> x \<noteq> y")
    case True
    then obtain p q where x: "x < length vs" "vs ! x = Some p" and y: "y < length vs" "vs ! y = Some q"
      and ne: "x \<noteq> y" by (auto simp: live_def)
    obtain a b r where ab: "asg p q = (a, b, r)" by (cases "asg p q") auto
    with assms MoveAssign True x y assign_conserves [OF x y ne ab] show ?thesis by auto
  next
    case False
    with assms MoveAssign show ?thesis by auto
  qed
next
  case (Destroy x)
  show ?thesis
  proof (cases "live vs x")
    case True
    then obtain ob where x: "x < length vs" "vs ! x = Some ob"
      by (auto simp: live_def)
    with assms Destroy True owned_update [OF x(1), of res None] dtor_released [of ob] show ?thesis
      by auto
  next
    case False
    with assms Destroy show ?thesis by simp
  qed
qed

lemma run_conserves:
  "owner_run ctor asg dtor cs vs = (vs', rel) \<Longrightarrow>
   mset (owned res vs') + mset rel = mset (owned res vs)"
proof (induction cs arbitrary: vs vs' rel)
  case Nil
  then show ?case by simp
next
  case (Cons c cs)
  obtain v1 r1 where 1: "owner_step ctor asg dtor c vs = (v1, r1)"
    by (cases "owner_step ctor asg dtor c vs")
  obtain v2 r2 where 2: "owner_run ctor asg dtor cs v1 = (v2, r2)"
    by (cases "owner_run ctor asg dtor cs v1")
  from 1 2 Cons.prems have "vs' = v2" "rel = r1 @ r2" by simp_all
  with step_conserves [OF 1] Cons.IH [OF 2] show ?case
    by (simp add: union_assoc union_commute union_lcomm)
qed

text \<open>No double release, and nothing is both still owned and released.\<close>

lemma released_once:
  assumes "owner_run ctor asg dtor cs vs = (vs', rel)" and "distinct (owned res vs)"
  shows "distinct (owned res vs' @ rel)"
proof -
  have "mset (owned res vs' @ rel) = mset (owned res vs)"
    using run_conserves [OF assms(1)] by simp
  with assms(2) show ?thesis
    by (metis mset_eq_imp_distinct_iff)
qed

text \<open>When every variable is dead, exactly the initially owned resources were released.\<close>

lemma all_released:
  assumes "owner_run ctor asg dtor cs vs = (vs', rel)" and "\<And>i. \<not> live vs' i"
  shows "mset rel = mset (owned res vs)"
  using run_conserves [OF assms(1)] owned_all_dead [OF assms(2), of res] by simp

end

end
