(* ===== verification/Permit_Lock.thy ===== *)
theory Permit_Lock
  imports Prelude
begin

text \<open>
  The contract that \<open>AsyncMutex\<close> and \<open>AsyncSemaphore\<close> share, and what it gives to coroutines that hold at most one
  permit each and give it back through their guard.  For the mutex these are all its users, since its
  \<open>Unlock\<close> is private; the semaphore's public \<open>Release\<close> and coroutines with several permits are in \<open>Semaphore\<close>.

  Both hand out permits to coroutines.  A \<open>co_await\<close> on them runs \<open>await_ready\<close>,
  which takes a permit when one is free; otherwise \<open>await_suspend\<close> looks again and
  either takes a permit or appends the handle to the waiters.  A release hands its
  permit to the first waiter or gives it back.  Each of these three operations runs
  under the primitive's internal \<open>std::mutex\<close>, so it is one atomic step, and steps
  of different coroutines (on one thread or several) interleave in any order;
  between \<open>await_ready\<close> and \<open>await_suspend\<close> of one coroutine other steps may run.
  The \<open>resume()\<close> of a woken waiter happens after the release's critical section and
  is a step of its own.
\<close>

subsection \<open>Coroutines using a permit primitive\<close>

text \<open>
  \<open>Polled\<close>: \<open>await_ready\<close> returned false and \<open>await_suspend\<close> has not run yet.
  \<open>Woken\<close>: a release removed the handle from the waiters and passed its permit on,
  the \<open>resume()\<close> is due.  \<open>Holding\<close>: \<open>await_resume\<close> returned the guard.
\<close>

datatype phase = Idle | Polled | Suspended | Woken | Holding

fun owns :: "phase \<Rightarrow> bool" where
  "owns Woken = True"
| "owns Holding = True"
| "owns _ = False"

datatype permit_label =
    LPoll handle bool | LGiveUp handle | LSuspend handle bool | LResume handle
  | LRelease handle "handle list"

definition set_woken :: "handle list \<Rightarrow> (handle \<Rightarrow> phase) \<Rightarrow> handle \<Rightarrow> phase" where
  "set_woken ws ph = (\<lambda>h. if h \<in> set ws then Woken else ph h)"

inductive permit_step ::
  "('s \<Rightarrow> bool \<times> 's) \<Rightarrow> (handle \<Rightarrow> 's \<Rightarrow> bool \<times> 's) \<Rightarrow> ('s \<Rightarrow> 's \<times> handle list) \<Rightarrow>
   's \<Rightarrow> (handle \<Rightarrow> phase) \<Rightarrow> permit_label \<Rightarrow> 's \<Rightarrow> (handle \<Rightarrow> phase) \<Rightarrow> bool"
  for rdy sus rel where
  poll: "ph h = Idle \<Longrightarrow> h \<noteq> 0 \<Longrightarrow> rdy s = (b, s') \<Longrightarrow>
     permit_step rdy sus rel s ph (LPoll h b) s' (ph(h := if b then Holding else Polled))"
| give_up: "ph h = Polled \<Longrightarrow>
     permit_step rdy sus rel s ph (LGiveUp h) s (ph(h := Idle))"
| suspend: "ph h = Polled \<Longrightarrow> sus h s = (b, s') \<Longrightarrow>
     permit_step rdy sus rel s ph (LSuspend h b) s' (ph(h := if b then Suspended else Holding))"
| resume: "ph h = Woken \<Longrightarrow>
     permit_step rdy sus rel s ph (LResume h) s (ph(h := Holding))"
| release: "ph h = Holding \<Longrightarrow> rel s = (s', ws) \<Longrightarrow>
     permit_step rdy sus rel s ph (LRelease h ws) s' (set_woken ws (ph(h := Idle)))"

text \<open>A run, with the list of its labels.\<close>

inductive permit_run ::
  "('s \<Rightarrow> bool \<times> 's) \<Rightarrow> (handle \<Rightarrow> 's \<Rightarrow> bool \<times> 's) \<Rightarrow> ('s \<Rightarrow> 's \<times> handle list) \<Rightarrow>
   's \<Rightarrow> (handle \<Rightarrow> phase) \<Rightarrow> permit_label list \<Rightarrow> 's \<Rightarrow> (handle \<Rightarrow> phase) \<Rightarrow> bool"
  for rdy sus rel where
  run_nil: "permit_run rdy sus rel s ph [] s ph"
| run_cons: "permit_step rdy sus rel s ph l s1 ph1 \<Longrightarrow> permit_run rdy sus rel s1 ph1 ls s2 ph2 \<Longrightarrow>
     permit_run rdy sus rel s ph (l # ls) s2 ph2"

text \<open>
  A step is determined by its label: the relation is executable, which is how concrete
  runs are evaluated.
\<close>

fun permit_next ::
  "('s \<Rightarrow> bool \<times> 's) \<Rightarrow> (handle \<Rightarrow> 's \<Rightarrow> bool \<times> 's) \<Rightarrow> ('s \<Rightarrow> 's \<times> handle list) \<Rightarrow>
   permit_label \<Rightarrow> 's \<Rightarrow> (handle \<Rightarrow> phase) \<Rightarrow> ('s \<times> (handle \<Rightarrow> phase)) option" where
  "permit_next rdy sus rel (LPoll h b) s ph =
     (let (b', s') = rdy s in
      if ph h = Idle \<and> h \<noteq> 0 \<and> b' = b
      then Some (s', ph(h := if b then Holding else Polled)) else None)"
| "permit_next rdy sus rel (LGiveUp h) s ph =
     (if ph h = Polled then Some (s, ph(h := Idle)) else None)"
| "permit_next rdy sus rel (LSuspend h b) s ph =
     (let (b', s') = sus h s in
      if ph h = Polled \<and> b' = b
      then Some (s', ph(h := if b then Suspended else Holding)) else None)"
| "permit_next rdy sus rel (LResume h) s ph =
     (if ph h = Woken then Some (s, ph(h := Holding)) else None)"
| "permit_next rdy sus rel (LRelease h ws) s ph =
     (let (s', ws') = rel s in
      if ph h = Holding \<and> ws' = ws then Some (s', set_woken ws (ph(h := Idle))) else None)"

fun permit_exec ::
  "('s \<Rightarrow> bool \<times> 's) \<Rightarrow> (handle \<Rightarrow> 's \<Rightarrow> bool \<times> 's) \<Rightarrow> ('s \<Rightarrow> 's \<times> handle list) \<Rightarrow>
   permit_label list \<Rightarrow> 's \<Rightarrow> (handle \<Rightarrow> phase) \<Rightarrow> ('s \<times> (handle \<Rightarrow> phase)) option" where
  "permit_exec rdy sus rel [] s ph = Some (s, ph)"
| "permit_exec rdy sus rel (l # ls) s ph =
     (case permit_next rdy sus rel l s ph of
        None \<Rightarrow> None
      | Some (s', ph') \<Rightarrow> permit_exec rdy sus rel ls s' ph')"

lemma permit_next_step:
  "permit_next rdy sus rel l s ph = Some (s', ph') \<Longrightarrow> permit_step rdy sus rel s ph l s' ph'"
  by (cases l) (auto simp: permit_step.simps split: if_splits prod.splits)

lemma permit_step_next:
  "permit_step rdy sus rel s ph l s' ph' \<Longrightarrow> permit_next rdy sus rel l s ph = Some (s', ph')"
  by (induction rule: permit_step.induct) (simp_all add: fun_upd_def)

lemma permit_exec_iff:
  "permit_run rdy sus rel s ph ls s' ph' \<longleftrightarrow> permit_exec rdy sus rel ls s ph = Some (s', ph')"
proof
  show "permit_run rdy sus rel s ph ls s' ph' \<Longrightarrow> permit_exec rdy sus rel ls s ph = Some (s', ph')"
    by (induction rule: permit_run.induct) (simp_all add: permit_step_next)
  show "permit_exec rdy sus rel ls s ph = Some (s', ph') \<Longrightarrow> permit_run rdy sus rel s ph ls s' ph'"
    by (induction ls arbitrary: s ph)
      (auto intro: permit_run.intros dest: permit_next_step split: option.splits)
qed

definition woken_in :: "permit_label list \<Rightarrow> handle set" where
  "woken_in ls = {w. \<exists>h ws. LRelease h ws \<in> set ls \<and> w \<in> set ws}"

fun is_release :: "permit_label \<Rightarrow> bool" where
  "is_release (LRelease _ _) = True"
| "is_release _ = False"

definition releases :: "permit_label list \<Rightarrow> nat" where
  "releases ls = length (filter is_release ls)"

lemma releases_simps [simp]:
  "releases [] = 0"
  "releases (l # ls) = (if is_release l then Suc (releases ls) else releases ls)"
  by (simp_all add: releases_def)

lemma woken_in_Nil [simp]: "woken_in [] = {}"
  by (simp add: woken_in_def)

lemma woken_in_Cons [simp]:
  "woken_in (l # ls) = (case l of LRelease h ws \<Rightarrow> set ws | _ \<Rightarrow> {}) \<union> woken_in ls"
  by (auto simp: woken_in_def split: permit_label.splits)

subsection \<open>The invariant\<close>

text \<open>
  With \<open>N\<close> permits in all: every permit is free or owned by one coroutine, the
  waiters are exactly the suspended coroutines, each once, and nobody waits while a
  permit is free (no wakeup is lost).
\<close>

definition permit_inv ::
  "('s \<Rightarrow> nat) \<Rightarrow> ('s \<Rightarrow> handle list) \<Rightarrow> nat \<Rightarrow> 's \<Rightarrow> (handle \<Rightarrow> phase) \<Rightarrow> bool" where
  "permit_inv permits waiting N s ph \<longleftrightarrow>
     permits s + card {h. owns (ph h)} = N \<and>
     distinct (waiting s) \<and>
     set (waiting s) = {h. ph h = Suspended} \<and>
     ph 0 = Idle \<and>
     (waiting s \<noteq> [] \<longrightarrow> permits s = 0)"

lemma permit_invD:
  assumes "permit_inv permits waiting N s ph"
  shows "permits s + card {h. owns (ph h)} = N" and "distinct (waiting s)"
    and "set (waiting s) = {h. ph h = Suspended}" and "ph 0 = Idle"
    and "waiting s \<noteq> [] \<Longrightarrow> permits s = 0"
  using assms by (auto simp: permit_inv_def)

lemma owner_card_pos:
  fixes ph :: "handle \<Rightarrow> phase"
  assumes "owns (ph h)"
  shows "0 < card {h. owns (ph h)}"
  using assms by (auto simp: card_gt_0_iff)

locale permit_lock =
  fixes rdy :: "'s \<Rightarrow> bool \<times> 's"
    and sus :: "handle \<Rightarrow> 's \<Rightarrow> bool \<times> 's"
    and rel :: "'s \<Rightarrow> 's \<times> handle list"
    and permits :: "'s \<Rightarrow> nat"
    and waiting :: "'s \<Rightarrow> handle list"
    and cap :: nat
  assumes rdy_free: "0 < permits s \<Longrightarrow>
      \<exists>s'. rdy s = (True, s') \<and> Suc (permits s') = permits s \<and> waiting s' = waiting s"
    and rdy_taken: "permits s = 0 \<Longrightarrow> rdy s = (False, s)"
    and sus_free: "0 < permits s \<Longrightarrow>
      \<exists>s'. sus h s = (False, s') \<and> Suc (permits s') = permits s \<and> waiting s' = waiting s"
    and sus_taken: "permits s = 0 \<Longrightarrow>
      \<exists>s'. sus h s = (True, s') \<and> permits s' = 0 \<and> waiting s' = waiting s @ [h]"
    and rel_wake: "waiting s = w # ws \<Longrightarrow> w \<noteq> 0 \<Longrightarrow>
      \<exists>s'. rel s = (s', [w]) \<and> permits s' = permits s \<and> waiting s' = ws"
    and rel_free: "waiting s = [] \<Longrightarrow> permits s < cap \<Longrightarrow>
      \<exists>s'. rel s = (s', []) \<and> permits s' = Suc (permits s) \<and> waiting s' = []"
begin

lemma poll_preserves:
  assumes inv: "permit_inv permits waiting N s ph" and st: "ph h = Idle" "h \<noteq> 0" "rdy s = (b, s')"
  shows "permit_inv permits waiting N s' (ph(h := if b then Holding else Polled))"
proof (cases "permits s")
  case 0
  then have "b = False" "s' = s" using rdy_taken st by auto
  moreover have "{h'. owns ((ph(h := Polled)) h')} = {h'. owns (ph h')}"
    by (rule card_phase_keep) (simp add: st)
  moreover have "{h'. (ph(h := Polled)) h' = Suspended} = {h'. ph h' = Suspended}"
    using st by auto
  ultimately show ?thesis using inv st(2) unfolding permit_inv_def by simp
next
  case (Suc k)
  then have b: "b = True" and s': "Suc (permits s') = permits s" "waiting s' = waiting s"
    using rdy_free [of s] st by auto
  have "card {h'. owns ((ph(h := Holding)) h')} = Suc (card {h'. owns (ph h')})"
    by (rule card_phase_enter) (simp_all add: st)
  moreover have "{h'. (ph(h := Holding)) h' = Suspended} = {h'. ph h' = Suspended}"
    using st by auto
  ultimately show ?thesis using inv st(2) b s' Suc unfolding permit_inv_def by auto
qed

lemma suspend_preserves:
  assumes inv: "permit_inv permits waiting N s ph" and st: "ph h = Polled" "sus h s = (b, s')"
  shows "permit_inv permits waiting N s' (ph(h := if b then Suspended else Holding))"
proof (cases "permits s")
  case 0
  then have b: "b = True" and s': "permits s' = 0" "waiting s' = waiting s @ [h]"
    using sus_taken [of s h] st by auto
  have "{h'. owns ((ph(h := Suspended)) h')} = {h'. owns (ph h')}"
    by (rule card_phase_keep) (simp add: st)
  moreover have "{h'. (ph(h := Suspended)) h' = Suspended} = insert h {h'. ph h' = Suspended}"
    by auto
  moreover have "h \<notin> set (waiting s)" "h \<noteq> 0" using inv st unfolding permit_inv_def by auto
  ultimately show ?thesis using inv b s' 0 unfolding permit_inv_def by auto
next
  case (Suc k)
  then have b: "b = False" and s': "Suc (permits s') = permits s" "waiting s' = waiting s"
    using sus_free [of s h] st by auto
  have "card {h'. owns ((ph(h := Holding)) h')} = Suc (card {h'. owns (ph h')})"
    by (rule card_phase_enter) (simp_all add: st)
  moreover have "{h'. (ph(h := Holding)) h' = Suspended} = {h'. ph h' = Suspended}"
    using st by auto
  moreover have "h \<noteq> 0" using inv st unfolding permit_inv_def by auto
  ultimately show ?thesis using inv b s' Suc unfolding permit_inv_def by auto
qed

lemma release_preserves:
  assumes inv: "permit_inv permits waiting N s ph" and cap: "N \<le> cap"
    and st: "ph h = Holding" "rel s = (s', ws)"
  shows "permit_inv permits waiting N s' (set_woken ws (ph(h := Idle)))"
proof (cases "waiting s")
  case Nil
  have pos: "0 < card {h. owns (ph h)}" by (rule owner_card_pos [of ph h]) (simp add: st)
  then have "permits s < cap" using permit_invD(1) [OF inv] cap by linarith
  then have ws: "ws = []" and s': "permits s' = Suc (permits s)" "waiting s' = []"
    using rel_free [OF Nil] st by auto
  have "Suc (card {h'. owns ((ph(h := Idle)) h')}) = card {h'. owns (ph h')}"
    by (rule card_phase_leave) (simp_all add: st)
  moreover have "{h'. (ph(h := Idle)) h' = Suspended} = {h'. ph h' = Suspended}"
    using st by auto
  ultimately show ?thesis
    using inv ws s' Nil unfolding permit_inv_def set_woken_def by auto
next
  case (Cons w rest)
  have w: "ph w = Suspended" "w \<notin> set rest" "distinct rest"
    using permit_invD(2,3) [OF inv] Cons by auto
  then have w0: "w \<noteq> 0" "w \<noteq> h" using permit_invD(4) [OF inv] st by auto
  then have ws: "ws = [w]" and s': "permits s' = permits s" "waiting s' = rest"
    using rel_wake [OF Cons] st by auto
  let ?ph = "ph(h := Idle)"
  have sw: "set_woken ws ?ph = ?ph(w := Woken)" by (auto simp: set_woken_def ws)
  have "Suc (card {h'. owns (?ph h')}) = card {h'. owns (ph h')}"
    by (rule card_phase_leave) (simp_all add: st)
  moreover have "card {h'. owns ((?ph(w := Woken)) h')} = Suc (card {h'. owns (?ph h')})"
    by (rule card_phase_enter) (simp_all add: w w0)
  moreover have "{h'. (?ph(w := Woken)) h' = Suspended} = {h'. ph h' = Suspended} - {w}"
    using st by auto
  ultimately show ?thesis
    using inv s' w w0 Cons unfolding permit_inv_def sw by auto
qed

lemma step_preserves:
  assumes inv: "permit_inv permits waiting N s ph" and cap: "N \<le> cap"
    and step: "permit_step rdy sus rel s ph l s' ph'"
  shows "permit_inv permits waiting N s' ph'"
  using step
proof (cases rule: permit_step.cases)
  case (poll h b)
  then show ?thesis using poll_preserves [OF inv] by simp
next
  case (give_up h)
  have "{h'. owns ((ph(h := Idle)) h')} = {h'. owns (ph h')}"
    by (rule card_phase_keep) (simp add: give_up)
  moreover have "{h'. (ph(h := Idle)) h' = Suspended} = {h'. ph h' = Suspended}"
    using give_up by auto
  ultimately show ?thesis using inv give_up unfolding permit_inv_def by simp
next
  case (suspend h b)
  then show ?thesis using suspend_preserves [OF inv] by simp
next
  case (resume h)
  have "{h'. owns ((ph(h := Holding)) h')} = {h'. owns (ph h')}"
    by (rule card_phase_keep) (simp add: resume)
  moreover have "{h'. (ph(h := Holding)) h' = Suspended} = {h'. ph h' = Suspended}"
    using resume by auto
  moreover have "h \<noteq> 0" using resume permit_invD(4) [OF inv] by auto
  ultimately show ?thesis using inv resume unfolding permit_inv_def by simp
next
  case (release h ws)
  then show ?thesis using release_preserves [OF inv cap] by simp
qed

lemma run_preserves:
  assumes "permit_run rdy sus rel s ph ls s' ph'" and "N \<le> cap"
    and "permit_inv permits waiting N s ph"
  shows "permit_inv permits waiting N s' ph'"
  using assms by (induction rule: permit_run.induct) (auto intro: step_preserves)

text \<open>At most \<open>N\<close> coroutines own a permit at any moment of any run.\<close>

lemma owners_bounded:
  assumes "permit_inv permits waiting N s ph" and "N \<le> cap"
    and "permit_run rdy sus rel s ph ls s' ph'"
  shows "card {h. owns (ph' h)} \<le> N"
  using permit_invD(1) [OF run_preserves [OF assms(3,2,1)]] by simp

text \<open>While somebody is suspended all the permits are in use, so a release is still due.\<close>

lemma suspended_has_owners:
  assumes "permit_inv permits waiting N s ph" and "ph h = Suspended"
  shows "card {h. owns (ph h)} = N"
proof -
  have "waiting s \<noteq> []" using permit_invD(3) [OF assms(1)] assms(2) by force
  then show ?thesis using permit_invD(1,5) [OF assms(1)] by simp
qed

text \<open>
  Bounded overtaking.  A step leaves the handles ahead of a waiter alone unless it is a
  release, and a release takes exactly the first of them.
\<close>

lemma step_waiting:
  assumes inv: "permit_inv permits waiting N s ph"
    and step: "permit_step rdy sus rel s ph l s' ph'"
    and wait: "waiting s = xs @ h # ys"
  shows "if is_release l
         then (\<exists>g w. l = LRelease g [w] \<and> waiting s = w # waiting s')
         else (\<exists>zs. waiting s' = waiting s @ zs)"
  using step
proof (cases rule: permit_step.cases)
  case (poll h b)
  then show ?thesis using rdy_taken [of s] permit_invD(5) [OF inv] wait by auto
next
  case (suspend h b)
  then show ?thesis using sus_taken [of s h] permit_invD(5) [OF inv] wait by auto
next
  case (release g ws)
  obtain w rest where w: "waiting s = w # rest" using wait by (cases xs) auto
  then have "ph w = Suspended" using permit_invD(3) [OF inv] by auto
  then have "w \<noteq> 0" using permit_invD(4) [OF inv] by auto
  then show ?thesis using rel_wake [OF w] release w by auto
qed auto

lemma fifo_wakeup:
  assumes "permit_run rdy sus rel s ph ls s' ph'" and "N \<le> cap"
    and "permit_inv permits waiting N s ph"
    and "waiting s = xs @ h # ys" and "length xs < releases ls"
  shows "h \<in> woken_in ls"
  using assms
proof (induction arbitrary: xs ys rule: permit_run.induct)
  case (run_nil s ph)
  then show ?case by simp
next
  case (run_cons s ph l s1 ph1 ls s2 ph2)
  note w = step_waiting [OF run_cons.prems(2) run_cons.hyps(1) run_cons.prems(3)]
  have inv1: "permit_inv permits waiting N s1 ph1"
    by (rule step_preserves [OF run_cons.prems(2,1) run_cons.hyps(1)])
  show ?case
  proof (cases "is_release l")
    case False
    with w obtain zs where "waiting s1 = xs @ h # (ys @ zs)" using run_cons.prems(3) by auto
    then have "h \<in> woken_in ls"
      using run_cons.IH [OF run_cons.prems(1) inv1] run_cons.prems(4) False by simp
    then show ?thesis by simp
  next
    case True
    with w obtain g v where l: "l = LRelease g [v]" and v: "waiting s = v # waiting s1" by auto
    show ?thesis
    proof (cases xs)
      case Nil
      with v run_cons.prems(3) l show ?thesis by simp
    next
      case (Cons x xs')
      with v run_cons.prems(3) have "waiting s1 = xs' @ h # ys" by simp
      then have "h \<in> woken_in ls"
        using run_cons.IH [OF run_cons.prems(1) inv1] run_cons.prems(4) l Cons by simp
      then show ?thesis by simp
    qed
  qed
qed

end

end
