(* ===== verification/Mutex.thy ===== *)
theory Mutex
  imports Permit_Lock Raii
begin

text \<open>
  \<open>AsyncMutex\<close> of \<open>sync/mutex.hpp\<close>: the lock flag and the queue of waiting
  coroutines, the lock and try-lock awaitables, \<open>Unlock\<close>, and the guard
  \<open>ScopedLock\<close>.  The mutex is a permit primitive with one permit.
\<close>

subsection \<open>State and operations\<close>

record AsyncMutex =
  mx_locked :: bool
  mx_waiters :: "handle list"

definition AsyncMutex_init :: AsyncMutex where
  "AsyncMutex_init = \<lparr>mx_locked = False, mx_waiters = []\<rparr>"

definition LockAwaitable_await_ready :: "AsyncMutex \<Rightarrow> bool \<times> AsyncMutex" where
  "LockAwaitable_await_ready m =
    (if \<not> mx_locked m then (True, m\<lparr>mx_locked := True\<rparr>) else (False, m))"

definition LockAwaitable_await_suspend :: "handle \<Rightarrow> AsyncMutex \<Rightarrow> bool \<times> AsyncMutex" where
  "LockAwaitable_await_suspend h m =
    (if \<not> mx_locked m then (False, m\<lparr>mx_locked := True\<rparr>)
     else (True, m\<lparr>mx_waiters := mx_waiters m @ [h]\<rparr>))"

text \<open>\<open>TryLock\<close>: the result is whether the optional guard holds a value.\<close>

definition TryLockAwaitable_await_resume :: "AsyncMutex \<Rightarrow> bool \<times> AsyncMutex" where
  "TryLockAwaitable_await_resume m =
    (if \<not> mx_locked m then (True, m\<lparr>mx_locked := True\<rparr>) else (False, m))"

text \<open>\<open>Unlock\<close> returns the new state and the handles it resumes after the critical section.\<close>

definition AsyncMutex_Unlock :: "AsyncMutex \<Rightarrow> AsyncMutex \<times> handle list" where
  "AsyncMutex_Unlock m =
    (case mx_waiters m of
       w # ws \<Rightarrow> (m\<lparr>mx_waiters := ws\<rparr>, resume_if w)
     | [] \<Rightarrow> (m\<lparr>mx_locked := False\<rparr>, resume_if null_handle))"

lemmas AsyncMutex_defs [op_defs] =
  AsyncMutex_init_def LockAwaitable_await_ready_def LockAwaitable_await_suspend_def
  TryLockAwaitable_await_resume_def AsyncMutex_Unlock_def

subsection \<open>The guard\<close>

text \<open>
  \<open>ScopedLock\<close> keeps a pointer to the mutex; null after a move.  Each address in the
  released list stands for one call of \<open>Unlock\<close>.
\<close>

record ScopedLock =
  sl_mutex :: "64 word"

definition ScopedLock_move :: "ScopedLock \<Rightarrow> ScopedLock \<times> ScopedLock" where
  "ScopedLock_move other = (\<lparr>sl_mutex = sl_mutex other\<rparr>, other\<lparr>sl_mutex := 0\<rparr>)"

definition ScopedLock_assign ::
  "ScopedLock \<Rightarrow> ScopedLock \<Rightarrow> ScopedLock \<times> ScopedLock \<times> 64 word list" where
  "ScopedLock_assign this other =
    (this\<lparr>sl_mutex := sl_mutex other\<rparr>, other\<lparr>sl_mutex := 0\<rparr>,
     if sl_mutex this \<noteq> 0 then [sl_mutex this] else [])"

definition ScopedLock_destroy :: "ScopedLock \<Rightarrow> 64 word list" where
  "ScopedLock_destroy this = (if sl_mutex this \<noteq> 0 then [sl_mutex this] else [])"

definition ScopedLock_res :: "ScopedLock \<Rightarrow> 64 word option" where
  "ScopedLock_res g = (if sl_mutex g \<noteq> 0 then Some (sl_mutex g) else None)"

lemmas ScopedLock_defs [op_defs] =
  ScopedLock_move_def ScopedLock_assign_def ScopedLock_destroy_def ScopedLock_res_def

interpretation scoped_lock: unique_owner ScopedLock_res ScopedLock_move ScopedLock_assign ScopedLock_destroy
  by unfold_locales (simp_all add: ScopedLock_defs)

subsection \<open>The contract holds\<close>

definition mutex_permits :: "AsyncMutex \<Rightarrow> nat" where
  "mutex_permits m = (if mx_locked m then 0 else 1)"

interpretation mutex: permit_lock LockAwaitable_await_ready LockAwaitable_await_suspend
  AsyncMutex_Unlock mutex_permits mx_waiters 1
  by unfold_locales (auto simp: AsyncMutex_defs mutex_permits_def split: if_splits)

abbreviation mutex_run ::
  "AsyncMutex \<Rightarrow> (handle \<Rightarrow> phase) \<Rightarrow> permit_label list \<Rightarrow> AsyncMutex \<Rightarrow> (handle \<Rightarrow> phase) \<Rightarrow> bool" where
  "mutex_run \<equiv>
     permit_run LockAwaitable_await_ready LockAwaitable_await_suspend AsyncMutex_Unlock"

lemma mutex_start: "permit_inv mutex_permits mx_waiters 1 AsyncMutex_init (\<lambda>_. Idle)"
  by (simp add: permit_inv_def mutex_permits_def AsyncMutex_init_def)

lemma mutex_run_inv:
  "mutex_run AsyncMutex_init (\<lambda>_. Idle) ls m ph \<Longrightarrow> permit_inv mutex_permits mx_waiters 1 m ph"
  by (rule mutex.run_preserves [OF _ _ mutex_start]) simp_all

text \<open>A try-lock is a poll that gives up when it fails, so it is covered by the runs.\<close>

lemma TryLock_is_poll: "TryLockAwaitable_await_resume = LockAwaitable_await_ready"
  by (simp add: fun_eq_iff AsyncMutex_defs)

lemma card_le_Suc0_eq:
  fixes ph :: "handle \<Rightarrow> phase"
  assumes "card {h. owns (ph h)} \<le> 1" and "owns (ph a)" and "owns (ph b)"
  shows "a = b"
  using assms card_le_Suc0_iff_eq [of "{h. owns (ph h)}"] by auto

subsection \<open>Properties\<close>

text \<open>
  Property C8 (mutual exclusion).  In every interleaving of lock, try-lock and unlock
  operations of any number of coroutines, starting from a fresh mutex, two coroutines
  that own the lock (holding the guard, or being resumed with it) are the same one, and
  then the lock flag is set.
\<close>

theorem mutex_exclusion:
  assumes "mutex_run AsyncMutex_init (\<lambda>_. Idle) ls m ph"
    and "owns (ph a)" and "owns (ph b)"
  shows "a = b \<and> mx_locked m"
proof
  note inv = mutex_run_inv [OF assms(1)]
  have "card {h. owns (ph h)} \<le> 1" using permit_invD(1) [OF inv] by simp
  then show "a = b" using assms(2,3) by (rule card_le_Suc0_eq)
  show "mx_locked m"
    using permit_invD(1) [OF inv] owner_card_pos [of ph a] assms(2)
    by (simp add: mutex_permits_def split: if_splits)
qed

theorem mutex_exclusion_witness:
  "\<exists>m ph. mutex_run AsyncMutex_init (\<lambda>_. Idle)
       [LPoll 1 True, LPoll 2 False, LSuspend 2 True, LRelease 1 [2]] m ph \<and>
     owns (ph 2) \<and> mx_locked m"
proof -
  let ?ls = "[LPoll 1 True, LPoll 2 False, LSuspend 2 True, LRelease 1 [2]]"
  obtain m ph where run: "mutex_run AsyncMutex_init (\<lambda>_. Idle) ?ls m ph" and "owns (ph 2)"
    by (simp add: permit_exec_iff AsyncMutex_defs set_woken_def)
  with mutex_exclusion [OF run this(2) this(2)] show ?thesis by blast
qed

text \<open>
  FIFO hand-over, no lost wakeup: If a coroutine waits behind \<open>k\<close>
  others, then any continuation of the run that contains more than \<open>k\<close> unlocks has
  handed it the lock; and while it waits some coroutine owns the lock, so that an unlock
  is due.
\<close>

theorem mutex_fifo:
  assumes "mutex_run AsyncMutex_init (\<lambda>_. Idle) ls m ph"
    and "mx_waiters m = xs @ h # ys"
    and "mutex_run m ph ls' m' ph'"
    and "length xs < releases ls'"
  shows "h \<in> woken_in ls' \<and> (\<exists>g. owns (ph g))"
proof
  note inv = mutex_run_inv [OF assms(1)]
  show "h \<in> woken_in ls'"
    by (rule mutex.fifo_wakeup [OF assms(3) _ inv assms(2,4)]) simp
  have "ph h = Suspended" using permit_invD(3) [OF inv] assms(2) by auto
  then have "card {h. owns (ph h)} = 1" by (rule mutex.suspended_has_owners [OF inv])
  then show "\<exists>g. owns (ph g)" by (metis (mono_tags) Collect_empty_eq card.empty zero_neq_one)
qed

theorem mutex_fifo_witness:
  "(3 :: handle) \<in> woken_in [LRelease 1 [2], LResume 2, LRelease 2 [3]]"
proof -
  let ?ls = "[LPoll 1 True, LPoll 2 False, LPoll 3 False, LSuspend 2 True, LSuspend 3 True]"
  let ?ls' = "[LRelease 1 [2], LResume 2, LRelease 2 [3]]"
  obtain m ph where run: "mutex_run AsyncMutex_init (\<lambda>_. Idle) ?ls m ph"
    and m: "m = \<lparr>mx_locked = True, mx_waiters = [2, 3]\<rparr>"
    and ph: "ph 1 = Holding" "ph 2 = Suspended" "ph 3 = Suspended"
    by (simp add: permit_exec_iff AsyncMutex_defs)
  obtain m' ph' where run': "mutex_run m ph ?ls' m' ph'"
    using m ph by (simp add: permit_exec_iff AsyncMutex_defs set_woken_def)
  show ?thesis
    using mutex_fifo [OF run, of "[2]" 3 "[]", OF _ run'] m by simp
qed

end
