(* ===== verification/Semaphore.thy ===== *)
theory Semaphore
  imports Mutex
begin

text \<open>
  \<open>AsyncSemaphore\<close> of \<open>sync/semaphore.hpp\<close>: the 64-bit permit count, the waiters,
  the acquire awaitable, \<open>Release\<close> and the guard.  Used like a mutex, one permit per coroutine, it is a permit
  primitive with as many permits as the constructor is given; its general use has its own model below.
\<close>

subsection \<open>State and operations\<close>

record AsyncSemaphore =
  sem_count :: size_t
  sem_waiters :: "handle list"

definition AsyncSemaphore_init :: "size_t \<Rightarrow> AsyncSemaphore" where
  "AsyncSemaphore_init initial_count = \<lparr>sem_count = initial_count, sem_waiters = []\<rparr>"

definition AcquireAwaitable_await_ready :: "AsyncSemaphore \<Rightarrow> bool \<times> AsyncSemaphore" where
  "AcquireAwaitable_await_ready s =
    (if sem_count s > 0 then (True, s\<lparr>sem_count := sem_count s - 1\<rparr>) else (False, s))"

definition AcquireAwaitable_await_suspend :: "handle \<Rightarrow> AsyncSemaphore \<Rightarrow> bool \<times> AsyncSemaphore" where
  "AcquireAwaitable_await_suspend h s =
    (if sem_count s > 0 then (False, s\<lparr>sem_count := sem_count s - 1\<rparr>)
     else (True, s\<lparr>sem_waiters := sem_waiters s @ [h]\<rparr>))"

definition AsyncSemaphore_Release :: "AsyncSemaphore \<Rightarrow> AsyncSemaphore \<times> handle list" where
  "AsyncSemaphore_Release s =
    (case sem_waiters s of
       w # ws \<Rightarrow> (s\<lparr>sem_waiters := ws\<rparr>, resume_if w)
     | [] \<Rightarrow> (s\<lparr>sem_count := sem_count s + 1\<rparr>, resume_if null_handle))"

definition AsyncSemaphore_Available :: "AsyncSemaphore \<Rightarrow> size_t" where
  "AsyncSemaphore_Available s = sem_count s"

lemmas AsyncSemaphore_defs [op_defs] =
  AsyncSemaphore_init_def AcquireAwaitable_await_ready_def AcquireAwaitable_await_suspend_def
  AsyncSemaphore_Release_def AsyncSemaphore_Available_def

record SemGuard =
  sg_sem :: "64 word"

definition SemGuard_move :: "SemGuard \<Rightarrow> SemGuard \<times> SemGuard" where
  "SemGuard_move other = (\<lparr>sg_sem = sg_sem other\<rparr>, other\<lparr>sg_sem := 0\<rparr>)"

definition SemGuard_assign :: "SemGuard \<Rightarrow> SemGuard \<Rightarrow> SemGuard \<times> SemGuard \<times> 64 word list" where
  "SemGuard_assign this other =
    (this\<lparr>sg_sem := sg_sem other\<rparr>, other\<lparr>sg_sem := 0\<rparr>,
     if sg_sem this \<noteq> 0 then [sg_sem this] else [])"

definition SemGuard_destroy :: "SemGuard \<Rightarrow> 64 word list" where
  "SemGuard_destroy this = (if sg_sem this \<noteq> 0 then [sg_sem this] else [])"

definition SemGuard_res :: "SemGuard \<Rightarrow> 64 word option" where
  "SemGuard_res g = (if sg_sem g \<noteq> 0 then Some (sg_sem g) else None)"

lemmas SemGuard_defs [op_defs] =
  SemGuard_move_def SemGuard_assign_def SemGuard_destroy_def SemGuard_res_def

interpretation sem_guard: unique_owner SemGuard_res SemGuard_move SemGuard_assign SemGuard_destroy
  by unfold_locales (simp_all add: SemGuard_defs)

subsection \<open>The contract holds\<close>

definition sem_permits :: "AsyncSemaphore \<Rightarrow> nat" where
  "sem_permits s = unat (sem_count s)"

lemma sem_permits_pos: "0 < sem_permits s \<longleftrightarrow> 0 < sem_count s"
  by (simp add: sem_permits_def unat_pos_iff)

interpretation sem: permit_lock AcquireAwaitable_await_ready AcquireAwaitable_await_suspend
  AsyncSemaphore_Release sem_permits sem_waiters "2 ^ 64 - 1"
proof unfold_locales
  fix s :: AsyncSemaphore and h w :: handle and ws :: "handle list"
  show "\<exists>s'. AcquireAwaitable_await_ready s = (True, s') \<and> Suc (sem_permits s') = sem_permits s \<and>
      sem_waiters s' = sem_waiters s" if "0 < sem_permits s"
    using that by (auto simp: AsyncSemaphore_defs sem_permits_def unat_dec unat_pos_iff)
  show "AcquireAwaitable_await_ready s = (False, s)" if "sem_permits s = 0"
    using that sem_permits_pos [of s] by (simp add: AsyncSemaphore_defs)
  show "\<exists>s'. AcquireAwaitable_await_suspend h s = (False, s') \<and> Suc (sem_permits s') = sem_permits s \<and>
      sem_waiters s' = sem_waiters s" if "0 < sem_permits s"
    using that by (auto simp: AsyncSemaphore_defs sem_permits_def unat_dec unat_pos_iff)
  show "\<exists>s'. AcquireAwaitable_await_suspend h s = (True, s') \<and> sem_permits s' = 0 \<and>
      sem_waiters s' = sem_waiters s @ [h]" if "sem_permits s = 0"
    using that by (simp add: AsyncSemaphore_defs sem_permits_def unat_pos_iff)
  show "\<exists>s'. AsyncSemaphore_Release s = (s', [w]) \<and> sem_permits s' = sem_permits s \<and>
      sem_waiters s' = ws" if "sem_waiters s = w # ws" "w \<noteq> 0"
    using that by (simp add: AsyncSemaphore_defs sem_permits_def)
  show "\<exists>s'. AsyncSemaphore_Release s = (s', []) \<and> sem_permits s' = Suc (sem_permits s) \<and>
      sem_waiters s' = []" if "sem_waiters s = []" "sem_permits s < 2 ^ 64 - 1"
    using that by (simp add: AsyncSemaphore_defs sem_permits_def unat_inc)
qed

text \<open>
  Runs in which every coroutine takes one permit at a time and gives it back through its guard, as with a mutex.
\<close>

abbreviation sem_run ::
  "AsyncSemaphore \<Rightarrow> (handle \<Rightarrow> phase) \<Rightarrow> permit_label list \<Rightarrow> AsyncSemaphore \<Rightarrow> (handle \<Rightarrow> phase) \<Rightarrow> bool" where
  "sem_run \<equiv>
     permit_run AcquireAwaitable_await_ready AcquireAwaitable_await_suspend AsyncSemaphore_Release"

lemma unat_le_cap: "unat (n :: 64 word) \<le> 2 ^ 64 - 1"
  using unsigned_less [of n, where ?'a = nat] by simp

lemma sem_start:
  "permit_inv sem_permits sem_waiters (unat n) (AsyncSemaphore_init n) (\<lambda>_. Idle)"
  by (simp add: permit_inv_def sem_permits_def AsyncSemaphore_init_def)

text \<open>
  With that discipline the permits are free or owned.
\<close>

lemma sem_run_inv:
  "sem_run (AsyncSemaphore_init n) (\<lambda>_. Idle) ls s ph \<Longrightarrow>
   permit_inv sem_permits sem_waiters (unat n) s ph"
  by (rule sem.run_preserves [OF _ unat_le_cap sem_start])

subsection \<open>Coroutines using a semaphore\<close>

text \<open>
  The general use: a coroutine may hold any number of guards, and \<open>Release\<close>, which is public, may be
  called by anybody, with or without a permit.  Each critical section is one step, and so is the \<open>resume()\<close> of the
  waiter a \<open>Release\<close> removed.  A guard is named by the coroutine it was made for; \<open>sw_due\<close> are the
  coroutines that were handed a permit and not resumed yet, \<open>sw_direct\<close> counts the calls of \<open>Release\<close> that do not come
  from a guard, \<open>sw_suspended\<close> and \<open>sw_granted\<close> record the suspensions and the hand-overs.
\<close>

record sem_world =
  sw_sem :: AsyncSemaphore
  sw_phase :: "handle \<Rightarrow> phase"
  sw_guards :: "handle list"
  sw_due :: "handle list"
  sw_direct :: nat
  sw_suspended :: "handle list"
  sw_granted :: "handle list"

definition sem_world_init :: "size_t \<Rightarrow> sem_world" where
  "sem_world_init n =
    \<lparr>sw_sem = AsyncSemaphore_init n, sw_phase = (\<lambda>_. Idle), sw_guards = [], sw_due = [], sw_direct = 0,
     sw_suspended = [], sw_granted = []\<rparr>"

definition sem_release :: "sem_world \<Rightarrow> sem_world" where
  "sem_release w =
    (case AsyncSemaphore_Release (sw_sem w) of (s, ws) \<Rightarrow>
       w\<lparr>sw_sem := s, sw_phase := set_woken ws (sw_phase w), sw_due := sw_due w @ ws, sw_granted := sw_granted w @ ws\<rparr>)"

datatype sem_event = SePoll handle | SeSuspend handle | SeResume handle | SeDropGuard handle | SeRelease

fun sem_next :: "sem_event \<Rightarrow> sem_world \<Rightarrow> sem_world option" where
  "sem_next (SePoll h) w =
     (if sw_phase w h = Idle \<and> h \<noteq> null_handle
      then case AcquireAwaitable_await_ready (sw_sem w) of (b, s) \<Rightarrow>
        Some (if b then w\<lparr>sw_sem := s, sw_guards := h # sw_guards w\<rparr>
              else w\<lparr>sw_sem := s, sw_phase := (sw_phase w)(h := Polled)\<rparr>)
      else None)"
| "sem_next (SeSuspend h) w =
     (if sw_phase w h = Polled
      then case AcquireAwaitable_await_suspend h (sw_sem w) of (b, s) \<Rightarrow>
        Some (if b then w\<lparr>sw_sem := s, sw_phase := (sw_phase w)(h := Suspended), sw_suspended := sw_suspended w @ [h]\<rparr>
              else w\<lparr>sw_sem := s, sw_phase := (sw_phase w)(h := Idle), sw_guards := h # sw_guards w\<rparr>)
      else None)"
| "sem_next (SeResume h) w =
     (if sw_phase w h = Woken
      then Some (w\<lparr>sw_phase := (sw_phase w)(h := Idle), sw_guards := h # sw_guards w, sw_due := remove1 h (sw_due w)\<rparr>)
      else None)"
| "sem_next (SeDropGuard h) w =
     (if h \<in> set (sw_guards w) then Some (sem_release (w\<lparr>sw_guards := remove1 h (sw_guards w)\<rparr>)) else None)"
| "sem_next SeRelease w = Some (sem_release (w\<lparr>sw_direct := Suc (sw_direct w)\<rparr>))"

fun sem_exec :: "sem_event list \<Rightarrow> sem_world \<Rightarrow> sem_world option" where
  "sem_exec [] w = Some w"
| "sem_exec (e # es) w = (case sem_next e w of None \<Rightarrow> None | Some w' \<Rightarrow> sem_exec es w')"

text \<open>What the steps keep: the balance \<open>k\<close> of permits, and who waits.\<close>

definition sem_queue_ok :: "sem_world \<Rightarrow> bool" where
  "sem_queue_ok w \<longleftrightarrow>
     distinct (sem_waiters (sw_sem w)) \<and> set (sem_waiters (sw_sem w)) = {h. sw_phase w h = Suspended} \<and>
     distinct (sw_due w) \<and> set (sw_due w) = {h. sw_phase w h = Woken} \<and> sw_phase w 0 = Idle \<and>
     (sem_waiters (sw_sem w) \<noteq> [] \<longrightarrow> sem_count (sw_sem w) = 0) \<and>
     sw_suspended w = sw_granted w @ sem_waiters (sw_sem w)"

definition sem_balance :: "nat \<Rightarrow> sem_world \<Rightarrow> bool" where
  "sem_balance k w \<longleftrightarrow> unat (sem_count (sw_sem w)) + length (sw_guards w) + length (sw_due w) = k"

lemma sem_release_ok:
  assumes "sem_queue_ok w" and "sem_balance k w" and "Suc k < 2 ^ 64"
  shows "sem_queue_ok (sem_release w)" and "sem_balance (Suc k) (sem_release w)"
proof -
  have "unat (sem_count (sw_sem w) + 1) = Suc (unat (sem_count (sw_sem w)))"
    using assms(2,3) by (intro unat_inc) (simp add: sem_balance_def)
  moreover have "h \<noteq> 0" if "h \<in> set (sem_waiters (sw_sem w))" for h using that assms(1) by (auto simp: sem_queue_ok_def)
  ultimately show "sem_balance (Suc k) (sem_release w)"
    using assms(2) by (cases "sem_waiters (sw_sem w)") (auto simp: sem_release_def sem_balance_def AsyncSemaphore_Release_def)
  show "sem_queue_ok (sem_release w)"
  proof (cases "sem_waiters (sw_sem w)")
    case Nil
    then show ?thesis
      using assms(1) by (simp add: sem_release_def sem_queue_ok_def AsyncSemaphore_Release_def set_woken_def)
  next
    case (Cons h hs)
    then have "sw_phase w h = Suspended" and hs: "h \<notin> set hs" using assms(1) by (auto simp: sem_queue_ok_def)
    then have h: "sw_phase w h = Suspended" "h \<noteq> 0" "h \<notin> set hs" using assms(1) by (auto simp: sem_queue_ok_def)
    have "{x. sw_phase w x = Suspended} = insert h (set hs)" using assms(1) Cons by (simp add: sem_queue_ok_def)
    then have "x \<in> set hs \<longleftrightarrow> sw_phase w x = Suspended \<and> x \<noteq> h" for x using h(3) by blast
    then have "set hs = {x. set_woken [h] (sw_phase w) x = Suspended}" by (auto simp: set_woken_def)
    then show ?thesis
      using assms(1) Cons h by (auto simp: sem_release_def sem_queue_ok_def AsyncSemaphore_Release_def set_woken_def)
  qed
qed

lemma sem_next_ok:
  assumes ok: "sem_queue_ok w" and bal: "sem_balance (n + sw_direct w) w" and step: "sem_next e w = Some w'"
    and lt: "n + sw_direct w' < 2 ^ 64"
  shows "sem_queue_ok w' \<and> sem_balance (n + sw_direct w') w'"
proof (cases e)
  case (SePoll h)
  have "Suc (unat (sem_count (sw_sem w) - 1)) = unat (sem_count (sw_sem w))" if "0 < sem_count (sw_sem w)"
    using that by (simp add: unat_dec unat_pos_iff)
  with SePoll step ok bal show ?thesis
    by (auto simp: AcquireAwaitable_await_ready_def sem_queue_ok_def sem_balance_def split: if_splits)
next
  case (SeSuspend h)
  have "Suc (unat (sem_count (sw_sem w) - 1)) = unat (sem_count (sw_sem w))" if "0 < sem_count (sw_sem w)"
    using that by (simp add: unat_dec unat_pos_iff)
  with SeSuspend step ok bal show ?thesis
    by (auto simp: AcquireAwaitable_await_suspend_def sem_queue_ok_def sem_balance_def word_gt_0 split: if_splits)
next
  case (SeResume h)
  then have h: "sw_phase w h = Woken" and w': "w' = w\<lparr>sw_phase := (sw_phase w)(h := Idle), sw_guards := h # sw_guards w,
      sw_due := remove1 h (sw_due w)\<rparr>" using step by (simp_all split: if_splits)
  then have "h \<in> set (sw_due w)" using ok by (auto simp: sem_queue_ok_def)
  then have "length (sw_due w) = Suc (length (remove1 h (sw_due w)))" by (rule length_remove1_Suc)
  then have "sem_balance (n + sw_direct w') w'" using bal w' by (simp add: sem_balance_def)
  moreover have "sem_queue_ok w'" using ok h w' by (auto simp: sem_queue_ok_def)
  ultimately show ?thesis by simp
next
  case (SeDropGuard h)
  let ?v = "w\<lparr>sw_guards := remove1 h (sw_guards w)\<rparr>"
  have h: "h \<in> set (sw_guards w)" and w': "w' = sem_release ?v" using SeDropGuard step by (simp_all split: if_splits)
  have d: "sw_direct w' = sw_direct w" by (simp add: w' sem_release_def split: prod.splits)
  have "length (sw_guards w) = Suc (length (remove1 h (sw_guards w)))" using h by (rule length_remove1_Suc)
  then have k: "n + sw_direct w = Suc (n + sw_direct w - 1)" and "sem_balance (n + sw_direct w - 1) ?v"
    using bal by (auto simp: sem_balance_def)
  moreover have "sem_queue_ok ?v" using ok by (simp add: sem_queue_ok_def)
  ultimately show ?thesis using sem_release_ok [of ?v "n + sw_direct w - 1"] lt d w' by simp
next
  case SeRelease
  let ?v = "w\<lparr>sw_direct := Suc (sw_direct w)\<rparr>"
  have w': "w' = sem_release ?v" using SeRelease step by simp
  have d: "sw_direct w' = Suc (sw_direct w)" by (simp add: w' sem_release_def split: prod.splits)
  have "sem_queue_ok ?v" "sem_balance (n + sw_direct w) ?v" using ok bal by (simp_all add: sem_queue_ok_def sem_balance_def)
  then show ?thesis using sem_release_ok [of ?v "n + sw_direct w"] lt d w' by simp
qed

lemma sem_next_direct: "sem_next e w = Some w' \<Longrightarrow> sw_direct w \<le> sw_direct w'"
  by (cases e) (auto simp: sem_release_def split: if_splits prod.splits)

lemma sem_exec_ok:
  "sem_exec es w = Some w' \<Longrightarrow> sem_queue_ok w \<Longrightarrow> sem_balance (n + sw_direct w) w \<Longrightarrow> n + sw_direct w' < 2 ^ 64 \<Longrightarrow>
   sw_direct w \<le> sw_direct w' \<and> sem_queue_ok w' \<and> sem_balance (n + sw_direct w') w'"
proof (induction es arbitrary: w)
  case (Cons e es)
  then obtain v where v: "sem_next e w = Some v" "sem_exec es v = Some w'" by (auto split: option.splits)
  have "sw_direct v \<le> sw_direct w'" using v(2)
    by (induction es arbitrary: v) (auto split: option.splits dest: sem_next_direct le_trans)
  then have "n + sw_direct v < 2 ^ 64" using Cons.prems(4) by simp
  then have "sem_queue_ok v \<and> sem_balance (n + sw_direct v) v" by (rule sem_next_ok [OF Cons.prems(2,3) v(1)])
  then show ?case using Cons.IH [OF v(2)] Cons.prems(4) sem_next_direct [OF v(1)] by simp
qed simp

text \<open>
  Property C32 (permits are conserved).  However coroutines on any threads acquire, suspend, are resumed, hold several
  guards, drop them, and call \<open>Release\<close> directly on a semaphore created with \<open>n\<close> permits: the free count, the
  guards and the permits handed to coroutines still to be resumed add up to \<open>n\<close> plus the number of direct calls of
  \<open>Release\<close> (so with guards alone at most \<open>n\<close> permits are out, and each direct call adds one), provided that sum fits
  into the 64-bit count.  While somebody waits no permit is free; the waiters are exactly the
  suspended coroutines, and permits are handed over in the order of suspension, once per suspension.
\<close>

theorem semaphore_permits:
  assumes "sem_exec es (sem_world_init n) = Some w" and "unat n + sw_direct w < 2 ^ 64"
  shows "unat (AsyncSemaphore_Available (sw_sem w)) + length (sw_guards w) + length (sw_due w) = unat n + sw_direct w \<and>
    (sw_phase w h = Suspended \<longrightarrow> AsyncSemaphore_Available (sw_sem w) = 0) \<and>
    set (sem_waiters (sw_sem w)) = {h. sw_phase w h = Suspended} \<and>
    sw_suspended w = sw_granted w @ sem_waiters (sw_sem w)"
proof -
  have "sem_queue_ok (sem_world_init n)" "sem_balance (unat n + sw_direct (sem_world_init n)) (sem_world_init n)"
    by (simp_all add: sem_world_init_def sem_queue_ok_def sem_balance_def AsyncSemaphore_init_def)
  from sem_exec_ok [OF assms(1) this assms(2)] show ?thesis
    by (auto simp: sem_queue_ok_def sem_balance_def AsyncSemaphore_Available_def)
qed

text \<open>
  Coroutine 1 takes two of two permits, 2 waits; a direct \<open>Release\<close> lets 2 in, so that three guards exist.
\<close>

theorem semaphore_permits_witness:
  "\<exists>w. sem_exec [SePoll 1, SePoll 1, SePoll 2, SeSuspend 2, SeRelease, SeResume 2] (sem_world_init 2) = Some w \<and>
     sw_guards w = [2, 1, 1] \<and> unat (AsyncSemaphore_Available (sw_sem w)) + 3 = 2 + 1 \<and> sw_granted w = [2]"
proof -
  let ?es = "[SePoll 1, SePoll 1, SePoll 2, SeSuspend 2, SeRelease, SeResume 2]"
  obtain w where w: "sem_exec ?es (sem_world_init 2) = Some w" "sw_guards w = [2, 1, 1]" "sw_direct w = 1" "sw_due w = []"
      "sw_granted w = [2]"
    by (simp add: sem_world_init_def sem_release_def AsyncSemaphore_defs set_woken_def)
  then have "unat (2 :: size_t) + sw_direct w < 2 ^ 64" by simp
  from semaphore_permits [OF w(1) this] w show ?thesis by auto
qed

subsection \<open>A mutex is a semaphore with one permit\<close>

text \<open>The abstraction: the lock flag read as a count.\<close>

definition mutex_as_sem :: "AsyncMutex \<Rightarrow> AsyncSemaphore" where
  "mutex_as_sem m = \<lparr>sem_count = (if mx_locked m then 0 else 1), sem_waiters = mx_waiters m\<rparr>"

lemma mutex_as_sem_init: "mutex_as_sem AsyncMutex_init = AsyncSemaphore_init 1"
  by (simp add: mutex_as_sem_def AsyncMutex_defs AsyncSemaphore_defs)

lemma mutex_as_sem_ready:
  "AcquireAwaitable_await_ready (mutex_as_sem m) =
   map_prod id mutex_as_sem (LockAwaitable_await_ready m)"
  by (simp add: mutex_as_sem_def AsyncMutex_defs AsyncSemaphore_defs)

lemma mutex_as_sem_suspend:
  "AcquireAwaitable_await_suspend h (mutex_as_sem m) =
   map_prod id mutex_as_sem (LockAwaitable_await_suspend h m)"
  by (simp add: mutex_as_sem_def AsyncMutex_defs AsyncSemaphore_defs)

lemma mutex_as_sem_unlock:
  "mx_locked m \<Longrightarrow> AsyncSemaphore_Release (mutex_as_sem m) =
   map_prod mutex_as_sem id (AsyncMutex_Unlock m)"
  by (auto simp: mutex_as_sem_def AsyncMutex_defs AsyncSemaphore_defs split: list.splits)

lemma mutex_step_sim:
  assumes "permit_inv mutex_permits mx_waiters 1 m ph"
    and "permit_step LockAwaitable_await_ready LockAwaitable_await_suspend AsyncMutex_Unlock m ph l m' ph'"
  shows "permit_step AcquireAwaitable_await_ready AcquireAwaitable_await_suspend AsyncSemaphore_Release
           (mutex_as_sem m) ph l (mutex_as_sem m') ph'"
proof (rule permit_next_step)
  have nxt: "permit_next LockAwaitable_await_ready LockAwaitable_await_suspend AsyncMutex_Unlock l m ph =
      Some (m', ph')"
    by (rule permit_step_next [OF assms(2)])
  have locked: "mx_locked m" if "ph h = Holding" for h
    using permit_invD(1) [OF assms(1)] owner_card_pos [of ph h] that
    by (simp add: mutex_permits_def split: if_splits)
  show "permit_next AcquireAwaitable_await_ready AcquireAwaitable_await_suspend AsyncSemaphore_Release
      l (mutex_as_sem m) ph = Some (mutex_as_sem m', ph')"
  proof (cases l)
    case (LRelease h ws)
    then have "ph h = Holding" using nxt by (simp split: prod.splits if_splits)
    with nxt LRelease show ?thesis
      by (auto simp: mutex_as_sem_unlock [OF locked] split: prod.splits if_splits)
  qed (use nxt in \<open>auto simp: mutex_as_sem_ready mutex_as_sem_suspend split: prod.splits if_splits\<close>)
qed

text \<open>
  Property C33 (refinement).  The mutex refines the semaphore with one permit: every
  interleaving of a fresh mutex is, label for label, an interleaving of
  \<open>AsyncSemaphore(1)\<close> whose states are the abstractions of the mutex states.
\<close>

theorem mutex_refines_semaphore:
  assumes "mutex_run AsyncMutex_init (\<lambda>_. Idle) ls m ph"
  shows "sem_run (AsyncSemaphore_init 1) (\<lambda>_. Idle) ls (mutex_as_sem m) ph"
proof -
  have "sem_run (mutex_as_sem m0) ph0 ls (mutex_as_sem m) ph"
    if "mutex_run m0 ph0 ls m ph" and "permit_inv mutex_permits mx_waiters 1 m0 ph0" for m0 ph0
    using that
  proof (induction rule: permit_run.induct)
    case (run_nil s ph)
    show ?case by (rule permit_run.run_nil)
  next
    case (run_cons s ph l s1 ph1 ls s2 ph2)
    have "permit_inv mutex_permits mx_waiters 1 s1 ph1"
      by (rule mutex.step_preserves [OF run_cons.prems _ run_cons.hyps(1)]) simp
    then show ?case
      using mutex_step_sim [OF run_cons.prems run_cons.hyps(1)] run_cons.IH
      by (auto intro: permit_run.run_cons)
  qed
  from this [OF assms mutex_start] show ?thesis by (simp add: mutex_as_sem_init)
qed

theorem mutex_refines_semaphore_witness:
  "\<exists>m ph. mutex_run AsyncMutex_init (\<lambda>_. Idle) [LPoll 1 True, LPoll 2 False, LSuspend 2 True] m ph \<and>
     sem_run (AsyncSemaphore_init 1) (\<lambda>_. Idle) [LPoll 1 True, LPoll 2 False, LSuspend 2 True]
       (mutex_as_sem m) ph"
proof -
  obtain m ph where run: "mutex_run AsyncMutex_init (\<lambda>_. Idle)
      [LPoll 1 True, LPoll 2 False, LSuspend 2 True] m ph"
    by (simp add: permit_exec_iff AsyncMutex_defs)
  with mutex_refines_semaphore [OF run] show ?thesis by blast
qed

end
