(* ===== verification/RWLock.thy ===== *)
theory RWLock
  imports Raii
begin

text \<open>
  \<open>AsyncRWLock\<close> of \<open>sync/rwlock.hpp\<close>: many readers or one writer.  The reader count
  is a 64-bit word.  As in the other primitives each operation runs under the internal
  mutex and is one atomic step; the handles it resumes come after its critical section.
\<close>

subsection \<open>State and operations\<close>

record AsyncRWLock =
  rw_reader_count :: size_t
  rw_write_locked :: bool
  rw_read_waiters :: "handle list"
  rw_write_waiters :: "handle list"

definition AsyncRWLock_init :: AsyncRWLock where
  "AsyncRWLock_init =
    \<lparr>rw_reader_count = 0, rw_write_locked = False, rw_read_waiters = [], rw_write_waiters = []\<rparr>"

definition ReadLockAwaitable_await_ready :: "AsyncRWLock \<Rightarrow> bool \<times> AsyncRWLock" where
  "ReadLockAwaitable_await_ready l =
    (if \<not> rw_write_locked l \<and> rw_write_waiters l = []
     then (True, l\<lparr>rw_reader_count := rw_reader_count l + 1\<rparr>)
     else (False, l))"

definition ReadLockAwaitable_await_suspend :: "handle \<Rightarrow> AsyncRWLock \<Rightarrow> bool \<times> AsyncRWLock" where
  "ReadLockAwaitable_await_suspend h l =
    (if \<not> rw_write_locked l \<and> rw_write_waiters l = []
     then (False, l\<lparr>rw_reader_count := rw_reader_count l + 1\<rparr>)
     else (True, l\<lparr>rw_read_waiters := rw_read_waiters l @ [h]\<rparr>))"

definition WriteLockAwaitable_await_ready :: "AsyncRWLock \<Rightarrow> bool \<times> AsyncRWLock" where
  "WriteLockAwaitable_await_ready l =
    (if \<not> rw_write_locked l \<and> rw_reader_count l = 0
     then (True, l\<lparr>rw_write_locked := True\<rparr>)
     else (False, l))"

definition WriteLockAwaitable_await_suspend :: "handle \<Rightarrow> AsyncRWLock \<Rightarrow> bool \<times> AsyncRWLock" where
  "WriteLockAwaitable_await_suspend h l =
    (if \<not> rw_write_locked l \<and> rw_reader_count l = 0
     then (False, l\<lparr>rw_write_locked := True\<rparr>)
     else (True, l\<lparr>rw_write_waiters := rw_write_waiters l @ [h]\<rparr>))"

definition AsyncRWLock_ReadUnlock :: "AsyncRWLock \<Rightarrow> AsyncRWLock \<times> handle list" where
  "AsyncRWLock_ReadUnlock l =
    (let l = l\<lparr>rw_reader_count := rw_reader_count l - 1\<rparr> in
     case rw_write_waiters l of
       w # ws \<Rightarrow>
         if rw_reader_count l = 0
         then (l\<lparr>rw_write_locked := True, rw_write_waiters := ws\<rparr>, [w])
         else (l, [])
     | [] \<Rightarrow> (l, []))"

definition AsyncRWLock_WriteUnlock :: "AsyncRWLock \<Rightarrow> AsyncRWLock \<times> handle list" where
  "AsyncRWLock_WriteUnlock l =
    (let l = l\<lparr>rw_write_locked := False\<rparr> in
     if rw_read_waiters l \<noteq> []
     then (l\<lparr>rw_reader_count := word_of_nat (length (rw_read_waiters l)), rw_read_waiters := []\<rparr>,
           rw_read_waiters l)
     else (case rw_write_waiters l of
             w # ws \<Rightarrow> (l\<lparr>rw_write_locked := True, rw_write_waiters := ws\<rparr>, [w])
           | [] \<Rightarrow> (l, [])))"

lemmas AsyncRWLock_defs [op_defs] =
  AsyncRWLock_init_def ReadLockAwaitable_await_ready_def ReadLockAwaitable_await_suspend_def
  WriteLockAwaitable_await_ready_def WriteLockAwaitable_await_suspend_def
  AsyncRWLock_ReadUnlock_def AsyncRWLock_WriteUnlock_def

subsection \<open>The guards\<close>

text \<open>
  \<open>ReadGuard\<close> and \<open>WriteGuard\<close>: a pointer to the lock, null after a move; a
  released address is one call of \<open>ReadUnlock\<close>, respectively \<open>WriteUnlock\<close>.
\<close>

record ReadGuard =
  rg_lock :: "64 word"

record WriteGuard =
  wg_lock :: "64 word"

definition ReadGuard_move :: "ReadGuard \<Rightarrow> ReadGuard \<times> ReadGuard" where
  "ReadGuard_move other = (\<lparr>rg_lock = rg_lock other\<rparr>, other\<lparr>rg_lock := 0\<rparr>)"

definition ReadGuard_assign :: "ReadGuard \<Rightarrow> ReadGuard \<Rightarrow> ReadGuard \<times> ReadGuard \<times> 64 word list" where
  "ReadGuard_assign this other =
    (this\<lparr>rg_lock := rg_lock other\<rparr>, other\<lparr>rg_lock := 0\<rparr>,
     if rg_lock this \<noteq> 0 then [rg_lock this] else [])"

definition ReadGuard_destroy :: "ReadGuard \<Rightarrow> 64 word list" where
  "ReadGuard_destroy this = (if rg_lock this \<noteq> 0 then [rg_lock this] else [])"

definition WriteGuard_move :: "WriteGuard \<Rightarrow> WriteGuard \<times> WriteGuard" where
  "WriteGuard_move other = (\<lparr>wg_lock = wg_lock other\<rparr>, other\<lparr>wg_lock := 0\<rparr>)"

definition WriteGuard_assign :: "WriteGuard \<Rightarrow> WriteGuard \<Rightarrow> WriteGuard \<times> WriteGuard \<times> 64 word list" where
  "WriteGuard_assign this other =
    (this\<lparr>wg_lock := wg_lock other\<rparr>, other\<lparr>wg_lock := 0\<rparr>,
     if wg_lock this \<noteq> 0 then [wg_lock this] else [])"

definition WriteGuard_destroy :: "WriteGuard \<Rightarrow> 64 word list" where
  "WriteGuard_destroy this = (if wg_lock this \<noteq> 0 then [wg_lock this] else [])"

definition ReadGuard_res :: "ReadGuard \<Rightarrow> 64 word option" where
  "ReadGuard_res g = (if rg_lock g \<noteq> 0 then Some (rg_lock g) else None)"

definition WriteGuard_res :: "WriteGuard \<Rightarrow> 64 word option" where
  "WriteGuard_res g = (if wg_lock g \<noteq> 0 then Some (wg_lock g) else None)"

lemmas RWGuard_defs [op_defs] =
  ReadGuard_move_def ReadGuard_assign_def ReadGuard_destroy_def ReadGuard_res_def
  WriteGuard_move_def WriteGuard_assign_def WriteGuard_destroy_def WriteGuard_res_def

interpretation read_guard: unique_owner ReadGuard_res ReadGuard_move ReadGuard_assign ReadGuard_destroy
  by unfold_locales (simp_all add: RWGuard_defs)

interpretation write_guard: unique_owner WriteGuard_res WriteGuard_move WriteGuard_assign WriteGuard_destroy
  by unfold_locales (simp_all add: RWGuard_defs)

subsection \<open>Coroutines using the lock\<close>

datatype rw_phase =
    RwIdle | RPolled | RSuspended | RWoken | Reading | WPolled | WSuspended | WWoken | Writing

fun reads :: "rw_phase \<Rightarrow> bool" where
  "reads RWoken = True"
| "reads Reading = True"
| "reads _ = False"

fun writes :: "rw_phase \<Rightarrow> bool" where
  "writes WWoken = True"
| "writes Writing = True"
| "writes _ = False"

fun rw_wake :: "rw_phase \<Rightarrow> rw_phase" where
  "rw_wake RSuspended = RWoken"
| "rw_wake WSuspended = WWoken"
| "rw_wake p = p"

definition rw_woken :: "handle list \<Rightarrow> (handle \<Rightarrow> rw_phase) \<Rightarrow> handle \<Rightarrow> rw_phase" where
  "rw_woken ws ph = (\<lambda>h. if h \<in> set ws then rw_wake (ph h) else ph h)"

datatype rw_label = PollRead | PollWrite | SuspendHere | ResumeHere | UnlockRead | UnlockWrite

text \<open>One step of coroutine \<open>h\<close>; \<open>None\<close> where the coroutine cannot take it.\<close>

fun rw_next :: "rw_label \<Rightarrow> handle \<Rightarrow> AsyncRWLock \<Rightarrow> (handle \<Rightarrow> rw_phase) \<Rightarrow>
    (AsyncRWLock \<times> (handle \<Rightarrow> rw_phase)) option" where
  "rw_next PollRead h l ph =
     (if ph h = RwIdle \<and> h \<noteq> 0
      then (let (b, l') = ReadLockAwaitable_await_ready l
            in Some (l', ph(h := if b then Reading else RPolled)))
      else None)"
| "rw_next PollWrite h l ph =
     (if ph h = RwIdle \<and> h \<noteq> 0
      then (let (b, l') = WriteLockAwaitable_await_ready l
            in Some (l', ph(h := if b then Writing else WPolled)))
      else None)"
| "rw_next SuspendHere h l ph =
     (case ph h of
        RPolled \<Rightarrow> (let (b, l') = ReadLockAwaitable_await_suspend h l
                    in Some (l', ph(h := if b then RSuspended else Reading)))
      | WPolled \<Rightarrow> (let (b, l') = WriteLockAwaitable_await_suspend h l
                    in Some (l', ph(h := if b then WSuspended else Writing)))
      | _ \<Rightarrow> None)"
| "rw_next ResumeHere h l ph =
     (case ph h of
        RWoken \<Rightarrow> Some (l, ph(h := Reading))
      | WWoken \<Rightarrow> Some (l, ph(h := Writing))
      | _ \<Rightarrow> None)"
| "rw_next UnlockRead h l ph =
     (if ph h = Reading
      then (let (l', ws) = AsyncRWLock_ReadUnlock l in Some (l', rw_woken ws (ph(h := RwIdle))))
      else None)"
| "rw_next UnlockWrite h l ph =
     (if ph h = Writing
      then (let (l', ws) = AsyncRWLock_WriteUnlock l in Some (l', rw_woken ws (ph(h := RwIdle))))
      else None)"

inductive rw_reach :: "AsyncRWLock \<Rightarrow> (handle \<Rightarrow> rw_phase) \<Rightarrow> bool" where
  rw_start: "rw_reach AsyncRWLock_init (\<lambda>_. RwIdle)"
| rw_step: "rw_reach l ph \<Longrightarrow> rw_next a h l ph = Some (l', ph') \<Longrightarrow> rw_reach l' ph'"

definition rw_inv :: "AsyncRWLock \<Rightarrow> (handle \<Rightarrow> rw_phase) \<Rightarrow> bool" where
  "rw_inv l ph \<longleftrightarrow>
     unat (rw_reader_count l) = card {h. reads (ph h)} \<and>
     card {h. writes (ph h)} = (if rw_write_locked l then 1 else 0) \<and>
     (rw_write_locked l \<longrightarrow> rw_reader_count l = 0) \<and>
     distinct (rw_read_waiters l) \<and> set (rw_read_waiters l) = {h. ph h = RSuspended} \<and>
     distinct (rw_write_waiters l) \<and> set (rw_write_waiters l) = {h. ph h = WSuspended} \<and>
     ph 0 = RwIdle \<and>
     (rw_read_waiters l \<noteq> [] \<longrightarrow> rw_write_locked l \<or> rw_write_waiters l \<noteq> []) \<and>
     (rw_write_waiters l \<noteq> [] \<longrightarrow> rw_write_locked l \<or> rw_reader_count l \<noteq> 0)"

lemma rw_inv_init: "rw_inv AsyncRWLock_init (\<lambda>_. RwIdle)"
  by (simp add: rw_inv_def AsyncRWLock_init_def)

lemma card_reads_enter:
  fixes ph :: "handle \<Rightarrow> rw_phase"
  assumes "reads p" and "\<not> reads (ph h)"
  shows "card {x. reads ((ph(h := p)) x)} = Suc (card {x. reads (ph x)})"
  using assms by (rule card_phase_enter [where P = reads and f = ph and a = h])

lemma card_writes_enter:
  fixes ph :: "handle \<Rightarrow> rw_phase"
  assumes "writes p" and "\<not> writes (ph h)"
  shows "card {x. writes ((ph(h := p)) x)} = Suc (card {x. writes (ph x)})"
  using assms by (rule card_phase_enter [where P = writes and f = ph and a = h])

lemma reader_count_inc:
  assumes inv: "rw_inv l ph" and h: "h \<noteq> 0" "\<not> reads (ph h)"
  shows "unat (rw_reader_count l + 1) = Suc (card {x. reads (ph x)})"
proof -
  have "card (insert h {x. reads (ph x)}) < 2 ^ 64"
    by (rule card_handles_less) (use inv h in \<open>auto simp: rw_inv_def\<close>)
  moreover have "card (insert h {x. reads (ph x)}) = Suc (card {x. reads (ph x)})"
    using h by simp
  ultimately have "unat (rw_reader_count l) < 2 ^ 64 - 1" using inv by (simp add: rw_inv_def)
  then show ?thesis using inv by (simp add: unat_inc rw_inv_def)
qed

lemma enter_read_inv:
  assumes inv: "rw_inv l ph" and h: "ph h = RwIdle \<or> ph h = RPolled" "h \<noteq> 0"
    and free: "\<not> rw_write_locked l" "rw_write_waiters l = []"
  shows "rw_inv (l\<lparr>rw_reader_count := rw_reader_count l + 1\<rparr>) (ph(h := Reading))"
proof -
  have "rw_read_waiters l = []" using inv free by (auto simp: rw_inv_def)
  moreover have "\<not> reads (ph h)" using h(1) by auto
  from reader_count_inc [OF inv h(2) this] card_reads_enter [of Reading ph h, OF _ this]
  have "unat (rw_reader_count l + 1) = card {x. reads ((ph(h := Reading)) x)}"
    by (simp only: reads.simps simp_thms)
  moreover have "{x. writes ((ph(h := Reading)) x)} = {x. writes (ph x)}"
    and "{x. (ph(h := Reading)) x = RSuspended} = {x. ph x = RSuspended}"
    and "{x. (ph(h := Reading)) x = WSuspended} = {x. ph x = WSuspended}"
    using h(1) by (auto split: if_splits)
  ultimately show ?thesis using inv free h(2) by (simp add: rw_inv_def)
qed

lemma enter_write_inv:
  assumes inv: "rw_inv l ph" and h: "ph h = RwIdle \<or> ph h = WPolled" "h \<noteq> 0"
    and free: "\<not> rw_write_locked l" "rw_reader_count l = 0"
  shows "rw_inv (l\<lparr>rw_write_locked := True\<rparr>) (ph(h := Writing))"
proof -
  have "\<not> writes (ph h)" using h(1) by auto
  then have "card {x. writes ((ph(h := Writing)) x)} = Suc (card {x. writes (ph x)})"
    by (rule card_writes_enter [rotated]) simp
  moreover have "{x. reads ((ph(h := Writing)) x)} = {x. reads (ph x)}"
    and "{x. (ph(h := Writing)) x = RSuspended} = {x. ph x = RSuspended}"
    and "{x. (ph(h := Writing)) x = WSuspended} = {x. ph x = WSuspended}"
    using h(1) by (auto split: if_splits)
  ultimately show ?thesis using inv free h(2) by (auto simp: rw_inv_def)
qed

lemma poll_fail_inv:
  assumes inv: "rw_inv l ph" and "ph h = RwIdle" "h \<noteq> 0" and "p = RPolled \<or> p = WPolled"
  shows "rw_inv l (ph(h := p))"
proof -
  have "{x. reads ((ph(h := p)) x)} = {x. reads (ph x)}"
    and "{x. writes ((ph(h := p)) x)} = {x. writes (ph x)}"
    and "{x. (ph(h := p)) x = RSuspended} = {x. ph x = RSuspended}"
    and "{x. (ph(h := p)) x = WSuspended} = {x. ph x = WSuspended}"
    using assms(2,4) by (auto split: if_splits)
  then show ?thesis using inv assms(3) by (simp add: rw_inv_def)
qed

lemma suspend_read_inv:
  assumes inv: "rw_inv l ph" and h: "ph h = RPolled"
    and busy: "rw_write_locked l \<or> rw_write_waiters l \<noteq> []"
  shows "rw_inv (l\<lparr>rw_read_waiters := rw_read_waiters l @ [h]\<rparr>) (ph(h := RSuspended))"
proof -
  have "{x. reads ((ph(h := RSuspended)) x)} = {x. reads (ph x)}"
    and "{x. writes ((ph(h := RSuspended)) x)} = {x. writes (ph x)}"
    and "{x. (ph(h := RSuspended)) x = RSuspended} = insert h {x. ph x = RSuspended}"
    and "{x. (ph(h := RSuspended)) x = WSuspended} = {x. ph x = WSuspended}"
    and "h \<noteq> 0" "h \<notin> set (rw_read_waiters l)"
    using inv h by (auto simp: rw_inv_def)
  then show ?thesis using inv busy by (simp add: rw_inv_def)
qed

lemma suspend_write_inv:
  assumes inv: "rw_inv l ph" and h: "ph h = WPolled"
    and busy: "rw_write_locked l \<or> rw_reader_count l \<noteq> 0"
  shows "rw_inv (l\<lparr>rw_write_waiters := rw_write_waiters l @ [h]\<rparr>) (ph(h := WSuspended))"
proof -
  have "{x. reads ((ph(h := WSuspended)) x)} = {x. reads (ph x)}"
    and "{x. writes ((ph(h := WSuspended)) x)} = {x. writes (ph x)}"
    and "{x. (ph(h := WSuspended)) x = RSuspended} = {x. ph x = RSuspended}"
    and "{x. (ph(h := WSuspended)) x = WSuspended} = insert h {x. ph x = WSuspended}"
    and "h \<noteq> 0" "h \<notin> set (rw_write_waiters l)"
    using inv h by (auto simp: rw_inv_def)
  then show ?thesis using inv busy by (simp add: rw_inv_def)
qed

lemma resume_inv:
  assumes inv: "rw_inv l ph" and h: "ph h = RWoken \<and> p = Reading \<or> ph h = WWoken \<and> p = Writing"
  shows "rw_inv l (ph(h := p))"
proof -
  have "{x. reads ((ph(h := p)) x)} = {x. reads (ph x)}"
    and "{x. writes ((ph(h := p)) x)} = {x. writes (ph x)}"
    and "{x. (ph(h := p)) x = RSuspended} = {x. ph x = RSuspended}"
    and "{x. (ph(h := p)) x = WSuspended} = {x. ph x = WSuspended}"
    and "h \<noteq> 0"
    using inv h by (auto simp: rw_inv_def)
  then show ?thesis using inv by (simp add: rw_inv_def)
qed

text \<open>The hand-over to the first waiting writer, shared by both unlocks.\<close>

lemma grant_writer_inv:
  assumes w: "set (w # ws) = {x. ph x = WSuspended}" "distinct (w # ws)" and w0: "ph 0 = RwIdle"
    and none: "{x. reads (ph x)} = {}" "{x. writes (ph x)} = {}"
    and r: "distinct rs" "set rs = {x. ph x = RSuspended}"
  shows "rw_inv \<lparr>rw_reader_count = 0, rw_write_locked = True, rw_read_waiters = rs, rw_write_waiters = ws\<rparr>
           (rw_woken [w] ph)"
proof -
  have pw: "ph w = WSuspended" using w(1) by auto
  have upd: "rw_woken [w] ph = ph(w := WWoken)" using pw by (auto simp: rw_woken_def)
  have "{x. reads ((ph(w := WWoken)) x)} = {}"
    and "{x. writes ((ph(w := WWoken)) x)} = {w}"
    and "{x. (ph(w := WWoken)) x = RSuspended} = {x. ph x = RSuspended}"
    and "{x. (ph(w := WWoken)) x = WSuspended} = set ws"
    and "w \<noteq> 0"
    using none w pw w0 by (auto split: if_splits)
  then show ?thesis using r w(2) w0 by (simp add: upd rw_inv_def)
qed

lemma read_unlock_inv:
  assumes inv: "rw_inv l ph" and h: "ph h = Reading"
    and eq: "AsyncRWLock_ReadUnlock l = (l', ws)"
  shows "rw_inv l' (rw_woken ws (ph(h := RwIdle)))"
proof -
  let ?ph = "ph(h := RwIdle)" and ?n = "rw_reader_count l - 1"
  have hin: "h \<in> {x. reads (ph x)}" using h by simp
  have n0: "rw_reader_count l \<noteq> 0"
  proof
    assume "rw_reader_count l = 0"
    then have "card {x. reads (ph x)} = 0" using inv by (simp add: rw_inv_def)
    then show False using hin by simp
  qed
  then have unlocked: "\<not> rw_write_locked l" using inv by (auto simp: rw_inv_def)
  have "Suc (card {x. reads (?ph x)}) = card {x. reads (ph x)}"
    by (rule card_phase_leave [of reads]) (simp_all add: h)
  then have cnt: "unat ?n = card {x. reads (?ph x)}"
    using unat_dec [OF n0] inv by (simp add: rw_inv_def)
  have noW: "{x. writes (?ph x)} = {}" using inv unlocked by (auto simp: rw_inv_def)
  have sets: "{x. ?ph x = RSuspended} = {x. ph x = RSuspended}"
    "{x. ?ph x = WSuspended} = {x. ph x = WSuspended}" "h \<noteq> 0"
    using h inv by (auto simp: rw_inv_def)
  show ?thesis
  proof (cases "rw_write_waiters l")
    case Nil
    then have "rw_read_waiters l = []" using inv unlocked by (auto simp: rw_inv_def)
    with eq Nil cnt noW sets unlocked inv show ?thesis
      by (auto simp: AsyncRWLock_ReadUnlock_def rw_woken_def rw_inv_def)
  next
    case (Cons w rest)
    show ?thesis
    proof (cases "?n = 0")
      case False
      with eq Cons cnt noW sets unlocked inv show ?thesis
        by (auto simp: AsyncRWLock_ReadUnlock_def rw_woken_def rw_inv_def)
    next
      case True
      then have noR: "{x. reads (?ph x)} = {}" using cnt by simp
      have "rw_inv \<lparr>rw_reader_count = 0, rw_write_locked = True,
          rw_read_waiters = rw_read_waiters l, rw_write_waiters = rest\<rparr> (rw_woken [w] ?ph)"
        by (rule grant_writer_inv)
          (use inv Cons sets noR noW in \<open>simp_all add: rw_inv_def\<close>)
      moreover have "l' = \<lparr>rw_reader_count = 0, rw_write_locked = True,
          rw_read_waiters = rw_read_waiters l, rw_write_waiters = rest\<rparr>" "ws = [w]"
        using eq Cons True by (auto simp: AsyncRWLock_ReadUnlock_def)
      ultimately show ?thesis by simp
    qed
  qed
qed

text \<open>Admitting all waiting readers when nobody holds the lock.\<close>

lemma grant_readers_inv:
  assumes inv: "rw_inv l ph" and rs: "set rs = {x. ph' x = RSuspended}" "distinct rs" "rs \<noteq> []"
    and no: "{x. writes (ph' x)} = {}" "{x. reads (ph' x)} = {}" "ph' 0 = RwIdle"
    and ws: "{x. ph' x = WSuspended} = {x. ph x = WSuspended}"
  shows "rw_inv (l\<lparr>rw_write_locked := False, rw_reader_count := word_of_nat (length rs), rw_read_waiters := []\<rparr>)
    (rw_woken rs ph')"
proof -
  have reads': "{x. reads (rw_woken rs ph' x)} = set rs" using no(2) rs(1) by (auto simp: rw_woken_def)
  have "card (set rs) < 2 ^ 64" by (rule card_handles_less) (use rs(1) no(3) in auto)
  then have len: "unat (word_of_nat (length rs) :: 64 word) = length rs"
    using distinct_card [OF rs(2)] by (simp add: unsigned_of_nat take_bit_nat_eq_self)
  have "length rs \<noteq> 0" using rs(3) by simp
  then have "(word_of_nat (length rs) :: 64 word) \<noteq> 0" using len by (metis unat_0)
  moreover have "{x. writes (rw_woken rs ph' x)} = {}" using no(1) rs(1) by (auto simp: rw_woken_def)
  moreover have "{x. rw_woken rs ph' x = RSuspended} = {}" using rs(1) by (auto simp: rw_woken_def)
  moreover have "{x. rw_woken rs ph' x = WSuspended} = {x. ph x = WSuspended}"
    unfolding ws [symmetric] using rs(1) by (auto simp: rw_woken_def)
  moreover have "rw_woken rs ph' 0 = RwIdle" using rs(1) no(3) by (auto simp: rw_woken_def)
  ultimately show ?thesis using inv len reads' distinct_card [OF rs(2)] by (simp add: rw_inv_def)
qed

lemma write_unlock_inv:
  assumes inv: "rw_inv l ph" and h: "ph h = Writing"
    and eq: "AsyncRWLock_WriteUnlock l = (l', ws)"
  shows "rw_inv l' (rw_woken ws (ph(h := RwIdle)))"
proof -
  let ?ph = "ph(h := RwIdle)"
  have hin: "h \<in> {x. writes (ph x)}" using h by simp
  then have c1: "card {x. writes (ph x)} = 1" and locked: "rw_write_locked l"
    using inv by (auto simp: rw_inv_def split: if_splits)
  from c1 obtain z where "{x. writes (ph x)} = {z}" by (rule card_1_singletonE)
  with hin have "{x. writes (ph x)} = {h}" by (metis singletonD)
  then have noW: "{x. writes (?ph x)} = {}" by auto
  have cnt0: "rw_reader_count l = 0" using inv locked by (simp add: rw_inv_def)
  then have noR: "{x. reads (?ph x)} = {}" using inv h by (auto simp: rw_inv_def)
  have sets: "{x. ?ph x = RSuspended} = {x. ph x = RSuspended}"
    "{x. ?ph x = WSuspended} = {x. ph x = WSuspended}" "h \<noteq> 0" "?ph 0 = RwIdle"
    using h inv by (auto simp: rw_inv_def)
  show ?thesis
  proof (cases "rw_read_waiters l = []")
    case True
    show ?thesis
    proof (cases "rw_write_waiters l")
      case Nil
      with eq True noW noR cnt0 sets inv show ?thesis
        by (auto simp: AsyncRWLock_WriteUnlock_def rw_woken_def rw_inv_def)
    next
      case (Cons w rest)
      have "rw_inv \<lparr>rw_reader_count = 0, rw_write_locked = True,
          rw_read_waiters = [], rw_write_waiters = rest\<rparr> (rw_woken [w] ?ph)"
        by (rule grant_writer_inv)
          (use inv Cons sets noR noW True in \<open>simp_all add: rw_inv_def\<close>)
      moreover have "l' = \<lparr>rw_reader_count = 0, rw_write_locked = True,
          rw_read_waiters = [], rw_write_waiters = rest\<rparr>" "ws = [w]"
        using eq Cons True cnt0 by (auto simp: AsyncRWLock_WriteUnlock_def)
      ultimately show ?thesis by simp
    qed
  next
    case False
    have l': "l' = l\<lparr>rw_write_locked := False, rw_reader_count := word_of_nat (length (rw_read_waiters l)),
        rw_read_waiters := []\<rparr>" "ws = rw_read_waiters l"
      using eq False by (auto simp: AsyncRWLock_WriteUnlock_def)
    have "set (rw_read_waiters l) = {x. ?ph x = RSuspended}" "distinct (rw_read_waiters l)"
      using inv sets by (simp_all add: rw_inv_def)
    from grant_readers_inv [OF inv this False noW noR sets(4,2)] show ?thesis unfolding l' .
  qed
qed

lemma rw_next_inv:
  assumes inv: "rw_inv l ph" and eq: "rw_next a h l ph = Some (l', ph')"
  shows "rw_inv l' ph'"
proof (cases a)
  case PollRead
  with eq inv show ?thesis
    by (auto simp: ReadLockAwaitable_await_ready_def intro: enter_read_inv poll_fail_inv split: if_splits)
next
  case PollWrite
  with eq inv show ?thesis
    by (auto simp: WriteLockAwaitable_await_ready_def intro: enter_write_inv poll_fail_inv split: if_splits)
next
  case SuspendHere
  have "h \<noteq> 0" if "ph h \<noteq> RwIdle" using inv that by (auto simp: rw_inv_def)
  with SuspendHere eq inv show ?thesis
    by (auto simp: ReadLockAwaitable_await_suspend_def WriteLockAwaitable_await_suspend_def
        intro: enter_read_inv enter_write_inv suspend_read_inv suspend_write_inv
        split: if_splits rw_phase.splits)
next
  case ResumeHere
  with eq inv show ?thesis by (auto intro: resume_inv split: rw_phase.splits)
next
  case UnlockRead
  with eq read_unlock_inv [OF inv] show ?thesis by (auto split: if_splits prod.splits)
next
  case UnlockWrite
  with eq write_unlock_inv [OF inv] show ?thesis by (auto split: if_splits prod.splits)
qed

lemma rw_reach_inv: "rw_reach l ph \<Longrightarrow> rw_inv l ph"
  by (induction rule: rw_reach.induct) (auto intro: rw_inv_init rw_next_inv)

fun rw_exec :: "(rw_label \<times> handle) list \<Rightarrow> AsyncRWLock \<Rightarrow> (handle \<Rightarrow> rw_phase) \<Rightarrow>
    (AsyncRWLock \<times> (handle \<Rightarrow> rw_phase)) option" where
  "rw_exec [] l ph = Some (l, ph)"
| "rw_exec ((a, h) # as) l ph =
     (case rw_next a h l ph of None \<Rightarrow> None | Some (l', ph') \<Rightarrow> rw_exec as l' ph')"

lemma rw_exec_reach:
  "rw_reach l ph \<Longrightarrow> rw_exec as l ph = Some (l', ph') \<Longrightarrow> rw_reach l' ph'"
proof (induction as arbitrary: l ph)
  case (Cons a as)
  then show ?case
    by (cases a) (auto split: option.splits dest: rw_step)
qed simp

lemmas rw_exec_start = rw_exec_reach [OF rw_start]

subsection \<open>Properties\<close>

text \<open>
  Property C6 (reader/writer exclusion).  In every interleaving of the awaitables' and the
  guards' operations, a coroutine that owns the write lock is the only owner: nobody
  else reads or writes; and the 64-bit reader count is exactly the number of
  coroutines that own a read lock.
\<close>

theorem rwlock_exclusion:
  assumes "rw_reach l ph"
  shows "unat (rw_reader_count l) = card {h. reads (ph h)} \<and>
         (writes (ph h) \<longrightarrow> (\<forall>h'. h' \<noteq> h \<longrightarrow> \<not> reads (ph h') \<and> \<not> writes (ph h')))"
proof -
  note inv = rw_reach_inv [OF assms]
  have "\<not> reads (ph h') \<and> \<not> writes (ph h')" if w: "writes (ph h)" and "h' \<noteq> h" for h'
  proof -
    have hin: "h \<in> {x. writes (ph x)}" using w by simp
    then have c: "card {x. writes (ph x)} = 1" "rw_write_locked l"
      using inv by (auto simp: rw_inv_def split: if_splits)
    from c(1) obtain z where z: "{x. writes (ph x)} = {z}" by (rule card_1_singletonE)
    with hin have "{x. writes (ph x)} = {h}" by (metis singletonD)
    moreover have "{x. reads (ph x)} = {}" using inv c(2) by (auto simp: rw_inv_def)
    ultimately show ?thesis using \<open>h' \<noteq> h\<close> by blast
  qed
  then show ?thesis using inv by (auto simp: rw_inv_def)
qed

theorem rwlock_exclusion_witness:
  "\<exists>l ph. rw_reach l ph \<and> writes (ph 1) \<and> \<not> writes (ph 2) \<and> unat (rw_reader_count l) = card {h. reads (ph h)}"
proof -
  obtain l ph where "rw_exec [(PollWrite, 1), (PollRead, 2)] AsyncRWLock_init (\<lambda>_. RwIdle) = Some (l, ph)"
    and w: "writes (ph 1)"
    by (simp add: AsyncRWLock_defs)
  from rw_exec_start [OF this(1)] have r: "rw_reach l ph" .
  have "(2 :: handle) \<noteq> 1" by simp
  then have "\<not> writes (ph 2)" "unat (rw_reader_count l) = card {h. reads (ph h)}"
    using rwlock_exclusion [OF r, of 1] w by blast+
  then show ?thesis using r w by blast
qed

text \<open>
  No lost wakeup:  Whenever no coroutine owns the lock for reading or for
  writing, no coroutine is suspended on it: an unlock never leaves a waiter behind.
\<close>

theorem rwlock_no_lost_wakeup:
  assumes "rw_reach l ph" and "\<And>h. \<not> reads (ph h) \<and> \<not> writes (ph h)"
  shows "rw_read_waiters l = [] \<and> rw_write_waiters l = [] \<and>
         ph h \<noteq> RSuspended \<and> ph h \<noteq> WSuspended"
proof -
  note inv = rw_reach_inv [OF assms(1)]
  have "\<not> rw_write_locked l" and "rw_reader_count l = 0"
    using inv assms(2) by (auto simp: rw_inv_def unat_eq_0 split: if_splits)
  then have "rw_write_waiters l = []" using inv by (auto simp: rw_inv_def)
  moreover then have "rw_read_waiters l = []"
    using inv \<open>\<not> rw_write_locked l\<close> by (auto simp: rw_inv_def)
  ultimately show ?thesis using inv by (auto simp: rw_inv_def)
qed

theorem rwlock_no_lost_wakeup_witness:
  "\<exists>l ph. rw_reach l ph \<and> ph 2 = RwIdle \<and> rw_write_waiters l = [] \<and> rw_read_waiters l = []"
proof -
  let ?as = "[(PollRead, 1), (PollWrite, 2), (SuspendHere, 2), (UnlockRead, 1), (ResumeHere, 2), (UnlockWrite, 2)]"
  obtain l ph where "rw_exec ?as AsyncRWLock_init (\<lambda>_. RwIdle) = Some (l, ph)"
    and w: "\<And>h. ph h = RwIdle"
    by (simp add: AsyncRWLock_defs rw_woken_def)
  from rw_exec_start [OF this(1)] have r: "rw_reach l ph" .
  then show ?thesis using rwlock_no_lost_wakeup [OF r] w by auto
qed

text \<open>
  Writer preference and reader batch: While a writer is suspended, a coroutine
  that asks for the read lock does not get it: its \<open>await_ready\<close> fails and its
  \<open>await_suspend\<close> enqueues it.  When a writer unlocks and readers wait, the whole batch
  of waiting readers owns the lock afterwards and no writer does.
\<close>

theorem rwlock_fairness:
  assumes reach: "rw_reach l ph"
  shows "(ph w = WSuspended \<longrightarrow>
            fst (ReadLockAwaitable_await_ready l) = False \<and>
            fst (ReadLockAwaitable_await_suspend h l) = True) \<and>
         (rw_next UnlockWrite h l ph = Some (l', ph') \<and> ph r = RSuspended \<longrightarrow>
            {x. reads (ph' x)} = {x. ph x = RSuspended} \<and> {x. writes (ph' x)} = {} \<and>
            unat (rw_reader_count l') = card {x. ph x = RSuspended} \<and>
            rw_write_waiters l' = rw_write_waiters l)"
proof (intro conjI impI)
  note inv = rw_reach_inv [OF reach]
  {
    assume "ph w = WSuspended"
    then have "rw_write_waiters l \<noteq> []" using inv by (force simp: rw_inv_def)
    then show "fst (ReadLockAwaitable_await_ready l) = False"
      and "fst (ReadLockAwaitable_await_suspend h l) = True"
      by (simp_all add: AsyncRWLock_defs)
  }
  assume a: "rw_next UnlockWrite h l ph = Some (l', ph') \<and> ph r = RSuspended"
  then have h: "ph h = Writing" by (simp split: if_splits)
  have rs: "rw_read_waiters l \<noteq> []" "set (rw_read_waiters l) = {x. ph x = RSuspended}"
    using inv a by (force simp: rw_inv_def)+
  have "rw_reach l' ph'" by (rule rw_step [OF reach conjunct1 [OF a]])
  note inv' = rw_reach_inv [OF this]
  have eqs: "l' = l\<lparr>rw_write_locked := False, rw_reader_count := word_of_nat (length (rw_read_waiters l)),
        rw_read_waiters := []\<rparr>" "ph' = rw_woken (rw_read_waiters l) (ph(h := RwIdle))"
    using a h rs(1) by (auto simp: AsyncRWLock_WriteUnlock_def split: if_splits)
  show wr: "{x. writes (ph' x)} = {}" using inv' by (simp add: eqs rw_inv_def)
  have "h \<in> {x. writes (ph x)}" using h by simp
  then have "rw_write_locked l" using inv by (auto simp: rw_inv_def split: if_splits)
  then have "{x. reads (ph x)} = {}" using inv by (auto simp: rw_inv_def)
  then show rd: "{x. reads (ph' x)} = {x. ph x = RSuspended}"
    using h rs(2) by (auto simp: eqs rw_woken_def)
  show "unat (rw_reader_count l') = card {x. ph x = RSuspended}"
    using inv' rd by (simp add: rw_inv_def)
  show "rw_write_waiters l' = rw_write_waiters l" by (simp add: eqs)
qed

theorem rwlock_fairness_witness:
  "\<exists>l ph l' ph'. rw_reach l ph \<and> ph 2 = WSuspended \<and> ph 3 = RSuspended \<and>
     rw_next UnlockWrite 1 l ph = Some (l', ph') \<and> reads (ph' 3) \<and> rw_write_waiters l' = [2]"
proof -
  let ?as = "[(PollWrite, 1), (PollWrite, 2), (PollRead, 3), (SuspendHere, 2), (SuspendHere, 3)]"
  obtain l ph where ex: "rw_exec ?as AsyncRWLock_init (\<lambda>_. RwIdle) = Some (l, ph)"
    and ph: "ph 1 = Writing" "ph 2 = WSuspended" "ph 3 = RSuspended" "rw_write_waiters l = [2]"
    by (simp add: AsyncRWLock_defs)
  from rw_exec_start [OF ex] have r: "rw_reach l ph" .
  obtain l' ph' where n: "rw_next UnlockWrite 1 l ph = Some (l', ph')"
    using ph by (cases "AsyncRWLock_WriteUnlock l") simp
  then have "{x. reads (ph' x)} = {x. ph x = RSuspended}" "rw_write_waiters l' = [2]"
    using rwlock_fairness [OF r, of 2 1 l' ph' 3] ph by auto
  then show ?thesis using r n ph by blast
qed

end
