(* ===== verification/RWLock_Fair.thy ===== *)
theory RWLock_Fair
  imports RWLock
begin

text \<open>
  Nobody starves on \<open>AsyncRWLock\<close>: how many write unlocks a suspended coroutine can see before it is
  granted the lock, and that a step towards an unlock is always possible while it waits.
\<close>

text \<open>The writers that are served before \<open>h\<close>, with the one that owns the lock now.\<close>

definition write_rank :: "handle \<Rightarrow> AsyncRWLock \<Rightarrow> nat" where
  "write_rank h l = length (takeWhile (\<lambda>x. x \<noteq> h) (rw_write_waiters l)) + (if rw_write_locked l then 1 else 0)"

lemma takeWhile_enqueue: "h \<in> set xs \<Longrightarrow> takeWhile (\<lambda>x. x \<noteq> h) (xs @ [g]) = takeWhile (\<lambda>x. x \<noteq> h) xs"
  by (induction xs) auto

lemma owner_locks:
  assumes "rw_inv l ph"
  shows "writes (ph g) \<Longrightarrow> rw_write_locked l" and "reads (ph g) \<Longrightarrow> \<not> rw_write_locked l"
proof -
  show "rw_write_locked l" if "writes (ph g)"
  proof -
    have "card {x. writes (ph x)} \<noteq> 0" using that by (auto simp: card_eq_0_iff)
    with assms show ?thesis by (simp add: rw_inv_def split: if_splits)
  qed
  show "\<not> rw_write_locked l" if "reads (ph g)"
  proof -
    have "card {x. reads (ph x)} \<noteq> 0" using that by (auto simp: card_eq_0_iff)
    with assms show ?thesis by (auto simp: rw_inv_def unat_eq_0)
  qed
qed

lemma writer_step:
  assumes inv: "rw_inv l ph" and h: "ph h = WSuspended" and step: "rw_next a g l ph = Some (l', ph')"
  shows "writes (ph' h) \<or>
    ph' h = WSuspended \<and> write_rank h l = (if a = UnlockWrite then Suc (write_rank h l') else write_rank h l')"
proof -
  have mem: "h \<in> set (rw_write_waiters l)" using inv h by (simp add: rw_inv_def)
  then obtain w ws where ws: "rw_write_waiters l = w # ws" by (cases "rw_write_waiters l") auto
  have busy: "rw_write_locked l \<or> rw_reader_count l \<noteq> 0" using inv ws by (auto simp: rw_inv_def)
  have others: "\<forall>x \<in> set (rw_read_waiters l). ph x = RSuspended" using inv by (auto simp: rw_inv_def)
  show ?thesis
  proof (cases a)
    case UnlockRead
    with step have g: "ph g = Reading" by (auto split: if_splits)
    with owner_locks(2) [OF inv, of g] have "\<not> rw_write_locked l" by simp
    with step UnlockRead g h ws show ?thesis
      by (auto simp: AsyncRWLock_ReadUnlock_def rw_woken_def write_rank_def Let_def split: if_splits)
  next
    case UnlockWrite
    with step have g: "ph g = Writing" by (auto split: if_splits)
    with owner_locks(1) [OF inv, of g] have "rw_write_locked l" by simp
    with step UnlockWrite g h ws others show ?thesis
      by (auto simp: AsyncRWLock_WriteUnlock_def rw_woken_def write_rank_def Let_def split: if_splits)
  qed (use step h ws busy mem in \<open>auto simp: AsyncRWLock_defs write_rank_def takeWhile_enqueue split: if_splits rw_phase.splits\<close>)
qed

lemma reader_step:
  assumes inv: "rw_inv l ph" and h: "ph h = RSuspended" and step: "rw_next a g l ph = Some (l', ph')"
  shows "reads (ph' h) \<or> ph' h = RSuspended \<and> a \<noteq> UnlockWrite"
proof -
  have mem: "h \<in> set (rw_read_waiters l)" using inv h by (simp add: rw_inv_def)
  have others: "\<forall>x \<in> set (rw_write_waiters l). ph x = WSuspended" using inv by (auto simp: rw_inv_def)
  show ?thesis
    using step h mem others
    by (cases a) (auto simp: AsyncRWLock_ReadUnlock_def AsyncRWLock_WriteUnlock_def rw_woken_def Let_def
        split: if_splits prod.splits rw_phase.splits list.splits)
qed

definition write_unlocks :: "(rw_label \<times> handle) list \<Rightarrow> nat" where
  "write_unlocks as = length (filter (\<lambda>x. fst x = UnlockWrite) as)"

text \<open>At some moment of the run the lock is granted to \<open>h\<close>.\<close>

definition granted :: "(rw_phase \<Rightarrow> bool) \<Rightarrow> handle \<Rightarrow> (rw_label \<times> handle) list \<Rightarrow> AsyncRWLock \<Rightarrow> (handle \<Rightarrow> rw_phase) \<Rightarrow> bool" where
  "granted P h as l ph \<longleftrightarrow> (\<exists>n l1 ph1. rw_exec (take n as) l ph = Some (l1, ph1) \<and> P (ph1 h))"

lemma granted_now: "P (ph h) \<Longrightarrow> granted P h as l ph"
  by (auto simp: granted_def intro!: exI [of _ 0])

lemma granted_later: "rw_next a g l ph = Some (l', ph') \<Longrightarrow> granted P h as l' ph' \<Longrightarrow> granted P h ((a, g) # as) l ph"
  unfolding granted_def by (elim exE) (rule_tac x = "Suc n" in exI, auto)

lemma writer_granted:
  "rw_inv l ph \<Longrightarrow> ph h = WSuspended \<Longrightarrow> rw_exec as l ph = Some (l', ph') \<Longrightarrow> write_rank h l < write_unlocks as \<Longrightarrow>
   granted writes h as l ph"
proof (induction as arbitrary: l ph)
  case (Cons x as)
  obtain a g where x: "x = (a, g)" by (cases x)
  with Cons.prems(3) obtain l1 ph1 where step: "rw_next a g l ph = Some (l1, ph1)" "rw_exec as l1 ph1 = Some (l', ph')"
    by (auto split: option.splits)
  have inv1: "rw_inv l1 ph1" by (rule rw_next_inv [OF Cons.prems(1) step(1)])
  from writer_step [OF Cons.prems(1,2) step(1)] have "granted writes h as l1 ph1"
  proof (elim disjE conjE)
    assume "ph1 h = WSuspended" and "write_rank h l = (if a = UnlockWrite then Suc (write_rank h l1) else write_rank h l1)"
    with Cons.IH [OF inv1 _ step(2)] Cons.prems(4) x show ?thesis by (simp add: write_unlocks_def split: if_splits)
  qed (rule granted_now)
  then show ?case unfolding x by (rule granted_later [OF step(1)])
qed (simp add: write_unlocks_def)

lemma reader_granted:
  "rw_inv l ph \<Longrightarrow> ph h = RSuspended \<Longrightarrow> rw_exec as l ph = Some (l', ph') \<Longrightarrow> 0 < write_unlocks as \<Longrightarrow>
   granted reads h as l ph"
proof (induction as arbitrary: l ph)
  case (Cons x as)
  obtain a g where x: "x = (a, g)" by (cases x)
  with Cons.prems(3) obtain l1 ph1 where step: "rw_next a g l ph = Some (l1, ph1)" "rw_exec as l1 ph1 = Some (l', ph')"
    by (auto split: option.splits)
  have inv1: "rw_inv l1 ph1" by (rule rw_next_inv [OF Cons.prems(1) step(1)])
  from reader_step [OF Cons.prems(1,2) step(1)] have "granted reads h as l1 ph1"
  proof (elim disjE conjE)
    assume "ph1 h = RSuspended" and "a \<noteq> UnlockWrite"
    with Cons.IH [OF inv1 _ step(2)] Cons.prems(4) x show ?thesis by (simp add: write_unlocks_def)
  qed (rule granted_now)
  then show ?case unfolding x by (rule granted_later [OF step(1)])
qed (simp add: write_unlocks_def)

subsection \<open>The owners can always go on\<close>

text \<open>Steps that need no new request: a woken coroutine runs on, an owner unlocks.\<close>

definition owner_step :: "rw_label \<Rightarrow> bool" where
  "owner_step a \<longleftrightarrow> a = ResumeHere \<or> a = UnlockRead \<or> a = UnlockWrite"

fun phase_work :: "rw_phase \<Rightarrow> nat" where
  "phase_work RSuspended = 3"
| "phase_work WSuspended = 3"
| "phase_work RWoken = 2"
| "phase_work WWoken = 2"
| "phase_work Reading = 1"
| "phase_work Writing = 1"
| "phase_work _ = 0"

definition rw_work :: "(handle \<Rightarrow> rw_phase) \<Rightarrow> nat" where
  "rw_work ph = (\<Sum>h \<in> UNIV. phase_work (ph h))"

lemma rw_work_less: "(\<And>x. phase_work (ph' x) \<le> phase_work (ph x)) \<Longrightarrow> phase_work (ph' g) < phase_work (ph g) \<Longrightarrow> rw_work ph' < rw_work ph"
  unfolding rw_work_def by (rule sum_strict_mono_ex1) auto

lemma phase_work_wake: "phase_work (rw_woken ws ph x) \<le> phase_work (ph x)"
  by (cases "ph x") (simp_all add: rw_woken_def)

lemma owner_exists:
  assumes "rw_inv l ph" and "ph h = WSuspended \<or> ph h = RSuspended"
  shows "\<exists>g. reads (ph g) \<or> writes (ph g)"
proof -
  have "rw_write_locked l \<or> rw_reader_count l \<noteq> 0"
    using assms by (fastforce simp: rw_inv_def)
  moreover have "unat (rw_reader_count l) = card {x. reads (ph x)}"
    "card {x. writes (ph x)} = (if rw_write_locked l then 1 else 0)"
    using assms(1) by (simp_all add: rw_inv_def)
  moreover have "rw_reader_count l \<noteq> 0 \<Longrightarrow> unat (rw_reader_count l) \<noteq> 0" by (simp add: unat_eq_0)
  ultimately have "card {x. reads (ph x)} \<noteq> 0 \<or> card {x. writes (ph x)} \<noteq> 0" by (auto simp del: unat_eq_0 card_eq_0_iff)
  then show ?thesis by (auto simp: card_eq_0_iff)
qed

lemma owner_progress:
  assumes "rw_inv l ph" and "ph h = WSuspended \<or> ph h = RSuspended"
  shows "\<exists>a g l' ph'. owner_step a \<and> rw_next a g l ph = Some (l', ph') \<and> rw_work ph' < rw_work ph"
proof -
  from owner_exists [OF assms] obtain g where g: "reads (ph g) \<or> writes (ph g)" by blast
  have resume: "rw_work (ph(g := p)) < rw_work ph" if "phase_work p < phase_work (ph g)" for p
    by (rule rw_work_less [of _ _ g]) (use that in auto)
  have unlock: "rw_work (rw_woken ws (ph(g := RwIdle))) < rw_work ph" if "0 < phase_work (ph g)" for ws
  proof (rule rw_work_less [of _ _ g])
    show "phase_work (rw_woken ws (ph(g := RwIdle)) x) \<le> phase_work (ph x)" for x
      using phase_work_wake [of ws "ph(g := RwIdle)" x] by (cases "x = g") auto
    show "phase_work (rw_woken ws (ph(g := RwIdle)) g) < phase_work (ph g)"
      using that by (simp add: rw_woken_def)
  qed
  from g show ?thesis
  proof (cases "ph g")
    case RWoken
    then show ?thesis using resume [of Reading] by (intro exI [of _ ResumeHere] exI [of _ g]) (simp add: owner_step_def)
  next
    case WWoken
    then show ?thesis using resume [of Writing] by (intro exI [of _ ResumeHere] exI [of _ g]) (simp add: owner_step_def)
  next
    case Reading
    then show ?thesis
      using unlock by (intro exI [of _ UnlockRead] exI [of _ g]) (simp add: owner_step_def case_prod_unfold Let_def)
  next
    case Writing
    then show ?thesis
      using unlock by (intro exI [of _ UnlockWrite] exI [of _ g]) (simp add: owner_step_def case_prod_unfold Let_def)
  qed auto
qed

lemma owners_grant:
  assumes "rw_inv l ph" and "ph h = p" and p: "p = WSuspended \<and> P = writes \<or> p = RSuspended \<and> P = reads"
  shows "\<exists>as. (\<forall>x \<in> set as. owner_step (fst x)) \<and> granted P h as l ph"
  using assms(1,2)
proof (induction "rw_work ph" arbitrary: l ph rule: less_induct)
  case less
  have "ph h = WSuspended \<or> ph h = RSuspended" using less.prems(2) p by auto
  from owner_progress [OF less.prems(1) this] obtain a g l' ph' where
    step: "owner_step a" "rw_next a g l ph = Some (l', ph')" "rw_work ph' < rw_work ph" by blast
  have "P (ph' h) \<or> ph' h = p"
    using writer_step [OF less.prems(1) _ step(2), of h] reader_step [OF less.prems(1) _ step(2), of h] less.prems(2) p by auto
  then have "\<exists>as. (\<forall>x \<in> set as. owner_step (fst x)) \<and> granted P h as l' ph'"
  proof
    assume "P (ph' h)"
    then show ?thesis by (intro exI [of _ "[]"]) (simp add: granted_now)
  next
    assume "ph' h = p"
    then show ?thesis by (rule less.hyps [OF step(3) rw_next_inv [OF less.prems(1) step(2)]])
  qed
  then obtain as where as: "\<forall>x \<in> set as. owner_step (fst x)" "granted P h as l' ph'" by blast
  then show ?case using step(1) granted_later [OF step(2) as(2)] by (intro exI [of _ "(a, g) # as"]) simp
qed

text \<open>
  Property C7 (nobody starves on the read-write lock).  In every reachable state and every continuation: a suspended
  reader is granted the lock at the next write unlock at the latest; a suspended writer with \<open>k\<close> others before it
  at the latest with the write unlock number \<open>k + 2\<close>, whatever readers and writers come after it.  And
  while a coroutine is suspended the lock's owners alone, by running on and unlocking, bring it to own the lock: the wait
  never depends on a new request.
\<close>

theorem rwlock_no_starvation:
  assumes "rw_reach l ph"
  shows "(ph h = RSuspended \<and> rw_exec as l ph = Some (l', ph') \<and> 0 < write_unlocks as \<longrightarrow> granted reads h as l ph) \<and>
    (rw_write_waiters l = xs @ h # ys \<and> rw_exec as l ph = Some (l', ph') \<and> length xs + 1 < write_unlocks as \<longrightarrow>
       granted writes h as l ph) \<and>
    (ph h = RSuspended \<longrightarrow> (\<exists>as. (\<forall>x \<in> set as. owner_step (fst x)) \<and> granted reads h as l ph)) \<and>
    (ph h = WSuspended \<longrightarrow> (\<exists>as. (\<forall>x \<in> set as. owner_step (fst x)) \<and> granted writes h as l ph))"
proof (intro conjI impI; (elim conjE)?)
  note inv = rw_reach_inv [OF assms]
  show "granted reads h as l ph" if "ph h = RSuspended" "rw_exec as l ph = Some (l', ph')" "0 < write_unlocks as"
    by (rule reader_granted [OF inv that])
  show "granted writes h as l ph"
    if w: "rw_write_waiters l = xs @ h # ys" and run: "rw_exec as l ph = Some (l', ph')" and n: "length xs + 1 < write_unlocks as"
  proof (rule writer_granted [OF inv _ run])
    have d: "distinct (xs @ h # ys)" and "set (xs @ h # ys) = {x. ph x = WSuspended}" using inv w by (auto simp: rw_inv_def)
    then show "ph h = WSuspended" by auto
    have "takeWhile (\<lambda>x. x \<noteq> h) (xs @ h # ys) = xs" using d by (simp add: takeWhile_append)
    then show "write_rank h l < write_unlocks as" using n by (simp add: write_rank_def w)
  qed
  show "\<exists>as. (\<forall>x \<in> set as. owner_step (fst x)) \<and> granted reads h as l ph" if "ph h = RSuspended"
    by (rule owners_grant [OF inv that]) simp
  show "\<exists>as. (\<forall>x \<in> set as. owner_step (fst x)) \<and> granted writes h as l ph" if "ph h = WSuspended"
    by (rule owners_grant [OF inv that]) simp
qed

theorem rwlock_no_starvation_witness:
  "\<exists>l ph as. rw_reach l ph \<and> ph 3 = RSuspended \<and> (\<forall>x \<in> set as. owner_step (fst x)) \<and> granted reads 3 as l ph"
proof -
  let ?as = "[(PollWrite, 1), (PollWrite, 2), (PollRead, 3), (SuspendHere, 2), (SuspendHere, 3)]"
  obtain l ph where ex: "rw_exec ?as AsyncRWLock_init (\<lambda>_. RwIdle) = Some (l, ph)" and ph: "ph 3 = RSuspended"
    by (simp add: AsyncRWLock_defs)
  from rw_exec_start [OF ex] have r: "rw_reach l ph" .
  from rwlock_no_starvation [OF r, of 3] r ph show ?thesis by blast
qed

end
