(* ===== verification/Gate.thy ===== *)
theory Gate
  imports Prelude
begin

text \<open>
  The contract that \<open>AsyncEvent\<close> and \<open>AsyncLatch\<close> share.  A gate is open or closed.
  Waiting on an open gate does not suspend; waiting on a closed one appends the handle
  to the waiters.  The operation that opens the gate takes all waiters out and resumes
  each; an operation that leaves it closed wakes nobody.  As for the locks, the
  operations are atomic and a woken coroutine is resumed in a later step.
\<close>

subsection \<open>Coroutines waiting at a gate\<close>

datatype gate_phase = Outside | Checked | Parked | Due | Through

text \<open>
  \<open>GOp o ws\<close> is one call of a state-changing operation \<open>o\<close> of the gate
  (\<open>Set\<close>, \<open>Reset\<close>, \<open>CountDown(n)\<close>) that resumes \<open>ws\<close>; \<open>GLeave\<close> lets a
  coroutine that went through wait again later.
\<close>

datatype 'o gate_label =
    GCheck handle | GPark handle | GOp 'o "handle list" | GResume handle | GLeave handle

fun gate_next ::
  "('s \<Rightarrow> bool) \<Rightarrow> (handle \<Rightarrow> 's \<Rightarrow> bool \<times> 's) \<Rightarrow> ('o \<Rightarrow> 's \<Rightarrow> 's \<times> handle list) \<Rightarrow>
   'o gate_label \<Rightarrow> 's \<Rightarrow> (handle \<Rightarrow> gate_phase) \<Rightarrow> ('s \<times> (handle \<Rightarrow> gate_phase)) option" where
  "gate_next rdy sus act (GCheck h) s ph =
     (if ph h = Outside then Some (s, ph(h := if rdy s then Through else Checked)) else None)"
| "gate_next rdy sus act (GPark h) s ph =
     (if ph h = Checked
      then (let (b, s') = sus h s in Some (s', ph(h := if b then Parked else Through))) else None)"
| "gate_next rdy sus act (GOp o1 ws) s ph =
     (let (s', ws') = act o1 s in
      if ws' = ws then Some (s', \<lambda>h. if h \<in> set ws then Due else ph h) else None)"
| "gate_next rdy sus act (GResume h) s ph =
     (if ph h = Due then Some (s, ph(h := Through)) else None)"
| "gate_next rdy sus act (GLeave h) s ph =
     (if ph h = Through then Some (s, ph(h := Outside)) else None)"

fun gate_exec ::
  "('s \<Rightarrow> bool) \<Rightarrow> (handle \<Rightarrow> 's \<Rightarrow> bool \<times> 's) \<Rightarrow> ('o \<Rightarrow> 's \<Rightarrow> 's \<times> handle list) \<Rightarrow>
   'o gate_label list \<Rightarrow> 's \<Rightarrow> (handle \<Rightarrow> gate_phase) \<Rightarrow> ('s \<times> (handle \<Rightarrow> gate_phase)) option" where
  "gate_exec rdy sus act [] s ph = Some (s, ph)"
| "gate_exec rdy sus act (l # ls) s ph =
     (case gate_next rdy sus act l s ph of
        None \<Rightarrow> None | Some (s', ph') \<Rightarrow> gate_exec rdy sus act ls s' ph')"

text \<open>How often a run parks and wakes a given coroutine.\<close>

fun wakes_of :: "handle \<Rightarrow> 'o gate_label \<Rightarrow> nat" where
  "wakes_of h (GOp _ ws) = count_list ws h"
| "wakes_of h _ = 0"

fun resumes_of :: "handle \<Rightarrow> 'o gate_label \<Rightarrow> nat" where
  "resumes_of h (GResume h') = (if h' = h then 1 else 0)"
| "resumes_of h _ = 0"

definition gate_wakes :: "handle \<Rightarrow> 'o gate_label list \<Rightarrow> nat" where
  "gate_wakes h ls = sum_list (map (wakes_of h) ls)"

definition gate_resumes :: "handle \<Rightarrow> 'o gate_label list \<Rightarrow> nat" where
  "gate_resumes h ls = sum_list (map (resumes_of h) ls)"

lemma gate_counts_simps [simp]:
  "gate_wakes h [] = 0" "gate_wakes h (l # ls) = wakes_of h l + gate_wakes h ls"
  "gate_resumes h [] = 0" "gate_resumes h (l # ls) = resumes_of h l + gate_resumes h ls"
  by (simp_all add: gate_wakes_def gate_resumes_def)

definition gate_inv ::
  "('s \<Rightarrow> bool) \<Rightarrow> ('s \<Rightarrow> handle list) \<Rightarrow> 's \<Rightarrow> (handle \<Rightarrow> gate_phase) \<Rightarrow> bool" where
  "gate_inv rdy waiting s ph \<longleftrightarrow>
     distinct (waiting s) \<and> set (waiting s) = {h. ph h = Parked} \<and>
     (rdy s \<longrightarrow> waiting s = [])"

lemma gate_inv_move:
  assumes "gate_inv rdy waiting s ph" and "ph h \<noteq> Parked" and "p \<noteq> Parked"
  shows "gate_inv rdy waiting s (ph(h := p))"
proof -
  have "{x. (ph(h := p)) x = Parked} = {x. ph x = Parked}" using assms(2,3) by auto
  then show ?thesis using assms(1) unfolding gate_inv_def by metis
qed

lemma distinct_count:
  "distinct xs \<Longrightarrow> count_list xs x = (if x \<in> set xs then 1 else 0)"
  by (induction xs) auto

locale gate =
  fixes rdy :: "'s \<Rightarrow> bool"
    and sus :: "handle \<Rightarrow> 's \<Rightarrow> bool \<times> 's"
    and act :: "'o \<Rightarrow> 's \<Rightarrow> 's \<times> handle list"
    and waiting :: "'s \<Rightarrow> handle list"
  assumes sus_open: "rdy s \<Longrightarrow> sus h s = (False, s)"
    and sus_closed: "\<not> rdy s \<Longrightarrow>
      \<exists>s'. sus h s = (True, s') \<and> waiting s' = waiting s @ [h] \<and> \<not> rdy s'"
    and act_opens: "act x s = (s', ws) \<Longrightarrow> rdy s \<longrightarrow> waiting s = [] \<Longrightarrow> rdy s' \<Longrightarrow>
      ws = waiting s \<and> waiting s' = []"
    and act_closed: "act x s = (s', ws) \<Longrightarrow> rdy s \<longrightarrow> waiting s = [] \<Longrightarrow> \<not> rdy s' \<Longrightarrow>
      ws = [] \<and> waiting s' = waiting s"
begin

lemma act_wakes:
  assumes inv: "gate_inv rdy waiting s ph" and eq: "act x s = (s', ws)"
  shows "distinct ws" and "set ws \<subseteq> {h. ph h = Parked}"
    and "gate_inv rdy waiting s' (\<lambda>h. if h \<in> set ws then Due else ph h)"
proof -
  have w: "rdy s \<longrightarrow> waiting s = []" using inv by (simp add: gate_inv_def)
  have "distinct ws \<and> set ws \<subseteq> {h. ph h = Parked} \<and>
      gate_inv rdy waiting s' (\<lambda>h. if h \<in> set ws then Due else ph h)"
  proof (cases "rdy s'")
    case True
    with act_opens [OF eq w] inv show ?thesis by (auto simp: gate_inv_def)
  next
    case False
    with act_closed [OF eq w] inv show ?thesis by (auto simp: gate_inv_def)
  qed
  then show "distinct ws" and "set ws \<subseteq> {h. ph h = Parked}"
    and "gate_inv rdy waiting s' (\<lambda>h. if h \<in> set ws then Due else ph h)" by auto
qed

lemma next_preserves:
  assumes inv: "gate_inv rdy waiting s ph" and nxt: "gate_next rdy sus act l s ph = Some (s', ph')"
  shows "gate_inv rdy waiting s' ph'"
proof (cases l)
  case (GPark h)
  show ?thesis
  proof (cases "rdy s")
    case True
    with GPark nxt have "s' = s" "ph' = ph(h := Through)" "ph h = Checked"
      by (auto simp: sus_open [OF True] split: if_splits)
    then show ?thesis using gate_inv_move [OF inv] by simp
  next
    case False
    from sus_closed [OF this, of h] obtain s1 where
      s1: "sus h s = (True, s1)" "waiting s1 = waiting s @ [h]" "\<not> rdy s1" by auto
    with GPark nxt have "s' = s1" "ph' = ph(h := Parked)" "ph h = Checked"
      by (auto split: if_splits)
    with inv s1 show ?thesis by (auto simp: gate_inv_def)
  qed
next
  case (GOp x ws)
  with nxt act_wakes(3) [OF inv, of x s' ws] show ?thesis
    by (auto split: if_splits prod.splits)
qed (use nxt inv in \<open>auto intro!: gate_inv_move split: if_splits\<close>)

lemma exec_preserves:
  "gate_inv rdy waiting s ph \<Longrightarrow> gate_exec rdy sus act ls s ph = Some (s', ph') \<Longrightarrow>
   gate_inv rdy waiting s' ph'"
proof (induction ls arbitrary: s ph)
  case (Cons l ls)
  then show ?case by (auto split: option.splits dest: next_preserves)
qed simp

text \<open>Every wake-up is matched by one resumption, up to the one that is still due.\<close>

lemma next_counts:
  assumes inv: "gate_inv rdy waiting s ph" and nxt: "gate_next rdy sus act l s ph = Some (s', ph')"
  shows "wakes_of h l + (if ph h = Due then 1 else 0) = resumes_of h l + (if ph' h = Due then 1 else 0)"
proof (cases l)
  case (GOp x ws)
  with nxt have eq: "act x s = (s', ws)" and ph': "ph' = (\<lambda>h. if h \<in> set ws then Due else ph h)"
    by (auto split: if_splits prod.splits)
  from act_wakes(1,2) [OF inv eq] have "count_list ws h = (if h \<in> set ws then 1 else 0)"
    and "h \<in> set ws \<Longrightarrow> ph h \<noteq> Due"
    by (auto simp: distinct_count)
  then show ?thesis using GOp ph' by simp
qed (use nxt in \<open>auto split: if_splits prod.splits\<close>)

lemma exec_counts:
  "gate_inv rdy waiting s ph \<Longrightarrow> gate_exec rdy sus act ls s ph = Some (s', ph') \<Longrightarrow>
   gate_wakes h ls + (if ph h = Due then 1 else 0) =
   gate_resumes h ls + (if ph' h = Due then 1 else 0)"
proof (induction ls arbitrary: s ph)
  case (Cons l ls)
  then obtain s1 ph1 where n: "gate_next rdy sus act l s ph = Some (s1, ph1)"
    and ex: "gate_exec rdy sus act ls s1 ph1 = Some (s', ph')"
    by (auto split: option.splits)
  from Cons.IH [OF next_preserves [OF Cons.prems(1) n] ex] next_counts [OF Cons.prems(1) n, of h]
  show ?case by simp
qed simp

text \<open>Opening the gate leaves nobody parked.\<close>

lemma open_frees_all:
  assumes "gate_inv rdy waiting s ph" and "gate_next rdy sus act (GOp x ws) s ph = Some (s', ph')"
    and "rdy s'"
  shows "set ws = {h. ph h = Parked}" and "ph' h \<noteq> Parked"
proof -
  have eq: "act x s = (s', ws)" using assms(2) by (auto split: if_splits prod.splits)
  have "rdy s \<longrightarrow> waiting s = []" using assms(1) by (simp add: gate_inv_def)
  from act_opens [OF eq this assms(3)] assms(1) show ws: "set ws = {h. ph h = Parked}"
    by (auto simp: gate_inv_def)
  show "ph' h \<noteq> Parked" using next_preserves [OF assms(1,2)] assms(3) by (auto simp: gate_inv_def)
qed

end

end
