(* ===== verification/Event.thy ===== *)
theory Event
  imports Gate
begin

text \<open>
  \<open>AsyncEvent\<close> of \<open>sync/event.hpp\<close> and \<open>AsyncLatch\<close> of \<open>sync/latch.hpp\<close>, each an
  interpretation of the gate contract.
\<close>

subsection \<open>AsyncEvent\<close>

record AsyncEvent =
  ev_signaled :: bool
  ev_waiters :: "handle list"

definition AsyncEvent_init :: AsyncEvent where
  "AsyncEvent_init = \<lparr>ev_signaled = False, ev_waiters = []\<rparr>"

definition EventWait_await_ready :: "AsyncEvent \<Rightarrow> bool" where
  "EventWait_await_ready e = ev_signaled e"

definition EventWait_await_suspend :: "handle \<Rightarrow> AsyncEvent \<Rightarrow> bool \<times> AsyncEvent" where
  "EventWait_await_suspend h e =
    (if ev_signaled e then (False, e) else (True, e\<lparr>ev_waiters := ev_waiters e @ [h]\<rparr>))"

definition AsyncEvent_Set :: "AsyncEvent \<Rightarrow> AsyncEvent \<times> handle list" where
  "AsyncEvent_Set e =
    (if ev_signaled e then (e, [])
     else (e\<lparr>ev_signaled := True, ev_waiters := []\<rparr>, ev_waiters e))"

definition AsyncEvent_Reset :: "AsyncEvent \<Rightarrow> AsyncEvent" where
  "AsyncEvent_Reset e = e\<lparr>ev_signaled := False\<rparr>"

definition AsyncEvent_IsSet :: "AsyncEvent \<Rightarrow> bool" where
  "AsyncEvent_IsSet e = ev_signaled e"

lemmas AsyncEvent_defs [op_defs] =
  AsyncEvent_init_def EventWait_await_ready_def EventWait_await_suspend_def
  AsyncEvent_Set_def AsyncEvent_Reset_def AsyncEvent_IsSet_def

datatype event_op = OpSet | OpReset

fun event_act :: "event_op \<Rightarrow> AsyncEvent \<Rightarrow> AsyncEvent \<times> handle list" where
  "event_act OpSet e = AsyncEvent_Set e"
| "event_act OpReset e = (AsyncEvent_Reset e, [])"

interpretation event: gate EventWait_await_ready EventWait_await_suspend event_act ev_waiters
proof unfold_locales
  fix x s s' ws and h :: handle
  show "EventWait_await_suspend h s = (False, s)" if "EventWait_await_ready s"
    using that by (simp add: AsyncEvent_defs)
  show "\<exists>s'. EventWait_await_suspend h s = (True, s') \<and> ev_waiters s' = ev_waiters s @ [h] \<and>
      \<not> EventWait_await_ready s'" if "\<not> EventWait_await_ready s"
    using that by (simp add: AsyncEvent_defs)
  assume a: "event_act x s = (s', ws)" "EventWait_await_ready s \<longrightarrow> ev_waiters s = []"
  show "ws = ev_waiters s \<and> ev_waiters s' = []" if "EventWait_await_ready s'"
    using a that by (cases x) (auto simp: AsyncEvent_defs split: if_splits)
  show "ws = [] \<and> ev_waiters s' = ev_waiters s" if "\<not> EventWait_await_ready s'"
    using a that by (cases x) (auto simp: AsyncEvent_defs split: if_splits)
qed

abbreviation event_exec ::
  "event_op gate_label list \<Rightarrow> AsyncEvent \<Rightarrow> (handle \<Rightarrow> gate_phase) \<Rightarrow>
   (AsyncEvent \<times> (handle \<Rightarrow> gate_phase)) option" where
  "event_exec \<equiv> gate_exec EventWait_await_ready EventWait_await_suspend event_act"

lemma event_start: "gate_inv EventWait_await_ready ev_waiters AsyncEvent_init (\<lambda>_. Outside)"
  by (simp add: gate_inv_def AsyncEvent_init_def)

text \<open>
  Property C36 (every wait is released exactly once).  In every interleaving of waits,
  \<open>Set\<close> and \<open>Reset\<close> on a fresh event, a coroutine is handed to \<open>resume()\<close> as often as
  some \<open>Set\<close> has woken it (the one that is still due apart), nobody stays suspended on an
  event that is set, and a \<open>Set\<close> on the resulting state wakes exactly the coroutines
  suspended on it and leaves nobody suspended, whatever was \<open>Reset\<close> in between.
\<close>

theorem event_released_once:
  assumes ex: "event_exec ls AsyncEvent_init (\<lambda>_. Outside) = Some (e, ph)"
  shows "gate_wakes h ls = gate_resumes h ls + (if ph h = Due then 1 else 0) \<and>
         (AsyncEvent_IsSet e \<longrightarrow> ph h \<noteq> Parked) \<and>
         set (snd (AsyncEvent_Set e)) = {h. ph h = Parked} \<and> distinct (snd (AsyncEvent_Set e)) \<and>
         ev_waiters (fst (AsyncEvent_Set e)) = []"
proof -
  note inv = event.exec_preserves [OF event_start ex]
  have "gate_wakes h ls = gate_resumes h ls + (if ph h = Due then 1 else 0)"
    using event.exec_counts [OF event_start ex, of h] by simp
  moreover have "AsyncEvent_IsSet e \<longrightarrow> ph h \<noteq> Parked"
    using inv by (auto simp: gate_inv_def AsyncEvent_defs)
  moreover have "snd (AsyncEvent_Set e) = ev_waiters e" "ev_waiters (fst (AsyncEvent_Set e)) = []"
    using inv by (simp_all add: gate_inv_def AsyncEvent_defs)
  moreover have "distinct (ev_waiters e)" "set (ev_waiters e) = {h. ph h = Parked}"
    using inv by (simp_all add: gate_inv_def)
  ultimately show ?thesis by simp
qed

theorem event_released_once_witness:
  "\<exists>e ph. event_exec [GCheck 1, GPark 1, GOp OpSet [1], GOp OpReset [], GCheck 2, GPark 2, GResume 1]
       AsyncEvent_init (\<lambda>_. Outside) = Some (e, ph) \<and>
     ph 2 = Parked \<and> set (snd (AsyncEvent_Set e)) = {h. ph h = Parked}"
proof -
  let ?ls = "[GCheck 1, GPark 1, GOp OpSet [1], GOp OpReset [], GCheck 2, GPark 2, GResume 1]"
  obtain e ph where ex: "event_exec ?ls AsyncEvent_init (\<lambda>_. Outside) = Some (e, ph)"
    and "ph 2 = Parked"
    by (simp add: AsyncEvent_defs)
  with event_released_once [OF ex] show ?thesis by blast
qed

subsection \<open>AsyncLatch\<close>

record AsyncLatch =
  la_count :: size_t
  la_waiters :: "handle list"

definition AsyncLatch_init :: "size_t \<Rightarrow> AsyncLatch" where
  "AsyncLatch_init n = \<lparr>la_count = n, la_waiters = []\<rparr>"

definition LatchWait_await_ready :: "AsyncLatch \<Rightarrow> bool" where
  "LatchWait_await_ready l \<longleftrightarrow> la_count l = 0"

definition LatchWait_await_suspend :: "handle \<Rightarrow> AsyncLatch \<Rightarrow> bool \<times> AsyncLatch" where
  "LatchWait_await_suspend h l =
    (if la_count l = 0 then (False, l) else (True, l\<lparr>la_waiters := la_waiters l @ [h]\<rparr>))"

definition AsyncLatch_CountDown :: "size_t \<Rightarrow> AsyncLatch \<Rightarrow> AsyncLatch \<times> handle list" where
  "AsyncLatch_CountDown n l =
    (let old = la_count l;
         new_count = (if old \<ge> n then old - n else 0);
         l = l\<lparr>la_count := new_count\<rparr>
     in if new_count = 0 then (l\<lparr>la_waiters := []\<rparr>, la_waiters l) else (l, []))"

definition AsyncLatch_Count :: "AsyncLatch \<Rightarrow> size_t" where
  "AsyncLatch_Count l = la_count l"

definition AsyncLatch_IsReleased :: "AsyncLatch \<Rightarrow> bool" where
  "AsyncLatch_IsReleased l \<longleftrightarrow> la_count l = 0"

lemmas AsyncLatch_defs [op_defs] =
  AsyncLatch_init_def LatchWait_await_ready_def LatchWait_await_suspend_def
  AsyncLatch_CountDown_def AsyncLatch_Count_def AsyncLatch_IsReleased_def

interpretation latch: gate LatchWait_await_ready LatchWait_await_suspend AsyncLatch_CountDown la_waiters
proof unfold_locales
  fix x s s' ws and h :: handle
  show "LatchWait_await_suspend h s = (False, s)" if "LatchWait_await_ready s"
    using that by (simp add: AsyncLatch_defs)
  show "\<exists>s'. LatchWait_await_suspend h s = (True, s') \<and> la_waiters s' = la_waiters s @ [h] \<and>
      \<not> LatchWait_await_ready s'" if "\<not> LatchWait_await_ready s"
    using that by (simp add: AsyncLatch_defs)
  assume a: "AsyncLatch_CountDown x s = (s', ws)"
  show "ws = la_waiters s \<and> la_waiters s' = []" if "LatchWait_await_ready s'"
    using a that by (auto simp: AsyncLatch_defs Let_def split: if_splits)
  show "ws = [] \<and> la_waiters s' = la_waiters s" if "\<not> LatchWait_await_ready s'"
    using a that by (auto simp: AsyncLatch_defs Let_def split: if_splits)
qed

abbreviation latch_exec ::
  "size_t gate_label list \<Rightarrow> AsyncLatch \<Rightarrow> (handle \<Rightarrow> gate_phase) \<Rightarrow>
   (AsyncLatch \<times> (handle \<Rightarrow> gate_phase)) option" where
  "latch_exec \<equiv> gate_exec LatchWait_await_ready LatchWait_await_suspend AsyncLatch_CountDown"

lemma latch_start: "gate_inv LatchWait_await_ready la_waiters (AsyncLatch_init n) (\<lambda>_. Outside)"
  by (simp add: gate_inv_def AsyncLatch_init_def)

text \<open>The count-downs of a run, as natural numbers.\<close>

fun counted :: "size_t gate_label \<Rightarrow> nat" where
  "counted (GOp n _) = unat n"
| "counted _ = 0"

lemma unat_saturating_sub:
  fixes a b :: "64 word"
  shows "unat (if a \<ge> b then a - b else 0) = unat a - unat b"
  by (simp add: unat_sub word_le_nat_alt)

lemma latch_next_count:
  assumes "gate_next LatchWait_await_ready LatchWait_await_suspend AsyncLatch_CountDown l s ph = Some (s', ph')"
  shows "unat (la_count s') = unat (la_count s) - counted l"
proof (cases l)
  case (GOp n ws)
  with assms have "AsyncLatch_CountDown n s = (s', ws)" by (auto split: if_splits prod.splits)
  then have "la_count s' = (if la_count s \<ge> n then la_count s - n else 0)"
    by (auto simp: AsyncLatch_CountDown_def Let_def split: if_splits)
  then show ?thesis using GOp by (simp only: unat_saturating_sub counted.simps)
qed (use assms in \<open>auto simp: LatchWait_await_suspend_def split: if_splits prod.splits\<close>)

lemma latch_exec_count:
  "latch_exec ls s ph = Some (s', ph') \<Longrightarrow>
   unat (la_count s') = unat (la_count s) - sum_list (map counted ls)"
proof (induction ls arbitrary: s ph)
  case (Cons l ls)
  then show ?case by (auto split: option.splits dest!: latch_next_count)
qed simp

text \<open>
  The latch opens exactly when its count is used up: In every interleaving of
  waits and \<open>CountDown\<close> calls on a latch created with \<open>n\<close>, the 64-bit count is \<open>n\<close> minus
  the sum of the count-downs, cut off at 0 (no wrap-around when more is counted down than
  is left); once it is released nobody is suspended on it; and each coroutine is resumed
  as often as it was woken, the pending one apart.
\<close>

theorem latch_count_down:
  assumes ex: "latch_exec ls (AsyncLatch_init n) (\<lambda>_. Outside) = Some (l, ph)"
  shows "unat (AsyncLatch_Count l) = unat n - sum_list (map counted ls) \<and>
         (AsyncLatch_IsReleased l \<longleftrightarrow> unat n \<le> sum_list (map counted ls)) \<and>
         (AsyncLatch_IsReleased l \<longrightarrow> ph h \<noteq> Parked) \<and>
         gate_wakes h ls = gate_resumes h ls + (if ph h = Due then 1 else 0)"
proof -
  note inv = latch.exec_preserves [OF latch_start ex]
  have c: "unat (la_count l) = unat n - sum_list (map counted ls)"
    using latch_exec_count [OF ex] by (simp add: AsyncLatch_init_def)
  have r: "AsyncLatch_IsReleased l \<longleftrightarrow> unat (la_count l) = 0"
    by (simp add: AsyncLatch_defs unat_eq_0)
  show ?thesis
    using c r inv latch.exec_counts [OF latch_start ex, of h]
    by (auto simp: gate_inv_def AsyncLatch_Count_def LatchWait_await_ready_def unat_eq_0)
qed

theorem latch_count_down_witness:
  "\<exists>l ph. latch_exec [GCheck 1, GOp 2 [], GPark 1, GOp 7 [1]] (AsyncLatch_init 4) (\<lambda>_. Outside) =
       Some (l, ph) \<and> AsyncLatch_IsReleased l \<and> ph 1 = Due"
proof -
  let ?ls = "[GCheck 1, GOp 2 [], GPark 1, GOp 7 [1]] :: size_t gate_label list"
  obtain l ph where ex: "latch_exec ?ls (AsyncLatch_init 4) (\<lambda>_. Outside) = Some (l, ph)"
    and "ph 1 = Due"
    by (simp add: AsyncLatch_defs)
  moreover have "AsyncLatch_IsReleased l" using latch_count_down [OF ex, of 1] by simp
  ultimately show ?thesis by blast
qed

end
