(* ===== verification/Channel.thy ===== *)
theory Channel
  imports Prelude
begin

text \<open>
  \<open>Channel<T>\<close> of \<open>core/channel.hpp\<close>: a bounded queue with suspended senders and
  receivers, direct hand-off from a sender to a waiting receiver, and \<open>Close\<close>.

  The awaitables live in coroutine frames and the channel keeps pointers into them
  (\<open>sent_flag\<close>, \<open>result\<close>), so the model has an explicit store: \<open>cw_send\<close> and
  \<open>cw_result\<close> give the \<open>SendAwaitable\<close> and the \<open>result_\<close> member of the
  \<open>ReceiveAwaitable\<close> at an address.  A value that was moved from is never read again
  by the code; the model leaves it in place.
\<close>

subsection \<open>State\<close>

type_synonym addr = "64 word"

record 'a SenderWaiter =
  sw_handle :: handle
  sw_value :: 'a
  sw_sent_flag :: addr

record ReceiverWaiter =
  rcw_handle :: handle
  rcw_result :: addr

record 'a Channel =
  ch_buffer :: "'a list"
  ch_capacity :: size_t
  ch_closed :: bool
  ch_receiver_waiters :: "ReceiverWaiter list"
  ch_sender_waiters :: "'a SenderWaiter list"

record 'a SendAwaitable =
  sa_value :: 'a
  sa_sent :: bool
  sa_failed :: bool

record 'a chan_world =
  cw_channel :: "'a Channel"
  cw_send :: "addr \<Rightarrow> 'a SendAwaitable"
  cw_result :: "addr \<Rightarrow> 'a option"

text \<open>The constructor aborts (\<open>HOTCOCO_CHECK\<close>) on capacity 0.\<close>

definition Channel_init :: "size_t \<Rightarrow> 'a Channel option" where
  "Channel_init capacity =
    (if capacity \<ge> 1
     then Some \<lparr>ch_buffer = [], ch_capacity = capacity, ch_closed = False,
                ch_receiver_waiters = [], ch_sender_waiters = []\<rparr>
     else None)"

definition Channel_destroy :: "'a Channel \<Rightarrow> 'a Channel" where
  "Channel_destroy c = c\<lparr>ch_closed := True, ch_receiver_waiters := [], ch_sender_waiters := []\<rparr>"

subsection \<open>Sending\<close>

definition SendAwaitable_init :: "'a \<Rightarrow> 'a SendAwaitable" where
  "SendAwaitable_init v = \<lparr>sa_value = v, sa_sent = False, sa_failed = False\<rparr>"

definition SendAwaitable_await_ready ::
  "addr \<Rightarrow> 'a chan_world \<Rightarrow> bool \<times> 'a chan_world \<times> handle list" where
  "SendAwaitable_await_ready this w =
    (let c = cw_channel w; sa = cw_send w this in
     if ch_closed c
     then (True, w\<lparr>cw_send := (cw_send w)(this := sa\<lparr>sa_failed := True\<rparr>)\<rparr>, [])
     else case ch_receiver_waiters c of
       waiter # rest \<Rightarrow>
         (True, w\<lparr>cw_channel := c\<lparr>ch_receiver_waiters := rest\<rparr>,
                  cw_result := (cw_result w)(rcw_result waiter := Some (sa_value sa)),
                  cw_send := (cw_send w)(this := sa\<lparr>sa_sent := True\<rparr>)\<rparr>,
          resume_if (rcw_handle waiter))
     | [] \<Rightarrow>
         if length (ch_buffer c) < unat (ch_capacity c)
         then (True, w\<lparr>cw_channel := c\<lparr>ch_buffer := ch_buffer c @ [sa_value sa]\<rparr>,
                       cw_send := (cw_send w)(this := sa\<lparr>sa_sent := True\<rparr>)\<rparr>, [])
         else (False, w, []))"

definition SendAwaitable_await_suspend ::
  "addr \<Rightarrow> handle \<Rightarrow> 'a chan_world \<Rightarrow> bool \<times> 'a chan_world \<times> handle list" where
  "SendAwaitable_await_suspend this h w =
    (let c = cw_channel w; sa = cw_send w this in
     if ch_closed c
     then (False, w\<lparr>cw_send := (cw_send w)(this := sa\<lparr>sa_failed := True\<rparr>)\<rparr>, [])
     else case ch_receiver_waiters c of
       waiter # rest \<Rightarrow>
         (False, w\<lparr>cw_channel := c\<lparr>ch_receiver_waiters := rest\<rparr>,
                   cw_result := (cw_result w)(rcw_result waiter := Some (sa_value sa)),
                   cw_send := (cw_send w)(this := sa\<lparr>sa_sent := True\<rparr>)\<rparr>,
          resume_if (rcw_handle waiter))
     | [] \<Rightarrow>
         if length (ch_buffer c) < unat (ch_capacity c)
         then (False, w\<lparr>cw_channel := c\<lparr>ch_buffer := ch_buffer c @ [sa_value sa]\<rparr>,
                        cw_send := (cw_send w)(this := sa\<lparr>sa_sent := True\<rparr>)\<rparr>, [])
         else (True, w\<lparr>cw_channel := c\<lparr>ch_sender_waiters := ch_sender_waiters c @
                         [\<lparr>sw_handle = h, sw_value = sa_value sa, sw_sent_flag = this\<rparr>]\<rparr>\<rparr>, []))"

definition SendAwaitable_await_resume :: "'a SendAwaitable \<Rightarrow> bool" where
  "SendAwaitable_await_resume sa \<longleftrightarrow> sa_sent sa \<and> \<not> sa_failed sa"

subsection \<open>Receiving\<close>

definition set_flag :: "addr \<Rightarrow> (addr \<Rightarrow> 'a SendAwaitable) \<Rightarrow> addr \<Rightarrow> 'a SendAwaitable" where
  "set_flag p f = (if p \<noteq> 0 then f(p := (f p)\<lparr>sa_sent := True\<rparr>) else f)"

definition ReceiveAwaitable_await_ready ::
  "addr \<Rightarrow> 'a chan_world \<Rightarrow> bool \<times> 'a chan_world \<times> handle list" where
  "ReceiveAwaitable_await_ready this w =
    (let c = cw_channel w in
     case ch_buffer c of
       v # buf \<Rightarrow>
         (let w = w\<lparr>cw_result := (cw_result w)(this := Some v)\<rparr> in
          case ch_sender_waiters c of
            waiter # rest \<Rightarrow>
              (True, w\<lparr>cw_channel := c\<lparr>ch_sender_waiters := rest, ch_buffer := buf @ [sw_value waiter]\<rparr>,
                       cw_send := set_flag (sw_sent_flag waiter) (cw_send w)\<rparr>,
               resume_if (sw_handle waiter))
          | [] \<Rightarrow> (True, w\<lparr>cw_channel := c\<lparr>ch_buffer := buf\<rparr>\<rparr>, []))
     | [] \<Rightarrow> if ch_closed c then (True, w, []) else (False, w, []))"

definition ReceiveAwaitable_await_suspend ::
  "addr \<Rightarrow> handle \<Rightarrow> 'a chan_world \<Rightarrow> bool \<times> 'a chan_world \<times> handle list" where
  "ReceiveAwaitable_await_suspend this h w =
    (let c = cw_channel w in
     case ch_buffer c of
       v # buf \<Rightarrow>
         (let w = w\<lparr>cw_result := (cw_result w)(this := Some v)\<rparr> in
          case ch_sender_waiters c of
            waiter # rest \<Rightarrow>
              (False, w\<lparr>cw_channel := c\<lparr>ch_sender_waiters := rest, ch_buffer := buf @ [sw_value waiter]\<rparr>,
                        cw_send := set_flag (sw_sent_flag waiter) (cw_send w)\<rparr>,
               resume_if (sw_handle waiter))
          | [] \<Rightarrow> (False, w\<lparr>cw_channel := c\<lparr>ch_buffer := buf\<rparr>\<rparr>, []))
     | [] \<Rightarrow>
         if ch_closed c then (False, w, [])
         else (True, w\<lparr>cw_channel := c\<lparr>ch_receiver_waiters := ch_receiver_waiters c @
                         [\<lparr>rcw_handle = h, rcw_result = this\<rparr>]\<rparr>\<rparr>, []))"

definition ReceiveAwaitable_await_resume :: "'a option \<Rightarrow> 'a option" where
  "ReceiveAwaitable_await_resume r = r"

subsection \<open>Closing and queries\<close>

definition Channel_Close :: "'a Channel \<Rightarrow> 'a Channel \<times> handle list" where
  "Channel_Close c =
    (if ch_closed c then (c, [])
     else (c\<lparr>ch_closed := True, ch_receiver_waiters := [], ch_sender_waiters := []\<rparr>,
           map rcw_handle (ch_receiver_waiters c) @ map sw_handle (ch_sender_waiters c)))"

definition Channel_IsClosed :: "'a Channel \<Rightarrow> bool" where
  "Channel_IsClosed c = ch_closed c"

definition Channel_Size :: "'a Channel \<Rightarrow> nat" where
  "Channel_Size c = length (ch_buffer c)"

lemmas Channel_defs [op_defs] =
  Channel_init_def SendAwaitable_init_def SendAwaitable_await_ready_def
  SendAwaitable_await_suspend_def SendAwaitable_await_resume_def
  ReceiveAwaitable_await_ready_def ReceiveAwaitable_await_suspend_def
  ReceiveAwaitable_await_resume_def Channel_Close_def Channel_IsClosed_def Channel_Size_def
  set_flag_def

subsection \<open>Coroutines using a channel\<close>

text \<open>
  A coroutine awaits one operation at a time; its awaitable is part of its frame and is
  addressed by the coroutine's handle.  \<open>SDone\<close> and \<open>RDone\<close>: the operation has
  completed or the coroutine was woken, \<open>await_resume\<close> is next.
\<close>

datatype ch_phase = CIdle | SPolled | SSusp | SDone | RPolled | RSusp | RDone

fun ch_wake :: "ch_phase \<Rightarrow> ch_phase" where
  "ch_wake SSusp = SDone"
| "ch_wake RSusp = RDone"
| "ch_wake p = p"

definition ch_woken :: "handle list \<Rightarrow> (handle \<Rightarrow> ch_phase) \<Rightarrow> handle \<Rightarrow> ch_phase" where
  "ch_woken ws ph = (\<lambda>h. if h \<in> set ws then ch_wake (ph h) else ph h)"

lemma ch_woken_Nil [simp]: "ch_woken [] ph = ph"
  by (simp add: ch_woken_def)

datatype 'a chan_label =
    CSend handle 'a | CSendSuspend handle | CSendResume handle
  | CRecv handle | CRecvSuspend handle | CRecvResume handle | CClose

text \<open>
  The log of a run.  \<open>cl_accepted\<close> records whose \<open>sent_\<close> flag was set, \<open>cl_delivered\<close>
  whose \<open>result_\<close> slot was written, both read off the store after the step;
  \<open>cl_sends\<close> and \<open>cl_recvs\<close> record what \<open>co_await\<close> returned.
\<close>

record 'a chan_log =
  cl_accepted :: "(handle \<times> 'a) list"
  cl_delivered :: "(handle \<times> 'a) list"
  cl_sends :: "(handle \<times> 'a \<times> bool) list"
  cl_recvs :: "(handle \<times> 'a option) list"

definition log_init :: "'a chan_log" where
  "log_init = \<lparr>cl_accepted = [], cl_delivered = [], cl_sends = [], cl_recvs = []\<rparr>"

definition own_sent :: "handle \<Rightarrow> 'a chan_world \<Rightarrow> (handle \<times> 'a) list" where
  "own_sent h w' = (if sa_sent (cw_send w' h) then [(h, sa_value (cw_send w' h))] else [])"

definition own_result :: "handle \<Rightarrow> 'a chan_world \<Rightarrow> (handle \<times> 'a) list" where
  "own_result h w' = (case cw_result w' h of Some v \<Rightarrow> [(h, v)] | None \<Rightarrow> [])"

definition waiters_sent :: "'a chan_world \<Rightarrow> 'a chan_world \<Rightarrow> (handle \<times> 'a) list" where
  "waiters_sent w w' =
     concat (map (\<lambda>s. own_sent (sw_handle s) w') (ch_sender_waiters (cw_channel w)))"

definition waiters_result :: "'a chan_world \<Rightarrow> 'a chan_world \<Rightarrow> (handle \<times> 'a) list" where
  "waiters_result w w' =
     concat (map (\<lambda>r. own_result (rcw_handle r) w') (ch_receiver_waiters (cw_channel w)))"

type_synonym 'a chan_conf = "'a chan_world \<times> (handle \<Rightarrow> ch_phase) \<times> 'a chan_log"

definition send_step ::
  "handle \<Rightarrow> ch_phase \<Rightarrow> ch_phase \<Rightarrow> bool \<times> 'a chan_world \<times> handle list \<Rightarrow> 'a chan_conf \<Rightarrow> 'a chan_conf" where
  "send_step h yes no r conf =
    (let (w, ph, lg) = conf; (b, w', ws) = r
     in (w', ch_woken ws (ph(h := if b then yes else no)),
         lg\<lparr>cl_accepted := cl_accepted lg @ own_sent h w',
            cl_delivered := cl_delivered lg @ waiters_result w w'\<rparr>))"

definition recv_step ::
  "handle \<Rightarrow> ch_phase \<Rightarrow> ch_phase \<Rightarrow> bool \<times> 'a chan_world \<times> handle list \<Rightarrow> 'a chan_conf \<Rightarrow> 'a chan_conf" where
  "recv_step h yes no r conf =
    (let (w, ph, lg) = conf; (b, w', ws) = r
     in (w', ch_woken ws (ph(h := if b then yes else no)),
         lg\<lparr>cl_delivered := cl_delivered lg @ own_result h w',
            cl_accepted := cl_accepted lg @ waiters_sent w w'\<rparr>))"

fun chan_next :: "'a chan_label \<Rightarrow> 'a chan_conf \<Rightarrow> 'a chan_conf option" where
  "chan_next (CSend h v) (w, ph, lg) =
     (if ph h = CIdle \<and> h \<noteq> 0
      then (let w = w\<lparr>cw_send := (cw_send w)(h := SendAwaitable_init v)\<rparr>
            in Some (send_step h SDone SPolled (SendAwaitable_await_ready h w) (w, ph, lg)))
      else None)"
| "chan_next (CSendSuspend h) (w, ph, lg) =
     (if ph h = SPolled
      then Some (send_step h SSusp SDone (SendAwaitable_await_suspend h h w) (w, ph, lg))
      else None)"
| "chan_next (CSendResume h) (w, ph, lg) =
     (if ph h = SDone
      then Some (w, ph(h := CIdle),
             lg\<lparr>cl_sends := cl_sends lg @
                 [(h, sa_value (cw_send w h), SendAwaitable_await_resume (cw_send w h))]\<rparr>)
      else None)"
| "chan_next (CRecv h) (w, ph, lg) =
     (if ph h = CIdle \<and> h \<noteq> 0
      then (let w = w\<lparr>cw_result := (cw_result w)(h := None)\<rparr>
            in Some (recv_step h RDone RPolled (ReceiveAwaitable_await_ready h w) (w, ph, lg)))
      else None)"
| "chan_next (CRecvSuspend h) (w, ph, lg) =
     (if ph h = RPolled
      then Some (recv_step h RSusp RDone (ReceiveAwaitable_await_suspend h h w) (w, ph, lg))
      else None)"
| "chan_next (CRecvResume h) (w, ph, lg) =
     (if ph h = RDone
      then Some (w, ph(h := CIdle),
             lg\<lparr>cl_recvs := cl_recvs lg @ [(h, ReceiveAwaitable_await_resume (cw_result w h))]\<rparr>)
      else None)"
| "chan_next CClose (w, ph, lg) =
     (let (c', ws) = Channel_Close (cw_channel w)
      in Some (w\<lparr>cw_channel := c'\<rparr>, ch_woken ws ph, lg))"

inductive chan_reach :: "size_t \<Rightarrow> 'a chan_conf \<Rightarrow> bool" for cap where
  chan_start: "Channel_init cap = Some c \<Longrightarrow>
     chan_reach cap (\<lparr>cw_channel = c, cw_send = sends, cw_result = results\<rparr>, \<lambda>_. CIdle, log_init)"
| chan_step: "chan_reach cap conf \<Longrightarrow> chan_next l conf = Some conf' \<Longrightarrow> chan_reach cap conf'"

fun chan_exec :: "'a chan_label list \<Rightarrow> 'a chan_conf \<Rightarrow> 'a chan_conf option" where
  "chan_exec [] conf = Some conf"
| "chan_exec (l # ls) conf =
     (case chan_next l conf of None \<Rightarrow> None | Some conf' \<Rightarrow> chan_exec ls conf')"

lemma chan_exec_reach:
  "chan_reach cap conf \<Longrightarrow> chan_exec ls conf = Some conf' \<Longrightarrow> chan_reach cap conf'"
  by (induction ls arbitrary: conf) (auto split: option.splits dest: chan_step)

subsection \<open>The invariant\<close>

definition chan_shape :: "'a Channel \<Rightarrow> bool" where
  "chan_shape c \<longleftrightarrow>
     length (ch_buffer c) \<le> unat (ch_capacity c) \<and> 0 < unat (ch_capacity c) \<and>
     (ch_receiver_waiters c \<noteq> [] \<longrightarrow> ch_buffer c = []) \<and>
     (ch_sender_waiters c \<noteq> [] \<longrightarrow> length (ch_buffer c) = unat (ch_capacity c)) \<and>
     (ch_closed c \<longrightarrow> ch_receiver_waiters c = [] \<and> ch_sender_waiters c = [])"

definition chan_queues :: "'a chan_world \<Rightarrow> (handle \<Rightarrow> ch_phase) \<Rightarrow> bool" where
  "chan_queues w ph \<longleftrightarrow>
     distinct (map rcw_handle (ch_receiver_waiters (cw_channel w))) \<and>
     (\<forall>h. h \<in> rcw_handle ` set (ch_receiver_waiters (cw_channel w)) \<longleftrightarrow> ph h = RSusp) \<and>
     (\<forall>r \<in> set (ch_receiver_waiters (cw_channel w)). rcw_result r = rcw_handle r) \<and>
     distinct (map sw_handle (ch_sender_waiters (cw_channel w))) \<and>
     (\<forall>h. h \<in> sw_handle ` set (ch_sender_waiters (cw_channel w)) \<longleftrightarrow> ph h = SSusp) \<and>
     (\<forall>s \<in> set (ch_sender_waiters (cw_channel w)).
        sw_sent_flag s = sw_handle s \<and> sw_value s = sa_value (cw_send w (sw_handle s))) \<and>
     ph 0 = CIdle"

definition chan_slots :: "'a chan_world \<Rightarrow> (handle \<Rightarrow> ch_phase) \<Rightarrow> bool" where
  "chan_slots w ph \<longleftrightarrow>
     (\<forall>h. ph h = SPolled \<or> ph h = SSusp \<longrightarrow> \<not> sa_sent (cw_send w h) \<and> \<not> sa_failed (cw_send w h)) \<and>
     (\<forall>h. ph h = SDone \<longrightarrow> \<not> (sa_sent (cw_send w h) \<and> sa_failed (cw_send w h))) \<and>
     (\<forall>h. ph h = RPolled \<or> ph h = RSusp \<longrightarrow> cw_result w h = None)"

definition by_handle :: "handle \<Rightarrow> (handle \<times> 'a) list \<Rightarrow> 'a list" where
  "by_handle h xs = map snd (filter (\<lambda>e. fst e = h) xs)"

definition sends_ok :: "(handle \<times> 'a \<times> bool) list \<Rightarrow> (handle \<times> 'a) list" where
  "sends_ok xs = map (\<lambda>(h, v, b). (h, v)) (filter (\<lambda>(h, v, b). b) xs)"

definition recvs_ok :: "(handle \<times> 'a option) list \<Rightarrow> (handle \<times> 'a) list" where
  "recvs_ok xs = map (\<lambda>(h, r). (h, the r)) (filter (\<lambda>(h, r). r \<noteq> None) xs)"

text \<open>Completed operations whose \<open>await_resume\<close> has not run yet.\<close>

definition send_due :: "'a chan_world \<Rightarrow> (handle \<Rightarrow> ch_phase) \<Rightarrow> handle \<Rightarrow> 'a list" where
  "send_due w ph h =
     (if ph h = SDone \<and> sa_sent (cw_send w h) then [sa_value (cw_send w h)] else [])"

definition recv_due :: "'a chan_world \<Rightarrow> (handle \<Rightarrow> ch_phase) \<Rightarrow> handle \<Rightarrow> 'a list" where
  "recv_due w ph h =
     (if ph h = RDone then (case cw_result w h of Some v \<Rightarrow> [v] | None \<Rightarrow> []) else [])"

definition chan_books :: "'a chan_world \<Rightarrow> (handle \<Rightarrow> ch_phase) \<Rightarrow> 'a chan_log \<Rightarrow> bool" where
  "chan_books w ph lg \<longleftrightarrow>
     map snd (cl_accepted lg) = map snd (cl_delivered lg) @ ch_buffer (cw_channel w) \<and>
     (\<forall>h. by_handle h (cl_accepted lg) = by_handle h (sends_ok (cl_sends lg)) @ send_due w ph h) \<and>
     (\<forall>h. by_handle h (cl_delivered lg) = by_handle h (recvs_ok (cl_recvs lg)) @ recv_due w ph h)"

fun chan_inv :: "'a chan_conf \<Rightarrow> bool" where
  "chan_inv (w, ph, lg) \<longleftrightarrow>
     chan_shape (cw_channel w) \<and> chan_queues w ph \<and> chan_slots w ph \<and> chan_books w ph lg"

lemma by_handle_simps [simp]:
  "by_handle h [] = []"
  "by_handle h ((h', v) # xs) = (if h' = h then v # by_handle h xs else by_handle h xs)"
  "by_handle h (xs @ ys) = by_handle h xs @ by_handle h ys"
  by (simp_all add: by_handle_def)

lemma sends_ok_simps [simp]:
  "sends_ok [] = []"
  "sends_ok (xs @ [(h, v, b)]) = sends_ok xs @ (if b then [(h, v)] else [])"
  by (simp_all add: sends_ok_def)

lemma recvs_ok_simps [simp]:
  "recvs_ok [] = []"
  "recvs_ok (xs @ [(h, None)]) = recvs_ok xs"
  "recvs_ok (xs @ [(h, Some v)]) = recvs_ok xs @ [(h, v)]"
  by (simp_all add: recvs_ok_def)

lemma chan_inv_start:
  "Channel_init cap = Some c \<Longrightarrow>
   chan_inv (\<lparr>cw_channel = c, cw_send = sends, cw_result = results\<rparr>, \<lambda>_. CIdle, log_init)"
  by (auto simp: Channel_init_def log_init_def chan_shape_def chan_queues_def chan_slots_def
      chan_books_def send_due_def recv_due_def word_le_nat_alt split: if_splits)

text \<open>What the log records of a step in which no waiter, or the first waiter, is served.\<close>

lemma waiters_result_none:
  assumes "\<And>r. r \<in> set (ch_receiver_waiters (cw_channel w)) \<Longrightarrow> cw_result w' (rcw_handle r) = None"
  shows "waiters_result w w' = []"
  using assms by (auto simp: waiters_result_def own_result_def)

lemma waiters_result_first:
  assumes "ch_receiver_waiters (cw_channel w) = r # rest"
    and "\<And>x. x \<in> set rest \<Longrightarrow> cw_result w' (rcw_handle x) = None"
    and "cw_result w' (rcw_handle r) = Some v"
  shows "waiters_result w w' = [(rcw_handle r, v)]"
  using assms by (auto simp: waiters_result_def own_result_def)

lemma waiters_sent_none:
  assumes "\<And>s. s \<in> set (ch_sender_waiters (cw_channel w)) \<Longrightarrow> \<not> sa_sent (cw_send w' (sw_handle s))"
  shows "waiters_sent w w' = []"
  using assms by (auto simp: waiters_sent_def own_sent_def)

lemma waiters_sent_first:
  assumes "ch_sender_waiters (cw_channel w) = s # rest"
    and "\<And>x. x \<in> set rest \<Longrightarrow> \<not> sa_sent (cw_send w' (sw_handle x))"
    and "sa_sent (cw_send w' (sw_handle s))"
  shows "waiters_sent w w' = [(sw_handle s, sa_value (cw_send w' (sw_handle s)))]"
  using assms by (auto simp: waiters_sent_def own_sent_def)

lemma chan_queuesD:
  assumes "chan_queues w ph"
  shows "\<And>r. r \<in> set (ch_receiver_waiters (cw_channel w)) \<Longrightarrow> ph (rcw_handle r) = RSusp"
    and "\<And>r. r \<in> set (ch_receiver_waiters (cw_channel w)) \<Longrightarrow> rcw_result r = rcw_handle r"
    and "\<And>s. s \<in> set (ch_sender_waiters (cw_channel w)) \<Longrightarrow> ph (sw_handle s) = SSusp"
    and "\<And>s. s \<in> set (ch_sender_waiters (cw_channel w)) \<Longrightarrow> sw_sent_flag s = sw_handle s"
    and "\<And>s. s \<in> set (ch_sender_waiters (cw_channel w)) \<Longrightarrow>
      sw_value s = sa_value (cw_send w (sw_handle s))"
    and "ph 0 = CIdle"
  using assms unfolding chan_queues_def by auto

lemmas chan_inv_defs [inv_defs] =
  chan_queues_def chan_slots_def chan_books_def send_due_def recv_due_def

text \<open>The ways in which an operation changes the configuration.\<close>

lemma inv_send_new:
  assumes inv: "chan_inv (w, ph, lg)" and h: "ph h = CIdle" "h \<noteq> 0"
  shows "chan_inv (w\<lparr>cw_send := (cw_send w)(h := SendAwaitable_init v)\<rparr>, ph(h := SPolled), lg)"
proof -
  have "chan_queues w ph" using inv by simp
  then have "\<And>s. s \<in> set (ch_sender_waiters (cw_channel w)) \<Longrightarrow> sw_handle s \<noteq> h"
    using chan_queuesD(3) h by fastforce
  then show ?thesis using assms by (auto simp: chan_inv_defs SendAwaitable_init_def)
qed

lemma inv_recv_new:
  assumes inv: "chan_inv (w, ph, lg)" and h: "ph h = CIdle" "h \<noteq> 0"
  shows "chan_inv (w\<lparr>cw_result := (cw_result w)(h := None)\<rparr>, ph(h := RPolled), lg)"
  using assms by (auto simp: chan_inv_defs)

lemma inv_send_fail:
  assumes inv: "chan_inv (w, ph, lg)" and h: "ph h = SPolled" and closed: "ch_closed (cw_channel w)"
  shows "chan_inv (w\<lparr>cw_send := (cw_send w)(h := (cw_send w h)\<lparr>sa_failed := True\<rparr>)\<rparr>, ph(h := SDone), lg)"
  using assms by (auto simp: chan_inv_defs)

lemma inv_send_buffer:
  assumes inv: "chan_inv (w, ph, lg)" and h: "ph h = SPolled" and open1: "\<not> ch_closed (cw_channel w)"
    and free: "ch_receiver_waiters (cw_channel w) = []"
      "length (ch_buffer (cw_channel w)) < unat (ch_capacity (cw_channel w))"
  shows "chan_inv (w\<lparr>cw_channel := (cw_channel w)\<lparr>ch_buffer := ch_buffer (cw_channel w) @ [sa_value (cw_send w h)]\<rparr>,
       cw_send := (cw_send w)(h := (cw_send w h)\<lparr>sa_sent := True\<rparr>)\<rparr>, ph(h := SDone),
     lg\<lparr>cl_accepted := cl_accepted lg @ [(h, sa_value (cw_send w h))]\<rparr>)"
  using assms by (auto simp: chan_inv_defs chan_shape_def)

lemma inv_send_handoff:
  assumes inv: "chan_inv (w, ph, lg)" and h: "ph h = SPolled" and open1: "\<not> ch_closed (cw_channel w)"
    and r: "ch_receiver_waiters (cw_channel w) = r # rest"
  shows "chan_inv (w\<lparr>cw_channel := (cw_channel w)\<lparr>ch_receiver_waiters := rest\<rparr>,
       cw_result := (cw_result w)(rcw_result r := Some (sa_value (cw_send w h))),
       cw_send := (cw_send w)(h := (cw_send w h)\<lparr>sa_sent := True\<rparr>)\<rparr>,
     ph(h := SDone, rcw_handle r := RDone),
     lg\<lparr>cl_accepted := cl_accepted lg @ [(h, sa_value (cw_send w h))],
        cl_delivered := cl_delivered lg @ [(rcw_handle r, sa_value (cw_send w h))]\<rparr>)"
proof -
  have q: "chan_queues w ph" using inv by simp
  have ph: "ph (rcw_handle r) = RSusp" and eq: "rcw_result r = rcw_handle r"
    using chan_queuesD(1,2) [OF q] r by auto
  have nr: "rcw_handle r \<noteq> h" "rcw_handle r \<noteq> 0" "h \<noteq> 0" using ph h chan_queuesD(6) [OF q] by auto
  have buf: "ch_buffer (cw_channel w) = []" using inv r by (simp add: chan_shape_def)
  have rest: "x \<in> rcw_handle ` set rest \<longleftrightarrow> ph x = RSusp \<and> x \<noteq> rcw_handle r" for x
    using q r by (auto simp: chan_queues_def intro: rev_image_eqI)
  have send: "x \<in> sw_handle ` set (ch_sender_waiters (cw_channel w)) \<longleftrightarrow> ph x = SSusp" for x
    using q by (auto simp: chan_queues_def)
  show ?thesis using inv r h buf ph nr
    by (auto simp: chan_inv_defs chan_shape_def eq rest send)
qed

lemma inv_send_enqueue:
  assumes inv: "chan_inv (w, ph, lg)" and h: "ph h = SPolled" and open1: "\<not> ch_closed (cw_channel w)"
    and full: "ch_receiver_waiters (cw_channel w) = []"
      "\<not> length (ch_buffer (cw_channel w)) < unat (ch_capacity (cw_channel w))"
  shows "chan_inv (w\<lparr>cw_channel := (cw_channel w)\<lparr>ch_sender_waiters := ch_sender_waiters (cw_channel w) @
        [\<lparr>sw_handle = h, sw_value = sa_value (cw_send w h), sw_sent_flag = h\<rparr>]\<rparr>\<rparr>, ph(h := SSusp), lg)"
proof -
  have q: "chan_queues w ph" using inv by simp
  have send: "x \<in> sw_handle ` set (ch_sender_waiters (cw_channel w)) \<longleftrightarrow> ph x = SSusp" for x
    using q by (auto simp: chan_queues_def)
  show ?thesis using inv h full open1 by (auto simp: chan_inv_defs chan_shape_def send)
qed

lemma inv_recv_pop:
  assumes inv: "chan_inv (w, ph, lg)" and h: "ph h = RPolled"
    and buf: "ch_buffer (cw_channel w) = v # buf" and none: "ch_sender_waiters (cw_channel w) = []"
  shows "chan_inv (w\<lparr>cw_result := (cw_result w)(h := Some v),
       cw_channel := (cw_channel w)\<lparr>ch_buffer := buf\<rparr>\<rparr>, ph(h := RDone),
     lg\<lparr>cl_delivered := cl_delivered lg @ [(h, v)]\<rparr>)"
  using assms by (auto simp: chan_inv_defs chan_shape_def)

lemma inv_recv_pop_sender:
  assumes inv: "chan_inv (w, ph, lg)" and h: "ph h = RPolled"
    and buf: "ch_buffer (cw_channel w) = v # buf" and s: "ch_sender_waiters (cw_channel w) = s # rest"
  shows "chan_inv (w\<lparr>cw_result := (cw_result w)(h := Some v),
       cw_channel := (cw_channel w)\<lparr>ch_sender_waiters := rest, ch_buffer := buf @ [sw_value s]\<rparr>,
       cw_send := (cw_send w)(sw_handle s := (cw_send w (sw_handle s))\<lparr>sa_sent := True\<rparr>)\<rparr>,
     ph(h := RDone, sw_handle s := SDone),
     lg\<lparr>cl_delivered := cl_delivered lg @ [(h, v)],
        cl_accepted := cl_accepted lg @ [(sw_handle s, sw_value s)]\<rparr>)"
proof -
  have q: "chan_queues w ph" using inv by simp
  have ph: "ph (sw_handle s) = SSusp" and eq: "sw_value s = sa_value (cw_send w (sw_handle s))"
    using chan_queuesD(3,5) [OF q] s by auto
  have nr: "sw_handle s \<noteq> h" "sw_handle s \<noteq> 0" "h \<noteq> 0" using ph h chan_queuesD(6) [OF q] by auto
  have rest: "x \<in> sw_handle ` set rest \<longleftrightarrow> ph x = SSusp \<and> x \<noteq> sw_handle s" for x
    using q s by (auto simp: chan_queues_def intro: rev_image_eqI)
  have "ch_receiver_waiters (cw_channel w) = []" using inv buf by (auto simp: chan_shape_def)
  then have recv: "ph x \<noteq> RSusp" for x using q by (auto simp: chan_queues_def)
  show ?thesis using inv s h buf ph nr
    by (auto simp: chan_inv_defs chan_shape_def eq rest recv)
qed

lemma inv_recv_closed:
  assumes inv: "chan_inv (w, ph, lg)" and h: "ph h = RPolled"
  shows "chan_inv (w, ph(h := RDone), lg)"
proof -
  have "cw_result w h = None" using inv h by (auto simp: chan_slots_def)
  then show ?thesis using inv h by (auto simp: chan_inv_defs)
qed

lemma inv_recv_enqueue:
  assumes inv: "chan_inv (w, ph, lg)" and h: "ph h = RPolled" and open1: "\<not> ch_closed (cw_channel w)"
    and empty: "ch_buffer (cw_channel w) = []"
  shows "chan_inv (w\<lparr>cw_channel := (cw_channel w)\<lparr>ch_receiver_waiters := ch_receiver_waiters (cw_channel w) @
        [\<lparr>rcw_handle = h, rcw_result = h\<rparr>]\<rparr>\<rparr>, ph(h := RSusp), lg)"
proof -
  have q: "chan_queues w ph" using inv by simp
  have recv: "x \<in> rcw_handle ` set (ch_receiver_waiters (cw_channel w)) \<longleftrightarrow> ph x = RSusp" for x
    using q by (auto simp: chan_queues_def)
  show ?thesis using inv h empty open1 by (auto simp: chan_inv_defs chan_shape_def recv)
qed

lemma inv_send_resume:
  assumes inv: "chan_inv (w, ph, lg)" and h: "ph h = SDone"
  shows "chan_inv (w, ph(h := CIdle), lg\<lparr>cl_sends := cl_sends lg @
           [(h, sa_value (cw_send w h), SendAwaitable_await_resume (cw_send w h))]\<rparr>)"
proof -
  have "sa_sent (cw_send w h) \<Longrightarrow> \<not> sa_failed (cw_send w h)" using inv h by (auto simp: chan_slots_def)
  then show ?thesis using inv h by (auto simp: chan_inv_defs SendAwaitable_await_resume_def)
qed

lemma inv_recv_resume:
  assumes inv: "chan_inv (w, ph, lg)" and h: "ph h = RDone"
  shows "chan_inv (w, ph(h := CIdle), lg\<lparr>cl_recvs := cl_recvs lg @
           [(h, ReceiveAwaitable_await_resume (cw_result w h))]\<rparr>)"
  using assms by (cases "cw_result w h") (auto simp: chan_inv_defs ReceiveAwaitable_await_resume_def)

lemma inv_close:
  assumes inv: "chan_inv (w, ph, lg)"
  shows "chan_inv (w\<lparr>cw_channel := fst (Channel_Close (cw_channel w))\<rparr>,
           ch_woken (snd (Channel_Close (cw_channel w))) ph, lg)"
proof (cases "ch_closed (cw_channel w)")
  case True
  then show ?thesis using inv by (simp add: Channel_defs)
next
  case False
  have q: "chan_queues w ph" using inv by simp
  let ?ws = "map rcw_handle (ch_receiver_waiters (cw_channel w)) @ map sw_handle (ch_sender_waiters (cw_channel w))"
  have ws: "x \<in> set ?ws \<longleftrightarrow> ph x = RSusp \<or> ph x = SSusp" for x
    using q by (auto simp: chan_queues_def)
  have ph': "ch_woken ?ws ph = (\<lambda>h. ch_wake (ph h))"
  proof
    fix x show "ch_woken ?ws ph x = ch_wake (ph x)"
      unfolding ch_woken_def ws by (cases "ph x") simp_all
  qed
  have wk: "ch_wake p = SSusp \<longleftrightarrow> False" "ch_wake p = RSusp \<longleftrightarrow> False"
    "ch_wake p = SPolled \<longleftrightarrow> p = SPolled" "ch_wake p = RPolled \<longleftrightarrow> p = RPolled"
    "ch_wake p = SDone \<longleftrightarrow> p = SDone \<or> p = SSusp" "ch_wake p = RDone \<longleftrightarrow> p = RDone \<or> p = RSusp"
    "ch_wake p = CIdle \<longleftrightarrow> p = CIdle" for p
    by (cases p; simp)+
  have nores: "\<And>h. ph h = RSusp \<Longrightarrow> cw_result w h = None"
    and nosent: "\<And>h. ph h = SSusp \<Longrightarrow> \<not> sa_sent (cw_send w h)"
    using inv by (auto simp: chan_slots_def)
  from inv False show ?thesis
    by (auto simp: Channel_Close_def ph' wk chan_inv_defs chan_shape_def nores nosent)
qed

text \<open>
  These changes as a relation.  An operation of an awaitable makes one of them, or none when it has to
  be tried again.
\<close>

inductive chan_effect :: "'a chan_conf \<Rightarrow> 'a chan_conf \<Rightarrow> bool" where
  eff_send_new: "ph h = CIdle \<Longrightarrow> h \<noteq> 0 \<Longrightarrow>
    chan_effect (w, ph, lg) (w\<lparr>cw_send := (cw_send w)(h := SendAwaitable_init v)\<rparr>, ph(h := SPolled), lg)"
| eff_recv_new: "ph h = CIdle \<Longrightarrow> h \<noteq> 0 \<Longrightarrow>
    chan_effect (w, ph, lg) (w\<lparr>cw_result := (cw_result w)(h := None)\<rparr>, ph(h := RPolled), lg)"
| eff_send_fail: "ph h = SPolled \<Longrightarrow> ch_closed (cw_channel w) \<Longrightarrow>
    chan_effect (w, ph, lg) (w\<lparr>cw_send := (cw_send w)(h := (cw_send w h)\<lparr>sa_failed := True\<rparr>)\<rparr>, ph(h := SDone), lg)"
| eff_send_buffer: "ph h = SPolled \<Longrightarrow> \<not> ch_closed (cw_channel w) \<Longrightarrow> ch_receiver_waiters (cw_channel w) = [] \<Longrightarrow>
    length (ch_buffer (cw_channel w)) < unat (ch_capacity (cw_channel w)) \<Longrightarrow>
    chan_effect (w, ph, lg)
      (w\<lparr>cw_channel := (cw_channel w)\<lparr>ch_buffer := ch_buffer (cw_channel w) @ [sa_value (cw_send w h)]\<rparr>,
         cw_send := (cw_send w)(h := (cw_send w h)\<lparr>sa_sent := True\<rparr>)\<rparr>, ph(h := SDone),
       lg\<lparr>cl_accepted := cl_accepted lg @ [(h, sa_value (cw_send w h))]\<rparr>)"
| eff_send_handoff: "ph h = SPolled \<Longrightarrow> \<not> ch_closed (cw_channel w) \<Longrightarrow> ch_receiver_waiters (cw_channel w) = r # rest \<Longrightarrow>
    chan_effect (w, ph, lg)
      (w\<lparr>cw_channel := (cw_channel w)\<lparr>ch_receiver_waiters := rest\<rparr>,
         cw_result := (cw_result w)(rcw_result r := Some (sa_value (cw_send w h))),
         cw_send := (cw_send w)(h := (cw_send w h)\<lparr>sa_sent := True\<rparr>)\<rparr>,
       ph(h := SDone, rcw_handle r := RDone),
       lg\<lparr>cl_accepted := cl_accepted lg @ [(h, sa_value (cw_send w h))],
          cl_delivered := cl_delivered lg @ [(rcw_handle r, sa_value (cw_send w h))]\<rparr>)"
| eff_send_enqueue: "ph h = SPolled \<Longrightarrow> \<not> ch_closed (cw_channel w) \<Longrightarrow> ch_receiver_waiters (cw_channel w) = [] \<Longrightarrow>
    \<not> length (ch_buffer (cw_channel w)) < unat (ch_capacity (cw_channel w)) \<Longrightarrow>
    chan_effect (w, ph, lg)
      (w\<lparr>cw_channel := (cw_channel w)\<lparr>ch_sender_waiters := ch_sender_waiters (cw_channel w) @
          [\<lparr>sw_handle = h, sw_value = sa_value (cw_send w h), sw_sent_flag = h\<rparr>]\<rparr>\<rparr>, ph(h := SSusp), lg)"
| eff_recv_pop: "ph h = RPolled \<Longrightarrow> ch_buffer (cw_channel w) = v # buf \<Longrightarrow> ch_sender_waiters (cw_channel w) = [] \<Longrightarrow>
    chan_effect (w, ph, lg)
      (w\<lparr>cw_result := (cw_result w)(h := Some v), cw_channel := (cw_channel w)\<lparr>ch_buffer := buf\<rparr>\<rparr>, ph(h := RDone),
       lg\<lparr>cl_delivered := cl_delivered lg @ [(h, v)]\<rparr>)"
| eff_recv_pop_sender: "ph h = RPolled \<Longrightarrow> ch_buffer (cw_channel w) = v # buf \<Longrightarrow> ch_sender_waiters (cw_channel w) = s # rest \<Longrightarrow>
    chan_effect (w, ph, lg)
      (w\<lparr>cw_result := (cw_result w)(h := Some v),
         cw_channel := (cw_channel w)\<lparr>ch_sender_waiters := rest, ch_buffer := buf @ [sw_value s]\<rparr>,
         cw_send := (cw_send w)(sw_handle s := (cw_send w (sw_handle s))\<lparr>sa_sent := True\<rparr>)\<rparr>,
       ph(h := RDone, sw_handle s := SDone),
       lg\<lparr>cl_delivered := cl_delivered lg @ [(h, v)], cl_accepted := cl_accepted lg @ [(sw_handle s, sw_value s)]\<rparr>)"
| eff_recv_closed: "ph h = RPolled \<Longrightarrow> ch_buffer (cw_channel w) = [] \<Longrightarrow> ch_closed (cw_channel w) \<Longrightarrow>
    chan_effect (w, ph, lg) (w, ph(h := RDone), lg)"
| eff_recv_enqueue: "ph h = RPolled \<Longrightarrow> \<not> ch_closed (cw_channel w) \<Longrightarrow> ch_buffer (cw_channel w) = [] \<Longrightarrow>
    chan_effect (w, ph, lg)
      (w\<lparr>cw_channel := (cw_channel w)\<lparr>ch_receiver_waiters := ch_receiver_waiters (cw_channel w) @
          [\<lparr>rcw_handle = h, rcw_result = h\<rparr>]\<rparr>\<rparr>, ph(h := RSusp), lg)"
| eff_send_resume: "ph h = SDone \<Longrightarrow>
    chan_effect (w, ph, lg) (w, ph(h := CIdle), lg\<lparr>cl_sends := cl_sends lg @
      [(h, sa_value (cw_send w h), SendAwaitable_await_resume (cw_send w h))]\<rparr>)"
| eff_recv_resume: "ph h = RDone \<Longrightarrow>
    chan_effect (w, ph, lg) (w, ph(h := CIdle), lg\<lparr>cl_recvs := cl_recvs lg @
      [(h, ReceiveAwaitable_await_resume (cw_result w h))]\<rparr>)"
| eff_close:
    "chan_effect (w, ph, lg) (w\<lparr>cw_channel := fst (Channel_Close (cw_channel w))\<rparr>,
       ch_woken (snd (Channel_Close (cw_channel w))) ph, lg)"

lemma chan_effect_inv: "chan_effect conf conf' \<Longrightarrow> chan_inv conf \<Longrightarrow> chan_inv conf'"
proof (induction rule: chan_effect.induct)
  case (eff_send_new ph h w lg v) then show ?case by (intro inv_send_new)
next
  case (eff_recv_new ph h w lg) then show ?case by (intro inv_recv_new)
next
  case (eff_send_fail ph h w lg) then show ?case by (intro inv_send_fail)
next
  case (eff_send_buffer ph h w lg) then show ?case by (intro inv_send_buffer)
next
  case (eff_send_handoff ph h w r rest lg) then show ?case by (intro inv_send_handoff)
next
  case (eff_send_enqueue ph h w lg) then show ?case by (intro inv_send_enqueue)
next
  case (eff_recv_pop ph h w v buf lg) then show ?case by (intro inv_recv_pop)
next
  case (eff_recv_pop_sender ph h w v buf s rest lg) then show ?case by (intro inv_recv_pop_sender)
next
  case (eff_recv_closed ph h w lg) then show ?case by (intro inv_recv_closed)
next
  case (eff_recv_enqueue ph h w lg) then show ?case by (intro inv_recv_enqueue)
next
  case (eff_send_resume ph h w lg) then show ?case by (intro inv_send_resume)
next
  case (eff_recv_resume ph h w lg) then show ?case by (intro inv_recv_resume)
next
  case (eff_close w ph lg) then show ?case by (intro inv_close)
qed

text \<open>The awaitables' operations are made of these changes.\<close>

text \<open>A send that finds a waiting receiver, at either of its two checks.\<close>

lemma send_to_receiver:
  assumes inv: "chan_inv (w, ph, lg)" and h: "ph h = SPolled" and open1: "\<not> ch_closed (cw_channel w)"
    and Cons: "ch_receiver_waiters (cw_channel w) = r # rest"
  shows "chan_effect (w, ph, lg) (send_step h SDone SPolled (SendAwaitable_await_ready h w) (w, ph, lg)) \<and>
    chan_effect (w, ph, lg) (send_step h SSusp SDone (SendAwaitable_await_suspend h h w) (w, ph, lg))"
proof -
  have q: "chan_queues w ph" and sl: "chan_slots w ph" using inv by simp_all
  have ph: "ph (rcw_handle r) = RSusp" "rcw_result r = rcw_handle r"
    using chan_queuesD(1,2) [OF q] Cons by auto
  have rn: "rcw_handle r \<noteq> 0" "rcw_handle r \<noteq> h" using ph h chan_queuesD(6) [OF q] by auto
  have d: "x \<in> set rest \<Longrightarrow> rcw_handle x \<noteq> rcw_handle r \<and> cw_result w (rcw_handle x) = None" for x
    using q sl Cons chan_queuesD(1) [OF q, of x]
    by (auto simp: chan_queues_def chan_slots_def intro: rev_image_eqI)
  have res: "waiters_result w w' = [(rcw_handle r, v)]"
    if "cw_result w' = (cw_result w)(rcw_handle r := Some v)" for w' v
    by (rule waiters_result_first [OF Cons]) (use d that in auto)
  have wk: "ch_woken [rcw_handle r] (ph(h := SDone)) = ph(h := SDone, rcw_handle r := RDone)"
    using ph rn by (auto simp: ch_woken_def)
  from eff_send_handoff [where ph = ph and h = h and w = w and lg = lg, OF h open1 Cons] show ?thesis
    using open1 Cons rn ph(2)
    by (simp add: Channel_defs Let_def send_step_def own_sent_def wk res)
qed

lemma send_step_effect:
  assumes inv: "chan_inv (w, ph, lg)" and h: "ph h = SPolled"
  shows "chan_effect\<^sup>=\<^sup>= (w, ph, lg) (send_step h SDone SPolled (SendAwaitable_await_ready h w) (w, ph, lg))"
    and "chan_effect\<^sup>=\<^sup>= (w, ph, lg) (send_step h SSusp SDone (SendAwaitable_await_suspend h h w) (w, ph, lg))"
proof -
  let ?c = "cw_channel w"
  have q: "chan_queues w ph" and sl: "chan_slots w ph" using inv by simp_all
  have sent: "\<not> sa_sent (cw_send w h)" using sl h by (simp add: chan_slots_def)
  have none: "waiters_result w w' = []" if "cw_result w' = cw_result w" for w'
    by (rule waiters_result_none) (use that sl chan_queuesD(1) [OF q] in \<open>simp add: chan_slots_def\<close>)
  have same: "ph(h := SPolled) = ph" using h by auto
  note eff = eff_send_fail [where ph = ph and h = h and w = w and lg = lg, OF h]
    eff_send_buffer [where ph = ph and h = h and w = w and lg = lg, OF h]
    eff_send_enqueue [where ph = ph and h = h and w = w and lg = lg, OF h]
  have "chan_effect\<^sup>=\<^sup>= (w, ph, lg) (send_step h SDone SPolled (SendAwaitable_await_ready h w) (w, ph, lg)) \<and>
        chan_effect\<^sup>=\<^sup>= (w, ph, lg) (send_step h SSusp SDone (SendAwaitable_await_suspend h h w) (w, ph, lg))"
  proof (cases "ch_closed ?c")
    case True
    with eff(1) sent show ?thesis by (simp add: Channel_defs Let_def send_step_def own_sent_def none)
  next
    case open1: False
    show ?thesis
    proof (cases "ch_receiver_waiters ?c")
      case Nil
      with open1 eff(2,3) sent show ?thesis
        by (cases "length (ch_buffer ?c) < unat (ch_capacity ?c)")
          (simp_all add: Channel_defs Let_def send_step_def own_sent_def none same)
    next
      case (Cons r rest)
      from send_to_receiver [OF inv h open1 Cons] show ?thesis by simp
    qed
  qed
  then show "chan_effect\<^sup>=\<^sup>= (w, ph, lg) (send_step h SDone SPolled (SendAwaitable_await_ready h w) (w, ph, lg))"
    and "chan_effect\<^sup>=\<^sup>= (w, ph, lg) (send_step h SSusp SDone (SendAwaitable_await_suspend h h w) (w, ph, lg))"
    by auto
qed

lemma recv_from_sender:
  assumes inv: "chan_inv (w, ph, lg)" and h: "ph h = RPolled" and buf: "ch_buffer (cw_channel w) = v # buf"
    and Cons: "ch_sender_waiters (cw_channel w) = s # rest"
  shows "chan_effect (w, ph, lg) (recv_step h RDone RPolled (ReceiveAwaitable_await_ready h w) (w, ph, lg)) \<and>
    chan_effect (w, ph, lg) (recv_step h RSusp RDone (ReceiveAwaitable_await_suspend h h w) (w, ph, lg))"
proof -
  have q: "chan_queues w ph" and sl: "chan_slots w ph" using inv by simp_all
  have ph: "ph (sw_handle s) = SSusp" "sw_sent_flag s = sw_handle s"
    "sw_value s = sa_value (cw_send w (sw_handle s))"
    using chan_queuesD(3-5) [OF q] Cons by auto
  have rn: "sw_handle s \<noteq> 0" "sw_handle s \<noteq> h" using ph h chan_queuesD(6) [OF q] by auto
  have d: "x \<in> set rest \<Longrightarrow> sw_handle x \<noteq> sw_handle s \<and> \<not> sa_sent (cw_send w (sw_handle x))" for x
    using q sl Cons chan_queuesD(3) [OF q, of x]
    by (auto simp: chan_queues_def chan_slots_def intro: rev_image_eqI)
  have sent: "waiters_sent w w' = [(sw_handle s, sw_value s)]"
    if "cw_send w' = (cw_send w)(sw_handle s := (cw_send w (sw_handle s))\<lparr>sa_sent := True\<rparr>)" for w'
    using waiters_sent_first [OF Cons, of w'] d that ph(3) by simp
  have wk: "ch_woken [sw_handle s] (ph(h := RDone)) = ph(h := RDone, sw_handle s := SDone)"
    using ph rn by (auto simp: ch_woken_def)
  from eff_recv_pop_sender [where ph = ph and h = h and w = w and lg = lg, OF h buf Cons] show ?thesis
    using buf Cons rn ph(2)
    by (simp add: Channel_defs Let_def recv_step_def own_result_def wk sent)
qed

lemma recv_step_effect:
  assumes inv: "chan_inv (w, ph, lg)" and h: "ph h = RPolled"
  shows "chan_effect\<^sup>=\<^sup>= (w, ph, lg) (recv_step h RDone RPolled (ReceiveAwaitable_await_ready h w) (w, ph, lg))"
    and "chan_effect\<^sup>=\<^sup>= (w, ph, lg) (recv_step h RSusp RDone (ReceiveAwaitable_await_suspend h h w) (w, ph, lg))"
proof -
  let ?c = "cw_channel w"
  have q: "chan_queues w ph" and sl: "chan_slots w ph" using inv by simp_all
  have res: "cw_result w h = None" using sl h by (simp add: chan_slots_def)
  have none: "waiters_sent w w' = []" if "cw_send w' = cw_send w" for w'
    by (rule waiters_sent_none) (use that sl chan_queuesD(3) [OF q] in \<open>simp add: chan_slots_def\<close>)
  have same: "ph(h := RPolled) = ph" using h by auto
  note eff = eff_recv_closed [where ph = ph and h = h and w = w and lg = lg, OF h]
    eff_recv_enqueue [where ph = ph and h = h and w = w and lg = lg, OF h]
  have "chan_effect\<^sup>=\<^sup>= (w, ph, lg) (recv_step h RDone RPolled (ReceiveAwaitable_await_ready h w) (w, ph, lg)) \<and>
        chan_effect\<^sup>=\<^sup>= (w, ph, lg) (recv_step h RSusp RDone (ReceiveAwaitable_await_suspend h h w) (w, ph, lg))"
  proof (cases "ch_buffer ?c")
    case Nil
    with eff res show ?thesis
      by (cases "ch_closed ?c") (simp_all add: Channel_defs Let_def recv_step_def own_result_def none same)
  next
    case buf: (Cons v buf)
    show ?thesis
    proof (cases "ch_sender_waiters ?c")
      case Nil
      with buf eff_recv_pop [where ph = ph and h = h and w = w and lg = lg, OF h buf] show ?thesis
        by (simp add: Channel_defs Let_def recv_step_def own_result_def none)
    next
      case (Cons s rest)
      from recv_from_sender [OF inv h buf Cons] show ?thesis by simp
    qed
  qed
  then show "chan_effect\<^sup>=\<^sup>= (w, ph, lg) (recv_step h RDone RPolled (ReceiveAwaitable_await_ready h w) (w, ph, lg))"
    and "chan_effect\<^sup>=\<^sup>= (w, ph, lg) (recv_step h RSusp RDone (ReceiveAwaitable_await_suspend h h w) (w, ph, lg))"
    by auto
qed

text \<open>A step is at most two of these changes: a new awaitable is made, and it is tried.\<close>

lemma chan_next_effects:
  assumes inv: "chan_inv conf" and nxt: "chan_next l conf = Some conf'"
  shows "chan_effect\<^sup>*\<^sup>* conf conf'"
proof -
  obtain w ph lg where conf: "conf = (w, ph, lg)" by (cases conf)
  note inv = inv [unfolded conf] and nxt = nxt [unfolded conf]
  have one: "chan_effect\<^sup>=\<^sup>= c c' \<Longrightarrow> chan_effect\<^sup>*\<^sup>* c c'" for c c' :: "'a chan_conf" by auto
  show ?thesis unfolding conf
  proof (cases l)
    case (CSend h v)
    with nxt have h: "ph h = CIdle" "h \<noteq> 0" by (auto split: if_splits)
    let ?c = "(w\<lparr>cw_send := (cw_send w)(h := SendAwaitable_init v)\<rparr>, ph(h := SPolled), lg)"
    have new: "chan_effect (w, ph, lg) ?c" by (rule eff_send_new [where ph = ph, OF h])
    have "chan_effect\<^sup>=\<^sup>= ?c conf'"
      using nxt CSend h send_step_effect(1) [OF inv_send_new [OF inv h, of v], of h]
      by (auto simp: send_step_def Let_def split: prod.splits)
    with new one [of ?c conf'] show "chan_effect\<^sup>*\<^sup>* (w, ph, lg) conf'"
      by (meson converse_rtranclp_into_rtranclp)
  next
    case (CRecv h)
    with nxt have h: "ph h = CIdle" "h \<noteq> 0" by (auto split: if_splits)
    let ?c = "(w\<lparr>cw_result := (cw_result w)(h := None)\<rparr>, ph(h := RPolled), lg)"
    have new: "chan_effect (w, ph, lg) ?c" by (rule eff_recv_new [where ph = ph, OF h])
    have "chan_effect\<^sup>=\<^sup>= ?c conf'"
      using nxt CRecv h recv_step_effect(1) [OF inv_recv_new [OF inv h], of h]
      by (auto simp: recv_step_def Let_def split: prod.splits)
    with new one [of ?c conf'] show "chan_effect\<^sup>*\<^sup>* (w, ph, lg) conf'"
      by (meson converse_rtranclp_into_rtranclp)
  next
    case (CSendSuspend h)
    with nxt send_step_effect(2) [OF inv] show "chan_effect\<^sup>*\<^sup>* (w, ph, lg) conf'"
      by (intro one) (auto split: if_splits)
  next
    case (CRecvSuspend h)
    with nxt recv_step_effect(2) [OF inv] show "chan_effect\<^sup>*\<^sup>* (w, ph, lg) conf'"
      by (intro one) (auto split: if_splits)
  next
    case (CSendResume h)
    with nxt show "chan_effect\<^sup>*\<^sup>* (w, ph, lg) conf'"
      by (intro one) (auto intro: eff_send_resume split: if_splits)
  next
    case (CRecvResume h)
    with nxt show "chan_effect\<^sup>*\<^sup>* (w, ph, lg) conf'"
      by (intro one) (auto intro: eff_recv_resume split: if_splits)
  next
    case CClose
    with nxt eff_close [of w ph lg] show "chan_effect\<^sup>*\<^sup>* (w, ph, lg) conf'"
      by (intro one) (auto split: prod.splits)
  qed
qed

lemma chan_effects_inv: "chan_effect\<^sup>*\<^sup>* conf conf' \<Longrightarrow> chan_inv conf \<Longrightarrow> chan_inv conf'"
  by (induction rule: rtranclp_induct) (blast intro: chan_effect_inv)+

lemma chan_next_inv: "chan_inv conf \<Longrightarrow> chan_next l conf = Some conf' \<Longrightarrow> chan_inv conf'"
  by (rule chan_effects_inv [OF chan_next_effects])

lemma chan_reach_inv: "chan_reach cap conf \<Longrightarrow> chan_inv conf"
  by (induction rule: chan_reach.induct) (blast intro: chan_inv_start chan_next_inv)+


lemma chan_reach_capacity: "chan_reach cap (w, ph, lg) \<Longrightarrow> ch_capacity (cw_channel w) = cap"
proof (induction "(w, ph, lg)" arbitrary: w ph lg rule: chan_reach.induct)
  case (chan_start c sends results)
  then show ?case by (auto simp: Channel_init_def split: if_splits)
next
  case (chan_step conf l)
  obtain w0 ph0 lg0 where c: "conf = (w0, ph0, lg0)" by (cases conf)
  with chan_step have "ch_capacity (cw_channel w0) = cap" by simp
  with chan_step(3) c show ?case
    by (cases l) (auto simp: Channel_defs Let_def send_step_def recv_step_def
        split: if_splits list.splits prod.splits)
qed

subsection \<open>Properties\<close>

text \<open>
  Property C1 (first in, first out, nothing lost).  In every interleaving of sends, receives
  and \<open>Close\<close> on a channel of any capacity, the values accepted so far, in the order
  in which they were accepted, are exactly the values delivered to receivers so far, in
  that order, followed by the buffer; and the buffer never exceeds the capacity.
\<close>

theorem channel_fifo:
  assumes "chan_reach cap (w, ph, lg)"
  shows "map snd (cl_accepted lg) = map snd (cl_delivered lg) @ ch_buffer (cw_channel w) \<and>
         Channel_Size (cw_channel w) \<le> unat cap"
  using chan_reach_inv [OF assms] chan_reach_capacity [OF assms]
  by (auto simp: chan_books_def chan_shape_def Channel_Size_def)

lemma chan_example_start:
  "chan_reach 1 (\<lparr>cw_channel = \<lparr>ch_buffer = [], ch_capacity = 1, ch_closed = False,
      ch_receiver_waiters = [], ch_sender_waiters = []\<rparr>,
     cw_send = \<lambda>_. SendAwaitable_init (0 :: nat), cw_result = \<lambda>_. None\<rparr>, \<lambda>_. CIdle, log_init)"
  by (rule chan_start) (simp add: Channel_init_def)

lemmas chan_example = chan_exec_reach [OF chan_example_start]

lemmas chan_eval =
  Channel_defs Let_def send_step_def recv_step_def own_sent_def own_result_def
  waiters_sent_def waiters_result_def log_init_def ch_woken_def

text \<open>
  The run used by the witnesses: a full channel of capacity 1, a suspended sender, and a
  receive that takes the buffered value and lets the sender's value in.
\<close>

definition chan_example_run :: "nat chan_label list" where
  "chan_example_run = [CSend 1 7, CSendResume 1, CSend 2 8, CSendSuspend 2, CRecv 3]"

lemma chan_example_conf:
  "\<exists>w ph lg. chan_reach 1 (w, ph, lg) \<and> cl_accepted lg = [(1, 7), (2, 8 :: nat)] \<and>
     cl_delivered lg = [(3, 7)] \<and> ph 2 = SDone \<and> ph 3 = RDone \<and> ph 1 = CIdle \<and>
     cl_sends lg = [(1, 7, True)] \<and> cl_recvs lg = [] \<and> ch_buffer (cw_channel w) = [8]"
proof -
  obtain conf where ex: "chan_exec chan_example_run
      (\<lparr>cw_channel = \<lparr>ch_buffer = [], ch_capacity = 1, ch_closed = False,
        ch_receiver_waiters = [], ch_sender_waiters = []\<rparr>,
        cw_send = \<lambda>_. SendAwaitable_init (0 :: nat), cw_result = \<lambda>_. None\<rparr>, \<lambda>_. CIdle, log_init) =
      Some conf"
    and conf: "cl_accepted (snd (snd conf)) = [(1, 7), (2, 8 :: nat)] \<and>
      cl_delivered (snd (snd conf)) = [(3, 7)] \<and> fst (snd conf) 2 = SDone \<and>
      fst (snd conf) 3 = RDone \<and> fst (snd conf) 1 = CIdle \<and>
      cl_sends (snd (snd conf)) = [(1, 7, True)] \<and> cl_recvs (snd (snd conf)) = [] \<and>
      ch_buffer (cw_channel (fst conf)) = [8]"
    by (simp add: chan_example_run_def chan_eval)
  obtain w ph lg where "conf = (w, ph, lg)" by (cases conf)
  with chan_example [OF ex] conf show ?thesis by auto
qed

theorem channel_fifo_witness:
  "\<exists>w ph lg. chan_reach 1 (w, ph, lg) \<and> cl_accepted lg = [(1, 7), (2, 8 :: nat)] \<and>
     map snd (cl_delivered lg) @ ch_buffer (cw_channel w) = [7, 8] \<and> Channel_Size (cw_channel w) \<le> 1"
proof -
  obtain w ph lg where r: "chan_reach 1 (w, ph, lg)" and "cl_accepted lg = [(1, 7), (2, 8 :: nat)]"
    using chan_example_conf by blast
  with channel_fifo [OF r] show ?thesis by auto
qed

text \<open>
  What \<open>co_await\<close> returns is true, exactly once:  For every coroutine, the values
  for which its \<open>Send\<close> returned true, plus the one whose \<open>await_resume\<close> is still to
  run, are the values accepted from it, in order; and the values its \<open>Receive\<close> returned,
  plus the one still to be returned, are the values delivered to it, in order.  So a
  \<open>Send\<close> returns true if and only if its value entered the channel, and no value is
  received twice.
\<close>

theorem channel_exactly_once:
  assumes "chan_reach cap (w, ph, lg)"
  shows "by_handle h (cl_accepted lg) = by_handle h (sends_ok (cl_sends lg)) @ send_due w ph h \<and>
         by_handle h (cl_delivered lg) = by_handle h (recvs_ok (cl_recvs lg)) @ recv_due w ph h"
  using chan_reach_inv [OF assms] by (auto simp: chan_books_def)

theorem channel_exactly_once_witness:
  "\<exists>w ph lg. chan_reach 1 (w, ph, lg) \<and> cl_accepted lg = [(1, 7), (2, 8 :: nat)] \<and>
     by_handle 2 (sends_ok (cl_sends lg)) = [] \<and> send_due w ph 2 = [8]"
proof -
  obtain w ph lg where r: "chan_reach 1 (w, ph, lg)" and a: "cl_accepted lg = [(1, 7), (2, 8 :: nat)]"
    and s: "cl_sends lg = [(1, 7, True)]"
    using chan_example_conf by blast
  have "by_handle 2 (sends_ok (cl_sends lg)) = []" by (simp add: s sends_ok_def)
  with channel_exactly_once [OF r, of 2] r a show ?thesis by auto
qed

text \<open>
  Property C31 (nobody waits in vain).  In every reachable configuration, a receiver is suspended
  only while the channel is open and both the buffer and the sender queue are empty; a
  sender is suspended only while the channel is open and the buffer is full; so a
  receiver and a sender are never suspended at once.
\<close>

theorem channel_no_stranded_waiter:
  assumes "chan_reach cap (w, ph, lg)"
  shows "(ph h = RSusp \<longrightarrow> \<not> Channel_IsClosed (cw_channel w) \<and> Channel_Size (cw_channel w) = 0 \<and>
            (\<forall>h'. ph h' \<noteq> SSusp)) \<and>
         (ph h = SSusp \<longrightarrow> \<not> Channel_IsClosed (cw_channel w) \<and> Channel_Size (cw_channel w) = unat cap)"
proof -
  let ?c = "cw_channel w"
  have sh: "chan_shape ?c" and q: "chan_queues w ph" using chan_reach_inv [OF assms] by simp_all
  have cap: "ch_capacity ?c = cap" by (rule chan_reach_capacity [OF assms])
  have r: "ch_receiver_waiters ?c \<noteq> []" if "ph x = RSusp" for x
    using q that unfolding chan_queues_def by (metis empty_iff image_is_empty list.set(1))
  have s: "ch_sender_waiters ?c \<noteq> []" if "ph x = SSusp" for x
    using q that unfolding chan_queues_def by (metis empty_iff image_is_empty list.set(1))
  show ?thesis using sh cap r s by (auto simp: chan_shape_def Channel_defs)
qed

theorem channel_no_stranded_waiter_witness:
  "\<exists>w ph lg. chan_reach 1 (w, ph, lg :: nat chan_log) \<and> ph 2 = SSusp \<and> Channel_Size (cw_channel w) = unat (1 :: size_t)"
proof -
  obtain w ph lg where ex: "chan_exec [CSend 1 7, CSendResume 1, CSend 2 8, CSendSuspend 2]
      (\<lparr>cw_channel = \<lparr>ch_buffer = [], ch_capacity = 1, ch_closed = False,
        ch_receiver_waiters = [], ch_sender_waiters = []\<rparr>,
        cw_send = \<lambda>_. SendAwaitable_init (0 :: nat), cw_result = \<lambda>_. None\<rparr>, \<lambda>_. CIdle, log_init) =
      Some (w, ph, lg)" and "ph 2 = SSusp"
    by (simp add: chan_eval)
  with channel_no_stranded_waiter [OF chan_example [OF ex], of 2] chan_example [OF ex]
  show ?thesis by blast
qed

text \<open>
  Closing drains.  \<open>Close\<close> on a reachable open channel resumes every suspended
  coroutine exactly once and nobody else, and the buffer is kept.  On a closed channel no
  operation suspends: a receive returns the oldest buffered value, or \<open>nullopt\<close> once the
  buffer is empty, and a send fails.
\<close>

theorem channel_close:
  assumes "chan_reach cap (w, ph, lg)"
  shows "(\<not> Channel_IsClosed (cw_channel w) \<longrightarrow>
            (let (c', ws) = Channel_Close (cw_channel w) in
               Channel_IsClosed c' \<and> ch_buffer c' = ch_buffer (cw_channel w) \<and>
               distinct ws \<and> set ws = {h. ph h = RSusp \<or> ph h = SSusp})) \<and>
         (Channel_IsClosed (cw_channel w) \<longrightarrow>
            (let (b, w', ws) = ReceiveAwaitable_await_ready h (w\<lparr>cw_result := (cw_result w)(h := None)\<rparr>) in
               b \<and> ws = [] \<and>
               (case ch_buffer (cw_channel w) of
                  v # vs \<Rightarrow> cw_result w' h = Some v \<and> ch_buffer (cw_channel w') = vs
                | [] \<Rightarrow> cw_result w' h = None)) \<and>
            (let (b, w', ws) = SendAwaitable_await_ready h (w\<lparr>cw_send := (cw_send w)(h := SendAwaitable_init v)\<rparr>) in
               b \<and> ws = [] \<and> cw_channel w' = cw_channel w \<and> \<not> SendAwaitable_await_resume (cw_send w' h)))"
proof (intro conjI impI)
  let ?c = "cw_channel w"
  have sh: "chan_shape ?c" and q: "chan_queues w ph" using chan_reach_inv [OF assms] by simp_all
  {
    assume open1: "\<not> Channel_IsClosed ?c"
    have r: "set (map rcw_handle (ch_receiver_waiters ?c)) = {h. ph h = RSusp}"
      and s: "set (map sw_handle (ch_sender_waiters ?c)) = {h. ph h = SSusp}"
      using q by (auto simp: chan_queues_def)
    have "set (map rcw_handle (ch_receiver_waiters ?c) @ map sw_handle (ch_sender_waiters ?c)) =
        {h. ph h = RSusp \<or> ph h = SSusp}"
      unfolding set_append r s by auto
    moreover have "distinct (map rcw_handle (ch_receiver_waiters ?c) @ map sw_handle (ch_sender_waiters ?c))"
      unfolding distinct_append r s using q by (auto simp: chan_queues_def)
    ultimately show "let (c', ws) = Channel_Close ?c in
        Channel_IsClosed c' \<and> ch_buffer c' = ch_buffer ?c \<and> distinct ws \<and>
        set ws = {h. ph h = RSusp \<or> ph h = SSusp}"
      using open1 by (simp add: Channel_Close_def Channel_IsClosed_def)
  }
  assume closed: "Channel_IsClosed ?c"
  then have "ch_sender_waiters ?c = []" using sh by (simp add: chan_shape_def Channel_defs)
  with closed show "let (b, w', ws) = ReceiveAwaitable_await_ready h (w\<lparr>cw_result := (cw_result w)(h := None)\<rparr>) in
      b \<and> ws = [] \<and> (case ch_buffer ?c of
        v # vs \<Rightarrow> cw_result w' h = Some v \<and> ch_buffer (cw_channel w') = vs | [] \<Rightarrow> cw_result w' h = None)"
    by (simp add: Channel_defs Let_def split: list.splits)
  from closed show "let (b, w', ws) = SendAwaitable_await_ready h
      (w\<lparr>cw_send := (cw_send w)(h := SendAwaitable_init v)\<rparr>) in
      b \<and> ws = [] \<and> cw_channel w' = ?c \<and> \<not> SendAwaitable_await_resume (cw_send w' h)"
    by (simp add: Channel_defs Let_def)
qed

theorem channel_close_witness:
  "\<exists>w ph lg. chan_reach 1 (w, ph, lg :: nat chan_log) \<and> ph 2 = SSusp \<and>
     (let (c', ws) = Channel_Close (cw_channel w) in set ws = {h. ph h = RSusp \<or> ph h = SSusp})"
proof -
  obtain w ph lg where ex: "chan_exec [CSend 1 7, CSendResume 1, CSend 2 8, CSendSuspend 2]
      (\<lparr>cw_channel = \<lparr>ch_buffer = [], ch_capacity = 1, ch_closed = False,
        ch_receiver_waiters = [], ch_sender_waiters = []\<rparr>,
        cw_send = \<lambda>_. SendAwaitable_init (0 :: nat), cw_result = \<lambda>_. None\<rparr>, \<lambda>_. CIdle, log_init) =
      Some (w, ph, lg)" and ph: "ph 2 = SSusp" and op: "\<not> Channel_IsClosed (cw_channel w)"
    by (simp add: chan_eval)
  from op have "let (c', ws) = Channel_Close (cw_channel w) in set ws = {h. ph h = RSusp \<or> ph h = SSusp}"
    using channel_close [OF chan_example [OF ex], of 2 0] by (simp add: case_prod_unfold Let_def)
  then show ?thesis using chan_example [OF ex] ph by blast
qed

end
