(* ===== verification/Channel_Spec.thy ===== *)
theory Channel_Spec
  imports Channel
begin

text \<open>
  The specification of \<open>Channel<T>\<close> as an atomic object, and the refinement: each \<open>Send\<close>, \<open>Receive\<close> and
  \<open>Close\<close> of an interleaved run takes effect at one moment between its start and its return, as
  one operation of a bounded closable queue, and returns what that operation gives.
\<close>

subsection \<open>The atomic queue\<close>

text \<open>
  The operations with their results: a value put in or refused, a value taken or the end.
\<close>

datatype 'a queue_op = Put handle 'a | PutClosed handle 'a | Take handle 'a | TakeEnd handle | CloseQueue

type_synonym 'a queue_state = "'a list \<times> bool"

fun queue_step :: "nat \<Rightarrow> 'a queue_op \<Rightarrow> 'a queue_state \<Rightarrow> 'a queue_state option" where
  "queue_step cap (Put h v) (q, closed) = (if \<not> closed \<and> length q < cap then Some (q @ [v], closed) else None)"
| "queue_step cap (PutClosed h v) (q, closed) = (if closed then Some (q, closed) else None)"
| "queue_step cap (Take h v) (q, closed) = (case q of x # q' \<Rightarrow> if x = v then Some (q', closed) else None | [] \<Rightarrow> None)"
| "queue_step cap (TakeEnd h) (q, closed) = (if closed \<and> q = [] then Some (q, closed) else None)"
| "queue_step cap CloseQueue (q, closed) = Some (q, True)"

fun queue_exec :: "nat \<Rightarrow> 'a queue_op list \<Rightarrow> 'a queue_state \<Rightarrow> 'a queue_state option" where
  "queue_exec cap [] s = Some s"
| "queue_exec cap (e # es) s = Option.bind (queue_step cap e s) (queue_exec cap es)"

lemma queue_exec_append: "queue_exec cap (es @ es') s = Option.bind (queue_exec cap es s) (queue_exec cap es')"
  by (induction es arbitrary: s) (simp_all split: bind_splits)

text \<open>What each coroutine's operations gave, in order.\<close>

fun put_result :: "handle \<Rightarrow> 'a queue_op \<Rightarrow> ('a \<times> bool) list" where
  "put_result h (Put g v) = (if g = h then [(v, True)] else [])"
| "put_result h (PutClosed g v) = (if g = h then [(v, False)] else [])"
| "put_result h _ = []"

fun take_result :: "handle \<Rightarrow> 'a queue_op \<Rightarrow> 'a option list" where
  "take_result h (Take g v) = (if g = h then [Some v] else [])"
| "take_result h (TakeEnd g) = (if g = h then [None] else [])"
| "take_result h _ = []"

definition put_results :: "handle \<Rightarrow> 'a queue_op list \<Rightarrow> ('a \<times> bool) list" where
  "put_results h tr = concat (map (put_result h) tr)"

definition take_results :: "handle \<Rightarrow> 'a queue_op list \<Rightarrow> 'a option list" where
  "take_results h tr = concat (map (take_result h) tr)"

lemma results_simps [simp]:
  "put_results h [] = []" "put_results h (tr @ tr') = put_results h tr @ put_results h tr'"
  "put_results h (e # tr) = put_result h e @ put_results h tr"
  "take_results h [] = []" "take_results h (tr @ tr') = take_results h tr @ take_results h tr'"
  "take_results h (e # tr) = take_result h e @ take_results h tr"
  by (simp_all add: put_results_def take_results_def)

subsection \<open>The refinement relation\<close>

text \<open>
  What the operations of a coroutine have returned, and the result of one that is done but has not yet
  returned.
\<close>

definition sends_of :: "handle \<Rightarrow> 'a chan_conf \<Rightarrow> ('a \<times> bool) list" where
  "sends_of h = (\<lambda>(w, ph, lg). map snd (filter (\<lambda>x. fst x = h) (cl_sends lg)) @
     (if ph h = SDone then [(sa_value (cw_send w h), SendAwaitable_await_resume (cw_send w h))] else []))"

definition recvs_of :: "handle \<Rightarrow> 'a chan_conf \<Rightarrow> 'a option list" where
  "recvs_of h = (\<lambda>(w, ph, lg). map snd (filter (\<lambda>x. fst x = h) (cl_recvs lg)) @
     (if ph h = RDone then [ReceiveAwaitable_await_resume (cw_result w h)] else []))"

definition linearized :: "'a chan_conf \<Rightarrow> 'a queue_op list \<Rightarrow> bool" where
  "linearized conf tr \<longleftrightarrow>
     (let c = cw_channel (fst conf) in
      queue_exec (unat (ch_capacity c)) tr ([], False) = Some (ch_buffer c, ch_closed c)) \<and>
     (\<forall>h. put_results h tr = sends_of h conf) \<and> (\<forall>h. take_results h tr = recvs_of h conf)"

subsection \<open>Each effect is a sequence of atomic operations\<close>

definition effect_ops :: "'a queue_op list \<Rightarrow> 'a chan_conf \<Rightarrow> 'a chan_conf \<Rightarrow> bool" where
  "effect_ops ext conf conf' \<longleftrightarrow>
     (let c = cw_channel (fst conf); c' = cw_channel (fst conf') in
      ch_capacity c' = ch_capacity c \<and>
      queue_exec (unat (ch_capacity c)) ext (ch_buffer c, ch_closed c) = Some (ch_buffer c', ch_closed c')) \<and>
     (\<forall>h. sends_of h conf' = sends_of h conf @ put_results h ext) \<and>
     (\<forall>h. recvs_of h conf' = recvs_of h conf @ take_results h ext)"

lemma linearized_effect: "linearized conf tr \<Longrightarrow> effect_ops ext conf conf' \<Longrightarrow> linearized conf' (tr @ ext)"
  by (auto simp: linearized_def effect_ops_def queue_exec_append Let_def)

lemmas effect_ops_simps = effect_ops_def sends_of_def recvs_of_def SendAwaitable_await_resume_def ReceiveAwaitable_await_resume_def

text \<open>\<open>Close\<close> ends the operations of all waiters.\<close>

lemma queue_exec_ends: "hs = [] \<or> q = [] \<Longrightarrow> queue_exec cap (map TakeEnd hs) (q, True) = Some (q, True)"
  by (induction hs) auto

lemma queue_exec_refused: "queue_exec cap (map (\<lambda>h. PutClosed h (f h)) hs) (q, True) = Some (q, True)"
  by (induction hs) auto

lemma ends_results:
  "put_results h (map TakeEnd hs) = []"
  "distinct hs \<Longrightarrow> take_results h (map TakeEnd hs) = (if h \<in> set hs then [None] else [])"
  by (induction hs) auto

lemma refused_results:
  "take_results h (map (\<lambda>h. PutClosed h (f h)) hs) = []"
  "distinct hs \<Longrightarrow> put_results h (map (\<lambda>h. PutClosed h (f h)) hs) = (if h \<in> set hs then [(f h, False)] else [])"
  by (induction hs) auto

lemma close_ops:
  assumes inv: "chan_inv (w, ph, lg)" and open1: "\<not> ch_closed (cw_channel w)"
  shows "\<exists>ext. effect_ops ext (w, ph, lg) (w\<lparr>cw_channel := fst (Channel_Close (cw_channel w))\<rparr>,
     ch_woken (snd (Channel_Close (cw_channel w))) ph, lg)"
proof -
  let ?rs = "map rcw_handle (ch_receiver_waiters (cw_channel w))" and ?ss = "map sw_handle (ch_sender_waiters (cw_channel w))"
  let ?v = "\<lambda>h. sa_value (cw_send w h)"
  have d: "distinct ?rs" "distinct ?ss" and rs: "h \<in> set ?rs \<longleftrightarrow> ph h = RSusp" and ss: "h \<in> set ?ss \<longleftrightarrow> ph h = SSusp" for h
    using inv by (simp_all add: chan_queues_def)
  have empty: "?rs = [] \<or> ch_buffer (cw_channel w) = []" using inv by (auto simp: chan_shape_def)
  have slots: "ph h = SSusp \<Longrightarrow> \<not> sa_sent (cw_send w h)" "ph h = RSusp \<Longrightarrow> cw_result w h = None" for h
    using inv by (simp_all add: chan_slots_def)
  have ph': "ch_woken (?rs @ ?ss) ph h = (if ph h = RSusp then RDone else if ph h = SSusp then SDone else ph h)" for h
    using rs [of h] ss [of h] by (cases "ph h") (simp_all add: ch_woken_def)
  have "effect_ops (CloseQueue # map TakeEnd ?rs @ map (\<lambda>h. PutClosed h (?v h)) ?ss) (w, ph, lg)
    (w\<lparr>cw_channel := fst (Channel_Close (cw_channel w))\<rparr>, ch_woken (snd (Channel_Close (cw_channel w))) ph, lg)"
    using open1 slots
    by (simp add: effect_ops_simps Channel_Close_def queue_exec_append queue_exec_ends [OF empty] queue_exec_refused
        ends_results refused_results d rs ss ph' del: set_map map_map list.map_comp)
  then show ?thesis by blast
qed

lemma chan_effect_ops: "chan_effect conf conf' \<Longrightarrow> chan_inv conf \<Longrightarrow> \<exists>ext. effect_ops ext conf conf'"
proof (induction rule: chan_effect.induct)
  case (eff_send_new ph h w lg v)
  then show ?case by (intro exI [of _ "[]"]) (simp add: effect_ops_simps)
next
  case (eff_recv_new ph h w lg)
  then show ?case by (intro exI [of _ "[]"]) (simp add: effect_ops_simps)
next
  case (eff_send_fail ph h w lg)
  then show ?case by (intro exI [of _ "[PutClosed h (sa_value (cw_send w h))]"]) (auto simp: effect_ops_simps)
next
  case (eff_send_buffer ph h w lg)
  then have "\<not> sa_failed (cw_send w h)" by (simp add: chan_slots_def)
  with eff_send_buffer show ?case
    by (intro exI [of _ "[Put h (sa_value (cw_send w h))]"]) (simp add: effect_ops_simps)
next
  case (eff_send_handoff ph h w r rest lg)
  then have "\<not> sa_failed (cw_send w h)" "ch_buffer (cw_channel w) = []" "0 < unat (ch_capacity (cw_channel w))"
    "ph (rcw_handle r) = RSusp" "rcw_result r = rcw_handle r"
    using chan_queuesD(1,2) [of w ph r] by (auto simp: chan_slots_def chan_shape_def)
  with eff_send_handoff show ?case
    by (intro exI [of _ "[Put h (sa_value (cw_send w h)), Take (rcw_handle r) (sa_value (cw_send w h))]"])
      (auto simp: effect_ops_simps)
next
  case (eff_send_enqueue ph h w lg)
  then show ?case by (intro exI [of _ "[]"]) (simp add: effect_ops_simps)
next
  case (eff_recv_pop ph h w v buf lg)
  then show ?case by (intro exI [of _ "[Take h v]"]) (simp add: effect_ops_simps)
next
  case (eff_recv_pop_sender ph h w v buf s rest lg)
  then have "ph (sw_handle s) = SSusp" "sw_value s = sa_value (cw_send w (sw_handle s))"
    "length (ch_buffer (cw_channel w)) = unat (ch_capacity (cw_channel w))" "\<not> ch_closed (cw_channel w)"
    using chan_queuesD(3,5) [of w ph s] by (auto simp: chan_shape_def)
  moreover from this eff_recv_pop_sender have "\<not> sa_failed (cw_send w (sw_handle s))" by (simp add: chan_slots_def)
  ultimately show ?case
    using eff_recv_pop_sender
    by (intro exI [of _ "[Take h v, Put (sw_handle s) (sw_value s)]"]) (auto simp: effect_ops_simps)
next
  case (eff_recv_closed ph h w lg)
  then have "cw_result w h = None" by (simp add: chan_slots_def)
  with eff_recv_closed show ?case by (intro exI [of _ "[TakeEnd h]"]) (simp add: effect_ops_simps)
next
  case (eff_recv_enqueue ph h w lg)
  then show ?case by (intro exI [of _ "[]"]) (simp add: effect_ops_simps)
next
  case (eff_send_resume ph h w lg)
  then show ?case by (intro exI [of _ "[]"]) (simp add: effect_ops_simps)
next
  case (eff_recv_resume ph h w lg)
  then show ?case by (intro exI [of _ "[]"]) (simp add: effect_ops_simps)
next
  case (eff_close w ph lg)
  show ?case
  proof (cases "ch_closed (cw_channel w)")
    case True
    then show ?thesis by (intro exI [of _ "[]"]) (simp add: effect_ops_simps Channel_Close_def)
  next
    case False
    from close_ops [OF eff_close False] show ?thesis .
  qed
qed

lemma chan_effects_linearized:
  "chan_effect\<^sup>*\<^sup>* conf conf' \<Longrightarrow> chan_inv conf \<Longrightarrow> linearized conf tr \<Longrightarrow> \<exists>ext. linearized conf' (tr @ ext)"
proof (induction rule: rtranclp_induct)
  case base
  then show ?case by (intro exI [of _ "[]"]) simp
next
  case (step conf1 conf2)
  then obtain ext where "linearized conf1 (tr @ ext)" by blast
  moreover have "chan_inv conf1" by (rule chan_effects_inv [OF step(1,4)])
  with chan_effect_ops [OF step(2)] obtain ext' where "effect_ops ext' conf1 conf2" by blast
  ultimately have "linearized conf2 (tr @ ext @ ext')" using linearized_effect by fastforce
  then show ?case by blast
qed

lemma linearized_start:
  "Channel_init cap = Some c \<Longrightarrow>
   linearized (\<lparr>cw_channel = c, cw_send = sends, cw_result = results\<rparr>, \<lambda>_. CIdle, log_init) []"
  by (auto simp: linearized_def sends_of_def recvs_of_def log_init_def Channel_init_def split: if_splits)

text \<open>
  Property C2 (a channel is an atomic bounded queue).  A new channel is the empty open queue.  And if the
  operations of a run so far are explained by a sequence of atomic queue operations, one per \<open>Send\<close>,
  \<open>Receive\<close> and \<open>Close\<close> that has taken effect, so are they after any further step, by a continuation of the same sequence: the
  sequence is a run of the bounded queue that ends in the channel's buffer and flag, and of every
  coroutine it has exactly the results its operations have returned or are about to return.  So every
  \<open>Send\<close> and \<open>Receive\<close> takes effect between its start and its return; a \<open>Send\<close> returns \<open>false\<close> and a \<open>Receive\<close>
  nothing only when the queue is closed, the latter only when it is also empty; and a closed queue takes nothing in.
\<close>

theorem channel_refines_queue:
  fixes c :: "'a Channel"
  assumes "Channel_init cap = Some c"
  shows "linearized (\<lparr>cw_channel = c, cw_send = sends, cw_result = results\<rparr>, \<lambda>_. CIdle, log_init) [] \<and>
    (\<forall>(conf :: 'a chan_conf) tr l conf'. chan_reach cap conf \<longrightarrow> linearized conf tr \<longrightarrow> chan_next l conf = Some conf' \<longrightarrow>
       (\<exists>ext. linearized conf' (tr @ ext)))"
proof (intro conjI allI impI)
  show "linearized (\<lparr>cw_channel = c, cw_send = sends, cw_result = results\<rparr>, \<lambda>_. CIdle, log_init) []"
    by (rule linearized_start [OF assms])
  fix conf conf' :: "'a chan_conf" and tr l
  assume "chan_reach cap conf" and lin: "linearized conf tr" and nxt: "chan_next l conf = Some conf'"
  then have inv: "chan_inv conf" by (intro chan_reach_inv)
  from chan_effects_linearized [OF chan_next_effects [OF inv nxt] inv lin] show "\<exists>ext. linearized conf' (tr @ ext)" .
qed

theorem channel_refines_queue_witness:
  "\<exists>conf' ext. chan_next (CSend 3 (7 :: nat)) (\<lparr>cw_channel = \<lparr>ch_buffer = [], ch_capacity = 1, ch_closed = False,
      ch_receiver_waiters = [], ch_sender_waiters = []\<rparr>,
     cw_send = \<lambda>_. SendAwaitable_init 0, cw_result = \<lambda>_. None\<rparr>, \<lambda>_. CIdle, log_init) = Some conf' \<and> linearized conf' ext"
proof -
  let ?c = "\<lparr>ch_buffer = [], ch_capacity = 1, ch_closed = False, ch_receiver_waiters = [], ch_sender_waiters = []\<rparr> :: nat Channel"
  let ?conf = "(\<lparr>cw_channel = ?c, cw_send = \<lambda>_. SendAwaitable_init 0, cw_result = \<lambda>_. None\<rparr>, \<lambda>_. CIdle, log_init) :: nat chan_conf"
  have "Channel_init 1 = Some ?c" by (simp add: Channel_init_def)
  note ref = channel_refines_queue [OF this, of "\<lambda>_. SendAwaitable_init 0" "\<lambda>_. None"]
  obtain conf' where nxt: "chan_next (CSend 3 7) ?conf = Some conf'" by (simp add: Let_def)
  from ref [THEN conjunct2, rule_format, OF chan_example_start ref [THEN conjunct1] nxt] nxt show ?thesis by auto
qed

end
