(* ===== verification/Http_Headers.thy ===== *)
theory Http_Headers
  imports Prelude
begin

text \<open>
  \<open>CaseInsensitiveLess\<close> and \<open>HeaderMap\<close> of \<open>http/http.hpp\<close>.  The \<open>std::map\<close> is an
  association list sorted by its comparator: iteration is list order, \<open>find\<close> returns the
  entry whose key is equivalent under the comparator, and \<open>m[k] = v\<close> replaces the value of
  such an entry (keeping the stored spelling of the key) or inserts a new one.
\<close>

subsection \<open>The comparator\<close>

text \<open>\<open>std::tolower\<close> in the "C" locale, on \<open>unsigned char\<close>.\<close>

definition tolower :: "char \<Rightarrow> nat" where
  "tolower c = (let n = of_char c in if 65 \<le> n \<and> n \<le> 90 then n + 32 else n)"

fun CaseInsensitiveLess :: "string \<Rightarrow> string \<Rightarrow> bool" where
  "CaseInsensitiveLess _ [] = False"
| "CaseInsensitiveLess [] (_ # _) = True"
| "CaseInsensitiveLess (a # as) (b # bs) =
     (if tolower a < tolower b then True
      else if tolower b < tolower a then False
      else CaseInsensitiveLess as bs)"

definition same_name :: "string \<Rightarrow> string \<Rightarrow> bool" where
  "same_name a b \<longleftrightarrow> map tolower a = map tolower b"

lemma same_name_refl [simp]: "same_name a a"
  by (simp add: same_name_def)

lemma same_name_sym: "same_name a b \<Longrightarrow> same_name b a"
  by (simp add: same_name_def)

lemma same_name_trans [trans]: "same_name a b \<Longrightarrow> same_name b c \<Longrightarrow> same_name a c"
  by (simp add: same_name_def)

lemma ci_less_irrefl [simp]: "\<not> CaseInsensitiveLess a a"
  by (induction a) auto

lemma ci_less_trans:
  "CaseInsensitiveLess a b \<Longrightarrow> CaseInsensitiveLess b c \<Longrightarrow> CaseInsensitiveLess a c"
proof (induction a c arbitrary: b rule: CaseInsensitiveLess.induct)
  case (1 a)
  then show ?case by (cases b) auto
next
  case (2 b bs)
  then show ?case by simp
next
  case (3 a as b bs)
  then show ?case by (cases "(a # as, b)" rule: CaseInsensitiveLess.cases) (auto split: if_splits)
qed

lemma ci_incomparable:
  "\<not> CaseInsensitiveLess a b \<and> \<not> CaseInsensitiveLess b a \<longleftrightarrow> same_name a b"
proof (induction a b rule: CaseInsensitiveLess.induct)
  case (1 a)
  then show ?case by (cases a) (auto simp: same_name_def)
qed (auto simp: same_name_def)

lemma ci_less_cong:
  assumes "same_name a a'" and "same_name b b'"
  shows "CaseInsensitiveLess a b = CaseInsensitiveLess a' b'"
  using assms
proof (induction a b arbitrary: a' b' rule: CaseInsensitiveLess.induct)
  case (1 a)
  then show ?case by (simp add: same_name_def)
next
  case (2 b bs)
  then show ?case by (cases b') (auto simp: same_name_def)
next
  case (3 a as b bs)
  then show ?case by (cases a'; cases b') (auto simp: same_name_def)
qed

lemma ci_less_asym: "CaseInsensitiveLess a b \<Longrightarrow> \<not> CaseInsensitiveLess b a"
  using ci_less_trans ci_less_irrefl by blast

subsection \<open>The map\<close>

type_synonym HeaderMap = "(string \<times> string) list"

fun headers_find :: "string \<Rightarrow> HeaderMap \<Rightarrow> string option" where
  "headers_find n [] = None"
| "headers_find n ((k, v) # m) =
     (if \<not> CaseInsensitiveLess n k \<and> \<not> CaseInsensitiveLess k n then Some v else headers_find n m)"

fun headers_set :: "string \<Rightarrow> string \<Rightarrow> HeaderMap \<Rightarrow> HeaderMap" where
  "headers_set n v [] = [(n, v)]"
| "headers_set n v ((k, w) # m) =
     (if CaseInsensitiveLess n k then (n, v) # (k, w) # m
      else if CaseInsensitiveLess k n then (k, w) # headers_set n v m
      else (k, v) # m)"

definition headers_sorted :: "HeaderMap \<Rightarrow> bool" where
  "headers_sorted m \<longleftrightarrow> sorted_wrt CaseInsensitiveLess (map fst m)"

definition headers_size :: "HeaderMap \<Rightarrow> nat" where
  "headers_size m = sum_list (map (\<lambda>(k, v). length k + length v) m)"

lemma headers_sorted_simps [simp]:
  "headers_sorted []"
  "headers_sorted ((k, v) # m) \<longleftrightarrow> (\<forall>x \<in> fst ` set m. CaseInsensitiveLess k x) \<and> headers_sorted m"
  by (simp_all add: headers_sorted_def)

lemma headers_find_Cons:
  "headers_find n ((k, v) # m) = (if same_name n k then Some v else headers_find n m)"
  by (simp add: ci_incomparable)

declare headers_find.simps(2) [simp del]

lemma headers_find_not_in:
  "(\<And>x. x \<in> fst ` set m \<Longrightarrow> \<not> same_name n x) \<Longrightarrow> headers_find n m = None"
  by (induction m) (auto simp: headers_find_Cons)

lemma headers_find_None_iff:
  "headers_find n m = None \<longleftrightarrow> (\<forall>x \<in> fst ` set m. \<not> same_name n x)"
  by (induction m) (auto simp: headers_find_Cons split: if_splits)

lemma headers_find_same: "same_name n n' \<Longrightarrow> headers_find n m = headers_find n' m"
proof (induction m)
  case (Cons kv m)
  obtain k v where kv: "kv = (k, v)" by (cases kv)
  have "same_name n k \<longleftrightarrow> same_name n' k"
    using Cons.prems same_name_trans same_name_sym by blast
  with Cons show ?case by (simp add: kv headers_find_Cons)
qed simp

lemma headers_set_keys:
  "x \<in> fst ` set (headers_set n v m) \<Longrightarrow> x = n \<or> x \<in> fst ` set m"
  by (induction n v m rule: headers_set.induct) (auto split: if_splits)

lemma headers_set_sorted: "headers_sorted m \<Longrightarrow> headers_sorted (headers_set n v m)"
proof (induction n v m rule: headers_set.induct)
  case (2 n v k w m)
  then show ?case
    by (auto dest!: headers_set_keys [OF imageI] dest: ci_less_trans)
qed simp

text \<open>In a sorted map nothing after a greater key is equivalent.\<close>

lemma headers_find_less:
  assumes "headers_sorted m" and "\<forall>x \<in> fst ` set m. CaseInsensitiveLess n x"
  shows "headers_find n m = None"
  using assms(2) ci_incomparable by (intro headers_find_not_in) blast

lemma headers_find_set:
  assumes "headers_sorted m"
  shows "headers_find n' (headers_set n v m) = (if same_name n' n then Some v else headers_find n' m)"
  using assms
proof (induction n v m rule: headers_set.induct)
  case (1 n v)
  then show ?case by (simp add: headers_find_Cons)
next
  case (2 n v k w m)
  consider "CaseInsensitiveLess n k" | "\<not> CaseInsensitiveLess n k" "CaseInsensitiveLess k n" | "same_name n k"
    using ci_incomparable by blast
  then show ?case
  proof cases
    case 2
    then have "\<not> same_name n k" using ci_incomparable by blast
    then have "\<not> (same_name n' n \<and> same_name n' k)"
      using same_name_trans same_name_sym by blast
    with 2 "2.IH" "2.prems" show ?thesis by (auto simp: headers_find_Cons)
  next
    case 3
    then have "same_name n' k = same_name n' n"
      using same_name_trans same_name_sym by blast
    then show ?thesis using 3 ci_incomparable by (auto simp: headers_find_Cons)
  qed (simp add: headers_find_Cons)
qed

lemma headers_set_length:
  assumes "headers_sorted m"
  shows "length (headers_set n v m) = (if headers_find n m = None then Suc (length m) else length m)"
  using assms
proof (induction n v m rule: headers_set.induct)
  case (2 n v k w m)
  consider "CaseInsensitiveLess n k" | "\<not> CaseInsensitiveLess n k" "CaseInsensitiveLess k n" | "same_name n k"
    using ci_incomparable by blast
  then show ?case
  proof cases
    case 1
    then have "headers_find n ((k, w) # m) = None"
      using "2.prems" ci_less_trans by (intro headers_find_less) auto
    with 1 show ?thesis by simp
  next
    case 2
    then have "\<not> same_name n k" using ci_incomparable by blast
    with 2 "2.IH" "2.prems" show ?thesis by (simp add: headers_find_Cons)
  next
    case 3
    then show ?thesis using ci_incomparable by (auto simp: headers_find_Cons)
  qed
qed simp

text \<open>How a write changes the total size of keys and values.\<close>

lemma headers_set_size:
  assumes "headers_sorted m"
  shows "headers_find n m = None \<Longrightarrow> headers_size (headers_set n v m) = headers_size m + length n + length v"
    and "headers_find n m = Some w \<Longrightarrow> headers_size (headers_set n v m) + length w = headers_size m + length v"
proof -
  have "(headers_find n m = None \<longrightarrow>
          headers_size (headers_set n v m) = headers_size m + length n + length v) \<and>
        (headers_find n m = Some w \<longrightarrow>
          headers_size (headers_set n v m) + length w = headers_size m + length v)"
    using assms
  proof (induction n v m rule: headers_set.induct)
    case (1 n v)
    then show ?case by (simp add: headers_size_def)
  next
    case (2 n v k x m)
    consider "CaseInsensitiveLess n k" | "\<not> CaseInsensitiveLess n k" "CaseInsensitiveLess k n" | "same_name n k"
      using ci_incomparable by blast
    then show ?case
    proof cases
      case 1
      then have "headers_find n ((k, x) # m) = None"
        using "2.prems" ci_less_trans by (intro headers_find_less) auto
      with 1 show ?thesis by (simp add: headers_size_def)
    next
      case 2
      then have "\<not> same_name n k" using ci_incomparable by blast
      with 2 "2.IH" "2.prems" show ?thesis by (auto simp: headers_find_Cons headers_size_def)
    next
      case 3
      then show ?thesis using ci_incomparable by (auto simp: headers_find_Cons headers_size_def)
    qed
  qed
  then show "headers_find n m = None \<Longrightarrow> headers_size (headers_set n v m) = headers_size m + length n + length v"
    and "headers_find n m = Some w \<Longrightarrow> headers_size (headers_set n v m) + length w = headers_size m + length v"
    by auto
qed

lemma headers_set_again:
  "headers_set n v' (headers_set n v m) = headers_set n v' m"
  by (induction n v m rule: headers_set.induct) auto

lemma headers_set_size_mono:
  assumes "headers_sorted m" and "length v \<le> length v'"
  shows "headers_size (headers_set n v m) \<le> headers_size (headers_set n v' m)"
proof (cases "headers_find n m")
  case None
  then show ?thesis using headers_set_size(1) [OF assms(1) None] assms(2) by simp
next
  case (Some w)
  then show ?thesis
    using headers_set_size(2) [OF assms(1) Some, of v] headers_set_size(2) [OF assms(1) Some, of v'] assms(2)
    by linarith
qed

lemma headers_set_length_value:
  "headers_sorted m \<Longrightarrow> length (headers_set n v m) = length (headers_set n v' m)"
  by (simp add: headers_set_length)

subsection \<open>The contract of a header map\<close>

text \<open>What the parser and the responses rely on, and what follows for sequences of writes.\<close>

locale header_map =
  fixes empty :: 'm
    and upd :: "string \<Rightarrow> string \<Rightarrow> 'm \<Rightarrow> 'm"
    and find :: "string \<Rightarrow> 'm \<Rightarrow> string option"
    and count :: "'m \<Rightarrow> nat"
    and invar :: "'m \<Rightarrow> bool"
  assumes invar_empty: "invar empty"
    and invar_upd: "invar m \<Longrightarrow> invar (upd n v m)"
    and find_empty: "find n empty = None"
    and find_upd: "invar m \<Longrightarrow> find n' (upd n v m) = (if same_name n' n then Some v else find n' m)"
    and count_empty: "count empty = 0"
    and count_upd: "invar m \<Longrightarrow> count (upd n v m) = (if find n m = None then Suc (count m) else count m)"
begin

definition writes :: "(string \<times> string) list \<Rightarrow> 'm \<Rightarrow> 'm" where
  "writes kvs m = fold (\<lambda>(k, v). upd k v) kvs m"

lemma writes_simps [simp]:
  "writes [] m = m" "writes ((k, v) # kvs) m = writes kvs (upd k v m)"
  by (simp_all add: writes_def)

lemma invar_writes: "invar m \<Longrightarrow> invar (writes kvs m)"
  by (induction kvs arbitrary: m) (auto simp: invar_upd)

lemma find_writes_other:
  "invar m \<Longrightarrow> \<forall>k \<in> fst ` set kvs. \<not> same_name n k \<Longrightarrow> find n (writes kvs m) = find n m"
  by (induction kvs arbitrary: m) (auto simp: invar_upd find_upd)

lemma find_writes_last:
  "invar m \<Longrightarrow> \<forall>k \<in> fst ` set after. \<not> same_name n k \<Longrightarrow> same_name n k0 \<Longrightarrow>
   find n (writes (before @ (k0, v) # after) m) = Some v"
proof (induction before arbitrary: m)
  case Nil
  then show ?case by (simp add: find_writes_other invar_upd find_upd)
next
  case (Cons kv before)
  then show ?case by (cases kv) (simp add: invar_upd)
qed

lemma count_writes: "invar m \<Longrightarrow> count (writes kvs m) \<le> count m + length kvs"
proof (induction kvs arbitrary: m)
  case (Cons kv kvs)
  obtain k v where kv: "kv = (k, v)" by (cases kv)
  have "count (writes kvs (upd k v m)) \<le> count (upd k v m) + length kvs"
    using Cons by (simp add: invar_upd)
  then show ?case using Cons.prems by (simp add: kv count_upd split: if_splits)
qed simp

end

interpretation headers: header_map "[]" headers_set headers_find length headers_sorted
  by unfold_locales (simp_all add: headers_set_sorted headers_find_set headers_set_length)

text \<open>
  Header map: On a sorted header map, after any sequence of writes
  \<open>headers[k] = v\<close>, looking up a name in any letter case gives the value last written under
  a name equal up to case, other names keep their value, the map stays sorted without
  two names equal up to case, and it grows by at most one entry per write.
\<close>

theorem header_map_last_write_wins:
  assumes "headers_sorted m" and "same_name n k" and "\<And>x. x \<in> fst ` set after \<Longrightarrow> \<not> same_name n x"
    and m': "m' = fold (\<lambda>(k, v). headers_set k v) (before @ (k, v) # after) m"
  shows "headers_find n m' = Some v \<and> headers_sorted m' \<and>
         length m' \<le> length m + length before + length after + 1 \<and>
         (\<forall>n'. (\<forall>x \<in> fst ` set (before @ (k, v) # after). \<not> same_name n' x) \<longrightarrow>
            headers_find n' m' = headers_find n' m)"
  using headers.find_writes_last [OF assms(1) _ assms(2), of after before v] assms(3)
    headers.invar_writes [OF assms(1), of "before @ (k, v) # after"]
    headers.count_writes [OF assms(1), of "before @ (k, v) # after"]
    headers.find_writes_other [OF assms(1), of "before @ (k, v) # after"]
  unfolding m' headers.writes_def by auto

theorem header_map_last_write_wins_witness:
  "headers_find ''host'' (fold (\<lambda>(k, v). headers_set k v)
     ([(''Host'', ''a'')] @ (''HOST'', ''b'') # [(''Accept'', ''c'')]) []) = Some ''b''"
proof -
  have "headers_find ''host'' (fold (\<lambda>(k, v). headers_set k v)
     ([(''Host'', ''a'')] @ (''HOST'', ''b'') # [(''Accept'', ''c'')]) []) = Some ''b'' \<and>
     headers_sorted (fold (\<lambda>(k, v). headers_set k v)
     ([(''Host'', ''a'')] @ (''HOST'', ''b'') # [(''Accept'', ''c'')]) [])"
    using header_map_last_write_wins
      [of "[]" "''host''" "''HOST''" "[(''Accept'', ''c'')]" _ "[(''Host'', ''a'')]" "''b''", OF _ _ _ refl]
    by (simp add: same_name_def tolower_def del: fold.simps headers_set.simps)
  then show ?thesis by simp
qed

end
