(* ===== verification/Decimal.thy ===== *)
theory Decimal
  imports Prelude
begin

text \<open>
  Decimal notation: \<open>std::to_string\<close> and \<open>operator<<\<close> for integers, a reader for it, and the
  allocation-free \<open>UintToStr\<close> of \<open>core/check.hpp\<close>.
\<close>

subsection \<open>Writing and reading\<close>

text \<open>\<open>std::to_string\<close> and \<open>operator<<\<close> for integers: decimal digits, \<open>-\<close> when negative.\<close>

definition digit :: "nat \<Rightarrow> char" where
  "digit n = char_of (48 + n)"

fun nat_to_string :: "nat \<Rightarrow> string" where
  "nat_to_string n =
     (if n < 10 then [digit n] else nat_to_string (n div 10) @ [digit (n mod 10)])"

declare nat_to_string.simps [simp del]

definition int_to_string :: "int \<Rightarrow> string" where
  "int_to_string i = (if i < 0 then CHR ''-'' # nat_to_string (nat (- i)) else nat_to_string (nat i))"

fun string_to_nat_acc :: "nat \<Rightarrow> string \<Rightarrow> nat" where
  "string_to_nat_acc a [] = a"
| "string_to_nat_acc a (c # s) = string_to_nat_acc (10 * a + (of_char c - 48)) s"

definition string_to_nat :: "string \<Rightarrow> nat" where
  "string_to_nat = string_to_nat_acc 0"

lemma string_to_nat_acc_snoc:
  "string_to_nat_acc a (s @ [c]) = 10 * string_to_nat_acc a s + (of_char c - 48)"
  by (induction s arbitrary: a) auto

lemma digit_value: "n < 10 \<Longrightarrow> of_char (digit n) - 48 = n"
  by (simp add: digit_def)

lemma string_to_nat_to_string: "string_to_nat (nat_to_string n) = n"
proof (induction n rule: nat_to_string.induct)
  case (1 n)
  show ?case
  proof (cases "n < 10")
    case True
    then show ?thesis by (simp add: nat_to_string.simps string_to_nat_def digit_value)
  next
    case False
    then have "string_to_nat (nat_to_string n) = 10 * (n div 10) + n mod 10"
      using 1 by (subst nat_to_string.simps)
        (simp add: string_to_nat_def string_to_nat_acc_snoc digit_value)
    then show ?thesis by simp
  qed
qed

lemma nat_to_string_digits: "c \<in> set (nat_to_string n) \<Longrightarrow> \<exists>d < 10. c = digit d"
proof (induction n rule: nat_to_string.induct)
  case (1 n)
  show ?case
  proof (cases "n < 10")
    case True
    with "1.prems" show ?thesis by (subst (asm) nat_to_string.simps) auto
  next
    case False
    with "1.prems" have "c \<in> set (nat_to_string (n div 10)) \<or> c = digit (n mod 10)"
      by (subst (asm) nat_to_string.simps) auto
    moreover have "n mod 10 < 10" by simp
    ultimately show ?thesis using "1.IH" [OF False] by metis
  qed
qed

subsection \<open>UintToStr\<close>

text \<open>
  The loop writes digits before \<open>buf_end\<close>, last digit first; the accumulator is what has
  been written so far, that is the characters from \<open>p\<close> to \<open>buf_end\<close>.
\<close>

lemma unat_div_mod_10:
  fixes v :: "32 word"
  shows "unat (v div 10) = unat v div 10" and "unat (v mod 10) = unat v mod 10"
  by (simp_all add: unat_div unat_mod)

function UintToStr_loop :: "uint32 \<Rightarrow> string \<Rightarrow> string" where
  "UintToStr_loop value buf =
     (let buf = char_of (48 + unat (value mod 10)) # buf; value = value div 10
      in if value \<noteq> 0 then UintToStr_loop value buf else buf)"
  by pat_completeness auto
termination
proof (relation "measure (\<lambda>(v, _). unat v)", simp)
  fix v :: uint32 and buf b w assume "w = v div 10" "w \<noteq> 0"
  then have "unat v div 10 \<noteq> 0" by (metis unat_div_mod_10(1) unsigned_eq_0_iff)
  then show "((w, b), v, buf) \<in> measure (\<lambda>(v, _). unat v)"
    using \<open>w = v div 10\<close> by (simp add: unat_div_mod_10)
qed

declare UintToStr_loop.simps [simp del]

definition UintToStr :: "uint32 \<Rightarrow> string" where
  "UintToStr value = UintToStr_loop value []"

lemma UintToStr_loop_eq: "UintToStr_loop v buf = nat_to_string (unat v) @ buf"
proof (induction v buf rule: UintToStr_loop.induct)
  case (1 v buf)
  show ?case
  proof (cases "v div 10 = 0")
    case True
    then have "unat v div 10 = 0" by (metis unat_div_mod_10(1) unat_0)
    then have "unat v < 10" by simp
    then show ?thesis using True
      by (subst UintToStr_loop.simps) (simp add: Let_def unat_div_mod_10 nat_to_string.simps digit_def)
  next
    case False
    then have "unat v div 10 \<noteq> 0" by (metis unat_div_mod_10(1) unsigned_eq_0_iff)
    then have "\<not> unat v < 10" by simp
    then show ?thesis
      using 1 [OF refl refl False] False
      by (subst UintToStr_loop.simps, subst nat_to_string.simps [of "unat v"])
        (simp add: Let_def unat_div_mod_10 digit_def)
  qed
qed

lemma nat_to_string_length: "n < 10 ^ Suc k \<Longrightarrow> length (nat_to_string n) \<le> Suc k"
proof (induction k arbitrary: n)
  case 0
  then show ?case by (simp add: nat_to_string.simps)
next
  case (Suc k)
  show ?case
  proof (cases "n < 10")
    case True
    then show ?thesis by (simp add: nat_to_string.simps)
  next
    case False
    have "n div 10 < 10 ^ Suc k" using Suc.prems by (simp add: less_mult_imp_div_less)
    from Suc.IH [OF this] show ?thesis using False by (subst nat_to_string.simps) simp
  qed
qed

text \<open>
  \<open>UintToStr\<close>.  For every 32-bit value the buffer holds its decimal digits, without
  leading zeros, which read back as the value, and at most 10 characters are written: the
  12-byte buffer of \<open>CheckFail\<close> is large enough.
\<close>

theorem UintToStr_correct:
  "UintToStr v = nat_to_string (unat v) \<and> string_to_nat (UintToStr v) = unat v \<and>
   length (UintToStr v) \<le> 10 \<and> UintToStr v \<noteq> []"
proof -
  have eq: "UintToStr v = nat_to_string (unat v)" by (simp add: UintToStr_def UintToStr_loop_eq)
  have "unat v < 10 ^ Suc 9"
    using unsigned_less [of v, where ?'a = nat] by simp
  from nat_to_string_length [OF this] have "length (UintToStr v) \<le> 10" by (simp add: eq)
  moreover have "UintToStr v \<noteq> []" unfolding eq by (subst nat_to_string.simps) simp
  ultimately show ?thesis by (simp add: eq string_to_nat_to_string)
qed

end
