(* ===== verification/Check.thy ===== *)
theory Check
  imports Decimal
begin

text \<open>
  \<open>HOTCOCO_CHECK\<close> of \<open>core/check.hpp\<close>: a condition that fails ends the process with a message
  on the standard error stream.  The line number is written with \<open>UintToStr\<close> into a buffer on
  the stack, here its twelve bytes, the last ones filled first.
\<close>

record source_location =
  sl_file_name :: string
  sl_function_name :: string
  sl_line :: uint32

text \<open>The end of a check: the program goes on, or it has aborted and written a message.\<close>

datatype check_outcome = Check_passed | Aborted (stderr_output: string)

text \<open>
  \<open>line_buf\<close> is the array of 12 bytes and \<open>line_end\<close> its end; a write of more than 12
  characters would start before it.
\<close>

definition CheckFail_line :: "uint32 \<Rightarrow> string \<Rightarrow> string option" where
  "CheckFail_line line line_buf =
    (let digits = UintToStr line in
     if length digits \<le> length line_buf
     then Some (take (length line_buf - length digits) line_buf @ digits)
     else None)"

definition CheckFail :: "string \<Rightarrow> string \<Rightarrow> source_location \<Rightarrow> check_outcome" where
  "CheckFail cond_str msg loc =
     Aborted (''HOTCOCO_CHECK('' @ cond_str @ '') failed: '' @ msg @ [char_of (10::nat)] @ ''  in ''
       @ sl_function_name loc @ '' ('' @ sl_file_name loc @ '':'' @ UintToStr (sl_line loc) @ '')'' @ [char_of (10::nat)])"

definition HOTCOCO_CHECK :: "bool \<Rightarrow> string \<Rightarrow> string \<Rightarrow> source_location \<Rightarrow> check_outcome" where
  "HOTCOCO_CHECK cnd cond_str msg loc = (if \<not> cnd then CheckFail cond_str msg loc else Check_passed)"

text \<open>The reader of a report takes the digits before the closing parenthesis.\<close>

definition report_line :: "string \<Rightarrow> nat" where
  "report_line s = string_to_nat (rev (takeWhile (\<lambda>c. c \<noteq> CHR '':'') (drop 2 (rev s))))"

lemma UintToStr_no_colon: "CHR '':'' \<notin> set (UintToStr v)"
proof
  assume "CHR '':'' \<in> set (UintToStr v)"
  then obtain d where d: "d < 10" "CHR '':'' = digit d"
    using nat_to_string_digits UintToStr_loop_eq [of v "[]"] by (auto simp: UintToStr_def)
  have "of_char (CHR '':'') - 48 = d" using digit_value [OF d(1)] d(2) by simp
  with d(1) show False by simp
qed

text \<open>
  The line number of any report is the line of the failed check, whatever the condition, the
  message and the names contain, and it fits the buffer: nothing is written outside of it.
\<close>

theorem check_reports_line:
  "HOTCOCO_CHECK cnd cond_str msg loc = Check_passed \<longleftrightarrow> cnd"
  "report_line (stderr_output (HOTCOCO_CHECK False cond_str msg loc)) = unat (sl_line loc)"
  "length line_buf = 12 \<Longrightarrow>
     \<exists>pre. CheckFail_line (sl_line loc) line_buf = Some (pre @ UintToStr (sl_line loc)) \<and>
       length pre + length (UintToStr (sl_line loc)) = 12"
proof -
  show "HOTCOCO_CHECK cnd cond_str msg loc = Check_passed \<longleftrightarrow> cnd"
    by (simp add: HOTCOCO_CHECK_def CheckFail_def)
  have "takeWhile (\<lambda>c. c \<noteq> CHR '':'') (rev (UintToStr v) @ CHR '':'' # rest) = rev (UintToStr v)" for v rest
    using UintToStr_no_colon [of v] by (subst takeWhile_append2) auto
  then show "report_line (stderr_output (HOTCOCO_CHECK False cond_str msg loc)) = unat (sl_line loc)"
    by (simp add: report_line_def HOTCOCO_CHECK_def CheckFail_def UintToStr_correct string_to_nat_to_string)
  assume "length line_buf = 12"
  then show "\<exists>pre. CheckFail_line (sl_line loc) line_buf = Some (pre @ UintToStr (sl_line loc)) \<and>
      length pre + length (UintToStr (sl_line loc)) = 12"
    using conjunct1 [OF conjunct2 [OF conjunct2 [OF UintToStr_correct [of "sl_line loc"]]]]
    by (simp add: CheckFail_line_def Let_def)
qed

end
