(* ===== verification/Http_Message.thy ===== *)
theory Http_Message
  imports Http_Headers Decimal
begin

text \<open>
  Methods, requests and responses of \<open>http/http.hpp\<close> and \<open>http/http.cpp\<close>, with the
  serialisation of a response and a decoder for it as the reference.
\<close>

subsection \<open>Methods\<close>

datatype HttpMethod = GET | POST | PUT | DELETE | PATCH | HEAD | OPTIONS | UNKNOWN

fun HttpMethodToString :: "HttpMethod \<Rightarrow> string" where
  "HttpMethodToString GET = ''GET''"
| "HttpMethodToString POST = ''POST''"
| "HttpMethodToString PUT = ''PUT''"
| "HttpMethodToString DELETE = ''DELETE''"
| "HttpMethodToString PATCH = ''PATCH''"
| "HttpMethodToString HEAD = ''HEAD''"
| "HttpMethodToString OPTIONS = ''OPTIONS''"
| "HttpMethodToString UNKNOWN = ''UNKNOWN''"

text \<open>
  llhttp's method codes are that library's enumeration; the model names the ones the
  source distinguishes and keeps the code of any other.
\<close>

datatype llhttp_method = HTTP_GET | HTTP_POST | HTTP_PUT | HTTP_DELETE | HTTP_PATCH | HTTP_HEAD
  | HTTP_OPTIONS | HTTP_OTHER nat

fun HttpMethodFromLlhttp :: "llhttp_method \<Rightarrow> HttpMethod" where
  "HttpMethodFromLlhttp HTTP_GET = GET"
| "HttpMethodFromLlhttp HTTP_POST = POST"
| "HttpMethodFromLlhttp HTTP_PUT = PUT"
| "HttpMethodFromLlhttp HTTP_DELETE = DELETE"
| "HttpMethodFromLlhttp HTTP_PATCH = PATCH"
| "HttpMethodFromLlhttp HTTP_HEAD = HEAD"
| "HttpMethodFromLlhttp HTTP_OPTIONS = OPTIONS"
| "HttpMethodFromLlhttp (HTTP_OTHER _) = UNKNOWN"

subsection \<open>Requests\<close>

record HttpRequest =
  rq_method :: HttpMethod
  rq_url :: string
  rq_path :: string
  rq_query :: string
  rq_headers :: HeaderMap
  rq_body :: string
  rq_http_major :: int
  rq_http_minor :: int

definition HttpRequest_init :: HttpRequest where
  "HttpRequest_init =
    \<lparr>rq_method = GET, rq_url = [], rq_path = [], rq_query = [], rq_headers = [], rq_body = [],
     rq_http_major = 1, rq_http_minor = 1\<rparr>"

definition HttpRequest_GetHeader :: "string \<Rightarrow> HttpRequest \<Rightarrow> string" where
  "HttpRequest_GetHeader name rq =
    (case headers_find name (rq_headers rq) of Some v \<Rightarrow> v | None \<Rightarrow> [])"

definition HttpRequest_HasHeader :: "string \<Rightarrow> HttpRequest \<Rightarrow> bool" where
  "HttpRequest_HasHeader name rq \<longleftrightarrow> headers_find name (rq_headers rq) \<noteq> None"

definition to_lower :: "string \<Rightarrow> string" where
  "to_lower s = map (\<lambda>c. char_of (tolower c)) s"

definition HttpRequest_ShouldKeepAlive :: "HttpRequest \<Rightarrow> bool" where
  "HttpRequest_ShouldKeepAlive rq =
    (let conn_lower = to_lower (HttpRequest_GetHeader ''Connection'' rq) in
     if rq_http_major rq = 1 \<and> rq_http_minor rq = 0 then conn_lower = ''keep-alive''
     else conn_lower \<noteq> ''close'')"

subsection \<open>Responses\<close>

record HttpResponse =
  rs_status_code :: int
  rs_status_text :: string
  rs_headers :: HeaderMap
  rs_body :: string

definition HttpResponse_init :: HttpResponse where
  "HttpResponse_init = \<lparr>rs_status_code = 200, rs_status_text = ''OK'', rs_headers = [], rs_body = []\<rparr>"

definition HttpResponse_Ok :: "string \<Rightarrow> string \<Rightarrow> HttpResponse" where
  "HttpResponse_Ok body content_type =
    (let res = HttpResponse_init\<lparr>rs_status_code := 200, rs_status_text := ''OK'', rs_body := body\<rparr>
     in res\<lparr>rs_headers := headers_set ''Content-Length'' (nat_to_string (length body))
          (headers_set ''Content-Type'' content_type (rs_headers res))\<rparr>)"

definition HttpResponse_Html :: "string \<Rightarrow> HttpResponse" where
  "HttpResponse_Html html = HttpResponse_Ok html ''text/html; charset=utf-8''"

definition HttpResponse_Json :: "string \<Rightarrow> HttpResponse" where
  "HttpResponse_Json json = HttpResponse_Ok json ''application/json''"

definition HttpResponse_NotFound :: "string \<Rightarrow> HttpResponse" where
  "HttpResponse_NotFound message =
    (let res = HttpResponse_init\<lparr>rs_status_code := 404, rs_status_text := ''Not Found'', rs_body := message\<rparr>
     in res\<lparr>rs_headers := headers_set ''Content-Length'' (nat_to_string (length message))
          (headers_set ''Content-Type'' ''text/plain'' (rs_headers res))\<rparr>)"

definition HttpResponse_BadRequest :: "string \<Rightarrow> HttpResponse" where
  "HttpResponse_BadRequest message =
    (let res = HttpResponse_init\<lparr>rs_status_code := 400, rs_status_text := ''Bad Request'', rs_body := message\<rparr>
     in res\<lparr>rs_headers := headers_set ''Content-Length'' (nat_to_string (length message))
          (headers_set ''Content-Type'' ''text/plain'' (rs_headers res))\<rparr>)"

definition HttpResponse_InternalError :: "string \<Rightarrow> HttpResponse" where
  "HttpResponse_InternalError message =
    (let res = HttpResponse_init\<lparr>rs_status_code := 500, rs_status_text := ''Internal Server Error'',
                                 rs_body := message\<rparr>
     in res\<lparr>rs_headers := headers_set ''Content-Length'' (nat_to_string (length message))
          (headers_set ''Content-Type'' ''text/plain'' (rs_headers res))\<rparr>)"

definition HttpResponse_SetHeader :: "string \<Rightarrow> string \<Rightarrow> HttpResponse \<Rightarrow> HttpResponse" where
  "HttpResponse_SetHeader name value r = r\<lparr>rs_headers := headers_set name value (rs_headers r)\<rparr>"

abbreviation CR :: char where "CR \<equiv> CHR 0x0D"
abbreviation LF :: char where "LF \<equiv> CHR 0x0A"
abbreviation CRLF :: string where "CRLF \<equiv> [CR, LF]"

definition HttpResponse_Serialize :: "HttpResponse \<Rightarrow> string" where
  "HttpResponse_Serialize r =
     ''HTTP/1.1 '' @ int_to_string (rs_status_code r) @ '' '' @ rs_status_text r @ CRLF @
     concat (map (\<lambda>(name, value). name @ '': '' @ value @ CRLF) (rs_headers r)) @
     CRLF @ rs_body r"

lemmas HttpResponse_defs [op_defs] =
  HttpResponse_init_def HttpResponse_Ok_def HttpResponse_Html_def HttpResponse_Json_def
  HttpResponse_NotFound_def HttpResponse_BadRequest_def HttpResponse_InternalError_def
  HttpResponse_SetHeader_def

subsection \<open>A decoder for the wire format\<close>

text \<open>The characters up to the first CRLF, and what follows it.\<close>

fun take_line :: "string \<Rightarrow> (string \<times> string) option" where
  "take_line (a # b # s) =
     (if a = CR \<and> b = LF then Some ([], s)
      else map_option (\<lambda>(l, r). (a # l, r)) (take_line (b # s)))"
| "take_line _ = None"

lemma take_line_shorter: "take_line s = Some (l, r) \<Longrightarrow> length r < length s"
  by (induction s arbitrary: l r rule: take_line.induct) (auto split: if_splits)

fun split_colon :: "string \<Rightarrow> (string \<times> string) option" where
  "split_colon (a # b # s) =
     (if a = CHR '':'' \<and> b = CHR '' '' then Some ([], s)
      else map_option (\<lambda>(l, r). (a # l, r)) (split_colon (b # s)))"
| "split_colon _ = None"

function decode_headers :: "string \<Rightarrow> (HeaderMap \<times> string) option" where
  "decode_headers s =
     (case take_line s of
        None \<Rightarrow> None
      | Some (l, r) \<Rightarrow>
          if l = [] then Some ([], r)
          else (case split_colon l of
                  None \<Rightarrow> None
                | Some kv \<Rightarrow> map_option (\<lambda>(m, b). (kv # m, b)) (decode_headers r)))"
  by pat_completeness auto
termination
  by (relation "measure length") (auto dest: take_line_shorter)

declare decode_headers.simps [simp del]

definition decode_response :: "string \<Rightarrow> (nat \<times> string \<times> HeaderMap \<times> string) option" where
  "decode_response s =
     (case take_line s of
        None \<Rightarrow> None
      | Some (l, r) \<Rightarrow>
          (let l = drop (length ''HTTP/1.1 '') l;
               code = takeWhile (\<lambda>c. c \<noteq> CHR '' '') l;
               text = tl (dropWhile (\<lambda>c. c \<noteq> CHR '' '') l)
           in map_option (\<lambda>(m, b). (string_to_nat code, text, m, b)) (decode_headers r)))"

subsection \<open>Round trip\<close>

lemma digit_not: "d < 10 \<Longrightarrow> digit d \<noteq> CHR '' ''" "d < 10 \<Longrightarrow> digit d \<noteq> CR"
proof -
  assume d: "d < 10"
  then have "of_char (digit d) = 48 + d" by (simp add: digit_def)
  then show "digit d \<noteq> CHR '' ''" "digit d \<noteq> CR" by auto
qed

lemma take_line_append:
  "CR \<notin> set l \<Longrightarrow> take_line (l @ CRLF @ r) = Some (l, r)"
proof (induction l)
  case (Cons a l)
  then show ?case by (cases l) auto
qed simp

lemma split_colon_append:
  "CHR '':'' \<notin> set k \<Longrightarrow> split_colon (k @ '': '' @ v) = Some (k, v)"
proof (induction k)
  case (Cons a k)
  then show ?case by (cases k) auto
qed simp

definition clean_header :: "string \<times> string \<Rightarrow> bool" where
  "clean_header kv \<longleftrightarrow> CR \<notin> set (fst kv) \<and> CHR '':'' \<notin> set (fst kv) \<and> CR \<notin> set (snd kv)"

lemma decode_headers_serialized:
  assumes "\<forall>kv \<in> set m. clean_header kv"
  shows "decode_headers (concat (map (\<lambda>(name, value). name @ '': '' @ value @ CRLF) m) @ CRLF @ body) =
         Some (m, body)"
  using assms
proof (induction m)
  case Nil
  show ?case by (subst decode_headers.simps) simp
next
  case (Cons kv m)
  obtain k v where kv: "kv = (k, v)" by (cases kv)
  have c: "CR \<notin> set (k @ '': '' @ v)" "CHR '':'' \<notin> set k"
    using Cons.prems by (auto simp: kv clean_header_def)
  have "take_line ((k @ '': '' @ v) @ CRLF @ rest) = Some (k @ '': '' @ v, rest)" for rest
    by (rule take_line_append [OF c(1)])
  then show ?case
    using Cons split_colon_append [OF c(2), of v]
    by (subst decode_headers.simps) (simp add: kv)
qed

lemma decode_serialized:
  assumes "0 \<le> rs_status_code r" and "CR \<notin> set (rs_status_text r)"
    and "\<And>kv. kv \<in> set (rs_headers r) \<Longrightarrow> clean_header kv"
  shows "decode_response (HttpResponse_Serialize r) =
         Some (nat (rs_status_code r), rs_status_text r, rs_headers r, rs_body r)"
proof -
  let ?code = "nat_to_string (nat (rs_status_code r))"
  let ?l = "''HTTP/1.1 '' @ ?code @ '' '' @ rs_status_text r"
  let ?rest = "concat (map (\<lambda>(name, value). name @ '': '' @ value @ CRLF) (rs_headers r)) @ CRLF @ rs_body r"
  have nd: "c \<in> set ?code \<Longrightarrow> c \<noteq> CHR '' '' \<and> c \<noteq> CR" for c
    using nat_to_string_digits [of c "nat (rs_status_code r)"] digit_not by auto
  have nocr: "CR \<notin> set ?code" using nd by blast
  then have "CR \<notin> set ?l" using assms(2) by simp
  then have "take_line (?l @ CRLF @ ?rest) = Some (?l, ?rest)" by (rule take_line_append)
  moreover have "HttpResponse_Serialize r = ?l @ CRLF @ ?rest"
    using assms(1) by (simp add: HttpResponse_Serialize_def int_to_string_def)
  ultimately have line: "take_line (HttpResponse_Serialize r) = Some (?l, ?rest)" by (rule ssubst [rotated])
  have head: "decode_headers ?rest = Some (rs_headers r, rs_body r)"
    by (rule decode_headers_serialized) (use assms(3) in blast)
  have code: "takeWhile (\<lambda>c. c \<noteq> CHR '' '') (?code @ '' '' @ rs_status_text r) = ?code"
    "dropWhile (\<lambda>c. c \<noteq> CHR '' '') (?code @ '' '' @ rs_status_text r) = '' '' @ rs_status_text r"
    using nd by (simp_all add: takeWhile_append dropWhile_append)
  show ?thesis
    unfolding decode_response_def line
    using head code by (simp add: string_to_nat_to_string)
qed

text \<open>
  Serialisation is faithful:  For a response with a non-negative status code whose
  status text and headers contain no CR and whose header names contain no colon, decoding
  the serialised bytes gives back the status code, the status text, the headers in order
  and the body unchanged, whatever bytes the body has.
\<close>

theorem response_roundtrip:
  assumes "0 \<le> rs_status_code r" and "CR \<notin> set (rs_status_text r)"
    and "\<And>kv. kv \<in> set (rs_headers r) \<Longrightarrow> clean_header kv"
  shows "decode_response (HttpResponse_Serialize r) =
         Some (nat (rs_status_code r), rs_status_text r, rs_headers r, rs_body r)"
  using assms by (rule decode_serialized)

lemma nat_to_string_2: "nat_to_string 2 = ''2''"
  by (simp add: nat_to_string.simps digit_def char_of_def bit_0)

theorem response_roundtrip_witness:
  "decode_response (HttpResponse_Serialize (HttpResponse_NotFound ''no'')) =
     Some (404, ''Not Found'', [(''Content-Length'', ''2''), (''Content-Type'', ''text/plain'')], ''no'')"
proof -
  have "decode_response (HttpResponse_Serialize (HttpResponse_NotFound ''no'')) =
     Some (nat (rs_status_code (HttpResponse_NotFound ''no'')), rs_status_text (HttpResponse_NotFound ''no''),
       rs_headers (HttpResponse_NotFound ''no''), rs_body (HttpResponse_NotFound ''no''))"
    by (rule response_roundtrip)
      (auto simp: HttpResponse_defs Let_def clean_header_def tolower_def nat_to_string_2 numeral_2_eq_2 [symmetric])
  then show ?thesis
    by (simp add: HttpResponse_defs tolower_def nat_to_string_2 numeral_2_eq_2 [symmetric])
qed

text \<open>What framing asks of a response.\<close>

definition framed :: "int \<Rightarrow> HttpResponse \<Rightarrow> bool" where
  "framed code r \<longleftrightarrow> rs_status_code r = code \<and> headers_sorted (rs_headers r) \<and>
     (\<exists>v. headers_find ''content-length'' (rs_headers r) = Some v \<and> string_to_nat v = length (rs_body r))"

lemma same_name_content_length: "same_name ''content-length'' ''Content-Length''"
  by (simp add: same_name_def tolower_def)

lemma framedI:
  assumes "rs_status_code r = code" and "headers_sorted m"
    and "rs_headers r = headers_set ''Content-Length'' (nat_to_string (length (rs_body r))) m"
  shows "framed code r"
  using assms
  by (simp add: framed_def headers_set_sorted headers_find_set same_name_content_length
      string_to_nat_to_string)

text \<open>
  Framing of the responses the server makes: Every factory response carries a
  \<open>Content-Length\<close> header, found in any letter case, that reads back as the length of its
  body, and its own status code.
\<close>

theorem response_framing:
  "framed 200 (HttpResponse_Ok body content_type) \<and> framed 200 (HttpResponse_Html body) \<and>
   framed 200 (HttpResponse_Json body) \<and> framed 404 (HttpResponse_NotFound body) \<and>
   framed 400 (HttpResponse_BadRequest body) \<and> framed 500 (HttpResponse_InternalError body)"
proof -
  have ok: "framed 200 (HttpResponse_Ok b t)" for b t
    by (rule framedI [where m = "headers_set ''Content-Type'' t []"]) (simp_all add: HttpResponse_defs Let_def)
  moreover have "framed 404 (HttpResponse_NotFound body)"
    by (rule framedI [where m = "headers_set ''Content-Type'' ''text/plain'' []"]) (simp_all add: HttpResponse_defs Let_def)
  moreover have "framed 400 (HttpResponse_BadRequest body)"
    by (rule framedI [where m = "headers_set ''Content-Type'' ''text/plain'' []"]) (simp_all add: HttpResponse_defs Let_def)
  moreover have "framed 500 (HttpResponse_InternalError body)"
    by (rule framedI [where m = "headers_set ''Content-Type'' ''text/plain'' []"]) (simp_all add: HttpResponse_defs Let_def)
  ultimately show ?thesis by (simp add: HttpResponse_Html_def HttpResponse_Json_def)
qed

end
