(* ===== verification/Http_Parser.thy ===== *)
theory Http_Parser
  imports Http_Message
begin

text \<open>
  \<open>HttpParser\<close> of \<open>http/http.cpp\<close>.  llhttp is not part of the repository: it is a
  parameter, a record of its functions over an arbitrary parser state.  \<open>ll_execute\<close> gives
  the callbacks it makes on a piece of input in order, its own error code and its next
  state; as documented it stops at the first callback that returns non-zero and reports
  that code.
\<close>

subsection \<open>The interface of llhttp\<close>

datatype llhttp_event =
  EvUrl string | EvHeaderField string | EvHeaderValue string | EvBody string | EvMessageComplete

record 'p llhttp =
  ll_init :: 'p
  ll_reset :: "'p \<Rightarrow> 'p"
  ll_execute :: "'p \<Rightarrow> string \<Rightarrow> llhttp_event list \<times> int \<times> 'p"
  ll_errno_name :: "int \<Rightarrow> string"
  ll_method :: "'p \<Rightarrow> llhttp_method"
  ll_http_major :: "'p \<Rightarrow> int"
  ll_http_minor :: "'p \<Rightarrow> int"

definition HPE_OK :: int where "HPE_OK = 0"
definition HPE_USER :: int where "HPE_USER = 24"

subsection \<open>State\<close>

definition kMaxBodySize :: nat where "kMaxBodySize = 10 * 1024 * 1024"
definition kMaxUrlLength :: nat where "kMaxUrlLength = 8192"
definition kMaxHeaderCount :: nat where "kMaxHeaderCount = 100"
definition kMaxTotalHeaderSize :: nat where "kMaxTotalHeaderSize = 64 * 1024"

datatype HeaderState = kField | kValue | kNone

record 'p HttpParser =
  hp_parser :: 'p
  hp_request :: HttpRequest
  hp_current_field :: string
  hp_current_value :: string
  hp_header_state :: HeaderState
  hp_complete :: bool
  hp_error :: bool
  hp_error_message :: string

definition HttpParser_init :: "'p llhttp \<Rightarrow> 'p HttpParser" where
  "HttpParser_init ll =
    \<lparr>hp_parser = ll_init ll, hp_request = HttpRequest_init, hp_current_field = [], hp_current_value = [],
     hp_header_state = kNone, hp_complete = False, hp_error = False, hp_error_message = []\<rparr>"

definition HttpParser_Reset :: "'p llhttp \<Rightarrow> 'p HttpParser \<Rightarrow> 'p HttpParser" where
  "HttpParser_Reset ll p =
    p\<lparr>hp_parser := ll_reset ll (hp_parser p), hp_request := HttpRequest_init,
      hp_current_field := [], hp_current_value := [], hp_header_state := kNone,
      hp_complete := False, hp_error := False, hp_error_message := []\<rparr>"

definition HttpParser_HasError :: "'p HttpParser \<Rightarrow> bool" where
  "HttpParser_HasError p = hp_error p"

definition HttpParser_GetError :: "'p HttpParser \<Rightarrow> string" where
  "HttpParser_GetError p = hp_error_message p"

subsection \<open>Callbacks\<close>

definition fail_with :: "string \<Rightarrow> 'p HttpParser \<Rightarrow> int \<times> 'p HttpParser" where
  "fail_with msg p = (HPE_USER, p\<lparr>hp_error := True, hp_error_message := msg\<rparr>)"

definition OnUrl :: "string \<Rightarrow> 'p HttpParser \<Rightarrow> int \<times> 'p HttpParser" where
  "OnUrl at p =
    (let rq = hp_request p in
     if length (rq_url rq) + length at > kMaxUrlLength then fail_with ''URL too long'' p
     else (0, p\<lparr>hp_request := rq\<lparr>rq_url := rq_url rq @ at\<rparr>\<rparr>))"

definition OnHeaderField :: "string \<Rightarrow> 'p HttpParser \<Rightarrow> int \<times> 'p HttpParser" where
  "OnHeaderField at p =
    (let p = (if hp_header_state p = kValue then p\<lparr>hp_current_field := []\<rparr> else p)
     in (0, p\<lparr>hp_current_field := hp_current_field p @ at, hp_header_state := kField\<rparr>))"

definition OnHeaderValue :: "string \<Rightarrow> 'p HttpParser \<Rightarrow> int \<times> 'p HttpParser" where
  "OnHeaderValue at p =
    (let p = (if hp_header_state p = kField then p\<lparr>hp_current_value := []\<rparr> else p);
         p = p\<lparr>hp_current_value := hp_current_value p @ at\<rparr>;
         f = hp_current_field p; v = hp_current_value p; m = rq_headers (hp_request p);
         m' = (case headers_find f m of
                 Some old \<Rightarrow>
                   if hp_header_state p = kField then headers_set f (old @ '', '' @ v) m
                   else headers_set f v m
               | None \<Rightarrow> headers_set f v m);
         p = p\<lparr>hp_request := (hp_request p)\<lparr>rq_headers := m'\<rparr>, hp_header_state := kValue\<rparr>
     in if length m' > kMaxHeaderCount then fail_with ''Too many headers'' p
        else if headers_size m' > kMaxTotalHeaderSize then fail_with ''Headers too large'' p
        else (0, p))"

definition OnBody :: "string \<Rightarrow> 'p HttpParser \<Rightarrow> int \<times> 'p HttpParser" where
  "OnBody at p =
    (let rq = hp_request p in
     if length (rq_body rq) + length at > kMaxBodySize then fail_with ''Body too large'' p
     else (0, p\<lparr>hp_request := rq\<lparr>rq_body := rq_body rq @ at\<rparr>\<rparr>))"

definition OnMessageComplete :: "'p HttpParser \<Rightarrow> int \<times> 'p HttpParser" where
  "OnMessageComplete p = (0, p\<lparr>hp_complete := True\<rparr>)"

fun on_event :: "llhttp_event \<Rightarrow> 'p HttpParser \<Rightarrow> int \<times> 'p HttpParser" where
  "on_event (EvUrl at) = OnUrl at"
| "on_event (EvHeaderField at) = OnHeaderField at"
| "on_event (EvHeaderValue at) = OnHeaderValue at"
| "on_event (EvBody at) = OnBody at"
| "on_event EvMessageComplete = OnMessageComplete"

text \<open>llhttp makes the callbacks in order and stops at the first non-zero result.\<close>

fun run_callbacks :: "llhttp_event list \<Rightarrow> 'p HttpParser \<Rightarrow> int \<times> 'p HttpParser" where
  "run_callbacks [] p = (0, p)"
| "run_callbacks (e # es) p =
     (let (err, p') = on_event e p in if err \<noteq> 0 then (err, p') else run_callbacks es p')"

subsection \<open>Parse and GetRequest\<close>

definition HttpParser_Parse :: "'p llhttp \<Rightarrow> string \<Rightarrow> 'p HttpParser \<Rightarrow> bool \<times> 'p HttpParser" where
  "HttpParser_Parse ll data p =
    (if hp_error p then (False, p)
     else
       let (events, ll_err, parser') = ll_execute ll (hp_parser p) data;
           (cb_err, p) = run_callbacks events p;
           p = p\<lparr>hp_parser := parser'\<rparr>;
           err = (if cb_err \<noteq> 0 then cb_err else ll_err)
       in if err \<noteq> HPE_OK
          then (False, (if hp_error p then p else p\<lparr>hp_error_message := ll_errno_name ll err\<rparr>)\<lparr>hp_error := True\<rparr>)
          else (hp_complete p, p))"

text \<open>
  \<open>GetRequest\<close> moves \<open>request_\<close> out; until \<open>Reset\<close> the parser's own copy is unspecified,
  and its only caller either resets the parser next or drops it.
\<close>

definition HttpParser_GetRequest :: "'p llhttp \<Rightarrow> 'p HttpParser \<Rightarrow> HttpRequest" where
  "HttpParser_GetRequest ll p =
    (let rq = (hp_request p)\<lparr>rq_method := HttpMethodFromLlhttp (ll_method ll (hp_parser p)),
                             rq_http_major := ll_http_major ll (hp_parser p),
                             rq_http_minor := ll_http_minor ll (hp_parser p)\<rparr>;
         url = rq_url rq
     in if CHR ''?'' \<in> set url
        then rq\<lparr>rq_path := takeWhile (\<lambda>c. c \<noteq> CHR ''?'') url,
                rq_query := tl (dropWhile (\<lambda>c. c \<noteq> CHR ''?'') url)\<rparr>
        else rq\<lparr>rq_path := url\<rparr>)"

lemmas HttpParser_defs [op_defs] =
  HttpParser_init_def HttpParser_Reset_def HttpParser_HasError_def HttpParser_GetError_def
  OnUrl_def OnHeaderField_def OnHeaderValue_def OnBody_def OnMessageComplete_def
  fail_with_def HPE_OK_def HPE_USER_def

subsection \<open>Resource bounds\<close>

definition request_bounded :: "HttpRequest \<Rightarrow> bool" where
  "request_bounded rq \<longleftrightarrow>
     length (rq_url rq) \<le> kMaxUrlLength \<and> length (rq_body rq) \<le> kMaxBodySize \<and>
     headers_sorted (rq_headers rq) \<and> length (rq_headers rq) \<le> kMaxHeaderCount \<and>
     headers_size (rq_headers rq) \<le> kMaxTotalHeaderSize"

definition parser_inv :: "'p HttpParser \<Rightarrow> bool" where
  "parser_inv p \<longleftrightarrow>
     length (rq_url (hp_request p)) \<le> kMaxUrlLength \<and> length (rq_body (hp_request p)) \<le> kMaxBodySize \<and>
     headers_sorted (rq_headers (hp_request p)) \<and>
     length (rq_headers (hp_request p)) \<le> Suc kMaxHeaderCount \<and>
     (\<not> hp_error p \<longrightarrow> request_bounded (hp_request p))"

lemma parser_inv_init [simp]: "parser_inv (HttpParser_init ll)"
  by (simp add: parser_inv_def request_bounded_def HttpParser_init_def HttpRequest_init_def headers_size_def)

lemma parser_inv_Reset [simp]: "parser_inv (HttpParser_Reset ll p)"
  by (simp add: parser_inv_def request_bounded_def HttpParser_Reset_def HttpRequest_init_def headers_size_def)

lemma OnHeaderValue_inv:
  assumes inv: "parser_inv p" and ok: "\<not> hp_error p" and eq: "OnHeaderValue at p = (err, p')"
  shows "parser_inv p' \<and> (err = 0 \<longrightarrow> \<not> hp_error p')"
proof -
  let ?rq = "hp_request p"
  have sorted: "headers_sorted (rq_headers ?rq)" and len: "length (rq_headers ?rq) \<le> kMaxHeaderCount"
    using inv ok by (auto simp: parser_inv_def request_bounded_def)
  define m' where "m' = rq_headers (hp_request p')"
  have "\<exists>f v. m' = headers_set f v (rq_headers ?rq)"
    using eq by (auto simp: m'_def OnHeaderValue_def fail_with_def Let_def split: if_splits option.splits)
      blast+
  then have m': "headers_sorted m'" "length m' \<le> Suc kMaxHeaderCount"
    using headers_set_sorted [OF sorted] headers_set_length [OF sorted] len by (auto split: if_splits)
  have same: "rq_url (hp_request p') = rq_url ?rq" "rq_body (hp_request p') = rq_body ?rq"
    using eq by (auto simp: OnHeaderValue_def fail_with_def Let_def split: if_splits option.splits)
  have err: "err = 0 \<Longrightarrow> \<not> hp_error p' \<and> length m' \<le> kMaxHeaderCount \<and> headers_size m' \<le> kMaxTotalHeaderSize"
    "err \<noteq> 0 \<Longrightarrow> hp_error p'"
    using eq ok by (auto simp: m'_def OnHeaderValue_def fail_with_def HPE_USER_def Let_def
        split: if_splits option.splits)
  show ?thesis
    using inv m' same err by (cases "err = 0") (auto simp: parser_inv_def request_bounded_def m'_def)
qed

lemma on_event_inv:
  assumes "parser_inv p" and "\<not> hp_error p" and "on_event e p = (err, p')"
  shows "parser_inv p' \<and> (err = 0 \<longrightarrow> \<not> hp_error p')"
proof (cases e)
  case (EvHeaderValue at)
  with OnHeaderValue_inv [OF assms(1,2), of at] assms(3) show ?thesis by simp
qed (use assms in \<open>auto simp: HttpParser_defs parser_inv_def request_bounded_def Let_def split: if_splits\<close>)

lemma run_callbacks_inv:
  "parser_inv p \<Longrightarrow> \<not> hp_error p \<Longrightarrow> run_callbacks es p = (err, p') \<Longrightarrow>
   parser_inv p' \<and> (err = 0 \<longrightarrow> \<not> hp_error p')"
proof (induction es arbitrary: p)
  case (Cons e es)
  obtain err1 p1 where e: "on_event e p = (err1, p1)" by (cases "on_event e p")
  with Cons on_event_inv [OF Cons.prems(1,2) e] show ?case by (auto split: if_splits)
qed simp

lemma parser_inv_parser [simp]: "parser_inv (p\<lparr>hp_parser := x\<rparr>) = parser_inv p"
  by (simp add: parser_inv_def)

lemma Parse_inv:
  assumes inv: "parser_inv p" and eq: "HttpParser_Parse ll data p = (b, p')"
  shows "parser_inv p'" and "b \<Longrightarrow> hp_complete p' \<and> \<not> hp_error p'"
proof -
  have "parser_inv p' \<and> (b \<longrightarrow> hp_complete p' \<and> \<not> hp_error p')"
  proof (cases "hp_error p")
    case True
    with inv eq show ?thesis by (simp add: HttpParser_Parse_def)
  next
    case False
    obtain evs e1 pp where x: "ll_execute ll (hp_parser p) data = (evs, e1, pp)" by (cases "ll_execute ll (hp_parser p) data")
    obtain e2 p2 where c: "run_callbacks evs p = (e2, p2)" by (cases "run_callbacks evs p")
    from run_callbacks_inv [OF inv False c] eq False show ?thesis
      by (auto simp: HttpParser_Parse_def x c Let_def HPE_OK_def parser_inv_def split: if_splits)
  qed
  then show "parser_inv p'" and "b \<Longrightarrow> hp_complete p' \<and> \<not> hp_error p'" by auto
qed

lemma GetRequest_bounded:
  "parser_inv p \<Longrightarrow> \<not> hp_error p \<Longrightarrow> request_bounded (HttpParser_GetRequest ll p)"
  by (simp add: parser_inv_def request_bounded_def HttpParser_GetRequest_def Let_def)

text \<open>The uses a connection makes of its parser.\<close>

datatype parser_op = OpParse string | OpParserReset

fun parser_run :: "'p llhttp \<Rightarrow> parser_op list \<Rightarrow> 'p HttpParser \<Rightarrow> 'p HttpParser" where
  "parser_run ll [] p = p"
| "parser_run ll (OpParse d # ops) p = parser_run ll ops (snd (HttpParser_Parse ll d p))"
| "parser_run ll (OpParserReset # ops) p = parser_run ll ops (HttpParser_Reset ll p)"

lemma parser_run_inv: "parser_inv p \<Longrightarrow> parser_inv (parser_run ll ops p)"
  by (induction ll ops p rule: parser_run.induct)
    (auto intro: Parse_inv(1) [OF _ prod.collapse [symmetric]])

text \<open>
  Resource limits of the parser:  Whatever llhttp does and whatever bytes arrive in
  whatever pieces, with resets in between, the collected URL never exceeds 8192 characters
  and the body never 10 MB; and whenever \<open>Parse\<close> reports a complete request, the request
  \<open>GetRequest\<close> returns has at most 100 headers, no two equal up to case, of at most 64 KB in
  all.
\<close>

theorem parser_resource_limits:
  "(let p = parser_run ll ops (HttpParser_init ll) in
     length (rq_url (hp_request p)) \<le> kMaxUrlLength \<and> length (rq_body (hp_request p)) \<le> kMaxBodySize) \<and>
   (let (complete, p) = HttpParser_Parse ll data (parser_run ll ops (HttpParser_init ll)) in
     complete \<longrightarrow> request_bounded (HttpParser_GetRequest ll p))"
proof -
  let ?p = "parser_run ll ops (HttpParser_init ll)"
  have inv: "parser_inv ?p" by (rule parser_run_inv) simp
  obtain b p' where eq: "HttpParser_Parse ll data ?p = (b, p')" by (cases "HttpParser_Parse ll data ?p")
  show ?thesis
    using inv Parse_inv [OF inv eq] GetRequest_bounded [of p' ll] eq
    by (auto simp: parser_inv_def Let_def)
qed

subsection \<open>Requests are assembled from their pieces\<close>

text \<open>
  The callbacks for one request message: the URL, each header's name and value and the body
  are delivered in pieces, at least one for a name and for a value.
\<close>

definition header_events :: "string list \<times> string list \<Rightarrow> llhttp_event list" where
  "header_events h = map EvHeaderField (fst h) @ map EvHeaderValue (snd h)"

definition request_events ::
  "string list \<Rightarrow> (string list \<times> string list) list \<Rightarrow> string list \<Rightarrow> llhttp_event list" where
  "request_events us hs bs =
     map EvUrl us @ concat (map header_events hs) @ map EvBody bs @ [EvMessageComplete]"

text \<open>
  The value a header line leaves under its name: the whole value under a new name; under a name that is there
  already, the old value, a comma and the new value when the new value came in one piece, and otherwise the new
  value alone, since the second piece overwrites the combination.
\<close>

definition combine_value :: "string option \<Rightarrow> string list \<Rightarrow> string" where
  "combine_value old vs =
    (case old of None \<Rightarrow> concat vs | Some v \<Rightarrow> if length vs = 1 then v @ '', '' @ concat vs else concat vs)"

definition combine_values :: "string list list \<Rightarrow> string option" where
  "combine_values vss = fold (\<lambda>vs old. Some (combine_value old vs)) vss None"

definition values_of :: "string \<Rightarrow> (string list \<times> string list) list \<Rightarrow> string list list" where
  "values_of n hs = map snd (filter (\<lambda>h. same_name n (concat (fst h))) hs)"

definition set_header :: "string list \<times> string list \<Rightarrow> HeaderMap \<Rightarrow> HeaderMap" where
  "set_header h m = headers_set (concat (fst h)) (combine_value (headers_find (concat (fst h)) m) (snd h)) m"

lemma run_callbacks_append:
  "run_callbacks es p = (0, p') \<Longrightarrow> run_callbacks (es @ es') p = run_callbacks es' p'"
  by (induction es arbitrary: p) (auto split: prod.splits if_splits)

lemma run_urls:
  "length (rq_url (hp_request p)) + length (concat us) \<le> kMaxUrlLength \<Longrightarrow>
   run_callbacks (map EvUrl us) p =
     (0, p\<lparr>hp_request := (hp_request p)\<lparr>rq_url := rq_url (hp_request p) @ concat us\<rparr>\<rparr>)"
  by (induction us arbitrary: p) (simp_all add: OnUrl_def Let_def)

lemma run_bodies:
  "length (rq_body (hp_request p)) + length (concat bs) \<le> kMaxBodySize \<Longrightarrow>
   run_callbacks (map EvBody bs) p =
     (0, p\<lparr>hp_request := (hp_request p)\<lparr>rq_body := rq_body (hp_request p) @ concat bs\<rparr>\<rparr>)"
  by (induction bs arbitrary: p) (simp_all add: OnBody_def Let_def)

text \<open>The parser is between headers: a name piece starts a new name.\<close>

definition at_header_start :: "'p HttpParser \<Rightarrow> bool" where
  "at_header_start p \<longleftrightarrow>
     hp_header_state p = kValue \<or> hp_header_state p = kNone \<and> hp_current_field p = []"

lemma run_fields_more:
  "hp_header_state p = kField \<Longrightarrow>
   run_callbacks (map EvHeaderField fs) p =
     (0, p\<lparr>hp_current_field := hp_current_field p @ concat fs\<rparr>)"
  by (induction fs arbitrary: p) (simp_all add: OnHeaderField_def)

lemma run_fields:
  assumes "at_header_start p" and "fs \<noteq> []"
  shows "run_callbacks (map EvHeaderField fs) p =
     (0, p\<lparr>hp_current_field := concat fs, hp_header_state := kField\<rparr>)"
proof (cases fs)
  case (Cons f fs')
  have "on_event (EvHeaderField f) p = (0, p\<lparr>hp_current_field := f, hp_header_state := kField\<rparr>)"
    using assms(1) by (auto simp: OnHeaderField_def at_header_start_def Let_def)
  then show ?thesis
    using run_fields_more [of "p\<lparr>hp_current_field := f, hp_header_state := kField\<rparr>" fs'] Cons by simp
qed (use assms in simp)

text \<open>Headers fit when the map with the whole value fits.\<close>

definition fits :: "HeaderMap \<Rightarrow> bool" where
  "fits m \<longleftrightarrow> length m \<le> kMaxHeaderCount \<and> headers_size m \<le> kMaxTotalHeaderSize"

lemma fits_prefix:
  "headers_sorted m \<Longrightarrow> fits (headers_set f (v @ w) m) \<Longrightarrow> fits (headers_set f v m)"
  using headers_set_size_mono [of m v "v @ w" f] headers_set_length_value [of m f v "v @ w"]
  by (simp add: fits_def)

lemma value_first:
  assumes "hp_header_state p = kField" and "rq_headers (hp_request p) = m"
    and "fits (headers_set (hp_current_field p) (combine_value (headers_find (hp_current_field p) m) [v]) m)"
  shows "on_event (EvHeaderValue v) p =
     (0, p\<lparr>hp_current_value := v, hp_header_state := kValue,
          hp_request := (hp_request p)\<lparr>rq_headers :=
            headers_set (hp_current_field p) (combine_value (headers_find (hp_current_field p) m) [v]) m\<rparr>\<rparr>)"
  using assms by (cases "headers_find (hp_current_field p) m") (simp_all add: OnHeaderValue_def combine_value_def Let_def fits_def)

lemma value_next:
  assumes "hp_header_state p = kValue" and "headers_sorted m"
    and "rq_headers (hp_request p) = headers_set (hp_current_field p) x m"
    and "fits (headers_set (hp_current_field p) (hp_current_value p @ v) m)"
  shows "on_event (EvHeaderValue v) p =
     (0, p\<lparr>hp_current_value := hp_current_value p @ v,
          hp_request := (hp_request p)\<lparr>rq_headers :=
            headers_set (hp_current_field p) (hp_current_value p @ v) m\<rparr>\<rparr>)"
  using assms by (simp add: OnHeaderValue_def Let_def fits_def headers_find_set headers_set_again)

lemma run_values_more:
  assumes "hp_header_state p = kValue" and "headers_sorted m" and "vs \<noteq> []"
    and "rq_headers (hp_request p) = headers_set (hp_current_field p) x m"
    and "fits (headers_set (hp_current_field p) (hp_current_value p @ concat vs) m)"
  shows "run_callbacks (map EvHeaderValue vs) p =
     (0, p\<lparr>hp_current_value := hp_current_value p @ concat vs,
          hp_request := (hp_request p)\<lparr>rq_headers :=
            headers_set (hp_current_field p) (hp_current_value p @ concat vs) m\<rparr>\<rparr>)"
  using assms
proof (induction vs arbitrary: p x)
  case (Cons v vs)
  have f: "fits (headers_set (hp_current_field p) (hp_current_value p @ v) m)"
    using fits_prefix [OF Cons.prems(2), of _ "hp_current_value p @ v" "concat vs"] Cons.prems(5) by simp
  show ?case
    using value_next [OF Cons.prems(1,2,4) f] Cons.IH Cons.prems by (cases "vs = []") simp_all
qed simp

text \<open>The most a header line adds to the map, also while its value is still arriving.\<close>

lemma fits_combined:
  assumes "headers_sorted m" and "length m < kMaxHeaderCount"
    and "headers_size m + length n + length v + (if headers_find n m = None then 0 else 2) \<le> kMaxTotalHeaderSize"
  shows "fits (headers_set n (case headers_find n m of None \<Rightarrow> v | Some old \<Rightarrow> old @ '', '' @ v) m)"
    and "fits (headers_set n v m)"
proof -
  have "fits (headers_set n (case headers_find n m of None \<Rightarrow> v | Some old \<Rightarrow> old @ '', '' @ v) m) \<and> fits (headers_set n v m)"
  proof (cases "headers_find n m")
    case None
    then show ?thesis using assms headers_set_size(1) [OF assms(1) None] headers_set_length [OF assms(1)]
      by (simp add: fits_def)
  next
    case (Some old)
    then show ?thesis
      using assms headers_set_size(2) [OF assms(1) Some, of "old @ '', '' @ v"] headers_set_size(2) [OF assms(1) Some, of v]
        headers_set_length [OF assms(1)]
      by (simp add: fits_def)
  qed
  then show "fits (headers_set n (case headers_find n m of None \<Rightarrow> v | Some old \<Rightarrow> old @ '', '' @ v) m)"
    and "fits (headers_set n v m)" by auto
qed

lemma run_header:
  assumes "at_header_start p" and "fst h \<noteq> []" and "snd h \<noteq> []"
    and m: "rq_headers (hp_request p) = m" "headers_sorted m"
    and len: "length m < kMaxHeaderCount"
    and fit: "headers_size m + length (concat (fst h)) + length (concat (snd h)) +
      (if headers_find (concat (fst h)) m = None then 0 else 2) \<le> kMaxTotalHeaderSize"
  shows "run_callbacks (header_events h) p =
     (0, p\<lparr>hp_current_field := concat (fst h), hp_current_value := concat (snd h), hp_header_state := kValue,
          hp_request := (hp_request p)\<lparr>rq_headers := set_header h m\<rparr>\<rparr>)"
proof -
  obtain v vs where vs: "snd h = v # vs" using assms(3) by (cases "snd h") auto
  let ?n = "concat (fst h)"
  let ?x = "combine_value (headers_find ?n m) [v]"
  let ?p1 = "p\<lparr>hp_current_field := ?n, hp_header_state := kField\<rparr>"
  have "fits (headers_set ?n ?x m)"
    using fits_combined(1) [OF m(2) len, of ?n v] fit vs by (cases "headers_find ?n m") (simp_all add: combine_value_def)
  then have first: "on_event (EvHeaderValue v) ?p1 =
      (0, ?p1\<lparr>hp_current_value := v, hp_header_state := kValue,
          hp_request := (hp_request p)\<lparr>rq_headers := headers_set ?n ?x m\<rparr>\<rparr>)"
    using value_first [of ?p1 m v] m by simp
  let ?p2 = "?p1\<lparr>hp_current_value := v, hp_header_state := kValue,
          hp_request := (hp_request p)\<lparr>rq_headers := headers_set ?n ?x m\<rparr>\<rparr>"
  have "run_callbacks (map EvHeaderValue vs) ?p2 =
      (0, ?p2\<lparr>hp_current_value := concat (snd h), hp_request := (hp_request ?p2)\<lparr>rq_headers := set_header h m\<rparr>\<rparr>)"
  proof (cases "vs = []")
    case False
    have "fits (headers_set ?n (v @ concat vs) m)" using fits_combined(2) [OF m(2) len fit] vs by simp
    moreover have "combine_value (headers_find ?n m) (snd h) = v @ concat vs"
      using False vs by (simp add: combine_value_def split: option.split)
    ultimately show ?thesis using run_values_more [of ?p2 m vs ?x] False m(2) vs by (simp add: set_header_def)
  qed (use vs in \<open>simp add: set_header_def\<close>)
  then show ?thesis
    using run_callbacks_append [OF run_fields [OF assms(1,2)], of "map EvHeaderValue (snd h)"] first vs
    by (simp add: header_events_def)
qed

text \<open>
  The characters of all header lines, with two for the separator of each line whose name occurred before:
  \<open>seen\<close> are the names so far.
\<close>

fun headers_total :: "string list \<Rightarrow> (string list \<times> string list) list \<Rightarrow> nat" where
  "headers_total seen [] = 0"
| "headers_total seen (h # hs) =
     length (concat (fst h)) + length (concat (snd h)) +
     (if list_ex (same_name (concat (fst h))) seen then 2 else 0) + headers_total (concat (fst h) # seen) hs"

lemma set_header_size:
  assumes "headers_sorted m"
  shows "headers_size (set_header h m) \<le> headers_size m + length (concat (fst h)) + length (concat (snd h)) +
    (if headers_find (concat (fst h)) m = None then 0 else 2)"
proof (cases "headers_find (concat (fst h)) m")
  case None
  then show ?thesis using headers_set_size(1) [OF assms None] by (simp add: set_header_def combine_value_def)
next
  case (Some w)
  then show ?thesis
    using headers_set_size(2) [OF assms Some, of "combine_value (Some w) (snd h)"]
    by (simp add: set_header_def combine_value_def split: if_splits)
qed

lemma set_header_find:
  "headers_sorted m \<Longrightarrow> headers_find n (set_header h m) =
     (if same_name n (concat (fst h)) then Some (combine_value (headers_find n m) (snd h)) else headers_find n m)"
  using headers_find_same [of n "concat (fst h)" m] by (simp add: set_header_def headers_find_set)

lemma set_header_length: "headers_sorted m \<Longrightarrow> length (set_header h m) \<le> Suc (length m)"
  by (simp add: set_header_def headers_set_length)

lemma set_header_sorted: "headers_sorted m \<Longrightarrow> headers_sorted (set_header h m)"
  by (simp add: set_header_def headers_set_sorted)

lemma run_headers:
  assumes "at_header_start p" and "headers_sorted (rq_headers (hp_request p))"
    and "\<And>h. h \<in> set hs \<Longrightarrow> fst h \<noteq> [] \<and> snd h \<noteq> []"
    and "\<And>n. headers_find n (rq_headers (hp_request p)) \<noteq> None \<longleftrightarrow> list_ex (same_name n) seen"
    and "length (rq_headers (hp_request p)) + length hs \<le> kMaxHeaderCount"
    and "headers_size (rq_headers (hp_request p)) + headers_total seen hs \<le> kMaxTotalHeaderSize"
  shows "\<exists>f v s. run_callbacks (concat (map header_events hs)) p =
     (0, p\<lparr>hp_current_field := f, hp_current_value := v, hp_header_state := s,
          hp_request := (hp_request p)\<lparr>rq_headers := fold set_header hs (rq_headers (hp_request p))\<rparr>\<rparr>)"
  using assms
proof (induction hs arbitrary: p seen)
  case Nil
  show ?case
    by (rule exI [of _ "hp_current_field p"], rule exI [of _ "hp_current_value p"],
        rule exI [of _ "hp_header_state p"]) simp
next
  case (Cons h hs)
  let ?m = "rq_headers (hp_request p)" and ?n = "concat (fst h)" and ?v = "concat (snd h)"
  have h: "fst h \<noteq> []" "snd h \<noteq> []" using Cons.prems(3) by auto
  have seen: "headers_find ?n ?m = None \<longleftrightarrow> \<not> list_ex (same_name ?n) seen" using Cons.prems(4) [of ?n] by blast
  have len: "length ?m < kMaxHeaderCount" and
    fit: "headers_size ?m + length ?n + length ?v + (if headers_find ?n ?m = None then 0 else 2) +
      headers_total (?n # seen) hs \<le> kMaxTotalHeaderSize"
    using Cons.prems(5,6) by (auto simp: seen)
  from fit have fit1: "headers_size ?m + length ?n + length ?v + (if headers_find ?n ?m = None then 0 else 2) \<le> kMaxTotalHeaderSize"
    by linarith
  note one = run_header [OF Cons.prems(1) h refl Cons.prems(2) len fit1]
  let ?p = "p\<lparr>hp_current_field := ?n, hp_current_value := ?v, hp_header_state := kValue,
          hp_request := (hp_request p)\<lparr>rq_headers := set_header h ?m\<rparr>\<rparr>"
  have "\<exists>f v s. run_callbacks (concat (map header_events hs)) ?p =
     (0, ?p\<lparr>hp_current_field := f, hp_current_value := v, hp_header_state := s,
          hp_request := (hp_request ?p)\<lparr>rq_headers := fold set_header hs (rq_headers (hp_request ?p))\<rparr>\<rparr>)"
  proof (rule Cons.IH [where seen = "?n # seen"])
    show "at_header_start ?p" by (simp add: at_header_start_def)
    show "headers_sorted (rq_headers (hp_request ?p))" using Cons.prems(2) by (simp add: set_header_sorted)
    show "fst g \<noteq> [] \<and> snd g \<noteq> []" if "g \<in> set hs" for g using Cons.prems(3) that by simp
    show "headers_find n (rq_headers (hp_request ?p)) \<noteq> None \<longleftrightarrow> list_ex (same_name n) (?n # seen)" for n
      using Cons.prems(4) [of n] set_header_find [OF Cons.prems(2), of n h] by auto
    show "length (rq_headers (hp_request ?p)) + length hs \<le> kMaxHeaderCount"
      using Cons.prems(5) set_header_length [OF Cons.prems(2), of h] by simp
    show "headers_size (rq_headers (hp_request ?p)) + headers_total (?n # seen) hs \<le> kMaxTotalHeaderSize"
      using fit set_header_size [OF Cons.prems(2), of h] by simp
  qed
  then show ?case
    by (simp add: run_callbacks_append [OF one])
qed

text \<open>The callbacks llhttp makes on a sequence of pieces, when it reports no error itself.\<close>

fun ll_run :: "'p llhttp \<Rightarrow> string list \<Rightarrow> 'p \<Rightarrow> (llhttp_event list \<times> 'p) option" where
  "ll_run ll [] pp = Some ([], pp)"
| "ll_run ll (d # ds) pp =
     (let (es, err, pp') = ll_execute ll pp d in
      if err = HPE_OK then map_option (\<lambda>(es', pp''). (es @ es', pp'')) (ll_run ll ds pp') else None)"

fun parse_pieces :: "'p llhttp \<Rightarrow> string list \<Rightarrow> 'p HttpParser \<Rightarrow> 'p HttpParser" where
  "parse_pieces ll [] p = p"
| "parse_pieces ll (d # ds) p = parse_pieces ll ds (snd (HttpParser_Parse ll d p))"

lemma run_callbacks_split:
  "run_callbacks (es @ es') p = (0, p') \<Longrightarrow>
   \<exists>p1. run_callbacks es p = (0, p1) \<and> run_callbacks es' p1 = (0, p')"
  by (induction es arbitrary: p) (auto split: prod.splits if_splits)

lemma on_event_parser:
  "on_event e (p\<lparr>hp_parser := x\<rparr>) = map_prod id (\<lambda>q. q\<lparr>hp_parser := x\<rparr>) (on_event e p)"
proof (cases e)
  case (EvHeaderValue v)
  then show ?thesis
    by (cases "headers_find (hp_current_field p) (rq_headers (hp_request p))")
      (simp_all add: OnHeaderValue_def fail_with_def Let_def)
qed (simp_all add: HttpParser_defs Let_def)

lemma run_callbacks_parser:
  "run_callbacks es (p\<lparr>hp_parser := x\<rparr>) = map_prod id (\<lambda>q. q\<lparr>hp_parser := x\<rparr>) (run_callbacks es p)"
proof (induction es arbitrary: p)
  case (Cons e es)
  obtain err q where "on_event e p = (err, q)" by (cases "on_event e p")
  then show ?case using Cons on_event_parser [of e x p] by simp
qed simp

lemma Parse_ok:
  assumes "\<not> hp_error p" and "ll_execute ll (hp_parser p) d = (es, HPE_OK, pp)"
    and "run_callbacks es p = (0, p')"
  shows "HttpParser_Parse ll d p = (hp_complete p', p'\<lparr>hp_parser := pp\<rparr>)"
  using assms by (simp add: HttpParser_Parse_def HPE_OK_def)

lemma parse_pieces_ok:
  assumes "ll_run ll ds (hp_parser p) = Some (es, pp)" and "run_callbacks es p = (0, p')"
    and "parser_inv p" and "\<not> hp_error p"
  shows "parse_pieces ll ds p = p'\<lparr>hp_parser := pp\<rparr>"
  using assms
proof (induction ds arbitrary: p es p')
  case Nil
  then show ?case by simp
next
  case (Cons d ds)
  obtain e1 err pp1 where x: "ll_execute ll (hp_parser p) d = (e1, err, pp1)"
    by (cases "ll_execute ll (hp_parser p) d")
  with Cons.prems(1) obtain e2 where err: "err = HPE_OK" and r: "ll_run ll ds pp1 = Some (e2, pp)"
    and es: "es = e1 @ e2"
    by (auto split: if_splits)
  from run_callbacks_split [of e1 e2] Cons.prems(2) es obtain p1 where
    p1: "run_callbacks e1 p = (0, p1)" "run_callbacks e2 p1 = (0, p')" by blast
  have step: "snd (HttpParser_Parse ll d p) = p1\<lparr>hp_parser := pp1\<rparr>"
    using Parse_ok [OF Cons.prems(4) _ p1(1)] x err by simp
  have inv1: "parser_inv p1" "\<not> hp_error p1"
    using run_callbacks_inv [OF Cons.prems(3,4) p1(1)] by auto
  have "parse_pieces ll ds (p1\<lparr>hp_parser := pp1\<rparr>) = p'\<lparr>hp_parser := pp1\<rparr>\<lparr>hp_parser := pp\<rparr>"
  proof (rule Cons.IH)
    show "ll_run ll ds (hp_parser (p1\<lparr>hp_parser := pp1\<rparr>)) = Some (e2, pp)" using r by simp
    show "run_callbacks e2 (p1\<lparr>hp_parser := pp1\<rparr>) = (0, p'\<lparr>hp_parser := pp1\<rparr>)"
      by (simp add: run_callbacks_parser p1(2))
  qed (use inv1 in simp_all)
  then show ?case by (simp add: step)
qed

text \<open>The callbacks of one request message, from a parser that has just been made.\<close>

lemma run_request:
  assumes "length (concat us) \<le> kMaxUrlLength" and "length (concat bs) \<le> kMaxBodySize"
    and "length hs \<le> kMaxHeaderCount" and "headers_total [] hs \<le> kMaxTotalHeaderSize"
    and "\<And>h. h \<in> set hs \<Longrightarrow> fst h \<noteq> [] \<and> snd h \<noteq> []"
  shows "\<exists>f v s. run_callbacks (request_events us hs bs) (HttpParser_init ll) =
    (0, (HttpParser_init ll)\<lparr>hp_current_field := f, hp_current_value := v, hp_header_state := s, hp_complete := True,
       hp_request := HttpRequest_init\<lparr>rq_url := concat us, rq_headers := fold set_header hs [], rq_body := concat bs\<rparr>\<rparr>)"
proof -
  let ?p0 = "HttpParser_init ll"
  let ?p1 = "?p0\<lparr>hp_request := HttpRequest_init\<lparr>rq_url := concat us\<rparr>\<rparr>"
  have init: "hp_request ?p0 = HttpRequest_init" "rq_url HttpRequest_init = []" "rq_headers HttpRequest_init = []"
    "rq_body HttpRequest_init = []"
    by (simp_all add: HttpParser_init_def HttpRequest_init_def)
  have u: "run_callbacks (map EvUrl us) ?p0 = (0, ?p1)"
    using run_urls [of ?p0 us] assms(1) by (simp add: init)
  let ?p2 = "\<lambda>f v s. ?p1\<lparr>hp_current_field := f, hp_current_value := v, hp_header_state := s,
          hp_request := (hp_request ?p1)\<lparr>rq_headers := fold set_header hs (rq_headers (hp_request ?p1))\<rparr>\<rparr>"
  have "\<exists>f v s. run_callbacks (concat (map header_events hs)) ?p1 = (0, ?p2 f v s)"
    by (rule run_headers [where seen = "[]"]) (use assms(3-5) in
        \<open>simp_all add: at_header_start_def HttpParser_init_def init headers_size_def\<close>)
  then obtain f v s where h: "run_callbacks (concat (map header_events hs)) ?p1 = (0, ?p2 f v s)" by blast
  have b: "run_callbacks (map EvBody bs) (?p2 f v s) =
      (0, (?p2 f v s)\<lparr>hp_request := (hp_request (?p2 f v s))\<lparr>rq_body := concat bs\<rparr>\<rparr>)"
    using run_bodies [of "?p2 f v s" bs] assms(2) by (simp add: init)
  show ?thesis
    unfolding request_events_def run_callbacks_append [OF u] run_callbacks_append [OF h] run_callbacks_append [OF b]
    by (intro exI [of _ f] exI [of _ v] exI [of _ s]) (simp add: OnMessageComplete_def init)
qed

text \<open>What is found under a name, and where the query starts.\<close>

lemma set_headers_find:
  "headers_sorted m \<Longrightarrow> headers_find n (fold set_header hs m) =
     fold (\<lambda>vs old. Some (combine_value old vs)) (values_of n hs) (headers_find n m)"
  by (induction hs arbitrary: m) (simp_all add: values_of_def set_header_find set_header_sorted)

lemma set_headers_length: "headers_sorted m \<Longrightarrow> length (fold set_header hs m) \<le> length m + length hs"
proof (induction hs arbitrary: m)
  case (Cons h hs)
  then show ?case using Cons.IH [OF set_header_sorted [OF Cons.prems], of h] set_header_length [OF Cons.prems, of h] by simp
qed simp

text \<open>One occurrence, or later occurrences in one piece each: the values are joined by commas.\<close>

lemma combine_values_join:
  assumes "\<And>ws. ws \<in> set vss \<Longrightarrow> length ws = 1"
  shows "combine_values (vs # vss) = Some (concat vs @ concat (map (\<lambda>ws. '', '' @ concat ws) vss))"
proof -
  have "fold (\<lambda>vs old. Some (combine_value old vs)) vss (Some v) = Some (v @ concat (map (\<lambda>ws. '', '' @ concat ws) vss))" for v
    using assms by (induction vss arbitrary: v) (simp_all add: combine_value_def)
  then show ?thesis by (simp add: combine_values_def combine_value_def)
qed

lemma split_at_first: "c \<in> set xs \<Longrightarrow> takeWhile (\<lambda>x. x \<noteq> c) xs @ c # tl (dropWhile (\<lambda>x. x \<noteq> c) xs) = xs"
  by (induction xs) auto

lemma takeWhile_neq: "c \<notin> set (takeWhile (\<lambda>x. x \<noteq> c) xs)"
  by (auto dest: set_takeWhileD)

text \<open>
  Property C15 (a request is assembled whatever the pieces).  Let llhttp report one request message: URL, at most
  100 header lines of at most 64 KB with the separators of repeated names, body, in any split of each item into
  pieces and over any split of the bytes into \<open>Parse\<close> calls, within the limits.  Then after the last call the
  parser has no error, is complete, and \<open>GetRequest\<close> returns exactly the concatenated URL, cut at the first \<open>?\<close>
  into path and query, the concatenated body, and under every name, in any letter case, what the values of its
  header lines combine to: the concatenated value when the name occurs once, the values joined by commas
  when the repeated ones came in one piece each.  A repeated value in several pieces discards those before it, as
  \<open>combine_value\<close> says; only there does the split into pieces matter.  A name that did not occur has no value.
\<close>

theorem request_assembled:
  assumes "ll_run ll ds (ll_init ll) = Some (request_events us hs bs, pp)"
    and "length (concat us) \<le> kMaxUrlLength" and "length (concat bs) \<le> kMaxBodySize"
    and "length hs \<le> kMaxHeaderCount" and "headers_total [] hs \<le> kMaxTotalHeaderSize"
    and "\<And>h. h \<in> set hs \<Longrightarrow> fst h \<noteq> [] \<and> snd h \<noteq> []"
  shows "(let p = parse_pieces ll ds (HttpParser_init ll); rq = HttpParser_GetRequest ll p in
     \<not> HttpParser_HasError p \<and> hp_complete p \<and> rq_url rq = concat us \<and> rq_body rq = concat bs \<and>
     (\<forall>n. headers_find n (rq_headers rq) = combine_values (values_of n hs)) \<and>
     (\<forall>n vs vss. values_of n hs = vs # vss \<longrightarrow> (\<forall>ws \<in> set vss. length ws = 1) \<longrightarrow>
        HttpRequest_GetHeader n rq = concat vs @ concat (map (\<lambda>ws. '', '' @ concat ws) vss)) \<and>
     length (rq_headers rq) \<le> length hs \<and>
     CHR ''?'' \<notin> set (rq_path rq) \<and>
     concat us = (if CHR ''?'' \<in> set (concat us) then rq_path rq @ ''?'' @ rq_query rq else rq_path rq))"
proof -
  let ?p0 = "HttpParser_init ll"
  obtain f v s where all: "run_callbacks (request_events us hs bs) ?p0 =
      (0, ?p0\<lparr>hp_current_field := f, hp_current_value := v, hp_header_state := s, hp_complete := True,
       hp_request := HttpRequest_init\<lparr>rq_url := concat us, rq_headers := fold set_header hs [], rq_body := concat bs\<rparr>\<rparr>)"
    using run_request [OF assms(2-6)] by blast
  have "hp_parser ?p0 = ll_init ll" "\<not> hp_error ?p0" by (simp_all add: HttpParser_init_def)
  with parse_pieces_ok [OF _ all parser_inv_init] assms(1)
  have ds: "parse_pieces ll ds ?p0 = ?p0\<lparr>hp_current_field := f, hp_current_value := v, hp_header_state := s, hp_complete := True,
       hp_request := HttpRequest_init\<lparr>rq_url := concat us, rq_headers := fold set_header hs [], rq_body := concat bs\<rparr>, hp_parser := pp\<rparr>"
    by simp
  have found: "headers_find n (fold set_header hs []) = combine_values (values_of n hs)" for n
    by (simp add: set_headers_find combine_values_def)
  show ?thesis
    unfolding ds using set_headers_length [of "[]" hs]
      takeWhile_neq [of "CHR ''?''" "concat us"] split_at_first [of "CHR ''?''" "concat us"]
    by (simp add: HttpParser_GetRequest_def Let_def HttpRequest_GetHeader_def HttpParser_HasError_def HttpParser_init_def
        found combine_values_join)
qed

text \<open>
  A concrete llhttp for the witnesses: its state is the script of callbacks still to make,
  one list per call.
\<close>

definition script_ll :: "llhttp_event list list \<Rightarrow> llhttp_event list list llhttp" where
  "script_ll script =
    \<lparr>ll_init = script, ll_reset = (\<lambda>s. s),
     ll_execute = (\<lambda>s d. case s of [] \<Rightarrow> ([], 0, []) | es # s' \<Rightarrow> (es, 0, s')),
     ll_errno_name = (\<lambda>_. ''HPE''), ll_method = (\<lambda>_. HTTP_GET),
     ll_http_major = (\<lambda>_. 1), ll_http_minor = (\<lambda>_. 1)\<rparr>"

theorem request_assembled_witness:
  "let ll = script_ll [[EvUrl ''/a'', EvUrl ''?b'', EvHeaderField ''Ho''],
                 [EvHeaderField ''st'', EvHeaderValue ''x'', EvHeaderValue ''y'', EvHeaderField ''HOST'', EvHeaderValue ''z'',
                  EvMessageComplete]];
       rq = HttpParser_GetRequest ll (parse_pieces ll [''d1'', ''d2''] (HttpParser_init ll))
   in rq_path rq = ''/a'' \<and> HttpRequest_GetHeader ''host'' rq = ''xy, z''"
proof -
  let ?ll = "script_ll [[EvUrl ''/a'', EvUrl ''?b'', EvHeaderField ''Ho''],
                 [EvHeaderField ''st'', EvHeaderValue ''x'', EvHeaderValue ''y'', EvHeaderField ''HOST'', EvHeaderValue ''z'',
                  EvMessageComplete]]"
  let ?rq = "HttpParser_GetRequest ?ll (parse_pieces ?ll [''d1'', ''d2''] (HttpParser_init ?ll))"
  let ?hs = "[([''Ho'', ''st''], [''x'', ''y'']), ([''HOST''], [''z''])]"
  have r: "ll_run ?ll [''d1'', ''d2''] (ll_init ?ll) = Some (request_events [''/a'', ''?b''] ?hs [], [])"
    by (simp add: script_ll_def HPE_OK_def request_events_def header_events_def)
  have "headers_total [] ?hs = 13" by code_simp
  then have total: "headers_total [] ?hs \<le> kMaxTotalHeaderSize" by (simp add: kMaxTotalHeaderSize_def)
  have vals: "values_of ''host'' ?hs = [[''x'', ''y''], [''z'']]" by code_simp
  have lim: "length (concat [''/a'', ''?b'']) \<le> kMaxUrlLength" "length (concat []) \<le> kMaxBodySize"
    "length ?hs \<le> kMaxHeaderCount" by (simp_all add: kMaxUrlLength_def kMaxHeaderCount_def)
  have ne: "h \<in> set ?hs \<Longrightarrow> fst h \<noteq> [] \<and> snd h \<noteq> []" for h by auto
  note rq = request_assembled [OF r lim total ne, unfolded Let_def]
  have all: "(\<forall>n vs vss. values_of n ?hs = vs # vss \<longrightarrow> (\<forall>ws \<in> set vss. length ws = 1) \<longrightarrow>
        HttpRequest_GetHeader n ?rq = concat vs @ concat (map (\<lambda>ws. '', '' @ concat ws) vss))"
    by (rule rq [THEN conjunct2, THEN conjunct2, THEN conjunct2, THEN conjunct2, THEN conjunct2, THEN conjunct1])
  have path: "CHR ''?'' \<notin> set (rq_path ?rq)" "''/a?b'' = rq_path ?rq @ ''?'' @ rq_query ?rq"
    using rq by simp_all
  from all [rule_format, OF vals] have "HttpRequest_GetHeader ''host'' ?rq = ''xy, z''" by simp
  moreover from path have "rq_path ?rq = ''/a''"
    by (auto simp: Cons_eq_append_conv)
  ultimately show ?thesis by simp
qed

theorem parser_resource_limits_witness:
  "fst (HttpParser_Parse (script_ll [[EvUrl ''/'', EvMessageComplete]]) ''d''
     (HttpParser_init (script_ll [[EvUrl ''/'', EvMessageComplete]]))) \<and>
   request_bounded (HttpParser_GetRequest (script_ll [[EvUrl ''/'', EvMessageComplete]])
     (snd (HttpParser_Parse (script_ll [[EvUrl ''/'', EvMessageComplete]]) ''d''
       (HttpParser_init (script_ll [[EvUrl ''/'', EvMessageComplete]])))))"
proof -
  let ?ll = "script_ll [[EvUrl ''/'', EvMessageComplete]]"
  have "fst (HttpParser_Parse ?ll ''d'' (HttpParser_init ?ll))"
    by (simp add: script_ll_def HttpParser_Parse_def HttpParser_init_def HttpRequest_init_def HPE_OK_def
        HttpParser_defs kMaxUrlLength_def Let_def)
  with parser_resource_limits [of ?ll "[]" "''d''"] show ?thesis
    by (auto simp: Let_def split: prod.splits)
qed

subsection \<open>Where the pieces do matter\<close>

text \<open>
  A repeated header in pieces loses its first value: When a header name occurs a
  second time and its second value arrives in one piece, the two values are combined as
  \<open>old, new\<close>; when the second value arrives in two pieces, the second piece replaces the
  combination by the second value alone and the first occurrence is lost, although the
  bytes are the same.
\<close>

theorem duplicate_header_depends_on_pieces:
  assumes "headers_sorted m" and "headers_find n m = Some old" and "fits (headers_set n (old @ '', '' @ v @ w) m)"
    and "rq_headers (hp_request p) = m" and "at_header_start p"
  shows "headers_find n (rq_headers (hp_request (snd (run_callbacks
           [EvHeaderField n, EvHeaderValue (v @ w)] p)))) = Some (old @ '', '' @ v @ w) \<and>
         headers_find n (rq_headers (hp_request (snd (run_callbacks
           [EvHeaderField n, EvHeaderValue v, EvHeaderValue w] p)))) = Some (v @ w)"
proof -
  have fit: "fits (headers_set n (old @ '', '' @ v) m)" "fits (headers_set n (v @ w) m)"
  proof -
    show "fits (headers_set n (old @ '', '' @ v) m)"
      using fits_prefix [OF assms(1), of n "old @ '', '' @ v" w] assms(3) by simp
    have "headers_size (headers_set n (v @ w) m) \<le> headers_size (headers_set n (old @ '', '' @ v @ w) m)"
      by (rule headers_set_size_mono [OF assms(1)]) simp
    then show "fits (headers_set n (v @ w) m)"
      using assms(3) headers_set_length_value [OF assms(1), of n "v @ w" "old @ '', '' @ v @ w"]
      by (simp add: fits_def)
  qed
  have field: "on_event (EvHeaderField n) p = (0, p\<lparr>hp_current_field := n, hp_header_state := kField\<rparr>)"
    using assms(5) by (auto simp: OnHeaderField_def at_header_start_def Let_def)
  show ?thesis
    using assms fit
    by (simp add: field OnHeaderValue_def Let_def fits_def headers_find_set headers_set_again del: on_event.simps(2))
qed

theorem duplicate_header_depends_on_pieces_witness:
  "headers_find ''a'' (rq_headers (hp_request (snd (run_callbacks
     [EvHeaderField ''a'', EvHeaderValue ''2'', EvHeaderValue ''3'']
     ((HttpParser_init (script_ll []))\<lparr>hp_request := HttpRequest_init\<lparr>rq_headers := [(''a'', ''1'')]\<rparr>\<rparr>))))) =
   Some ''23''"
proof -
  let ?p = "(HttpParser_init (script_ll []))\<lparr>hp_request := HttpRequest_init\<lparr>rq_headers := [(''a'', ''1'')]\<rparr>\<rparr>"
  have "headers_find ''a'' [(''a'', ''1'')] = Some ''1''" by (simp add: headers_find_Cons)
  from duplicate_header_depends_on_pieces [OF _ this, of "''2''" "''3''" ?p] show ?thesis
    by (simp add: fits_def kMaxHeaderCount_def kMaxTotalHeaderSize_def headers_size_def at_header_start_def
        HttpParser_init_def)
qed

end
