(* ===== verification/Http_Server.thy ===== *)
theory Http_Server
  imports Http_Parser
begin

text \<open>
  \<open>HttpServer\<close> of \<open>http/http.cpp\<close>.  The sockets belong to the libuv component and the clock to
  the system: a connection is driven by a script with one entry per turn of the loop in
  \<open>HandleConnection\<close>, giving what \<open>IsOpen()\<close>, \<open>now()\<close>, \<open>Read()\<close> and, after a response, \<open>now()\<close>
  return in that turn.  A script that runs out leaves the connection suspended in
  \<open>Read()\<close>.  The handler is any function object; what it reads and changes besides the request is
  its state \<open>'h\<close>.  Theory Http_Service puts the connections and the accept loop together.
\<close>

record turn =
  t_open :: bool
  t_now :: int
  t_data :: string
  t_after :: int

record conn_log =
  cn_exchanges :: "(HttpRequest \<times> HttpResponse) list"
  cn_writes :: "string list"
  cn_closed :: bool

record 'h HttpServer =
  hs_handler :: "(HttpRequest \<Rightarrow> 'h \<Rightarrow> HttpResponse \<times> 'h) option"
  hs_running :: bool
  hs_read_timeout :: int

definition kDefaultReadTimeout :: int where "kDefaultReadTimeout = 30000"

definition HttpServer_init :: "'h HttpServer" where
  "HttpServer_init = \<lparr>hs_handler = None, hs_running = True, hs_read_timeout = kDefaultReadTimeout\<rparr>"

definition HttpServer_OnRequest :: "(HttpRequest \<Rightarrow> 'h \<Rightarrow> HttpResponse \<times> 'h) \<Rightarrow> 'h HttpServer \<Rightarrow> 'h HttpServer" where
  "HttpServer_OnRequest handler sv = sv\<lparr>hs_handler := Some handler\<rparr>"

definition HttpServer_SetReadTimeout :: "int \<Rightarrow> 'h HttpServer \<Rightarrow> 'h HttpServer" where
  "HttpServer_SetReadTimeout timeout sv = sv\<lparr>hs_read_timeout := timeout\<rparr>"

definition HttpServer_Stop :: "'h HttpServer \<Rightarrow> 'h HttpServer" where
  "HttpServer_Stop sv = sv\<lparr>hs_running := False\<rparr>"

subsection \<open>One connection\<close>

definition HttpServer_respond :: "'h HttpServer \<Rightarrow> HttpRequest \<Rightarrow> 'h \<Rightarrow> HttpResponse \<times> 'h" where
  "HttpServer_respond sv request st =
    (case hs_handler sv of
       Some handler \<Rightarrow> handler request st
     | None \<Rightarrow> (HttpResponse_NotFound ''No handler configured'', st))"

fun connection_loop ::
  "'p llhttp \<Rightarrow> 'h HttpServer \<Rightarrow> turn list \<Rightarrow> 'p HttpParser \<Rightarrow> int \<Rightarrow> 'h \<Rightarrow> conn_log \<Rightarrow> conn_log \<times> 'h" where
  "connection_loop ll sv [] parser deadline st lg = (lg, st)"
| "connection_loop ll sv (t # ts) parser deadline st lg =
    (if \<not> t_open t then (lg\<lparr>cn_closed := True\<rparr>, st)
     else if t_now t \<ge> deadline
     then (lg\<lparr>cn_writes := cn_writes lg @ [HttpResponse_Serialize (HttpResponse_BadRequest ''Request timeout'')],
              cn_closed := True\<rparr>, st)
     else if t_data t = [] then (lg\<lparr>cn_closed := True\<rparr>, st)
     else
       let (complete, parser) = HttpParser_Parse ll (t_data t) parser in
       if HttpParser_HasError parser
       then (lg\<lparr>cn_writes := cn_writes lg @
                  [HttpResponse_Serialize (HttpResponse_BadRequest (HttpParser_GetError parser))],
                cn_closed := True\<rparr>, st)
       else if complete
       then
         let request = HttpParser_GetRequest ll parser;
             (response, st) = HttpServer_respond sv request st;
             lg = lg\<lparr>cn_exchanges := cn_exchanges lg @ [(request, response)],
                     cn_writes := cn_writes lg @ [HttpResponse_Serialize response]\<rparr>
         in if \<not> HttpRequest_ShouldKeepAlive request then (lg\<lparr>cn_closed := True\<rparr>, st)
            else connection_loop ll sv ts (HttpParser_Reset ll parser) (t_after t + hs_read_timeout sv) st lg
       else connection_loop ll sv ts parser deadline st lg)"

definition conn_log_init :: conn_log where
  "conn_log_init = \<lparr>cn_exchanges = [], cn_writes = [], cn_closed = False\<rparr>"

definition HttpServer_HandleConnection ::
  "'p llhttp \<Rightarrow> 'h HttpServer \<Rightarrow> int \<Rightarrow> turn list \<Rightarrow> 'h \<Rightarrow> conn_log \<times> 'h" where
  "HttpServer_HandleConnection ll sv now turns st =
     connection_loop ll sv turns (HttpParser_init ll) (now + hs_read_timeout sv) st conn_log_init"

subsection \<open>Properties\<close>

text \<open>The responses to requests that are handled one after the other, and the state they leave.\<close>

fun respond_all :: "'h HttpServer \<Rightarrow> HttpRequest list \<Rightarrow> 'h \<Rightarrow> HttpResponse list \<times> 'h" where
  "respond_all sv [] st = ([], st)"
| "respond_all sv (rq # rqs) st =
    (let (rs, st) = HttpServer_respond sv rq st; (rss, st) = respond_all sv rqs st in (rs # rss, st))"

lemma respond_all_append:
  "respond_all sv (xs @ ys) st =
    (let (rs, st) = respond_all sv xs st; (rs', st) = respond_all sv ys st in (rs @ rs', st))"
  by (induction xs arbitrary: st) (simp_all add: Let_def case_prod_unfold)

definition conn_answers :: "conn_log \<Rightarrow> string list" where
  "conn_answers lg = map (HttpResponse_Serialize \<circ> snd) (cn_exchanges lg)"

definition rejection :: "string \<Rightarrow> string" where
  "rejection msg = HttpResponse_Serialize (HttpResponse_BadRequest msg)"

text \<open>
  A log in which every request was within the limits and answered once and in order, each
  but the last asked to keep the connection, and at most one error response was written,
  last, on a connection that is then closed.
\<close>

definition keeps_alive :: "conn_log \<Rightarrow> bool" where
  "keeps_alive lg \<longleftrightarrow> (\<forall>(rq, _) \<in> set (cn_exchanges lg). HttpRequest_ShouldKeepAlive rq)"

definition conn_ok :: "conn_log \<Rightarrow> bool" where
  "conn_ok lg \<longleftrightarrow>
     (\<forall>(rq, _) \<in> set (cn_exchanges lg). request_bounded rq) \<and>
     (\<forall>(rq, _) \<in> set (butlast (cn_exchanges lg)). HttpRequest_ShouldKeepAlive rq) \<and>
     (cn_closed lg \<or> keeps_alive lg) \<and>
     (cn_writes lg = conn_answers lg \<or>
      cn_closed lg \<and> keeps_alive lg \<and> (\<exists>msg. cn_writes lg = conn_answers lg @ [rejection msg]))"

definition conn_running :: "conn_log \<Rightarrow> bool" where
  "conn_running lg \<longleftrightarrow>
     \<not> cn_closed lg \<and> cn_writes lg = conn_answers lg \<and> keeps_alive lg \<and>
     (\<forall>(rq, _) \<in> set (cn_exchanges lg). request_bounded rq)"

lemma conn_running_init [simp]: "conn_running conn_log_init"
  by (simp add: conn_running_def conn_log_init_def conn_answers_def keeps_alive_def)

lemma conn_running_ok: "conn_running lg \<Longrightarrow> conn_ok lg"
  by (auto simp: conn_running_def conn_ok_def keeps_alive_def dest!: in_set_butlastD)

lemma conn_closed_ok: "conn_running lg \<Longrightarrow> conn_ok (lg\<lparr>cn_closed := True\<rparr>)"
  by (auto simp: conn_running_def conn_ok_def keeps_alive_def conn_answers_def dest!: in_set_butlastD)

lemma conn_rejected_ok:
  "conn_running lg \<Longrightarrow>
   conn_ok (lg\<lparr>cn_writes := cn_writes lg @ [HttpResponse_Serialize (HttpResponse_BadRequest msg)], cn_closed := True\<rparr>)"
  by (auto simp: conn_running_def conn_ok_def keeps_alive_def conn_answers_def rejection_def dest!: in_set_butlastD)

text \<open>One more exchange, on a connection that goes on or is closed after it.\<close>

definition exchange :: "HttpRequest \<Rightarrow> HttpResponse \<Rightarrow> conn_log \<Rightarrow> conn_log" where
  "exchange rq rs lg = lg\<lparr>cn_exchanges := cn_exchanges lg @ [(rq, rs)],
     cn_writes := cn_writes lg @ [HttpResponse_Serialize rs]\<rparr>"

lemma exchange_simps [simp]: "cn_exchanges (exchange rq rs lg) = cn_exchanges lg @ [(rq, rs)]"
  "cn_closed (exchange rq rs lg) = cn_closed lg"
  by (simp_all add: exchange_def)

lemma conn_exchanged_ok:
  "conn_running lg \<Longrightarrow> request_bounded rq \<Longrightarrow> conn_ok (exchange rq rs lg\<lparr>cn_closed := True\<rparr>)"
  by (auto simp: conn_running_def conn_ok_def keeps_alive_def conn_answers_def exchange_def)

lemma conn_exchanged_running:
  "conn_running lg \<Longrightarrow> request_bounded rq \<Longrightarrow> HttpRequest_ShouldKeepAlive rq \<Longrightarrow> conn_running (exchange rq rs lg)"
  by (auto simp: conn_running_def keeps_alive_def conn_answers_def exchange_def)

lemma connection_loop_ok:
  "parser_inv parser \<Longrightarrow> conn_running lg \<Longrightarrow>
   conn_ok (fst (connection_loop ll sv ts parser deadline st lg))"
proof (induction ts arbitrary: parser deadline st lg)
  case Nil
  then show ?case by (simp add: conn_running_ok)
next
  case (Cons t ts)
  obtain complete p1 where parse: "HttpParser_Parse ll (t_data t) parser = (complete, p1)"
    by (cases "HttpParser_Parse ll (t_data t) parser")
  note inv1 = Parse_inv [OF Cons.prems(1) parse]
  let ?rq = "HttpParser_GetRequest ll p1"
  obtain rs st1 where rs: "HttpServer_respond sv ?rq st = (rs, st1)" by (cases "HttpServer_respond sv ?rq st")
  have bounded: "\<not> hp_error p1 \<Longrightarrow> request_bounded ?rq" by (rule GetRequest_bounded [OF inv1(1)])
  have go: "conn_running (exchange ?rq rs lg)" if "\<not> hp_error p1" "HttpRequest_ShouldKeepAlive ?rq"
    by (rule conn_exchanged_running [OF Cons.prems(2) bounded [OF that(1)] that(2)])
  show ?case
    using Cons.prems(2) Cons.IH [OF inv1(1) Cons.prems(2)] Cons.IH [OF parser_inv_Reset go] bounded
      conn_exchanged_ok [OF Cons.prems(2), of ?rq rs]
    by (simp add: parse rs HttpParser_HasError_def Let_def exchange_def [symmetric] conn_closed_ok conn_rejected_ok)
qed

lemma connection_loop_responses:
  "connection_loop ll sv ts parser deadline st lg = (lg', st') \<Longrightarrow>
   \<exists>xs. cn_exchanges lg' = cn_exchanges lg @ xs \<and> respond_all sv (map fst xs) st = (map snd xs, st')"
proof (induction ts arbitrary: parser deadline st lg)
  case (Cons t ts)
  obtain complete p1 where parse: "HttpParser_Parse ll (t_data t) parser = (complete, p1)"
    by (cases "HttpParser_Parse ll (t_data t) parser")
  let ?rq = "HttpParser_GetRequest ll p1"
  obtain rs st1 where rs: "HttpServer_respond sv ?rq st = (rs, st1)" by (cases "HttpServer_respond sv ?rq st")
  have go: "\<exists>xs. cn_exchanges lg' = cn_exchanges lg @ xs \<and> respond_all sv (map fst xs) st = (map snd xs, st')"
    if loop: "connection_loop ll sv ts (HttpParser_Reset ll p1) (t_after t + hs_read_timeout sv) st1 (exchange ?rq rs lg) = (lg', st')"
  proof -
    from Cons.IH [OF loop] obtain xs where "cn_exchanges lg' = cn_exchanges lg @ (?rq, rs) # xs"
      "respond_all sv (map fst xs) st1 = (map snd xs, st')" by auto
    then show ?thesis by (intro exI [of _ "(?rq, rs) # xs"]) (simp add: rs)
  qed
  have last1: "respond_all sv (map fst [(?rq, rs)]) st = (map snd [(?rq, rs)], st1)" by (simp add: rs)
  show ?case
    using Cons.prems Cons.IH [of p1 deadline st lg] go last1
    by (auto simp: parse rs HttpParser_HasError_def Let_def exchange_def [symmetric] split: if_splits)
qed simp

text \<open>
  A connection answers each request once, in order, within the limits:  Whatever
  llhttp does, whatever the peer sends and whenever the clock runs out: every request the
  handler sees is within the parser's limits; the handler is called once for each, in order; what
  is written is its answers in order, followed by at most one error response, after which the
  connection is closed; a request that does not ask for keep-alive is the last one and closes the
  connection.
\<close>

theorem connection_answers_in_order:
  "(let (lg, st') = HttpServer_HandleConnection ll sv now turns st in
     conn_ok lg \<and> respond_all sv (map fst (cn_exchanges lg)) st = (map snd (cn_exchanges lg), st'))"
proof -
  obtain lg st' where eq: "HttpServer_HandleConnection ll sv now turns st = (lg, st')"
    by (cases "HttpServer_HandleConnection ll sv now turns st")
  have "conn_ok lg"
    using connection_loop_ok [OF parser_inv_init conn_running_init] eq
    by (metis HttpServer_HandleConnection_def fst_conv)
  with connection_loop_responses [OF eq [unfolded HttpServer_HandleConnection_def]] eq show ?thesis
    by (auto simp: conn_log_init_def)
qed

text \<open>
  Two requests in one read are merged: When one \<open>Read\<close> delivers two whole requests
  and llhttp reports both in the same \<open>llhttp_execute\<close>, the server makes a single request of
  them: the handler is called once, with the two URLs concatenated, and the peer gets one
  response for two requests.
\<close>

theorem pipelined_requests_merged:
  assumes "ll_execute ll (ll_init ll) d = ([EvUrl a, EvMessageComplete, EvUrl b, EvMessageComplete], HPE_OK, pp)"
    and "length a + length b \<le> kMaxUrlLength" and "d \<noteq> []" and "now1 < now + hs_read_timeout sv"
  shows "(let (lg, _) = HttpServer_HandleConnection ll sv now [\<lparr>t_open = True, t_now = now1, t_data = d, t_after = now2\<rparr>] st
     in map (rq_url \<circ> fst) (cn_exchanges lg) = [a @ b] \<and> length (cn_writes lg) = 1)"
proof -
  have parse: "HttpParser_Parse ll d (HttpParser_init ll) =
      (True, (HttpParser_init ll)\<lparr>hp_request := HttpRequest_init\<lparr>rq_url := a @ b\<rparr>, hp_complete := True, hp_parser := pp\<rparr>)"
    using assms(1,2)
    by (simp add: HttpParser_Parse_def HttpParser_init_def HPE_OK_def OnUrl_def OnMessageComplete_def
        HttpRequest_init_def)
  have "\<not> hp_error (HttpParser_init ll)" by (simp add: HttpParser_init_def)
  then show ?thesis
    using assms(3,4)
    by (simp add: HttpServer_HandleConnection_def parse HttpParser_HasError_def conn_log_init_def
        HttpParser_GetRequest_def Let_def case_prod_unfold)
qed

theorem pipelined_requests_merged_witness:
  "(let (lg, _) = HttpServer_HandleConnection
       (script_ll [[EvUrl ''/x'', EvMessageComplete, EvUrl ''/y'', EvMessageComplete]]) HttpServer_init 0
       [\<lparr>t_open = True, t_now = 5, t_data = ''bytes'', t_after = 6\<rparr>] ()
    in map (rq_url \<circ> fst) (cn_exchanges lg) = [''/x/y''] \<and> length (cn_writes lg) = 1)"
proof -
  let ?ll = "script_ll [[EvUrl ''/x'', EvMessageComplete, EvUrl ''/y'', EvMessageComplete]]"
  have "ll_execute ?ll (ll_init ?ll) ''bytes'' =
      ([EvUrl ''/x'', EvMessageComplete, EvUrl ''/y'', EvMessageComplete], HPE_OK, [])"
    by (simp add: script_ll_def HPE_OK_def)
  from pipelined_requests_merged [OF this, of 5 0 HttpServer_init 6 "()"] show ?thesis
    by (simp add: kMaxUrlLength_def HttpServer_init_def kDefaultReadTimeout_def Let_def)
qed

end
