(* ===== verification/Http_Service.thy ===== *)
theory Http_Service
  imports Http_Server
begin

text \<open>
  The whole \<open>HttpServer\<close> of \<open>http/http.cpp\<close>: the accept loop of \<open>Run\<close>, the connections it has spawned
  and the one handler they share, on the single thread of the executor.  A connection is a
  coroutine that suspends in \<open>Read\<close> and \<open>Write\<close>; between two suspensions nothing else runs.  The
  events are the resumptions, in any order: a stream accepted or not, a spawned connection started, a
  read or a write finished, with what the clock and \<open>IsOpen\<close> return; and calls of \<open>Stop\<close> and
  \<open>SetReadTimeout\<close> from other code.
\<close>

subsection \<open>One connection between its suspensions\<close>

text \<open>
  \<open>Checking\<close> is the head of the loop; \<open>Answering b\<close> waits for \<open>Write\<close>, after which the loop goes on
  if \<open>b\<close> and is left otherwise.
\<close>

datatype conn_phase = Spawned | Checking | Reading | Answering bool | Ended

record 'p connection =
  cx_phase :: conn_phase
  cx_parser :: "'p HttpParser"
  cx_deadline :: int
  cx_log :: conn_log

definition connection_spawned :: "'p llhttp \<Rightarrow> 'p connection" where
  "connection_spawned ll =
    \<lparr>cx_phase = Spawned, cx_parser = HttpParser_init ll, cx_deadline = 0, cx_log = conn_log_init\<rparr>"

definition connection_close :: "'p connection \<Rightarrow> 'p connection" where
  "connection_close cx = cx\<lparr>cx_phase := Ended, cx_log := (cx_log cx)\<lparr>cn_closed := True\<rparr>\<rparr>"

definition connection_reject :: "string \<Rightarrow> 'p connection \<Rightarrow> 'p connection" where
  "connection_reject msg cx = cx\<lparr>cx_phase := Answering False,
     cx_log := (cx_log cx)\<lparr>cn_writes := cn_writes (cx_log cx) @ [HttpResponse_Serialize (HttpResponse_BadRequest msg)]\<rparr>\<rparr>"

definition HandleConnection_start :: "'p llhttp \<Rightarrow> 'h HttpServer \<Rightarrow> int \<Rightarrow> 'p connection \<Rightarrow> 'p connection" where
  "HandleConnection_start ll sv now cx =
    cx\<lparr>cx_phase := Checking, cx_parser := HttpParser_init ll, cx_deadline := now + hs_read_timeout sv\<rparr>"

definition HandleConnection_check :: "bool \<Rightarrow> int \<Rightarrow> 'p connection \<Rightarrow> 'p connection" where
  "HandleConnection_check is_open now cx =
    (if \<not> is_open then connection_close cx
     else if now \<ge> cx_deadline cx then connection_reject ''Request timeout'' cx
     else cx\<lparr>cx_phase := Reading\<rparr>)"

definition HandleConnection_read ::
  "'p llhttp \<Rightarrow> 'h HttpServer \<Rightarrow> string \<Rightarrow> 'h \<Rightarrow> 'p connection \<Rightarrow> 'p connection \<times> 'h \<times> (HttpRequest \<times> HttpResponse) list" where
  "HandleConnection_read ll sv data st cx =
    (if data = [] then (connection_close cx, st, [])
     else
       let (complete, parser) = HttpParser_Parse ll data (cx_parser cx);
           cx = cx\<lparr>cx_parser := parser\<rparr> in
       if HttpParser_HasError parser then (connection_reject (HttpParser_GetError parser) cx, st, [])
       else if complete
       then
         let request = HttpParser_GetRequest ll parser;
             (response, st) = HttpServer_respond sv request st
         in (cx\<lparr>cx_phase := Answering (HttpRequest_ShouldKeepAlive request),
                cx_log := exchange request response (cx_log cx)\<rparr>, st, [(request, response)])
       else (cx\<lparr>cx_phase := Checking\<rparr>, st, []))"

definition HandleConnection_written :: "'p llhttp \<Rightarrow> 'h HttpServer \<Rightarrow> int \<Rightarrow> bool \<Rightarrow> 'p connection \<Rightarrow> 'p connection" where
  "HandleConnection_written ll sv now goes_on cx =
    (if goes_on
     then cx\<lparr>cx_phase := Checking, cx_parser := HttpParser_Reset ll (cx_parser cx),
             cx_deadline := now + hs_read_timeout sv\<rparr>
     else connection_close cx)"

lemmas connection_defs =
  connection_close_def connection_reject_def HandleConnection_start_def HandleConnection_check_def
  HandleConnection_read_def HandleConnection_written_def

subsection \<open>The loop as a sequence of resumptions\<close>

text \<open>
  A connection alone, driven by a script as in theory Http_Server: this is the loop of
  \<open>HandleConnection\<close>, cut at its suspension points.
\<close>

fun drive :: "'p llhttp \<Rightarrow> 'h HttpServer \<Rightarrow> turn list \<Rightarrow> 'h \<Rightarrow> 'p connection \<Rightarrow> 'p connection \<times> 'h" where
  "drive ll sv [] st cx = (cx, st)"
| "drive ll sv (t # ts) st cx =
    (let cx = (if cx_phase cx = Checking then HandleConnection_check (t_open t) (t_now t) cx else cx);
         (cx, st, _) = (if cx_phase cx = Reading then HandleConnection_read ll sv (t_data t) st cx else (cx, st, []));
         cx = (case cx_phase cx of Answering b \<Rightarrow> HandleConnection_written ll sv (t_after t) b cx | _ \<Rightarrow> cx)
     in drive ll sv ts st cx)"

lemma drive_ended: "cx_phase cx = Ended \<Longrightarrow> drive ll sv ts st cx = (cx, st)"
  by (induction ts) simp_all

lemma drive_connection_loop:
  "cx_phase cx = Checking \<Longrightarrow>
   connection_loop ll sv ts (cx_parser cx) (cx_deadline cx) st (cx_log cx) = apfst cx_log (drive ll sv ts st cx)"
proof (induction ts arbitrary: st cx)
  case (Cons t ts)
  obtain complete p1 where parse: "HttpParser_Parse ll (t_data t) (cx_parser cx) = (complete, p1)"
    by (cases "HttpParser_Parse ll (t_data t) (cx_parser cx)")
  let ?rq = "HttpParser_GetRequest ll p1"
  obtain rs st1 where rs: "HttpServer_respond sv ?rq st = (rs, st1)" by (cases "HttpServer_respond sv ?rq st")
  have more: "connection_loop ll sv ts p1 (cx_deadline cx) st (cx_log cx) =
      apfst cx_log (drive ll sv ts st (cx\<lparr>cx_parser := p1, cx_phase := Checking\<rparr>))"
    using Cons.IH [of "cx\<lparr>cx_parser := p1, cx_phase := Checking\<rparr>"] by simp
  let ?next = "cx\<lparr>cx_log := exchange ?rq rs (cx_log cx), cx_phase := Checking,
      cx_parser := HttpParser_Reset ll p1, cx_deadline := t_after t + hs_read_timeout sv\<rparr>"
  have again: "connection_loop ll sv ts (HttpParser_Reset ll p1) (t_after t + hs_read_timeout sv) st1 (exchange ?rq rs (cx_log cx)) =
      apfst cx_log (drive ll sv ts st1 ?next)"
    using Cons.IH [of ?next] by simp
  have ended: "drive ll sv ts s (c\<lparr>cx_phase := Ended, cx_log := l\<rparr>) = (c\<lparr>cx_phase := Ended, cx_log := l\<rparr>, s)" for s c l
    by (simp add: drive_ended)
  show ?case
    using Cons.prems
    by (simp add: parse rs connection_defs HttpParser_HasError_def Let_def exchange_def [symmetric] ended more again)
qed simp

subsection \<open>The server\<close>

datatype run_phase = Accepting | Returned int

text \<open>
  \<open>hw_history\<close> records every call of the handler, in the order of the calls, with the connection it
  was made for.
\<close>

record ('h, 'p) http_world =
  hw_server :: "'h HttpServer"
  hw_run :: run_phase
  hw_conns :: "'p connection list"
  hw_app :: 'h
  hw_history :: "(nat \<times> HttpRequest \<times> HttpResponse) list"

definition Run_start :: "int \<Rightarrow> int \<Rightarrow> 'h HttpServer \<Rightarrow> 'h \<Rightarrow> ('h, 'p) http_world" where
  "Run_start bind listen sv st =
    \<lparr>hw_server = sv,
     hw_run = (if bind \<noteq> 0 then Returned bind else if listen \<noteq> 0 then Returned listen
               else if hs_running sv then Accepting else Returned 0),
     hw_conns = [], hw_app = st, hw_history = []\<rparr>"

definition Run_accepted :: "'p llhttp \<Rightarrow> bool \<Rightarrow> ('h, 'p) http_world \<Rightarrow> ('h, 'p) http_world" where
  "Run_accepted ll stream w =
    w\<lparr>hw_conns := (if stream then hw_conns w @ [connection_spawned ll] else hw_conns w),
      hw_run := (if hs_running (hw_server w) then Accepting else Returned 0)\<rparr>"

datatype http_event =
    HAccept bool | HStart nat int | HCheck nat bool int | HRead nat string | HWritten nat int
  | HStop | HSetTimeout int

definition in_phase :: "nat \<Rightarrow> conn_phase \<Rightarrow> ('h, 'p) http_world \<Rightarrow> bool" where
  "in_phase i ph w \<longleftrightarrow> i < length (hw_conns w) \<and> cx_phase (hw_conns w ! i) = ph"

definition on_conn :: "nat \<Rightarrow> ('p connection \<Rightarrow> 'p connection) \<Rightarrow> ('h, 'p) http_world \<Rightarrow> ('h, 'p) http_world" where
  "on_conn i f w = w\<lparr>hw_conns := (hw_conns w)[i := f (hw_conns w ! i)]\<rparr>"

definition http_read :: "'p llhttp \<Rightarrow> nat \<Rightarrow> string \<Rightarrow> ('h, 'p) http_world \<Rightarrow> ('h, 'p) http_world" where
  "http_read ll i data w =
    (let (cx, st, xs) = HandleConnection_read ll (hw_server w) data (hw_app w) (hw_conns w ! i)
     in w\<lparr>hw_conns := (hw_conns w)[i := cx], hw_app := st, hw_history := hw_history w @ map (Pair i) xs\<rparr>)"

fun http_step :: "'p llhttp \<Rightarrow> http_event \<Rightarrow> ('h, 'p) http_world \<Rightarrow> ('h, 'p) http_world option" where
  "http_step ll (HAccept stream) w = (if hw_run w = Accepting then Some (Run_accepted ll stream w) else None)"
| "http_step ll (HStart i now) w =
     (if in_phase i Spawned w then Some (on_conn i (HandleConnection_start ll (hw_server w) now) w) else None)"
| "http_step ll (HCheck i is_open now) w =
     (if in_phase i Checking w then Some (on_conn i (HandleConnection_check is_open now) w) else None)"
| "http_step ll (HRead i data) w = (if in_phase i Reading w then Some (http_read ll i data w) else None)"
| "http_step ll (HWritten i now) w =
     (if in_phase i (Answering True) w then Some (on_conn i (HandleConnection_written ll (hw_server w) now True) w)
      else if in_phase i (Answering False) w then Some (on_conn i (HandleConnection_written ll (hw_server w) now False) w)
      else None)"
| "http_step ll HStop w = Some (w\<lparr>hw_server := HttpServer_Stop (hw_server w)\<rparr>)"
| "http_step ll (HSetTimeout d) w = Some (w\<lparr>hw_server := HttpServer_SetReadTimeout d (hw_server w)\<rparr>)"

fun http_exec :: "'p llhttp \<Rightarrow> http_event list \<Rightarrow> ('h, 'p) http_world \<Rightarrow> ('h, 'p) http_world option" where
  "http_exec ll [] w = Some w"
| "http_exec ll (e # es) w = Option.bind (http_step ll e w) (http_exec ll es)"

subsection \<open>Invariants\<close>

definition connection_inv :: "'p connection \<Rightarrow> bool" where
  "connection_inv cx \<longleftrightarrow> parser_inv (cx_parser cx) \<and>
    (case cx_phase cx of
       Answering False \<Rightarrow> \<not> cn_closed (cx_log cx) \<and> conn_ok ((cx_log cx)\<lparr>cn_closed := True\<rparr>)
     | Ended \<Rightarrow> cn_closed (cx_log cx) \<and> conn_ok (cx_log cx)
     | _ \<Rightarrow> conn_running (cx_log cx))"

lemma connection_inv_spawned: "connection_inv (connection_spawned ll)"
  by (simp add: connection_inv_def connection_spawned_def)

lemma connection_inv_start: "connection_inv cx \<Longrightarrow> cx_phase cx = Spawned \<Longrightarrow> connection_inv (HandleConnection_start ll sv now cx)"
  by (simp add: connection_inv_def HandleConnection_start_def)

lemma connection_inv_close:
  "parser_inv (cx_parser cx) \<Longrightarrow> conn_running (cx_log cx) \<Longrightarrow> connection_inv (connection_close cx)"
  by (simp add: connection_inv_def connection_close_def conn_closed_ok)

lemma connection_inv_reject:
  assumes "parser_inv (cx_parser cx)" and "conn_running (cx_log cx)"
  shows "connection_inv (connection_reject msg cx)"
  using assms conn_rejected_ok [OF assms(2), of msg]
  by (simp add: connection_inv_def connection_reject_def conn_running_def)

lemma connection_inv_check:
  "connection_inv cx \<Longrightarrow> cx_phase cx = Checking \<Longrightarrow> connection_inv (HandleConnection_check is_open now cx)"
  using connection_inv_close [of cx] connection_inv_reject [of cx]
  by (auto simp: connection_inv_def HandleConnection_check_def)

lemma connection_inv_written:
  "connection_inv cx \<Longrightarrow> cx_phase cx = Answering b \<Longrightarrow> connection_inv (HandleConnection_written ll sv now b cx)"
  by (cases b) (auto simp: connection_inv_def HandleConnection_written_def connection_close_def)

lemma connection_inv_read:
  assumes inv: "connection_inv cx" "cx_phase cx = Reading"
    and eq: "HandleConnection_read ll sv data st cx = (cx', st', xs)"
  shows "connection_inv cx'"
    and "cn_exchanges (cx_log cx') = cn_exchanges (cx_log cx) @ xs"
    and "respond_all sv (map fst xs) st = (map snd xs, st')"
proof -
  obtain complete p1 where parse: "HttpParser_Parse ll data (cx_parser cx) = (complete, p1)"
    by (cases "HttpParser_Parse ll data (cx_parser cx)")
  have p: "parser_inv (cx_parser cx)" and run: "conn_running (cx_log cx)"
    using inv by (auto simp: connection_inv_def)
  note p1 = Parse_inv(1) [OF p parse]
  let ?rq = "HttpParser_GetRequest ll p1"
  obtain rs st1 where rs: "HttpServer_respond sv ?rq st = (rs, st1)" by (cases "HttpServer_respond sv ?rq st")
  have bounded: "\<not> hp_error p1 \<Longrightarrow> request_bounded ?rq" by (rule GetRequest_bounded [OF p1])
  have answering: "connection_inv (cx\<lparr>cx_parser := p1, cx_phase := Answering (HttpRequest_ShouldKeepAlive ?rq),
      cx_log := exchange ?rq rs (cx_log cx)\<rparr>)" if "\<not> hp_error p1"
    using p1 run conn_exchanged_running [OF run bounded [OF that], of rs] conn_exchanged_ok [OF run bounded [OF that], of rs]
    by (cases "HttpRequest_ShouldKeepAlive ?rq") (auto simp: connection_inv_def conn_running_def)
  note eq' = eq [unfolded HandleConnection_read_def parse HttpParser_HasError_def]
  show "connection_inv cx'"
    using eq' answering p1 run connection_inv_close [OF p run] connection_inv_reject [of "cx\<lparr>cx_parser := p1\<rparr>"]
    by (auto simp: rs Let_def connection_inv_def split: if_splits)
  show "cn_exchanges (cx_log cx') = cn_exchanges (cx_log cx) @ xs"
    using eq' by (auto simp: rs Let_def connection_close_def connection_reject_def split: if_splits)
  show "respond_all sv (map fst xs) st = (map snd xs, st')"
    using eq' by (auto simp: rs Let_def split: if_splits)
qed

lemma respond_all_handler: "hs_handler sv = hs_handler sv' \<Longrightarrow> respond_all sv rqs st = respond_all sv' rqs st"
  by (induction rqs arbitrary: st) (simp_all add: HttpServer_respond_def)

definition exchanges_of :: "nat \<Rightarrow> ('h, 'p) http_world \<Rightarrow> (HttpRequest \<times> HttpResponse) list" where
  "exchanges_of i w = map snd (filter (\<lambda>x. fst x = i) (hw_history w))"

definition http_inv :: "'h HttpServer \<Rightarrow> 'h \<Rightarrow> ('h, 'p) http_world \<Rightarrow> bool" where
  "http_inv sv st w \<longleftrightarrow>
     hs_handler (hw_server w) = hs_handler sv \<and>
     respond_all sv (map (fst \<circ> snd) (hw_history w)) st = (map (snd \<circ> snd) (hw_history w), hw_app w) \<and>
     (\<forall>i < length (hw_conns w). connection_inv (hw_conns w ! i) \<and> cn_exchanges (cx_log (hw_conns w ! i)) = exchanges_of i w) \<and>
     (\<forall>x \<in> set (hw_history w). fst x < length (hw_conns w))"

text \<open>A step of one connection that does not call the handler.\<close>

lemma http_inv_on_conn:
  assumes inv: "http_inv sv st w" and i: "i < length (hw_conns w)"
    and f: "connection_inv (f (hw_conns w ! i))" "cn_exchanges (cx_log (f (hw_conns w ! i))) = cn_exchanges (cx_log (hw_conns w ! i))"
  shows "http_inv sv st (on_conn i f w)"
  using assms by (auto simp: http_inv_def on_conn_def exchanges_of_def nth_list_update)

lemma http_inv_read:
  assumes inv: "http_inv sv st w" and ph: "in_phase i Reading w"
  shows "http_inv sv st (http_read ll i data w)"
proof -
  obtain cx app xs where eq: "HandleConnection_read ll (hw_server w) data (hw_app w) (hw_conns w ! i) = (cx, app, xs)"
    by (cases "HandleConnection_read ll (hw_server w) data (hw_app w) (hw_conns w ! i)")
  have i: "i < length (hw_conns w)" and r: "cx_phase (hw_conns w ! i) = Reading" using ph by (auto simp: in_phase_def)
  have ci: "connection_inv (hw_conns w ! i)" and h: "hs_handler (hw_server w) = hs_handler sv"
    using inv i by (auto simp: http_inv_def)
  note rd = connection_inv_read [OF ci r eq]
  have "respond_all sv (map fst xs) (hw_app w) = (map snd xs, app)"
    using rd(3) respond_all_handler [OF h] by metis
  then show ?thesis
    using inv i rd(1,2)
    by (auto simp: http_inv_def http_read_def eq exchanges_of_def nth_list_update respond_all_append comp_def filter_map)
qed

lemma HandleConnection_exchanges [simp]:
  "cn_exchanges (cx_log (HandleConnection_start ll sv now cx)) = cn_exchanges (cx_log cx)"
  "cn_exchanges (cx_log (HandleConnection_check is_open now cx)) = cn_exchanges (cx_log cx)"
  "cn_exchanges (cx_log (HandleConnection_written ll sv now b cx)) = cn_exchanges (cx_log cx)"
  by (simp_all add: connection_defs)

lemma http_inv_accepted: "http_inv sv st w \<Longrightarrow> http_inv sv st (Run_accepted ll stream w)"
  using connection_inv_spawned [of ll]
  by (fastforce simp: http_inv_def Run_accepted_def exchanges_of_def nth_append less_Suc_eq connection_spawned_def
      conn_log_init_def filter_empty_conv)

lemma http_step_inv:
  assumes inv: "http_inv sv st w" and step: "http_step ll e w = Some w'"
  shows "http_inv sv st w'"
proof -
  have ci: "connection_inv (hw_conns w ! i)" if "in_phase i ph w" for i ph
    using inv that by (auto simp: http_inv_def in_phase_def)
  show ?thesis
  proof (cases e)
    case (HStart i now)
    with step ci show ?thesis
      by (auto intro!: http_inv_on_conn [OF inv] connection_inv_start simp: in_phase_def split: if_splits)
  next
    case (HCheck i o' now)
    with step ci show ?thesis
      by (auto intro!: http_inv_on_conn [OF inv] connection_inv_check simp: in_phase_def split: if_splits)
  next
    case (HWritten i now)
    with step ci show ?thesis
      by (auto intro!: http_inv_on_conn [OF inv] connection_inv_written simp: in_phase_def split: if_splits)
  qed (use inv step in \<open>auto simp: http_inv_accepted http_inv_read split: if_splits\<close>,
      auto simp: http_inv_def HttpServer_Stop_def HttpServer_SetReadTimeout_def exchanges_of_def)
qed

lemma http_exec_inv: "http_inv sv st w \<Longrightarrow> http_exec ll es w = Some w' \<Longrightarrow> http_inv sv st w'"
  by (induction es arbitrary: w) (auto simp: bind_eq_Some_conv dest: http_step_inv)

lemma http_inv_start: "http_inv sv st (Run_start bind listen sv st)"
  by (simp add: http_inv_def Run_start_def)

subsection \<open>Properties\<close>

fun accepted :: "http_event \<Rightarrow> bool" where
  "accepted (HAccept stream) = stream"
| "accepted _ = False"

text \<open>What \<open>Run\<close> has returned: the error of \<open>Bind\<close> or \<open>Listen\<close>, or 0 once the server was stopped.\<close>

definition run_ok :: "int \<Rightarrow> int \<Rightarrow> ('h, 'p) http_world \<Rightarrow> bool" where
  "run_ok bind listen w \<longleftrightarrow>
    (if bind \<noteq> 0 then hw_run w = Returned bind \<and> hw_conns w = []
     else if listen \<noteq> 0 then hw_run w = Returned listen \<and> hw_conns w = []
     else hw_run w = Accepting \<or> hw_run w = Returned 0 \<and> \<not> hs_running (hw_server w))"

lemma http_step_run:
  "http_step ll e w = Some w' \<Longrightarrow>
   length (hw_conns w') = length (hw_conns w) + (if accepted e then 1 else 0) \<and> (run_ok bind listen w \<longrightarrow> run_ok bind listen w')"
  by (cases e)
    (auto simp: run_ok_def Run_accepted_def on_conn_def http_read_def case_prod_unfold HttpServer_Stop_def
      HttpServer_SetReadTimeout_def Let_def split: if_splits)

lemma http_exec_run:
  "http_exec ll es w = Some w' \<Longrightarrow> run_ok bind listen w \<Longrightarrow>
   length (hw_conns w') = length (hw_conns w) + length (filter accepted es) \<and> run_ok bind listen w'"
  by (induction es arbitrary: w) (fastforce simp: bind_eq_Some_conv dest!: http_step_run [of _ _ _ _ bind listen])+

text \<open>What a connection has written, also when it waits for its last write.\<close>

definition connection_ok :: "'p connection \<Rightarrow> bool" where
  "connection_ok cx \<longleftrightarrow> conn_ok (cx_log cx) \<or> cx_phase cx = Answering False \<and> conn_ok ((cx_log cx)\<lparr>cn_closed := True\<rparr>)"

lemma connection_inv_ok: "connection_inv cx \<Longrightarrow> connection_ok cx"
  by (auto simp: connection_inv_def connection_ok_def conn_running_ok split: conn_phase.splits bool.splits)

lemma connection_ok_writes: "connection_ok cx \<Longrightarrow> set (conn_answers (cx_log cx)) \<subseteq> set (cn_writes (cx_log cx))"
proof -
  have "conn_answers (lg\<lparr>cn_closed := True\<rparr>) = conn_answers lg" for lg by (simp add: conn_answers_def)
  then show "connection_ok cx \<Longrightarrow> ?thesis" unfolding connection_ok_def conn_ok_def by fastforce
qed

subsection \<open>The requests of a client\<close>

text \<open>
  What a client's bytes mean, from the pieces its reads returned: a parser of its own for each request, whose
  llhttp was reset after the request before.  What a piece holds behind the end of a request goes to the parser of
  that request, and the next one starts with the next piece.  The sequence ends with an empty piece, an error or
  a request that does not keep the connection alive.
\<close>

definition fresh_parser :: "'p llhttp \<Rightarrow> 'p \<Rightarrow> 'p HttpParser" where
  "fresh_parser ll pp = (HttpParser_init ll)\<lparr>hp_parser := pp\<rparr>"

fun requests_of :: "'p llhttp \<Rightarrow> 'p HttpParser \<Rightarrow> string list \<Rightarrow> HttpRequest list" where
  "requests_of ll p [] = []"
| "requests_of ll p (d # ds) =
    (let (complete, p') = HttpParser_Parse ll d p; rq = HttpParser_GetRequest ll p' in
     if d = [] \<or> hp_error p' then []
     else if \<not> complete then requests_of ll p' ds
     else rq # (if HttpRequest_ShouldKeepAlive rq then requests_of ll (fresh_parser ll (ll_reset ll (hp_parser p'))) ds
                else []))"

fun pieces :: "nat \<Rightarrow> http_event list \<Rightarrow> string list" where
  "pieces i [] = []"
| "pieces i (HRead j d # es) = (if j = i then [d] else []) @ pieces i es"
| "pieces i (_ # es) = pieces i es"

lemma pieces_append [simp]: "pieces i (es @ es') = pieces i es @ pieces i es'"
  by (induction i es rule: pieces.induct) simp_all

lemma HttpParser_Reset_fresh: "HttpParser_Reset ll p = fresh_parser ll (ll_reset ll (hp_parser p))"
  by (simp add: fresh_parser_def HttpParser_Reset_def HttpParser_init_def)

text \<open>The requests of a connection so far, and those that any further pieces would make.\<close>

definition requests_ok :: "'p llhttp \<Rightarrow> string list \<Rightarrow> 'p connection \<Rightarrow> bool" where
  "requests_ok ll ds cx \<longleftrightarrow>
    (let rqs = map fst (cn_exchanges (cx_log cx));
         all = (\<lambda>ds'. requests_of ll (HttpParser_init ll) (ds @ ds')) in
     case cx_phase cx of
       Spawned \<Rightarrow> ds = [] \<and> rqs = []
     | Answering True \<Rightarrow> \<forall>ds'. all ds' = rqs @ requests_of ll (fresh_parser ll (ll_reset ll (hp_parser (cx_parser cx)))) ds'
     | Answering False \<Rightarrow> all [] = rqs
     | Ended \<Rightarrow> all [] = rqs
     | _ \<Rightarrow> \<forall>ds'. all ds' = rqs @ requests_of ll (cx_parser cx) ds')"

lemma requests_ok_now: "requests_ok ll ds cx \<Longrightarrow> requests_of ll (HttpParser_init ll) ds = map fst (cn_exchanges (cx_log cx))"
  by (auto simp: requests_ok_def Let_def dest: spec [of _ "[]"] split: conn_phase.splits bool.splits)

lemma requests_ok_start: "requests_ok ll ds cx \<Longrightarrow> cx_phase cx = Spawned \<Longrightarrow> requests_ok ll ds (HandleConnection_start ll sv now cx)"
  by (simp add: requests_ok_def HandleConnection_start_def)

lemma requests_ok_check: "requests_ok ll ds cx \<Longrightarrow> cx_phase cx = Checking \<Longrightarrow> requests_ok ll ds (HandleConnection_check is_open now cx)"
  using requests_ok_now [of ll ds cx]
  by (simp add: requests_ok_def HandleConnection_check_def connection_close_def connection_reject_def)

lemma requests_ok_written: "requests_ok ll ds cx \<Longrightarrow> cx_phase cx = Answering b \<Longrightarrow> requests_ok ll ds (HandleConnection_written ll sv now b cx)"
  using requests_ok_now [of ll ds cx]
  by (cases b) (simp_all add: requests_ok_def HandleConnection_written_def connection_close_def HttpParser_Reset_fresh)

lemma requests_ok_read:
  assumes ok: "requests_ok ll ds cx" "cx_phase cx = Reading"
    and eq: "HandleConnection_read ll sv d st cx = (cx', st', xs)"
  shows "requests_ok ll (ds @ [d]) cx'"
proof -
  obtain complete p1 where parse: "HttpParser_Parse ll d (cx_parser cx) = (complete, p1)"
    by (cases "HttpParser_Parse ll d (cx_parser cx)")
  let ?rq = "HttpParser_GetRequest ll p1"
  obtain rs st1 where rs: "HttpServer_respond sv ?rq st = (rs, st1)" by (cases "HttpServer_respond sv ?rq st")
  have all: "requests_of ll (HttpParser_init ll) (ds @ d # ds') =
      map fst (cn_exchanges (cx_log cx)) @ requests_of ll (cx_parser cx) (d # ds')" for ds'
    using ok by (simp add: requests_ok_def)
  show ?thesis
    using eq all
    by (auto simp: HandleConnection_read_def parse rs requests_ok_def connection_close_def connection_reject_def
        HttpParser_HasError_def exchange_def Let_def split: if_splits bool.splits)
qed

definition requests_inv :: "'p llhttp \<Rightarrow> http_event list \<Rightarrow> ('h, 'p) http_world \<Rightarrow> bool" where
  "requests_inv ll es w \<longleftrightarrow>
    (\<forall>i. if i < length (hw_conns w) then requests_ok ll (pieces i es) (hw_conns w ! i) else pieces i es = [])"

lemma requests_inv_on_conn:
  assumes "requests_inv ll es w" and "i < length (hw_conns w)" and "\<And>j. pieces j [e] = []"
    and "requests_ok ll (pieces i es) (hw_conns w ! i) \<Longrightarrow> requests_ok ll (pieces i es) (f (hw_conns w ! i))"
  shows "requests_inv ll (es @ [e]) (on_conn i f w)"
  using assms by (auto simp: requests_inv_def on_conn_def nth_list_update)

lemma requests_inv_step:
  assumes inv: "requests_inv ll es w" and step: "http_step ll e w = Some w'"
  shows "requests_inv ll (es @ [e]) w'"
proof (cases e)
  case (HAccept stream)
  have "requests_ok ll [] (connection_spawned ll)"
    by (simp add: requests_ok_def connection_spawned_def conn_log_init_def)
  moreover have beyond: "pieces j es = []" if "length (hw_conns w) \<le> j" for j
    using inv that by (simp add: requests_inv_def not_less [symmetric])
  ultimately show ?thesis
    using HAccept inv step by (auto simp: beyond requests_inv_def Run_accepted_def nth_append less_Suc_eq split: if_splits)
next
  case (HRead i d)
  then have i: "i < length (hw_conns w)" "cx_phase (hw_conns w ! i) = Reading" and w': "w' = http_read ll i d w"
    using step by (auto simp: in_phase_def split: if_splits)
  obtain cx st xs where eq: "HandleConnection_read ll (hw_server w) d (hw_app w) (hw_conns w ! i) = (cx, st, xs)"
    by (cases "HandleConnection_read ll (hw_server w) d (hw_app w) (hw_conns w ! i)")
  have "requests_ok ll (pieces i es) (hw_conns w ! i)" using inv i by (simp add: requests_inv_def)
  from requests_ok_read [OF this i(2) eq] inv i HRead show ?thesis
    by (auto simp: w' requests_inv_def http_read_def eq nth_list_update)
next
  case (HStart i now)
  with step show ?thesis
    by (auto intro!: requests_inv_on_conn [OF inv] requests_ok_start simp: in_phase_def split: if_splits)
next
  case (HCheck i o' now)
  with step show ?thesis
    by (auto intro!: requests_inv_on_conn [OF inv] requests_ok_check simp: in_phase_def split: if_splits)
next
  case (HWritten i now)
  with step show ?thesis
    by (auto intro!: requests_inv_on_conn [OF inv] requests_ok_written simp: in_phase_def split: if_splits)
qed (use inv step in \<open>auto simp: requests_inv_def\<close>)

lemma requests_inv_exec: "http_exec ll es w = Some w' \<Longrightarrow> requests_inv ll past w \<Longrightarrow> requests_inv ll (past @ es) w'"
proof (induction es arbitrary: w past)
  case (Cons e es)
  then obtain w1 where "http_step ll e w = Some w1" "http_exec ll es w1 = Some w'" by (auto simp: bind_eq_Some_conv)
  with Cons.IH [of w1 "past @ [e]"] requests_inv_step [OF Cons.prems(2)] show ?case by simp
qed simp

text \<open>
  Property C16 (the server answers all its connections).  However the connections' reads and writes,
  the accepts and calls of \<open>Stop\<close> and \<open>SetReadTimeout\<close> interleave: one connection is spawned per accepted
  stream; the requests of all connections go through the one handler one after the other, each
  call seeing the state the one before left; the requests handled for a connection are exactly those its own reads
  make, a request being what a parser started for it assembles from the pieces since the request before (so what
  comes in one read behind the end of a request is not a request of its own); their responses and
  nothing else are written on it, in order, with at most one error response after them; and \<open>Run\<close> returns the
  error of \<open>Bind\<close> or \<open>Listen\<close>, serving nobody, or 0 and only after a stop.
\<close>

theorem server_answers_all:
  assumes "http_exec ll es (Run_start bind listen sv st) = Some w"
  shows "respond_all sv (map (fst \<circ> snd) (hw_history w)) st = (map (snd \<circ> snd) (hw_history w), hw_app w) \<and>
    (\<forall>i < length (hw_conns w). map fst (exchanges_of i w) = requests_of ll (HttpParser_init ll) (pieces i es) \<and>
       cn_exchanges (cx_log (hw_conns w ! i)) = exchanges_of i w \<and> connection_ok (hw_conns w ! i)) \<and>
    (\<forall>x \<in> set (hw_history w). fst x < length (hw_conns w)) \<and>
    length (hw_conns w) = length (filter accepted es) \<and> run_ok bind listen w"
proof -
  have inv: "http_inv sv st w" by (rule http_exec_inv [OF http_inv_start assms])
  have "requests_inv ll [] (Run_start bind listen sv st)" by (simp add: requests_inv_def Run_start_def)
  from requests_inv_exec [OF assms this]
  have reqs: "map fst (cn_exchanges (cx_log (hw_conns w ! i))) = requests_of ll (HttpParser_init ll) (pieces i es)"
    if "i < length (hw_conns w)" for i
    using that requests_ok_now [of ll "pieces i es" "hw_conns w ! i"] by (simp add: requests_inv_def)
  have "run_ok bind listen (Run_start bind listen sv st)" by (simp add: run_ok_def Run_start_def)
  from http_exec_run [OF assms this] have "length (hw_conns w) = length (filter accepted es) \<and> run_ok bind listen w"
    by (simp add: Run_start_def)
  with inv reqs show ?thesis by (auto simp: http_inv_def connection_inv_ok)
qed

text \<open>
  Well-formed states, whether or not they are reachable: of each connection, what the parser has collected of
  the request satisfies \<open>parser_inv\<close>; what was written fits its phase and the exchanges; every
  handled request is within the limits and belongs to a connection.
\<close>

definition well_formed :: "('h, 'p) http_world \<Rightarrow> bool" where
  "well_formed w \<longleftrightarrow> (\<forall>cx \<in> set (hw_conns w). connection_inv cx) \<and>
     (\<forall>(i, rq, rs) \<in> set (hw_history w). i < length (hw_conns w) \<and> request_bounded rq)"

lemma well_formed_on_conn:
  "well_formed w \<Longrightarrow> connection_inv (f (hw_conns w ! i)) \<Longrightarrow> well_formed (on_conn i f w)"
  by (auto simp: well_formed_def on_conn_def dest!: set_update_subset_insert [THEN subsetD])

lemma read_bounded:
  assumes "connection_inv cx" and "HandleConnection_read ll sv data st cx = (cx', st', xs)"
  shows "\<forall>(rq, rs) \<in> set xs. request_bounded rq"
proof -
  obtain complete p1 where parse: "HttpParser_Parse ll data (cx_parser cx) = (complete, p1)"
    by (cases "HttpParser_Parse ll data (cx_parser cx)")
  have "parser_inv p1" by (rule Parse_inv(1) [OF _ parse]) (use assms(1) in \<open>simp add: connection_inv_def\<close>)
  with GetRequest_bounded [OF this, of ll] assms(2) show ?thesis
    by (auto simp: HandleConnection_read_def parse HttpParser_HasError_def Let_def split: if_splits prod.splits)
qed

lemma well_formed_read:
  assumes wf: "well_formed w" and ph: "in_phase i Reading w"
  shows "well_formed (http_read ll i data w)"
proof -
  obtain cx st xs where eq: "HandleConnection_read ll (hw_server w) data (hw_app w) (hw_conns w ! i) = (cx, st, xs)"
    by (cases "HandleConnection_read ll (hw_server w) data (hw_app w) (hw_conns w ! i)")
  have i: "i < length (hw_conns w)" and ci: "connection_inv (hw_conns w ! i)" "cx_phase (hw_conns w ! i) = Reading"
    using wf ph by (auto simp: well_formed_def in_phase_def)
  from connection_inv_read(1) [OF ci eq] read_bounded [OF ci(1) eq] wf i show ?thesis
    by (auto simp: well_formed_def http_read_def eq dest!: set_update_subset_insert [THEN subsetD])
qed

text \<open>
  Property C38 (the server's state stays well-formed).  The state \<open>Run\<close> starts in is well-formed, and every event
  leads from any well-formed state to a well-formed one, whatever llhttp and the handler do: in particular
  the URL and the body being collected never exceed 8192 bytes and 10 MB, and a header map has no two names that differ
  only in case.  The headers are limited after the insertion: the map may reach 101 entries, and
  the limits of 100 headers and 64 KB hold of a parser that has not failed; one that has failed may hold more
  than 64 KB.  The handler sees only requests within all limits.  The name of the header being received is not limited.
\<close>

theorem http_world_well_formed:
  "well_formed (Run_start bind listen sv st) \<and>
   (well_formed w \<longrightarrow> http_step ll e w = Some w' \<longrightarrow> well_formed w' \<and>
      (\<forall>cx \<in> set (hw_conns w'). length (rq_url (hp_request (cx_parser cx))) \<le> kMaxUrlLength \<and>
         length (rq_body (hp_request (cx_parser cx))) \<le> kMaxBodySize \<and>
         headers_sorted (rq_headers (hp_request (cx_parser cx))) \<and>
         length (rq_headers (hp_request (cx_parser cx))) \<le> Suc kMaxHeaderCount \<and>
         (\<not> hp_error (cx_parser cx) \<longrightarrow> request_bounded (hp_request (cx_parser cx)))) \<and>
      (\<forall>x \<in> set (hw_history w'). request_bounded (fst (snd x))))"
proof (intro conjI impI)
  show "well_formed (Run_start bind listen sv st)" by (simp add: well_formed_def Run_start_def)
  assume wf: "well_formed w" and step: "http_step ll e w = Some w'"
  have ci: "connection_inv (hw_conns w ! i)" if "in_phase i ph w" for i ph
    using wf that by (auto simp: well_formed_def in_phase_def)
  show wf': "well_formed w'"
  proof (cases e)
    case (HAccept stream)
    with wf step connection_inv_spawned [of ll] show ?thesis
      by (fastforce simp: well_formed_def Run_accepted_def split: if_splits)
  next
    case (HStart i now)
    with step ci show ?thesis
      by (auto intro!: well_formed_on_conn [OF wf] connection_inv_start simp: in_phase_def split: if_splits)
  next
    case (HCheck i o' now)
    with step ci show ?thesis
      by (auto intro!: well_formed_on_conn [OF wf] connection_inv_check simp: in_phase_def split: if_splits)
  next
    case (HWritten i now)
    with step ci show ?thesis
      by (auto intro!: well_formed_on_conn [OF wf] connection_inv_written simp: in_phase_def split: if_splits)
  qed (use wf step in \<open>auto simp: well_formed_read split: if_splits\<close>,
      auto simp: well_formed_def HttpServer_Stop_def HttpServer_SetReadTimeout_def)
  then show "\<forall>cx \<in> set (hw_conns w'). length (rq_url (hp_request (cx_parser cx))) \<le> kMaxUrlLength \<and>
         length (rq_body (hp_request (cx_parser cx))) \<le> kMaxBodySize \<and>
         headers_sorted (rq_headers (hp_request (cx_parser cx))) \<and>
         length (rq_headers (hp_request (cx_parser cx))) \<le> Suc kMaxHeaderCount \<and>
         (\<not> hp_error (cx_parser cx) \<longrightarrow> request_bounded (hp_request (cx_parser cx)))"
    by (auto simp: well_formed_def connection_inv_def parser_inv_def)
  from wf' show "\<forall>x \<in> set (hw_history w'). request_bounded (fst (snd x))"
    by (auto simp: well_formed_def)
qed

text \<open>
  A connection that was rejected or is closed stays so: it writes nothing more and its requests do
  not reach the handler.
\<close>

definition finishing :: "nat \<Rightarrow> ('h, 'p) http_world \<Rightarrow> bool" where
  "finishing i w \<longleftrightarrow> in_phase i (Answering False) w \<or> in_phase i Ended w"

lemma finishing_step:
  assumes "finishing i w" and "http_step ll e w = Some w'"
  shows "finishing i w' \<and> cn_writes (cx_log (hw_conns w' ! i)) = cn_writes (cx_log (hw_conns w ! i)) \<and>
    exchanges_of i w' = exchanges_of i w"
  using assms
  by (cases e)
    (auto simp: finishing_def in_phase_def Run_accepted_def on_conn_def http_read_def nth_list_update nth_append
      HandleConnection_written_def connection_close_def HttpServer_Stop_def HttpServer_SetReadTimeout_def
      exchanges_of_def filter_empty_conv Let_def case_prod_unfold split: if_splits)

lemma finishing_exec:
  "http_exec ll es w = Some w' \<Longrightarrow> finishing i w \<Longrightarrow>
   finishing i w' \<and> cn_writes (cx_log (hw_conns w' ! i)) = cn_writes (cx_log (hw_conns w ! i)) \<and>
   exchanges_of i w' = exchanges_of i w"
  by (induction es arbitrary: w) (fastforce simp: bind_eq_Some_conv dest: finishing_step)+

text \<open>
  Property C17 (a malformed request is rejected).  When the bytes of a read make the parser fail, by an
  error of llhttp or by exceeding a limit: the handler is not called and its state is untouched;
  exactly one more response is written, the 400 with the parser's message; the other connections are as
  before.  Whatever happens afterwards, this connection writes nothing more, no request of it
  reaches the handler, and as soon as the write is done it is closed.
\<close>

theorem bad_request_rejected:
  assumes "http_exec ll es (Run_start bind listen sv st) = Some w" and "http_step ll (HRead i data) w = Some w1"
    and "data \<noteq> []" and "HttpParser_Parse ll data (cx_parser (hw_conns w ! i)) = (complete, parser)"
    and "HttpParser_HasError parser" and "http_exec ll es' w1 = Some w2"
  shows "hw_app w1 = hw_app w \<and> hw_history w1 = hw_history w \<and> (\<forall>j. j \<noteq> i \<longrightarrow> hw_conns w1 ! j = hw_conns w ! j) \<and>
    cn_writes (cx_log (hw_conns w2 ! i)) = conn_answers (cx_log (hw_conns w ! i)) @ [rejection (HttpParser_GetError parser)] \<and>
    exchanges_of i w2 = exchanges_of i w \<and>
    (in_phase i Ended w2 \<or> (\<forall>now. \<exists>w3. http_step ll (HWritten i now) w2 = Some w3 \<and> in_phase i Ended w3))"
proof -
  have i: "i < length (hw_conns w)" "cx_phase (hw_conns w ! i) = Reading" using assms(2) by (auto simp: in_phase_def split: if_splits)
  have "http_inv sv st w" by (rule http_exec_inv [OF http_inv_start assms(1)])
  with i have run: "conn_running (cx_log (hw_conns w ! i))" by (auto simp: http_inv_def connection_inv_def)
  have w1: "w1 = w\<lparr>hw_conns := (hw_conns w)[i := connection_reject (HttpParser_GetError parser) ((hw_conns w ! i)\<lparr>cx_parser := parser\<rparr>)]\<rparr>"
    using assms(2-5) by (auto simp: http_read_def HandleConnection_read_def split: if_splits)
  then have "finishing i w1"
    and wr: "cn_writes (cx_log (hw_conns w1 ! i)) = conn_answers (cx_log (hw_conns w ! i)) @ [rejection (HttpParser_GetError parser)]"
    using i run by (simp_all add: finishing_def in_phase_def connection_reject_def conn_running_def rejection_def)
  with finishing_exec [OF assms(6), of i] have w2: "finishing i w2" "exchanges_of i w2 = exchanges_of i w1"
    "cn_writes (cx_log (hw_conns w2 ! i)) = cn_writes (cx_log (hw_conns w1 ! i))" by auto
  have "\<exists>w3. http_step ll (HWritten i now) w2 = Some w3 \<and> in_phase i Ended w3" if "in_phase i (Answering False) w2" for now
    using that by (auto simp: in_phase_def on_conn_def HandleConnection_written_def connection_close_def)
  with w1 w2 wr show ?thesis by (auto simp: finishing_def exchanges_of_def)
qed

text \<open>
  The read timeout does not end a silent connection: the deadline is looked at only before a \<open>Read\<close>, so
  a connection whose peer sends nothing stays in \<open>Read\<close> whatever else happens and whatever the
  clock shows.
\<close>

lemma silent_connection_stays:
  "http_exec ll es w = Some w' \<Longrightarrow> in_phase i Reading w \<Longrightarrow> (\<forall>d. HRead i d \<notin> set es) \<Longrightarrow>
   in_phase i Reading w' \<and> hw_conns w' ! i = hw_conns w ! i"
proof (induction es arbitrary: w)
  case (Cons e es)
  from Cons.prems(1) obtain w1 where w1: "http_step ll e w = Some w1" "http_exec ll es w1 = Some w'"
    by (auto simp: bind_eq_Some_conv)
  have "in_phase i Reading w1 \<and> hw_conns w1 ! i = hw_conns w ! i"
    using w1(1) Cons.prems(2,3)
    by (cases e) (auto simp: in_phase_def Run_accepted_def on_conn_def http_read_def nth_list_update nth_append
        Let_def case_prod_unfold split: if_splits)
  with Cons.IH [OF w1(2)] Cons.prems(3) show ?case by auto
qed simp

text \<open>
  \<open>Stop\<close> does not stop the accept loop: it waits for one more connection, which is still served.
\<close>

lemma stop_serves_one_more:
  assumes "hw_run w = Accepting"
  shows "\<exists>w1. http_step ll HStop w = Some w1 \<and> hw_run w1 = Accepting \<and>
    (\<exists>w2. http_step ll (HAccept True) w1 = Some w2 \<and> hw_run w2 = Returned 0 \<and>
      hw_conns w2 = hw_conns w @ [connection_spawned ll])"
  using assms by (simp add: HttpServer_Stop_def Run_accepted_def)

subsection \<open>Witnesses\<close>

text \<open>A handler that counts, and two connections whose reads interleave; one of them makes a second request.\<close>

definition counting_server :: "nat HttpServer" where
  "counting_server = HttpServer_OnRequest (\<lambda>rq n. (HttpResponse_Json (rq_path rq @ nat_to_string n), Suc n)) HttpServer_init"

definition two_connections :: "http_event list" where
  "two_connections = [HAccept True, HAccept True, HStart 0 0, HStart 1 0, HCheck 0 True 1, HCheck 1 True 1,
     HRead 1 ''b'', HRead 0 ''a'']"

definition second_request :: "http_event list" where
  "second_request = [HWritten 1 2, HCheck 1 True 3, HRead 1 ''c'']"

definition two_requests :: "llhttp_event list list llhttp" where
  "two_requests = script_ll [[EvUrl ''/x'', EvMessageComplete], [EvUrl ''/y'', EvMessageComplete]]"

lemmas http_run_defs =
  Run_start_def counting_server_def HttpServer_init_def HttpServer_OnRequest_def
  Run_accepted_def in_phase_def on_conn_def connection_spawned_def HandleConnection_start_def HandleConnection_check_def
  HandleConnection_written_def http_read_def HandleConnection_read_def kDefaultReadTimeout_def two_requests_def script_ll_def
  HttpParser_Parse_def HttpParser_defs HttpRequest_init_def kMaxUrlLength_def HttpParser_GetRequest_def HttpServer_respond_def
  Let_def HttpResponse_defs nth_list_update nat_to_string.simps digit_def char_of_def bit_0

lemma two_connections_run:
  "\<exists>w. http_exec two_requests two_connections (Run_start 0 0 counting_server 0) = Some w \<and>
     hs_handler (hw_server w) = hs_handler counting_server \<and> hw_app w = 2 \<and> length (hw_conns w) = 2 \<and>
     cx_phase (hw_conns w ! 1) = Answering True \<and>
     hp_parser (cx_parser (hw_conns w ! 1)) = [[EvUrl ''/y'', EvMessageComplete]] \<and>
     hs_read_timeout (hw_server w) = 30000 \<and>
     map (\<lambda>(i, rq, rs). (i, rq_path rq, rs_body rs)) (hw_history w) = [(1, ''/x'', ''/x0''), (0, ''/x'', ''/x1'')]"
  by (simp add: two_connections_def http_run_defs HttpRequest_ShouldKeepAlive_def HttpRequest_GetHeader_def to_lower_def)

lemma second_request_run:
  assumes "hs_handler (hw_server w) = hs_handler counting_server" "hw_app w = 2" "length (hw_conns w) = 2"
    and "cx_phase (hw_conns w ! 1) = Answering True"
    and "hp_parser (cx_parser (hw_conns w ! 1)) = [[EvUrl ''/y'', EvMessageComplete]]"
    and "hs_read_timeout (hw_server w) = 30000"
  shows "\<exists>w' rq rs. http_exec two_requests second_request w = Some w' \<and>
     hw_history w' = hw_history w @ [(1, rq, rs)] \<and> rq_path rq = ''/y'' \<and> rs_body rs = ''/y2''"
  using assms
  by (simp add: second_request_def http_run_defs HttpRequest_ShouldKeepAlive_def)

lemma http_exec_append: "http_exec ll (es @ es') w = Option.bind (http_exec ll es w) (http_exec ll es')"
  by (induction es arbitrary: w) (auto simp: bind_eq_Some_conv split: bind_split)

lemma three_requests_run:
  "\<exists>w. http_exec two_requests (two_connections @ second_request) (Run_start 0 0 counting_server 0) = Some w \<and>
     map (\<lambda>(i, rq, rs). (i, rq_path rq, rs_body rs)) (hw_history w) =
       [(1, ''/x'', ''/x0''), (0, ''/x'', ''/x1''), (1, ''/y'', ''/y2'')]"
  using two_connections_run second_request_run by (fastforce simp: http_exec_append)

theorem server_answers_all_witness:
  "\<exists>w. http_exec two_requests (two_connections @ second_request) (Run_start 0 0 counting_server 0) = Some w \<and>
     length (hw_conns w) = 2 \<and> connection_ok (hw_conns w ! 1) \<and>
     map rq_path (requests_of two_requests (HttpParser_init two_requests) [''b'', ''c'']) = [''/x'', ''/y''] \<and>
     map (\<lambda>(i, rq, rs). (i, rq_path rq, rs_body rs)) (hw_history w) =
       [(1, ''/x'', ''/x0''), (0, ''/x'', ''/x1''), (1, ''/y'', ''/y2'')]"
proof -
  obtain w where
    w: "http_exec two_requests (two_connections @ second_request) (Run_start 0 0 counting_server 0) = Some w"
    and h: "map (\<lambda>(i, rq, rs). (i, rq_path rq, rs_body rs)) (hw_history w) =
        [(1, ''/x'', ''/x0''), (0, ''/x'', ''/x1''), (1, ''/y'', ''/y2'')]"
    using three_requests_run by (elim exE conjE)
  have two: "length (filter accepted (two_connections @ second_request)) = 2"
    and ps: "pieces 1 (two_connections @ second_request) = [''b'', ''c'']"
    by (simp_all add: two_connections_def second_request_def)
  note ok = server_answers_all [OF w, unfolded two]
  then have conns: "length (hw_conns w) = 2" by blast
  with ok have one: "connection_ok (hw_conns w ! 1)"
    "map fst (exchanges_of 1 w) = requests_of two_requests (HttpParser_init two_requests) [''b'', ''c'']"
    by (simp_all add: ps [symmetric] del: pieces_append)
  have "map rq_path (map fst (exchanges_of 1 w)) =
      map (fst \<circ> snd) (filter (\<lambda>x. fst x = 1) (map (\<lambda>(i, rq, rs). (i, rq_path rq, rs_body rs)) (hw_history w)))"
    by (simp add: exchanges_of_def filter_map comp_def case_prod_unfold)
  then have "map rq_path (requests_of two_requests (HttpParser_init two_requests) [''b'', ''c'']) = [''/x'', ''/y'']"
    unfolding one(2) h by simp
  with w h conns one(1) show ?thesis by (intro exI [of _ w] conjI)
qed

theorem bad_request_rejected_witness:
  "\<exists>w w1. http_exec (two_requests\<lparr>ll_execute := \<lambda>s d. ([EvUrl ''/''], 9, s)\<rparr>)
       [HAccept True, HStart 0 0, HCheck 0 True 1] (Run_start 0 0 counting_server 0) = Some w \<and>
     http_step (two_requests\<lparr>ll_execute := \<lambda>s d. ([EvUrl ''/''], 9, s)\<rparr>) (HRead 0 ''#'') w = Some w1 \<and>
     hw_history w1 = [] \<and> cn_writes (cx_log (hw_conns w1 ! 0)) = [rejection ''HPE'']"
proof -
  let ?ll = "two_requests\<lparr>ll_execute := \<lambda>s d. ([EvUrl ''/''], 9, s)\<rparr>"
  let ?p = "(HttpParser_init ?ll)\<lparr>hp_request := HttpRequest_init\<lparr>rq_url := ''/''\<rparr>, hp_error_message := ''HPE'', hp_error := True\<rparr>"
  define cx where "cx = (connection_spawned ?ll)\<lparr>cx_phase := Reading, cx_deadline := 30000\<rparr>"
  define w where "w = (Run_start 0 0 counting_server 0)\<lparr>hw_conns := [cx]\<rparr>"
  have w: "http_exec ?ll [HAccept True, HStart 0 0, HCheck 0 True 1] (Run_start 0 0 counting_server 0) = Some w"
    by (simp add: w_def cx_def Run_start_def counting_server_def HttpServer_init_def HttpServer_OnRequest_def
        Run_accepted_def in_phase_def on_conn_def connection_spawned_def HandleConnection_start_def
        HandleConnection_check_def kDefaultReadTimeout_def)
  have parse: "HttpParser_Parse ?ll ''#'' (cx_parser (hw_conns w ! 0)) = (False, ?p)"
    by (simp add: w_def cx_def connection_spawned_def HttpParser_Parse_def HttpParser_defs HttpRequest_init_def
        kMaxUrlLength_def two_requests_def script_ll_def)
  obtain w1 where w1: "http_step ?ll (HRead 0 ''#'') w = Some w1" by (simp add: in_phase_def w_def cx_def)
  have empty: "hw_history w = []" "conn_answers (cx_log (hw_conns w ! 0)) = []"
    by (simp_all add: w_def cx_def Run_start_def connection_spawned_def conn_log_init_def conn_answers_def)
  have err: "HttpParser_HasError ?p" "HttpParser_GetError ?p = ''HPE''" by (simp_all add: HttpParser_defs)
  from bad_request_rejected [OF w w1 _ parse err(1), of "[]" w1] show ?thesis
    using w w1 empty err(2) by (intro exI [of _ w] exI [of _ w1] conjI) simp_all
qed

theorem http_world_well_formed_witness:
  "\<exists>w'. http_step two_requests (HAccept True) (Run_start 0 0 counting_server 0) = Some w' \<and>
     well_formed w' \<and> length (hw_conns w') = 1"
proof -
  let ?w = "Run_start 0 0 counting_server 0 :: (nat, llhttp_event list list) http_world"
  obtain w' where w': "http_step two_requests (HAccept True) ?w = Some w'" "length (hw_conns w') = 1"
    by (simp add: Run_start_def Run_accepted_def counting_server_def HttpServer_OnRequest_def HttpServer_init_def)
  have "well_formed ?w" by (simp add: well_formed_def Run_start_def)
  with http_world_well_formed [where w = ?w, THEN conjunct2] w' show ?thesis by blast
qed

end
