(* ===== verification/Frame_Pool.thy ===== *)
theory Frame_Pool
  imports Prelude
begin

text \<open>
  \<open>FramePool\<close> of \<open>core/frame_pool.hpp\<close>: the per-thread allocator of coroutine frames.  The
  argument \<open>asan\<close> is \<open>HOTCOCO_ASAN_ACTIVE\<close>: in a build with AddressSanitizer the pools are
  bypassed.  \<open>::operator new\<close> and \<open>::operator delete\<close> are the
  system's: the heap is the partial map from the addresses of live blocks to their sizes,
  and the address the system would return is an argument of the operations.
\<close>

subsection \<open>State and operations\<close>

record Stats =
  st_allocations :: size_t
  st_deallocations :: size_t
  st_pool_hits :: size_t
  st_pool_misses :: size_t
  st_oversized :: size_t

definition Stats_init :: Stats where
  "Stats_init = \<lparr>st_allocations = 0, st_deallocations = 0, st_pool_hits = 0, st_pool_misses = 0, st_oversized = 0\<rparr>"

record FramePool =
  fp_buckets :: "64 word list list"
  fp_stats :: Stats

definition kNumBuckets :: nat where "kNumBuckets = 6"
definition kMaxPooledPerBucket :: nat where "kMaxPooledPerBucket = 64"

definition FramePool_init :: FramePool where
  "FramePool_init = \<lparr>fp_buckets = replicate kNumBuckets [], fp_stats = Stats_init\<rparr>"

definition GetBucket :: "size_t \<Rightarrow> int" where
  "GetBucket sz =
    (if sz \<le> 64 then 0 else if sz \<le> 128 then 1 else if sz \<le> 256 then 2
     else if sz \<le> 512 then 3 else if sz \<le> 1024 then 4 else if sz \<le> 2048 then 5
     else -1)"

definition GetBucketSize :: "int \<Rightarrow> size_t" where
  "GetBucketSize bucket = [64, 128, 256, 512, 1024, 2048] ! nat bucket"

type_synonym heap = "64 word \<rightharpoonup> size_t"

definition FramePool_DoAllocate ::
  "64 word \<Rightarrow> size_t \<Rightarrow> FramePool \<Rightarrow> heap \<Rightarrow> 64 word \<times> FramePool \<times> heap" where
  "FramePool_DoAllocate fresh sz p hp =
    (let st = fp_stats p; st = st\<lparr>st_allocations := st_allocations st + 1\<rparr>;
         bucket = GetBucket sz
     in if bucket < 0
        then (fresh, p\<lparr>fp_stats := st\<lparr>st_oversized := st_oversized st + 1\<rparr>\<rparr>, hp(fresh \<mapsto> sz))
        else
          let pool = fp_buckets p ! nat bucket in
          if pool \<noteq> []
          then (last pool,
                p\<lparr>fp_buckets := (fp_buckets p)[nat bucket := butlast pool],
                  fp_stats := st\<lparr>st_pool_hits := st_pool_hits st + 1\<rparr>\<rparr>, hp)
          else (fresh, p\<lparr>fp_stats := st\<lparr>st_pool_misses := st_pool_misses st + 1\<rparr>\<rparr>,
                hp(fresh \<mapsto> GetBucketSize bucket)))"

definition FramePool_DoDeallocate ::
  "64 word \<Rightarrow> size_t \<Rightarrow> FramePool \<Rightarrow> heap \<Rightarrow> FramePool \<times> heap" where
  "FramePool_DoDeallocate ptr sz p hp =
    (let st = fp_stats p; p = p\<lparr>fp_stats := st\<lparr>st_deallocations := st_deallocations st + 1\<rparr>\<rparr> in
     if ptr = 0 then (p, hp)
     else
       let bucket = GetBucket sz in
       if bucket < 0 then (p, hp(ptr := None))
       else
         let pool = fp_buckets p ! nat bucket in
         if length pool < kMaxPooledPerBucket
         then (p\<lparr>fp_buckets := (fp_buckets p)[nat bucket := pool @ [ptr]]\<rparr>, hp)
         else (p, hp(ptr := None)))"

definition FramePool_DoClear :: "FramePool \<Rightarrow> heap \<Rightarrow> FramePool \<times> heap" where
  "FramePool_DoClear p hp =
    (p\<lparr>fp_buckets := map (\<lambda>_. []) (fp_buckets p)\<rparr>,
     fold (\<lambda>pool hp. fold (\<lambda>ptr hp. hp(ptr := None)) pool hp) (fp_buckets p) hp)"

definition FramePool_GetStats :: "FramePool \<Rightarrow> Stats" where
  "FramePool_GetStats p = fp_stats p"

definition FramePool_ResetStats :: "FramePool \<Rightarrow> FramePool" where
  "FramePool_ResetStats p = p\<lparr>fp_stats := Stats_init\<rparr>"

subsection \<open>Buckets\<close>

lemma GetBucket_range: "GetBucket sz < 0 \<or> nat (GetBucket sz) < kNumBuckets"
  by (simp add: GetBucket_def kNumBuckets_def)

lemma GetBucket_oversized: "GetBucket sz < 0 \<longleftrightarrow> 2048 < sz"
proof -
  have "2048 < sz \<Longrightarrow> \<not> sz \<le> b" if "b \<le> 2048" for b :: size_t
    using that by (meson leD order_trans)
  from this [of 64] this [of 128] this [of 256] this [of 512] this [of 1024] show ?thesis
    by (auto simp: GetBucket_def not_le)
qed

lemma GetBucket_fits: "0 \<le> GetBucket sz \<Longrightarrow> sz \<le> GetBucketSize (GetBucket sz)"
  by (auto simp: GetBucket_def GetBucketSize_def split: if_splits)

subsection \<open>Programs using the pools of several threads\<close>

text \<open>
  \<open>pw_held\<close> are the frames the program holds, with the size they were requested with.  A
  frame may be freed on another thread than the one that allocated it; the compiler passes
  the frame's size to both calls.
\<close>

record pool_world =
  pw_heap :: heap
  pw_pools :: "nat \<Rightarrow> FramePool"
  pw_held :: "64 word \<rightharpoonup> size_t"

definition FramePool_Instance :: "nat \<Rightarrow> pool_world \<Rightarrow> FramePool" where
  "FramePool_Instance t w = pw_pools w t"

definition set_instance :: "nat \<Rightarrow> FramePool \<times> heap \<Rightarrow> pool_world \<Rightarrow> pool_world" where
  "set_instance t r w = w\<lparr>pw_heap := snd r, pw_pools := (pw_pools w)(t := fst r)\<rparr>"

definition FramePool_Allocate :: "bool \<Rightarrow> nat \<Rightarrow> 64 word \<Rightarrow> size_t \<Rightarrow> pool_world \<Rightarrow> 64 word \<times> pool_world" where
  "FramePool_Allocate asan t fresh sz w =
    (if asan then (fresh, w\<lparr>pw_heap := (pw_heap w)(fresh \<mapsto> sz)\<rparr>)
     else let r = FramePool_DoAllocate fresh sz (FramePool_Instance t w) (pw_heap w)
          in (fst r, set_instance t (snd r) w))"

definition FramePool_Deallocate :: "bool \<Rightarrow> nat \<Rightarrow> 64 word \<Rightarrow> size_t \<Rightarrow> pool_world \<Rightarrow> pool_world" where
  "FramePool_Deallocate asan t ptr sz w =
    (if asan then w\<lparr>pw_heap := (pw_heap w)(ptr := None)\<rparr>
     else set_instance t (FramePool_DoDeallocate ptr sz (FramePool_Instance t w) (pw_heap w)) w)"

definition FramePool_Clear :: "nat \<Rightarrow> pool_world \<Rightarrow> pool_world" where
  "FramePool_Clear t w = set_instance t (FramePool_DoClear (FramePool_Instance t w) (pw_heap w)) w"

text \<open>
  The destructor runs when the thread ends; a later thread starts with a new pool.
\<close>

definition FramePool_destroy :: "nat \<Rightarrow> pool_world \<Rightarrow> pool_world" where
  "FramePool_destroy t w =
    (let w = FramePool_Clear t w in w\<lparr>pw_pools := (pw_pools w)(t := FramePool_init)\<rparr>)"

text \<open>
  What the compiler calls for the frame of a coroutine whose promise is a \<open>PooledPromise\<close>,
  on thread \<open>t\<close>; the program holds the frame in between.
\<close>

definition PooledPromise_new :: "bool \<Rightarrow> nat \<Rightarrow> 64 word \<Rightarrow> size_t \<Rightarrow> pool_world \<Rightarrow> pool_world" where
  "PooledPromise_new asan t fresh sz w =
    (let r = FramePool_Allocate asan t fresh sz w
     in (snd r)\<lparr>pw_held := (pw_held (snd r))(fst r \<mapsto> sz)\<rparr>)"

definition PooledPromise_delete :: "bool \<Rightarrow> nat \<Rightarrow> 64 word \<Rightarrow> size_t \<Rightarrow> pool_world \<Rightarrow> pool_world" where
  "PooledPromise_delete asan t ptr sz w =
    (let w = FramePool_Deallocate asan t ptr sz w in w\<lparr>pw_held := (pw_held w)(ptr := None)\<rparr>)"

definition pool_world_init :: pool_world where
  "pool_world_init = \<lparr>pw_heap = Map.empty, pw_pools = \<lambda>_. FramePool_init, pw_held = Map.empty\<rparr>"

inductive pool_reach :: "bool \<Rightarrow> pool_world \<Rightarrow> bool" for asan where
  pool_start: "pool_reach asan pool_world_init"
| pool_alloc: "pool_reach asan w \<Longrightarrow> fresh \<noteq> 0 \<Longrightarrow> fresh \<notin> dom (pw_heap w) \<Longrightarrow>
     pool_reach asan (PooledPromise_new asan t fresh sz w)"
| pool_free: "pool_reach asan w \<Longrightarrow> pw_held w ptr = Some sz \<Longrightarrow>
     pool_reach asan (PooledPromise_delete asan t ptr sz w)"
| pool_clear: "pool_reach asan w \<Longrightarrow> pool_reach asan (FramePool_Clear t w)"
| pool_reset: "pool_reach asan w \<Longrightarrow>
     pool_reach asan (w\<lparr>pw_pools := (pw_pools w)(t := FramePool_ResetStats (FramePool_Instance t w))\<rparr>)"
| pool_exit: "pool_reach asan w \<Longrightarrow> pool_reach asan (FramePool_destroy t w)"

lemmas thread_pool_defs = FramePool_Instance_def set_instance_def FramePool_Allocate_def FramePool_Deallocate_def
  FramePool_Clear_def FramePool_destroy_def PooledPromise_new_def PooledPromise_delete_def

text \<open>Bucket \<open>i\<close> of thread \<open>t\<close>.\<close>

definition slot :: "(nat \<Rightarrow> FramePool) \<Rightarrow> nat \<times> nat \<Rightarrow> 64 word list" where
  "slot pools k = (if snd k < kNumBuckets then fp_buckets (pools (fst k)) ! snd k else [])"

definition stats_ok :: "Stats \<Rightarrow> bool" where
  "stats_ok st \<longleftrightarrow> st_allocations st = st_pool_hits st + st_pool_misses st + st_oversized st"

text \<open>The size of the block behind a request.\<close>

definition block_size :: "bool \<Rightarrow> size_t \<Rightarrow> size_t" where
  "block_size asan s = (if asan \<or> GetBucket s < 0 then s else GetBucketSize (GetBucket s))"

text \<open>
  The bookkeeping, on a view \<open>f\<close> of the buckets, with the bucket index of a key and the size
  \<open>bs\<close> of the block behind a request: pooled blocks have their bucket's size,
  every live block is held or pooled, and no block is in two places.
\<close>

definition pool_sep :: "(size_t \<Rightarrow> size_t) \<Rightarrow> ('k \<Rightarrow> nat) \<Rightarrow> ('k \<Rightarrow> 64 word list) \<Rightarrow> heap \<Rightarrow> heap \<Rightarrow> bool" where
  "pool_sep bs idx f hp held \<longleftrightarrow>
     (\<forall>k. distinct (f k) \<and> length (f k) \<le> kMaxPooledPerBucket) \<and>
     (\<forall>k q. q \<in> set (f k) \<longrightarrow> q \<noteq> 0 \<and> hp q = Some (GetBucketSize (int (idx k))) \<and> held q = None) \<and>
     (\<forall>k k' q. q \<in> set (f k) \<longrightarrow> q \<in> set (f k') \<longrightarrow> k = k') \<and>
     (\<forall>q s. held q = Some s \<longrightarrow> q \<noteq> 0 \<and> hp q = Some (bs s)) \<and>
     (\<forall>q. hp q \<noteq> None \<longrightarrow> held q = None \<longrightarrow> (\<exists>k. q \<in> set (f k)))"

definition pool_inv :: "bool \<Rightarrow> pool_world \<Rightarrow> bool" where
  "pool_inv asan w \<longleftrightarrow>
     (\<forall>t. length (fp_buckets (pw_pools w t)) = kNumBuckets \<and> stats_ok (fp_stats (pw_pools w t))) \<and>
     pool_sep (block_size asan) snd (slot (pw_pools w)) (pw_heap w) (pw_held w)"

lemma slot_upd:
  assumes "length (fp_buckets (pools t)) = kNumBuckets" and "b < kNumBuckets"
    and "fp_buckets p = (fp_buckets (pools t))[b := xs]"
  shows "slot (pools(t := p)) = (slot pools)((t, b) := xs)"
  using assms by (auto simp: slot_def fun_eq_iff nth_list_update)

lemma slot_same:
  assumes "fp_buckets p = fp_buckets (pools t)"
  shows "slot (pools(t := p)) = slot pools"
  using assms by (auto simp: slot_def fun_eq_iff)

text \<open>The five changes of the bookkeeping.\<close>

lemma sep_new:
  assumes sep: "pool_sep bs idx f hp held" and fresh: "fresh \<noteq> 0" "hp fresh = None"
  shows "pool_sep bs idx f (hp(fresh \<mapsto> bs s)) (held(fresh \<mapsto> s))"
  using assms unfolding pool_sep_def by force

lemma sep_take:
  assumes sep: "pool_sep bs idx f hp held" and k: "f k = xs @ [q]" and s: "GetBucketSize (int (idx k)) = bs s"
  shows "pool_sep bs idx (f(k := xs)) hp (held(q \<mapsto> s))"
proof -
  have q: "q \<in> set (f k)" using k by simp
  have other: "q \<in> set (f k') \<longleftrightarrow> k' = k" for k' using sep q unfolding pool_sep_def by metis
  have d: "distinct (xs @ [q])" "length (xs @ [q]) \<le> kMaxPooledPerBucket" using sep k unfolding pool_sep_def by metis+
  have sub: "x \<in> set ((f(k := xs)) k') \<longleftrightarrow> x \<in> set (f k') \<and> x \<noteq> q" for x k'
    using k d other by auto
  have "distinct ((f(k := xs)) k') \<and> length ((f(k := xs)) k') \<le> kMaxPooledPerBucket" for k'
    using sep d unfolding pool_sep_def by simp
  moreover have "q \<noteq> 0" "hp q = Some (bs s)" using sep q s unfolding pool_sep_def by metis+
  ultimately show ?thesis using sep unfolding pool_sep_def sub by auto
qed

lemma sep_put:
  assumes sep: "pool_sep bs idx f hp held" and q: "held q = Some s"
    and s: "bs s = GetBucketSize (int (idx k))" and len: "length (f k) < kMaxPooledPerBucket"
  shows "pool_sep bs idx (f(k := f k @ [q])) hp (held(q := None))"
proof -
  have hq: "q \<noteq> 0" "hp q = Some (GetBucketSize (int (idx k)))" using sep q s unfolding pool_sep_def by metis+
  have other: "q \<notin> set (f k')" for k' using sep q unfolding pool_sep_def by (metis option.distinct(1))
  have sup: "x \<in> set ((f(k := f k @ [q])) k') \<longleftrightarrow> x \<in> set (f k') \<or> x = q \<and> k' = k" for x k'
    by auto
  have "distinct ((f(k := f k @ [q])) k') \<and> length ((f(k := f k @ [q])) k') \<le> kMaxPooledPerBucket" for k'
    using sep other len unfolding pool_sep_def by simp
  then show ?thesis using sep hq other unfolding pool_sep_def sup by auto
qed

lemma sep_drop:
  assumes sep: "pool_sep bs idx f hp held" and q: "held q = Some s"
  shows "pool_sep bs idx f (hp(q := None)) (held(q := None))"
proof -
  have other: "q \<notin> set (f k')" for k' using sep q unfolding pool_sep_def by (metis option.distinct(1))
  show ?thesis using sep other unfolding pool_sep_def by auto
qed

lemma sep_clear:
  assumes sep: "pool_sep bs idx f hp held"
  shows "pool_sep bs idx (\<lambda>k. if k \<in> K then [] else f k) (\<lambda>q. if \<exists>k \<in> K. q \<in> set (f k) then None else hp q) held"
proof -
  have out: "\<not> (\<exists>k \<in> K. q \<in> set (f k))" if "held q = Some s" for q s
    using sep that unfolding pool_sep_def by (metis option.distinct(1))
  have other: "\<not> (\<exists>k \<in> K. q \<in> set (f k))" if "q \<in> set (f k')" "k' \<notin> K" for q k'
    using sep that unfolding pool_sep_def by metis
  let ?f = "\<lambda>k. if k \<in> K then [] else f k"
  have mem: "q \<in> set (?f k) \<longleftrightarrow> k \<notin> K \<and> q \<in> set (f k)" for q k by simp
  let ?hp = "\<lambda>q. if \<exists>k \<in> K. q \<in> set (f k) then None else hp q"
  show ?thesis
    unfolding pool_sep_def mem
  proof (intro conjI allI impI)
    fix k q assume "k \<notin> K \<and> q \<in> set (f k)"
    then show "q \<noteq> 0" "?hp q = Some (GetBucketSize (int (idx k)))" "held q = None"
      using sep other unfolding pool_sep_def by metis+
  next
    fix q s assume "held q = Some s"
    then show "q \<noteq> 0" "?hp q = Some (bs s)" using sep out unfolding pool_sep_def by metis+
  next
    fix q assume "?hp q \<noteq> None" "held q = None"
    then show "\<exists>k. k \<notin> K \<and> q \<in> set (f k)" using sep unfolding pool_sep_def by metis
  qed (use sep in \<open>auto simp: pool_sep_def\<close>)
qed

lemma clear_pool: "fold (\<lambda>ptr hp. hp(ptr := None)) pool hp = (\<lambda>q. if q \<in> set pool then None else hp q)"
  by (induction pool arbitrary: hp) (auto simp: fun_eq_iff)

lemma clear_pools:
  "fold (\<lambda>pool hp. fold (\<lambda>ptr hp. hp(ptr := None)) pool hp) bs hp =
   (\<lambda>q. if \<exists>b \<in> set bs. q \<in> set b then None else hp q)"
  by (induction bs arbitrary: hp) (auto simp: clear_pool fun_eq_iff)

text \<open>The operations make these changes.\<close>

lemma clear_inv:
  assumes inv: "pool_inv asan w" and eq: "FramePool_DoClear (pw_pools w t) (pw_heap w) = (p', hp')"
  shows "pool_inv asan (w\<lparr>pw_heap := hp', pw_pools := (pw_pools w)(t := p')\<rparr>)"
proof -
  let ?pools = "pw_pools w" and ?K = "{k. fst k = t}"
  have len: "length (fp_buckets (?pools t)) = kNumBuckets"
    and sep: "pool_sep (block_size asan) snd (slot ?pools) (pw_heap w) (pw_held w)" using inv by (auto simp: pool_inv_def)
  have p': "fp_buckets p' = map (\<lambda>_. []) (fp_buckets (?pools t))" "fp_stats p' = fp_stats (?pools t)"
    using eq by (auto simp: FramePool_DoClear_def)
  have sl: "slot (?pools(t := p')) = (\<lambda>k. if k \<in> ?K then [] else slot ?pools k)"
    using len by (auto simp: slot_def p' fun_eq_iff)
  have "(\<exists>k \<in> ?K. q \<in> set (slot ?pools k)) \<longleftrightarrow> (\<exists>b \<in> set (fp_buckets (?pools t)). q \<in> set b)" for q
  proof
    assume "\<exists>k \<in> ?K. q \<in> set (slot ?pools k)"
    then obtain i where "i < kNumBuckets" "q \<in> set (fp_buckets (?pools t) ! i)"
      by (auto simp: slot_def split: if_splits)
    then show "\<exists>b \<in> set (fp_buckets (?pools t)). q \<in> set b" using len by (metis nth_mem)
  next
    assume "\<exists>b \<in> set (fp_buckets (?pools t)). q \<in> set b"
    then obtain i where "i < kNumBuckets" "q \<in> set (fp_buckets (?pools t) ! i)"
      using len by (auto simp: in_set_conv_nth [where xs = "fp_buckets (?pools t)"])
    then have "q \<in> set (slot ?pools (t, i))" by (simp add: slot_def)
    then show "\<exists>k \<in> ?K. q \<in> set (slot ?pools k)" by (metis fst_conv mem_Collect_eq)
  qed
  then have "hp' = (\<lambda>q. if \<exists>k \<in> ?K. q \<in> set (slot ?pools k) then None else pw_heap w q)"
    using eq by (auto simp: FramePool_DoClear_def clear_pools)
  then show ?thesis using inv sep_clear [OF sep, of ?K] len p' by (simp add: pool_inv_def sl)
qed

lemma alloc_inv:
  assumes inv: "pool_inv False w" and fresh: "fresh \<noteq> 0" "fresh \<notin> dom (pw_heap w)"
    and eq: "FramePool_DoAllocate fresh s (pw_pools w t) (pw_heap w) = (ptr, p', hp')"
  shows "pool_inv False (w\<lparr>pw_heap := hp', pw_pools := (pw_pools w)(t := p'), pw_held := (pw_held w)(ptr \<mapsto> s)\<rparr>)"
proof -
  let ?pools = "pw_pools w" and ?b = "nat (GetBucket s)"
  have len: "length (fp_buckets (?pools t)) = kNumBuckets" and st: "stats_ok (fp_stats (?pools t))"
    and sep: "pool_sep (block_size False) snd (slot ?pools) (pw_heap w) (pw_held w)" using inv by (auto simp: pool_inv_def)
  have st': "stats_ok (fp_stats p')"
    using eq st by (auto simp: FramePool_DoAllocate_def stats_ok_def Let_def split: if_splits)
  have nfresh: "pw_heap w fresh = None" using fresh(2) by auto
  have "length (fp_buckets p') = kNumBuckets \<and>
      pool_sep (block_size False) snd (slot (?pools(t := p'))) hp' ((pw_held w)(ptr \<mapsto> s))"
  proof (cases "GetBucket s < 0 \<or> fp_buckets (?pools t) ! ?b = []")
    case True
    then have "ptr = fresh" "fp_buckets p' = fp_buckets (?pools t)" "hp' = (pw_heap w)(fresh \<mapsto> block_size False s)"
      using eq by (auto simp: FramePool_DoAllocate_def block_size_def Let_def split: if_splits)
    with len sep_new [OF sep fresh(1) nfresh] show ?thesis by (simp add: slot_same)
  next
    case False
    let ?pool = "fp_buckets (?pools t) ! ?b"
    have b: "?b < kNumBuckets" using GetBucket_range [of s] False by auto
    have p': "ptr = last ?pool" "hp' = pw_heap w" "fp_buckets p' = (fp_buckets (?pools t))[?b := butlast ?pool]"
      using eq False by (auto simp: FramePool_DoAllocate_def Let_def)
    have "slot ?pools (t, ?b) = butlast ?pool @ [last ?pool]" using b False by (simp add: slot_def)
    moreover have "GetBucketSize (int (snd (t, ?b))) = block_size False s" using False by (simp add: block_size_def)
    ultimately have "pool_sep (block_size False) snd ((slot ?pools)((t, ?b) := butlast ?pool)) (pw_heap w) ((pw_held w)(last ?pool \<mapsto> s))"
      by (rule sep_take [OF sep])
    then show ?thesis using p' len by (simp add: slot_upd [where pools = ?pools and t = t, OF len b p'(3)])
  qed
  then show ?thesis using inv st' by (simp add: pool_inv_def)
qed

lemma free_inv:
  assumes inv: "pool_inv False w" and held: "pw_held w ptr = Some s"
    and eq: "FramePool_DoDeallocate ptr s (pw_pools w t) (pw_heap w) = (p', hp')"
  shows "pool_inv False (w\<lparr>pw_heap := hp', pw_pools := (pw_pools w)(t := p'), pw_held := (pw_held w)(ptr := None)\<rparr>)"
proof -
  let ?pools = "pw_pools w" and ?b = "nat (GetBucket s)"
  have len: "length (fp_buckets (?pools t)) = kNumBuckets" and st: "stats_ok (fp_stats (?pools t))"
    and sep: "pool_sep (block_size False) snd (slot ?pools) (pw_heap w) (pw_held w)" using inv by (auto simp: pool_inv_def)
  have st': "stats_ok (fp_stats p')"
    using eq st by (auto simp: FramePool_DoDeallocate_def stats_ok_def Let_def split: if_splits)
  have n0: "ptr \<noteq> 0" using sep held by (auto simp: pool_sep_def)
  have "length (fp_buckets p') = kNumBuckets \<and>
      pool_sep (block_size False) snd (slot (?pools(t := p'))) hp' ((pw_held w)(ptr := None))"
  proof (cases "GetBucket s < 0 \<or> \<not> length (fp_buckets (?pools t) ! ?b) < kMaxPooledPerBucket")
    case True
    then have "fp_buckets p' = fp_buckets (?pools t)" "hp' = (pw_heap w)(ptr := None)"
      using eq n0 by (auto simp: FramePool_DoDeallocate_def Let_def split: if_splits)
    with len sep_drop [OF sep held] show ?thesis by (simp add: slot_same)
  next
    case False
    let ?pool = "fp_buckets (?pools t) ! ?b"
    have b: "?b < kNumBuckets" using GetBucket_range [of s] False by auto
    have p': "hp' = pw_heap w" "fp_buckets p' = (fp_buckets (?pools t))[?b := ?pool @ [ptr]]"
      using eq n0 False by (auto simp: FramePool_DoDeallocate_def Let_def)
    have sl: "slot ?pools (t, ?b) = ?pool" using b by (simp add: slot_def)
    have "pool_sep (block_size False) snd ((slot ?pools)((t, ?b) := slot ?pools (t, ?b) @ [ptr])) (pw_heap w) ((pw_held w)(ptr := None))"
      by (rule sep_put [OF sep held]) (use False sl in \<open>simp_all add: block_size_def\<close>)
    then show ?thesis using p' len by (simp add: slot_upd [where pools = ?pools and t = t, OF len b p'(2)] sl)
  qed
  then show ?thesis using inv st' by (simp add: pool_inv_def)
qed

lemma asan_alloc_inv:
  assumes "pool_inv True w" and "fresh \<noteq> 0" "fresh \<notin> dom (pw_heap w)"
  shows "pool_inv True (PooledPromise_new True t fresh s w)"
  using assms sep_new [of "block_size True" snd "slot (pw_pools w)" "pw_heap w" "pw_held w" fresh s]
  by (simp add: pool_inv_def thread_pool_defs Let_def block_size_def domIff)

lemma asan_free_inv:
  assumes "pool_inv True w" and "pw_held w ptr = Some s"
  shows "pool_inv True (PooledPromise_delete True t ptr s w)"
  using assms sep_drop [of "block_size True" snd "slot (pw_pools w)" "pw_heap w" "pw_held w" ptr s]
  by (simp add: pool_inv_def thread_pool_defs Let_def)

lemma new_inv:
  assumes "pool_inv asan w" and "fresh \<noteq> 0" "fresh \<notin> dom (pw_heap w)"
  shows "pool_inv asan (PooledPromise_new asan t fresh s w)"
proof (cases asan)
  case True
  with assms show ?thesis by (simp add: asan_alloc_inv)
next
  case False
  obtain ptr p' hp' where r: "FramePool_DoAllocate fresh s (pw_pools w t) (pw_heap w) = (ptr, p', hp')"
    by (metis prod_cases3)
  with alloc_inv [OF _ assms(2,3) r] assms(1) False show ?thesis by (simp add: thread_pool_defs)
qed

lemma delete_inv:
  assumes "pool_inv asan w" and "pw_held w ptr = Some s"
  shows "pool_inv asan (PooledPromise_delete asan t ptr s w)"
proof (cases asan)
  case True
  with assms show ?thesis by (simp add: asan_free_inv)
next
  case False
  obtain p' hp' where r: "FramePool_DoDeallocate ptr s (pw_pools w t) (pw_heap w) = (p', hp')"
    by (metis prod.exhaust)
  with free_inv [OF _ assms(2) r] assms(1) False show ?thesis by (simp add: thread_pool_defs)
qed

lemma Clear_inv: "pool_inv asan w \<Longrightarrow> pool_inv asan (FramePool_Clear t w)"
  using clear_inv [of asan w t "fst (FramePool_DoClear (pw_pools w t) (pw_heap w))"
      "snd (FramePool_DoClear (pw_pools w t) (pw_heap w))"]
  by (simp add: thread_pool_defs)

text \<open>The destructor leaves nothing of the thread's pool behind.\<close>

lemma destroy_inv:
  assumes "pool_inv asan w"
  shows "pool_inv asan (FramePool_destroy t w)"
proof -
  let ?w = "FramePool_Clear t w"
  have inv: "pool_inv asan ?w" using Clear_inv [OF assms] .
  have "fp_buckets (pw_pools ?w t) = replicate kNumBuckets []"
    using assms by (simp add: thread_pool_defs FramePool_DoClear_def pool_inv_def map_replicate_const)
  then have "slot ((pw_pools ?w)(t := FramePool_init)) = slot (pw_pools ?w)"
    by (intro slot_same) (simp add: FramePool_init_def)
  with inv show ?thesis
    by (simp add: FramePool_destroy_def pool_inv_def Let_def FramePool_init_def stats_ok_def Stats_init_def)
qed

lemma pool_reach_inv: "pool_reach asan w \<Longrightarrow> pool_inv asan w"
proof (induction rule: pool_reach.induct)
  case pool_start
  have "slot (\<lambda>_. FramePool_init) = (\<lambda>_. [])" by (auto simp: slot_def FramePool_init_def fun_eq_iff)
  then show ?case
    by (simp add: pool_world_init_def pool_inv_def pool_sep_def FramePool_init_def stats_ok_def Stats_init_def)
next
  case (pool_reset w t)
  have "slot ((pw_pools w)(t := FramePool_ResetStats (pw_pools w t))) = slot (pw_pools w)"
    by (rule slot_same) (simp add: FramePool_ResetStats_def)
  with pool_reset show ?case
    by (simp add: pool_inv_def FramePool_Instance_def FramePool_ResetStats_def stats_ok_def Stats_init_def)
qed (simp_all add: new_inv delete_inv Clear_inv destroy_inv)

lemma block_size_fits: "s \<le> block_size asan s"
  using GetBucket_fits [of s] by (simp add: block_size_def)

subsection \<open>Properties\<close>

text \<open>
  Property C30 (frames do not overlap and fit).  In every sequence of allocations and deallocations
  of coroutine frames over any number of threads, with frames freed on other threads than they
  were allocated on, pools cleared, statistics reset and threads ending, in a build with or
  without AddressSanitizer: every frame the program holds is a live block at least as large as requested; no
  pooled block is held, and none is in two pools or twice in one; no block is leaked (every
  live block is held or pooled); and no bucket keeps more than 64 blocks.
\<close>

theorem frame_pool_sound:
  assumes "pool_reach asan w"
  shows "(pw_held w q = Some s \<longrightarrow> (\<exists>b. pw_heap w q = Some b \<and> s \<le> b)) \<and>
         (q \<in> set (slot (pw_pools w) k) \<longrightarrow> pw_held w q = None \<and> q \<in> dom (pw_heap w)) \<and>
         (q \<in> set (slot (pw_pools w) k) \<and> q \<in> set (slot (pw_pools w) k') \<longrightarrow> k = k') \<and>
         distinct (slot (pw_pools w) k) \<and> length (slot (pw_pools w) k) \<le> kMaxPooledPerBucket \<and>
         (q \<in> dom (pw_heap w) \<longrightarrow> pw_held w q \<noteq> None \<or> (\<exists>k. q \<in> set (slot (pw_pools w) k)))"
proof -
  have sep: "pool_sep (block_size asan) snd (slot (pw_pools w)) (pw_heap w) (pw_held w)"
    using pool_reach_inv [OF assms] by (simp add: pool_inv_def)
  show ?thesis
    using sep block_size_fits [of s asan] unfolding pool_sep_def dom_def by blast
qed

lemma six_buckets:
  "replicate 6 ([] :: 'a list) = [[], [], [], [], [], []]"
  "[a, b, c, d, e, g][2 := x] = [a, b, x, d, e, g]"
  "[a, b, c, d, e, g] ! 2 = c"
  by (simp_all add: eval_nat_numeral)

lemma pool_example:
  "\<exists>w. pool_reach False w \<and> pw_held w 16 = Some 100 \<and> slot (pw_pools w) (1, 2) = [32]"
proof -
  let ?w1 = "PooledPromise_new False 0 32 200 pool_world_init"
  let ?w2 = "PooledPromise_delete False 1 32 200 ?w1"
  let ?w3 = "PooledPromise_new False 5 16 100 ?w2"
  note ev = thread_pool_defs pool_world_init_def FramePool_DoAllocate_def FramePool_DoDeallocate_def
    GetBucket_def GetBucketSize_def FramePool_init_def Stats_init_def kNumBuckets_def
    kMaxPooledPerBucket_def six_buckets Let_def
  have 1: "pool_reach False ?w1" by (rule pool_alloc [OF pool_start]) (simp_all add: pool_world_init_def)
  have 2: "pool_reach False ?w2" by (rule pool_free [OF 1]) (simp add: ev)
  have 3: "pool_reach False ?w3" by (rule pool_alloc [OF 2]) (simp_all add: ev)
  show ?thesis by (rule exI [of _ ?w3], rule conjI, rule 3) (simp add: ev slot_def)
qed

theorem frame_pool_sound_witness:
  "\<exists>w. pool_reach False w \<and> pw_held w 16 = Some 100 \<and> (\<exists>b. pw_heap w 16 = Some b \<and> 100 \<le> b) \<and> pw_held w 32 = None"
proof -
  obtain w where w: "pool_reach False w" "pw_held w 16 = Some 100" "slot (pw_pools w) (1, 2) = [32]"
    using pool_example by blast
  have "\<exists>b. pw_heap w 16 = Some b \<and> 100 \<le> b" using frame_pool_sound [OF w(1), of 16 100] w(2) by blast
  moreover have "pw_held w 32 = None" using frame_pool_sound [OF w(1), of 32 0 "(1, 2)"] w(3) by simp
  ultimately show ?thesis using w by blast
qed

text \<open>
  Statistics.  In every reachable state of every thread's pool the counters of hits,
  misses and oversized allocations add up to the counter of allocations (modulo \<open>2 ^ 64\<close>, in
  which all of them count).
\<close>

theorem frame_pool_stats:
  assumes "pool_reach asan w"
  shows "(let st = FramePool_GetStats (pw_pools w t) in
     st_allocations st = st_pool_hits st + st_pool_misses st + st_oversized st)"
  using pool_reach_inv [OF assms] by (simp add: pool_inv_def stats_ok_def FramePool_GetStats_def Let_def)

theorem frame_pool_stats_witness:
  "\<exists>w. pool_reach False w \<and> pw_held w 16 = Some 100 \<and>
     st_allocations (fp_stats (pw_pools w 5)) =
     st_pool_hits (fp_stats (pw_pools w 5)) + st_pool_misses (fp_stats (pw_pools w 5)) + st_oversized (fp_stats (pw_pools w 5))"
proof -
  obtain w where w: "pool_reach False w" "pw_held w 16 = Some 100" using pool_example by blast
  with frame_pool_stats [OF w(1), of 5] show ?thesis
    by (auto simp: Let_def FramePool_GetStats_def)
qed

end
