(* ===== verification/Cancel_Token.thy ===== *)
theory Cancel_Token
  imports Prelude
begin

text \<open>
  \<open>core/cancellation.hpp\<close>: the shared \<open>CancellationState\<close> with its registered callbacks, the
  tokens and sources that point to it, and the callback guard.  A callback is known by its
  identity; an operation returns the callbacks it invokes.
\<close>

subsection \<open>The shared state\<close>

record 'c CancellationState =
  cs_cancelled :: bool
  cs_callbacks :: "'c list"
  cs_callback_handles :: "size_t list"
  cs_next_handle :: size_t

definition CancellationState_init :: "'c CancellationState" where
  "CancellationState_init =
    \<lparr>cs_cancelled = False, cs_callbacks = [], cs_callback_handles = [], cs_next_handle = 1\<rparr>"

definition CancellationState_IsCancelled :: "'c CancellationState \<Rightarrow> bool" where
  "CancellationState_IsCancelled s = cs_cancelled s"

text \<open>
  \<open>Cancel\<close> has two atomic parts: the exchange of the flag, which tells whether this call is
  the first, and, for the first call, taking the callbacks under the mutex.
\<close>

definition Cancel_exchange :: "'c CancellationState \<Rightarrow> bool \<times> 'c CancellationState" where
  "Cancel_exchange s = (cs_cancelled s, s\<lparr>cs_cancelled := True\<rparr>)"

definition Cancel_collect :: "'c CancellationState \<Rightarrow> 'c list \<times> 'c CancellationState" where
  "Cancel_collect s = (cs_callbacks s, s\<lparr>cs_callbacks := [], cs_callback_handles := []\<rparr>)"

definition CancellationState_Cancel :: "'c CancellationState \<Rightarrow> 'c list \<times> 'c CancellationState" where
  "CancellationState_Cancel s =
    (let (was, s) = Cancel_exchange s in if was then ([], s) else Cancel_collect s)"

definition CancellationState_RegisterCallback ::
  "'c \<Rightarrow> 'c CancellationState \<Rightarrow> size_t \<times> 'c list \<times> 'c CancellationState" where
  "CancellationState_RegisterCallback callback s =
    (if cs_cancelled s then (0, [callback], s)
     else (cs_next_handle s, [],
           s\<lparr>cs_next_handle := cs_next_handle s + 1,
             cs_callbacks := cs_callbacks s @ [callback],
             cs_callback_handles := cs_callback_handles s @ [cs_next_handle s]\<rparr>))"

fun erase_first :: "size_t \<Rightarrow> 'c list \<Rightarrow> size_t list \<Rightarrow> 'c list \<times> size_t list" where
  "erase_first h (c # cs) (k # ks) =
     (if k = h then (cs, ks) else (let (cs', ks') = erase_first h cs ks in (c # cs', k # ks')))"
| "erase_first h cs ks = (cs, ks)"

definition CancellationState_UnregisterCallback ::
  "size_t \<Rightarrow> 'c CancellationState \<Rightarrow> 'c CancellationState" where
  "CancellationState_UnregisterCallback h s =
    (if h = 0 then s
     else (let (cs, ks) = erase_first h (cs_callbacks s) (cs_callback_handles s)
           in s\<lparr>cs_callbacks := cs, cs_callback_handles := ks\<rparr>))"

lemmas CancellationState_defs [op_defs] =
  CancellationState_init_def CancellationState_IsCancelled_def Cancel_exchange_def Cancel_collect_def
  CancellationState_Cancel_def CancellationState_RegisterCallback_def CancellationState_UnregisterCallback_def

subsection \<open>Tokens, sources and guards\<close>

text \<open>
  A token and a source hold a shared pointer, null for the default token and a moved-from
  source: \<open>None\<close> is the null pointer, \<open>Some s\<close> the state pointed to.
\<close>

definition CancellationToken_IsCancelled :: "'c CancellationState option \<Rightarrow> bool" where
  "CancellationToken_IsCancelled t = (case t of Some s \<Rightarrow> CancellationState_IsCancelled s | None \<Rightarrow> False)"

definition CancellationToken_OnCancel ::
  "'c \<Rightarrow> 'c CancellationState option \<Rightarrow> size_t \<times> 'c list \<times> 'c CancellationState option" where
  "CancellationToken_OnCancel callback t =
    (case t of
       Some s \<Rightarrow> (let (h, called, s') = CancellationState_RegisterCallback callback s in (h, called, Some s'))
     | None \<Rightarrow> (0, [], None))"

definition CancellationToken_Unregister ::
  "size_t \<Rightarrow> 'c CancellationState option \<Rightarrow> 'c CancellationState option" where
  "CancellationToken_Unregister h t =
    (case t of Some s \<Rightarrow> Some (CancellationState_UnregisterCallback h s) | None \<Rightarrow> None)"

definition CancellationToken_IsValid :: "'c CancellationState option \<Rightarrow> bool" where
  "CancellationToken_IsValid t \<longleftrightarrow> t \<noteq> None"

definition CancellationToken_None :: "'c CancellationState option" where
  "CancellationToken_None = None"

definition CancellationSource_init :: "'c CancellationState option" where
  "CancellationSource_init = Some CancellationState_init"

definition CancellationSource_GetToken :: "'c CancellationState option \<Rightarrow> 'c CancellationState option" where
  "CancellationSource_GetToken src = src"

definition CancellationSource_Cancel ::
  "'c CancellationState option \<Rightarrow> 'c list \<times> 'c CancellationState option" where
  "CancellationSource_Cancel src =
    (case src of
       Some s \<Rightarrow> (let (called, s') = CancellationState_Cancel s in (called, Some s'))
     | None \<Rightarrow> ([], None))"

definition CancellationSource_IsCancelled :: "'c CancellationState option \<Rightarrow> bool" where
  "CancellationSource_IsCancelled src =
    (case src of Some s \<Rightarrow> CancellationState_IsCancelled s | None \<Rightarrow> False)"

record CancellationCallbackGuard =
  cg_handle :: size_t

definition CancellationCallbackGuard_init ::
  "'c \<Rightarrow> 'c CancellationState option \<Rightarrow> CancellationCallbackGuard \<times> 'c list \<times> 'c CancellationState option" where
  "CancellationCallbackGuard_init callback t =
    (let (h, called, t') = CancellationToken_OnCancel callback t in (\<lparr>cg_handle = h\<rparr>, called, t'))"

definition CancellationCallbackGuard_destroy ::
  "CancellationCallbackGuard \<Rightarrow> 'c CancellationState option \<Rightarrow> 'c CancellationState option" where
  "CancellationCallbackGuard_destroy g t = CancellationToken_Unregister (cg_handle g) t"

subsection \<open>Threads sharing one state\<close>

text \<open>
  The log of an execution: which registration got which handle, which callbacks were
  invoked, which were taken out by \<open>Unregister\<close> before that, and whether a canceller is
  between its two parts.  Each registration is a distinct callback, and fewer than \<open>2 ^ 64 - 1\<close>
  registrations are made, so that handles are not reused.
\<close>

record 'c cancel_log =
  lg_handle :: "'c \<Rightarrow> size_t option"
  lg_called :: "'c list"
  lg_removed :: "'c set"
  lg_canceller :: bool

inductive cancel_reach :: "'c CancellationState \<Rightarrow> 'c cancel_log \<Rightarrow> bool" where
  cancel_start: "cancel_reach CancellationState_init
     \<lparr>lg_handle = \<lambda>_. None, lg_called = [], lg_removed = {}, lg_canceller = False\<rparr>"
| register: "cancel_reach s lg \<Longrightarrow> lg_handle lg c = None \<Longrightarrow> cs_next_handle s + 1 \<noteq> 0 \<Longrightarrow>
     CancellationState_RegisterCallback c s = (h, called, s') \<Longrightarrow>
     cancel_reach s' (lg\<lparr>lg_handle := (lg_handle lg)(c \<mapsto> h), lg_called := lg_called lg @ called\<rparr>)"
| unregister: "cancel_reach s lg \<Longrightarrow>
     cancel_reach (CancellationState_UnregisterCallback h s)
       (lg\<lparr>lg_removed := lg_removed lg \<union>
          {c \<in> set (cs_callbacks s). lg_handle lg c = Some h \<and> h \<noteq> 0}\<rparr>)"
| exchange: "cancel_reach s lg \<Longrightarrow> Cancel_exchange s = (was, s') \<Longrightarrow>
     cancel_reach s' (lg\<lparr>lg_canceller := lg_canceller lg \<or> \<not> was\<rparr>)"
| collect: "cancel_reach s lg \<Longrightarrow> lg_canceller lg \<Longrightarrow> Cancel_collect s = (called, s') \<Longrightarrow>
     cancel_reach s' (lg\<lparr>lg_called := lg_called lg @ called, lg_canceller := False\<rparr>)"

definition cancel_inv :: "'c CancellationState \<Rightarrow> 'c cancel_log \<Rightarrow> bool" where
  "cancel_inv s lg \<longleftrightarrow>
     length (cs_callbacks s) = length (cs_callback_handles s) \<and>
     distinct (cs_callback_handles s) \<and> distinct (cs_callbacks s @ lg_called lg) \<and>
     map (lg_handle lg) (cs_callbacks s) = map Some (cs_callback_handles s) \<and>
     (\<forall>h \<in> set (cs_callback_handles s). 0 < h \<and> h < cs_next_handle s) \<and> 0 < cs_next_handle s \<and>
     set (lg_called lg) \<subseteq> dom (lg_handle lg) \<and>
     lg_removed lg \<subseteq> dom (lg_handle lg) \<and>
     lg_removed lg \<inter> (set (cs_callbacks s) \<union> set (lg_called lg)) = {} \<and>
     dom (lg_handle lg) \<subseteq> lg_removed lg \<union> set (cs_callbacks s) \<union> set (lg_called lg) \<and>
     (lg_canceller lg \<longrightarrow> cs_cancelled s) \<and>
     (cs_cancelled s \<and> \<not> lg_canceller lg \<longrightarrow> cs_callbacks s = [])"

lemma erase_first_length:
  "length cs = length ks \<Longrightarrow> erase_first h cs ks = (cs', ks') \<Longrightarrow> length cs' = length ks'"
  by (induction h cs ks arbitrary: cs' ks' rule: erase_first.induct) (auto split: if_splits prod.splits)

text \<open>With distinct handles \<open>UnregisterCallback\<close> is a filter on the pairs.\<close>

lemma erase_first_filter:
  assumes "length cs = length ks" and "distinct ks" and "map f cs = map Some ks"
  shows "erase_first h cs ks = (filter (\<lambda>c. f c \<noteq> Some h) cs, filter (\<lambda>k. k \<noteq> h) ks)"
  using assms
proof (induction h cs ks rule: erase_first.induct)
  case (1 h c cs k ks)
  show ?case
  proof (cases "k = h")
    case True
    have "f ` set cs = Some ` set ks" using "1.prems"(3) by (simp flip: set_map)
    then have "f x \<in> Some ` set ks" if "x \<in> set cs" for x using that by blast
    then have "filter (\<lambda>k. k \<noteq> h) ks = ks" "\<And>x. x \<in> set cs \<Longrightarrow> f x \<noteq> Some h"
      using "1.prems" True by (fastforce simp: filter_id_conv)+
    then show ?thesis using True "1.prems" by (auto simp: filter_id_conv)
  next
    case False
    then show ?thesis using 1 by simp
  qed
qed auto

lemma register_inv:
  assumes inv: "cancel_inv s lg" and new: "lg_handle lg c = None" "cs_next_handle s + 1 \<noteq> 0"
    and eq: "CancellationState_RegisterCallback c s = (h, called, s')"
  shows "cancel_inv s' (lg\<lparr>lg_handle := (lg_handle lg)(c \<mapsto> h), lg_called := lg_called lg @ called\<rparr>)"
proof -
  have c: "c \<notin> set (cs_callbacks s)" "c \<notin> set (lg_called lg)" "c \<notin> lg_removed lg"
  proof -
    have "set (map (lg_handle lg) (cs_callbacks s)) = set (map Some (cs_callback_handles s))"
      using inv by (simp add: cancel_inv_def)
    then have "lg_handle lg ` set (cs_callbacks s) = Some ` set (cs_callback_handles s)" by simp
    then show "c \<notin> set (cs_callbacks s)" using new(1) by (metis imageE imageI option.distinct(1))
  qed (use inv new(1) in \<open>auto simp: cancel_inv_def\<close>)
  have keep: "map ((lg_handle lg)(c \<mapsto> h)) (cs_callbacks s) = map (lg_handle lg) (cs_callbacks s)"
    using c(1) by (auto intro: map_cong)
  have less: "cs_next_handle s < cs_next_handle s + 1"
    by (rule word_less_succ [OF new(2)])
  have "x < cs_next_handle s + 1" if "x < cs_next_handle s" for x
    using that less by (rule less_trans)
  with inv c keep less eq show ?thesis
    unfolding cancel_inv_def CancellationState_RegisterCallback_def
    by (auto split: if_splits)
qed

lemma unregister_inv:
  assumes inv: "cancel_inv s lg"
  shows "cancel_inv (CancellationState_UnregisterCallback h s)
       (lg\<lparr>lg_removed := lg_removed lg \<union> {c \<in> set (cs_callbacks s). lg_handle lg c = Some h \<and> h \<noteq> 0}\<rparr>)"
proof (cases "h = 0")
  case True
  then show ?thesis using inv by (simp add: CancellationState_UnregisterCallback_def cancel_inv_def)
next
  case False
  have len: "length (cs_callbacks s) = length (cs_callback_handles s)" "distinct (cs_callback_handles s)"
    and m: "map (lg_handle lg) (cs_callbacks s) = map Some (cs_callback_handles s)"
    using inv by (auto simp: cancel_inv_def)
  let ?cs = "filter (\<lambda>c. lg_handle lg c \<noteq> Some h) (cs_callbacks s)"
  let ?ks = "filter (\<lambda>k. k \<noteq> h) (cs_callback_handles s)"
  have e: "erase_first h (cs_callbacks s) (cs_callback_handles s) = (?cs, ?ks)"
    by (rule erase_first_filter [OF len m])
  have "map (lg_handle lg) ?cs = filter (\<lambda>x. x \<noteq> Some h) (map (lg_handle lg) (cs_callbacks s))"
    by (simp add: filter_map comp_def)
  also have "\<dots> = map Some ?ks" unfolding m by (simp add: filter_map comp_def)
  finally have m': "map (lg_handle lg) ?cs = map Some ?ks" .
  have l': "length ?cs = length ?ks" using erase_first_length [OF len(1) e] .
  have dom: "set (cs_callbacks s) \<subseteq> dom (lg_handle lg)"
  proof
    fix x assume "x \<in> set (cs_callbacks s)"
    then have "lg_handle lg x \<in> set (map Some (cs_callback_handles s))" unfolding m [symmetric] by simp
    then show "x \<in> dom (lg_handle lg)" by auto
  qed
  show ?thesis
    using inv False m' l' dom e
    by (auto simp: CancellationState_UnregisterCallback_def cancel_inv_def)
qed

lemma collect_inv:
  assumes inv: "cancel_inv s lg" and can: "lg_canceller lg" and eq: "Cancel_collect s = (called, s')"
  shows "cancel_inv s' (lg\<lparr>lg_called := lg_called lg @ called, lg_canceller := False\<rparr>)"
proof -
  have m: "map (lg_handle lg) (cs_callbacks s) = map Some (cs_callback_handles s)"
    using inv by (simp add: cancel_inv_def)
  have "set (cs_callbacks s) \<subseteq> dom (lg_handle lg)"
  proof
    fix x assume "x \<in> set (cs_callbacks s)"
    then have "lg_handle lg x \<in> set (map Some (cs_callback_handles s))" unfolding m [symmetric] by simp
    then show "x \<in> dom (lg_handle lg)" by auto
  qed
  then show ?thesis using assms by (auto simp: cancel_inv_def Cancel_collect_def)
qed

lemma cancel_reach_inv: "cancel_reach s lg \<Longrightarrow> cancel_inv s lg"
proof (induction rule: cancel_reach.induct)
  case cancel_start
  show ?case by (simp add: cancel_inv_def CancellationState_init_def)
next
  case (register s lg c h called s')
  then show ?case by (intro register_inv)
next
  case (unregister s lg h)
  then show ?case using unregister_inv by blast
next
  case (exchange s lg was s')
  then show ?case by (auto simp: cancel_inv_def Cancel_exchange_def)
next
  case (collect s lg called s')
  then show ?case using collect_inv by blast
qed

subsection \<open>Properties\<close>

text \<open>
  Property C22 (callbacks run exactly once).  Whatever threads register, unregister and cancel, in
  any interleaving, even between the two parts of \<open>Cancel\<close>: no callback is invoked twice;
  one that was unregistered before it was taken is never invoked; and once the first
  \<open>Cancel\<close> has taken the callbacks, every callback registered so far has been invoked or
  unregistered, including those registered after the cancellation.
\<close>

theorem cancellation_exactly_once:
  assumes "cancel_reach s lg"
  shows "distinct (lg_called lg) \<and>
         (c \<in> lg_removed lg \<longrightarrow> c \<notin> set (lg_called lg)) \<and>
         (CancellationState_IsCancelled s \<and> \<not> lg_canceller lg \<and> lg_handle lg c \<noteq> None \<longrightarrow>
            c \<in> set (lg_called lg) \<or> c \<in> lg_removed lg)"
  using cancel_reach_inv [OF assms]
  by (auto simp: cancel_inv_def CancellationState_IsCancelled_def)

theorem cancellation_exactly_once_witness:
  "\<exists>s lg. cancel_reach s lg \<and> lg_called lg = [1 :: nat, 3] \<and> lg_removed lg = {2} \<and>
     CancellationState_IsCancelled s \<and> \<not> lg_canceller lg \<and> 2 \<notin> set (lg_called lg)"
proof -
  have 1: "cancel_reach CancellationState_init
     \<lparr>lg_handle = \<lambda>_. None, lg_called = [], lg_removed = {}, lg_canceller = False\<rparr>" (is "cancel_reach ?s0 ?l0")
    by (rule cancel_start)
  let ?s1 = "\<lparr>cs_cancelled = False, cs_callbacks = [1 :: nat], cs_callback_handles = [1], cs_next_handle = 2\<rparr>"
  have 2: "cancel_reach ?s1 (?l0\<lparr>lg_handle := (lg_handle ?l0)(1 \<mapsto> 1), lg_called := lg_called ?l0 @ []\<rparr>)"
    (is "cancel_reach _ ?l1")
    by (rule register [OF 1]) (simp_all add: CancellationState_defs)
  let ?s2 = "\<lparr>cs_cancelled = False, cs_callbacks = [1 :: nat, 2], cs_callback_handles = [1, 2], cs_next_handle = 3\<rparr>"
  have 3: "cancel_reach ?s2 (?l1\<lparr>lg_handle := (lg_handle ?l1)(2 \<mapsto> 2), lg_called := lg_called ?l1 @ []\<rparr>)"
    (is "cancel_reach _ ?l2")
    by (rule register [OF 2]) (simp_all add: CancellationState_defs)
  have 4: "cancel_reach (CancellationState_UnregisterCallback 2 ?s2)
      (?l2\<lparr>lg_removed := lg_removed ?l2 \<union> {c \<in> set (cs_callbacks ?s2). lg_handle ?l2 c = Some 2 \<and> (2 :: size_t) \<noteq> 0}\<rparr>)"
    (is "cancel_reach ?s3 ?l3")
    by (rule unregister [OF 3])
  have 5: "cancel_reach (?s3\<lparr>cs_cancelled := True\<rparr>) (?l3\<lparr>lg_canceller := lg_canceller ?l3 \<or> \<not> False\<rparr>)"
    (is "cancel_reach ?s4 ?l4")
    by (rule exchange [OF 4]) (simp add: CancellationState_defs)
  have 6: "cancel_reach (?s4\<lparr>cs_callbacks := [], cs_callback_handles := []\<rparr>)
      (?l4\<lparr>lg_called := lg_called ?l4 @ [1], lg_canceller := False\<rparr>)" (is "cancel_reach ?s5 ?l5")
    by (rule collect [OF 5]) (simp_all add: CancellationState_defs)
  have 7: "cancel_reach ?s5 (?l5\<lparr>lg_handle := (lg_handle ?l5)(3 \<mapsto> 0), lg_called := lg_called ?l5 @ [3]\<rparr>)"
    (is "cancel_reach ?s6 ?l6")
    by (rule register [OF 6]) (simp_all add: CancellationState_defs)
  have l6: "lg_called ?l6 = [1, 3]" "lg_removed ?l6 = {2}" "CancellationState_IsCancelled ?s6" "\<not> lg_canceller ?l6"
    by (auto simp: CancellationState_defs)
  have "2 \<notin> set (lg_called ?l6)" using cancellation_exactly_once [OF 7, of 2] l6(2) by blast
  with 7 l6 show ?thesis by blast
qed

text \<open>
  The guard.  On a state that is not cancelled whose handles are below
  \<open>next_handle_\<close>, a guard that is destroyed before the cancellation leaves the registered
  callbacks as they were, so its callback is not among those a later \<open>Cancel\<close> invokes; on a
  cancelled state the guard's callback runs at once and its destruction changes nothing;
  on a token without state nothing happens.
\<close>

theorem callback_guard:
  assumes "length (cs_callbacks s) = length (cs_callback_handles s)" and "cs_next_handle s \<noteq> 0"
    and "\<And>h. h \<in> set (cs_callback_handles s) \<Longrightarrow> h \<noteq> cs_next_handle s"
  shows "(let (g, called, t') = CancellationCallbackGuard_init c (Some s) in
            if CancellationState_IsCancelled s
            then called = [c] \<and> CancellationCallbackGuard_destroy g t' = Some s
            else called = [] \<and>
              (\<exists>s'. CancellationCallbackGuard_destroy g t' = Some s' \<and> cs_callbacks s' = cs_callbacks s \<and>
                 fst (CancellationState_Cancel s') = cs_callbacks s)) \<and>
         CancellationCallbackGuard_init c CancellationToken_None = (\<lparr>cg_handle = 0\<rparr>, [], None)"
proof -
  have e: "erase_first k (cs @ [c]) (ks @ [k]) = (cs, ks)" if "length cs = length ks" "\<And>h. h \<in> set ks \<Longrightarrow> h \<noteq> k"
    for k ks and cs :: "'a list"
    using that by (induction k cs ks rule: erase_first.induct) auto
  show ?thesis
    using assms e [OF assms(1), of "cs_next_handle s"]
    by (simp add: CancellationCallbackGuard_init_def CancellationCallbackGuard_destroy_def
        CancellationToken_OnCancel_def CancellationToken_Unregister_def CancellationState_defs
        CancellationToken_None_def)
qed

theorem callback_guard_witness:
  "(let (g, called, t') = CancellationCallbackGuard_init (5 :: nat) (Some CancellationState_init) in
      called = [] \<and> (\<exists>s'. CancellationCallbackGuard_destroy g t' = Some s' \<and> fst (CancellationState_Cancel s') = []))"
  using callback_guard [of "CancellationState_init :: nat CancellationState" 5]
  by (auto simp: CancellationState_init_def CancellationState_IsCancelled_def Let_def split: prod.splits)

end
