(* ===== verification/Retry.thy ===== *)
theory Retry
  imports Result
begin

text \<open>
  \<open>RetryPolicy\<close> and \<open>RetryBuilder\<close> of \<open>core/retry.hpp\<close>.  Delays are counts of milliseconds.
  The two products of a delay with a \<open>double\<close> (the jitter factor drawn for an attempt and
  the back-off multiplier, each cast back to \<open>long\<close>) are the functions \<open>jitter\<close> and
  \<open>backoff\<close> of the model; nothing is assumed of them.  \<open>factory\<close> gives the result of the
  task of each attempt.
\<close>

record RetryPolicy =
  rp_max_attempts :: size_t
  rp_initial_delay :: int
  rp_backoff :: "int \<Rightarrow> int"
  rp_max_delay :: int
  rp_add_jitter :: bool
  rp_should_retry :: "error_code \<Rightarrow> bool"

definition RetryPolicy_init :: "(int \<Rightarrow> int) \<Rightarrow> RetryPolicy" where
  "RetryPolicy_init twice =
    \<lparr>rp_max_attempts = 3, rp_initial_delay = 100, rp_backoff = twice, rp_max_delay = 30000,
     rp_add_jitter = True, rp_should_retry = (\<lambda>_. True)\<rparr>"

definition RetryBuilder_MaxAttempts :: "size_t \<Rightarrow> RetryPolicy \<Rightarrow> RetryPolicy" where
  "RetryBuilder_MaxAttempts n p = p\<lparr>rp_max_attempts := n\<rparr>"

definition RetryBuilder_WithExponentialBackoff :: "int \<Rightarrow> (int \<Rightarrow> int) \<Rightarrow> RetryPolicy \<Rightarrow> RetryPolicy" where
  "RetryBuilder_WithExponentialBackoff initial multiplier p =
     p\<lparr>rp_initial_delay := initial, rp_backoff := multiplier\<rparr>"

definition RetryBuilder_MaxDelay :: "int \<Rightarrow> RetryPolicy \<Rightarrow> RetryPolicy" where
  "RetryBuilder_MaxDelay m p = p\<lparr>rp_max_delay := m\<rparr>"

definition RetryBuilder_NoJitter :: "RetryPolicy \<Rightarrow> RetryPolicy" where
  "RetryBuilder_NoJitter p = p\<lparr>rp_add_jitter := False\<rparr>"

definition RetryBuilder_RetryIf :: "(error_code \<Rightarrow> bool) \<Rightarrow> RetryPolicy \<Rightarrow> RetryPolicy" where
  "RetryBuilder_RetryIf pred p = p\<lparr>rp_should_retry := pred\<rparr>"

text \<open>
  The loop of \<open>Execute\<close> from a given attempt, delay and last error: the final result, the
  number of attempts started so far and the sleeps made from here on.  \<open>attempt + 1\<close> does
  not wrap around, as \<open>attempt < max_attempts\<close>.
\<close>

definition actual_delay :: "(nat \<Rightarrow> int \<Rightarrow> int) \<Rightarrow> RetryPolicy \<Rightarrow> nat \<Rightarrow> int \<Rightarrow> int" where
  "actual_delay jitter p attempt delay =
    (let d = (if rp_add_jitter p then jitter attempt delay else delay)
     in if d > rp_max_delay p then rp_max_delay p else d)"

function Execute_loop ::
  "(nat \<Rightarrow> int \<Rightarrow> int) \<Rightarrow> (nat \<Rightarrow> ('t, error_code) Result) \<Rightarrow> RetryPolicy \<Rightarrow> nat \<Rightarrow> int \<Rightarrow> error_code \<Rightarrow>
   ('t, error_code) Result \<times> nat \<times> int list" where
  "Execute_loop jitter factory p attempt delay last_error =
    (let exhausted = Err (if ec_bool last_error then last_error else make_error_code RetryExhausted) in
     if attempt < unat (rp_max_attempts p)
     then (case factory attempt of
             Ok v \<Rightarrow> (Ok v, Suc attempt, [])
           | Err e \<Rightarrow>
               let should = (attempt + 1 < unat (rp_max_attempts p) \<and> rp_should_retry p e) in
               if \<not> should
               then (Err (if ec_bool e then e else make_error_code RetryExhausted), Suc attempt, [])
               else
                 let (r, n, sleeps) = Execute_loop jitter factory p (Suc attempt) (rp_backoff p delay) e
                 in (r, n, actual_delay jitter p attempt delay # sleeps))
     else (exhausted, attempt, []))"
  by pat_completeness auto
termination
  by (relation "measure (\<lambda>(_, _, p, attempt, _). unat (rp_max_attempts p) - attempt)") auto

declare Execute_loop.simps [simp del]

definition RetryBuilder_Execute ::
  "(nat \<Rightarrow> int \<Rightarrow> int) \<Rightarrow> (nat \<Rightarrow> ('t, error_code) Result) \<Rightarrow> RetryPolicy \<Rightarrow>
   ('t, error_code) Result \<times> nat \<times> int list" where
  "RetryBuilder_Execute jitter factory p = Execute_loop jitter factory p 0 (rp_initial_delay p) ec_default"

subsection \<open>What Execute returns\<close>

text \<open>The outcome of an execution that started \<open>n\<close> attempts from attempt \<open>a\<close> on.\<close>

definition retry_outcome ::
  "(nat \<Rightarrow> ('t, error_code) Result) \<Rightarrow> RetryPolicy \<Rightarrow> nat \<Rightarrow> ('t, error_code) Result \<times> nat \<times> int list \<Rightarrow> bool" where
  "retry_outcome factory p a out \<longleftrightarrow>
     (let (r, n, sleeps) = out in
      a < n \<and> n \<le> unat (rp_max_attempts p) \<and> length sleeps = n - Suc a \<and>
      (\<forall>i. a \<le> i \<longrightarrow> Suc i < n \<longrightarrow> (\<exists>e. factory i = Err e \<and> rp_should_retry p e)) \<and>
      (case factory (n - 1) of
         Ok v \<Rightarrow> r = Ok v
       | Err e \<Rightarrow> r = Err (if ec_bool e then e else make_error_code RetryExhausted) \<and>
           (n = unat (rp_max_attempts p) \<or> \<not> rp_should_retry p e)))"

lemma Execute_loop_outcome:
  "a < unat (rp_max_attempts p) \<Longrightarrow> retry_outcome factory p a (Execute_loop jitter factory p a d e0)"
proof (induction jitter factory p a d e0 rule: Execute_loop.induct)
  case (1 jitter factory p a d e0)
  show ?case
  proof (cases "factory a")
    case (Ok v)
    then show ?thesis using "1.prems" by (subst Execute_loop.simps) (simp add: retry_outcome_def)
  next
    case (Err e)
    show ?thesis
    proof (cases "a + 1 < unat (rp_max_attempts p) \<and> rp_should_retry p e")
      case False
      then show ?thesis using "1.prems" Err by (subst Execute_loop.simps) (auto simp: retry_outcome_def)
    next
      case True
      obtain r n sl where rec: "Execute_loop jitter factory p (Suc a) (rp_backoff p d) e = (r, n, sl)"
        by (cases "Execute_loop jitter factory p (Suc a) (rp_backoff p d) e")
      have ih: "retry_outcome factory p (Suc a) (r, n, sl)"
        using "1.IH" [OF refl "1.prems" Err refl] True rec by simp
      have "\<exists>e. factory i = Err e \<and> rp_should_retry p e" if "a \<le> i" "Suc i < n" for i
        using that ih Err True by (cases "i = a") (auto simp: retry_outcome_def)
      then show ?thesis using ih Err True "1.prems" rec
        by (subst Execute_loop.simps) (auto simp: retry_outcome_def)
    qed
  qed
qed

lemma Execute_loop_sleeps:
  "\<forall>s \<in> set (snd (snd (Execute_loop jitter factory p a d e0))). s \<le> rp_max_delay p"
proof (induction jitter factory p a d e0 rule: Execute_loop.induct)
  case (1 jitter factory p a d e0)
  show ?case
  proof (cases "a < unat (rp_max_attempts p)")
    case True
    show ?thesis
    proof (cases "factory a")
      case (Err e)
      show ?thesis
        using "1.IH" [OF refl True Err refl] True Err
        by (subst Execute_loop.simps) (auto simp: actual_delay_def Let_def split: prod.splits)
    qed (use True in \<open>subst Execute_loop.simps, simp\<close>)
  qed (subst Execute_loop.simps, simp)
qed

text \<open>
  Property C35 (retry).  For every factory, policy, jitter and back-off: with \<open>max_attempts\<close> 0 the
  factory is not called and the error is \<open>RetryExhausted\<close>; otherwise between 1 and
  \<open>max_attempts\<close> attempts are made, all but the last failed with an error the policy
  retries, the result is the value of the last attempt if it succeeded and otherwise its
  error (\<open>RetryExhausted\<close> for a default error code), which the policy does not retry unless
  the attempts are used up; one sleep is made before each further attempt and none exceeds
  \<open>max_delay\<close>.
\<close>

theorem retry_correct:
  "(if rp_max_attempts p = 0
    then RetryBuilder_Execute jitter factory p = (Err (make_error_code RetryExhausted), 0, [])
    else retry_outcome factory p 0 (RetryBuilder_Execute jitter factory p)) \<and>
   list_all (\<lambda>s. s \<le> rp_max_delay p) (snd (snd (RetryBuilder_Execute jitter factory p)))"
proof -
  have "RetryBuilder_Execute jitter factory p = (Err (make_error_code RetryExhausted), 0, [])"
    if "rp_max_attempts p = 0"
    using that unfolding RetryBuilder_Execute_def
    by (subst Execute_loop.simps) (simp add: ec_default_def ec_bool_def)
  moreover have "retry_outcome factory p 0 (RetryBuilder_Execute jitter factory p)" if "rp_max_attempts p \<noteq> 0"
    unfolding RetryBuilder_Execute_def
    by (rule Execute_loop_outcome) (use that in \<open>simp add: unat_gt_0\<close>)
  ultimately show ?thesis
    using Execute_loop_sleeps [of jitter factory p] by (auto simp: RetryBuilder_Execute_def list_all_iff)
qed

end
