(* ===== verification/Task.thy ===== *)
theory Task
  imports Raii
begin

text \<open>
  \<open>Task<T>\<close> of \<open>core/task.hpp\<close> (with its \<open>void\<close> specialisation) and \<open>Defer\<close> of
  \<open>core/defer.hpp\<close>: the promise with its continuation, the awaiter with symmetric transfer,
  the owning wrapper, and chains of coroutines that await each other.
\<close>

subsection \<open>The promise\<close>

record 'v TaskPromise =
  tp_result :: "'v option"
  tp_continuation :: handle
  tp_awaited :: bool

definition TaskPromise_init :: "'v TaskPromise" where
  "TaskPromise_init = \<lparr>tp_result = None, tp_continuation = null_handle, tp_awaited = False\<rparr>"

definition TaskPromise_return_value :: "'v \<Rightarrow> 'v TaskPromise \<Rightarrow> 'v TaskPromise" where
  "TaskPromise_return_value v p = p\<lparr>tp_result := Some v\<rparr>"

text \<open>\<open>result_.value()\<close>: \<open>None\<close> where the optional is empty.\<close>

definition TaskPromise_GetResult :: "'v TaskPromise \<Rightarrow> 'v option" where
  "TaskPromise_GetResult p = tp_result p"

text \<open>\<open>None\<close> is the abort of \<open>HOTCOCO_CHECK\<close>.\<close>

definition TaskPromise_SetContinuation :: "handle \<Rightarrow> 'v TaskPromise \<Rightarrow> 'v TaskPromise option" where
  "TaskPromise_SetContinuation cont p =
    (if tp_awaited p then None else Some (p\<lparr>tp_awaited := True, tp_continuation := cont\<rparr>))"

text \<open>The coroutine control is transferred to; \<open>None\<close> is \<open>std::noop_coroutine()\<close>.\<close>

definition FinalAwaiter_await_suspend :: "'v TaskPromise \<Rightarrow> handle option" where
  "FinalAwaiter_await_suspend p =
    (if tp_continuation p \<noteq> null_handle then Some (tp_continuation p) else None)"

subsection \<open>The owner and its awaiter\<close>

record Task =
  task_handle :: handle

definition Task_move :: "Task \<Rightarrow> Task \<times> Task" where
  "Task_move other = (\<lparr>task_handle = task_handle other\<rparr>, other\<lparr>task_handle := null_handle\<rparr>)"

definition Task_assign :: "Task \<Rightarrow> Task \<Rightarrow> Task \<times> Task \<times> handle list" where
  "Task_assign this other =
    (this\<lparr>task_handle := task_handle other\<rparr>, other\<lparr>task_handle := null_handle\<rparr>, resume_if (task_handle this))"

definition Task_destroy :: "Task \<Rightarrow> handle list" where
  "Task_destroy this = resume_if (task_handle this)"

definition Task_res :: "Task \<Rightarrow> handle option" where
  "Task_res t = (if task_handle t \<noteq> null_handle then Some (task_handle t) else None)"

interpretation task: unique_owner Task_res Task_move Task_assign Task_destroy
  by unfold_locales (simp_all add: Task_res_def Task_move_def Task_assign_def Task_destroy_def resume_if_def)

definition TaskAwaiter_await_suspend ::
  "handle \<Rightarrow> handle \<Rightarrow> 'v TaskPromise \<Rightarrow> ('v TaskPromise \<times> handle) option" where
  "TaskAwaiter_await_suspend this awaiting p =
    (case TaskPromise_SetContinuation awaiting p of
       None \<Rightarrow> None
     | Some p' \<Rightarrow> Some (p', this))"

definition TaskAwaiter_await_resume :: "'v TaskPromise \<Rightarrow> 'v option" where
  "TaskAwaiter_await_resume p = TaskPromise_GetResult p"

lemmas Task_defs [op_defs] =
  TaskPromise_init_def TaskPromise_return_value_def TaskPromise_GetResult_def
  TaskPromise_SetContinuation_def FinalAwaiter_await_suspend_def TaskAwaiter_await_suspend_def
  TaskAwaiter_await_resume_def

subsection \<open>The void specialisation\<close>

record TaskVoidPromise =
  tv_continuation :: handle
  tv_awaited :: bool

definition TaskVoidPromise_SetContinuation :: "handle \<Rightarrow> TaskVoidPromise \<Rightarrow> TaskVoidPromise option" where
  "TaskVoidPromise_SetContinuation cont p =
    (if tv_awaited p then None else Some (p\<lparr>tv_awaited := True, tv_continuation := cont\<rparr>))"

definition TaskVoidPromise_FinalAwaiter_await_suspend :: "TaskVoidPromise \<Rightarrow> handle option" where
  "TaskVoidPromise_FinalAwaiter_await_suspend p =
    (if tv_continuation p \<noteq> null_handle then Some (tv_continuation p) else None)"

record TaskVoid =
  taskv_handle :: handle

definition TaskVoid_move :: "TaskVoid \<Rightarrow> TaskVoid \<times> TaskVoid" where
  "TaskVoid_move other = (\<lparr>taskv_handle = taskv_handle other\<rparr>, other\<lparr>taskv_handle := null_handle\<rparr>)"

definition TaskVoid_assign :: "TaskVoid \<Rightarrow> TaskVoid \<Rightarrow> TaskVoid \<times> TaskVoid \<times> handle list" where
  "TaskVoid_assign this other =
    (this\<lparr>taskv_handle := taskv_handle other\<rparr>, other\<lparr>taskv_handle := null_handle\<rparr>, resume_if (taskv_handle this))"

definition TaskVoid_destroy :: "TaskVoid \<Rightarrow> handle list" where
  "TaskVoid_destroy this = resume_if (taskv_handle this)"

definition TaskVoid_res :: "TaskVoid \<Rightarrow> handle option" where
  "TaskVoid_res t = (if taskv_handle t \<noteq> null_handle then Some (taskv_handle t) else None)"

interpretation task_void: unique_owner TaskVoid_res TaskVoid_move TaskVoid_assign TaskVoid_destroy
  by unfold_locales
    (simp_all add: TaskVoid_res_def TaskVoid_move_def TaskVoid_assign_def TaskVoid_destroy_def resume_if_def)

definition TaskVoidAwaiter_await_suspend ::
  "handle \<Rightarrow> handle \<Rightarrow> TaskVoidPromise \<Rightarrow> (TaskVoidPromise \<times> handle) option" where
  "TaskVoidAwaiter_await_suspend this awaiting p =
    (case TaskVoidPromise_SetContinuation awaiting p of
       None \<Rightarrow> None
     | Some p' \<Rightarrow> Some (p', this))"

text \<open>The specialisation forgets the result; otherwise it is the general promise.\<close>

definition void_view :: "'v TaskPromise \<Rightarrow> TaskVoidPromise" where
  "void_view p = \<lparr>tv_continuation = tp_continuation p, tv_awaited = tp_awaited p\<rparr>"

text \<open>
  The \<open>void\<close> specialisation behaves like the general task.  Forgetting the result,
  \<open>SetContinuation\<close>, the awaiter's \<open>await_suspend\<close> and the final awaiter of \<open>Task<void>\<close> do
  exactly what those of \<open>Task<T>\<close> do, the abort on a second await included.
\<close>

theorem task_void_refines:
  "TaskVoidPromise_SetContinuation c (void_view p) = map_option void_view (TaskPromise_SetContinuation c p) \<and>
   TaskVoidAwaiter_await_suspend t c (void_view p) =
     map_option (map_prod void_view id) (TaskAwaiter_await_suspend t c p) \<and>
   TaskVoidPromise_FinalAwaiter_await_suspend (void_view p) = FinalAwaiter_await_suspend p"
  by (simp add: void_view_def Task_defs TaskVoidPromise_SetContinuation_def
      TaskVoidAwaiter_await_suspend_def TaskVoidPromise_FinalAwaiter_await_suspend_def)

subsection \<open>Ownership\<close>

text \<open>
  Coroutine frames are destroyed exactly once.  Take any number of \<open>Task\<close> objects
  that own different frames and any sequence of move constructions, move assignments
  (self-assignment included) and destructions: no frame is destroyed twice, no frame that is
  still owned has been destroyed, and once every object is gone every frame was destroyed.
\<close>

theorem task_frames_destroyed_once:
  assumes "owner_run Task_move Task_assign Task_destroy cs vs = (vs', destroyed)" and "distinct (owned Task_res vs)"
  shows "distinct destroyed \<and> set destroyed \<inter> set (owned Task_res vs') = {} \<and>
         ((\<forall>i. \<not> live vs' i) \<longrightarrow> mset destroyed = mset (owned Task_res vs))"
  using task.released_once [OF assms] task.all_released [OF assms(1)] by auto

theorem task_frames_destroyed_once_witness:
  "owner_run Task_move Task_assign Task_destroy [MoveCtor 0, MoveAssign 0 1, Destroy 1, Destroy 0]
     [Some \<lparr>task_handle = 7\<rparr>] = ([None, None], [7]) \<and>
   mset [7] = mset (owned Task_res [Some \<lparr>task_handle = 7\<rparr>])"
proof -
  have run: "owner_run Task_move Task_assign Task_destroy [MoveCtor 0, MoveAssign 0 1, Destroy 1, Destroy 0]
     [Some \<lparr>task_handle = 7\<rparr>] = ([None, None], [7])"
    by (simp add: Task_move_def Task_assign_def Task_destroy_def live_def)
  have "distinct (owned Task_res [Some \<lparr>task_handle = 7\<rparr>])" by (simp add: owned_def owned_by_def Task_res_def)
  moreover have "\<forall>i. \<not> live [None, None :: Task option] i" by (auto simp: live_def less_Suc_eq nth_Cons')
  ultimately show ?thesis using task_frames_destroyed_once [OF run] run by blast
qed

subsection \<open>Coroutines awaiting each other\<close>

text \<open>
  On one thread at most one coroutine runs; \<open>tk_running\<close> is \<open>None\<close> while control is with the
  event loop.  \<open>Parked\<close> coroutines wait for something else than a task (a timer, a lock).  A coroutine
  may await any task, in whatever state: the check of \<open>SetContinuation\<close> may abort the program, and a task that
  was started otherwise and not awaited before would be resumed where it does not wait for it, which is undefined;
  either ends the run (\<open>tk_end\<close>).  The logs: \<open>tk_awaits\<close> who awaited which task, the last attempt of an
  ended run included; \<open>tk_returned\<close> the argument of each \<open>co_return\<close>; \<open>tk_got\<close> which value
  each \<open>co_await\<close> of a task returned to which coroutine.
\<close>

datatype task_phase = NotStarted | Active | Parked | AwaitingTask handle | Finished

datatype task_end = Going | Aborted | Undefined

record 'v task_world =
  tk_promise :: "handle \<Rightarrow> 'v TaskPromise"
  tk_phase :: "handle \<Rightarrow> task_phase"
  tk_running :: "handle option"
  tk_got :: "(handle \<times> handle \<times> 'v option) list"
  tk_awaits :: "(handle \<times> handle) list"
  tk_returned :: "(handle \<times> 'v) list"
  tk_end :: task_end

definition task_world_init :: "'v task_world" where
  "task_world_init = \<lparr>tk_promise = \<lambda>_. TaskPromise_init, tk_phase = \<lambda>_. NotStarted, tk_running = None, tk_got = [],
     tk_awaits = [], tk_returned = [], tk_end = Going\<rparr>"

inductive task_reach :: "'v task_world \<Rightarrow> bool" where
  tk_start: "task_reach task_world_init"
| tk_root: "task_reach w \<Longrightarrow> tk_end w = Going \<Longrightarrow> tk_running w = None \<Longrightarrow> h \<noteq> 0 \<Longrightarrow> tk_phase w h = NotStarted \<Longrightarrow>
     task_reach (w\<lparr>tk_phase := (tk_phase w)(h := Active), tk_running := Some h\<rparr>)"
| tk_await: "task_reach w \<Longrightarrow> tk_end w = Going \<Longrightarrow> tk_running w = Some h \<Longrightarrow> t \<noteq> 0 \<Longrightarrow> tk_phase w t = NotStarted \<Longrightarrow>
     TaskAwaiter_await_suspend t h (tk_promise w t) = Some (p', nxt) \<Longrightarrow>
     task_reach (w\<lparr>tk_promise := (tk_promise w)(t := p'),
       tk_phase := (tk_phase w)(h := AwaitingTask t, nxt := Active), tk_running := Some nxt,
       tk_awaits := tk_awaits w @ [(h, t)]\<rparr>)"
| tk_await_aborts: "task_reach w \<Longrightarrow> tk_end w = Going \<Longrightarrow> tk_running w = Some h \<Longrightarrow>
     TaskAwaiter_await_suspend t h (tk_promise w t) = None \<Longrightarrow>
     task_reach (w\<lparr>tk_awaits := tk_awaits w @ [(h, t)], tk_end := Aborted\<rparr>)"
| tk_await_started: "task_reach w \<Longrightarrow> tk_end w = Going \<Longrightarrow> tk_running w = Some h \<Longrightarrow> tk_phase w t \<noteq> NotStarted \<Longrightarrow>
     TaskAwaiter_await_suspend t h (tk_promise w t) = Some r \<Longrightarrow>
     task_reach (w\<lparr>tk_awaits := tk_awaits w @ [(h, t)], tk_end := Undefined\<rparr>)"
| tk_park: "task_reach w \<Longrightarrow> tk_end w = Going \<Longrightarrow> tk_running w = Some h \<Longrightarrow>
     task_reach (w\<lparr>tk_phase := (tk_phase w)(h := Parked), tk_running := None\<rparr>)"
| tk_unpark: "task_reach w \<Longrightarrow> tk_end w = Going \<Longrightarrow> tk_running w = None \<Longrightarrow> tk_phase w h = Parked \<Longrightarrow>
     task_reach (w\<lparr>tk_phase := (tk_phase w)(h := Active), tk_running := Some h\<rparr>)"
| tk_return: "task_reach w \<Longrightarrow> tk_end w = Going \<Longrightarrow> tk_running w = Some t \<Longrightarrow>
     p' = TaskPromise_return_value v (tk_promise w t) \<Longrightarrow> FinalAwaiter_await_suspend p' = None \<Longrightarrow>
     task_reach (w\<lparr>tk_promise := (tk_promise w)(t := p'),
       tk_phase := (tk_phase w)(t := Finished), tk_running := None, tk_returned := tk_returned w @ [(t, v)]\<rparr>)"
| tk_return_to: "task_reach w \<Longrightarrow> tk_end w = Going \<Longrightarrow> tk_running w = Some t \<Longrightarrow>
     p' = TaskPromise_return_value v (tk_promise w t) \<Longrightarrow> FinalAwaiter_await_suspend p' = Some c \<Longrightarrow>
     task_reach (w\<lparr>tk_promise := (tk_promise w)(t := p'),
       tk_phase := (tk_phase w)(t := Finished, c := Active), tk_running := Some c,
       tk_got := tk_got w @ [(c, t, TaskAwaiter_await_resume p')], tk_returned := tk_returned w @ [(t, v)]\<rparr>)"

text \<open>The awaits that went through: all but the one that ended the run.\<close>

definition done_awaits :: "'v task_world \<Rightarrow> (handle \<times> handle) list" where
  "done_awaits w = (if tk_end w = Going then tk_awaits w else butlast (tk_awaits w))"

text \<open>
  The invariant: who runs, fresh promises, a coroutine waits for exactly the unfinished task
  whose continuation it is, results of finished tasks, and the log.
\<close>

definition ti_run :: "'v task_world \<Rightarrow> bool" where
  "ti_run w \<longleftrightarrow> (\<forall>h. tk_running w = Some h \<longleftrightarrow> tk_phase w h = Active) \<and> tk_phase w 0 = NotStarted"

definition ti_init :: "'v task_world \<Rightarrow> bool" where
  "ti_init w \<longleftrightarrow> (\<forall>t. tk_phase w t = NotStarted \<longrightarrow> tk_promise w t = TaskPromise_init)"

definition ti_await :: "'v task_world \<Rightarrow> bool" where
  "ti_await w \<longleftrightarrow> (\<forall>c t. tk_phase w c = AwaitingTask t \<longleftrightarrow>
     tp_continuation (tk_promise w t) = c \<and> c \<noteq> 0 \<and> tk_phase w t \<noteq> Finished)"

definition ti_result :: "'v task_world \<Rightarrow> bool" where
  "ti_result w \<longleftrightarrow> (\<forall>t. tk_phase w t = Finished \<longleftrightarrow> tp_result (tk_promise w t) \<noteq> None)"

definition ti_got :: "'v task_world \<Rightarrow> bool" where
  "ti_got w \<longleftrightarrow> distinct (map (fst \<circ> snd) (tk_got w)) \<and>
     (\<forall>c t r. (c, t, r) \<in> set (tk_got w) \<longleftrightarrow>
        tk_phase w t = Finished \<and> tp_continuation (tk_promise w t) = c \<and> c \<noteq> 0 \<and> r = tp_result (tk_promise w t))"

text \<open>The promises and the logs: who awaited, and what was returned.\<close>

definition ti_logs :: "'v task_world \<Rightarrow> bool" where
  "ti_logs w \<longleftrightarrow>
     (\<forall>c t. (c, t) \<in> set (done_awaits w) \<longleftrightarrow> tp_continuation (tk_promise w t) = c \<and> c \<noteq> 0) \<and>
     (\<forall>t. tp_awaited (tk_promise w t) \<longleftrightarrow> t \<in> snd ` set (done_awaits w)) \<and>
     distinct (map snd (done_awaits w)) \<and>
     (\<forall>t v. (t, v) \<in> set (tk_returned w) \<longleftrightarrow> tp_result (tk_promise w t) = Some v) \<and>
     distinct (map fst (tk_returned w))"

definition ti_end :: "'v task_world \<Rightarrow> bool" where
  "ti_end w \<longleftrightarrow> tk_end w = Going \<or>
     (\<exists>as h t. tk_awaits w = as @ [(h, t)] \<and>
        (if t \<in> snd ` set as then tk_end w = Aborted else tk_end w = Undefined \<and> tk_phase w t \<noteq> NotStarted))"

definition task_inv :: "'v task_world \<Rightarrow> bool" where
  "task_inv w \<longleftrightarrow> ti_run w \<and> ti_init w \<and> ti_await w \<and> ti_result w \<and> ti_got w \<and> ti_logs w \<and> ti_end w"

lemma task_invD:
  assumes "task_inv w"
  shows "tk_running w = Some h \<longleftrightarrow> tk_phase w h = Active"
    and "tk_phase w c = AwaitingTask t \<longleftrightarrow>
      tp_continuation (tk_promise w t) = c \<and> c \<noteq> 0 \<and> tk_phase w t \<noteq> Finished"
    and "tk_phase w 0 = NotStarted"
    and "tk_phase w t = NotStarted \<Longrightarrow> tk_promise w t = TaskPromise_init"
    and "tk_phase w t = Finished \<longleftrightarrow> tp_result (tk_promise w t) \<noteq> None"
  using assms unfolding task_inv_def ti_run_def ti_await_def ti_init_def ti_result_def by metis+

lemma ti_logsD:
  assumes "task_inv w"
  shows "(c, t) \<in> set (done_awaits w) \<longleftrightarrow> tp_continuation (tk_promise w t) = c \<and> c \<noteq> 0"
    and "tp_awaited (tk_promise w t) \<longleftrightarrow> t \<in> snd ` set (done_awaits w)"
    and "distinct (map snd (done_awaits w))"
    and "(t, v) \<in> set (tk_returned w) \<longleftrightarrow> tp_result (tk_promise w t) = Some v"
    and "distinct (map fst (tk_returned w))"
  using assms unfolding task_inv_def ti_logs_def by metis+

lemma task_inv_start: "task_inv task_world_init"
  by (simp add: task_inv_def ti_run_def ti_init_def ti_await_def ti_result_def ti_got_def ti_logs_def ti_end_def
      done_awaits_def task_world_init_def TaskPromise_init_def)

lemma active_only:
  assumes "task_inv w" and "tk_running w = Some h"
  shows "tk_phase w x = Active \<longleftrightarrow> x = h"
  using task_invD(1) [OF assms(1), of x] assms(2) by auto

lemma task_inv_await:
  assumes inv: "task_inv w" and going: "tk_end w = Going" and h: "tk_running w = Some h" and t: "t \<noteq> 0" "tk_phase w t = NotStarted"
    and eq: "TaskAwaiter_await_suspend t h (tk_promise w t) = Some (p', nxt)"
  shows "task_inv (w\<lparr>tk_promise := (tk_promise w)(t := p'),
       tk_phase := (tk_phase w)(h := AwaitingTask t, nxt := Active), tk_running := Some nxt,
       tk_awaits := tk_awaits w @ [(h, t)]\<rparr>)" (is "task_inv ?w")
proof -
  have p: "tk_promise w t = TaskPromise_init" by (rule task_invD(4) [OF inv t(2)])
  have nxt: "nxt = t" "tp_continuation p' = h" "tp_result p' = None" "tp_awaited p'" using eq by (auto simp: p Task_defs)
  then have awaited: "tp_awaited p'" "\<not> tp_awaited (tk_promise w t)" by (simp_all add: p TaskPromise_init_def)
  have act: "tk_phase w x = Active \<longleftrightarrow> x = h" for x by (rule active_only [OF inv h])
  have ph: "h \<noteq> t" "h \<noteq> 0" using act [of h] t(2) task_invD(3) [OF inv] by auto
  have aw: "tk_phase w c = AwaitingTask x \<longleftrightarrow>
      tp_continuation (tk_promise w x) = c \<and> c \<noteq> 0 \<and> tk_phase w x \<noteq> Finished" for c x
    by (rule task_invD(2) [OF inv])
  have "ti_run ?w" using task_invD(3) [OF inv] ph t(1) act by (auto simp: ti_run_def nxt)
  moreover have "ti_init ?w" using inv by (auto simp: task_inv_def ti_init_def nxt)
  moreover have "ti_await ?w"
    unfolding ti_await_def
  proof (intro allI)
    fix c x
    show "tk_phase ?w c = AwaitingTask x \<longleftrightarrow>
        tp_continuation (tk_promise ?w x) = c \<and> c \<noteq> 0 \<and> tk_phase ?w x \<noteq> Finished"
      using aw [of c x] aw [of h x] aw [of t x] aw [of c t] act [of h] p ph t(2) nxt
      by (auto simp: TaskPromise_init_def)
  qed
  moreover have "tp_result (tk_promise w h) = None" using task_invD(5) [OF inv, of h] act [of h] by auto
  then have "ti_result ?w"
    using task_invD(5) [OF inv] ph nxt p by (simp add: ti_result_def TaskPromise_init_def)
  moreover have "ti_got ?w" using inv act [of h] t(2) ph nxt by (auto simp: task_inv_def ti_got_def)
  moreover have "ti_logs ?w"
  proof -
    have d: "done_awaits ?w = done_awaits w @ [(h, t)]" using going by (simp add: done_awaits_def)
    have new: "t \<notin> snd ` set (done_awaits w)" using ti_logsD(2) [OF inv] awaited by simp
    have "(c, x) \<in> set (done_awaits ?w) \<longleftrightarrow> tp_continuation (tk_promise ?w x) = c \<and> c \<noteq> 0" for c x
      using ti_logsD(1) [OF inv, of c x] nxt ph new unfolding d by (auto simp: rev_image_eqI)
    moreover have "tp_awaited (tk_promise ?w x) \<longleftrightarrow> x \<in> snd ` set (done_awaits ?w)" for x
      using ti_logsD(2) [OF inv, of x] awaited unfolding d by auto
    moreover have "(x, v) \<in> set (tk_returned ?w) \<longleftrightarrow> tp_result (tk_promise ?w x) = Some v" for x v
      using ti_logsD(4) [OF inv, of x v] nxt p by (auto simp: TaskPromise_init_def)
    ultimately show ?thesis using ti_logsD(3,5) [OF inv] new unfolding ti_logs_def d by auto
  qed
  ultimately show ?thesis using going by (simp add: task_inv_def ti_end_def)
qed

lemma task_inv_ends:
  assumes inv: "task_inv w" and going: "tk_end w = Going"
    and e: "(if t \<in> snd ` set (tk_awaits w) then e = Aborted else e = Undefined \<and> tk_phase w t \<noteq> NotStarted)"
  shows "task_inv (w\<lparr>tk_awaits := tk_awaits w @ [(h, t)], tk_end := e\<rparr>)" (is "task_inv ?w")
proof -
  have "done_awaits ?w = done_awaits w" using going e by (simp add: done_awaits_def split: if_splits)
  then have "ti_logs ?w" using inv by (simp add: task_inv_def ti_logs_def)
  moreover have "ti_end ?w" using e unfolding ti_end_def by auto
  ultimately show ?thesis
    using inv by (simp add: task_inv_def ti_run_def ti_init_def ti_await_def ti_result_def ti_got_def)
qed

text \<open>The check of \<open>SetContinuation\<close> fails exactly for a task that was awaited before.\<close>

lemma await_suspend_None:
  assumes "task_inv w" and "tk_end w = Going"
  shows "TaskAwaiter_await_suspend t h (tk_promise w t) = None \<longleftrightarrow> t \<in> snd ` set (tk_awaits w)"
  using ti_logsD(2) [OF assms(1), of t] assms(2) by (simp add: Task_defs done_awaits_def)

lemma task_inv_move:
  assumes inv: "task_inv w" and going: "tk_end w = Going" and p: "tk_running w = Some h \<and> p = Parked \<and> r = None \<or>
      tk_running w = None \<and> h \<noteq> 0 \<and> (tk_phase w h = NotStarted \<or> tk_phase w h = Parked) \<and> p = Active \<and> r = Some h"
  shows "task_inv (w\<lparr>tk_phase := (tk_phase w)(h := p), tk_running := r\<rparr>)" (is "task_inv ?w")
proof -
  have ph: "tk_phase w h = Active \<or> tk_phase w h = NotStarted \<or> tk_phase w h = Parked"
    using p task_invD(1) [OF inv, of h] by auto
  have h0: "h \<noteq> 0" using p task_invD(1) [OF inv, of h] task_invD(3) [OF inv] by auto
  have aw: "tk_phase w c = AwaitingTask x \<longleftrightarrow>
      tp_continuation (tk_promise w x) = c \<and> c \<noteq> 0 \<and> tk_phase w x \<noteq> Finished" for c x
    by (rule task_invD(2) [OF inv])
  have "ti_run ?w" using p h0 task_invD(1,3) [OF inv] by (auto simp: ti_run_def) (metis option.distinct(1) option.inject)+
  moreover have "ti_init ?w" using inv p by (auto simp: task_inv_def ti_init_def)
  moreover have "ti_await ?w"
    unfolding ti_await_def
  proof (intro allI)
    fix c t
    show "tk_phase ?w c = AwaitingTask t \<longleftrightarrow>
        tp_continuation (tk_promise ?w t) = c \<and> c \<noteq> 0 \<and> tk_phase ?w t \<noteq> Finished"
      using aw [of c t] aw [of h t] p ph by auto
  qed
  moreover have "tp_result (tk_promise w h) = None" using task_invD(5) [OF inv, of h] ph by auto
  then have "ti_result ?w" using task_invD(5) [OF inv] p by (auto simp: ti_result_def)
  moreover have "ti_got ?w" using inv p ph by (auto simp: task_inv_def ti_got_def)
  moreover have "done_awaits ?w = done_awaits w" by (simp add: done_awaits_def)
  then have "ti_logs ?w" using inv by (simp add: task_inv_def ti_logs_def)
  ultimately show ?thesis using going by (simp add: task_inv_def ti_end_def)
qed

text \<open>Returning stores the argument of \<open>co_return\<close>.\<close>

lemma ti_logs_return:
  assumes inv: "task_inv w" and "tp_result (tk_promise w t) = None"
    and "tk_promise w' = (tk_promise w)(t := TaskPromise_return_value v (tk_promise w t))"
    and "tk_awaits w' = tk_awaits w" "tk_end w' = tk_end w" "tk_returned w' = tk_returned w @ [(t, v)]"
  shows "ti_logs w'"
proof -
  have d: "done_awaits w' = done_awaits w" using assms(4,5) by (simp add: done_awaits_def)
  have new: "t \<notin> fst ` set (tk_returned w)" using ti_logsD(4) [OF inv, of t] assms(2) by force
  have "(x, u) \<in> set (tk_returned w') \<longleftrightarrow> tp_result (tk_promise w' x) = Some u" for x u
    using ti_logsD(4) [OF inv, of x u] assms(2,3,6) by (auto simp: TaskPromise_return_value_def)
  moreover have "(c, x) \<in> set (done_awaits w') \<longleftrightarrow> tp_continuation (tk_promise w' x) = c \<and> c \<noteq> 0"
    and "tp_awaited (tk_promise w' x) \<longleftrightarrow> x \<in> snd ` set (done_awaits w')" for c x
    using ti_logsD(1,2) [OF inv] by (simp_all add: d assms(3) TaskPromise_return_value_def)
  ultimately show ?thesis using ti_logsD(3,5) [OF inv] new d assms(6) unfolding ti_logs_def by auto
qed

lemma task_inv_return:
  assumes inv: "task_inv w" and going: "tk_end w = Going" and t: "tk_running w = Some t" and p': "p' = TaskPromise_return_value v (tk_promise w t)"
    and f: "FinalAwaiter_await_suspend p' = None"
  shows "task_inv (w\<lparr>tk_promise := (tk_promise w)(t := p'), tk_phase := (tk_phase w)(t := Finished), tk_running := None,
       tk_returned := tk_returned w @ [(t, v)]\<rparr>)" (is "task_inv ?w")
proof -
  have act: "tk_phase w x = Active \<longleftrightarrow> x = t" for x by (rule active_only [OF inv t])
  have c: "tp_continuation (tk_promise w t) = 0" "tp_continuation p' = 0" "tp_result p' = Some v"
    using f p' by (auto simp: Task_defs split: if_splits)
  have t0: "t \<noteq> 0" using act [of t] task_invD(3) [OF inv] by auto
  have aw: "tk_phase w x = AwaitingTask y \<longleftrightarrow>
      tp_continuation (tk_promise w y) = x \<and> x \<noteq> 0 \<and> tk_phase w y \<noteq> Finished" for x y
    by (rule task_invD(2) [OF inv])
  have "ti_run ?w" using act t0 task_invD(3) [OF inv] by (auto simp: ti_run_def)
  moreover have "ti_init ?w" using inv by (auto simp: task_inv_def ti_init_def)
  moreover have "ti_await ?w" unfolding ti_await_def
  proof (intro allI)
    fix x y
    show "tk_phase ?w x = AwaitingTask y \<longleftrightarrow>
        tp_continuation (tk_promise ?w y) = x \<and> x \<noteq> 0 \<and> tk_phase ?w y \<noteq> Finished"
      using aw [of x y] aw [of t y] act [of t] c by auto
  qed
  moreover have "ti_result ?w" using inv c by (auto simp: task_inv_def ti_result_def)
  moreover have "ti_got ?w" using inv c act [of t] by (auto simp: task_inv_def ti_got_def)
  moreover have "tp_result (tk_promise w t) = None" using task_invD(5) [OF inv, of t] act [of t] by auto
  then have "ti_logs ?w" using p' by (intro ti_logs_return [OF inv]) simp_all
  ultimately show ?thesis using going by (simp add: task_inv_def ti_end_def)
qed

lemma task_inv_return_to:
  assumes inv: "task_inv w" and going: "tk_end w = Going" and t: "tk_running w = Some t" and p': "p' = TaskPromise_return_value v (tk_promise w t)"
    and f: "FinalAwaiter_await_suspend p' = Some c"
  shows "task_inv (w\<lparr>tk_promise := (tk_promise w)(t := p'),
       tk_phase := (tk_phase w)(t := Finished, c := Active), tk_running := Some c,
       tk_got := tk_got w @ [(c, t, TaskAwaiter_await_resume p')], tk_returned := tk_returned w @ [(t, v)]\<rparr>)" (is "task_inv ?w")
proof -
  have act: "tk_phase w x = Active \<longleftrightarrow> x = t" for x by (rule active_only [OF inv t])
  have c: "tp_continuation (tk_promise w t) = c" "tp_continuation p' = c" "tp_result p' = Some v" "c \<noteq> 0"
    using f p' by (auto simp: Task_defs split: if_splits)
  have t0: "t \<noteq> 0" using act [of t] task_invD(3) [OF inv] by auto
  have aw: "tk_phase w x = AwaitingTask y \<longleftrightarrow>
      tp_continuation (tk_promise w y) = x \<and> x \<noteq> 0 \<and> tk_phase w y \<noteq> Finished" for x y
    by (rule task_invD(2) [OF inv])
  have pc: "tk_phase w c = AwaitingTask t" using aw [of c t] act [of t] c by auto
  have ct: "c \<noteq> t" using pc act [of t] by auto
  have res: "TaskAwaiter_await_resume p' = Some v" using c by (simp add: Task_defs)
  have "ti_run ?w" using act t0 c(4) task_invD(3) [OF inv] by (auto simp: ti_run_def)
  moreover have "ti_init ?w" using inv pc by (auto simp: task_inv_def ti_init_def)
  moreover have "ti_await ?w" unfolding ti_await_def
  proof (intro allI)
    fix x y
    show "tk_phase ?w x = AwaitingTask y \<longleftrightarrow>
        tp_continuation (tk_promise ?w y) = x \<and> x \<noteq> 0 \<and> tk_phase ?w y \<noteq> Finished"
      using aw [of x y] aw [of t y] aw [of c y] act [of t] pc ct c by auto
  qed
  moreover have "ti_result ?w"
    using task_invD(5) [OF inv] task_invD(5) [OF inv, of c] c ct pc by (auto simp: ti_result_def)
  moreover have "ti_got ?w"
  proof -
    have g: "(x, y, r) \<in> set (tk_got w) \<longleftrightarrow>
        tk_phase w y = Finished \<and> tp_continuation (tk_promise w y) = x \<and> x \<noteq> 0 \<and> r = tp_result (tk_promise w y)" for x y r
      using inv unfolding task_inv_def ti_got_def by metis
    have d: "distinct (map (fst \<circ> snd) (tk_got w))" using inv unfolding task_inv_def ti_got_def by metis
    have "t \<notin> (fst \<circ> snd) ` set (tk_got w)" using g act [of t] by force
    then show ?thesis using d ct c pc act [of t] unfolding ti_got_def res by (auto simp: g comp_def)
  qed
  moreover have "tp_result (tk_promise w t) = None" using task_invD(5) [OF inv, of t] act [of t] by auto
  then have "ti_logs ?w" using p' by (intro ti_logs_return [OF inv]) simp_all
  ultimately show ?thesis using going by (simp add: task_inv_def ti_end_def)
qed

lemma task_reach_inv: "task_reach w \<Longrightarrow> task_inv w"
proof (induction rule: task_reach.induct)
  case tk_start
  show ?case by (rule task_inv_start)
next
  case (tk_root w h)
  then show ?case by (intro task_inv_move) auto
next
  case (tk_await w h t p' nxt)
  then show ?case by (intro task_inv_await)
next
  case (tk_await_aborts w h t)
  then show ?case using await_suspend_None [of w t h] by (intro task_inv_ends) auto
next
  case (tk_await_started w h t r)
  then show ?case using await_suspend_None [of w t h] by (intro task_inv_ends) auto
next
  case (tk_park w h)
  then show ?case by (intro task_inv_move) auto
next
  case (tk_unpark w h)
  then show ?case using task_invD(3) [of w] by (intro task_inv_move) auto
next
  case (tk_return w t p' v)
  then show ?case by (intro task_inv_return)
next
  case (tk_return_to w t p' v c)
  then show ?case by (intro task_inv_return_to)
qed

text \<open>
  Property C10 (a task's value reaches its awaiter exactly once).  In every run of coroutines that
  start, await tasks (of any state), park and return: a \<open>co_await\<close> on a task \<open>t\<close> returned \<open>r\<close> to \<open>c\<close> if and only
  if \<open>c\<close> awaited \<open>t\<close> and \<open>r\<close> is the value that \<open>t\<close> gave to \<open>co_return\<close>; no task returns or delivers twice;
  \<open>c\<close> is suspended on \<open>t\<close> exactly if it awaited \<open>t\<close> and \<open>t\<close> has not returned.  The program is aborted
  exactly at the second \<open>co_await\<close> of a task, and the only other way out is to await a task that was
  started without being awaited.
\<close>

theorem task_value_delivered_once:
  assumes "task_reach w"
  shows "((c, t, r) \<in> set (tk_got w) \<longleftrightarrow>
            (c, t) \<in> set (done_awaits w) \<and> (\<exists>v. (t, v) \<in> set (tk_returned w) \<and> r = Some v)) \<and>
         distinct (map (fst \<circ> snd) (tk_got w)) \<and> distinct (map fst (tk_returned w)) \<and>
         (tk_phase w c = AwaitingTask t \<longleftrightarrow> (c, t) \<in> set (done_awaits w) \<and> t \<notin> fst ` set (tk_returned w)) \<and>
         (tk_end w = Aborted \<longleftrightarrow> \<not> distinct (map snd (tk_awaits w))) \<and>
         (tk_end w = Undefined \<longrightarrow>
            tk_phase w (snd (last (tk_awaits w))) \<noteq> NotStarted \<and> snd (last (tk_awaits w)) \<notin> snd ` set (done_awaits w))"
proof -
  note inv = task_reach_inv [OF assms] and logs = ti_logsD [OF task_reach_inv [OF assms]]
  have ret: "t \<in> fst ` set (tk_returned w) \<longleftrightarrow> tp_result (tk_promise w t) \<noteq> None" for t
    using logs(4) [of t] by (force simp: image_iff)
  have got: "(c, t, r) \<in> set (tk_got w) \<longleftrightarrow>
            tk_phase w t = Finished \<and> tp_continuation (tk_promise w t) = c \<and> c \<noteq> 0 \<and> r = tp_result (tk_promise w t)"
    and dist: "distinct (map (fst \<circ> snd) (tk_got w))"
    using inv unfolding task_inv_def ti_got_def by metis+
  have "(c, t, r) \<in> set (tk_got w) \<longleftrightarrow>
            (c, t) \<in> set (done_awaits w) \<and> (\<exists>v. (t, v) \<in> set (tk_returned w) \<and> r = Some v)"
    unfolding got logs(1,4) task_invD(5) [OF inv] by auto
  moreover have "tk_phase w c = AwaitingTask t \<longleftrightarrow> (c, t) \<in> set (done_awaits w) \<and> t \<notin> fst ` set (tk_returned w)"
    unfolding task_invD(2) [OF inv] logs(1) ret task_invD(5) [OF inv] by auto
  moreover have "(tk_end w = Aborted \<longleftrightarrow> \<not> distinct (map snd (tk_awaits w))) \<and>
         (tk_end w = Undefined \<longrightarrow>
            tk_phase w (snd (last (tk_awaits w))) \<noteq> NotStarted \<and> snd (last (tk_awaits w)) \<notin> snd ` set (done_awaits w))"
  proof (cases "tk_end w = Going")
    case True
    then show ?thesis using logs(3) by (simp add: done_awaits_def)
  next
    case False
    then obtain as h t' where "tk_awaits w = as @ [(h, t')]" and
      "if t' \<in> snd ` set as then tk_end w = Aborted else tk_end w = Undefined \<and> tk_phase w t' \<noteq> NotStarted"
      using inv unfolding task_inv_def ti_end_def by blast
    then show ?thesis using logs(3) False by (simp add: done_awaits_def split: if_splits)
  qed
  ultimately show ?thesis using dist logs(5) by blast
qed

text \<open>Coroutine 1 awaits task 2, which returns 42; then it awaits 2 again.\<close>

theorem task_value_delivered_once_witness:
  "\<exists>w :: nat task_world. task_reach w \<and> tk_returned w = [(2, 42)] \<and> (1, 2, Some 42) \<in> set (tk_got w) \<and> tk_end w = Aborted"
proof -
  let ?w0 = "task_world_init :: nat task_world"
  have 1: "task_reach (?w0\<lparr>tk_phase := (tk_phase ?w0)(1 := Active), tk_running := Some 1\<rparr>)" (is "task_reach ?w1")
    by (rule tk_root [OF tk_start]) (simp_all add: task_world_init_def)
  let ?p = "\<lparr>tp_result = None, tp_continuation = 1, tp_awaited = True\<rparr> :: nat TaskPromise"
  have 2: "task_reach (?w1\<lparr>tk_promise := (tk_promise ?w1)(2 := ?p),
      tk_phase := (tk_phase ?w1)(1 := AwaitingTask 2, 2 := Active), tk_running := Some 2,
      tk_awaits := tk_awaits ?w1 @ [(1, 2)]\<rparr>)" (is "task_reach ?w2")
    by (rule tk_await [OF 1]) (simp_all add: task_world_init_def Task_defs)
  let ?q = "TaskPromise_return_value 42 (tk_promise ?w2 2)"
  have 3: "task_reach (?w2\<lparr>tk_promise := (tk_promise ?w2)(2 := ?q),
      tk_phase := (tk_phase ?w2)(2 := Finished, 1 := Active), tk_running := Some 1,
      tk_got := tk_got ?w2 @ [(1, 2, TaskAwaiter_await_resume ?q)], tk_returned := tk_returned ?w2 @ [(2, 42)]\<rparr>)"
    (is "task_reach ?w3")
    by (rule tk_return_to [OF 2, where v = 42]) (simp_all add: task_world_init_def Task_defs)
  have 4: "task_reach (?w3\<lparr>tk_awaits := tk_awaits ?w3 @ [(1, 2)], tk_end := Aborted\<rparr>)" (is "task_reach ?w4")
    by (rule tk_await_aborts [OF 3]) (simp_all add: task_world_init_def Task_defs)
  have w4: "tk_returned ?w4 = [(2, 42)]" "tk_end ?w4 = Aborted" "done_awaits ?w4 = [(1, 2)]"
    by (simp_all add: task_world_init_def done_awaits_def)
  have "(1, 2, Some 42) \<in> set (tk_got ?w4)"
    unfolding conjunct1 [OF task_value_delivered_once [OF 4]] w4 by simp
  with 4 w4 show ?thesis by blast
qed

subsection \<open>Defer\<close>

text \<open>The cleanup function is known by its identity; a released value is one call of it.\<close>

record Defer =
  df_cleanup :: "nat option"

definition Defer_init :: "nat \<Rightarrow> Defer" where
  "Defer_init f = \<lparr>df_cleanup = Some f\<rparr>"

definition Defer_move :: "Defer \<Rightarrow> Defer \<times> Defer" where
  "Defer_move other = (\<lparr>df_cleanup = df_cleanup other\<rparr>, other\<lparr>df_cleanup := None\<rparr>)"

definition Defer_assign :: "Defer \<Rightarrow> Defer \<Rightarrow> Defer \<times> Defer \<times> nat list" where
  "Defer_assign this other =
    (this\<lparr>df_cleanup := df_cleanup other\<rparr>, other\<lparr>df_cleanup := None\<rparr>,
     (case df_cleanup this of Some f \<Rightarrow> [f] | None \<Rightarrow> []))"

definition Defer_destroy :: "Defer \<Rightarrow> nat list" where
  "Defer_destroy this = (case df_cleanup this of Some f \<Rightarrow> [f] | None \<Rightarrow> [])"

definition Defer_Cancel :: "Defer \<Rightarrow> Defer" where
  "Defer_Cancel this = this\<lparr>df_cleanup := None\<rparr>"

definition Defer_ExecuteNow :: "Defer \<Rightarrow> Defer \<times> nat list" where
  "Defer_ExecuteNow this =
    (case df_cleanup this of Some f \<Rightarrow> (this\<lparr>df_cleanup := None\<rparr>, [f]) | None \<Rightarrow> (this, []))"

interpretation deferred: unique_owner df_cleanup Defer_move Defer_assign Defer_destroy
  by unfold_locales (simp_all add: Defer_move_def Defer_assign_def Defer_destroy_def opt_list_def)

text \<open>
  Deferred actions: However \<open>Defer\<close> objects are moved around, each pending action
  runs exactly once by the time all objects are gone; \<open>ExecuteNow\<close> runs it at once and the
  destructor then does nothing; after \<open>Cancel\<close> it does not run.
\<close>

theorem defer_runs_once:
  assumes "owner_run Defer_move Defer_assign Defer_destroy cs vs = (vs', calls)" and "\<And>i. \<not> live vs' i"
  shows "mset calls = mset (owned df_cleanup vs) \<and>
         snd (Defer_ExecuteNow d) = opt_list (df_cleanup d) \<and> Defer_destroy (fst (Defer_ExecuteNow d)) = [] \<and>
         Defer_destroy (Defer_Cancel d) = []"
  using deferred.all_released [OF assms]
  by (auto simp: Defer_ExecuteNow_def Defer_destroy_def Defer_Cancel_def split: option.splits)

theorem defer_runs_once_witness:
  "mset [3] = mset (owned df_cleanup [Some (Defer_init 3)]) \<and>
   owner_run Defer_move Defer_assign Defer_destroy [MoveCtor 0, Destroy 0, Destroy 1] [Some (Defer_init 3)] =
     ([None, None], [3])"
proof -
  have run: "owner_run Defer_move Defer_assign Defer_destroy [MoveCtor 0, Destroy 0, Destroy 1] [Some (Defer_init 3)] =
     ([None, None], [3])"
    by (simp add: Defer_move_def Defer_destroy_def live_def Defer_init_def)
  have "\<And>i. \<not> live [None, None :: Defer option] i" by (auto simp: live_def less_Suc_eq nth_Cons')
  from defer_runs_once [OF run this, of "Defer_init 3"] run show ?thesis by blast
qed

end
