(* ===== verification/When_All.thy ===== *)
theory When_All
  imports Task
begin

text \<open>
  \<open>core/when_all.hpp\<close>: the latch, the wrapper coroutine of each child, and the awaitable that
  starts all children and waits for them.  The awaitable's \<open>await_suspend\<close> starts the
  children one after the other and then calls \<open>TryAwait\<close>; a child may complete inside its
  \<open>Start\<close> or at any later time on any thread.
\<close>

subsection \<open>The latch\<close>

record WhenAllLatch =
  wl_count :: size_t
  wl_awaiting :: handle

definition WhenAllLatch_init :: "size_t \<Rightarrow> WhenAllLatch" where
  "WhenAllLatch_init n = \<lparr>wl_count = n + 1, wl_awaiting = null_handle\<rparr>"

definition WhenAllLatch_TryAwait :: "handle \<Rightarrow> WhenAllLatch \<Rightarrow> bool \<times> WhenAllLatch" where
  "WhenAllLatch_TryAwait awaiting l =
    (let l = l\<lparr>wl_awaiting := awaiting\<rparr>; old = wl_count l
     in (old > 1, l\<lparr>wl_count := old - 1\<rparr>))"

text \<open>The handle resumed, if any.\<close>

definition WhenAllLatch_Notify :: "WhenAllLatch \<Rightarrow> WhenAllLatch \<times> handle list" where
  "WhenAllLatch_Notify l =
    (let old = wl_count l in (l\<lparr>wl_count := old - 1\<rparr>, if old = 1 then [wl_awaiting l] else []))"

lemmas WhenAllLatch_defs [op_defs] =
  WhenAllLatch_init_def WhenAllLatch_TryAwait_def WhenAllLatch_Notify_def

subsection \<open>The wrapper of a child\<close>

record 'v WhenAllTaskPromise =
  wp_latch :: bool
  wp_result :: "'v option"

text \<open>\<open>wp_latch\<close>: whether \<open>SetLatch\<close> has given the promise the latch of the awaitable.\<close>

definition WhenAllTaskPromise_init :: "'v WhenAllTaskPromise" where
  "WhenAllTaskPromise_init = \<lparr>wp_latch = False, wp_result = None\<rparr>"

definition WhenAllTask_Start :: "'v WhenAllTaskPromise \<Rightarrow> 'v WhenAllTaskPromise" where
  "WhenAllTask_Start p = p\<lparr>wp_latch := True\<rparr>"

definition WhenAllTaskPromise_return_value :: "'v \<Rightarrow> 'v WhenAllTaskPromise \<Rightarrow> 'v WhenAllTaskPromise" where
  "WhenAllTaskPromise_return_value v p = p\<lparr>wp_result := Some v\<rparr>"

text \<open>\<open>final_suspend\<close>: the notification; \<open>None\<close> where the latch pointer would be null.\<close>

definition CompletionNotifier_await_suspend ::
  "'v WhenAllTaskPromise \<Rightarrow> WhenAllLatch \<Rightarrow> (WhenAllLatch \<times> handle list) option" where
  "CompletionNotifier_await_suspend p l = (if wp_latch p then Some (WhenAllLatch_Notify l) else None)"

record WhenAllTask =
  wt_handle :: handle

definition WhenAllTask_move :: "WhenAllTask \<Rightarrow> WhenAllTask \<times> WhenAllTask" where
  "WhenAllTask_move other = (\<lparr>wt_handle = wt_handle other\<rparr>, other\<lparr>wt_handle := null_handle\<rparr>)"

definition WhenAllTask_assign :: "WhenAllTask \<Rightarrow> WhenAllTask \<Rightarrow> WhenAllTask \<times> WhenAllTask \<times> handle list" where
  "WhenAllTask_assign this other =
    (this\<lparr>wt_handle := wt_handle other\<rparr>, other\<lparr>wt_handle := null_handle\<rparr>, resume_if (wt_handle this))"

definition WhenAllTask_destroy :: "WhenAllTask \<Rightarrow> handle list" where
  "WhenAllTask_destroy this = resume_if (wt_handle this)"

definition WhenAllTask_res :: "WhenAllTask \<Rightarrow> handle option" where
  "WhenAllTask_res t = (if wt_handle t \<noteq> null_handle then Some (wt_handle t) else None)"

interpretation when_all_task: unique_owner WhenAllTask_res WhenAllTask_move WhenAllTask_assign WhenAllTask_destroy
  by unfold_locales
    (simp_all add: WhenAllTask_res_def WhenAllTask_move_def WhenAllTask_assign_def WhenAllTask_destroy_def resume_if_def)

subsection \<open>The awaitable\<close>

text \<open>
  \<open>Starting k\<close>: the loop of \<open>await_suspend\<close> has started \<open>k\<close> children.  \<open>Waiting\<close>: \<open>TryAwait\<close>
  returned true and the parent is suspended.  \<open>Joined\<close>: the parent runs on, because
  \<open>await_ready\<close> or \<open>TryAwait\<close> let it pass or because the last child resumed it.
\<close>

datatype parent_phase = Starting nat | Waiting | Joined

datatype child_phase = Unstarted | Running | Completed

record 'v when_all =
  wa_latch :: WhenAllLatch
  wa_tasks :: "'v WhenAllTaskPromise list"
  wa_phase :: "child_phase list"
  wa_parent :: parent_phase
  wa_resumed :: "handle list"

definition WhenAllVectorAwaitable_init :: "nat \<Rightarrow> 'v when_all" where
  "WhenAllVectorAwaitable_init n =
    \<lparr>wa_latch = WhenAllLatch_init (word_of_nat n), wa_tasks = replicate n WhenAllTaskPromise_init,
     wa_phase = replicate n Unstarted,
     wa_parent = (if n = 0 then Joined else Starting 0), wa_resumed = []\<rparr>"

definition WhenAllVectorAwaitable_await_ready :: "'v when_all \<Rightarrow> bool" where
  "WhenAllVectorAwaitable_await_ready a \<longleftrightarrow> wa_tasks a = []"

definition WhenAllVectorAwaitable_await_resume :: "'v when_all \<Rightarrow> 'v option list" where
  "WhenAllVectorAwaitable_await_resume a = map wp_result (wa_tasks a)"

datatype 'v wa_label = StartChild | ChildReturns nat 'v | ParentAwaits

text \<open>One step, with the parent's handle \<open>h\<close>.\<close>

fun when_all_next :: "handle \<Rightarrow> 'v wa_label \<Rightarrow> 'v when_all \<Rightarrow> 'v when_all option" where
  "when_all_next h StartChild a =
     (case wa_parent a of
        Starting k \<Rightarrow>
          if k < length (wa_tasks a)
          then Some (a\<lparr>wa_tasks := (wa_tasks a)[k := WhenAllTask_Start (wa_tasks a ! k)],
                      wa_phase := (wa_phase a)[k := Running], wa_parent := Starting (Suc k)\<rparr>)
          else None
      | _ \<Rightarrow> None)"
| "when_all_next h (ChildReturns i v) a =
     (if i < length (wa_phase a) \<and> wa_phase a ! i = Running
      then (let p = WhenAllTaskPromise_return_value v (wa_tasks a ! i) in
            case CompletionNotifier_await_suspend p (wa_latch a) of
              None \<Rightarrow> None
            | Some (l, resumed) \<Rightarrow>
                Some (a\<lparr>wa_tasks := (wa_tasks a)[i := p], wa_phase := (wa_phase a)[i := Completed],
                        wa_latch := l, wa_resumed := wa_resumed a @ resumed,
                        wa_parent := (if resumed \<noteq> [] then Joined else wa_parent a)\<rparr>))
      else None)"
| "when_all_next h ParentAwaits a =
     (case wa_parent a of
        Starting k \<Rightarrow>
          if k = length (wa_tasks a)
          then (let (b, l) = WhenAllLatch_TryAwait h (wa_latch a)
                in Some (a\<lparr>wa_latch := l, wa_parent := if b then Waiting else Joined\<rparr>))
          else None
      | _ \<Rightarrow> None)"

inductive when_all_reach :: "nat \<Rightarrow> handle \<Rightarrow> 'v when_all \<Rightarrow> bool" for n h where
  wa_start: "when_all_reach n h (WhenAllVectorAwaitable_init n)"
| wa_step: "when_all_reach n h a \<Longrightarrow> when_all_next h l a = Some a' \<Longrightarrow> when_all_reach n h a'"

definition completed :: "child_phase list \<Rightarrow> nat" where
  "completed ps = length (filter (\<lambda>p. p = Completed) ps)"

lemma completed_update:
  "i < length ps \<Longrightarrow> ps ! i \<noteq> Completed \<Longrightarrow> completed (ps[i := Completed]) = Suc (completed ps)"
  by (induction ps arbitrary: i) (auto simp: completed_def nth_Cons' split: nat.splits)

lemma completed_update_other:
  "i < length ps \<Longrightarrow> ps ! i \<noteq> Completed \<Longrightarrow> p \<noteq> Completed \<Longrightarrow> completed (ps[i := p]) = completed ps"
  by (induction ps arbitrary: i) (auto simp: completed_def nth_Cons' split: nat.splits)

lemma completed_le: "completed ps \<le> length ps"
  by (simp add: completed_def)

lemma completed_all: "completed ps = length ps \<Longrightarrow> p \<in> set ps \<Longrightarrow> p = Completed"
  unfolding completed_def by (metis (mono_tags, lifting) filter_id_conv length_filter_less less_irrefl)

subsection \<open>The invariant\<close>

text \<open>What is left to count: one per child that has not completed and one for the parent.\<close>

definition expected :: "nat \<Rightarrow> 'v when_all \<Rightarrow> nat" where
  "expected n a = (case wa_parent a of Starting _ \<Rightarrow> Suc n | _ \<Rightarrow> n) - completed (wa_phase a)"

definition wa_inv :: "nat \<Rightarrow> handle \<Rightarrow> 'v when_all \<Rightarrow> bool" where
  "wa_inv n h a \<longleftrightarrow>
     length (wa_tasks a) = n \<and> length (wa_phase a) = n \<and>
     unat (wl_count (wa_latch a)) = expected n a \<and>
     (\<forall>i < n. (wa_phase a ! i \<noteq> Unstarted \<longrightarrow> wp_latch (wa_tasks a ! i)) \<and>
              (wa_phase a ! i = Completed \<longleftrightarrow> wp_result (wa_tasks a ! i) \<noteq> None)) \<and>
     (case wa_parent a of
        Starting k \<Rightarrow> k \<le> n \<and> (\<forall>i < n. wa_phase a ! i = Unstarted \<longleftrightarrow> k \<le> i) \<and> wa_resumed a = []
      | Waiting \<Rightarrow> wl_awaiting (wa_latch a) = h \<and> completed (wa_phase a) < n \<and> wa_resumed a = []
      | Joined \<Rightarrow> completed (wa_phase a) = n \<and> (wa_resumed a = [] \<or> wa_resumed a = [h]))"

lemma wa_inv_init:
  assumes "n < 2 ^ 64 - 1" and "0 < n"
  shows "wa_inv n h (WhenAllVectorAwaitable_init n)"
proof -
  have "unat (word_of_nat n :: 64 word) = n" using assms by (simp add: unsigned_of_nat take_bit_nat_eq_self)
  then have "unat (word_of_nat n + 1 :: 64 word) = Suc n" using assms by (simp add: unat_inc)
  then show ?thesis using assms(2)
    by (simp add: wa_inv_def expected_def completed_def WhenAllVectorAwaitable_init_def WhenAllLatch_init_def
        WhenAllTaskPromise_init_def)
qed

lemma wa_inv_start_child:
  assumes inv: "wa_inv n h a" and eq: "when_all_next h StartChild a = Some a'"
  shows "wa_inv n h a'"
proof -
  obtain k where k: "wa_parent a = Starting k" "k < n"
    and a': "a' = a\<lparr>wa_tasks := (wa_tasks a)[k := WhenAllTask_Start (wa_tasks a ! k)],
                      wa_phase := (wa_phase a)[k := Running], wa_parent := Starting (Suc k)\<rparr>"
    using eq inv by (auto simp: wa_inv_def split: parent_phase.splits if_splits)
  have len: "length (wa_phase a) = n" "length (wa_tasks a) = n" and u: "wa_phase a ! k = Unstarted"
    using inv k by (auto simp: wa_inv_def)
  have "completed ((wa_phase a)[k := Running]) = completed (wa_phase a)"
    by (rule completed_update_other) (use k len u in auto)
  moreover have "wp_result (wa_tasks a ! k) = None" using inv k(2) u by (auto simp: wa_inv_def)
  ultimately show ?thesis using inv k len u
    by (auto simp: a' wa_inv_def expected_def nth_list_update WhenAllTask_Start_def)
qed

lemma wa_inv_try_await:
  assumes inv: "wa_inv n h a" and eq: "when_all_next h ParentAwaits a = Some a'"
  shows "wa_inv n h a'"
proof -
  obtain l b where st: "wa_parent a = Starting n" and l: "WhenAllLatch_TryAwait h (wa_latch a) = (b, l)"
    and a': "a' = a\<lparr>wa_latch := l, wa_parent := if b then Waiting else Joined\<rparr>"
    using eq inv by (auto simp: wa_inv_def split: parent_phase.splits if_splits prod.splits)
  have cnt: "unat (wl_count (wa_latch a)) = Suc n - completed (wa_phase a)" and "length (wa_phase a) = n"
    using inv st by (auto simp: wa_inv_def expected_def)
  then have le: "completed (wa_phase a) \<le> n" using completed_le [of "wa_phase a"] by simp
  have pos: "wl_count (wa_latch a) \<noteq> 0" using cnt le by auto
  have b: "b \<longleftrightarrow> completed (wa_phase a) < n"
    using l cnt le by (auto simp: WhenAllLatch_TryAwait_def Let_def word_less_nat_alt)
  have l': "wl_awaiting l = h" "unat (wl_count l) = n - completed (wa_phase a)"
    using l cnt le pos by (auto simp: WhenAllLatch_TryAwait_def Let_def unat_dec)
  show ?thesis using inv st b l' le by (auto simp: a' wa_inv_def expected_def)
qed

lemma wa_inv_child_returns:
  assumes inv: "wa_inv n h a" and eq: "when_all_next h (ChildReturns i v) a = Some a'"
  shows "wa_inv n h a'"
proof -
  let ?p = "WhenAllTaskPromise_return_value v (wa_tasks a ! i)"
  obtain l ws where i: "i < n" "wa_phase a ! i = Running" and nf: "WhenAllLatch_Notify (wa_latch a) = (l, ws)"
    and a': "a' = a\<lparr>wa_tasks := (wa_tasks a)[i := ?p], wa_phase := (wa_phase a)[i := Completed],
                        wa_latch := l, wa_resumed := wa_resumed a @ ws,
                        wa_parent := (if ws \<noteq> [] then Joined else wa_parent a)\<rparr>"
    using eq inv by (auto simp: wa_inv_def CompletionNotifier_await_suspend_def Let_def
        split: if_splits prod.splits)
  have len: "length (wa_phase a) = n" "length (wa_tasks a) = n" and cnt: "unat (wl_count (wa_latch a)) = expected n a"
    using inv by (auto simp: wa_inv_def)
  have c: "completed ((wa_phase a)[i := Completed]) = Suc (completed (wa_phase a))"
    by (rule completed_update) (use i len in auto)
  have le: "Suc (completed (wa_phase a)) \<le> n"
    using completed_le [of "(wa_phase a)[i := Completed]"] c len by simp
  have notj: "wa_parent a \<noteq> Joined" using inv le by (auto simp: wa_inv_def)
  have pos: "wl_count (wa_latch a) \<noteq> 0"
    using cnt le notj by (auto simp: expected_def split: parent_phase.splits)
  have "wl_count (wa_latch a) = 1 \<longleftrightarrow> expected n a = 1"
    unfolding cnt [symmetric] by (metis unat_1 word_unat_eq_iff)
  then have ws: "ws = (if expected n a = 1 then [wl_awaiting (wa_latch a)] else [])"
    using nf by (auto simp: WhenAllLatch_Notify_def Let_def)
  have cl: "unat (wl_count l) = expected n a - 1" "wl_awaiting l = wl_awaiting (wa_latch a)"
    using nf cnt pos by (auto simp: WhenAllLatch_Notify_def Let_def unat_dec)
  have last: "expected n a = 1 \<longleftrightarrow> wa_parent a = Waiting \<and> Suc (completed (wa_phase a)) = n"
    using le notj by (auto simp: expected_def split: parent_phase.splits)
  have tasks: "\<forall>j < n. (((wa_phase a)[i := Completed]) ! j \<noteq> Unstarted \<longrightarrow> wp_latch (((wa_tasks a)[i := ?p]) ! j)) \<and>
      (((wa_phase a)[i := Completed]) ! j = Completed \<longleftrightarrow> wp_result (((wa_tasks a)[i := ?p]) ! j) \<noteq> None)"
    using inv i len by (auto simp: wa_inv_def nth_list_update WhenAllTaskPromise_return_value_def)
  show ?thesis
  proof (cases "wa_parent a")
    case (Starting k)
    then have "ws = []" using ws last by simp
    with Starting inv i len c cl le tasks show ?thesis
      by (auto simp: a' wa_inv_def expected_def nth_list_update)
  next
    case Waiting
    then have "wl_awaiting (wa_latch a) = h" "wa_resumed a = []" using inv by (auto simp: wa_inv_def)
    with Waiting inv i len c cl le tasks ws last show ?thesis
      by (auto simp: a' wa_inv_def expected_def)
  qed (use notj in simp)
qed

lemma when_all_reach_inv:
  assumes "when_all_reach n h a" and "0 < n" and "n < 2 ^ 64 - 1"
  shows "wa_inv n h a"
  using assms(1)
proof (induction rule: when_all_reach.induct)
  case wa_start
  show ?case by (rule wa_inv_init [OF assms(3,2)])
next
  case (wa_step a l a')
  then show ?case
    by (cases l) (auto intro: wa_inv_start_child wa_inv_child_returns wa_inv_try_await simp del: when_all_next.simps)
qed

subsection \<open>Properties\<close>

text \<open>
  Property C3 (fork and join).  \<open>WhenAll\<close> on \<open>n\<close> tasks, whatever children complete during or after
  their start and in whatever order: the parent goes on if and only if it has called
  \<open>TryAwait\<close> and all children have completed; it is resumed at most once, with its own
  handle, and only by the last child; it is never left waiting when all children are done;
  and when it goes on the results are those of the children, in the order of the tasks.
\<close>

theorem when_all_joins_once:
  assumes "when_all_reach n h a" and "0 < n" and "n < 2 ^ 64 - 1"
  shows "(wa_parent a = Joined \<longrightarrow> (\<forall>i < n. wa_phase a ! i = Completed)) \<and>
         (wa_parent a = Waiting \<longrightarrow> (\<exists>i < n. wa_phase a ! i \<noteq> Completed)) \<and>
         (wa_resumed a = [] \<or> wa_resumed a = [h] \<and> wa_parent a = Joined) \<and>
         (wa_parent a = Joined \<longrightarrow>
            (let rs = WhenAllVectorAwaitable_await_resume a in
             length rs = n \<and> (\<forall>i < n. rs ! i = wp_result (wa_tasks a ! i) \<and> rs ! i \<noteq> None)))"
proof -
  note inv = when_all_reach_inv [OF assms]
  have len: "length (wa_phase a) = n" "length (wa_tasks a) = n" using inv by (auto simp: wa_inv_def)
  have j: "wa_phase a ! i = Completed" if "wa_parent a = Joined" "i < n" for i
    using completed_all [of "wa_phase a"] inv that len by (auto simp: wa_inv_def)
  have w: "\<exists>i < n. wa_phase a ! i \<noteq> Completed" if "wa_parent a = Waiting"
  proof (rule ccontr)
    assume "\<not> ?thesis"
    then have "filter (\<lambda>p. p = Completed) (wa_phase a) = wa_phase a"
      using len by (auto simp: filter_id_conv in_set_conv_nth)
    then show False using inv that len by (auto simp: wa_inv_def completed_def)
  qed
  have r: "wa_resumed a = [] \<or> wa_resumed a = [h] \<and> wa_parent a = Joined"
    using inv by (auto simp: wa_inv_def split: parent_phase.splits)
  have s: "wp_result (wa_tasks a ! i) \<noteq> None" if "wa_parent a = Joined" "i < n" for i
    using j [OF that] inv that by (auto simp: wa_inv_def)
  show ?thesis
    using j w r s len by (auto simp: WhenAllVectorAwaitable_await_resume_def Let_def)
qed

fun when_all_exec :: "handle \<Rightarrow> 'v wa_label list \<Rightarrow> 'v when_all \<Rightarrow> 'v when_all option" where
  "when_all_exec h [] a = Some a"
| "when_all_exec h (l # ls) a = (case when_all_next h l a of None \<Rightarrow> None | Some a' \<Rightarrow> when_all_exec h ls a')"

lemma when_all_exec_reach:
  "when_all_reach n h a \<Longrightarrow> when_all_exec h ls a = Some a' \<Longrightarrow> when_all_reach n h a'"
  by (induction ls arbitrary: a) (auto split: option.splits intro: wa_step simp del: when_all_next.simps)

theorem when_all_joins_once_witness:
  "\<exists>a :: nat when_all. when_all_reach 1 5 a \<and> wa_resumed a = [5] \<and> wa_parent a = Joined \<and>
     WhenAllVectorAwaitable_await_resume a ! 0 \<noteq> None"
proof -
  obtain a :: "nat when_all" where
    ex: "when_all_exec 5 [StartChild, ParentAwaits, ChildReturns 0 9] (WhenAllVectorAwaitable_init 1) = Some a"
    and p: "wa_parent a = Joined" "wa_resumed a = [5]"
    by (simp add: WhenAllVectorAwaitable_init_def WhenAllLatch_defs WhenAllTaskPromise_init_def
        WhenAllTask_Start_def WhenAllTaskPromise_return_value_def CompletionNotifier_await_suspend_def)
  have r: "when_all_reach 1 5 a" by (rule when_all_exec_reach [OF wa_start ex])
  have "\<forall>i < 1. WhenAllVectorAwaitable_await_resume a ! i \<noteq> None"
    using when_all_joins_once [OF r zero_less_one] p(1) unfolding Let_def by (simp, metis)
  then have "WhenAllVectorAwaitable_await_resume a ! 0 \<noteq> None" by blast
  then show ?thesis using r p by blast
qed

end
