(* ===== verification/Race.thy ===== *)
theory Race
  imports Event Errors Result
begin

text \<open>
  First-completion races: \<open>WhenAny\<close> of \<open>core/when_any.hpp\<close> and \<open>WithTimeout\<close> of
  \<open>core/timeout.hpp\<close>.  In both, children compete for an atomic flag; the one whose
  \<open>compare_exchange_strong\<close> succeeds stores its outcome in the shared state and sets the
  event the caller waits on.  The three accesses are separate steps here, so that other
  children and the caller may run in between.
\<close>

subsection \<open>The protocol\<close>

datatype 'v racer = Racing | Won 'v | Stored | Finished

text \<open>
  \<open>Cas i v\<close>: the task of child \<open>i\<close> has returned \<open>v\<close> and the child does its
  \<open>compare_exchange_strong\<close>; \<open>Store i\<close>, \<open>Notify i\<close>: it writes the outcome, it sets the
  event.  \<open>CallerReady\<close>, \<open>CallerSuspend\<close>, \<open>CallerResume\<close>: the caller's \<open>co_await notify.Wait()\<close>.
\<close>

datatype 'v race_label = Cas nat 'v | Store nat | Notify nat | CallerReady | CallerSuspend | CallerResume

record ('s, 'v) race =
  rc_shared :: 's
  rc_children :: "'v racer list"
  rc_caller :: "handle \<Rightarrow> gate_phase"

text \<open>
  The steps over the operations of a concrete state: \<open>cas\<close>, \<open>store\<close>, the event \<open>ev\<close> and
  its update \<open>put\<close>; \<open>c\<close> is the caller's handle.
\<close>

definition caller_step ::
  "('s \<Rightarrow> AsyncEvent) \<Rightarrow> (AsyncEvent \<Rightarrow> 's \<Rightarrow> 's) \<Rightarrow> event_op gate_label \<Rightarrow> ('s, 'v) race \<Rightarrow> ('s, 'v) race option" where
  "caller_step ev put l r =
    (case gate_next EventWait_await_ready EventWait_await_suspend event_act l (ev (rc_shared r)) (rc_caller r) of
       None \<Rightarrow> None
     | Some (e, ph) \<Rightarrow> Some (r\<lparr>rc_shared := put e (rc_shared r), rc_caller := ph\<rparr>))"

fun race_next ::
  "('s \<Rightarrow> bool \<times> 's) \<Rightarrow> (nat \<Rightarrow> 'v \<Rightarrow> 's \<Rightarrow> 's) \<Rightarrow> ('s \<Rightarrow> AsyncEvent) \<Rightarrow> (AsyncEvent \<Rightarrow> 's \<Rightarrow> 's) \<Rightarrow>
   handle \<Rightarrow> 'v race_label \<Rightarrow> ('s, 'v) race \<Rightarrow> ('s, 'v) race option" where
  "race_next cas store ev put c (Cas i v) r =
     (if i < length (rc_children r) \<and> rc_children r ! i = Racing
      then (let (won, s) = cas (rc_shared r)
            in Some (r\<lparr>rc_shared := s, rc_children := (rc_children r)[i := if won then Won v else Finished]\<rparr>))
      else None)"
| "race_next cas store ev put c (Store i) r =
     (if i < length (rc_children r)
      then (case rc_children r ! i of
              Won v \<Rightarrow> Some (r\<lparr>rc_shared := store i v (rc_shared r), rc_children := (rc_children r)[i := Stored]\<rparr>)
            | _ \<Rightarrow> None)
      else None)"
| "race_next cas store ev put c (Notify i) r =
     (if i < length (rc_children r) \<and> rc_children r ! i = Stored
      then caller_step ev put (GOp OpSet (snd (AsyncEvent_Set (ev (rc_shared r)))))
             (r\<lparr>rc_children := (rc_children r)[i := Finished]\<rparr>)
      else None)"
| "race_next cas store ev put c CallerReady r = caller_step ev put (GCheck c) r"
| "race_next cas store ev put c CallerSuspend r = caller_step ev put (GPark c) r"
| "race_next cas store ev put c CallerResume r = caller_step ev put (GResume c) r"

fun race_exec ::
  "('s \<Rightarrow> bool \<times> 's) \<Rightarrow> (nat \<Rightarrow> 'v \<Rightarrow> 's \<Rightarrow> 's) \<Rightarrow> ('s \<Rightarrow> AsyncEvent) \<Rightarrow> (AsyncEvent \<Rightarrow> 's \<Rightarrow> 's) \<Rightarrow>
   handle \<Rightarrow> 'v race_label list \<Rightarrow> ('s, 'v) race \<Rightarrow> ('s, 'v) race option" where
  "race_exec cas store ev put c [] r = Some r"
| "race_exec cas store ev put c (l # ls) r =
     (case race_next cas store ev put c l r of None \<Rightarrow> None | Some r' \<Rightarrow> race_exec cas store ev put c ls r')"

text \<open>The child that came first, and what it brought.\<close>

fun first_cas :: "'v race_label list \<Rightarrow> (nat \<times> 'v) option" where
  "first_cas [] = None"
| "first_cas (Cas i v # ls) = Some (i, v)"
| "first_cas (_ # ls) = first_cas ls"

definition race_start :: "'s \<Rightarrow> nat \<Rightarrow> ('s, 'v) race" where
  "race_start s n = \<lparr>rc_shared = s, rc_children = replicate n Racing, rc_caller = (\<lambda>_. Outside)\<rparr>"

subsection \<open>The contract and what follows from it\<close>

text \<open>
  \<open>claimed\<close> reads the flag, \<open>fresh\<close> says that no outcome has been stored, \<open>answer\<close> is what
  the caller computes from the shared state after its wait, \<open>val i v\<close> what it should be
  when child \<open>i\<close> came first with \<open>v\<close>.
\<close>

locale race_state =
  fixes cas :: "'s \<Rightarrow> bool \<times> 's" and store :: "nat \<Rightarrow> 'v \<Rightarrow> 's \<Rightarrow> 's"
    and ev :: "'s \<Rightarrow> AsyncEvent" and put :: "AsyncEvent \<Rightarrow> 's \<Rightarrow> 's"
    and claimed :: "'s \<Rightarrow> bool" and fresh :: "'s \<Rightarrow> bool"
    and answer :: "'s \<Rightarrow> 'r option" and val :: "nat \<Rightarrow> 'v \<Rightarrow> 'r"
  assumes cas_fst: "fst (cas s) \<longleftrightarrow> \<not> claimed s"
    and cas_snd: "claimed (snd (cas s))" "ev (snd (cas s)) = ev s"
      "fresh (snd (cas s)) \<longleftrightarrow> fresh s" "answer (snd (cas s)) = answer s"
    and store_keeps: "claimed (store i v s) \<longleftrightarrow> claimed s" "ev (store i v s) = ev s"
    and store_answer: "fresh s \<Longrightarrow> answer (store i v s) = Some (val i v)"
    and put_ev: "ev (put e s) = e"
    and put_keeps: "claimed (put e s) \<longleftrightarrow> claimed s" "fresh (put e s) \<longleftrightarrow> fresh s" "answer (put e s) = answer s"
begin

definition winner_ok :: "'v racer \<Rightarrow> nat \<Rightarrow> 'v \<Rightarrow> 's \<Rightarrow> bool" where
  "winner_ok p i v s \<longleftrightarrow>
    (case p of
       Racing \<Rightarrow> False
     | Won v' \<Rightarrow> v' = v \<and> fresh s \<and> \<not> ev_signaled (ev s)
     | Stored \<Rightarrow> answer s = Some (val i v) \<and> \<not> ev_signaled (ev s)
     | Finished \<Rightarrow> answer s = Some (val i v) \<and> ev_signaled (ev s))"

definition children_ok :: "(nat \<times> 'v) option \<Rightarrow> 's \<Rightarrow> 'v racer list \<Rightarrow> bool" where
  "children_ok w s ps \<longleftrightarrow>
    (case w of
       None \<Rightarrow> \<not> claimed s \<and> fresh s \<and> \<not> ev_signaled (ev s) \<and> (\<forall>j < length ps. ps ! j = Racing)
     | Some (i, v) \<Rightarrow> claimed s \<and> i < length ps \<and> winner_ok (ps ! i) i v s \<and>
         (\<forall>j < length ps. j \<noteq> i \<longrightarrow> ps ! j = Racing \<or> ps ! j = Finished))"

definition caller_ok :: "handle \<Rightarrow> AsyncEvent \<Rightarrow> (handle \<Rightarrow> gate_phase) \<Rightarrow> bool" where
  "caller_ok c e ph \<longleftrightarrow> gate_inv EventWait_await_ready ev_waiters e ph \<and>
     (ph c = Due \<or> ph c = Through \<longrightarrow> ev_signaled e) \<and> (\<forall>h. h \<noteq> c \<longrightarrow> ph h = Outside)"

definition race_inv :: "handle \<Rightarrow> (nat \<times> 'v) option \<Rightarrow> ('s, 'v) race \<Rightarrow> bool" where
  "race_inv c w r \<longleftrightarrow> children_ok w (rc_shared r) (rc_children r) \<and> caller_ok c (ev (rc_shared r)) (rc_caller r)"

definition winner_after :: "(nat \<times> 'v) option \<Rightarrow> 'v race_label \<Rightarrow> (nat \<times> 'v) option" where
  "winner_after w l = (case w of Some x \<Rightarrow> Some x | None \<Rightarrow> (case l of Cas i v \<Rightarrow> Some (i, v) | _ \<Rightarrow> None))"

lemma winner_after_other [simp]:
  "winner_after w (Store i) = w" "winner_after w (Notify i) = w" "winner_after w CallerReady = w"
  "winner_after w CallerSuspend = w" "winner_after w CallerResume = w"
  by (simp_all add: winner_after_def split: option.splits)

lemma active_winner:
  assumes "children_ok w s ps" and "i < length ps" and "ps ! i \<noteq> Racing" and "ps ! i \<noteq> Finished"
  shows "\<exists>v. w = Some (i, v) \<and> winner_ok (ps ! i) i v s"
proof (cases w)
  case None
  with assms show ?thesis by (simp add: children_ok_def)
next
  case (Some x)
  obtain k v where x: "x = (k, v)" by (cases x)
  have "k = i" using assms by (auto simp: children_ok_def Some x)
  with assms show ?thesis by (simp add: children_ok_def Some x)
qed

lemma winner_signaled:
  "winner_ok p i v s \<Longrightarrow> (ev_signaled (ev s) \<longleftrightarrow> p = Finished) \<and> (p = Finished \<longrightarrow> answer s = Some (val i v))"
  by (cases p) (simp_all add: winner_ok_def)

lemma children_ok_put:
  "ev_signaled e = ev_signaled (ev s) \<Longrightarrow> children_ok w (put e s) ps = children_ok w s ps"
  by (auto simp: children_ok_def winner_ok_def put_ev put_keeps split: option.splits racer.splits)

text \<open>The caller's own steps keep the flag of the event.\<close>

lemma caller_own_step:
  assumes "caller_ok c e ph" and "l = GCheck c \<or> l = GPark c \<or> l = GResume c"
    and "gate_next EventWait_await_ready EventWait_await_suspend event_act l e ph = Some (e', ph')"
  shows "caller_ok c e' ph'" and "ev_signaled e' = ev_signaled e"
proof -
  have inv: "gate_inv EventWait_await_ready ev_waiters e' ph'"
    using event.next_preserves assms(1,3) by (auto simp: caller_ok_def)
  have rest: "(ph' c = Due \<or> ph' c = Through \<longrightarrow> ev_signaled e') \<and> (\<forall>h. h \<noteq> c \<longrightarrow> ph' h = Outside) \<and>
      ev_signaled e' = ev_signaled e"
    using assms by (auto simp: caller_ok_def AsyncEvent_defs split: if_splits prod.splits)
  from inv rest show "caller_ok c e' ph'" by (auto simp: caller_ok_def)
  from rest show "ev_signaled e' = ev_signaled e" by simp
qed

lemma caller_step_inv:
  assumes "race_inv c w r" and "l = GCheck c \<or> l = GPark c \<or> l = GResume c" and "caller_step ev put l r = Some r'"
  shows "race_inv c w r'"
proof -
  from assms(3) obtain e ph where
    n: "gate_next EventWait_await_ready EventWait_await_suspend event_act l (ev (rc_shared r)) (rc_caller r) = Some (e, ph)"
    and r': "r' = r\<lparr>rc_shared := put e (rc_shared r), rc_caller := ph\<rparr>"
    by (auto simp: caller_step_def split: option.splits)
  from caller_own_step [OF _ assms(2) n] assms(1) show ?thesis
    by (auto simp: race_inv_def r' put_ev children_ok_put)
qed

lemma notify_inv:
  assumes "race_inv c w r" and "race_next cas store ev put c (Notify i) r = Some r'"
  shows "race_inv c w r'"
proof -
  let ?e = "ev (rc_shared r)" and ?r = "r\<lparr>rc_children := (rc_children r)[i := Finished]\<rparr>"
  from assms(2) obtain e ph where i: "i < length (rc_children r)" "rc_children r ! i = Stored"
    and n: "gate_next EventWait_await_ready EventWait_await_suspend event_act
              (GOp OpSet (snd (AsyncEvent_Set ?e))) ?e (rc_caller r) = Some (e, ph)"
    and r': "r' = ?r\<lparr>rc_shared := put e (rc_shared r), rc_caller := ph\<rparr>"
    by (auto simp: caller_step_def split: if_splits option.splits)
  have inv: "children_ok w (rc_shared r) (rc_children r)" "caller_ok c ?e (rc_caller r)"
    using assms(1) by (auto simp: race_inv_def)
  from active_winner [OF inv(1) i(1)] i(2) obtain v where w: "w = Some (i, v)" by auto
  have e: "e = fst (AsyncEvent_Set ?e)" "ph = (\<lambda>h. if h \<in> set (snd (AsyncEvent_Set ?e)) then Due else rc_caller r h)"
    using n by (auto split: prod.splits if_splits)
  have sig: "ev_signaled e" unfolding e by (simp add: AsyncEvent_defs)
  have "gate_inv EventWait_await_ready ev_waiters e ph"
    using event.next_preserves [OF _ n] inv(2) by (auto simp: caller_ok_def)
  moreover have "rc_caller r h = Parked" if "h \<in> set (snd (AsyncEvent_Set ?e))" for h
    using inv(2) that by (auto simp: caller_ok_def gate_inv_def AsyncEvent_defs split: if_splits)
  then have "h = c" if "h \<in> set (snd (AsyncEvent_Set ?e))" for h
    using inv(2) that unfolding caller_ok_def by (metis gate_phase.distinct(3))
  ultimately have "caller_ok c e ph" using inv(2) sig unfolding caller_ok_def e(2) by (metis (full_types))
  moreover have "children_ok w (put e (rc_shared r)) ((rc_children r)[i := Finished])"
    using inv(1) i sig by (auto simp: children_ok_def w winner_ok_def put_ev put_keeps nth_list_update)
  ultimately show ?thesis by (simp add: race_inv_def r' put_ev)
qed

lemma cas_inv:
  assumes "race_inv c w r" and "race_next cas store ev put c (Cas i v) r = Some r'"
  shows "race_inv c (winner_after w (Cas i v)) r'"
proof -
  obtain won s where cs: "cas (rc_shared r) = (won, s)" by (cases "cas (rc_shared r)")
  note c = cas_fst [of "rc_shared r"] cas_snd [of "rc_shared r"]
  from assms(2) cs have i: "i < length (rc_children r)" "rc_children r ! i = Racing"
    and r': "r' = r\<lparr>rc_shared := s, rc_children := (rc_children r)[i := if won then Won v else Finished]\<rparr>"
    by (auto split: if_splits)
  have inv: "children_ok w (rc_shared r) (rc_children r)" "caller_ok c (ev s) (rc_caller r)"
    using assms(1) c cs by (auto simp: race_inv_def)
  have "children_ok (winner_after w (Cas i v)) s ((rc_children r)[i := if won then Won v else Finished])"
  proof (cases w)
    case None
    with inv(1) c cs i show ?thesis
      by (auto simp: children_ok_def winner_after_def winner_ok_def nth_list_update)
  next
    case (Some x)
    obtain k u where x: "x = (k, u)" by (cases x)
    have "k \<noteq> i" using inv(1) i by (auto simp: children_ok_def Some x winner_ok_def)
    with inv(1) c cs i show ?thesis
      by (auto simp: children_ok_def winner_after_def Some x winner_ok_def nth_list_update split: racer.splits)
  qed
  with inv(2) show ?thesis by (simp add: race_inv_def r')
qed

lemma store_inv:
  assumes "race_inv c w r" and "race_next cas store ev put c (Store i) r = Some r'"
  shows "race_inv c w r'"
proof -
  from assms(2) obtain v where i: "i < length (rc_children r)" "rc_children r ! i = Won v"
    and r': "r' = r\<lparr>rc_shared := store i v (rc_shared r), rc_children := (rc_children r)[i := Stored]\<rparr>"
    by (auto split: if_splits racer.splits)
  have inv: "children_ok w (rc_shared r) (rc_children r)" using assms(1) by (auto simp: race_inv_def)
  from active_winner [OF inv i(1)] i(2) have w: "w = Some (i, v)" by (auto simp: winner_ok_def)
  have "children_ok w (store i v (rc_shared r)) ((rc_children r)[i := Stored])"
    using inv i by (auto simp: children_ok_def w winner_ok_def nth_list_update store_keeps store_answer)
  with assms(1) show ?thesis by (simp add: race_inv_def r' store_keeps)
qed

lemma next_inv:
  assumes "race_inv c w r" and "race_next cas store ev put c l r = Some r'"
  shows "race_inv c (winner_after w l) r'"
proof (cases l)
  case (Cas i v)
  show ?thesis using cas_inv [OF assms [unfolded Cas]] unfolding Cas .
next
  case (Store i)
  show ?thesis using store_inv [OF assms [unfolded Store]] unfolding Store by simp
next
  case (Notify i)
  show ?thesis using notify_inv [OF assms [unfolded Notify]] unfolding Notify by simp
next
  case CallerReady
  show ?thesis using caller_step_inv [OF assms(1), of "GCheck c"] assms(2) by (simp add: CallerReady)
next
  case CallerSuspend
  show ?thesis using caller_step_inv [OF assms(1), of "GPark c"] assms(2) by (simp add: CallerSuspend)
next
  case CallerResume
  show ?thesis using caller_step_inv [OF assms(1), of "GResume c"] assms(2) by (simp add: CallerResume)
qed

lemma exec_inv:
  "race_inv c w r \<Longrightarrow> race_exec cas store ev put c ls r = Some r' \<Longrightarrow>
   race_inv c (case w of None \<Rightarrow> first_cas ls | Some x \<Rightarrow> Some x) r'"
proof (induction ls arbitrary: w r)
  case Nil
  then show ?case by (cases w) auto
next
  case (Cons l ls)
  then obtain r1 where n: "race_next cas store ev put c l r = Some r1" and x: "race_exec cas store ev put c ls r1 = Some r'"
    by (auto split: option.splits)
  from Cons.IH [OF next_inv [OF Cons.prems(1) n] x] show ?case
    by (cases l) (auto simp: winner_after_def split: option.splits)
qed

lemma start_inv:
  assumes "\<not> claimed s" and "fresh s" and "ev s = AsyncEvent_init"
  shows "race_inv c None (race_start s n)"
  using assms event_start by (simp add: race_inv_def race_start_def children_ok_def caller_ok_def AsyncEvent_init_def)

lemma first_wins:
  assumes "race_exec cas store ev put c ls (race_start s n) = Some r"
    and "\<not> claimed s" and "fresh s" and "ev s = AsyncEvent_init"
  shows "rc_caller r c = Through \<Longrightarrow>
           \<exists>i v. first_cas ls = Some (i, v) \<and> i < length (rc_children r) \<and> answer (rc_shared r) = Some (val i v)"
    and "rc_caller r c = Parked \<Longrightarrow> 0 < length (rc_children r) \<Longrightarrow> \<exists>j < length (rc_children r). rc_children r ! j \<noteq> Finished"
proof -
  have inv: "race_inv c (first_cas ls) r"
    using exec_inv [OF start_inv [OF assms(2-4)] assms(1)] by simp
  then have ok: "children_ok (first_cas ls) (rc_shared r) (rc_children r)" by (simp add: race_inv_def)
  {
    assume "rc_caller r c = Through"
    with inv have sig: "ev_signaled (ev (rc_shared r))" by (simp add: race_inv_def caller_ok_def)
    show "\<exists>i v. first_cas ls = Some (i, v) \<and> i < length (rc_children r) \<and> answer (rc_shared r) = Some (val i v)"
    proof (cases "first_cas ls")
      case None
      with ok sig show ?thesis by (simp add: children_ok_def)
    next
      case (Some x)
      obtain i v where "x = (i, v)" by (cases x)
      with ok sig Some winner_signaled [of _ i v "rc_shared r"] show ?thesis by (auto simp: children_ok_def)
    qed
  }
  {
    assume p: "rc_caller r c = Parked" and n: "0 < length (rc_children r)"
    from inv p have sig: "\<not> ev_signaled (ev (rc_shared r))"
      by (auto simp: race_inv_def caller_ok_def gate_inv_def EventWait_await_ready_def)
    show "\<exists>j < length (rc_children r). rc_children r ! j \<noteq> Finished"
    proof (cases "first_cas ls")
      case None
      with ok n show ?thesis by (auto simp: children_ok_def)
    next
      case (Some x)
      obtain i v where "x = (i, v)" by (cases x)
      with ok sig Some winner_signaled [of _ i v "rc_shared r"] show ?thesis by (auto simp: children_ok_def)
    qed
  }
qed

end

end
