(* ===== verification/When_Any.thy ===== *)
theory When_Any
  imports Race Decimal
begin

text \<open>
  \<open>WhenAny\<close> (\<open>core/when_any.hpp\<close>), \<open>AsyncSleep\<close> (\<open>io/timer.hpp\<close>) and \<open>WithTimeout\<close>
  (\<open>core/timeout.hpp\<close>) as interpretations of the race protocol.  A child coroutine is split
  at its atomic accesses: \<open>_cas\<close> is the compare-exchange, \<open>_store\<close> the assignment of the
  outcome, \<open>_notify\<close> the \<open>Set\<close> of the event; run without interruption they make up the
  whole child.
\<close>

subsection \<open>WhenAny\<close>

record 'v WhenAnyResult =
  war_index :: size_t
  war_value :: 'v

record 'v WhenAnySharedState =
  was_notify :: AsyncEvent
  was_result :: "'v WhenAnyResult option"
  was_first_completed :: bool

definition WhenAnySharedState_init :: "'v WhenAnySharedState" where
  "WhenAnySharedState_init = \<lparr>was_notify = AsyncEvent_init, was_result = None, was_first_completed = False\<rparr>"

definition WhenAnyChild_cas :: "'v WhenAnySharedState \<Rightarrow> bool \<times> 'v WhenAnySharedState" where
  "WhenAnyChild_cas s = (if was_first_completed s then (False, s) else (True, s\<lparr>was_first_completed := True\<rparr>))"

definition WhenAnyChild_store :: "nat \<Rightarrow> 'v \<Rightarrow> 'v WhenAnySharedState \<Rightarrow> 'v WhenAnySharedState" where
  "WhenAnyChild_store index v s = s\<lparr>was_result := Some \<lparr>war_index = word_of_nat index, war_value = v\<rparr>\<rparr>"

definition WhenAnyChild_notify :: "AsyncEvent \<Rightarrow> 'v WhenAnySharedState \<Rightarrow> 'v WhenAnySharedState" where
  "WhenAnyChild_notify e s = s\<lparr>was_notify := e\<rparr>"

text \<open>The body of a child after \<open>co_await user_task\<close>; \<open>T = void\<close> is the instance at \<open>unit\<close>.\<close>

definition MakeWhenAnyChild :: "nat \<Rightarrow> 'v \<Rightarrow> 'v WhenAnySharedState \<Rightarrow> 'v WhenAnySharedState \<times> handle list" where
  "MakeWhenAnyChild index v s =
    (let (won, s) = WhenAnyChild_cas s
     in if won
        then (let s = WhenAnyChild_store index v s; (e, ws) = AsyncEvent_Set (was_notify s)
              in (WhenAnyChild_notify e s, ws))
        else (s, []))"

text \<open>One child per task, with the position of the task as its index.\<close>

definition MakeWhenAnyController :: "nat \<Rightarrow> 'v WhenAnySharedState \<Rightarrow> ('v WhenAnySharedState, 'v) race" where
  "MakeWhenAnyController n state = race_start state n"

text \<open>The call: the error on an empty vector, else the race on a fresh state.\<close>

definition WhenAny :: "nat \<Rightarrow> (('v WhenAnySharedState, 'v) race, error_code) Result" where
  "WhenAny n =
    (if n = 0 then Err (make_error_code InvalidArgument)
     else Ok (MakeWhenAnyController n WhenAnySharedState_init))"

text \<open>What it returns after its wait; \<open>None\<close> where \<open>result.value()\<close> would throw.\<close>

definition WhenAny_return :: "'v WhenAnySharedState \<Rightarrow> ('v WhenAnyResult, error_code) Result option" where
  "WhenAny_return s = map_option Ok (was_result s)"

lemmas WhenAny_defs [op_defs] =
  WhenAnySharedState_init_def WhenAnyChild_cas_def WhenAnyChild_store_def WhenAnyChild_notify_def
  MakeWhenAnyController_def WhenAny_def WhenAny_return_def

interpretation when_any: race_state WhenAnyChild_cas WhenAnyChild_store was_notify WhenAnyChild_notify
  was_first_completed "\<lambda>s. was_result s = None" WhenAny_return
  "\<lambda>i v. Ok \<lparr>war_index = word_of_nat i, war_value = v\<rparr>"
  by unfold_locales (simp_all add: WhenAny_defs)

abbreviation when_any_exec ::
  "handle \<Rightarrow> 'v race_label list \<Rightarrow> ('v WhenAnySharedState, 'v) race \<Rightarrow> ('v WhenAnySharedState, 'v) race option" where
  "when_any_exec \<equiv> race_exec WhenAnyChild_cas WhenAnyChild_store was_notify WhenAnyChild_notify"

lemma when_any_child_steps:
  assumes "i < length (rc_children r)" and "rc_children r ! i = Racing" and "\<not> was_first_completed (rc_shared r)"
  shows "\<exists>r'. when_any_exec c [Cas i v, Store i, Notify i] r = Some r' \<and>
           rc_shared r' = fst (MakeWhenAnyChild i v (rc_shared r))"
  using assms
  by (auto simp: caller_step_def WhenAnyChild_cas_def WhenAnyChild_store_def WhenAnyChild_notify_def
      MakeWhenAnyChild_def split: prod.splits)

text \<open>
  Property C18 (the first of \<open>WhenAny\<close>).  An empty vector gives \<open>InvalidArgument\<close>.  Otherwise, in
  every interleaving of the children's atomic accesses and the caller's wait: the caller goes
  on only if some child has done its compare-exchange, and then it returns the index and the
  value of the child that did so first, however many others completed since; and it is not
  left suspended when all children have finished.
\<close>

theorem when_any_first_wins:
  assumes "WhenAny n = Ok r0" and "when_any_exec c ls r0 = Some r"
  shows "(rc_caller r c = Through \<longrightarrow>
            (\<exists>i v. first_cas ls = Some (i, v) \<and> i < length (rc_children r) \<and>
               WhenAny_return (rc_shared r) = Some (Ok \<lparr>war_index = word_of_nat i, war_value = v\<rparr>))) \<and>
         (rc_caller r c = Parked \<longrightarrow> (\<exists>j < length (rc_children r). rc_children r ! j \<noteq> Finished)) \<and>
         length (rc_children r) = n \<and>
         (WhenAny 0 :: (('v WhenAnySharedState, 'v) race, error_code) Result) = Err (make_error_code InvalidArgument)"
proof -
  have n: "0 < n" and r0: "r0 = race_start WhenAnySharedState_init n"
    using assms(1) by (auto simp: WhenAny_defs split: if_splits)
  have len: "length (rc_children r') = length (rc_children q)" if "when_any_exec c ls q = Some r'" for q r' ls
    using that
  proof (induction ls arbitrary: q)
    case (Cons l ls)
    then obtain q1 where q: "race_next WhenAnyChild_cas WhenAnyChild_store was_notify WhenAnyChild_notify c l q = Some q1"
      and "when_any_exec c ls q1 = Some r'" by (auto split: option.splits)
    from Cons.IH [OF this(2)] q show ?case
      by (cases l) (auto simp: caller_step_def split: if_splits racer.splits option.splits prod.splits)
  qed simp
  have "length (rc_children r) = n" using len [OF assms(2)] by (simp add: r0 race_start_def)
  then show ?thesis
    using when_any.first_wins [OF assms(2) [unfolded r0]] n by (auto simp: WhenAny_defs)
qed

theorem when_any_first_wins_witness:
  "\<exists>r0 r :: (nat WhenAnySharedState, nat) race. WhenAny 2 = Ok r0 \<and>
     when_any_exec 9 [CallerReady, Cas 1 70, CallerSuspend, Cas 0 60, Store 1, Notify 1, CallerResume] r0 = Some r \<and>
     rc_caller r 9 = Through \<and> WhenAny_return (rc_shared r) = Some (Ok \<lparr>war_index = 1, war_value = 70\<rparr>)"
proof -
  let ?ls = "[CallerReady, Cas 1 70, CallerSuspend, Cas 0 60, Store 1, Notify 1, CallerResume] :: nat race_label list"
  let ?r0 = "MakeWhenAnyController 2 WhenAnySharedState_init :: (nat WhenAnySharedState, nat) race"
  have r0: "WhenAny 2 = Ok ?r0" by (simp add: WhenAny_def)
  obtain r where ex: "when_any_exec 9 ?ls ?r0 = Some r" and t: "rc_caller r 9 = Through"
    by (simp add: WhenAny_defs race_start_def caller_step_def AsyncEvent_defs numeral_2_eq_2)
  from when_any_first_wins [OF r0 ex] t r0 ex show ?thesis by auto
qed

subsection \<open>AsyncSleep\<close>

text \<open>
  \<open>duration_cast<milliseconds>\<close> of a number of nanoseconds truncates towards zero.  The
  executor is absent (\<open>None\<close>) or takes \<open>ScheduleAfter(duration_, handle)\<close>.
\<close>

record AsyncSleep =
  sl_duration :: int

definition duration_cast_ms :: "int \<Rightarrow> int" where
  "duration_cast_ms ns = (if ns < 0 then - (- ns div 1000000) else ns div 1000000)"

definition AsyncSleep_init :: "int \<Rightarrow> AsyncSleep" where
  "AsyncSleep_init ns = \<lparr>sl_duration = duration_cast_ms ns\<rparr>"

definition AsyncSleep_await_ready :: "AsyncSleep \<Rightarrow> bool" where
  "AsyncSleep_await_ready sl = False"

definition AsyncSleep_await_suspend ::
  "'x option \<Rightarrow> (int \<Rightarrow> handle \<Rightarrow> 'x \<Rightarrow> 'x) \<Rightarrow> handle \<Rightarrow> AsyncSleep \<Rightarrow> bool \<times> 'x option" where
  "AsyncSleep_await_suspend executor ScheduleAfter h sl =
    (case executor of
       None \<Rightarrow> (False, None)
     | Some x \<Rightarrow> (True, Some (ScheduleAfter (sl_duration sl) h x)))"

subsection \<open>WithTimeout\<close>

record TimeoutError =
  te_duration :: int

definition TimeoutError_Message :: "TimeoutError \<Rightarrow> string" where
  "TimeoutError_Message e = ''Operation timed out after '' @ int_to_string (te_duration e) @ ''ms''"

record 'v TimeoutState =
  tos_notify :: AsyncEvent
  tos_first_completed :: bool
  tos_user_result :: "'v option"
  tos_timed_out :: bool

definition TimeoutState_init :: "'v TimeoutState" where
  "TimeoutState_init =
    \<lparr>tos_notify = AsyncEvent_init, tos_first_completed = False, tos_user_result = None, tos_timed_out = False\<rparr>"

definition TimeoutChild_cas :: "'v TimeoutState \<Rightarrow> bool \<times> 'v TimeoutState" where
  "TimeoutChild_cas s = (if tos_first_completed s then (False, s) else (True, s\<lparr>tos_first_completed := True\<rparr>))"

definition TimeoutChild_notify :: "AsyncEvent \<Rightarrow> 'v TimeoutState \<Rightarrow> 'v TimeoutState" where
  "TimeoutChild_notify e s = s\<lparr>tos_notify := e\<rparr>"

text \<open>Child 0 is the user's task, child 1 the timer, which brings no value.\<close>

definition TimeoutUserChild_store :: "'v \<Rightarrow> 'v TimeoutState \<Rightarrow> 'v TimeoutState" where
  "TimeoutUserChild_store v s = s\<lparr>tos_user_result := Some v\<rparr>"

definition TimeoutTimerChild_store :: "'v TimeoutState \<Rightarrow> 'v TimeoutState" where
  "TimeoutTimerChild_store s = s\<lparr>tos_timed_out := True\<rparr>"

definition TimeoutChild_store :: "nat \<Rightarrow> 'v option \<Rightarrow> 'v TimeoutState \<Rightarrow> 'v TimeoutState" where
  "TimeoutChild_store i x s = (case x of Some v \<Rightarrow> TimeoutUserChild_store v s | None \<Rightarrow> TimeoutTimerChild_store s)"

definition TimeoutController :: "'v TimeoutState \<Rightarrow> ('v TimeoutState, 'v option) race" where
  "TimeoutController state = race_start state 2"

definition WithTimeout :: "('v TimeoutState, 'v option) race" where
  "WithTimeout = TimeoutController TimeoutState_init"

definition WithTimeout_return :: "int \<Rightarrow> 'v TimeoutState \<Rightarrow> ('v, TimeoutError) Result option" where
  "WithTimeout_return timeout s =
    (if tos_timed_out s then Some (Err \<lparr>te_duration = duration_cast_ms timeout\<rparr>)
     else map_option Ok (tos_user_result s))"

lemmas Timeout_defs [op_defs] =
  TimeoutState_init_def TimeoutChild_cas_def TimeoutChild_notify_def TimeoutUserChild_store_def
  TimeoutTimerChild_store_def TimeoutChild_store_def TimeoutController_def WithTimeout_def WithTimeout_return_def

definition timeout_outcome :: "int \<Rightarrow> 'v option \<Rightarrow> ('v, TimeoutError) Result" where
  "timeout_outcome timeout x = (case x of Some v \<Rightarrow> Ok v | None \<Rightarrow> Err \<lparr>te_duration = duration_cast_ms timeout\<rparr>)"

interpretation timeout: race_state TimeoutChild_cas TimeoutChild_store tos_notify TimeoutChild_notify
  tos_first_completed "\<lambda>s. tos_user_result s = None \<and> \<not> tos_timed_out s" "WithTimeout_return timeout"
  "\<lambda>i. timeout_outcome timeout" for timeout :: int
  by unfold_locales (auto simp: Timeout_defs timeout_outcome_def split: option.splits)

text \<open>\<open>Task<void>\<close>: the state has no result.\<close>

record TimeoutStateVoid =
  tov_notify :: AsyncEvent
  tov_first_completed :: bool
  tov_timed_out :: bool

definition TimeoutStateVoid_init :: TimeoutStateVoid where
  "TimeoutStateVoid_init = \<lparr>tov_notify = AsyncEvent_init, tov_first_completed = False, tov_timed_out = False\<rparr>"

definition TimeoutChildVoid_cas :: "TimeoutStateVoid \<Rightarrow> bool \<times> TimeoutStateVoid" where
  "TimeoutChildVoid_cas s = (if tov_first_completed s then (False, s) else (True, s\<lparr>tov_first_completed := True\<rparr>))"

definition TimeoutChildVoid_notify :: "AsyncEvent \<Rightarrow> TimeoutStateVoid \<Rightarrow> TimeoutStateVoid" where
  "TimeoutChildVoid_notify e s = s\<lparr>tov_notify := e\<rparr>"

definition TimeoutChildVoid_store :: "nat \<Rightarrow> unit option \<Rightarrow> TimeoutStateVoid \<Rightarrow> TimeoutStateVoid" where
  "TimeoutChildVoid_store i x s = (case x of Some _ \<Rightarrow> s | None \<Rightarrow> s\<lparr>tov_timed_out := True\<rparr>)"

definition TimeoutControllerVoid :: "TimeoutStateVoid \<Rightarrow> (TimeoutStateVoid, unit option) race" where
  "TimeoutControllerVoid state = race_start state 2"

definition WithTimeoutVoid :: "(TimeoutStateVoid, unit option) race" where
  "WithTimeoutVoid = TimeoutControllerVoid TimeoutStateVoid_init"

definition WithTimeoutVoid_return :: "int \<Rightarrow> TimeoutStateVoid \<Rightarrow> (unit, TimeoutError) Result option" where
  "WithTimeoutVoid_return timeout s =
    Some (if tov_timed_out s then Err \<lparr>te_duration = duration_cast_ms timeout\<rparr> else Ok ())"

lemmas TimeoutVoid_defs [op_defs] =
  TimeoutStateVoid_init_def TimeoutChildVoid_cas_def TimeoutChildVoid_notify_def TimeoutChildVoid_store_def
  TimeoutControllerVoid_def WithTimeoutVoid_def WithTimeoutVoid_return_def

interpretation timeout_void: race_state TimeoutChildVoid_cas TimeoutChildVoid_store tov_notify TimeoutChildVoid_notify
  tov_first_completed "\<lambda>s. \<not> tov_timed_out s" "WithTimeoutVoid_return timeout"
  "\<lambda>i. timeout_outcome timeout" for timeout :: int
  by unfold_locales (auto simp: TimeoutVoid_defs timeout_outcome_def split: option.splits)

abbreviation timeout_exec ::
  "handle \<Rightarrow> 'v option race_label list \<Rightarrow> ('v TimeoutState, 'v option) race \<Rightarrow> ('v TimeoutState, 'v option) race option" where
  "timeout_exec \<equiv> race_exec TimeoutChild_cas TimeoutChild_store tos_notify TimeoutChild_notify"

abbreviation timeout_void_exec ::
  "handle \<Rightarrow> unit option race_label list \<Rightarrow> (TimeoutStateVoid, unit option) race \<Rightarrow>
   (TimeoutStateVoid, unit option) race option" where
  "timeout_void_exec \<equiv> race_exec TimeoutChildVoid_cas TimeoutChildVoid_store tov_notify TimeoutChildVoid_notify"

text \<open>
  Property C34 (\<open>WithTimeout\<close>).  For \<open>Task<T>\<close> and \<open>Task<void>\<close> alike, in every interleaving: when the
  caller goes on, it returns the value of the user's task if that child did its
  compare-exchange before the timer, and the timeout error with the timeout in whole
  milliseconds if the timer was first; the later of the two changes nothing.
\<close>

theorem with_timeout_outcome:
  assumes "timeout_exec c ls WithTimeout = Some r" and "timeout_void_exec c' ls' WithTimeoutVoid = Some r'"
  shows "(rc_caller r c = Through \<longrightarrow>
            (\<exists>i x. first_cas ls = Some (i, x) \<and>
               WithTimeout_return timeout (rc_shared r) =
                 Some (case x of Some v \<Rightarrow> Ok v | None \<Rightarrow> Err \<lparr>te_duration = duration_cast_ms timeout\<rparr>))) \<and>
         (rc_caller r' c' = Through \<longrightarrow>
            (\<exists>i x. first_cas ls' = Some (i, x) \<and>
               WithTimeoutVoid_return timeout (rc_shared r') =
                 Some (case x of Some v \<Rightarrow> Ok v | None \<Rightarrow> Err \<lparr>te_duration = duration_cast_ms timeout\<rparr>)))"
  using timeout.first_wins(1) [OF assms(1) [unfolded WithTimeout_def TimeoutController_def], of timeout]
    timeout_void.first_wins(1) [OF assms(2) [unfolded WithTimeoutVoid_def TimeoutControllerVoid_def], of timeout]
  by (auto simp: TimeoutState_init_def TimeoutStateVoid_init_def timeout_outcome_def)

theorem with_timeout_outcome_witness:
  "\<exists>r r'. timeout_exec 9 [CallerReady, Cas 1 None, Cas 0 (Some (5 :: nat)), CallerSuspend, Store 1, Notify 1, CallerResume]
            WithTimeout = Some r \<and>
     timeout_void_exec 9 [Cas 0 (Some ()), Store 0, Notify 0, CallerReady] WithTimeoutVoid = Some r' \<and>
     WithTimeout_return 2500000 (rc_shared r) = Some (Err \<lparr>te_duration = 2\<rparr>) \<and>
     WithTimeoutVoid_return 2500000 (rc_shared r') = Some (Ok ())"
proof -
  let ?ls = "[CallerReady, Cas 1 None, Cas 0 (Some 5), CallerSuspend, Store 1, Notify 1, CallerResume] :: nat option race_label list"
  obtain r where 1: "timeout_exec 9 ?ls WithTimeout = Some r" "rc_caller r 9 = Through"
    by (simp add: Timeout_defs race_start_def caller_step_def AsyncEvent_defs numeral_2_eq_2)
  obtain r' where 2: "timeout_void_exec 9 [Cas 0 (Some ()), Store 0, Notify 0, CallerReady] WithTimeoutVoid = Some r'"
      "rc_caller r' 9 = Through"
    by (simp add: TimeoutVoid_defs race_start_def caller_step_def AsyncEvent_defs numeral_2_eq_2)
  from with_timeout_outcome [OF 1(1) 2(1), of 2500000] 1 2 show ?thesis
    by (auto simp: duration_cast_ms_def)
qed

text \<open>
  Without an executor \<open>AsyncSleep\<close> does not suspend, so the timer child runs to its end as soon as
  it is started: a user's task that suspended before loses the race at once.
\<close>

definition TimeoutTimerChild_start :: "'x option \<Rightarrow> (int \<Rightarrow> handle \<Rightarrow> 'x \<Rightarrow> 'x) \<Rightarrow> handle \<Rightarrow> int \<Rightarrow> 'v option race_label list" where
  "TimeoutTimerChild_start executor ScheduleAfter h timeout =
    (if fst (AsyncSleep_await_suspend executor ScheduleAfter h (AsyncSleep_init timeout)) then []
     else [Cas 1 None, Store 1, Notify 1])"

lemma timeout_fires_without_executor:
  "\<exists>r. timeout_exec c (TimeoutTimerChild_start None sched h timeout @ [Cas 0 (Some v), CallerReady]) WithTimeout = Some r \<and>
     rc_caller r c = Through \<and>
     WithTimeout_return timeout (rc_shared r) = Some (Err \<lparr>te_duration = duration_cast_ms timeout\<rparr>)"
  by (simp add: Timeout_defs race_start_def caller_step_def AsyncEvent_defs numeral_2_eq_2
      TimeoutTimerChild_start_def AsyncSleep_await_suspend_def)

end
