(* ===== verification/Task_Group.thy ===== *)
theory Task_Group
  imports Event Raii
begin

text \<open>
  \<open>DetachedTask\<close> (\<open>core/detached_task.hpp\<close>), the coroutine that destroys its own frame when it
  completes, and \<open>TaskGroup\<close> (\<open>core/task_group.hpp\<close>), which counts detached tasks and sets an
  event when none is left.
\<close>

subsection \<open>DetachedTask\<close>

record DetachedTask =
  dt_handle :: handle
  dt_started :: bool

definition DetachedTask_init :: "handle \<Rightarrow> DetachedTask" where
  "DetachedTask_init h = \<lparr>dt_handle = h, dt_started = False\<rparr>"

text \<open>The move constructor initialises only \<open>handle_\<close>; \<open>started_\<close> gets its default.\<close>

definition DetachedTask_move :: "DetachedTask \<Rightarrow> DetachedTask \<times> DetachedTask" where
  "DetachedTask_move other = (DetachedTask_init (dt_handle other), other\<lparr>dt_handle := null_handle\<rparr>)"

definition DetachedTask_destroy :: "DetachedTask \<Rightarrow> handle list" where
  "DetachedTask_destroy this = (if dt_handle this \<noteq> null_handle \<and> \<not> dt_started this then [dt_handle this] else [])"

definition DetachedTask_assign :: "DetachedTask \<Rightarrow> DetachedTask \<Rightarrow> DetachedTask \<times> DetachedTask \<times> handle list" where
  "DetachedTask_assign this other =
    (this\<lparr>dt_handle := dt_handle other, dt_started := dt_started other\<rparr>,
     other\<lparr>dt_handle := null_handle\<rparr>, DetachedTask_destroy this)"

text \<open>\<open>Start\<close>: the object afterwards and the frame that is resumed.\<close>

definition DetachedTask_Start :: "DetachedTask \<Rightarrow> DetachedTask \<times> handle list" where
  "DetachedTask_Start this =
    (if dt_handle this \<noteq> null_handle then (this\<lparr>dt_started := True\<rparr>, [dt_handle this]) else (this, []))"

text \<open>\<open>SetCallback\<close> stores into the promise, which the model keeps per frame.\<close>

definition DetachedTask_SetCallback :: "'f \<Rightarrow> DetachedTask \<Rightarrow> (handle \<Rightarrow> 'f option) \<Rightarrow> (handle \<Rightarrow> 'f option)" where
  "DetachedTask_SetCallback cb this promises =
    (if dt_handle this \<noteq> null_handle then promises(dt_handle this := Some cb) else promises)"

text \<open>At the final suspension the callback, if any, is called and then the frame destroyed.\<close>

definition DetachedTask_FinalAwaiter_await_suspend :: "handle \<Rightarrow> (handle \<Rightarrow> 'f option) \<Rightarrow> 'f list \<times> handle list" where
  "DetachedTask_FinalAwaiter_await_suspend h promises = (opt_list (promises h), [h])"

lemmas DetachedTask_defs [op_defs] =
  DetachedTask_init_def DetachedTask_move_def DetachedTask_destroy_def DetachedTask_assign_def DetachedTask_Start_def

text \<open>
  Variables holding detached tasks, the frames that run, and the frames destroyed, in order.
  \<open>DtMove\<close> and \<open>DtStart\<close> are for tasks that were not started (moving a started one is
  treated below, starting one twice would resume a frame that is not suspended there).
\<close>

datatype dt_cmd = DtMove nat | DtAssign nat nat | DtDestroy nat | DtStart nat | DtComplete handle

record dt_world =
  dw_vars :: "DetachedTask option list"
  dw_running :: "handle list"
  dw_destroyed :: "handle list"

definition dt_pending :: "DetachedTask option list \<Rightarrow> nat \<Rightarrow> bool" where
  "dt_pending vs x \<longleftrightarrow> live vs x \<and> \<not> dt_started (the (vs ! x))"

fun dt_step :: "dt_cmd \<Rightarrow> dt_world \<Rightarrow> dt_world option" where
  "dt_step (DtMove x) w =
     (if dt_pending (dw_vars w) x
      then (let (n, m) = DetachedTask_move (the (dw_vars w ! x))
            in Some (w\<lparr>dw_vars := (dw_vars w)[x := Some m] @ [Some n]\<rparr>))
      else None)"
| "dt_step (DtAssign x y) w =
     (if live (dw_vars w) x \<and> live (dw_vars w) y \<and> x \<noteq> y
      then (let (a, b, d) = DetachedTask_assign (the (dw_vars w ! x)) (the (dw_vars w ! y))
            in Some (w\<lparr>dw_vars := (dw_vars w)[x := Some a, y := Some b], dw_destroyed := dw_destroyed w @ d\<rparr>))
      else None)"
| "dt_step (DtDestroy x) w =
     (if live (dw_vars w) x
      then Some (w\<lparr>dw_vars := (dw_vars w)[x := None],
                   dw_destroyed := dw_destroyed w @ DetachedTask_destroy (the (dw_vars w ! x))\<rparr>)
      else None)"
| "dt_step (DtStart x) w =
     (if dt_pending (dw_vars w) x
      then (let (a, r) = DetachedTask_Start (the (dw_vars w ! x))
            in Some (w\<lparr>dw_vars := (dw_vars w)[x := Some a], dw_running := dw_running w @ r\<rparr>))
      else None)"
| "dt_step (DtComplete h) w =
     (if h \<in> set (dw_running w)
      then Some (w\<lparr>dw_running := remove1 h (dw_running w),
                   dw_destroyed := dw_destroyed w @ snd (DetachedTask_FinalAwaiter_await_suspend h (\<lambda>_. None :: unit option))\<rparr>)
      else None)"

fun dt_exec :: "dt_cmd list \<Rightarrow> dt_world \<Rightarrow> dt_world option" where
  "dt_exec [] w = Some w"
| "dt_exec (c # cs) w = (case dt_step c w of None \<Rightarrow> None | Some w' \<Rightarrow> dt_exec cs w')"

definition DetachedTask_res :: "DetachedTask \<Rightarrow> handle option" where
  "DetachedTask_res t = (if dt_handle t \<noteq> null_handle \<and> \<not> dt_started t then Some (dt_handle t) else None)"

text \<open>Every frame is unstarted, running or destroyed, and in one way only.\<close>

definition dt_frames :: "dt_world \<Rightarrow> handle multiset" where
  "dt_frames w = mset (owned DetachedTask_res (dw_vars w)) + mset (dw_running w) + mset (dw_destroyed w)"

lemma owned_set:
  assumes "x < length vs" and "vs ! x = Some t"
  shows "mset (owned res (vs[x := v])) + mset (opt_list (res t)) = mset (owned res vs) + mset (owned_by res v)"
  using owned_update [OF assms(1), of res v] assms(2) by simp

lemma mset_cancel_transfer:
  fixes x y a b d :: "'a multiset"
  assumes "x + a = d + b" and "y + b = x"
  shows "y + a = d"
proof -
  have "(y + a) + b = d + b" unfolding assms(1) [symmetric] assms(2) [symmetric] by (simp add: union_assoc union_commute)
  then show ?thesis by simp
qed

lemma dt_assign_frames:
  assumes step: "dt_step (DtAssign x y) w = Some w'"
  shows "dt_frames w' = dt_frames w"
proof -
  obtain s t where s: "x < length (dw_vars w)" "dw_vars w ! x = Some s"
    and t: "y < length (dw_vars w)" "dw_vars w ! y = Some t" "x \<noteq> y"
    using step by (auto simp: live_def split: if_splits)
  let ?a = "s\<lparr>dt_handle := dt_handle t, dt_started := dt_started t\<rparr>" and ?b = "t\<lparr>dt_handle := null_handle\<rparr>"
  have 1: "mset (owned DetachedTask_res ((dw_vars w)[x := Some ?a])) + mset (opt_list (DetachedTask_res s)) =
      mset (owned DetachedTask_res (dw_vars w)) + mset (opt_list (DetachedTask_res t))"
    using owned_set [OF s, of DetachedTask_res "Some ?a"] by (simp add: DetachedTask_res_def)
  have 2: "mset (owned DetachedTask_res ((dw_vars w)[x := Some ?a, y := Some ?b])) + mset (opt_list (DetachedTask_res t)) =
      mset (owned DetachedTask_res ((dw_vars w)[x := Some ?a]))"
    using owned_set [of y "(dw_vars w)[x := Some ?a]" t DetachedTask_res "Some ?b"] t by (simp add: DetachedTask_res_def)
  have d: "DetachedTask_destroy s = opt_list (DetachedTask_res s)"
    by (simp add: DetachedTask_defs DetachedTask_res_def)
  have w': "w' = w\<lparr>dw_vars := (dw_vars w)[x := Some ?a, y := Some ?b],
      dw_destroyed := dw_destroyed w @ opt_list (DetachedTask_res s)\<rparr>"
    using step s t by (simp add: live_def DetachedTask_assign_def d)
  have "mset (owned DetachedTask_res ((dw_vars w)[x := Some ?a, y := Some ?b])) +
      mset (opt_list (DetachedTask_res s)) = mset (owned DetachedTask_res (dw_vars w))"
    by (rule mset_cancel_transfer [OF 1 2])
  then show ?thesis by (simp add: dt_frames_def w' union_assoc union_commute union_lcomm)
qed

lemma dt_step_frames:
  assumes "dt_step c w = Some w'"
  shows "dt_frames w' = dt_frames w"
proof (cases c)
  case (DtMove x)
  then obtain t where t: "x < length (dw_vars w)" "dw_vars w ! x = Some t" "\<not> dt_started t"
    using assms by (auto simp: dt_pending_def live_def split: if_splits)
  let ?m = "t\<lparr>dt_handle := 0\<rparr>" and ?n = "DetachedTask_init (dt_handle t)"
  have w': "w' = w\<lparr>dw_vars := (dw_vars w)[x := Some ?m] @ [Some ?n]\<rparr>"
    using assms DtMove t by (simp add: dt_pending_def live_def DetachedTask_move_def)
  have "DetachedTask_res ?m = None" "DetachedTask_res ?n = DetachedTask_res t"
    using t(3) by (simp_all add: DetachedTask_res_def DetachedTask_init_def)
  moreover have "owned DetachedTask_res [Some ?n] = opt_list (DetachedTask_res ?n)" by (simp add: owned_def)
  ultimately have "mset (owned DetachedTask_res (dw_vars w')) = mset (owned DetachedTask_res (dw_vars w))"
    using owned_set [OF t(1,2), of DetachedTask_res "Some ?m"] by (simp add: w')
  then show ?thesis by (simp add: dt_frames_def w')
next
  case (DtAssign x y)
  with assms dt_assign_frames show ?thesis by blast
next
  case (DtDestroy x)
  then obtain t where t: "x < length (dw_vars w)" "dw_vars w ! x = Some t"
    using assms by (auto simp: live_def split: if_splits)
  have w': "w' = w\<lparr>dw_vars := (dw_vars w)[x := None], dw_destroyed := dw_destroyed w @ opt_list (DetachedTask_res t)\<rparr>"
    using assms DtDestroy t by (auto simp: live_def DetachedTask_destroy_def DetachedTask_res_def)
  from owned_set [OF t, of DetachedTask_res None] show ?thesis
    by (simp add: dt_frames_def w' union_assoc union_commute union_lcomm)
next
  case (DtStart x)
  then obtain t where t: "x < length (dw_vars w)" "dw_vars w ! x = Some t" "\<not> dt_started t"
    using assms by (auto simp: dt_pending_def live_def split: if_splits)
  let ?a = "fst (DetachedTask_Start t)"
  have w': "w' = w\<lparr>dw_vars := (dw_vars w)[x := Some ?a], dw_running := dw_running w @ opt_list (DetachedTask_res t)\<rparr>"
    using assms DtStart t by (auto simp: dt_pending_def live_def DetachedTask_Start_def DetachedTask_res_def)
  have "DetachedTask_res ?a = None" by (simp add: DetachedTask_res_def DetachedTask_Start_def)
  with owned_set [OF t(1,2), of DetachedTask_res "Some ?a"] show ?thesis
    by (simp add: dt_frames_def w' union_assoc union_commute union_lcomm)
next
  case (DtComplete h)
  with assms have "h \<in> set (dw_running w)" by (auto split: if_splits)
  then have "mset (dw_running w) = add_mset h (mset (remove1 h (dw_running w)))" by simp
  with DtComplete assms show ?thesis
    by (auto simp: dt_frames_def DetachedTask_FinalAwaiter_await_suspend_def split: if_splits)
qed

lemma dt_exec_frames: "dt_exec cs w = Some w' \<Longrightarrow> dt_frames w' = dt_frames w"
proof (induction cs arbitrary: w)
  case (Cons c cs)
  then show ?case using dt_step_frames by (auto split: option.splits)
qed simp

text \<open>
  Detached frames are destroyed exactly once: Detached tasks may be moved while
  they are not started, assigned, started once, destroyed at any time, and may complete at any
  time after their start: no frame is destroyed twice, none is destroyed while it runs or is
  still owned unstarted, and none is lost: when no task runs and every variable is gone, every
  frame has been destroyed.
\<close>

theorem detached_frames_destroyed_once:
  assumes "dt_exec cs \<lparr>dw_vars = vs, dw_running = [], dw_destroyed = []\<rparr> = Some w"
    and "distinct (owned DetachedTask_res vs)"
  shows "distinct (owned DetachedTask_res (dw_vars w) @ dw_running w @ dw_destroyed w) \<and>
         ((\<forall>i. \<not> live (dw_vars w) i) \<and> dw_running w = [] \<longrightarrow> mset (dw_destroyed w) = mset (owned DetachedTask_res vs))"
proof -
  have eq: "mset (owned DetachedTask_res (dw_vars w) @ dw_running w @ dw_destroyed w) = mset (owned DetachedTask_res vs)"
    using dt_exec_frames [OF assms(1)] by (simp add: dt_frames_def union_assoc)
  with assms(2) have "distinct (owned DetachedTask_res (dw_vars w) @ dw_running w @ dw_destroyed w)"
    by (metis mset_eq_imp_distinct_iff)
  moreover have "mset (dw_destroyed w) = mset (owned DetachedTask_res vs)"
    if "\<forall>i. \<not> live (dw_vars w) i" "dw_running w = []"
    using eq owned_all_dead [of "dw_vars w" DetachedTask_res] that by simp
  ultimately show ?thesis by blast
qed

theorem detached_frames_destroyed_once_witness:
  "\<exists>w. dt_exec [DtMove 0, DtStart 1, DtDestroy 0, DtDestroy 1, DtComplete 7, DtDestroy 0]
         \<lparr>dw_vars = [Some (DetachedTask_init 7)], dw_running = [], dw_destroyed = []\<rparr> = None \<and>
     dt_exec [DtMove 0, DtStart 1, DtDestroy 0, DtDestroy 1, DtComplete 7]
         \<lparr>dw_vars = [Some (DetachedTask_init 7)], dw_running = [], dw_destroyed = []\<rparr> = Some w \<and>
     dw_destroyed w = [7] \<and>
     distinct (owned DetachedTask_res (dw_vars w) @ dw_running w @ dw_destroyed w)"
proof -
  have d: "distinct (owned DetachedTask_res [Some (DetachedTask_init 7)])" by (simp add: owned_def)
      (simp add: DetachedTask_res_def)
  obtain w where ex: "dt_exec [DtMove 0, DtStart 1, DtDestroy 0, DtDestroy 1, DtComplete 7]
         \<lparr>dw_vars = [Some (DetachedTask_init 7)], dw_running = [], dw_destroyed = []\<rparr> = Some w" "dw_destroyed w = [7]"
    by (simp add: dt_pending_def live_def DetachedTask_defs DetachedTask_FinalAwaiter_await_suspend_def)
  moreover have "dt_exec [DtMove 0, DtStart 1, DtDestroy 0, DtDestroy 1, DtComplete 7, DtDestroy 0]
         \<lparr>dw_vars = [Some (DetachedTask_init 7)], dw_running = [], dw_destroyed = []\<rparr> = None"
    by (simp add: dt_pending_def live_def DetachedTask_defs DetachedTask_FinalAwaiter_await_suspend_def)
  ultimately show ?thesis using detached_frames_destroyed_once [OF ex(1) d] by blast
qed

text \<open>
  Moving a task after it was started loses \<open>started_\<close>: the new object destroys a frame that is
  running or has destroyed itself.
\<close>

lemma detached_move_after_start:
  assumes "h \<noteq> 0"
  shows "let (t, resumed) = DetachedTask_Start (DetachedTask_init h); (n, t') = DetachedTask_move t
         in resumed = [h] \<and> DetachedTask_destroy n = [h] \<and> DetachedTask_destroy t = []"
  using assms by (simp add: DetachedTask_defs)

subsection \<open>TaskGroup\<close>

record TaskGroup =
  tg_size :: uint64
  tg_event :: AsyncEvent

text \<open>The state after the constructor: no task, event set.\<close>

definition TaskGroup_init :: TaskGroup where
  "TaskGroup_init = \<lparr>tg_size = 0, tg_event = fst (AsyncEvent_Set AsyncEvent_init)\<rparr>"

definition TaskGroup_Start_reset :: "TaskGroup \<Rightarrow> TaskGroup" where
  "TaskGroup_Start_reset g = g\<lparr>tg_event := AsyncEvent_Reset (tg_event g)\<rparr>"

definition TaskGroup_Start_add :: "TaskGroup \<Rightarrow> TaskGroup" where
  "TaskGroup_Start_add g = g\<lparr>tg_size := tg_size g + 1\<rparr>"

text \<open>\<open>Start\<close> up to \<open>detached.Start()\<close>, which resumes the task.\<close>

definition TaskGroup_Start :: "TaskGroup \<Rightarrow> TaskGroup" where
  "TaskGroup_Start g = TaskGroup_Start_add (TaskGroup_Start_reset g)"

text \<open>The callback of a completed task: the coroutines it resumes.\<close>

definition TaskGroup_callback :: "TaskGroup \<Rightarrow> TaskGroup \<times> handle list" where
  "TaskGroup_callback g =
    (let old = tg_size g; g = g\<lparr>tg_size := old - 1\<rparr>
     in if old = 1 then (let (e, ws) = AsyncEvent_Set (tg_event g) in (g\<lparr>tg_event := e\<rparr>, ws)) else (g, []))"

definition TaskGroup_await_ready :: "TaskGroup \<Rightarrow> bool" where
  "TaskGroup_await_ready g = EventWait_await_ready (tg_event g)"

definition TaskGroup_await_suspend :: "handle \<Rightarrow> TaskGroup \<Rightarrow> bool \<times> TaskGroup" where
  "TaskGroup_await_suspend h g = (let (b, e) = EventWait_await_suspend h (tg_event g) in (b, g\<lparr>tg_event := e\<rparr>))"

definition TaskGroup_Size :: "TaskGroup \<Rightarrow> size_t" where
  "TaskGroup_Size g = tg_size g"

definition TaskGroup_Empty :: "TaskGroup \<Rightarrow> bool" where
  "TaskGroup_Empty g \<longleftrightarrow> TaskGroup_Size g = 0"

text \<open>The destructor's assertion.\<close>

definition TaskGroup_destroy :: "TaskGroup \<Rightarrow> unit option" where
  "TaskGroup_destroy g = (if tg_size g = 0 then Some () else None)"

lemmas TaskGroup_defs [op_defs] =
  TaskGroup_init_def TaskGroup_Start_reset_def TaskGroup_Start_add_def TaskGroup_Start_def
  TaskGroup_callback_def TaskGroup_await_ready_def TaskGroup_await_suspend_def TaskGroup_Size_def

datatype group_op = GroupStart | GroupComplete

fun group_act :: "group_op \<Rightarrow> TaskGroup \<Rightarrow> TaskGroup \<times> handle list" where
  "group_act GroupStart g = (TaskGroup_Start g, [])"
| "group_act GroupComplete g = TaskGroup_callback g"

interpretation task_group: gate TaskGroup_await_ready TaskGroup_await_suspend group_act "\<lambda>g. ev_waiters (tg_event g)"
proof unfold_locales
  fix x s s' ws and h :: handle
  show "TaskGroup_await_suspend h s = (False, s)" if "TaskGroup_await_ready s"
    using that by (simp add: TaskGroup_defs AsyncEvent_defs)
  show "\<exists>s'. TaskGroup_await_suspend h s = (True, s') \<and> ev_waiters (tg_event s') = ev_waiters (tg_event s) @ [h] \<and>
      \<not> TaskGroup_await_ready s'" if "\<not> TaskGroup_await_ready s"
    using that by (simp add: TaskGroup_defs AsyncEvent_defs)
  assume a: "group_act x s = (s', ws)" "TaskGroup_await_ready s \<longrightarrow> ev_waiters (tg_event s) = []"
  show "ws = ev_waiters (tg_event s) \<and> ev_waiters (tg_event s') = []" if "TaskGroup_await_ready s'"
    using a that by (cases x) (auto simp: TaskGroup_defs AsyncEvent_defs Let_def split: if_splits)
  show "ws = [] \<and> ev_waiters (tg_event s') = ev_waiters (tg_event s)" if "\<not> TaskGroup_await_ready s'"
    using a that by (cases x) (auto simp: TaskGroup_defs AsyncEvent_defs Let_def split: if_splits)
qed

abbreviation group_exec ::
  "group_op gate_label list \<Rightarrow> TaskGroup \<Rightarrow> (handle \<Rightarrow> gate_phase) \<Rightarrow> (TaskGroup \<times> (handle \<Rightarrow> gate_phase)) option" where
  "group_exec \<equiv> gate_exec TaskGroup_await_ready TaskGroup_await_suspend group_act"

text \<open>Tasks started and not completed; a task completes only after it was started.\<close>

fun outstanding :: "nat \<Rightarrow> group_op gate_label list \<Rightarrow> nat option" where
  "outstanding n [] = Some n"
| "outstanding n (GOp GroupStart _ # ls) = (if n < 2 ^ 64 - 1 then outstanding (Suc n) ls else None)"
| "outstanding n (GOp GroupComplete _ # ls) = (if n = 0 then None else outstanding (n - 1) ls)"
| "outstanding n (_ # ls) = outstanding n ls"

definition group_ok :: "nat \<Rightarrow> TaskGroup \<Rightarrow> bool" where
  "group_ok n g \<longleftrightarrow> unat (tg_size g) = n \<and> (ev_signaled (tg_event g) \<longleftrightarrow> n = 0)"

lemma group_start_ok: "group_ok n g \<Longrightarrow> n < 2 ^ 64 - 1 \<Longrightarrow> group_ok (Suc n) (TaskGroup_Start g)"
  using unat_inc [of "tg_size g"] by (simp add: group_ok_def TaskGroup_defs AsyncEvent_defs)

lemma group_complete_ok:
  assumes "group_ok n g" and "n \<noteq> 0"
  shows "group_ok (n - 1) (fst (TaskGroup_callback g))"
proof -
  have s: "unat (tg_size g - 1) = n - 1" using assms unat_dec [of "tg_size g"] by (auto simp: group_ok_def unat_pos_iff)
  have "tg_size g = 1 \<longleftrightarrow> n = 1" using assms(1) by (simp add: group_ok_def word_unat_eq_iff)
  then show ?thesis using assms s by (auto simp: group_ok_def TaskGroup_defs AsyncEvent_defs Let_def)
qed

lemma group_suspend_ok: "group_ok n g \<Longrightarrow> TaskGroup_await_suspend h g = (b, g') \<Longrightarrow> group_ok n g'"
  by (auto simp: group_ok_def TaskGroup_defs AsyncEvent_defs split: if_splits)

lemma group_exec_ok:
  "group_ok n g \<Longrightarrow> group_exec ls g ph = Some (g', ph') \<Longrightarrow> outstanding n ls = Some m \<Longrightarrow> group_ok m g'"
proof (induction n ls arbitrary: g ph rule: outstanding.induct)
  case (2 n ws ls)
  then show ?case using group_start_ok by (auto split: option.splits if_splits)
next
  case (3 n ws ls)
  then show ?case using group_complete_ok [of n g] by (auto split: option.splits if_splits prod.splits)
qed (auto split: option.splits if_splits prod.splits dest: group_suspend_ok)

lemma group_start: "gate_inv TaskGroup_await_ready (\<lambda>g. ev_waiters (tg_event g)) TaskGroup_init (\<lambda>_. Outside)"
  by (simp add: gate_inv_def TaskGroup_init_def AsyncEvent_defs)

text \<open>
  Property C37 (the group waits for all tasks).  Where \<open>Start\<close> is not interrupted by the completion of
  another task (the group is used from one thread), in every order of starts, completions and
  waits with \<open>m\<close> tasks outstanding: \<open>Size\<close> is \<open>m\<close>, without wrap-around; \<open>co_await\<close> passes through
  if and only if \<open>m\<close> is 0; a coroutine is suspended on the group only while \<open>m\<close> is positive; the
  next completion resumes the suspended coroutines if it is the last one and nobody otherwise;
  and the destructor's assertion holds exactly when \<open>m\<close> is 0.
\<close>

theorem task_group_joins:
  assumes ex: "group_exec ls TaskGroup_init (\<lambda>_. Outside) = Some (g, ph)" and m: "outstanding 0 ls = Some m"
  shows "unat (TaskGroup_Size g) = m \<and> (TaskGroup_await_ready g \<longleftrightarrow> m = 0) \<and>
         (ph h = Parked \<longrightarrow> 0 < m) \<and>
         (0 < m \<longrightarrow> set (snd (TaskGroup_callback g)) = (if m = 1 then {h. ph h = Parked} else {})) \<and>
         (TaskGroup_destroy g \<noteq> None \<longleftrightarrow> m = 0)"
proof -
  have ok: "group_ok m g" using group_exec_ok [OF _ ex m] by (simp add: group_ok_def TaskGroup_init_def AsyncEvent_defs)
  have inv: "distinct (ev_waiters (tg_event g))" "set (ev_waiters (tg_event g)) = {h. ph h = Parked}"
      "ev_signaled (tg_event g) \<longrightarrow> ev_waiters (tg_event g) = []"
    using task_group.exec_preserves [OF group_start ex]
    by (auto simp: gate_inv_def TaskGroup_await_ready_def EventWait_await_ready_def)
  have one: "tg_size g = 1 \<longleftrightarrow> m = 1" using ok by (simp add: group_ok_def word_unat_eq_iff)
  have cb: "set (snd (TaskGroup_callback g)) = (if m = 1 then {h. ph h = Parked} else {})" if "0 < m"
    using ok one that inv(2) by (simp add: group_ok_def TaskGroup_callback_def AsyncEvent_defs Let_def)
  have "ph h = Parked \<longrightarrow> 0 < m" using inv(2,3) ok unfolding group_ok_def by (metis (mono_tags) empty_iff empty_set gr0I mem_Collect_eq)
  then show ?thesis
    using ok cb by (auto simp: group_ok_def TaskGroup_defs AsyncEvent_defs TaskGroup_destroy_def unat_eq_0)
qed

theorem task_group_joins_witness:
  "\<exists>g ph. group_exec [GOp GroupStart [], GOp GroupStart [], GCheck 5, GPark 5, GOp GroupComplete []]
            TaskGroup_init (\<lambda>_. Outside) = Some (g, ph) \<and>
     ph 5 = Parked \<and> 5 \<in> set (snd (TaskGroup_callback g)) \<and> unat (TaskGroup_Size g) = 1"
proof -
  let ?ls = "[GOp GroupStart [], GOp GroupStart [], GCheck 5, GPark 5, GOp GroupComplete []]"
  obtain g ph where ex: "group_exec ?ls TaskGroup_init (\<lambda>_. Outside) = Some (g, ph)" and p: "ph 5 = Parked"
    by (simp add: TaskGroup_defs AsyncEvent_defs Let_def)
  have "outstanding 0 ?ls = Some 1" by simp
  from task_group_joins [OF ex this] p ex show ?thesis by auto
qed

text \<open>
  From two threads it is different: a completion between the \<open>Reset\<close> and the \<open>fetch_add\<close> of
  \<open>Start\<close> leaves the event set although a task is outstanding, so \<open>co_await\<close> passes through.
\<close>

lemma task_group_start_race:
  assumes "tg_size g = 1"
  shows "let g' = TaskGroup_Start_add (fst (TaskGroup_callback (TaskGroup_Start_reset g)))
         in TaskGroup_await_ready g' \<and> TaskGroup_Size g' = 1"
  using assms by (simp add: TaskGroup_defs AsyncEvent_defs Let_def)

end
