(* ===== verification/Combinators.thy ===== *)
theory Combinators
  imports Prelude
begin

text \<open>
  \<open>Then\<close>, \<open>Map\<close> (\<open>core/combinators.hpp\<close>) and \<open>Invoke\<close> (\<open>core/invoke.hpp\<close>): short coroutines over
  lazy tasks.  A task that has not been started is the tree of what its body will do: an
  operation (a leaf awaitable it awaits or a function it calls) whose answer decides how it goes on,
  or the end with a value.  Awaiting a task inside another runs its operations there and continues
  with its value (theory Task shows that this is how the value comes back).
\<close>

datatype ('op, 'ans, 'a) coro = CoReturn 'a | CoOp 'op "'ans \<Rightarrow> ('op, 'ans, 'a) coro"

primrec co_await :: "('op, 'ans, 'a) coro \<Rightarrow> ('a \<Rightarrow> ('op, 'ans, 'b) coro) \<Rightarrow> ('op, 'ans, 'b) coro" where
  "co_await (CoReturn v) k = k v"
| "co_await (CoOp q c) k = CoOp q (\<lambda>r. co_await (c r) k)"

text \<open>
  \<open>func\<close> is any function, which may perform operations of its own; it returns to the coroutine with
  its result.  The overload for \<open>Task<void>\<close> calls it without an argument; a \<open>void\<close> result is the
  unit value.
\<close>

definition Then :: "('op, 'ans, 't) coro \<Rightarrow> ('t \<Rightarrow> ('op, 'ans, 'r) coro) \<Rightarrow> ('op, 'ans, 'r) coro" where
  "Then task func = co_await task (\<lambda>value. co_await (func value) CoReturn)"

definition Then_void :: "('op, 'ans, unit) coro \<Rightarrow> ('op, 'ans, 'r) coro \<Rightarrow> ('op, 'ans, 'r) coro" where
  "Then_void task func = co_await task (\<lambda>_. co_await func CoReturn)"

definition Map :: "('op, 'ans, 't) coro \<Rightarrow> ('t \<Rightarrow> ('op, 'ans, 'r) coro) \<Rightarrow> ('op, 'ans, 'r) coro" where
  "Map task func = Then task func"

text \<open>
  \<open>MakeInvokerTask\<close>: when it is started it calls the functor, which makes the user's task, and
  awaits that one; the call itself performs no operation, since a task is lazy.
\<close>

definition MakeInvokerTask :: "('args \<Rightarrow> ('op, 'ans, 'r) coro) \<Rightarrow> 'args \<Rightarrow> ('op, 'ans, 'r) coro" where
  "MakeInvokerTask functor args = (let user_task = functor args in co_await user_task CoReturn)"

definition Invoke :: "('args \<Rightarrow> ('op, 'ans, 'r) coro) \<Rightarrow> 'args \<Rightarrow> ('op, 'ans, 'r) coro" where
  "Invoke functor args = MakeInvokerTask functor args"

lemma co_await_return [simp]: "co_await t CoReturn = t"
  by (induction t) simp_all

lemma co_await_assoc: "co_await (co_await t f) g = co_await t (\<lambda>v. co_await (f v) g)"
  by (induction t) simp_all

text \<open>
  A run against an environment that answers the operations, given all those before (latest first):
  the operations performed, in order, and the value.  Every run of a finite tree ends.
\<close>

primrec coro_run :: "('op list \<Rightarrow> 'op \<Rightarrow> 'ans) \<Rightarrow> ('op, 'ans, 'a) coro \<Rightarrow> 'op list \<Rightarrow> 'op list \<times> 'a" where
  "coro_run env (CoReturn v) past = (past, v)"
| "coro_run env (CoOp q c) past = coro_run env (c (env past q)) (q # past)"

lemma coro_run_await:
  "coro_run env (co_await t k) past = (let (past', v) = coro_run env t past in coro_run env (k v) past')"
  by (induction t arbitrary: past) simp_all

lemma coro_run_extends: "\<exists>ops. fst (coro_run env t past) = ops @ past"
proof (induction t arbitrary: past)
  case (CoOp q c)
  from CoOp.IH [of "c (env past q)" "q # past"] obtain ops where "fst (coro_run env (c (env past q)) (q # past)) = ops @ q # past"
    by auto
  then show ?case by (auto intro: exI [of _ "ops @ [q]"])
qed simp

subsection \<open>Runs with given answers\<close>

text \<open>
  The reference: the operations of a task that gets the given answers, and its value if it ends.
\<close>

fun coro_feed :: "('op, 'ans, 'v) coro \<Rightarrow> 'ans list \<Rightarrow> 'op list \<times> 'v option" where
  "coro_feed (CoReturn v) rs = ([], Some v)"
| "coro_feed (CoOp q k) [] = ([q], None)"
| "coro_feed (CoOp q k) (r # rs) = (let (qs, res) = coro_feed (k r) rs in (q # qs, res))"

text \<open>The answers an environment gives along a run of the task.\<close>

primrec env_answers :: "('op list \<Rightarrow> 'op \<Rightarrow> 'ans) \<Rightarrow> ('op, 'ans, 'v) coro \<Rightarrow> 'op list \<Rightarrow> 'ans list" where
  "env_answers env (CoReturn v) past = []"
| "env_answers env (CoOp q k) past = env past q # env_answers env (k (env past q)) (q # past)"

lemma coro_feed_env:
  "coro_run env t past = (past', v) \<Longrightarrow> \<exists>qs. coro_feed t (env_answers env t past) = (qs, Some v) \<and> past' = rev qs @ past"
proof (induction t arbitrary: past)
  case (CoOp q k)
  then have "coro_run env (k (env past q)) (q # past) = (past', v)" by simp
  from CoOp.IH [OF _ this] show ?case by auto
qed simp

text \<open>What is left of a task after some answers.\<close>

fun coro_left :: "('op, 'ans, 'v) coro \<Rightarrow> 'ans list \<Rightarrow> ('op, 'ans, 'v) coro" where
  "coro_left t [] = t"
| "coro_left (CoReturn v) (r # rs) = CoReturn v"
| "coro_left (CoOp q k) (r # rs) = coro_left (k r) rs"

primrec first_op :: "('op, 'ans, 'v) coro \<Rightarrow> 'op list" where
  "first_op (CoReturn v) = []"
| "first_op (CoOp q k) = [q]"

lemma coro_feed_Nil: "fst (coro_feed t []) = first_op t"
  by (cases t) simp_all

lemma coro_feed_value: "snd (coro_feed t rs) = (case coro_left t rs of CoReturn v \<Rightarrow> Some v | CoOp q k \<Rightarrow> None)"
  by (induction t rs rule: coro_feed.induct) (auto simp: case_prod_unfold split: coro.splits elim: coro_left.elims)

lemma coro_feed_snoc:
  "coro_left t rs = CoOp q k \<Longrightarrow>
   coro_left t (rs @ [r]) = k r \<and> fst (coro_feed t (rs @ [r])) = fst (coro_feed t rs) @ first_op (k r)"
  by (induction t rs rule: coro_feed.induct) (auto simp: coro_feed_Nil case_prod_unfold Let_def elim: coro_left.elims)

subsection \<open>Properties\<close>

text \<open>
  Then, Map and Invoke.  A run of \<open>Then(task, func)\<close> is a complete run of the task
  followed by one of the function on exactly its value, and nothing else; \<open>Map\<close> and, for tasks
  without a value, the overload of \<open>Then\<close> do the same; chains of \<open>Then\<close> may be regrouped;
  and \<open>Invoke\<close> behaves exactly like the task the functor makes.
\<close>

theorem combinators_sequence:
  "coro_run env (Then task func) past = (let (past', v) = coro_run env task past in coro_run env (func v) past') \<and>
   coro_run env (Then_void vtask vfunc) past = coro_run env vfunc (fst (coro_run env vtask past)) \<and>
   Map task func = Then task func \<and>
   Then (Then task func) g = Then task (\<lambda>v. Then (func v) g) \<and>
   Invoke functor args = functor args"
  by (simp add: Then_def Then_void_def Map_def Invoke_def MakeInvokerTask_def coro_run_await co_await_assoc
      case_prod_unfold)

end
