(* ===== verification/Spawn.thy ===== *)
theory Spawn
  imports Errors Raii Combinators
begin

text \<open>
  \<open>core/spawn.hpp\<close>: the state shared by a spawned task and its \<open>SpawnHandle\<close>, the callbacks on
  both sides, the wrapper coroutine and the two \<open>Spawn\<close> functions.  Each operation holds the
  mutex while it touches the state and calls the callback afterwards with what it took out
  under the lock, so an operation is one step and a run of a program is a sequence of them.
\<close>

subsection \<open>The shared state\<close>

text \<open>
  A value that was moved out of an \<open>optional\<close> leaves the \<open>optional\<close> engaged with a moved-from
  object inside.
\<close>

datatype 'v slot = Val 'v | MovedFrom

record ('v, 'f, 'g) SpawnState =
  ss_result :: "'v slot option"
  ss_error :: error_code
  ss_on_complete :: "'f option"
  ss_on_error :: "'g option"
  ss_completed :: bool
  ss_failed :: bool

definition SpawnState_init :: "('v, 'f, 'g) SpawnState" where
  "SpawnState_init =
    \<lparr>ss_result = None, ss_error = ec_default, ss_on_complete = None, ss_on_error = None,
     ss_completed = False, ss_failed = False\<rparr>"

text \<open>The second component: the callback that is called and its argument.\<close>

definition SpawnState_Complete ::
  "'v \<Rightarrow> ('v, 'f, 'g) SpawnState \<Rightarrow> ('v, 'f, 'g) SpawnState \<times> ('f \<times> 'v slot) list" where
  "SpawnState_Complete value s =
    (let s = s\<lparr>ss_result := Some (Val value), ss_completed := True\<rparr>
     in case ss_on_complete s of
          Some cb \<Rightarrow> (s\<lparr>ss_on_complete := None, ss_result := Some MovedFrom\<rparr>, [(cb, Val value)])
        | None \<Rightarrow> (s, []))"

definition SpawnState_Fail ::
  "error_code \<Rightarrow> ('v, 'f, 'g) SpawnState \<Rightarrow> ('v, 'f, 'g) SpawnState \<times> ('g \<times> error_code) list" where
  "SpawnState_Fail ec s =
    (let s = s\<lparr>ss_error := ec, ss_failed := True\<rparr>
     in case ss_on_error s of
          Some cb \<Rightarrow> (s\<lparr>ss_on_error := None\<rparr>, [(cb, ec)])
        | None \<Rightarrow> (s, []))"

definition SpawnHandle_OnComplete ::
  "'f \<Rightarrow> ('v, 'f, 'g) SpawnState \<Rightarrow> ('v, 'f, 'g) SpawnState \<times> ('f \<times> 'v slot) list" where
  "SpawnHandle_OnComplete callback s =
    (if ss_completed s
     then (s, case ss_result s of Some value_copy \<Rightarrow> [(callback, value_copy)] | None \<Rightarrow> [])
     else (s\<lparr>ss_on_complete := Some callback\<rparr>, []))"

definition SpawnHandle_OnError ::
  "'g \<Rightarrow> ('v, 'f, 'g) SpawnState \<Rightarrow> ('v, 'f, 'g) SpawnState \<times> ('g \<times> error_code) list" where
  "SpawnHandle_OnError callback s =
    (if ss_failed s
     then (s, if ec_bool (ss_error s) then [(callback, ss_error s)] else [])
     else (s\<lparr>ss_on_error := Some callback\<rparr>, []))"

lemmas SpawnState_defs [op_defs] =
  SpawnState_init_def SpawnState_Complete_def SpawnState_Fail_def SpawnHandle_OnComplete_def SpawnHandle_OnError_def

subsection \<open>Sequences of operations\<close>

datatype ('v, 'f, 'g) spawn_op = OpComplete 'v | OpFail error_code | OpOnComplete 'f | OpOnError 'g

fun spawn_step ::
  "('v, 'f, 'g) spawn_op \<Rightarrow> ('v, 'f, 'g) SpawnState \<Rightarrow>
   ('v, 'f, 'g) SpawnState \<times> ('f \<times> 'v slot) list \<times> ('g \<times> error_code) list" where
  "spawn_step (OpComplete v) s = (let (s', cs) = SpawnState_Complete v s in (s', cs, []))"
| "spawn_step (OpFail e) s = (let (s', es) = SpawnState_Fail e s in (s', [], es))"
| "spawn_step (OpOnComplete f) s = (let (s', cs) = SpawnHandle_OnComplete f s in (s', cs, []))"
| "spawn_step (OpOnError g) s = (let (s', es) = SpawnHandle_OnError g s in (s', [], es))"

text \<open>The callbacks called, in order, with their arguments.\<close>

fun spawn_run ::
  "('v, 'f, 'g) spawn_op list \<Rightarrow> ('v, 'f, 'g) SpawnState \<Rightarrow>
   ('v, 'f, 'g) SpawnState \<times> ('f \<times> 'v slot) list \<times> ('g \<times> error_code) list" where
  "spawn_run [] s = (s, [], [])"
| "spawn_run (x # xs) s =
     (let (s1, cs1, es1) = spawn_step x s; (s2, cs2, es2) = spawn_run xs s1 in (s2, cs1 @ cs2, es1 @ es2))"

fun completes :: "('v, 'f, 'g) spawn_op \<Rightarrow> bool" where
  "completes (OpComplete _) = True"
| "completes _ = False"

fun fails :: "('v, 'f, 'g) spawn_op \<Rightarrow> bool" where
  "fails (OpFail _) = True"
| "fails _ = False"

fun complete_callbacks :: "('v, 'f, 'g) spawn_op list \<Rightarrow> 'f list" where
  "complete_callbacks [] = []"
| "complete_callbacks (OpOnComplete f # xs) = f # complete_callbacks xs"
| "complete_callbacks (_ # xs) = complete_callbacks xs"

fun error_callbacks :: "('v, 'f, 'g) spawn_op list \<Rightarrow> 'g list" where
  "error_callbacks [] = []"
| "error_callbacks (OpOnError g # xs) = g # error_callbacks xs"
| "error_callbacks (_ # xs) = error_callbacks xs"

lemma spawn_run_append:
  "spawn_run (xs @ ys) s =
    (let (s1, cs1, es1) = spawn_run xs s; (s2, cs2, es2) = spawn_run ys s1 in (s2, cs1 @ cs2, es1 @ es2))"
  by (induction xs arbitrary: s) (auto split: prod.splits)

definition last_or :: "'a option \<Rightarrow> 'a list \<Rightarrow> 'a option" where
  "last_or x xs = (if xs = [] then x else Some (last xs))"

lemma last_or_simps [simp]: "last_or x [] = x" "last_or x (y # ys) = last_or (Some y) ys"
  by (simp_all add: last_or_def)

text \<open>Before the completion the last registered callback is kept and none is called.\<close>

lemma run_before_complete:
  assumes "spawn_run xs s = (s', cs, es)" and "\<not> ss_completed s" and "\<forall>x \<in> set xs. \<not> completes x"
  shows "cs = [] \<and> \<not> ss_completed s' \<and> ss_on_complete s' = last_or (ss_on_complete s) (complete_callbacks xs)"
  using assms
proof (induction xs arbitrary: s cs es)
  case (Cons x xs)
  obtain s1 c1 e1 where 1: "spawn_step x s = (s1, c1, e1)" by (cases "spawn_step x s") auto
  obtain c2 e2 where 2: "spawn_run xs s1 = (s', c2, e2)" "cs = c1 @ c2"
    using Cons.prems(1) 1 by (auto split: prod.splits)
  have s1: "c1 = [] \<and> \<not> ss_completed s1 \<and>
      ss_on_complete s1 = (case x of OpOnComplete f \<Rightarrow> Some f | _ \<Rightarrow> ss_on_complete s)"
    using 1 Cons.prems(2,3) by (cases x) (auto simp: SpawnState_defs Let_def split: if_splits option.splits)
  from Cons.IH [OF 2(1)] s1 Cons.prems(3) 2(2) show ?case by (cases x) auto
qed simp

text \<open>After it every registered callback is called at once with what \<open>result\<close> holds.\<close>

lemma run_after_complete:
  assumes "spawn_run xs s = (s', cs, es)" and "ss_completed s" and "ss_result s = Some v"
    and "\<forall>x \<in> set xs. \<not> completes x"
  shows "cs = map (\<lambda>f. (f, v)) (complete_callbacks xs)"
  using assms
proof (induction xs arbitrary: s cs es)
  case (Cons x xs)
  obtain s1 c1 e1 where 1: "spawn_step x s = (s1, c1, e1)" by (cases "spawn_step x s") auto
  obtain c2 e2 where 2: "spawn_run xs s1 = (s', c2, e2)" "cs = c1 @ c2"
    using Cons.prems(1) 1 by (auto split: prod.splits)
  have s1: "ss_completed s1 \<and> ss_result s1 = Some v \<and> c1 = (case x of OpOnComplete f \<Rightarrow> [(f, v)] | _ \<Rightarrow> [])"
    using 1 Cons.prems(2-4) by (cases x) (auto simp: SpawnState_defs Let_def split: if_splits option.splits)
  from Cons.IH [OF 2(1)] s1 Cons.prems(4) 2(2) show ?case by (cases x) auto
qed simp

lemma run_before_fail:
  assumes "spawn_run xs s = (s', cs, es)" and "\<not> ss_failed s" and "\<forall>x \<in> set xs. \<not> fails x"
  shows "es = [] \<and> \<not> ss_failed s' \<and> ss_on_error s' = last_or (ss_on_error s) (error_callbacks xs)"
  using assms
proof (induction xs arbitrary: s cs es)
  case (Cons x xs)
  obtain s1 c1 e1 where 1: "spawn_step x s = (s1, c1, e1)" by (cases "spawn_step x s") auto
  obtain c2 e2 where 2: "spawn_run xs s1 = (s', c2, e2)" "es = e1 @ e2"
    using Cons.prems(1) 1 by (auto split: prod.splits)
  have s1: "e1 = [] \<and> \<not> ss_failed s1 \<and> ss_on_error s1 = (case x of OpOnError f \<Rightarrow> Some f | _ \<Rightarrow> ss_on_error s)"
    using 1 Cons.prems(2,3) by (cases x) (auto simp: SpawnState_defs Let_def split: if_splits option.splits)
  from Cons.IH [OF 2(1)] s1 Cons.prems(3) 2(2) show ?case by (cases x) auto
qed simp

lemma run_after_fail:
  assumes "spawn_run xs s = (s', cs, es)" and "ss_failed s" and "ss_error s = e" and "ec_bool e"
    and "\<forall>x \<in> set xs. \<not> fails x"
  shows "es = map (\<lambda>g. (g, e)) (error_callbacks xs)"
  using assms
proof (induction xs arbitrary: s cs es)
  case (Cons x xs)
  obtain s1 c1 e1 where 1: "spawn_step x s = (s1, c1, e1)" by (cases "spawn_step x s") auto
  obtain c2 e2 where 2: "spawn_run xs s1 = (s', c2, e2)" "es = e1 @ e2"
    using Cons.prems(1) 1 by (auto split: prod.splits)
  have s1: "ss_failed s1 \<and> ss_error s1 = e \<and> e1 = (case x of OpOnError f \<Rightarrow> [(f, e)] | _ \<Rightarrow> [])"
    using 1 Cons.prems(2-5) by (cases x) (auto simp: SpawnState_defs Let_def split: if_splits option.splits)
  from Cons.IH [OF 2(1)] s1 Cons.prems(4,5) 2(2) show ?case by (cases x) auto
qed simp

text \<open>
  Callbacks of a spawned task:  Take any sequence of operations in which the task
  completes once with \<open>v\<close>, at any point among any number of registrations and failures.  A
  registration before the completion replaces the earlier ones, and the last of them is
  called once, by \<open>Complete\<close>, with \<open>v\<close>.  A registration after it is called at once: with \<open>v\<close> if
  none was registered before; otherwise the value has been moved into that earlier
  callback and the later ones get the moved-from object.  Errors likewise, and every
  callback gets the error.
\<close>

theorem spawn_callbacks:
  assumes "spawn_run (pre @ OpComplete v # post) SpawnState_init = (s, cs, es)"
    and "\<forall>x \<in> set pre \<union> set post. \<not> completes x"
    and "spawn_run (pre' @ OpFail e # post') SpawnState_init = (s', cs', es')"
    and "\<forall>x \<in> set pre' \<union> set post'. \<not> fails x" and "ec_bool e"
  shows "cs = (if complete_callbacks pre = [] then map (\<lambda>f. (f, Val v)) (complete_callbacks post)
               else (last (complete_callbacks pre), Val v) # map (\<lambda>f. (f, MovedFrom)) (complete_callbacks post)) \<and>
         es' = (if error_callbacks pre' = [] then [] else [(last (error_callbacks pre'), e)]) @
               map (\<lambda>g. (g, e)) (error_callbacks post')"
proof -
  obtain s1 c1 e1 where 1: "spawn_run pre SpawnState_init = (s1, c1, e1)" by (cases "spawn_run pre SpawnState_init") auto
  obtain s2 c2 where 2: "SpawnState_Complete v s1 = (s2, c2)" by (cases "SpawnState_Complete v s1")
  obtain c3 e3 where 3: "spawn_run post s2 = (s, c3, e3)" "cs = c1 @ c2 @ c3"
    using assms(1) 1 2 by (auto simp: spawn_run_append split: prod.splits)
  have "c1 = []" and on: "ss_on_complete s1 = last_or None (complete_callbacks pre)"
    using run_before_complete [OF 1] assms(2) by (auto simp: SpawnState_init_def)
  moreover have "c3 = map (\<lambda>f. (f, the (ss_result s2))) (complete_callbacks post)"
    using run_after_complete [OF 3(1)] assms(2) 2 by (auto simp: SpawnState_defs Let_def split: option.splits)
  ultimately have c: "cs = (if complete_callbacks pre = [] then map (\<lambda>f. (f, Val v)) (complete_callbacks post)
               else (last (complete_callbacks pre), Val v) # map (\<lambda>f. (f, MovedFrom)) (complete_callbacks post))"
    using 2 3(2) by (auto simp: SpawnState_defs Let_def last_or_def)
  obtain s4 c4 e4 where 4: "spawn_run pre' SpawnState_init = (s4, c4, e4)" by (cases "spawn_run pre' SpawnState_init") auto
  obtain s5 e5 where 5: "SpawnState_Fail e s4 = (s5, e5)" by (cases "SpawnState_Fail e s4")
  obtain c6 e6 where 6: "spawn_run post' s5 = (s', c6, e6)" "es' = e4 @ e5 @ e6"
    using assms(3) 4 5 by (auto simp: spawn_run_append split: prod.splits)
  have "e4 = []" "ss_on_error s4 = last_or None (error_callbacks pre')"
    using run_before_fail [OF 4] assms(4) by (auto simp: SpawnState_init_def)
  moreover have "e6 = map (\<lambda>g. (g, e)) (error_callbacks post')"
    using run_after_fail [OF 6(1)] assms(4,5) 5 by (auto simp: SpawnState_defs Let_def split: option.splits)
  ultimately show ?thesis
    using c 5 6(2) by (auto simp: SpawnState_Fail_def Let_def last_or_def split: option.splits if_splits)
qed

theorem spawn_callbacks_witness:
  "fst (snd (spawn_run [OpOnError (1 :: nat), OpOnComplete 2, OpComplete (7 :: nat), OpOnComplete (3 :: nat)] SpawnState_init)) =
     [(2, Val 7), (3, MovedFrom)] \<and>
   snd (snd (spawn_run [OpFail (make_error_code NoExecutor), OpOnError (4 :: nat)]
     (SpawnState_init :: (nat, nat, nat) SpawnState))) = [(4, make_error_code NoExecutor)]"
proof -
  let ?a = "spawn_run ([OpOnError (1 :: nat), OpOnComplete 2] @ OpComplete (7 :: nat) # [OpOnComplete (3 :: nat)]) SpawnState_init"
  let ?b = "spawn_run ([] @ OpFail (make_error_code NoExecutor) # [OpOnError (4 :: nat)]) (SpawnState_init :: (nat, nat, nat) SpawnState)"
  have "ec_bool (make_error_code NoExecutor)" by (simp add: ec_bool_def make_error_code_def)
  from spawn_callbacks [of "[OpOnError (1 :: nat), OpOnComplete 2]" "7 :: nat" "[OpOnComplete (3 :: nat)]"
      "fst ?a" "fst (snd ?a)" "snd (snd ?a)" "[]" "make_error_code NoExecutor" "[OpOnError (4 :: nat)]"
      "fst ?b" "fst (snd ?b)" "snd (snd ?b)", OF _ _ _ _ this] show ?thesis by simp
qed

subsection \<open>The void specialisation\<close>

record ('f, 'g) SpawnStateVoid =
  sv_completed :: bool
  sv_failed :: bool
  sv_error :: error_code
  sv_on_complete :: "'f option"
  sv_on_error :: "'g option"

definition SpawnStateVoid_Complete :: "('f, 'g) SpawnStateVoid \<Rightarrow> ('f, 'g) SpawnStateVoid \<times> 'f list" where
  "SpawnStateVoid_Complete s =
    (let s = s\<lparr>sv_completed := True\<rparr>
     in case sv_on_complete s of Some cb \<Rightarrow> (s\<lparr>sv_on_complete := None\<rparr>, [cb]) | None \<Rightarrow> (s, []))"

definition SpawnStateVoid_Fail ::
  "error_code \<Rightarrow> ('f, 'g) SpawnStateVoid \<Rightarrow> ('f, 'g) SpawnStateVoid \<times> ('g \<times> error_code) list" where
  "SpawnStateVoid_Fail ec s =
    (let s = s\<lparr>sv_error := ec, sv_failed := True\<rparr>
     in case sv_on_error s of Some cb \<Rightarrow> (s\<lparr>sv_on_error := None\<rparr>, [(cb, ec)]) | None \<Rightarrow> (s, []))"

definition SpawnHandleVoid_OnComplete :: "'f \<Rightarrow> ('f, 'g) SpawnStateVoid \<Rightarrow> ('f, 'g) SpawnStateVoid \<times> 'f list" where
  "SpawnHandleVoid_OnComplete callback s =
    (let already_done = sv_completed s;
         s = (if already_done then s else s\<lparr>sv_on_complete := Some callback\<rparr>)
     in (s, if already_done then [callback] else []))"

definition SpawnHandleVoid_OnError ::
  "'g \<Rightarrow> ('f, 'g) SpawnStateVoid \<Rightarrow> ('f, 'g) SpawnStateVoid \<times> ('g \<times> error_code) list" where
  "SpawnHandleVoid_OnError callback s =
    (if sv_failed s
     then (s, if ec_bool (sv_error s) then [(callback, sv_error s)] else [])
     else (s\<lparr>sv_on_error := Some callback\<rparr>, []))"

text \<open>It is the general state with the value forgotten.\<close>

definition spawn_void_view :: "(unit, 'f, 'g) SpawnState \<Rightarrow> ('f, 'g) SpawnStateVoid" where
  "spawn_void_view s = \<lparr>sv_completed = ss_completed s, sv_failed = ss_failed s, sv_error = ss_error s,
     sv_on_complete = ss_on_complete s, sv_on_error = ss_on_error s\<rparr>"

lemma spawn_void_refines:
  "SpawnStateVoid_Complete (spawn_void_view s) = map_prod spawn_void_view (map fst) (SpawnState_Complete () s)"
  "SpawnStateVoid_Fail e (spawn_void_view s) = map_prod spawn_void_view id (SpawnState_Fail e s)"
  "(ss_completed s \<longrightarrow> ss_result s \<noteq> None) \<Longrightarrow>
   SpawnHandleVoid_OnComplete f (spawn_void_view s) = map_prod spawn_void_view (map fst) (SpawnHandle_OnComplete f s)"
  "SpawnHandleVoid_OnError g (spawn_void_view s) = map_prod spawn_void_view id (SpawnHandle_OnError g s)"
  by (auto simp: spawn_void_view_def SpawnState_defs SpawnStateVoid_Complete_def SpawnStateVoid_Fail_def
      SpawnHandleVoid_OnComplete_def SpawnHandleVoid_OnError_def Let_def split: option.splits)

subsection \<open>The wrapper and \<open>Spawn\<close>\<close>

record SpawnedTask =
  st_handle :: handle

definition SpawnedTask_move :: "SpawnedTask \<Rightarrow> SpawnedTask \<times> SpawnedTask" where
  "SpawnedTask_move other = (\<lparr>st_handle = st_handle other\<rparr>, other\<lparr>st_handle := null_handle\<rparr>)"

text \<open>The destructor does nothing: a frame that was scheduled destroys itself.\<close>

definition SpawnedTask_destroy :: "SpawnedTask \<Rightarrow> handle list" where
  "SpawnedTask_destroy this = []"

text \<open>
  The move assignment asks \<open>handle_.done()\<close> first; \<open>frame_done h\<close> is \<open>None\<close> where the frame of
  \<open>h\<close> no longer exists.  The outer \<open>None\<close> is the access to a destroyed frame.
\<close>

definition SpawnedTask_assign ::
  "(handle \<Rightarrow> bool option) \<Rightarrow> SpawnedTask \<Rightarrow> SpawnedTask \<Rightarrow> (SpawnedTask \<times> SpawnedTask \<times> handle list) option" where
  "SpawnedTask_assign frame_done this other =
    (let result = (\<lambda>destroyed. (this\<lparr>st_handle := st_handle other\<rparr>, other\<lparr>st_handle := null_handle\<rparr>, destroyed))
     in if st_handle this = null_handle then Some (result [])
        else (case frame_done (st_handle this) of
                None \<Rightarrow> None
              | Some d \<Rightarrow> Some (result (if d then [] else [st_handle this]))))"

lemma spawned_assign_reads_destroyed_frame:
  "h \<noteq> 0 \<Longrightarrow> frame_done h = None \<Longrightarrow> SpawnedTask_assign frame_done \<lparr>st_handle = h\<rparr> other = None"
  by (simp add: SpawnedTask_assign_def)

text \<open>
  The state of a spawned task is shared by its handle and the promise of its frame: both hold a pointer to it
  (0 is null), and \<open>states\<close> maps addresses to states.
\<close>

type_synonym state_ptr = "64 word"

record SpawnHandle =
  sh_state :: state_ptr

definition SpawnHandle_OnComplete_at ::
  "'f \<Rightarrow> SpawnHandle \<Rightarrow> (state_ptr \<Rightarrow> ('v, 'f, 'g) SpawnState) \<Rightarrow>
   (state_ptr \<Rightarrow> ('v, 'f, 'g) SpawnState) \<times> ('f \<times> 'v slot) list" where
  "SpawnHandle_OnComplete_at callback this states =
    (if sh_state this \<noteq> 0
     then (let (st, calls) = SpawnHandle_OnComplete callback (states (sh_state this)) in (states(sh_state this := st), calls))
     else (states, []))"

definition SpawnHandle_OnError_at ::
  "'g \<Rightarrow> SpawnHandle \<Rightarrow> (state_ptr \<Rightarrow> ('v, 'f, 'g) SpawnState) \<Rightarrow>
   (state_ptr \<Rightarrow> ('v, 'f, 'g) SpawnState) \<times> ('g \<times> error_code) list" where
  "SpawnHandle_OnError_at callback this states =
    (if sh_state this \<noteq> 0
     then (let (st, calls) = SpawnHandle_OnError callback (states (sh_state this)) in (states(sh_state this := st), calls))
     else (states, []))"

text \<open>\<open>promises\<close>: the member \<open>state\<close> of the promise of each frame.\<close>

definition SpawnedTask_SetState :: "state_ptr \<Rightarrow> SpawnedTask \<Rightarrow> (handle \<Rightarrow> state_ptr) \<Rightarrow> (handle \<Rightarrow> state_ptr)" where
  "SpawnedTask_SetState state this promises =
    (if st_handle this \<noteq> null_handle then promises(st_handle this := state) else promises)"

text \<open>\<open>return_value\<close> and the final suspension: complete the state, destroy the frame.\<close>

definition SpawnedTask_finish ::
  "handle \<Rightarrow> 'v \<Rightarrow> (handle \<Rightarrow> state_ptr) \<Rightarrow> (state_ptr \<Rightarrow> ('v, 'f, 'g) SpawnState) \<Rightarrow>
   (state_ptr \<Rightarrow> ('v, 'f, 'g) SpawnState) \<times> ('f \<times> 'v slot) list \<times> handle list" where
  "SpawnedTask_finish h v promises states =
    (if promises h \<noteq> 0
     then (let (st, calls) = SpawnState_Complete v (states (promises h)) in (states(promises h := st), calls, [h]))
     else (states, [], [h]))"

text \<open>\<open>SpawnedTask<void>\<close>, the class for tasks without a value.\<close>

record SpawnedTaskVoid =
  sk_handle :: handle

definition SpawnedTaskVoid_move :: "SpawnedTaskVoid \<Rightarrow> SpawnedTaskVoid \<times> SpawnedTaskVoid" where
  "SpawnedTaskVoid_move other = (\<lparr>sk_handle = sk_handle other\<rparr>, other\<lparr>sk_handle := null_handle\<rparr>)"

definition SpawnedTaskVoid_assign ::
  "(handle \<Rightarrow> bool option) \<Rightarrow> SpawnedTaskVoid \<Rightarrow> SpawnedTaskVoid \<Rightarrow> (SpawnedTaskVoid \<times> SpawnedTaskVoid \<times> handle list) option" where
  "SpawnedTaskVoid_assign frame_done this other =
    (let result = (\<lambda>destroyed. (this\<lparr>sk_handle := sk_handle other\<rparr>, other\<lparr>sk_handle := null_handle\<rparr>, destroyed))
     in if sk_handle this = null_handle then Some (result [])
        else (case frame_done (sk_handle this) of
                None \<Rightarrow> None
              | Some d \<Rightarrow> Some (result (if d then [] else [sk_handle this]))))"

definition SpawnedTaskVoid_SetState :: "state_ptr \<Rightarrow> SpawnedTaskVoid \<Rightarrow> (handle \<Rightarrow> state_ptr) \<Rightarrow> (handle \<Rightarrow> state_ptr)" where
  "SpawnedTaskVoid_SetState state this promises =
    (if sk_handle this \<noteq> null_handle then promises(sk_handle this := state) else promises)"

definition SpawnedTaskVoid_finish ::
  "handle \<Rightarrow> (handle \<Rightarrow> state_ptr) \<Rightarrow> (state_ptr \<Rightarrow> ('f, 'g) SpawnStateVoid) \<Rightarrow>
   (state_ptr \<Rightarrow> ('f, 'g) SpawnStateVoid) \<times> 'f list \<times> handle list" where
  "SpawnedTaskVoid_finish h promises states =
    (if promises h \<noteq> 0
     then (let (st, calls) = SpawnStateVoid_Complete (states (promises h)) in (states(promises h := st), calls, [h]))
     else (states, [], [h]))"

text \<open>It ends as the general one does, forgetting the value.\<close>

lemma spawned_void_finish:
  "SpawnedTaskVoid_finish h promises (spawn_void_view \<circ> states) =
    (let (sts, calls, destroyed) = SpawnedTask_finish h () promises states in (spawn_void_view \<circ> sts, map fst calls, destroyed))"
  by (simp add: SpawnedTaskVoid_finish_def SpawnedTask_finish_def spawn_void_refines case_prod_unfold Let_def fun_upd_comp)

text \<open>\<open>WrapForSpawn\<close>: the body of the spawned coroutine runs the task and returns its value.\<close>

definition WrapForSpawn :: "('op, 'ans, 'v) coro \<Rightarrow> ('op, 'ans, 'v) coro" where
  "WrapForSpawn task = co_await task CoReturn"

lemma WrapForSpawn_runs_task: "coro_run env (WrapForSpawn task) past = coro_run env task past"
  by (simp add: WrapForSpawn_def)

text \<open>
  \<open>Spawn(executor, task)\<close>: \<open>p\<close> is the address of the new state, \<open>h\<close> the frame of \<open>WrapForSpawn\<close>, \<open>Schedule\<close> the executor's.
\<close>

definition Spawn_on ::
  "(handle \<Rightarrow> 'x \<Rightarrow> 'x) \<Rightarrow> state_ptr \<Rightarrow> handle \<Rightarrow> 'x \<Rightarrow> (handle \<Rightarrow> state_ptr) \<Rightarrow> (state_ptr \<Rightarrow> ('v, 'f, 'g) SpawnState) \<Rightarrow>
   SpawnHandle \<times> 'x \<times> (handle \<Rightarrow> state_ptr) \<times> (state_ptr \<Rightarrow> ('v, 'f, 'g) SpawnState)" where
  "Spawn_on Schedule p h executor promises states =
    (let states = states(p := SpawnState_init); spawned = \<lparr>st_handle = h\<rparr>;
         promises = SpawnedTask_SetState p spawned promises
     in (\<lparr>sh_state = p\<rparr>, Schedule (st_handle spawned) executor, promises, states))"

definition Spawn_current ::
  "(handle \<Rightarrow> 'x \<Rightarrow> 'x) \<Rightarrow> state_ptr \<Rightarrow> handle \<Rightarrow> 'x option \<Rightarrow> (handle \<Rightarrow> state_ptr) \<Rightarrow> (state_ptr \<Rightarrow> ('v, 'f, 'g) SpawnState) \<Rightarrow>
   SpawnHandle \<times> 'x option \<times> (handle \<Rightarrow> state_ptr) \<times> (state_ptr \<Rightarrow> ('v, 'f, 'g) SpawnState)" where
  "Spawn_current Schedule p h current promises states =
    (case current of
       None \<Rightarrow> (\<lparr>sh_state = p\<rparr>, None, promises, states(p := fst (SpawnState_Fail (make_error_code NoExecutor) SpawnState_init)))
     | Some x \<Rightarrow> (let (sh, x', ps, sts) = Spawn_on Schedule p h x promises states in (sh, Some x', ps, sts)))"

lemma spawn_without_executor:
  assumes "p \<noteq> 0"
  shows "let (sh, x, ps, sts) = Spawn_current sch p h None promises states
   in x = None \<and> ps = promises \<and> snd (SpawnHandle_OnError_at g sh sts) = [(g, make_error_code NoExecutor)] \<and>
      snd (SpawnHandle_OnComplete_at f sh sts) = []"
  using assms
  by (simp add: Spawn_current_def SpawnHandle_OnError_at_def SpawnHandle_OnComplete_at_def SpawnState_defs ec_bool_def
      make_error_code_def Let_def)

end
