(* ===== verification/Uring.thy ===== *)
theory Uring
  imports Prelude
begin

text \<open>
  The part of io_uring the sources rely on: a submission queue of fixed size from which
  \<open>io_uring_get_sqe\<close> takes a free entry or returns null, \<open>io_uring_submit\<close> which hands all
  prepared entries to the kernel, and one completion per submitted entry.  The requests are
  those the sources prepare, with the arguments they pass.
\<close>

datatype sqe_op =
    PrepAccept int uint64 uint64 int
  | PrepConnect int uint64 uint32
  | PrepRecv int uint64 uint32 int
  | PrepRecvSelect int uint16 int
  | PrepSend int uint64 uint32 int
  | PrepOpenAt int string int uint32
  | PrepRead int uint64 uint32 uint64
  | PrepWrite int uint64 uint32 uint64
  | PrepClose int
  | PrepFsync int uint32
  | PrepStatx int string int uint32 uint64
  | PrepUnlinkAt int string int
  | PrepMkdirAt int string uint32
  | PrepTimeout int int
  | PrepReadEventfd int

text \<open>
  The user data of an entry is the address of an \<open>OpContext\<close>: the executor's own for the
  wake-up read, one allocated per timeout, one inside the awaitable of an I/O operation.
\<close>

datatype ctx_ref = WakeupCtx | TimeoutCtx nat | IoCtx nat

record io_uring =
  ring_entries :: nat
  ring_sq :: "(sqe_op \<times> ctx_ref) list"
  ring_inflight :: "(sqe_op \<times> ctx_ref) list"
  ring_cq :: "(ctx_ref \<times> int \<times> uint32) list"

text \<open>\<open>get_sqe\<close> and the preparation of the entry it returns; \<open>None\<close> is the null pointer.\<close>

definition ring_prepare :: "sqe_op \<Rightarrow> ctx_ref \<Rightarrow> io_uring \<Rightarrow> io_uring option" where
  "ring_prepare op c r =
    (if length (ring_sq r) < ring_entries r then Some (r\<lparr>ring_sq := ring_sq r @ [(op, c)]\<rparr>) else None)"

definition ring_submit :: "io_uring \<Rightarrow> io_uring" where
  "ring_submit r = r\<lparr>ring_inflight := ring_inflight r @ ring_sq r, ring_sq := []\<rparr>"

text \<open>The kernel completes an entry it holds (nothing happens for any other).\<close>

definition ring_complete :: "sqe_op \<times> ctx_ref \<Rightarrow> int \<Rightarrow> uint32 \<Rightarrow> io_uring \<Rightarrow> io_uring" where
  "ring_complete e res flags r =
    (if e \<in> set (ring_inflight r)
     then r\<lparr>ring_inflight := remove1 e (ring_inflight r), ring_cq := ring_cq r @ [(snd e, res, flags)]\<rparr>
     else r)"

text \<open>All contexts the ring refers to, with the completions given separately.\<close>

definition ring_refs :: "io_uring \<Rightarrow> (ctx_ref \<times> int \<times> uint32) list \<Rightarrow> ctx_ref multiset" where
  "ring_refs r cqes = mset (map snd (ring_sq r)) + mset (map snd (ring_inflight r)) + mset (map fst cqes)"

lemma ring_refs_prepare:
  "ring_prepare op c r = Some r' \<Longrightarrow> ring_refs r' cqes = add_mset c (ring_refs r cqes) \<and> ring_cq r' = ring_cq r"
  by (auto simp: ring_prepare_def ring_refs_def split: if_splits)

lemma ring_refs_submit [simp]: "ring_refs (ring_submit r) cqes = ring_refs r cqes" "ring_cq (ring_submit r) = ring_cq r"
  by (simp_all add: ring_submit_def ring_refs_def union_assoc union_commute union_lcomm)

lemma ring_refs_complete: "ring_refs (ring_complete e res flags r) (ring_cq (ring_complete e res flags r)) = ring_refs r (ring_cq r)"
proof (cases "e \<in> set (ring_inflight r)")
  case True
  then obtain M where "mset (ring_inflight r) = add_mset e M"
    using multi_member_split [of e "mset (ring_inflight r)"] by auto
  with True show ?thesis by (simp add: ring_complete_def ring_refs_def)
qed (simp add: ring_complete_def)

end
