(* ===== verification/Executor.thy ===== *)
theory Executor
  imports Uring
begin

text \<open>
  The executor interface of \<open>io/executor.hpp\<close>, the current executor of a thread
  (\<open>io/executor.cpp\<close>), the awaitables that go through it (\<open>core/schedule_on.hpp\<close>), and what
  the event-loop executors have in common: a queue of ready coroutines and a queue of
  callbacks that are filled by \<open>Schedule\<close> and \<open>Post\<close> from anywhere, also from the code that
  is being run, and emptied by swapping them out and running what they held.
\<close>

subsection \<open>Commands and the code that is run\<close>

text \<open>
  The state-changing calls of the interface.  Callbacks are numbered; the coroutines and
  callbacks themselves are code outside the library, given by the commands each run of them
  issues, which may depend on everything that was run before.  \<open>DoIo op a h\<close> is the
  \<open>await_suspend\<close> of an io_uring awaitable with its context at address \<open>a\<close>, for coroutine \<open>h\<close>.  \<open>Elapse t\<close> is no call: it says
  that the steady clock advances by \<open>t\<close> while the code runs.
\<close>

datatype exec_cmd = DoSchedule handle | DoScheduleAfter int handle | DoPost nat | DoStop
  | DoIo sqe_op nat handle | Elapse nat

datatype work = Coro handle | Call nat

datatype run_source = FromQueue | FromTimer | FromPoll

text \<open>A log entry: where the item came from, the item, and whether it was run or passed over.\<close>

type_synonym run_log = "(run_source \<times> work \<times> bool) list"

fun scheduled_by :: "exec_cmd \<Rightarrow> handle list" where
  "scheduled_by (DoSchedule h) = [h]"
| "scheduled_by _ = []"

fun posted_by :: "exec_cmd \<Rightarrow> nat list" where
  "posted_by (DoPost c) = [c]"
| "posted_by _ = []"

fun delayed_by :: "exec_cmd \<Rightarrow> (int \<times> handle) list" where
  "delayed_by (DoScheduleAfter d h) = [(d, h)]"
| "delayed_by _ = []"

fun queued_coro :: "run_source \<times> work \<times> bool \<Rightarrow> handle list" where
  "queued_coro (FromQueue, Coro h, _) = [h]"
| "queued_coro _ = []"

fun queued_call :: "run_source \<times> work \<times> bool \<Rightarrow> nat list" where
  "queued_call (FromQueue, Call c, _) = [c]"
| "queued_call _ = []"

record 's loop_world =
  lw_state :: 's
  lw_log :: run_log
  lw_cmds :: "exec_cmd list"

definition issue :: "(exec_cmd \<Rightarrow> 's \<Rightarrow> 's) \<Rightarrow> exec_cmd list \<Rightarrow> 's loop_world \<Rightarrow> 's loop_world" where
  "issue app cs w = w\<lparr>lw_state := fold app cs (lw_state w), lw_cmds := lw_cmds w @ cs\<rparr>"

text \<open>
  Running a list of items in order: an item is passed over if \<open>skip\<close> says so at that moment,
  otherwise it is resumed or called and issues its commands.
\<close>

fun run_items ::
  "(exec_cmd \<Rightarrow> 's \<Rightarrow> 's) \<Rightarrow> (run_log \<Rightarrow> work \<Rightarrow> exec_cmd list) \<Rightarrow> (run_log \<Rightarrow> work \<Rightarrow> bool) \<Rightarrow>
   run_source \<Rightarrow> work list \<Rightarrow> 's loop_world \<Rightarrow> 's loop_world" where
  "run_items app body skip src [] w = w"
| "run_items app body skip src (x # xs) w =
     (if skip (lw_log w) x
      then run_items app body skip src xs (w\<lparr>lw_log := lw_log w @ [(src, x, False)]\<rparr>)
      else run_items app body skip src xs
             (issue app (body (lw_log w) x) (w\<lparr>lw_log := lw_log w @ [(src, x, True)]\<rparr>)))"

text \<open>\<open>if (handle) handle.resume()\<close>\<close>

definition skip_null :: "run_log \<Rightarrow> work \<Rightarrow> bool" where
  "skip_null log x \<longleftrightarrow> x = Coro null_handle"

text \<open>\<open>if (handle && !handle.done()) handle.resume()\<close>\<close>

definition skip_done :: "(run_log \<Rightarrow> handle \<Rightarrow> bool) \<Rightarrow> run_log \<Rightarrow> work \<Rightarrow> bool" where
  "skip_done is_done log x \<longleftrightarrow> (case x of Coro h \<Rightarrow> h = null_handle \<or> is_done log h | Call _ \<Rightarrow> False)"

lemma run_items_append:
  "run_items app body skip src (xs @ ys) w = run_items app body skip src ys (run_items app body skip src xs w)"
  by (induction xs arbitrary: w) auto

subsection \<open>The contract of an event loop\<close>

definition fifo_ok :: "('s \<Rightarrow> handle list) \<Rightarrow> ('s \<Rightarrow> nat list) \<Rightarrow> handle list \<Rightarrow> nat list \<Rightarrow> 's loop_world \<Rightarrow> bool" where
  "fifo_ok ready calls hs cs w \<longleftrightarrow>
     concat (map scheduled_by (lw_cmds w)) = concat (map queued_coro (lw_log w)) @ hs @ ready (lw_state w) \<and>
     concat (map posted_by (lw_cmds w)) = concat (map queued_call (lw_log w)) @ cs @ calls (lw_state w)"

locale event_loop =
  fixes app :: "exec_cmd \<Rightarrow> 's \<Rightarrow> 's"
    and ready :: "'s \<Rightarrow> handle list" and calls :: "'s \<Rightarrow> nat list" and swap :: "'s \<Rightarrow> 's"
  assumes app_ready: "ready (app c s) = ready s @ scheduled_by c"
    and app_calls: "calls (app c s) = calls s @ posted_by c"
    and swap_ready: "ready (swap s) = []" and swap_calls: "calls (swap s) = []"
begin

lemma fold_app:
  "ready (fold app cs s) = ready s @ concat (map scheduled_by cs)"
  "calls (fold app cs s) = calls s @ concat (map posted_by cs)"
  by (induction cs arbitrary: s) (simp_all add: app_ready app_calls)

lemma issue_fifo: "fifo_ok ready calls hs cs w \<Longrightarrow> fifo_ok ready calls hs cs (issue app cmds w)"
  by (simp add: fifo_ok_def issue_def fold_app)

lemma log_other:
  "fifo_ok ready calls hs cs w \<Longrightarrow> src \<noteq> FromQueue \<Longrightarrow> fifo_ok ready calls hs cs (w\<lparr>lw_log := lw_log w @ [(src, x, b)]\<rparr>)"
  by (cases src) (simp_all add: fifo_ok_def)

text \<open>Items that come from elsewhere leave the account of the queues balanced.\<close>

lemma run_other_fifo:
  "fifo_ok ready calls hs cs w \<Longrightarrow> src \<noteq> FromQueue \<Longrightarrow>
   fifo_ok ready calls hs cs (run_items app body skip src xs w)"
proof (induction xs arbitrary: w)
  case (Cons x xs)
  then show ?case using log_other issue_fifo by auto
qed simp

text \<open>Items of the queues move from the swapped-out part into the log.\<close>

lemma run_queue_fifo:
  "fifo_ok ready calls (hs @ hs') cs w \<Longrightarrow>
   fifo_ok ready calls hs' cs (run_items app body skip FromQueue (map Coro hs) w)"
proof (induction hs arbitrary: w)
  case (Cons h hs)
  have l: "fifo_ok ready calls (hs @ hs') cs (w\<lparr>lw_log := lw_log w @ [(FromQueue, Coro h, b)]\<rparr>)" for b
    using Cons.prems by (simp add: fifo_ok_def)
  show ?case using Cons.IH [OF l] Cons.IH [OF issue_fifo [OF l]] by simp
qed simp

lemma run_calls_fifo:
  "fifo_ok ready calls hs (cs @ cs') w \<Longrightarrow>
   fifo_ok ready calls hs cs' (run_items app body skip FromQueue (map Call cs) w)"
proof (induction cs arbitrary: w)
  case (Cons c cs)
  have l: "fifo_ok ready calls hs (cs @ cs') (w\<lparr>lw_log := lw_log w @ [(FromQueue, Call c, b)]\<rparr>)" for b
    using Cons.prems by (simp add: fifo_ok_def)
  show ?case using Cons.IH [OF l] Cons.IH [OF issue_fifo [OF l]] by simp
qed simp

text \<open>One round: swap, run the coroutines, run the callbacks.\<close>

definition round :: "(run_log \<Rightarrow> work \<Rightarrow> exec_cmd list) \<Rightarrow> (run_log \<Rightarrow> work \<Rightarrow> bool) \<Rightarrow> 's loop_world \<Rightarrow> 's loop_world" where
  "round body skip w =
    (let hs = ready (lw_state w); cs = calls (lw_state w); w = w\<lparr>lw_state := swap (lw_state w)\<rparr>;
         w = run_items app body skip FromQueue (map Coro hs) w
     in run_items app body skip FromQueue (map Call cs) w)"

lemma round_fifo:
  assumes "fifo_ok ready calls [] [] w"
  shows "fifo_ok ready calls [] [] (round body skip w)"
proof -
  let ?w = "w\<lparr>lw_state := swap (lw_state w)\<rparr>"
  have "fifo_ok ready calls (ready (lw_state w) @ []) (calls (lw_state w)) ?w"
    using assms by (simp add: fifo_ok_def swap_ready swap_calls)
  from run_queue_fifo [OF this, of body skip]
  have "fifo_ok ready calls [] (calls (lw_state w) @ []) (run_items app body skip FromQueue (map Coro (ready (lw_state w))) ?w)"
    by simp
  from run_calls_fifo [OF this] show ?thesis by (simp add: round_def Let_def)
qed

text \<open>A round runs what was pending when it began, and nothing that is scheduled during it.\<close>

lemma run_items_log:
  "\<exists>bs. length bs = length xs \<and> lw_log (run_items app body skip src xs w) = lw_log w @ map (Pair src) (zip xs bs)"
proof (induction xs arbitrary: w)
  case (Cons x xs)
  let ?b = "\<not> skip (lw_log w) x"
  let ?w = "if skip (lw_log w) x then w\<lparr>lw_log := lw_log w @ [(src, x, False)]\<rparr>
            else issue app (body (lw_log w) x) (w\<lparr>lw_log := lw_log w @ [(src, x, True)]\<rparr>)"
  have w: "run_items app body skip src (x # xs) w = run_items app body skip src xs ?w" by simp
  obtain bs where bs: "length bs = length xs"
    "lw_log (run_items app body skip src xs ?w) = lw_log ?w @ map (Pair src) (zip xs bs)"
    using Cons.IH by blast
  have "lw_log ?w = lw_log w @ [(src, x, ?b)]" by (simp add: issue_def)
  then show ?case unfolding w bs(2) using bs(1) by (intro exI [of _ "?b # bs"]) simp
qed simp

lemma round_log:
  "\<exists>l. lw_log (round body skip w) = lw_log w @ l \<and>
     map (fst \<circ> snd) l = map Coro (ready (lw_state w)) @ map Call (calls (lw_state w)) \<and> (\<forall>e \<in> set l. fst e = FromQueue)"
proof -
  let ?w = "w\<lparr>lw_state := swap (lw_state w)\<rparr>"
  let ?w1 = "run_items app body skip FromQueue (map Coro (ready (lw_state w))) ?w"
  obtain bs where bs: "length bs = length (ready (lw_state w))"
    "lw_log ?w1 = lw_log w @ map (Pair FromQueue) (zip (map Coro (ready (lw_state w))) bs)"
    using run_items_log [of "map Coro (ready (lw_state w))" body skip FromQueue ?w] by auto
  obtain bs' where bs': "length bs' = length (calls (lw_state w))"
    "lw_log (round body skip w) = lw_log ?w1 @ map (Pair FromQueue) (zip (map Call (calls (lw_state w))) bs')"
    using run_items_log [of "map Call (calls (lw_state w))" body skip FromQueue ?w1] by (auto simp: round_def Let_def)
  have m: "map (fst \<circ> snd) (map (Pair FromQueue) (zip xs zs)) = xs" if "length zs = length xs" for xs :: "work list" and zs :: "bool list"
    using that by (induction xs zs rule: list_induct2') auto
  show ?thesis
    by (rule exI [of _ "map (Pair FromQueue) (zip (map Coro (ready (lw_state w))) bs) @
          map (Pair FromQueue) (zip (map Call (calls (lw_state w))) bs')"])
      (use bs bs' in \<open>auto simp: m simp del: map_map\<close>)
qed

end

subsection \<open>The current executor of a thread\<close>

text \<open>Executors are addresses; 0 is \<open>nullptr\<close>.\<close>

definition GetCurrentExecutor :: "uint64 \<Rightarrow> uint64" where
  "GetCurrentExecutor g_current = g_current"

definition SetCurrentExecutor :: "uint64 \<Rightarrow> uint64 \<Rightarrow> uint64" where
  "SetCurrentExecutor executor g_current = executor"

record ExecutorGuard =
  eg_previous :: uint64

definition ExecutorGuard_init :: "uint64 \<Rightarrow> uint64 \<Rightarrow> ExecutorGuard \<times> uint64" where
  "ExecutorGuard_init executor g_current = (\<lparr>eg_previous = g_current\<rparr>, executor)"

definition ExecutorGuard_destroy :: "ExecutorGuard \<Rightarrow> uint64 \<Rightarrow> uint64" where
  "ExecutorGuard_destroy g g_current = eg_previous g"

text \<open>Scopes that install an executor, with scopes nested inside; what each reads inside.\<close>

datatype guard_scope = GuardScope uint64 "guard_scope list"

fun run_scope :: "guard_scope \<Rightarrow> uint64 \<Rightarrow> uint64 \<times> (uint64 \<times> uint64) list"
  and run_scopes :: "guard_scope list \<Rightarrow> uint64 \<Rightarrow> uint64 \<times> (uint64 \<times> uint64) list" where
  "run_scope (GuardScope e ss) cur =
     (let (g, cur) = ExecutorGuard_init e cur; seen = GetCurrentExecutor cur;
          (cur, obs) = run_scopes ss cur
      in (ExecutorGuard_destroy g cur, (e, seen) # obs @ [(e, GetCurrentExecutor cur)]))"
| "run_scopes [] cur = (cur, [])"
| "run_scopes (s # ss) cur =
     (let (cur, obs) = run_scope s cur; (cur, obs') = run_scopes ss cur in (cur, obs @ obs'))"

lemma executor_guard_restores:
  "fst (run_scope s cur) = cur \<and> (\<forall>p \<in> set (snd (run_scope s cur)). snd p = fst p)"
  "fst (run_scopes ss cur) = cur \<and> (\<forall>p \<in> set (snd (run_scopes ss cur)). snd p = fst p)"
  by (induction s cur and ss cur rule: run_scope_run_scopes.induct)
    (auto simp: ExecutorGuard_init_def ExecutorGuard_destroy_def GetCurrentExecutor_def split: prod.splits, fastforce)

subsection \<open>Yield and ScheduleOn\<close>

text \<open>
  The executors of the program are a store from addresses to their states; \<open>app\<close> executes a
  command on one of them.  The two awaitables are never ready and have no result.
\<close>

record ScheduleOnAwaitable =
  so_target :: uint64

definition ScheduleOn :: "uint64 \<Rightarrow> ScheduleOnAwaitable" where
  "ScheduleOn target = \<lparr>so_target = target\<rparr>"

definition YieldAwaitable_await_suspend ::
  "(exec_cmd \<Rightarrow> 's \<Rightarrow> 's) \<Rightarrow> uint64 \<Rightarrow> handle \<Rightarrow> (uint64 \<Rightarrow> 's) \<Rightarrow> bool \<times> (uint64 \<Rightarrow> 's)" where
  "YieldAwaitable_await_suspend app g_current h execs =
    (let executor = GetCurrentExecutor g_current in
     if executor = 0 then (False, execs)
     else (True, execs(executor := app (DoSchedule h) (execs executor))))"

definition ScheduleOnAwaitable_await_suspend ::
  "(exec_cmd \<Rightarrow> 's \<Rightarrow> 's) \<Rightarrow> ScheduleOnAwaitable \<Rightarrow> handle \<Rightarrow> (uint64 \<Rightarrow> 's) \<Rightarrow> uint64 \<Rightarrow> 's" where
  "ScheduleOnAwaitable_await_suspend app a h execs =
    execs(so_target a := app (DoSchedule h) (execs (so_target a)))"

context event_loop
begin

text \<open>
  The coroutine is queued behind everything that was ready on the target; no other executor
  changes.  Yielding is this on the current executor.
\<close>

lemma schedule_on_queues:
  "ready (ScheduleOnAwaitable_await_suspend app (ScheduleOn t) h execs e) =
     (if e = t then ready (execs t) @ [h] else ready (execs e))"
  "calls (ScheduleOnAwaitable_await_suspend app (ScheduleOn t) h execs e) = calls (execs e)"
  by (simp_all add: ScheduleOnAwaitable_await_suspend_def ScheduleOn_def app_ready app_calls)

lemma yield_schedules:
  "YieldAwaitable_await_suspend app g_current h execs =
     (if g_current = 0 then (False, execs)
      else (True, ScheduleOnAwaitable_await_suspend app (ScheduleOn g_current) h execs))"
  by (simp add: YieldAwaitable_await_suspend_def ScheduleOnAwaitable_await_suspend_def ScheduleOn_def
      GetCurrentExecutor_def Let_def)

text \<open>
  In the next round of its executor a coroutine that yields runs after all coroutines that were
  ready when it yielded, and that round does not run it twice unless it was queued twice.
\<close>

lemma yield_is_fair:
  assumes "g_current \<noteq> 0"
  shows "\<exists>l. lw_log (round body skip (w\<lparr>lw_state := snd (YieldAwaitable_await_suspend app g_current h execs) g_current\<rparr>)) =
           lw_log w @ l \<and>
         map (fst \<circ> snd) l = map Coro (ready (execs g_current)) @ [Coro h] @ map Call (calls (execs g_current))"
proof -
  let ?w = "w\<lparr>lw_state := snd (YieldAwaitable_await_suspend app g_current h execs) g_current\<rparr>"
  have "ready (lw_state ?w) = ready (execs g_current) @ [h]" "calls (lw_state ?w) = calls (execs g_current)"
    using assms by (simp_all add: yield_schedules schedule_on_queues)
  with round_log [of body skip ?w] show ?thesis by auto
qed

end

end
