(* ===== verification/Libuv.thy ===== *)
theory Libuv
  imports Executor Errors Result
begin

text \<open>
  \<open>io/libuv_executor.hpp\<close> and \<open>io/libuv_executor.cpp\<close>.  libuv is outside the sources: of it the
  model uses which callbacks it may call in which state (an async callback after
  \<open>uv_async_send\<close>, coalescing several sends; an idle callback while the idle handle is
  started; a timer callback once per started timer; a close callback once per closed handle)
  and the results of its initialisers, which are parameters.
\<close>

subsection \<open>State\<close>

text \<open>
  \<open>lu_async_pending\<close>, \<open>lu_uv_idle\<close>: the state of the two libuv handles.  \<open>lu_active\<close>: started
  timers by allocation number with the coroutine of their \<open>ScheduledHandle\<close>; \<open>lu_closing\<close>,
  \<open>lu_freed\<close>: timers passed to \<open>uv_close\<close>, timers deleted, in order.
\<close>

record LibuvExecutor =
  lu_running :: bool
  lu_idle_active :: bool
  lu_ready_queue :: "handle list"
  lu_callback_queue :: "nat list"
  lu_timer_queue :: "(int \<times> handle) list"
  lu_async_pending :: bool
  lu_uv_idle :: bool
  lu_uv_stop :: bool
  lu_next_timer :: nat
  lu_active :: "(nat \<times> handle) list"
  lu_closing :: "nat list"
  lu_freed :: "nat list"

definition LibuvExecutor_init :: LibuvExecutor where
  "LibuvExecutor_init =
    \<lparr>lu_running = False, lu_idle_active = False, lu_ready_queue = [], lu_callback_queue = [], lu_timer_queue = [],
     lu_async_pending = False, lu_uv_idle = False, lu_uv_stop = False, lu_next_timer = 0, lu_active = [],
     lu_closing = [], lu_freed = []\<rparr>"

datatype uv_call = UvLoopInit | UvAsyncInit | UvIdleInit | UvCloseAsync | UvCloseIdle | UvRunOnce | UvRunWhileAlive
  | UvLoopClose

text \<open>
  The results of the three initialisers come in, the calls made come out.  On an error the local
  \<open>unique_ptr\<close> destroys the executor, so the calls of its destructor follow those of the branch.
\<close>

definition libuv_destroy_calls :: "uv_call list" where
  "libuv_destroy_calls = [UvCloseAsync, UvCloseIdle, UvRunWhileAlive, UvLoopClose]"

definition LibuvExecutor_Create :: "int \<Rightarrow> int \<Rightarrow> int \<Rightarrow> (LibuvExecutor, error_code) Result \<times> uv_call list" where
  "LibuvExecutor_Create loop_init async_init idle_init =
    (if loop_init \<noteq> 0 then (Err (make_error_code IoError), [UvLoopInit] @ libuv_destroy_calls)
     else if async_init \<noteq> 0
       then (Err (make_error_code IoError), [UvLoopInit, UvAsyncInit, UvLoopClose] @ libuv_destroy_calls)
     else if idle_init \<noteq> 0
       then (Err (make_error_code IoError),
             [UvLoopInit, UvAsyncInit, UvIdleInit, UvCloseAsync, UvRunOnce, UvLoopClose] @ libuv_destroy_calls)
     else (Ok LibuvExecutor_init, [UvLoopInit, UvAsyncInit, UvIdleInit]))"

subsection \<open>Scheduling\<close>

definition LibuvExecutor_Schedule :: "handle \<Rightarrow> LibuvExecutor \<Rightarrow> LibuvExecutor" where
  "LibuvExecutor_Schedule h s = s\<lparr>lu_ready_queue := lu_ready_queue s @ [h], lu_async_pending := True\<rparr>"

definition LibuvExecutor_ScheduleAfter :: "int \<Rightarrow> handle \<Rightarrow> LibuvExecutor \<Rightarrow> LibuvExecutor" where
  "LibuvExecutor_ScheduleAfter delay h s =
    s\<lparr>lu_timer_queue := lu_timer_queue s @ [(delay, h)], lu_async_pending := True\<rparr>"

definition LibuvExecutor_Post :: "nat \<Rightarrow> LibuvExecutor \<Rightarrow> LibuvExecutor" where
  "LibuvExecutor_Post callback s = s\<lparr>lu_callback_queue := lu_callback_queue s @ [callback], lu_async_pending := True\<rparr>"

definition LibuvExecutor_Stop :: "LibuvExecutor \<Rightarrow> LibuvExecutor" where
  "LibuvExecutor_Stop s = s\<lparr>lu_uv_stop := True, lu_running := False\<rparr>"

definition LibuvExecutor_IsRunning :: "LibuvExecutor \<Rightarrow> bool" where
  "LibuvExecutor_IsRunning s = lu_running s"

fun libuv_cmd :: "exec_cmd \<Rightarrow> LibuvExecutor \<Rightarrow> LibuvExecutor" where
  "libuv_cmd (DoSchedule h) s = LibuvExecutor_Schedule h s"
| "libuv_cmd (DoScheduleAfter d h) s = LibuvExecutor_ScheduleAfter d h s"
| "libuv_cmd (DoPost c) s = LibuvExecutor_Post c s"
| "libuv_cmd DoStop s = LibuvExecutor_Stop s"
| "libuv_cmd (DoIo op a h) s = s"
| "libuv_cmd (Elapse t) s = s"

definition libuv_swap :: "LibuvExecutor \<Rightarrow> LibuvExecutor" where
  "libuv_swap s = s\<lparr>lu_ready_queue := [], lu_callback_queue := [], lu_timer_queue := []\<rparr>"

lemmas Libuv_defs [op_defs] =
  LibuvExecutor_Schedule_def LibuvExecutor_ScheduleAfter_def LibuvExecutor_Post_def LibuvExecutor_Stop_def libuv_swap_def

interpretation libuv: event_loop libuv_cmd lu_ready_queue lu_callback_queue libuv_swap
proof unfold_locales
  fix c s
  show "lu_ready_queue (libuv_cmd c s) = lu_ready_queue s @ scheduled_by c" by (cases c) (simp_all add: Libuv_defs)
  show "lu_callback_queue (libuv_cmd c s) = lu_callback_queue s @ posted_by c" by (cases c) (simp_all add: Libuv_defs)
qed (simp_all add: Libuv_defs)

subsection \<open>The callbacks\<close>

text \<open>
  Creating a timer on the loop thread: on failure of \<open>uv_timer_init\<close> (parameter) the coroutine
  is resumed at once.
\<close>

definition libuv_create_timer ::
  "(run_log \<Rightarrow> work \<Rightarrow> exec_cmd list) \<Rightarrow> (run_log \<Rightarrow> bool) \<Rightarrow> int \<times> handle \<Rightarrow>
   LibuvExecutor loop_world \<Rightarrow> LibuvExecutor loop_world" where
  "libuv_create_timer body init_ok req w =
    (if init_ok (lw_log w)
     then w\<lparr>lw_state := (lw_state w)
            \<lparr>lu_active := lu_active (lw_state w) @ [(lu_next_timer (lw_state w), snd req)],
             lu_next_timer := Suc (lu_next_timer (lw_state w))\<rparr>\<rparr>
     else run_items libuv_cmd body skip_null FromTimer [Coro (snd req)] w)"

definition LibuvExecutor_ProcessReadyQueue ::
  "(run_log \<Rightarrow> work \<Rightarrow> exec_cmd list) \<Rightarrow> (run_log \<Rightarrow> bool) \<Rightarrow> LibuvExecutor loop_world \<Rightarrow> LibuvExecutor loop_world" where
  "LibuvExecutor_ProcessReadyQueue body init_ok w =
    (let ready = lu_ready_queue (lw_state w); callbacks = lu_callback_queue (lw_state w);
         timers = lu_timer_queue (lw_state w);
         w = w\<lparr>lw_state := libuv_swap (lw_state w)\<rparr>;
         w = run_items libuv_cmd body skip_null FromQueue (map Coro ready) w;
         w = run_items libuv_cmd body skip_null FromQueue (map Call callbacks) w
     in fold (libuv_create_timer body init_ok) timers w)"

definition LibuvExecutor_OnAsync :: "LibuvExecutor \<Rightarrow> LibuvExecutor" where
  "LibuvExecutor_OnAsync s = (if \<not> lu_idle_active s then s\<lparr>lu_uv_idle := True, lu_idle_active := True\<rparr> else s)"

definition LibuvExecutor_OnIdle ::
  "(run_log \<Rightarrow> work \<Rightarrow> exec_cmd list) \<Rightarrow> (run_log \<Rightarrow> bool) \<Rightarrow> LibuvExecutor loop_world \<Rightarrow> LibuvExecutor loop_world" where
  "LibuvExecutor_OnIdle body init_ok w =
    (let w = LibuvExecutor_ProcessReadyQueue body init_ok w; s = lw_state w
     in if lu_ready_queue s = [] \<and> lu_callback_queue s = [] \<and> lu_timer_queue s = []
        then w\<lparr>lw_state := s\<lparr>lu_uv_idle := False, lu_idle_active := False\<rparr>\<rparr>
        else w)"

text \<open>A timer fires once (repeat 0): it leaves the active ones, resumes its coroutine and is closed.\<close>

definition LibuvExecutor_OnTimer ::
  "(run_log \<Rightarrow> work \<Rightarrow> exec_cmd list) \<Rightarrow> nat \<times> handle \<Rightarrow> LibuvExecutor loop_world \<Rightarrow> LibuvExecutor loop_world" where
  "LibuvExecutor_OnTimer body t w =
    (let w = w\<lparr>lw_state := (lw_state w)\<lparr>lu_active := remove1 t (lu_active (lw_state w))\<rparr>\<rparr>;
         w = run_items libuv_cmd body skip_null FromTimer [Coro (snd t)] w
     in w\<lparr>lw_state := (lw_state w)\<lparr>lu_closing := lu_closing (lw_state w) @ [fst t]\<rparr>\<rparr>)"

definition LibuvExecutor_OnClose :: "nat \<Rightarrow> LibuvExecutor \<Rightarrow> LibuvExecutor" where
  "LibuvExecutor_OnClose i s = s\<lparr>lu_closing := remove1 i (lu_closing s), lu_freed := lu_freed s @ [i]\<rparr>"

subsection \<open>The loop\<close>

text \<open>One event: a call from anywhere, or a callback libuv may make in this state.\<close>

datatype uv_event = UvExternal "exec_cmd list" | UvAsync | UvIdle | UvTimer nat handle | UvClosed nat

fun libuv_step ::
  "(run_log \<Rightarrow> work \<Rightarrow> exec_cmd list) \<Rightarrow> (run_log \<Rightarrow> bool) \<Rightarrow> uv_event \<Rightarrow>
   LibuvExecutor loop_world \<Rightarrow> LibuvExecutor loop_world option" where
  "libuv_step body init_ok (UvExternal cs) w = Some (issue libuv_cmd cs w)"
| "libuv_step body init_ok UvAsync w =
     (if lu_async_pending (lw_state w)
      then Some (w\<lparr>lw_state := LibuvExecutor_OnAsync ((lw_state w)\<lparr>lu_async_pending := False\<rparr>)\<rparr>) else None)"
| "libuv_step body init_ok UvIdle w =
     (if lu_uv_idle (lw_state w) then Some (LibuvExecutor_OnIdle body init_ok w) else None)"
| "libuv_step body init_ok (UvTimer i h) w =
     (if (i, h) \<in> set (lu_active (lw_state w)) then Some (LibuvExecutor_OnTimer body (i, h) w) else None)"
| "libuv_step body init_ok (UvClosed i) w =
     (if i \<in> set (lu_closing (lw_state w)) then Some (w\<lparr>lw_state := LibuvExecutor_OnClose i (lw_state w)\<rparr>) else None)"

fun libuv_exec ::
  "(run_log \<Rightarrow> work \<Rightarrow> exec_cmd list) \<Rightarrow> (run_log \<Rightarrow> bool) \<Rightarrow> uv_event list \<Rightarrow>
   LibuvExecutor loop_world \<Rightarrow> LibuvExecutor loop_world option" where
  "libuv_exec body init_ok [] w = Some w"
| "libuv_exec body init_ok (e # es) w =
     (case libuv_step body init_ok e w of None \<Rightarrow> None | Some w' \<Rightarrow> libuv_exec body init_ok es w')"

text \<open>\<open>Run\<close>: the loop between the two assignments of \<open>running_\<close>.\<close>

definition LibuvExecutor_Run ::
  "(run_log \<Rightarrow> work \<Rightarrow> exec_cmd list) \<Rightarrow> (run_log \<Rightarrow> bool) \<Rightarrow> uv_event list \<Rightarrow>
   LibuvExecutor loop_world \<Rightarrow> LibuvExecutor loop_world option" where
  "LibuvExecutor_Run body init_ok es w =
    map_option (\<lambda>w. w\<lparr>lw_state := (lw_state w)\<lparr>lu_running := False\<rparr>\<rparr>)
      (libuv_exec body init_ok es (w\<lparr>lw_state := (lw_state w)\<lparr>lu_running := True\<rparr>\<rparr>))"

definition libuv_start :: "LibuvExecutor loop_world" where
  "libuv_start = \<lparr>lw_state = LibuvExecutor_init, lw_log = [], lw_cmds = []\<rparr>"

subsection \<open>No lost wake-up\<close>

definition has_work :: "LibuvExecutor \<Rightarrow> bool" where
  "has_work s \<longleftrightarrow> lu_ready_queue s \<noteq> [] \<or> lu_callback_queue s \<noteq> [] \<or> lu_timer_queue s \<noteq> []"

definition awake_ok :: "LibuvExecutor \<Rightarrow> bool" where
  "awake_ok s \<longleftrightarrow> lu_uv_idle s = lu_idle_active s \<and> (has_work s \<longrightarrow> lu_async_pending s \<or> lu_uv_idle s)"

text \<open>Commands never take work away, never stop the idle handle, and signal when they add work.\<close>

lemma cmd_awake: "awake_ok s \<Longrightarrow> awake_ok (libuv_cmd c s)"
  by (cases c) (auto simp: awake_ok_def has_work_def Libuv_defs)

lemma fold_awake: "awake_ok s \<Longrightarrow> awake_ok (fold libuv_cmd cs s)"
  by (induction cs arbitrary: s) (simp_all add: cmd_awake)

lemma cmd_idle: "lu_uv_idle (libuv_cmd c s) = lu_uv_idle s"
  by (cases c) (simp_all add: Libuv_defs)

lemma run_items_awake: "awake_ok (lw_state w) \<Longrightarrow> awake_ok (lw_state (run_items libuv_cmd body skip src xs w))"
  by (induction xs arbitrary: w) (simp_all add: issue_def fold_awake)

lemma create_timer_awake:
  "awake_ok (lw_state w) \<Longrightarrow> awake_ok (lw_state (libuv_create_timer body init_ok r w))"
proof -
  assume a: "awake_ok (lw_state w)"
  have "awake_ok (s\<lparr>lu_active := xs, lu_next_timer := n\<rparr>) = awake_ok s" for s xs n
    by (simp add: awake_ok_def has_work_def)
  then show ?thesis
    using a run_items_awake [OF a] by (simp add: libuv_create_timer_def del: run_items.simps)
qed

lemma fold_timers_awake:
  "awake_ok (lw_state w) \<Longrightarrow> awake_ok (lw_state (fold (libuv_create_timer body init_ok) rs w))"
  by (induction rs arbitrary: w) (simp_all add: create_timer_awake)

lemma ProcessReadyQueue_awake:
  assumes "awake_ok (lw_state w)"
  shows "awake_ok (lw_state (LibuvExecutor_ProcessReadyQueue body init_ok w))"
proof -
  have "awake_ok (libuv_swap (lw_state w))" using assms by (simp add: awake_ok_def has_work_def libuv_swap_def)
  then show ?thesis
    unfolding LibuvExecutor_ProcessReadyQueue_def Let_def
    by (intro fold_timers_awake run_items_awake) simp
qed

lemma step_awake:
  assumes "awake_ok (lw_state w)" and "libuv_step body init_ok e w = Some w'"
  shows "awake_ok (lw_state w')"
proof (cases e)
  case (UvExternal cs)
  with assms show ?thesis by (auto simp: issue_def fold_awake)
next
  case UvAsync
  with assms show ?thesis by (auto simp: LibuvExecutor_OnAsync_def awake_ok_def has_work_def split: if_splits)
next
  case UvIdle
  with assms ProcessReadyQueue_awake [OF assms(1), of body init_ok] show ?thesis
    by (auto simp: LibuvExecutor_OnIdle_def Let_def awake_ok_def has_work_def split: if_splits)
next
  case (UvTimer i h)
  let ?w = "w\<lparr>lw_state := (lw_state w)\<lparr>lu_active := remove1 (i, h) (lu_active (lw_state w))\<rparr>\<rparr>"
  have "awake_ok (lw_state ?w)" using assms(1) by (auto simp: awake_ok_def has_work_def)
  from run_items_awake [OF this, of body skip_null FromTimer "[Coro h]"] assms(2) UvTimer show ?thesis
    by (auto simp: LibuvExecutor_OnTimer_def Let_def awake_ok_def has_work_def simp del: run_items.simps split: if_splits)
next
  case (UvClosed i)
  with assms show ?thesis by (auto simp: LibuvExecutor_OnClose_def awake_ok_def has_work_def split: if_splits)
qed

subsection \<open>Queues and timers\<close>

abbreviation libuv_ok :: "LibuvExecutor loop_world \<Rightarrow> bool" where
  "libuv_ok \<equiv> fifo_ok lu_ready_queue lu_callback_queue [] []"

lemma create_timer_ok: "libuv_ok w \<Longrightarrow> libuv_ok (libuv_create_timer body init_ok r w)"
  using libuv.run_other_fifo [of "[]" "[]" w FromTimer body skip_null "[Coro (snd r)]"]
  by (simp add: libuv_create_timer_def fifo_ok_def)

lemma fold_timers_ok: "libuv_ok w \<Longrightarrow> libuv_ok (fold (libuv_create_timer body init_ok) rs w)"
  by (induction rs arbitrary: w) (simp_all add: create_timer_ok)

lemma ProcessReadyQueue_ok: "libuv_ok w \<Longrightarrow> libuv_ok (LibuvExecutor_ProcessReadyQueue body init_ok w)"
proof -
  assume "libuv_ok w"
  from fold_timers_ok [OF libuv.round_fifo [OF this, of body skip_null]] show ?thesis
    by (simp add: LibuvExecutor_ProcessReadyQueue_def libuv.round_def Let_def)
qed

lemma libuv_ok_state:
  "lu_ready_queue s = lu_ready_queue (lw_state w) \<Longrightarrow> lu_callback_queue s = lu_callback_queue (lw_state w) \<Longrightarrow>
   libuv_ok (w\<lparr>lw_state := s\<rparr>) = libuv_ok w"
  by (simp add: fifo_ok_def)

lemma step_ok:
  assumes "libuv_ok w" and "libuv_step body init_ok e w = Some w'"
  shows "libuv_ok w'"
proof (cases e)
  case (UvExternal cs)
  with assms libuv.issue_fifo show ?thesis by auto
next
  case UvIdle
  with assms ProcessReadyQueue_ok [OF assms(1), of body init_ok] show ?thesis
    by (auto simp: LibuvExecutor_OnIdle_def Let_def libuv_ok_state split: if_splits)
next
  case (UvTimer i h)
  let ?w = "w\<lparr>lw_state := (lw_state w)\<lparr>lu_active := remove1 (i, h) (lu_active (lw_state w))\<rparr>\<rparr>"
  have "libuv_ok ?w" using assms(1) by (simp add: libuv_ok_state)
  from libuv.run_other_fifo [OF this, of FromTimer body skip_null "[Coro h]"] assms(2) UvTimer show ?thesis
    by (auto simp: LibuvExecutor_OnTimer_def Let_def libuv_ok_state simp del: run_items.simps split: if_splits)
qed (use assms in \<open>auto simp: LibuvExecutor_OnAsync_def LibuvExecutor_OnClose_def libuv_ok_state split: if_splits\<close>)

text \<open>Timers: allocated once, and each active, closing or freed, in one way only.\<close>

definition timers_ok :: "LibuvExecutor \<Rightarrow> bool" where
  "timers_ok s \<longleftrightarrow> mset (map fst (lu_active s)) + mset (lu_closing s) + mset (lu_freed s) = mset [0..<lu_next_timer s]"

lemma cmd_timers [simp]: "timers_ok (libuv_cmd c s) = timers_ok s"
  by (cases c) (simp_all add: timers_ok_def Libuv_defs)

lemma fold_cmd_timers_ok [simp]: "timers_ok (fold libuv_cmd cs s) = timers_ok s"
  by (induction cs arbitrary: s) simp_all

lemma run_items_timers_ok [simp]: "timers_ok (lw_state (run_items libuv_cmd body skip src xs w)) = timers_ok (lw_state w)"
  by (induction xs arbitrary: w) (simp_all add: issue_def)

lemma create_timer_timers: "timers_ok (lw_state w) \<Longrightarrow> timers_ok (lw_state (libuv_create_timer body init_ok r w))"
proof (cases "init_ok (lw_log w)")
  case True
  then show "timers_ok (lw_state w) \<Longrightarrow> timers_ok (lw_state (libuv_create_timer body init_ok r w))"
    by (simp add: libuv_create_timer_def timers_ok_def)
next
  case False
  then show "timers_ok (lw_state w) \<Longrightarrow> timers_ok (lw_state (libuv_create_timer body init_ok r w))"
    by (simp add: libuv_create_timer_def del: run_items.simps)
qed

lemma fold_timers_timers:
  "timers_ok (lw_state w) \<Longrightarrow> timers_ok (lw_state (fold (libuv_create_timer body init_ok) rs w))"
  by (induction rs arbitrary: w) (simp_all add: create_timer_timers)

text \<open>Commands do not touch the timers, so an active timer is still there when it is closed.\<close>

lemma cmd_timer_fields [simp]:
  "lu_active (libuv_cmd c s) = lu_active s" "lu_closing (libuv_cmd c s) = lu_closing s"
  "lu_freed (libuv_cmd c s) = lu_freed s" "lu_next_timer (libuv_cmd c s) = lu_next_timer s"
  by (cases c; simp add: Libuv_defs)+

lemma fold_timer_fields [simp]:
  "lu_active (fold libuv_cmd cs s) = lu_active s" "lu_closing (fold libuv_cmd cs s) = lu_closing s"
  "lu_freed (fold libuv_cmd cs s) = lu_freed s" "lu_next_timer (fold libuv_cmd cs s) = lu_next_timer s"
  by (induction cs arbitrary: s) simp_all

lemma step_timers:
  assumes "timers_ok (lw_state w)" and "libuv_step body init_ok e w = Some w'"
  shows "timers_ok (lw_state w')"
proof (cases e)
  case UvIdle
  have "timers_ok (libuv_swap (lw_state w))" using assms(1) by (simp add: timers_ok_def libuv_swap_def)
  then have "timers_ok (lw_state (LibuvExecutor_ProcessReadyQueue body init_ok w))"
    unfolding LibuvExecutor_ProcessReadyQueue_def Let_def by (intro fold_timers_timers) simp
  with UvIdle assms(2) show ?thesis
    by (auto simp: LibuvExecutor_OnIdle_def Let_def timers_ok_def split: if_splits)
next
  case (UvTimer i h)
  then have i: "(i, h) \<in> set (lu_active (lw_state w))" using assms(2) by (auto split: if_splits)
  obtain M where "mset (lu_active (lw_state w)) = add_mset (i, h) M"
    using i multi_member_split [of "(i, h)" "mset (lu_active (lw_state w))"] by auto
  with UvTimer i assms show ?thesis
    by (auto simp: LibuvExecutor_OnTimer_def Let_def timers_ok_def skip_null_def issue_def split: if_splits)
next
  case (UvClosed i)
  then have "i \<in> set (lu_closing (lw_state w))" using assms(2) by (auto split: if_splits)
  then obtain M where "mset (lu_closing (lw_state w)) = add_mset i M"
    using multi_member_split [of i "mset (lu_closing (lw_state w))"] by auto
  with UvClosed assms show ?thesis
    by (auto simp: LibuvExecutor_OnClose_def timers_ok_def split: if_splits)
qed (use assms in \<open>auto simp: LibuvExecutor_OnAsync_def issue_def timers_ok_def split: if_splits\<close>)

definition libuv_inv :: "LibuvExecutor loop_world \<Rightarrow> bool" where
  "libuv_inv w \<longleftrightarrow> libuv_ok w \<and> awake_ok (lw_state w) \<and> timers_ok (lw_state w)"

lemma exec_libuv_inv: "libuv_inv w \<Longrightarrow> libuv_exec body init_ok es w = Some w' \<Longrightarrow> libuv_inv w'"
proof (induction es arbitrary: w)
  case (Cons e es)
  then obtain w1 where 1: "libuv_step body init_ok e w = Some w1" "libuv_exec body init_ok es w1 = Some w'"
    by (auto split: option.splits)
  have "libuv_inv w1"
    using Cons.prems(1) step_ok [OF _ 1(1)] step_awake [OF _ 1(1)] step_timers [OF _ 1(1)] by (simp add: libuv_inv_def)
  with Cons.IH 1(2) show ?case by blast
qed simp

text \<open>
  Property C11 (the libuv executor).  For every sequence of events: calls from any thread and the
  callbacks libuv makes, with whatever the coroutines and callbacks do and whichever timer
  initialisations fail.  No wake-up is lost: whenever any queue holds work, the async handle is
  signalled or the idle handle is started, so a callback that leads to its processing is
  due.  The scheduled handles are in order those taken from the queue followed by those in it,
  and so are the callbacks.  Every timer object allocated is active, being closed or freed, in
  exactly one of these ways: none is freed twice, none fires after it was closed, none is
  leaked.
\<close>

theorem libuv_no_lost_wakeup:
  assumes "libuv_exec body init_ok es libuv_start = Some w"
  shows "(lu_ready_queue (lw_state w) \<noteq> [] \<or> lu_callback_queue (lw_state w) \<noteq> [] \<or> lu_timer_queue (lw_state w) \<noteq> [] \<longrightarrow>
            lu_async_pending (lw_state w) \<or> lu_uv_idle (lw_state w)) \<and>
         concat (map scheduled_by (lw_cmds w)) = concat (map queued_coro (lw_log w)) @ lu_ready_queue (lw_state w) \<and>
         concat (map posted_by (lw_cmds w)) = concat (map queued_call (lw_log w)) @ lu_callback_queue (lw_state w) \<and>
         mset (map fst (lu_active (lw_state w))) + mset (lu_closing (lw_state w)) + mset (lu_freed (lw_state w)) =
           mset [0..<lu_next_timer (lw_state w)]"
proof -
  have "libuv_inv libuv_start"
    by (simp add: libuv_inv_def libuv_start_def LibuvExecutor_init_def fifo_ok_def awake_ok_def has_work_def timers_ok_def)
  from exec_libuv_inv [OF this assms] show ?thesis
    by (auto simp: libuv_inv_def fifo_ok_def awake_ok_def has_work_def timers_ok_def)
qed

theorem libuv_no_lost_wakeup_witness:
  "\<exists>w. libuv_exec (\<lambda>_ x. if x = Coro 5 then [DoSchedule 6, DoScheduleAfter 10 7] else []) (\<lambda>_. True)
        [UvExternal [DoSchedule 5], UvAsync, UvIdle] libuv_start = Some w \<and>
     lu_ready_queue (lw_state w) = [6] \<and> (lu_async_pending (lw_state w) \<or> lu_uv_idle (lw_state w))"
proof -
  obtain w where w: "libuv_exec (\<lambda>_ x. if x = Coro 5 then [DoSchedule 6, DoScheduleAfter 10 7] else []) (\<lambda>_. True)
        [UvExternal [DoSchedule 5], UvAsync, UvIdle] libuv_start = Some w" "lu_ready_queue (lw_state w) = [6]"
    by (simp add: libuv_start_def LibuvExecutor_init_def issue_def Libuv_defs LibuvExecutor_OnAsync_def
        LibuvExecutor_OnIdle_def LibuvExecutor_ProcessReadyQueue_def skip_null_def Let_def)
  from libuv_no_lost_wakeup [OF w(1)] w show ?thesis by auto
qed

end
