(* ===== verification/Spawn_Run.thy ===== *)
theory Spawn_Run
  imports Spawn Libuv When_Any
begin

text \<open>
  A spawned task on an executor, from \<open>Spawn\<close> to its callback: the composition of \<open>core/spawn.hpp\<close>,
  \<open>core/schedule_on.hpp\<close>, \<open>io/timer.hpp\<close> and \<open>io/libuv_executor.cpp\<close>.  The task may yield and sleep,
  in its own frame or in frames of tasks it awaits, while other coroutines and callbacks do anything
  on the same executor.
\<close>

subsection \<open>The task\<close>

text \<open>
  What the task awaits, each time with the handle of the frame that awaits it, and the command the
  awaitable's \<open>await_suspend\<close> gives to the current executor.
\<close>

datatype task_op = OpYield handle | OpSleep int handle

fun op_handle :: "task_op \<Rightarrow> handle" where
  "op_handle (OpYield g) = g"
| "op_handle (OpSleep ns g) = g"

fun op_cmd :: "task_op \<Rightarrow> exec_cmd" where
  "op_cmd (OpYield g) = DoSchedule g"
| "op_cmd (OpSleep ns g) = DoScheduleAfter (sl_duration (AsyncSleep_init ns)) g"

lemma op_cmd_awaitables:
  "cur \<noteq> 0 \<Longrightarrow> YieldAwaitable_await_suspend app cur g execs = (True, execs(cur := app (op_cmd (OpYield g)) (execs cur)))"
  "AsyncSleep_await_suspend (Some x) (\<lambda>d h. app (DoScheduleAfter d h)) g (AsyncSleep_init ns) =
     (True, Some (app (op_cmd (OpSleep ns g)) x))"
  by (simp_all add: YieldAwaitable_await_suspend_def GetCurrentExecutor_def AsyncSleep_await_suspend_def)

primrec task_ops :: "(task_op, unit, 'v) coro \<Rightarrow> task_op list" where
  "task_ops (CoReturn v) = []"
| "task_ops (CoOp q k) = q # task_ops (k ())"

primrec task_value :: "(task_op, unit, 'v) coro \<Rightarrow> 'v" where
  "task_value (CoReturn v) = v"
| "task_value (CoOp q k) = task_value (k ())"

lemma task_run: "coro_run (\<lambda>_ _. ()) t past = (rev (task_ops t) @ past, task_value t)"
  by (induction t arbitrary: past) simp_all

text \<open>
  The handles that are resumed, in order: the wrapper's frame first, then the frame of each operation.
\<close>

definition resume_order :: "handle \<Rightarrow> (task_op, unit, 'v) coro \<Rightarrow> handle list" where
  "resume_order h task = h # map op_handle (task_ops (WrapForSpawn task))"

definition task_frames :: "handle \<Rightarrow> (task_op, unit, 'v) coro \<Rightarrow> handle set" where
  "task_frames h task = set (resume_order h task)"

subsection \<open>Running it beside other code\<close>

fun resumed_of :: "handle set \<Rightarrow> run_source \<times> work \<times> bool \<Rightarrow> handle list" where
  "resumed_of F (src, Coro g, True) = (if g \<in> F then [g] else [])"
| "resumed_of F _ = []"

definition resumed :: "handle set \<Rightarrow> run_log \<Rightarrow> handle list" where
  "resumed F log = concat (map (resumed_of F) log)"

lemma resumed_simps [simp]: "resumed F [] = []" "resumed F (log @ log') = resumed F log @ resumed F log'"
  "resumed F [e] = resumed_of F e"
  by (simp_all add: resumed_def)

text \<open>
  A resumption of a frame of the task goes on to the task's next operation, whose command is given,
  or to its end, where its callback may give commands.  These and everything else are \<open>other\<close>.
\<close>

definition with_task ::
  "handle \<Rightarrow> (task_op, unit, 'v) coro \<Rightarrow> (run_log \<Rightarrow> work \<Rightarrow> exec_cmd list) \<Rightarrow> run_log \<Rightarrow> work \<Rightarrow> exec_cmd list" where
  "with_task h task other log x =
    (case x of
       Coro g \<Rightarrow>
         if g \<in> task_frames h task
         then (let k = length (resumed (task_frames h task) log); qs = task_ops (WrapForSpawn task)
               in if k < length qs then [op_cmd (qs ! k)] else other log x)
         else other log x
     | Call c \<Rightarrow> other log x)"

fun cmd_handles :: "exec_cmd \<Rightarrow> handle list" where
  "cmd_handles (DoSchedule g) = [g]"
| "cmd_handles (DoScheduleAfter d g) = [g]"
| "cmd_handles _ = []"

lemma cmd_handles_op [simp]: "cmd_handles (op_cmd q) = [op_handle q]"
  by (cases q) simp_all

text \<open>Other code does not use the handles of these frames.\<close>

definition foreign :: "handle set \<Rightarrow> exec_cmd list \<Rightarrow> bool" where
  "foreign F cs \<longleftrightarrow> (\<forall>c \<in> set cs. set (cmd_handles c) \<inter> F = {})"

fun foreign_event :: "handle set \<Rightarrow> uv_event \<Rightarrow> bool" where
  "foreign_event F (UvExternal cs) = foreign F cs"
| "foreign_event F _ = True"

subsection \<open>Where the task is\<close>

definition waiting :: "handle set \<Rightarrow> LibuvExecutor \<Rightarrow> handle multiset" where
  "waiting F s = filter_mset (\<lambda>g. g \<in> F)
    (mset (lu_ready_queue s) + mset (map snd (lu_timer_queue s)) + mset (map snd (lu_active s)))"

abbreviation of_set :: "handle set \<Rightarrow> handle list \<Rightarrow> handle multiset" where
  "of_set F hs \<equiv> filter_mset (\<lambda>g. g \<in> F) (mset hs)"

text \<open>
  The frames resumed so far are the first ones of the order, and the next one, if there is one, is
  waiting in exactly one place; \<open>extra\<close> are those taken out of a queue and not yet run.
\<close>

definition run_inv :: "handle set \<Rightarrow> handle list \<Rightarrow> handle multiset \<Rightarrow> LibuvExecutor loop_world \<Rightarrow> bool" where
  "run_inv F hs extra w \<longleftrightarrow>
    (\<exists>k \<le> length hs. resumed F (lw_log w) = take k hs \<and>
       waiting F (lw_state w) + extra = (if k < length hs then {#hs ! k#} else {#}))"

definition goes_on :: "handle set \<Rightarrow> handle list \<Rightarrow> (run_log \<Rightarrow> work \<Rightarrow> exec_cmd list) \<Rightarrow> bool" where
  "goes_on F hs body \<longleftrightarrow> 0 \<notin> F \<and>
    (\<forall>log g k. g \<in> F \<longrightarrow> resumed F log = take k hs \<longrightarrow> k < length hs \<longrightarrow>
       filter (\<lambda>g. g \<in> F) (concat (map cmd_handles (body log (Coro g)))) = (if Suc k < length hs then [hs ! Suc k] else [])) \<and>
    (\<forall>log x. (\<forall>g \<in> F. x \<noteq> Coro g) \<longrightarrow> foreign F (body log x)) \<and> set hs \<subseteq> F"

lemma waiting_cmd: "waiting F (libuv_cmd c s) = waiting F s + of_set F (cmd_handles c)"
  by (cases c) (simp_all add: waiting_def Libuv_defs)

lemma waiting_fold: "waiting F (fold libuv_cmd cs s) = waiting F s + of_set F (concat (map cmd_handles cs))"
  by (induction cs arbitrary: s) (simp_all add: waiting_cmd)

lemma foreign_none: "foreign F cs \<Longrightarrow> of_set F (concat (map cmd_handles cs)) = {#}"
  by (induction cs) (auto simp: foreign_def)

lemma run_inv_issue: "foreign F cs \<Longrightarrow> run_inv F hs extra w \<Longrightarrow> run_inv F hs extra (issue libuv_cmd cs w)"
  by (simp add: run_inv_def issue_def waiting_fold foreign_none)

lemma run_inv_move:
  "run_inv F hs e w \<Longrightarrow> resumed F (lw_log w') = resumed F (lw_log w) \<Longrightarrow>
   waiting F (lw_state w') + e' = waiting F (lw_state w) + e \<Longrightarrow> run_inv F hs e' w'"
  by (simp add: run_inv_def)

lemma run_own:
  assumes body: "goes_on F hs body" and g: "g \<in> F" and inv: "run_inv F hs (extra + {#g#}) w"
  shows "run_inv F hs extra (issue libuv_cmd (body (lw_log w) (Coro g)) (w\<lparr>lw_log := lw_log w @ [(src, Coro g, True)]\<rparr>))"
proof -
  obtain k where k: "k \<le> length hs" "resumed F (lw_log w) = take k hs"
    and m: "waiting F (lw_state w) + (extra + {#g#}) = (if k < length hs then {#hs ! k#} else {#})"
    using inv by (auto simp: run_inv_def)
  have lt: "k < length hs" using m by (cases "k < length hs") auto
  with m have e: "waiting F (lw_state w) = {#}" "extra = {#}" "g = hs ! k"
    by (auto simp: add_mset_eq_single)
  have "filter (\<lambda>g. g \<in> F) (concat (map cmd_handles (body (lw_log w) (Coro g)))) = (if Suc k < length hs then [hs ! Suc k] else [])"
    using body g k(2) lt unfolding goes_on_def by blast
  then have "of_set F (concat (map cmd_handles (body (lw_log w) (Coro g)))) = (if Suc k < length hs then {#hs ! Suc k#} else {#})"
    by (simp flip: mset_filter)
  moreover have "Suc k < length hs \<Longrightarrow> hs ! Suc k \<in> F" using body by (auto simp: goes_on_def)
  moreover have "take k hs @ [hs ! k] = take (Suc k) hs" using lt by (simp add: take_Suc_conv_app_nth)
  ultimately show ?thesis
    unfolding run_inv_def using g k lt e
    by (intro exI [of _ "Suc k"]) (simp add: issue_def waiting_fold)
qed

lemma run_items_task:
  assumes body: "goes_on F hs body"
  shows "run_inv F hs (extra + of_set F (concat (map (\<lambda>x. case x of Coro g \<Rightarrow> [g] | Call c \<Rightarrow> []) xs))) w \<Longrightarrow>
    run_inv F hs extra (run_items libuv_cmd body skip_null src xs w)"
proof (induction xs arbitrary: w)
  case (Cons x xs)
  let ?e = "extra + of_set F (concat (map (\<lambda>x. case x of Coro g \<Rightarrow> [g] | Call c \<Rightarrow> []) xs))"
  have z: "0 \<notin> F" using body by (simp add: goes_on_def)
  consider (own) g where "x = Coro g" "g \<in> F" | (null) "x = Coro 0" | (other) "\<forall>g \<in> F. x \<noteq> Coro g" "x \<noteq> Coro 0"
    using z by blast
  then show ?case
  proof cases
    case own
    then have "\<not> skip_null (lw_log w) x" using z by (auto simp: skip_null_def)
    with own Cons.IH [OF run_own [OF body own(2), of ?e w src]] Cons.prems show ?thesis by (simp add: ac_simps)
  next
    case null
    then have "run_inv F hs ?e (w\<lparr>lw_log := lw_log w @ [(src, x, False)]\<rparr>)" using Cons.prems z by (simp add: run_inv_def)
    from Cons.IH [OF this] null show ?thesis by (simp add: skip_null_def)
  next
    case other
    have f: "foreign F (body (lw_log w) x)" using body other(1) unfolding goes_on_def by blast
    have "resumed_of F (src, x, True) = []" using other by (cases x) auto
    moreover have "of_set F (case x of Coro g \<Rightarrow> [g] | Call c \<Rightarrow> []) = {#}" using other(1) by (cases x) auto
    ultimately have "run_inv F hs ?e (w\<lparr>lw_log := lw_log w @ [(src, x, True)]\<rparr>)"
      by (intro run_inv_move [OF Cons.prems]) simp_all
    from Cons.IH [OF run_inv_issue [OF f this]] other(2) show ?thesis by (simp add: skip_null_def)
  qed
qed simp

lemma create_timer_task:
  assumes body: "goes_on F hs body" and inv: "run_inv F hs (extra + of_set F [snd r]) w"
  shows "run_inv F hs extra (libuv_create_timer body init_ok r w)"
proof (cases "init_ok (lw_log w)")
  case True
  show ?thesis by (rule run_inv_move [OF inv]) (simp_all add: libuv_create_timer_def waiting_def True)
next
  case False
  with run_items_task [OF body, of extra "[Coro (snd r)]" w FromTimer] inv show ?thesis
    by (simp add: libuv_create_timer_def del: run_items.simps)
qed

lemma fold_timers_task:
  assumes body: "goes_on F hs body"
  shows "run_inv F hs (extra + of_set F (map snd rs)) w \<Longrightarrow> run_inv F hs extra (fold (libuv_create_timer body init_ok) rs w)"
proof (induction rs arbitrary: w)
  case (Cons r rs)
  have "run_inv F hs (extra + of_set F (map snd rs)) (libuv_create_timer body init_ok r w)"
    by (rule create_timer_task [OF body], rule run_inv_move [OF Cons.prems]) simp_all
  from Cons.IH [OF this] show ?case by simp
qed simp

lemma ProcessReadyQueue_task:
  assumes body: "goes_on F hs body" and inv: "run_inv F hs {#} w"
  shows "run_inv F hs {#} (LibuvExecutor_ProcessReadyQueue body init_ok w)"
proof -
  let ?s = "lw_state w" and ?w = "w\<lparr>lw_state := libuv_swap (lw_state w)\<rparr>"
  have c: "concat (map (\<lambda>x. case x of Coro g \<Rightarrow> [g] | Call c \<Rightarrow> []) (map Coro hs)) = hs"
    "concat (map (\<lambda>x. case x of Coro g \<Rightarrow> [g] | Call c \<Rightarrow> []) (map Call cs)) = []" for hs cs
    by (induction hs; induction cs; simp)+
  let ?t = "of_set F (map snd (lu_timer_queue ?s))"
  have "run_inv F hs (?t + of_set F (lu_ready_queue ?s)) ?w"
    using inv by (simp add: run_inv_def waiting_def libuv_swap_def ac_simps)
  then have "run_inv F hs ?t (run_items libuv_cmd body skip_null FromQueue (map Coro (lu_ready_queue ?s)) ?w)" (is "run_inv F hs ?t ?w1")
    using run_items_task [OF body, of ?t "map Coro (lu_ready_queue ?s)" ?w FromQueue] by (simp only: c)
  then have "run_inv F hs ?t (run_items libuv_cmd body skip_null FromQueue (map Call (lu_callback_queue ?s)) ?w1)"
    using run_items_task [OF body, of ?t "map Call (lu_callback_queue ?s)" ?w1 FromQueue] by (simp only: c mset.simps filter_empty_mset add_0_right)
  from fold_timers_task [OF body, of "{#}" "lu_timer_queue ?s"] this show ?thesis
    by (simp add: LibuvExecutor_ProcessReadyQueue_def Let_def)
qed

lemma run_inv_state: "waiting F s = waiting F (lw_state w) \<Longrightarrow> run_inv F hs e (w\<lparr>lw_state := s\<rparr>) = run_inv F hs e w"
  by (simp add: run_inv_def)

lemma mset_snd_remove1: "(i, h) \<in> set xs \<Longrightarrow> mset (map snd xs) = add_mset h (mset (map snd (remove1 (i, h) xs)))"
  by (induction xs) auto

lemma step_task:
  assumes body: "goes_on F hs body" and inv: "run_inv F hs {#} w"
    and step: "libuv_step body init_ok e w = Some w'" and f: "foreign_event F e"
  shows "run_inv F hs {#} w'"
proof (cases e)
  case (UvExternal cs)
  with step f inv run_inv_issue show ?thesis by auto
next
  case UvIdle
  with step ProcessReadyQueue_task [OF body inv, of init_ok] show ?thesis
    by (auto simp: LibuvExecutor_OnIdle_def Let_def run_inv_state waiting_def split: if_splits)
next
  case (UvTimer i h)
  then have i: "(i, h) \<in> set (lu_active (lw_state w))" using step by (auto split: if_splits)
  let ?w = "w\<lparr>lw_state := (lw_state w)\<lparr>lu_active := remove1 (i, h) (lu_active (lw_state w))\<rparr>\<rparr>"
  have "mset (map snd (lu_active (lw_state w))) = add_mset h (mset (map snd (remove1 (i, h) (lu_active (lw_state w)))))"
    by (rule mset_snd_remove1 [OF i])
  then have "run_inv F hs ({#} + of_set F [h]) ?w"
    by (intro run_inv_move [OF inv]) (simp_all add: waiting_def)
  with run_items_task [OF body, of "{#}" "[Coro h]" ?w FromTimer] UvTimer step show ?thesis
    by (auto simp: LibuvExecutor_OnTimer_def Let_def run_inv_state waiting_def simp del: run_items.simps split: if_splits)
qed (use step inv in \<open>auto simp: LibuvExecutor_OnAsync_def LibuvExecutor_OnClose_def run_inv_state waiting_def split: if_splits\<close>)

lemma exec_task:
  "goes_on F hs body \<Longrightarrow> run_inv F hs {#} w \<Longrightarrow> libuv_exec body init_ok es w = Some w' \<Longrightarrow>
   \<forall>e \<in> set es. foreign_event F e \<Longrightarrow> run_inv F hs {#} w'"
proof (induction es arbitrary: w)
  case (Cons e es)
  then obtain w1 where 1: "libuv_step body init_ok e w = Some w1" "libuv_exec body init_ok es w1 = Some w'"
    by (auto split: option.splits)
  from step_task [OF Cons.prems(1,2) 1(1)] Cons.IH [OF Cons.prems(1) _ 1(2)] Cons.prems(4) show ?case by simp
qed simp

subsection \<open>It goes on until it ends\<close>

fun loop_event :: "uv_event \<Rightarrow> bool" where
  "loop_event (UvExternal _) = False"
| "loop_event _ = True"

lemma loop_event_foreign: "loop_event e \<Longrightarrow> foreign_event F e"
  by (cases e) simp_all

lemma run_items_resumes:
  "\<exists>l. resumed F (lw_log (run_items app body skip_null src xs w)) = resumed F (lw_log w) @ l \<and>
     (\<forall>g \<in> F. g \<noteq> 0 \<longrightarrow> Coro g \<in> set xs \<longrightarrow> l \<noteq> [])"
proof (induction xs arbitrary: w)
  case (Cons x xs)
  let ?w = "if skip_null (lw_log w) x then w\<lparr>lw_log := lw_log w @ [(src, x, False)]\<rparr>
            else issue app (body (lw_log w) x) (w\<lparr>lw_log := lw_log w @ [(src, x, True)]\<rparr>)"
  have r: "run_items app body skip_null src (x # xs) w = run_items app body skip_null src xs ?w" by simp
  from Cons.IH [of ?w] obtain l where l: "resumed F (lw_log (run_items app body skip_null src xs ?w)) = resumed F (lw_log ?w) @ l"
    "\<forall>g \<in> F. g \<noteq> 0 \<longrightarrow> Coro g \<in> set xs \<longrightarrow> l \<noteq> []" by blast
  obtain l1 where l1: "resumed F (lw_log ?w) = resumed F (lw_log w) @ l1" "\<forall>g \<in> F. g \<noteq> 0 \<longrightarrow> x = Coro g \<longrightarrow> l1 \<noteq> []"
  proof (cases "x = Coro 0")
    case True
    then show ?thesis using that [of "[]"] by (simp add: skip_null_def)
  next
    case False
    then show ?thesis using that [of "resumed_of F (src, x, True)"] by (simp add: issue_def skip_null_def)
  qed
  show ?case unfolding r by (rule exI [of _ "l1 @ l"]) (use l l1 in auto)
qed simp

lemma run_items_active [simp]: "lu_active (lw_state (run_items libuv_cmd body skip src xs w)) = lu_active (lw_state w)"
  by (induction xs arbitrary: w) (simp_all add: issue_def)

lemma fold_timers_resumes:
  "\<exists>l. resumed F (lw_log (fold (libuv_create_timer body init_ok) rs w)) = resumed F (lw_log w) @ l \<and>
     set (lu_active (lw_state w)) \<subseteq> set (lu_active (lw_state (fold (libuv_create_timer body init_ok) rs w))) \<and>
     (\<forall>r \<in> set rs. snd r \<in> F \<longrightarrow> snd r \<noteq> 0 \<longrightarrow>
        l \<noteq> [] \<or> snd r \<in> snd ` set (lu_active (lw_state (fold (libuv_create_timer body init_ok) rs w))))"
proof (induction rs arbitrary: w)
  case (Cons r rs)
  let ?w = "libuv_create_timer body init_ok r w"
  obtain l1 where l1: "resumed F (lw_log ?w) = resumed F (lw_log w) @ l1"
    "set (lu_active (lw_state w)) \<subseteq> set (lu_active (lw_state ?w))"
    "snd r \<in> F \<longrightarrow> snd r \<noteq> 0 \<longrightarrow> l1 \<noteq> [] \<or> snd r \<in> snd ` set (lu_active (lw_state ?w))"
  proof (cases "init_ok (lw_log w)")
    case True
    then show ?thesis using that [of "[]"] by (auto simp: libuv_create_timer_def)
  next
    case False
    from run_items_resumes [of F libuv_cmd body FromTimer "[Coro (snd r)]" w] obtain l where
      "resumed F (lw_log ?w) = resumed F (lw_log w) @ l" "\<forall>g \<in> F. g \<noteq> 0 \<longrightarrow> g = snd r \<longrightarrow> l \<noteq> []"
      using False by (auto simp: libuv_create_timer_def simp del: run_items.simps)
    then show ?thesis using that [of l] False by (auto simp: libuv_create_timer_def simp del: run_items.simps)
  qed
  from Cons.IH [of ?w] obtain l where l: "resumed F (lw_log (fold (libuv_create_timer body init_ok) rs ?w)) = resumed F (lw_log ?w) @ l"
     "set (lu_active (lw_state ?w)) \<subseteq> set (lu_active (lw_state (fold (libuv_create_timer body init_ok) rs ?w)))"
     "\<forall>r \<in> set rs. snd r \<in> F \<longrightarrow> snd r \<noteq> 0 \<longrightarrow>
        l \<noteq> [] \<or> snd r \<in> snd ` set (lu_active (lw_state (fold (libuv_create_timer body init_ok) rs ?w)))" by blast
  show ?case
    by (rule exI [of _ "l1 @ l"]) (use l l1 in auto)
qed simp

text \<open>
  A frame of the task in a queue: the idle callback resumes it, or it is now an active timer.
\<close>

lemma idle_resumes:
  assumes g: "g \<in> F" "g \<noteq> 0" "g \<in> set (lu_ready_queue (lw_state w)) \<union> snd ` set (lu_timer_queue (lw_state w))"
  shows "\<exists>l. resumed F (lw_log (LibuvExecutor_OnIdle body init_ok w)) = resumed F (lw_log w) @ l \<and>
    (l \<noteq> [] \<or> g \<in> snd ` set (lu_active (lw_state (LibuvExecutor_OnIdle body init_ok w))))"
proof -
  let ?s = "lw_state w"
  let ?w1 = "run_items libuv_cmd body skip_null FromQueue (map Coro (lu_ready_queue ?s)) (w\<lparr>lw_state := libuv_swap ?s\<rparr>)"
  let ?w2 = "run_items libuv_cmd body skip_null FromQueue (map Call (lu_callback_queue ?s)) ?w1"
  let ?w3 = "fold (libuv_create_timer body init_ok) (lu_timer_queue ?s) ?w2"
  obtain l1 where l1: "resumed F (lw_log ?w1) = resumed F (lw_log w) @ l1" "\<forall>g \<in> F. g \<noteq> 0 \<longrightarrow> g \<in> set (lu_ready_queue ?s) \<longrightarrow> l1 \<noteq> []"
    using run_items_resumes [of F libuv_cmd body FromQueue "map Coro (lu_ready_queue ?s)" "w\<lparr>lw_state := libuv_swap ?s\<rparr>"] by auto
  obtain l2 where l2: "resumed F (lw_log ?w2) = resumed F (lw_log ?w1) @ l2"
    using run_items_resumes [of F libuv_cmd body FromQueue "map Call (lu_callback_queue ?s)" ?w1] by auto
  obtain l3 where l3: "resumed F (lw_log ?w3) = resumed F (lw_log ?w2) @ l3"
    "\<forall>r \<in> set (lu_timer_queue ?s). snd r \<in> F \<longrightarrow> snd r \<noteq> 0 \<longrightarrow> l3 \<noteq> [] \<or> snd r \<in> snd ` set (lu_active (lw_state ?w3))"
    using fold_timers_resumes [of F body init_ok "lu_timer_queue ?s" ?w2] by blast
  have p: "LibuvExecutor_ProcessReadyQueue body init_ok w = ?w3" by (simp add: LibuvExecutor_ProcessReadyQueue_def Let_def)
  have o: "lw_log (LibuvExecutor_OnIdle body init_ok w) = lw_log ?w3"
    "lu_active (lw_state (LibuvExecutor_OnIdle body init_ok w)) = lu_active (lw_state ?w3)"
    unfolding LibuvExecutor_OnIdle_def p by (simp_all add: Let_def)
  have "l1 @ l2 @ l3 \<noteq> [] \<or> g \<in> snd ` set (lu_active (lw_state ?w3))" using g l1(2) l3(2) by auto
  then show ?thesis unfolding o using l1(1) l2 l3(1) by (intro exI [of _ "l1 @ l2 @ l3"]) simp
qed

lemma timer_resumes:
  assumes "(i, g) \<in> set (lu_active (lw_state w))" and "g \<in> F" and "g \<noteq> 0"
  shows "\<exists>w' l. libuv_step body init_ok (UvTimer i g) w = Some w' \<and> resumed F (lw_log w') = resumed F (lw_log w) @ l \<and> l \<noteq> []"
  using assms run_items_resumes [of F libuv_cmd body FromTimer "[Coro g]"
      "w\<lparr>lw_state := (lw_state w)\<lparr>lu_active := remove1 (i, g) (lu_active (lw_state w))\<rparr>\<rparr>"]
  by (simp add: LibuvExecutor_OnTimer_def Let_def del: run_items.simps)

lemma libuv_exec_append:
  "libuv_exec body init_ok (es @ es') w =
    (case libuv_exec body init_ok es w of None \<Rightarrow> None | Some w' \<Rightarrow> libuv_exec body init_ok es' w')"
  by (induction es arbitrary: w) (auto split: option.splits)

text \<open>With work in a queue, at most two callbacks lead to its processing.\<close>

lemma idle_reached:
  assumes "awake_ok (lw_state w)" and "has_work (lw_state w)"
  shows "\<exists>es w'. (\<forall>e \<in> set es. loop_event e) \<and> libuv_exec body init_ok es w = Some w' \<and> lw_log w' = lw_log w \<and>
    lu_uv_idle (lw_state w') \<and> lu_ready_queue (lw_state w') = lu_ready_queue (lw_state w) \<and>
    lu_timer_queue (lw_state w') = lu_timer_queue (lw_state w) \<and>
    lu_callback_queue (lw_state w') = lu_callback_queue (lw_state w)"
proof (cases "lu_uv_idle (lw_state w)")
  case True
  then show ?thesis by (intro exI [of _ "[]"] exI [of _ w]) simp
next
  case False
  with assms have "lu_async_pending (lw_state w)" "\<not> lu_idle_active (lw_state w)" by (auto simp: awake_ok_def)
  then show ?thesis
    by (intro exI [of _ "[UvAsync]"] exI [of _ "w\<lparr>lw_state := LibuvExecutor_OnAsync ((lw_state w)\<lparr>lu_async_pending := False\<rparr>)\<rparr>"])
      (simp add: LibuvExecutor_OnAsync_def)
qed

lemma task_advances:
  assumes body: "goes_on F hs body" and inv: "run_inv F hs {#} w" and awake: "awake_ok (lw_state w)"
    and more: "length (resumed F (lw_log w)) < length hs"
  shows "\<exists>es w'. (\<forall>e \<in> set es. loop_event e) \<and> libuv_exec body init_ok es w = Some w' \<and>
    length (resumed F (lw_log w)) < length (resumed F (lw_log w'))"
proof -
  obtain k where k: "k < length hs" and m: "waiting F (lw_state w) = {#hs ! k#}"
    using inv more by (auto simp: run_inv_def split: if_splits)
  let ?g = "hs ! k"
  have F: "set hs \<subseteq> F" "0 \<notin> F" using body by (simp_all add: goes_on_def)
  with nth_mem [OF k] have g: "?g \<in> F" "?g \<noteq> 0" by auto
  have "?g \<in># waiting F (lw_state w)" using m by simp
  then consider (timer) i where "(i, ?g) \<in> set (lu_active (lw_state w))"
    | (queue) "?g \<in> set (lu_ready_queue (lw_state w)) \<union> snd ` set (lu_timer_queue (lw_state w))"
    by (auto simp: waiting_def)
  then show ?thesis
  proof cases
    case timer
    from timer_resumes [OF timer g, of body init_ok] obtain w' l where
      "libuv_step body init_ok (UvTimer i ?g) w = Some w'" "resumed F (lw_log w') = resumed F (lw_log w) @ l" "l \<noteq> []" by blast
    then show ?thesis by (intro exI [of _ "[UvTimer i ?g]"] exI [of _ w']) (simp del: libuv_step.simps)
  next
    case queue
    then have "has_work (lw_state w)" by (auto simp: has_work_def)
    from idle_reached [OF awake this, of body init_ok] obtain es w1 where w1: "\<forall>e \<in> set es. loop_event e"
      "libuv_exec body init_ok es w = Some w1" "lw_log w1 = lw_log w" "lu_uv_idle (lw_state w1)"
      "?g \<in> set (lu_ready_queue (lw_state w1)) \<union> snd ` set (lu_timer_queue (lw_state w1))"
      using queue by metis
    let ?w2 = "LibuvExecutor_OnIdle body init_ok w1"
    have e2: "libuv_exec body init_ok (es @ [UvIdle]) w = Some ?w2" using w1 by (simp add: libuv_exec_append)
    from idle_resumes [OF g w1(5), of body init_ok] obtain l where l: "resumed F (lw_log ?w2) = resumed F (lw_log w) @ l"
      "l \<noteq> [] \<or> ?g \<in> snd ` set (lu_active (lw_state ?w2))" by (auto simp: w1(3))
    show ?thesis
    proof (cases "l = []")
      case False
      with l e2 w1(1) show ?thesis by (intro exI [of _ "es @ [UvIdle]"] exI [of _ ?w2]) auto
    next
      case True
      with l(2) obtain i where "(i, ?g) \<in> set (lu_active (lw_state ?w2))" by auto
      from timer_resumes [OF this g, of body init_ok] obtain w3 l3 where
        "libuv_step body init_ok (UvTimer i ?g) ?w2 = Some w3" "resumed F (lw_log w3) = resumed F (lw_log ?w2) @ l3" "l3 \<noteq> []" by blast
      with e2 w1(1) l(1) have "libuv_exec body init_ok ((es @ [UvIdle]) @ [UvTimer i ?g]) w = Some w3"
        "length (resumed F (lw_log w)) < length (resumed F (lw_log w3))"
        unfolding libuv_exec_append [of body init_ok "es @ [UvIdle]"] by (simp_all del: libuv_step.simps)
      with w1(1) show ?thesis by (intro exI [of _ "(es @ [UvIdle]) @ [UvTimer i ?g]"] exI [of _ w3]) auto
    qed
  qed
qed

lemma exec_awake: "awake_ok (lw_state w) \<Longrightarrow> libuv_exec body init_ok es w = Some w' \<Longrightarrow> awake_ok (lw_state w')"
  by (induction es arbitrary: w) (auto split: option.splits dest: step_awake)

lemma run_inv_resumed: "run_inv F hs {#} w \<Longrightarrow> length (resumed F (lw_log w)) \<le> length hs"
  by (auto simp: run_inv_def)

lemma task_finishes:
  "goes_on F hs body \<Longrightarrow> run_inv F hs {#} w \<Longrightarrow> awake_ok (lw_state w) \<Longrightarrow>
   \<exists>es w'. (\<forall>e \<in> set es. loop_event e) \<and> libuv_exec body init_ok es w = Some w' \<and> length (resumed F (lw_log w')) = length hs"
proof (induction w rule: measure_induct_rule [of "\<lambda>w. length hs - length (resumed F (lw_log w))"])
  case (less w)
  show ?case
  proof (cases "length (resumed F (lw_log w)) < length hs")
    case True
    from task_advances [OF less.prems True, of init_ok] obtain es w1 where w1: "\<forall>e \<in> set es. loop_event e"
      "libuv_exec body init_ok es w = Some w1" "length (resumed F (lw_log w)) < length (resumed F (lw_log w1))" by blast
    have i1: "run_inv F hs {#} w1"
      by (rule exec_task [OF less.prems(1,2) w1(2)]) (use w1(1) loop_event_foreign in blast)
    have "length hs - length (resumed F (lw_log w1)) < length hs - length (resumed F (lw_log w))" using True w1(3) by simp
    from less.IH [OF this less.prems(1) i1 exec_awake [OF less.prems(3) w1(2)]] obtain es' w' where
      "\<forall>e \<in> set es'. loop_event e" "libuv_exec body init_ok es' w1 = Some w'" "length (resumed F (lw_log w')) = length hs" by blast
    with w1 show ?thesis by (intro exI [of _ "es @ es'"] exI [of _ w']) (auto simp: libuv_exec_append)
  next
    case False
    then show ?thesis using run_inv_resumed [OF less.prems(2)] by (intro exI [of _ "[]"] exI [of _ w]) simp
  qed
qed

lemma with_task_goes_on:
  assumes "0 \<notin> task_frames h task" and "\<And>log x. foreign (task_frames h task) (other log x)"
  shows "goes_on (task_frames h task) (resume_order h task) (with_task h task other)"
  unfolding goes_on_def
proof (intro conjI allI impI)
  fix log g k
  assume "g \<in> task_frames h task" "resumed (task_frames h task) log = take k (resume_order h task)" "k < length (resume_order h task)"
  then show "filter (\<lambda>g. g \<in> task_frames h task) (concat (map cmd_handles (with_task h task other log (Coro g)))) =
      (if Suc k < length (resume_order h task) then [resume_order h task ! Suc k] else [])"
    using nth_mem [of "Suc k" "resume_order h task"] foreign_none [OF assms(2) [of log "Coro g"]]
    by (auto simp: with_task_def Let_def resume_order_def task_frames_def filter_empty_conv simp flip: mset_filter)
next
  fix log x
  assume "\<forall>g \<in> task_frames h task. x \<noteq> Coro g"
  then have "with_task h task other log x = other log x" by (cases x) (auto simp: with_task_def)
  with assms(2) show "foreign (task_frames h task) (with_task h task other log x)" by simp
qed (use assms(1) in \<open>simp_all add: task_frames_def\<close>)

text \<open>Before it is spawned no frame of the task is anywhere, and \<open>Spawn\<close> puts the wrapper into the queue.\<close>

lemma goes_on_none: "goes_on F hs body \<Longrightarrow> goes_on F [] body"
  by (simp add: goes_on_def)

lemma spawn_inv:
  assumes "run_inv F [] {#} w" and "h \<in> F"
  shows "run_inv F (h # hs) {#} (issue libuv_cmd [DoSchedule h] w)"
  using assms by (auto simp: run_inv_def issue_def waiting_cmd intro: exI [of _ 0] simp del: libuv_cmd.simps)

lemma waiting_due:
  assumes "awake_ok s" and "g \<in># waiting F s"
  shows "lu_async_pending s \<or> lu_uv_idle s \<or> g \<in> snd ` set (lu_active s)"
  using assms by (auto simp: waiting_def awake_ok_def has_work_def)

subsection \<open>The handle of the task\<close>

text \<open>
  The executor together with the shared state: the program registers callbacks on the handle at any time, and the
  resumption in which the task ends goes on to \<open>return_value\<close> and the final suspension of the
  wrapper.  \<open>sx_calls\<close> and \<open>sx_errors\<close> are the callbacks called with their arguments.
\<close>

record ('v, 'f, 'g) spawn_world =
  sx_loop :: "LibuvExecutor loop_world"
  sx_promises :: "handle \<Rightarrow> state_ptr"
  sx_states :: "state_ptr \<Rightarrow> ('v, 'f, 'g) SpawnState"
  sx_calls :: "('f \<times> 'v slot) list"
  sx_errors :: "('g \<times> error_code) list"
  sx_destroyed :: "handle list"

definition task_ended :: "handle \<Rightarrow> (task_op, unit, 'v) coro \<Rightarrow> LibuvExecutor loop_world \<Rightarrow> bool" where
  "task_ended h task w \<longleftrightarrow> length (resumed (task_frames h task) (lw_log w)) = length (resume_order h task)"

definition spawn_finish :: "handle \<Rightarrow> (task_op, unit, 'v) coro \<Rightarrow> ('v, 'f, 'g) spawn_world \<Rightarrow> ('v, 'f, 'g) spawn_world" where
  "spawn_finish h task sw =
    (case SpawnedTask_finish h (task_value (WrapForSpawn task)) (sx_promises sw) (sx_states sw) of
       (sts, calls, destroyed) \<Rightarrow>
         sw\<lparr>sx_states := sts, sx_calls := sx_calls sw @ calls, sx_destroyed := sx_destroyed sw @ destroyed\<rparr>)"

datatype ('f, 'g) spawn_event = SpLoop uv_event | SpOnComplete 'f | SpOnError 'g

fun spawn_world_step ::
  "handle \<Rightarrow> (task_op, unit, 'v) coro \<Rightarrow> (run_log \<Rightarrow> work \<Rightarrow> exec_cmd list) \<Rightarrow> (run_log \<Rightarrow> bool) \<Rightarrow> SpawnHandle \<Rightarrow>
   ('f, 'g) spawn_event \<Rightarrow> ('v, 'f, 'g) spawn_world \<Rightarrow> ('v, 'f, 'g) spawn_world option" where
  "spawn_world_step h task other init_ok sh (SpLoop e) sw =
     (case libuv_step (with_task h task other) init_ok e (sx_loop sw) of
        None \<Rightarrow> None
      | Some w \<Rightarrow>
          Some (if task_ended h task w \<and> \<not> task_ended h task (sx_loop sw) then spawn_finish h task (sw\<lparr>sx_loop := w\<rparr>)
                else sw\<lparr>sx_loop := w\<rparr>))"
| "spawn_world_step h task other init_ok sh (SpOnComplete f) sw =
     (case SpawnHandle_OnComplete_at f sh (sx_states sw) of
        (sts, calls) \<Rightarrow> Some (sw\<lparr>sx_states := sts, sx_calls := sx_calls sw @ calls\<rparr>))"
| "spawn_world_step h task other init_ok sh (SpOnError g) sw =
     (case SpawnHandle_OnError_at g sh (sx_states sw) of
        (sts, calls) \<Rightarrow> Some (sw\<lparr>sx_states := sts, sx_errors := sx_errors sw @ calls\<rparr>))"

fun spawn_world_exec ::
  "handle \<Rightarrow> (task_op, unit, 'v) coro \<Rightarrow> (run_log \<Rightarrow> work \<Rightarrow> exec_cmd list) \<Rightarrow> (run_log \<Rightarrow> bool) \<Rightarrow> SpawnHandle \<Rightarrow>
   ('f, 'g) spawn_event list \<Rightarrow> ('v, 'f, 'g) spawn_world \<Rightarrow> ('v, 'f, 'g) spawn_world option" where
  "spawn_world_exec h task other init_ok sh [] sw = Some sw"
| "spawn_world_exec h task other init_ok sh (e # es) sw =
     (case spawn_world_step h task other init_ok sh e sw of
        None \<Rightarrow> None
      | Some sw' \<Rightarrow> spawn_world_exec h task other init_ok sh es sw')"

text \<open>\<open>Spawn\<close> on an executor that has run before; \<open>p\<close> is the address of the new state.\<close>

definition spawn_world_init ::
  "state_ptr \<Rightarrow> handle \<Rightarrow> LibuvExecutor loop_world \<Rightarrow> (handle \<Rightarrow> state_ptr) \<Rightarrow> (state_ptr \<Rightarrow> ('v, 'f, 'g) SpawnState) \<Rightarrow>
   SpawnHandle \<times> ('v, 'f, 'g) spawn_world" where
  "spawn_world_init p h w promises states =
    (case Spawn_on (\<lambda>g. libuv_cmd (DoSchedule g)) p h (lw_state w) promises states of
       (sh, x, promises, states) \<Rightarrow>
         (sh, \<lparr>sx_loop = w\<lparr>lw_state := x, lw_cmds := lw_cmds w @ [DoSchedule h]\<rparr>, sx_promises = promises, sx_states = states,
               sx_calls = [], sx_errors = [], sx_destroyed = []\<rparr>))"

fun loop_events :: "('f, 'g) spawn_event list \<Rightarrow> uv_event list" where
  "loop_events [] = []"
| "loop_events (SpLoop e # es) = e # loop_events es"
| "loop_events (_ # es) = loop_events es"

fun registered :: "('f, 'g) spawn_event list \<Rightarrow> 'f list" where
  "registered [] = []"
| "registered (SpOnComplete f # es) = f # registered es"
| "registered (_ # es) = registered es"

text \<open>
  The calls when \<open>xs\<close> were registered before the task ended with \<open>v\<close> and \<open>ys\<close> after it.
\<close>

definition spawn_calls :: "'v \<Rightarrow> 'f list \<Rightarrow> 'f list \<Rightarrow> ('f \<times> 'v slot) list" where
  "spawn_calls v xs ys =
    (if xs = [] then map (\<lambda>f. (f, Val v)) ys else (last xs, Val v) # map (\<lambda>f. (f, MovedFrom)) ys)"

lemma loop_events_map [simp]: "loop_events (map SpLoop es) = es" "registered (map SpLoop es) = []"
  by (induction es) simp_all

lemma spawn_finish_loop [simp]: "sx_loop (spawn_finish h task sw) = sx_loop sw"
  by (simp add: spawn_finish_def split: prod.splits)

lemma spawn_exec_loop:
  "spawn_world_exec h task other init_ok sh es sw = Some sw' \<Longrightarrow>
   libuv_exec (with_task h task other) init_ok (loop_events es) (sx_loop sw) = Some (sx_loop sw')"
proof (induction es arbitrary: sw)
  case (Cons e es)
  then obtain sw1 where 1: "spawn_world_step h task other init_ok sh e sw = Some sw1"
    "libuv_exec (with_task h task other) init_ok (loop_events es) (sx_loop sw1) = Some (sx_loop sw')"
    by (auto split: option.splits)
  then show ?case by (cases e) (auto split: option.splits prod.splits if_splits)
qed simp

lemma loop_exec_spawn:
  "libuv_exec (with_task h task other) init_ok es (sx_loop sw) = Some w' \<Longrightarrow>
   \<exists>sw'. spawn_world_exec h task other init_ok sh (map SpLoop es) sw = Some sw' \<and> sx_loop sw' = w'"
proof (induction es arbitrary: sw)
  case (Cons e es)
  then obtain w1 where w1: "libuv_step (with_task h task other) init_ok e (sx_loop sw) = Some w1"
    "libuv_exec (with_task h task other) init_ok es w1 = Some w'" by (auto split: option.splits)
  then obtain sw1 where "spawn_world_step h task other init_ok sh (SpLoop e) sw = Some sw1" "sx_loop sw1 = w1" by auto
  with Cons.IH [of sw1] w1(2) show ?case by (auto simp del: spawn_world_step.simps)
qed simp

text \<open>A task that has ended stays so: the log of the executor only grows.\<close>

lemma run_items_extends_log: "\<exists>l. lw_log (run_items app body skip src xs w) = lw_log w @ l"
proof (induction xs arbitrary: w)
  case (Cons x xs)
  show ?case
    using Cons.IH [of "w\<lparr>lw_log := lw_log w @ [(src, x, False)]\<rparr>"]
      Cons.IH [of "issue app (body (lw_log w) x) (w\<lparr>lw_log := lw_log w @ [(src, x, True)]\<rparr>)"]
    by (auto simp: issue_def)
qed simp

lemma create_timers_log: "\<exists>l. lw_log (fold (libuv_create_timer body init_ok) rs w) = lw_log w @ l"
proof (induction rs arbitrary: w)
  case (Cons r rs)
  obtain l1 where "lw_log (libuv_create_timer body init_ok r w) = lw_log w @ l1"
    using run_items_extends_log [of libuv_cmd body skip_null FromTimer "[Coro (snd r)]" w]
    by (cases "init_ok (lw_log w)") (auto simp: libuv_create_timer_def simp del: run_items.simps)
  then show ?case using Cons.IH [of "libuv_create_timer body init_ok r w"] by auto
qed simp

lemma step_log:
  assumes "libuv_step body init_ok e w = Some w'"
  shows "\<exists>l. lw_log w' = lw_log w @ l"
proof (cases e)
  case UvIdle
  let ?s = "lw_state w"
  let ?w1 = "run_items libuv_cmd body skip_null FromQueue (map Coro (lu_ready_queue ?s)) (w\<lparr>lw_state := libuv_swap ?s\<rparr>)"
  let ?w2 = "run_items libuv_cmd body skip_null FromQueue (map Call (lu_callback_queue ?s)) ?w1"
  have "lw_log w' = lw_log (fold (libuv_create_timer body init_ok) (lu_timer_queue ?s) ?w2)"
    using assms UvIdle by (auto simp: LibuvExecutor_OnIdle_def LibuvExecutor_ProcessReadyQueue_def Let_def split: if_splits)
  moreover obtain l3 where "lw_log (fold (libuv_create_timer body init_ok) (lu_timer_queue ?s) ?w2) = lw_log ?w2 @ l3"
    using create_timers_log [of body init_ok "lu_timer_queue ?s" ?w2] by blast
  moreover obtain l2 where "lw_log ?w2 = lw_log ?w1 @ l2"
    using run_items_extends_log [of libuv_cmd body skip_null FromQueue "map Call (lu_callback_queue ?s)" ?w1] by blast
  moreover obtain l1 where "lw_log ?w1 = lw_log w @ l1"
    using run_items_extends_log [of libuv_cmd body skip_null FromQueue "map Coro (lu_ready_queue ?s)" "w\<lparr>lw_state := libuv_swap ?s\<rparr>"]
    by auto
  ultimately show ?thesis by simp
next
  case (UvTimer i h)
  then show ?thesis
    using assms run_items_extends_log [of libuv_cmd body skip_null FromTimer "[Coro h]"
      "w\<lparr>lw_state := (lw_state w)\<lparr>lu_active := remove1 (i, h) (lu_active (lw_state w))\<rparr>\<rparr>"]
    by (auto simp: LibuvExecutor_OnTimer_def Let_def simp del: run_items.simps split: if_splits)
qed (use assms in \<open>auto simp: issue_def split: if_splits\<close>)

text \<open>
  The state of the handle: \<open>xs\<close> were registered while the task ran, \<open>ys\<close> since it ended.
\<close>

definition spawn_ok ::
  "state_ptr \<Rightarrow> handle \<Rightarrow> (task_op, unit, 'v) coro \<Rightarrow> 'f list \<Rightarrow> 'f list \<Rightarrow> ('v, 'f, 'g) spawn_world \<Rightarrow> bool" where
  "spawn_ok p h task xs ys sw \<longleftrightarrow>
    sx_promises sw h = p \<and> sx_errors sw = [] \<and> \<not> ss_failed (sx_states sw p) \<and>
    (if task_ended h task (sx_loop sw)
     then sx_destroyed sw = [h] \<and> sx_calls sw = spawn_calls (task_value task) xs ys \<and> ss_completed (sx_states sw p) \<and>
       ss_result (sx_states sw p) = Some (if xs = [] then Val (task_value task) else MovedFrom)
     else ys = [] \<and> sx_destroyed sw = [] \<and> sx_calls sw = [] \<and> \<not> ss_completed (sx_states sw p) \<and>
       ss_on_complete (sx_states sw p) = last_or None xs)"

lemma task_value_wrapped: "task_value (WrapForSpawn task) = task_value task"
  using WrapForSpawn_runs_task [of "\<lambda>_ _. ()" task "[]"] by (simp add: task_run)

lemma spawn_finish_ok:
  assumes "p \<noteq> 0" and ok: "spawn_ok p h task xs ys sw" and "\<not> task_ended h task (sx_loop sw)" and "task_ended h task w"
  shows "spawn_ok p h task xs ys (spawn_finish h task (sw\<lparr>sx_loop := w\<rparr>))"
  using assms
  by (auto simp: spawn_ok_def spawn_finish_def SpawnedTask_finish_def SpawnState_Complete_def spawn_calls_def last_or_def
      task_value_wrapped Let_def split: option.splits if_splits)

lemma spawn_loop_ok:
  assumes p: "p \<noteq> 0" and ok: "spawn_ok p h task xs ys sw"
    and inv: "run_inv (task_frames h task) (resume_order h task) {#} w"
    and step: "libuv_step (with_task h task other) init_ok e (sx_loop sw) = Some w"
    and sw': "spawn_world_step h task other init_ok sh (SpLoop e) sw = Some sw'"
  shows "spawn_ok p h task xs ys sw'"
proof (cases "task_ended h task (sx_loop sw)")
  case True
  obtain l where "lw_log w = lw_log (sx_loop sw) @ l" using step_log [OF step] by blast
  then have "task_ended h task w"
    using True run_inv_resumed [OF inv] by (simp add: task_ended_def)
  moreover have "sw' = sw\<lparr>sx_loop := w\<rparr>" using True step sw' by simp
  ultimately show ?thesis using True ok by (simp add: spawn_ok_def)
next
  case False
  then show ?thesis using spawn_finish_ok [OF p ok False, of w] ok step sw' by (auto simp: spawn_ok_def split: if_splits)
qed

lemma spawn_register_ok:
  assumes "p \<noteq> 0" and "spawn_ok p h task xs ys sw"
    and "spawn_world_step h task other init_ok \<lparr>sh_state = p\<rparr> e sw = Some sw'" and "\<And>u. e \<noteq> SpLoop u"
  shows "sx_loop sw' = sx_loop sw \<and>
    (if task_ended h task (sx_loop sw) then spawn_ok p h task xs (ys @ registered [e]) sw'
     else spawn_ok p h task (xs @ registered [e]) ys sw')"
  using assms
  by (cases e)
    (auto simp: spawn_ok_def SpawnHandle_OnComplete_at_def SpawnHandle_OnError_at_def SpawnHandle_OnComplete_def
      SpawnHandle_OnError_def spawn_calls_def last_or_def Let_def split: if_splits)

lemma registered_Cons: "registered (e # es) = registered [e] @ registered es"
  by (cases e) simp_all

lemma spawn_exec_ok:
  assumes p: "p \<noteq> 0" and body: "goes_on (task_frames h task) (resume_order h task) (with_task h task other)"
  shows "spawn_world_exec h task other init_ok \<lparr>sh_state = p\<rparr> es sw = Some sw' \<Longrightarrow> spawn_ok p h task xs ys sw \<Longrightarrow>
    run_inv (task_frames h task) (resume_order h task) {#} (sx_loop sw) \<Longrightarrow>
    \<forall>e \<in> set (loop_events es). foreign_event (task_frames h task) e \<Longrightarrow>
    \<exists>xs' ys'. spawn_ok p h task xs' ys' sw' \<and> xs' @ ys' = xs @ ys @ registered es \<and>
      (registered es = [] \<longrightarrow> xs' = xs \<and> ys' = ys)"
proof (induction es arbitrary: sw xs ys)
  case (Cons e es)
  then obtain sw1 where sw1: "spawn_world_step h task other init_ok \<lparr>sh_state = p\<rparr> e sw = Some sw1"
    "spawn_world_exec h task other init_ok \<lparr>sh_state = p\<rparr> es sw1 = Some sw'" by (auto split: option.splits)
  show ?case
  proof (cases "\<exists>u. e = SpLoop u")
    case True
    then obtain u where u: "e = SpLoop u" ..
    then obtain w where w: "libuv_step (with_task h task other) init_ok u (sx_loop sw) = Some w" "sx_loop sw1 = w"
      using sw1(1) by (auto split: option.splits)
    have i: "run_inv (task_frames h task) (resume_order h task) {#} w"
      using step_task [OF body Cons.prems(3) w(1)] Cons.prems(4) u by simp
    from spawn_loop_ok [OF p Cons.prems(2) i w(1)] sw1(1) u have "spawn_ok p h task xs ys sw1" by blast
    from Cons.IH [OF sw1(2) this] i w(2) Cons.prems(4) u show ?thesis by simp
  next
    case False
    note r = spawn_register_ok [OF p Cons.prems(2) sw1(1)]
    have i: "run_inv (task_frames h task) (resume_order h task) {#} (sx_loop sw1)" using r False Cons.prems(3) by simp
    have f: "\<forall>e \<in> set (loop_events es). foreign_event (task_frames h task) e" using Cons.prems(4) False by (cases e) auto
    show ?thesis
    proof (cases "task_ended h task (sx_loop sw)")
      case True
      then have "spawn_ok p h task xs (ys @ registered [e]) sw1" using r False by simp
      from Cons.IH [OF sw1(2) this i f] show ?thesis by (auto simp: registered_Cons [of e es])
    next
      case nf: False
      then have "spawn_ok p h task (xs @ registered [e]) ys sw1" "ys = []" using r False Cons.prems(2) by (simp_all add: spawn_ok_def)
      from Cons.IH [OF sw1(2) this(1) i f] this(2) show ?thesis by (auto simp: registered_Cons [of e es])
    qed
  qed
qed auto



end
