(* ===== verification/Generator.thy ===== *)
theory Generator
  imports Raii
begin

text \<open>
  \<open>core/generator.hpp\<close>: the promise with the yielded value, the iterator, the owning
  \<open>Generator\<close>, and the range-for loop over it.  The body of a generator is given by what it
  does between two suspensions: from its local state it either yields a value and goes on in
  a new local state, or ends (\<open>None\<close>).  A body may yield forever.
\<close>

subsection \<open>The coroutine frame\<close>

text \<open>
  \<open>gf_current\<close> is what \<open>current_value_\<close> points to: the variable of a \<open>co_yield\<close> of an lvalue
  or \<open>owned_value_\<close>, both alive until the next resumption.  \<open>gf_resumes\<close> counts resumptions.
\<close>

record ('b, 'v) gen_frame =
  gf_body :: 'b
  gf_current :: "'v option"
  gf_done :: bool
  gf_resumes :: nat

definition GeneratorPromise_init :: "'b \<Rightarrow> ('b, 'v) gen_frame" where
  "GeneratorPromise_init b = \<lparr>gf_body = b, gf_current = None, gf_done = False, gf_resumes = 0\<rparr>"

definition GeneratorPromise_yield_value :: "'v \<Rightarrow> ('b, 'v) gen_frame \<Rightarrow> ('b, 'v) gen_frame" where
  "GeneratorPromise_yield_value v f = f\<lparr>gf_current := Some v\<rparr>"

definition GeneratorPromise_GetValue :: "('b, 'v) gen_frame \<Rightarrow> 'v option" where
  "GeneratorPromise_GetValue f = gf_current f"

definition GeneratorPromise_HasValue :: "('b, 'v) gen_frame \<Rightarrow> bool" where
  "GeneratorPromise_HasValue f \<longleftrightarrow> gf_current f \<noteq> None"

text \<open>\<open>handle_.resume()\<close> on a frame that is not done; \<open>None\<close> is undefined behaviour.\<close>

definition gen_resume :: "('b \<Rightarrow> ('v \<times> 'b) option) \<Rightarrow> ('b, 'v) gen_frame \<Rightarrow> ('b, 'v) gen_frame option" where
  "gen_resume step f =
    (if gf_done f then None
     else Some (case step (gf_body f) of
                  Some (v, b) \<Rightarrow> GeneratorPromise_yield_value v (f\<lparr>gf_body := b, gf_resumes := Suc (gf_resumes f)\<rparr>)
                | None \<Rightarrow> f\<lparr>gf_done := True, gf_resumes := Suc (gf_resumes f)\<rparr>))"

subsection \<open>The owner\<close>

record Generator =
  gen_handle :: handle

definition Generator_move :: "Generator \<Rightarrow> Generator \<times> Generator" where
  "Generator_move other = (\<lparr>gen_handle = gen_handle other\<rparr>, other\<lparr>gen_handle := null_handle\<rparr>)"

definition Generator_assign :: "Generator \<Rightarrow> Generator \<Rightarrow> Generator \<times> Generator \<times> handle list" where
  "Generator_assign this other =
    (this\<lparr>gen_handle := gen_handle other\<rparr>, other\<lparr>gen_handle := null_handle\<rparr>, resume_if (gen_handle this))"

definition Generator_destroy :: "Generator \<Rightarrow> handle list" where
  "Generator_destroy this = resume_if (gen_handle this)"

definition Generator_res :: "Generator \<Rightarrow> handle option" where
  "Generator_res g = (if gen_handle g \<noteq> null_handle then Some (gen_handle g) else None)"

interpretation generator: unique_owner Generator_res Generator_move Generator_assign Generator_destroy
  by unfold_locales
    (simp_all add: Generator_res_def Generator_move_def Generator_assign_def Generator_destroy_def resume_if_def)

subsection \<open>Iteration\<close>

text \<open>An iterator is the handle of the frame or null, the end.\<close>

record GeneratorIterator =
  it_handle :: handle

definition Generator_end :: GeneratorIterator where
  "Generator_end = \<lparr>it_handle = null_handle\<rparr>"

definition GeneratorIterator_eq :: "GeneratorIterator \<Rightarrow> GeneratorIterator \<Rightarrow> bool" where
  "GeneratorIterator_eq a b \<longleftrightarrow> it_handle a = it_handle b"

definition Generator_begin ::
  "('b \<Rightarrow> ('v \<times> 'b) option) \<Rightarrow> Generator \<Rightarrow> ('b, 'v) gen_frame \<Rightarrow>
   (GeneratorIterator \<times> ('b, 'v) gen_frame) option" where
  "Generator_begin step g f =
    (if gen_handle g \<noteq> null_handle \<and> \<not> gf_done f
     then (case gen_resume step f of
             None \<Rightarrow> None
           | Some f' \<Rightarrow> if gf_done f' then Some (Generator_end, f') else Some (\<lparr>it_handle = gen_handle g\<rparr>, f'))
     else Some (Generator_end, f))"

text \<open>\<open>None\<close>: incrementing the end iterator or resuming a finished frame.\<close>

definition GeneratorIterator_increment ::
  "('b \<Rightarrow> ('v \<times> 'b) option) \<Rightarrow> GeneratorIterator \<Rightarrow> ('b, 'v) gen_frame \<Rightarrow>
   (GeneratorIterator \<times> ('b, 'v) gen_frame) option" where
  "GeneratorIterator_increment step i f =
    (if it_handle i = null_handle then None
     else (case gen_resume step f of
             None \<Rightarrow> None
           | Some f' \<Rightarrow> Some (if gf_done f' then i\<lparr>it_handle := null_handle\<rparr> else i, f')))"

definition GeneratorIterator_deref :: "GeneratorIterator \<Rightarrow> ('b, 'v) gen_frame \<Rightarrow> 'v option" where
  "GeneratorIterator_deref i f = (if it_handle i = null_handle then None else GeneratorPromise_GetValue f)"

lemmas Generator_defs [op_defs] =
  GeneratorPromise_yield_value_def GeneratorPromise_GetValue_def gen_resume_def Generator_end_def
  GeneratorIterator_eq_def Generator_begin_def GeneratorIterator_increment_def GeneratorIterator_deref_def

text \<open>
  \<open>for (auto& x : gen) ...\<close> that is left by \<open>break\<close> in its \<open>n\<close>-th iteration unless the sequence
  ends before: the values the loop body sees.
\<close>

fun for_loop ::
  "('b \<Rightarrow> ('v \<times> 'b) option) \<Rightarrow> nat \<Rightarrow> GeneratorIterator \<Rightarrow> ('b, 'v) gen_frame \<Rightarrow>
   ('v list \<times> ('b, 'v) gen_frame) option" where
  "for_loop step n i f =
     (if GeneratorIterator_eq i Generator_end then Some ([], f)
      else (case n of
              0 \<Rightarrow> Some ([], f)
            | Suc m \<Rightarrow>
                (case GeneratorIterator_deref i f of
                   None \<Rightarrow> None
                 | Some v \<Rightarrow>
                     (if m = 0 then Some ([v], f)
                      else (case GeneratorIterator_increment step i f of
                              None \<Rightarrow> None
                            | Some (i', f') \<Rightarrow>
                                map_option (\<lambda>(vs, f''). (v # vs, f'')) (for_loop step m i' f'))))))"

declare for_loop.simps [simp del]

definition range_for ::
  "('b \<Rightarrow> ('v \<times> 'b) option) \<Rightarrow> nat \<Rightarrow> Generator \<Rightarrow> ('b, 'v) gen_frame \<Rightarrow>
   ('v list \<times> ('b, 'v) gen_frame) option" where
  "range_for step n g f =
    (case Generator_begin step g f of None \<Rightarrow> None | Some (i, f') \<Rightarrow> for_loop step n i f')"

text \<open>The first \<open>n\<close> values the body yields.\<close>

fun yields :: "('b \<Rightarrow> ('v \<times> 'b) option) \<Rightarrow> nat \<Rightarrow> 'b \<Rightarrow> 'v list" where
  "yields step 0 b = []"
| "yields step (Suc n) b = (case step b of None \<Rightarrow> [] | Some (v, b') \<Rightarrow> v # yields step n b')"

lemma for_loop_yields:
  assumes "h \<noteq> 0" and "\<not> gf_done f" and "gf_current f = Some v" and "0 < n"
  shows "\<exists>f'. for_loop step n \<lparr>it_handle = h\<rparr> f = Some (v # yields step (n - 1) (gf_body f), f') \<and>
     gf_resumes f' = gf_resumes f + min (n - 1) (Suc (length (yields step (n - 1) (gf_body f)))) \<and>
     (gf_done f' \<longleftrightarrow> length (yields step (n - 1) (gf_body f)) < n - 1)"
  using assms
proof (induction n arbitrary: f v)
  case (Suc m)
  show ?case
  proof (cases m)
    case 0
    then show ?thesis using Suc.prems by (simp add: for_loop.simps Generator_defs)
  next
    case (Suc k)
    show ?thesis
    proof (cases "step (gf_body f)")
      case None
      let ?f = "f\<lparr>gf_done := True, gf_resumes := Suc (gf_resumes f)\<rparr>"
      have "for_loop step m \<lparr>it_handle = 0\<rparr> ?f = Some ([], ?f)"
        by (simp add: for_loop.simps Generator_defs)
      then have "for_loop step (Suc m) \<lparr>it_handle = h\<rparr> f = Some ([v], ?f)"
        using Suc.prems Suc None by (simp add: for_loop.simps [of step "Suc (Suc k)"] Generator_defs)
      then show ?thesis using None Suc by simp
    next
      case (Some x)
      obtain u b where x: "x = (u, b)" by (cases x)
      let ?f = "f\<lparr>gf_body := b, gf_resumes := Suc (gf_resumes f), gf_current := Some u\<rparr>"
      have inc: "GeneratorIterator_increment step \<lparr>it_handle = h\<rparr> f = Some (\<lparr>it_handle = h\<rparr>, ?f)"
        using Suc.prems Some x by (simp add: Generator_defs)
      have "\<not> gf_done ?f" "gf_current ?f = Some u" "0 < m" using Suc.prems Suc by simp_all
      from Suc.IH [OF Suc.prems(1) this] obtain f' where
        f': "for_loop step m \<lparr>it_handle = h\<rparr> ?f = Some (u # yields step (m - 1) b, f')"
        "gf_resumes f' = Suc (gf_resumes f) + min (m - 1) (Suc (length (yields step (m - 1) b)))"
        "gf_done f' \<longleftrightarrow> length (yields step (m - 1) b) < m - 1" by auto
      have "for_loop step (Suc m) \<lparr>it_handle = h\<rparr> f = Some (v # u # yields step (m - 1) b, f')"
        using Suc.prems Suc inc f'(1)
        by (simp add: for_loop.simps [of step "Suc (Suc k)"] GeneratorIterator_eq_def Generator_end_def
            GeneratorIterator_deref_def GeneratorPromise_GetValue_def)
      then show ?thesis using f'(2,3) Some x Suc by auto
    qed
  qed
qed simp

text \<open>
  A range-for loop sees what the body yields:  Over a fresh generator, for a body
  that may be infinite and a loop that stops after \<open>n\<close> elements: the loop never resumes a
  finished frame or reads a missing value; the values it sees are the first \<open>n\<close> values the
  body yields, all of them if there are fewer; the body is resumed once per value seen and
  once more only if the sequence ended, so nothing is computed ahead of its use and nothing
  before the loop; and an emptied (moved-from) generator gives the empty sequence.
\<close>

theorem generator_range_for:
  assumes "gen_handle g \<noteq> 0" and "0 < n"
  shows "(\<exists>f. range_for step n g (GeneratorPromise_init b) = Some (yields step n b, f) \<and>
            gf_resumes f = min n (Suc (length (yields step n b))) \<and>
            (gf_done f \<longleftrightarrow> length (yields step n b) < n)) \<and>
         range_for step n (snd (Generator_move g)) (GeneratorPromise_init b) = Some ([], GeneratorPromise_init b)"
proof -
  have m: "range_for step n (snd (Generator_move g)) (GeneratorPromise_init b) = Some ([], GeneratorPromise_init b)"
    by (simp add: range_for_def Generator_begin_def Generator_move_def for_loop.simps GeneratorIterator_eq_def)
  obtain k where n: "n = Suc k" using assms(2) by (cases n) auto
  have "\<exists>f. range_for step n g (GeneratorPromise_init b) = Some (yields step n b, f) \<and>
            gf_resumes f = min n (Suc (length (yields step n b))) \<and> (gf_done f \<longleftrightarrow> length (yields step n b) < n)"
  proof (cases "step b")
    case None
    then show ?thesis
      using assms by (simp add: range_for_def Generator_defs GeneratorPromise_init_def for_loop.simps n)
  next
    case (Some x)
    obtain v b' where x: "x = (v, b')" by (cases x)
    let ?f = "\<lparr>gf_body = b', gf_current = Some v, gf_done = False, gf_resumes = 1\<rparr>"
    have "range_for step n g (GeneratorPromise_init b) = for_loop step n \<lparr>it_handle = gen_handle g\<rparr> ?f"
      using assms Some x by (simp add: range_for_def Generator_defs GeneratorPromise_init_def)
    with for_loop_yields [OF assms(1), of ?f v n step] Some x show ?thesis by (auto simp: n)
  qed
  with m show ?thesis by blast
qed

theorem generator_range_for_witness:
  "\<exists>f. range_for (\<lambda>k. if k < 3 then Some (k * k, Suc k) else None) 5 \<lparr>gen_handle = 7\<rparr> (GeneratorPromise_init (0 :: nat))
      = Some ([0, 1, 4], f) \<and> gf_resumes f = 4 \<and> gf_done f"
proof -
  let ?step = "\<lambda>k :: nat. if k < 3 then Some (k * k, Suc k) else None"
  have ys: "yields ?step 5 0 = [0, 1, 4]" by (simp add: numeral_eq_Suc)
  have "gen_handle \<lparr>gen_handle = 7\<rparr> \<noteq> 0" by simp
  from generator_range_for [OF this, of 5 ?step 0] ys show ?thesis by auto
qed

text \<open>A second \<open>begin()\<close> does not restart: it goes on with the next value.\<close>

lemma second_begin_continues:
  assumes "gen_handle g \<noteq> 0" and "step b = Some (v, b')" and "step b' = Some (v', b'')"
  shows "\<exists>i f. Generator_begin step g (GeneratorPromise_init b) = Some (i, f) \<and> GeneratorIterator_deref i f = Some v \<and>
           (\<exists>i' f'. Generator_begin step g f = Some (i', f') \<and> GeneratorIterator_deref i' f' = Some v')"
  using assms by (simp add: Generator_defs GeneratorPromise_init_def)

end
