(* ===== verification/Polling.thy ===== *)
theory Polling
  imports Executor Errors Result
begin

text \<open>
  \<open>io/polling_executor.hpp\<close> and \<open>io/polling_executor.cpp\<close>: an executor that polls a completion
  source the user supplies, a heap of timers, and the two queues, in a loop.
\<close>

subsection \<open>State\<close>

datatype IdleStrategy = Spin | Sleep | Wait

record PollingOptions =
  po_batch_size :: size_t
  po_idle_strategy :: IdleStrategy
  po_sleep_duration :: int
  po_cpu_affinity :: "int list"
  po_thread_name :: string
  po_nice_value :: int

definition PollingOptions_init :: PollingOptions where
  "PollingOptions_init =
    \<lparr>po_batch_size = 32, po_idle_strategy = Spin, po_sleep_duration = 100, po_cpu_affinity = [],
     po_thread_name = [], po_nice_value = 0\<rparr>"

record TimerEntry =
  ti_deadline :: int
  ti_handle :: handle

text \<open>
  The priority queue is kept as a list in the order of the deadlines: \<open>top\<close> is its head.
  \<open>pe_event\<close> is the counter of the eventfd, \<open>pe_now\<close> the steady clock.
\<close>

record PollingExecutor =
  pe_options :: PollingOptions
  pe_eventfd :: int
  pe_timerfd :: int
  pe_running :: bool
  pe_stop_requested :: bool
  pe_ready_queue :: "handle list"
  pe_callback_queue :: "nat list"
  pe_timer_heap :: "TimerEntry list"
  pe_event :: nat
  pe_now :: int

definition PollingExecutor_init :: "PollingOptions \<Rightarrow> int \<Rightarrow> int \<Rightarrow> PollingExecutor" where
  "PollingExecutor_init options efd tfd =
    \<lparr>pe_options = options, pe_eventfd = efd, pe_timerfd = tfd, pe_running = False, pe_stop_requested = False,
     pe_ready_queue = [], pe_callback_queue = [], pe_timer_heap = [], pe_event = 0, pe_now = 0\<rparr>"

text \<open>What \<open>eventfd\<close> and \<open>timerfd_create\<close> return comes in; the descriptors closed come out.\<close>

definition PollingExecutor_Create ::
  "PollingOptions \<Rightarrow> int \<Rightarrow> int \<Rightarrow> (PollingExecutor, error_code) Result \<times> int list" where
  "PollingExecutor_Create options efd tfd =
    (if efd < 0 then (Err (make_error_code EventfdFailed), [])
     else if tfd < 0 then (Err (make_error_code TimerfdFailed), [efd])
     else (Ok (PollingExecutor_init options efd tfd), []))"

definition PollingExecutor_destroy :: "PollingExecutor \<Rightarrow> int list" where
  "PollingExecutor_destroy s =
    (if pe_eventfd s \<ge> 0 then [pe_eventfd s] else []) @ (if pe_timerfd s \<ge> 0 then [pe_timerfd s] else [])"

lemma polling_fds_closed_once:
  "case PollingExecutor_Create options efd tfd of
     (Ok s, closed) \<Rightarrow> closed = [] \<and> PollingExecutor_destroy s = [efd, tfd]
   | (Err _, closed) \<Rightarrow> closed = (if efd \<ge> 0 then [efd] else [])"
  by (auto simp: PollingExecutor_Create_def PollingExecutor_destroy_def PollingExecutor_init_def)

subsection \<open>Scheduling\<close>

definition PollingExecutor_WakeUp :: "PollingExecutor \<Rightarrow> PollingExecutor" where
  "PollingExecutor_WakeUp s = s\<lparr>pe_event := Suc (pe_event s)\<rparr>"

definition PollingExecutor_Schedule :: "handle \<Rightarrow> PollingExecutor \<Rightarrow> PollingExecutor" where
  "PollingExecutor_Schedule h s = PollingExecutor_WakeUp (s\<lparr>pe_ready_queue := pe_ready_queue s @ [h]\<rparr>)"

definition timer_push :: "TimerEntry \<Rightarrow> TimerEntry list \<Rightarrow> TimerEntry list" where
  "timer_push e heap = insort_key ti_deadline e heap"

definition PollingExecutor_ScheduleAfter :: "int \<Rightarrow> handle \<Rightarrow> PollingExecutor \<Rightarrow> PollingExecutor" where
  "PollingExecutor_ScheduleAfter delay h s =
    (let deadline = pe_now s + delay
     in PollingExecutor_WakeUp
          (s\<lparr>pe_timer_heap := timer_push \<lparr>ti_deadline = deadline, ti_handle = h\<rparr> (pe_timer_heap s)\<rparr>))"

definition PollingExecutor_Post :: "nat \<Rightarrow> PollingExecutor \<Rightarrow> PollingExecutor" where
  "PollingExecutor_Post callback s =
    PollingExecutor_WakeUp (s\<lparr>pe_callback_queue := pe_callback_queue s @ [callback]\<rparr>)"

definition PollingExecutor_Stop :: "PollingExecutor \<Rightarrow> PollingExecutor" where
  "PollingExecutor_Stop s = PollingExecutor_WakeUp (s\<lparr>pe_stop_requested := True\<rparr>)"

definition PollingExecutor_IsRunning :: "PollingExecutor \<Rightarrow> bool" where
  "PollingExecutor_IsRunning s = pe_running s"

fun polling_cmd :: "exec_cmd \<Rightarrow> PollingExecutor \<Rightarrow> PollingExecutor" where
  "polling_cmd (DoSchedule h) s = PollingExecutor_Schedule h s"
| "polling_cmd (DoScheduleAfter d h) s = PollingExecutor_ScheduleAfter d h s"
| "polling_cmd (DoPost c) s = PollingExecutor_Post c s"
| "polling_cmd DoStop s = PollingExecutor_Stop s"
| "polling_cmd (DoIo op a h) s = s"
| "polling_cmd (Elapse t) s = s\<lparr>pe_now := pe_now s + int t\<rparr>"

definition polling_swap :: "PollingExecutor \<Rightarrow> PollingExecutor" where
  "polling_swap s = s\<lparr>pe_ready_queue := [], pe_callback_queue := []\<rparr>"

lemmas Polling_defs [op_defs] =
  PollingExecutor_WakeUp_def PollingExecutor_Schedule_def PollingExecutor_ScheduleAfter_def
  PollingExecutor_Post_def PollingExecutor_Stop_def polling_swap_def

interpretation polling: event_loop polling_cmd pe_ready_queue pe_callback_queue polling_swap
proof unfold_locales
  fix c s
  show "pe_ready_queue (polling_cmd c s) = pe_ready_queue s @ scheduled_by c"
    by (cases c) (simp_all add: Polling_defs Let_def)
  show "pe_callback_queue (polling_cmd c s) = pe_callback_queue s @ posted_by c"
    by (cases c) (simp_all add: Polling_defs Let_def)
qed (simp_all add: Polling_defs)

subsection \<open>One iteration\<close>

definition PollingExecutor_ProcessReadyQueue ::
  "(run_log \<Rightarrow> work \<Rightarrow> exec_cmd list) \<Rightarrow> (run_log \<Rightarrow> handle \<Rightarrow> bool) \<Rightarrow>
   PollingExecutor loop_world \<Rightarrow> PollingExecutor loop_world" where
  "PollingExecutor_ProcessReadyQueue body is_done w =
    (let ready_copy = pe_ready_queue (lw_state w); callback_copy = pe_callback_queue (lw_state w);
         w = w\<lparr>lw_state := polling_swap (lw_state w)\<rparr>;
         w = run_items polling_cmd body (skip_done is_done) FromQueue (map Coro ready_copy) w
     in run_items polling_cmd body (skip_done is_done) FromQueue (map Call callback_copy) w)"

fun pop_expired :: "int \<Rightarrow> TimerEntry list \<Rightarrow> TimerEntry list \<times> TimerEntry list" where
  "pop_expired now [] = ([], [])"
| "pop_expired now (e # heap) =
     (if ti_deadline e \<le> now then (let (xs, rest) = pop_expired now heap in (e # xs, rest)) else ([], e # heap))"

definition PollingExecutor_ProcessTimers ::
  "(run_log \<Rightarrow> work \<Rightarrow> exec_cmd list) \<Rightarrow> (run_log \<Rightarrow> handle \<Rightarrow> bool) \<Rightarrow>
   PollingExecutor loop_world \<Rightarrow> PollingExecutor loop_world" where
  "PollingExecutor_ProcessTimers body is_done w =
    (let now = pe_now (lw_state w);
         (popped, heap) = pop_expired now (pe_timer_heap (lw_state w));
         expired = filter (\<lambda>e. ti_handle e \<noteq> null_handle \<and> \<not> is_done (lw_log w) (ti_handle e)) popped;
         w = w\<lparr>lw_state := (lw_state w)\<lparr>pe_timer_heap := heap\<rparr>\<rparr>
     in run_items polling_cmd body (\<lambda>_ _. False) FromTimer (map (Coro \<circ> ti_handle) expired) w)"

text \<open>
  What happens around one iteration: calls from other threads before the poll, before the
  timers, before the swap of the queues and after it, and the handles \<open>Poll\<close> wrote.
\<close>

record poll_env =
  pv_before_poll :: "exec_cmd list"
  pv_polled :: "handle list"
  pv_before_timers :: "exec_cmd list"
  pv_before_queue :: "exec_cmd list"
  pv_after :: "exec_cmd list"

definition PollingExecutor_iteration ::
  "(run_log \<Rightarrow> work \<Rightarrow> exec_cmd list) \<Rightarrow> (run_log \<Rightarrow> handle \<Rightarrow> bool) \<Rightarrow> poll_env \<Rightarrow>
   PollingExecutor loop_world \<Rightarrow> PollingExecutor loop_world" where
  "PollingExecutor_iteration body is_done env w =
    (let w = issue polling_cmd (pv_before_poll env) w;
         w = run_items polling_cmd body skip_null FromPoll (map Coro (pv_polled env)) w;
         w = issue polling_cmd (pv_before_timers env) w;
         w = PollingExecutor_ProcessTimers body is_done w;
         w = issue polling_cmd (pv_before_queue env) w;
         w = PollingExecutor_ProcessReadyQueue body is_done w;
         w = w\<lparr>lw_state := (lw_state w)\<lparr>pe_event := 0\<rparr>\<rparr>
     in issue polling_cmd (pv_after env) w)"

definition PollingExecutor_RunOnce ::
  "(run_log \<Rightarrow> work \<Rightarrow> exec_cmd list) \<Rightarrow> (run_log \<Rightarrow> handle \<Rightarrow> bool) \<Rightarrow> poll_env \<Rightarrow>
   PollingExecutor loop_world \<Rightarrow> PollingExecutor loop_world" where
  "PollingExecutor_RunOnce body is_done env w = PollingExecutor_iteration body is_done env w"

text \<open>What the loop does between iterations.\<close>

datatype idle_action = Busy | BusyPoll | SleepFor int | WaitSource int

definition PollingExecutor_idle :: "size_t \<Rightarrow> PollingExecutor \<Rightarrow> idle_action" where
  "PollingExecutor_idle n s =
    (let queues_empty = (pe_ready_queue s = [] \<and> pe_callback_queue s = [])
     in if n = 0 \<and> queues_empty
        then (case po_idle_strategy (pe_options s) of
                Spin \<Rightarrow> BusyPoll
              | Sleep \<Rightarrow> SleepFor (po_sleep_duration (pe_options s))
              | Wait \<Rightarrow> WaitSource 1)
        else Busy)"

text \<open>The loop over as many iterations as the environment lasts; \<open>None\<close>: still running then.\<close>

fun PollingExecutor_Run_loop ::
  "(run_log \<Rightarrow> work \<Rightarrow> exec_cmd list) \<Rightarrow> (run_log \<Rightarrow> handle \<Rightarrow> bool) \<Rightarrow> poll_env list \<Rightarrow>
   PollingExecutor loop_world \<Rightarrow> (PollingExecutor loop_world \<times> idle_action list) option" where
  "PollingExecutor_Run_loop body is_done envs w =
     (if pe_stop_requested (lw_state w) then Some (w\<lparr>lw_state := (lw_state w)\<lparr>pe_running := False\<rparr>\<rparr>, [])
      else (case envs of
              [] \<Rightarrow> None
            | env # envs' \<Rightarrow>
                (let w' = PollingExecutor_iteration body is_done env w;
                     idle = PollingExecutor_idle (word_of_nat (length (pv_polled env))) (lw_state w')
                 in map_option (\<lambda>(w'', acts). (w'', idle # acts)) (PollingExecutor_Run_loop body is_done envs' w'))))"

declare PollingExecutor_Run_loop.simps [simp del]

definition PollingExecutor_Run ::
  "(run_log \<Rightarrow> work \<Rightarrow> exec_cmd list) \<Rightarrow> (run_log \<Rightarrow> handle \<Rightarrow> bool) \<Rightarrow> poll_env list \<Rightarrow>
   PollingExecutor loop_world \<Rightarrow> (PollingExecutor loop_world \<times> idle_action list) option" where
  "PollingExecutor_Run body is_done envs w =
    PollingExecutor_Run_loop body is_done envs
      (w\<lparr>lw_state := (lw_state w)\<lparr>pe_running := True, pe_stop_requested := False\<rparr>\<rparr>)"

subsection \<open>Queues\<close>

definition polling_start :: "PollingOptions \<Rightarrow> int \<Rightarrow> int \<Rightarrow> PollingExecutor loop_world" where
  "polling_start options efd tfd = \<lparr>lw_state = PollingExecutor_init options efd tfd, lw_log = [], lw_cmds = []\<rparr>"

abbreviation polling_ok :: "PollingExecutor loop_world \<Rightarrow> bool" where
  "polling_ok \<equiv> fifo_ok pe_ready_queue pe_callback_queue [] []"

lemma polling_ok_update:
  assumes "pe_ready_queue s = pe_ready_queue (lw_state w)" and "pe_callback_queue s = pe_callback_queue (lw_state w)"
  shows "polling_ok (w\<lparr>lw_state := s\<rparr>) \<longleftrightarrow> polling_ok w"
  using assms by (simp add: fifo_ok_def)

lemma ProcessTimers_ok: "polling_ok w \<Longrightarrow> polling_ok (PollingExecutor_ProcessTimers body is_done w)"
  unfolding PollingExecutor_ProcessTimers_def Let_def split_beta
  by (rule polling.run_other_fifo) (simp_all add: polling_ok_update)

lemma ProcessReadyQueue_round:
  "PollingExecutor_ProcessReadyQueue body is_done w = polling.round body (skip_done is_done) w"
  by (simp add: PollingExecutor_ProcessReadyQueue_def polling.round_def)

lemma iteration_ok: "polling_ok w \<Longrightarrow> polling_ok (PollingExecutor_iteration body is_done env w)"
  unfolding PollingExecutor_iteration_def Let_def
  by (intro polling.issue_fifo, subst polling_ok_update, simp, simp)
    (simp add: ProcessReadyQueue_round polling.round_fifo ProcessTimers_ok polling.issue_fifo polling.run_other_fifo)

text \<open>The world after \<open>k\<close> iterations.\<close>

definition polling_after ::
  "(run_log \<Rightarrow> work \<Rightarrow> exec_cmd list) \<Rightarrow> (run_log \<Rightarrow> handle \<Rightarrow> bool) \<Rightarrow> poll_env list \<Rightarrow> nat \<Rightarrow>
   PollingExecutor loop_world \<Rightarrow> PollingExecutor loop_world" where
  "polling_after body is_done envs k w = fold (PollingExecutor_iteration body is_done) (take k envs) w"

lemma fold_iteration_ok: "polling_ok w \<Longrightarrow> polling_ok (fold (PollingExecutor_iteration body is_done) es w)"
  by (induction es arbitrary: w) (simp_all add: iteration_ok)

lemma polling_after_ok: "polling_ok w \<Longrightarrow> polling_ok (polling_after body is_done envs k w)"
  by (simp add: polling_after_def fold_iteration_ok)

definition polling_begin :: "PollingExecutor loop_world \<Rightarrow> PollingExecutor loop_world" where
  "polling_begin w = w\<lparr>lw_state := (lw_state w)\<lparr>pe_running := True, pe_stop_requested := False\<rparr>\<rparr>"

lemma Run_loop_result:
  "case PollingExecutor_Run_loop body is_done envs w of
     None \<Rightarrow> \<forall>k. \<not> pe_stop_requested (lw_state (polling_after body is_done envs k w))
   | Some (w', acts) \<Rightarrow> length acts \<le> length envs \<and>
       (\<forall>j < length acts. \<not> pe_stop_requested (lw_state (polling_after body is_done envs j w))) \<and>
       pe_stop_requested (lw_state (polling_after body is_done envs (length acts) w)) \<and>
       w' = (polling_after body is_done envs (length acts) w)
              \<lparr>lw_state := (lw_state (polling_after body is_done envs (length acts) w))\<lparr>pe_running := False\<rparr>\<rparr>"
proof (induction envs arbitrary: w)
  case Nil
  then show ?case by (simp add: PollingExecutor_Run_loop.simps polling_after_def)
next
  case (Cons env envs)
  let ?w = "PollingExecutor_iteration body is_done env w"
  have suc: "polling_after body is_done (env # envs) (Suc k) w = polling_after body is_done envs k ?w" for k
    by (simp add: polling_after_def)
  have zero: "polling_after body is_done (env # envs) 0 w = w" by (simp add: polling_after_def)
  show ?case
  proof (cases "pe_stop_requested (lw_state w)")
    case True
    then show ?thesis by (simp add: PollingExecutor_Run_loop.simps zero)
  next
    case False
    note r = PollingExecutor_Run_loop.simps [of body is_done "env # envs" w]
    have all: "(\<forall>k. P k) \<longleftrightarrow> P 0 \<and> (\<forall>k. P (Suc k))" for P :: "nat \<Rightarrow> bool" by (metis not0_implies_Suc)
    show ?thesis
    proof (cases "PollingExecutor_Run_loop body is_done envs ?w")
      case None
      with Cons.IH [of ?w] have "\<not> pe_stop_requested (lw_state (polling_after body is_done (env # envs) k w))" for k
        using False by (cases k) (simp_all add: zero suc)
      then show ?thesis using False None r by (simp add: Let_def)
    next
      case (Some p)
      obtain w' acts where p: "p = (w', acts)" by (cases p)
      have "\<not> pe_stop_requested (lw_state (polling_after body is_done (env # envs) j w))" if "j < Suc (length acts)" for j
        using that False Cons.IH [of ?w] Some p by (cases j) (simp_all add: zero suc)
      then show ?thesis using False Some p r Cons.IH [of ?w] by (simp add: Let_def suc)
    qed
  qed
qed

lemma polling_begin_ok: "polling_ok (polling_begin (polling_start options efd tfd))"
  by (simp add: fifo_ok_def polling_start_def polling_begin_def PollingExecutor_init_def)

text \<open>
  Property C9 (the polling executor runs what is scheduled, in order).  Whatever coroutines and
  callbacks do when they run (schedule, post, arm timers, stop), whatever is called from other
  threads between the phases and whatever the completion source delivers: after every
  number of iterations of \<open>Run\<close> the handles passed to \<open>Schedule\<close> are, in order, those taken
  from the queue (each taken once, and resumed unless null or done at that moment) followed
  by those still in the queue; likewise the posted callbacks.  \<open>Run\<close> returns if and only if
  a stop is requested in some iteration, and then after the first such iteration, with
  \<open>IsRunning\<close> false.
\<close>

theorem polling_executor_fifo:
  fixes body :: "run_log \<Rightarrow> work \<Rightarrow> exec_cmd list" and is_done :: "run_log \<Rightarrow> handle \<Rightarrow> bool"
    and options :: PollingOptions and efd tfd :: int
  defines "it \<equiv> \<lambda>envs k. polling_after body is_done envs k (polling_begin (polling_start options efd tfd))"
  shows "(let w = it envs k in
            concat (map scheduled_by (lw_cmds w)) = concat (map queued_coro (lw_log w)) @ pe_ready_queue (lw_state w) \<and>
            concat (map posted_by (lw_cmds w)) = concat (map queued_call (lw_log w)) @ pe_callback_queue (lw_state w)) \<and>
         (case PollingExecutor_Run body is_done envs (polling_start options efd tfd) of
            None \<Rightarrow> \<forall>j. \<not> pe_stop_requested (lw_state (it envs j))
          | Some (w, acts) \<Rightarrow> \<not> PollingExecutor_IsRunning (lw_state w) \<and> pe_stop_requested (lw_state w) \<and>
              (\<forall>j < length acts. \<not> pe_stop_requested (lw_state (it envs j))) \<and>
              w = (it envs (length acts))\<lparr>lw_state := (lw_state (it envs (length acts)))\<lparr>pe_running := False\<rparr>\<rparr>)"
proof -
  have "polling_ok (it envs k)" unfolding it_def by (rule polling_after_ok [OF polling_begin_ok])
  moreover have "PollingExecutor_Run body is_done envs (polling_start options efd tfd) =
      PollingExecutor_Run_loop body is_done envs (polling_begin (polling_start options efd tfd))"
    by (simp add: PollingExecutor_Run_def polling_begin_def)
  ultimately show ?thesis
    using Run_loop_result [of body is_done envs "polling_begin (polling_start options efd tfd)"]
    by (auto simp: it_def fifo_ok_def PollingExecutor_IsRunning_def Let_def split: option.splits)
qed

theorem polling_executor_fifo_witness:
  "\<exists>w acts. PollingExecutor_Run (\<lambda>_ x. if x = Coro 5 then [DoSchedule 6, DoStop] else []) (\<lambda>_ _. False)
       [\<lparr>pv_before_poll = [DoSchedule 5], pv_polled = [], pv_before_timers = [], pv_before_queue = [], pv_after = []\<rparr>]
       (polling_start PollingOptions_init 3 4) = Some (w, acts) \<and>
     \<not> PollingExecutor_IsRunning (lw_state w) \<and> pe_ready_queue (lw_state w) = [6]"
proof -
  let ?b = "\<lambda>_ x. if x = Coro 5 then [DoSchedule 6, DoStop] else []" and ?d = "\<lambda>_ _. False"
  let ?e = "[\<lparr>pv_before_poll = [DoSchedule 5], pv_polled = [], pv_before_timers = [], pv_before_queue = [], pv_after = []\<rparr>]"
  obtain w acts where "PollingExecutor_Run ?b ?d ?e (polling_start PollingOptions_init 3 4) = Some (w, acts)"
    "pe_ready_queue (lw_state w) = [6]"
    by (simp add: PollingExecutor_Run_def PollingExecutor_Run_loop.simps polling_start_def PollingExecutor_init_def
        PollingExecutor_iteration_def PollingExecutor_ProcessTimers_def PollingExecutor_ProcessReadyQueue_def
        issue_def skip_done_def Polling_defs Let_def)
  with polling_executor_fifo [where body = ?b and is_done = ?d and options = PollingOptions_init and efd = 3 and tfd = 4
      and envs = ?e and k = 0] show ?thesis by auto
qed

subsection \<open>Timers\<close>

text \<open>The timers a sequence of commands pushes, from the time it starts.\<close>

fun pushed :: "int \<Rightarrow> exec_cmd list \<Rightarrow> TimerEntry list" where
  "pushed t [] = []"
| "pushed t (DoScheduleAfter d h # cs) = \<lparr>ti_deadline = t + d, ti_handle = h\<rparr> # pushed t cs"
| "pushed t (Elapse n # cs) = pushed (t + int n) cs"
| "pushed t (_ # cs) = pushed t cs"

fun elapsed :: "exec_cmd list \<Rightarrow> int" where
  "elapsed [] = 0"
| "elapsed (Elapse n # cs) = int n + elapsed cs"
| "elapsed (_ # cs) = elapsed cs"

lemma fold_cmd_timers:
  "mset (pe_timer_heap (fold polling_cmd cs s)) = mset (pe_timer_heap s) + mset (pushed (pe_now s) cs) \<and>
   pe_now (fold polling_cmd cs s) = pe_now s + elapsed cs \<and>
   (sorted (map ti_deadline (pe_timer_heap s)) \<longrightarrow> sorted (map ti_deadline (pe_timer_heap (fold polling_cmd cs s))))"
proof (induction cs arbitrary: s)
  case (Cons c cs)
  show ?case
    using Cons.IH [of "polling_cmd c s"]
    by (cases c) (auto simp: Polling_defs Let_def timer_push_def sorted_insort_key)
qed simp

lemma pushed_append: "pushed t (cs @ ds) = pushed t cs @ pushed (t + elapsed cs) ds"
  by (induction t cs rule: pushed.induct) (simp_all add: add.assoc)

lemma elapsed_append: "elapsed (cs @ ds) = elapsed cs + elapsed ds"
  by (induction cs rule: elapsed.induct) simp_all

text \<open>What running items does to the timers: only their commands count.\<close>

lemma run_items_timers:
  "\<exists>cs. lw_cmds (run_items polling_cmd body skip src xs w) = lw_cmds w @ cs \<and>
     mset (pe_timer_heap (lw_state (run_items polling_cmd body skip src xs w))) =
       mset (pe_timer_heap (lw_state w)) + mset (pushed (pe_now (lw_state w)) cs) \<and>
     pe_now (lw_state (run_items polling_cmd body skip src xs w)) = pe_now (lw_state w) + elapsed cs \<and>
     (sorted (map ti_deadline (pe_timer_heap (lw_state w))) \<longrightarrow>
      sorted (map ti_deadline (pe_timer_heap (lw_state (run_items polling_cmd body skip src xs w)))))"
proof (induction xs arbitrary: w)
  case Nil
  then show ?case by (intro exI [of _ "[]"]) simp
next
  case (Cons x xs)
  let ?c = "if skip (lw_log w) x then [] else body (lw_log w) x"
  let ?w = "issue polling_cmd ?c (w\<lparr>lw_log := lw_log w @ [(src, x, \<not> skip (lw_log w) x)]\<rparr>)"
  have r: "run_items polling_cmd body skip src (x # xs) w = run_items polling_cmd body skip src xs ?w"
    by (simp add: issue_def)
  from Cons.IH [of ?w] obtain cs where cs:
    "lw_cmds (run_items polling_cmd body skip src xs ?w) = lw_cmds ?w @ cs"
    "mset (pe_timer_heap (lw_state (run_items polling_cmd body skip src xs ?w))) =
       mset (pe_timer_heap (lw_state ?w)) + mset (pushed (pe_now (lw_state ?w)) cs)"
    "pe_now (lw_state (run_items polling_cmd body skip src xs ?w)) = pe_now (lw_state ?w) + elapsed cs"
    "sorted (map ti_deadline (pe_timer_heap (lw_state ?w))) \<longrightarrow>
      sorted (map ti_deadline (pe_timer_heap (lw_state (run_items polling_cmd body skip src xs ?w))))"
    by blast
  note f = fold_cmd_timers [of ?c "lw_state w"]
  show ?case
    unfolding r by (rule exI [of _ "?c @ cs"]) (use cs f in \<open>auto simp: issue_def pushed_append elapsed_append\<close>)
qed

lemma pop_expired_sorted:
  "sorted (map ti_deadline heap) \<Longrightarrow>
   pop_expired now heap = (filter (\<lambda>e. ti_deadline e \<le> now) heap, filter (\<lambda>e. now < ti_deadline e) heap)"
proof (induction heap)
  case (Cons e heap)
  show ?case
  proof (cases "ti_deadline e \<le> now")
    case False
    with Cons.prems have "\<forall>x \<in> set heap. now < ti_deadline x" by auto
    then have "filter (\<lambda>e. ti_deadline e \<le> now) heap = []" "filter (\<lambda>e. now < ti_deadline e) heap = heap"
      by (auto simp: filter_empty_conv filter_id_conv)
    with False show ?thesis by simp
  qed (use Cons in auto)
qed simp

text \<open>
  Timers.  With the heap in order of deadlines, which every operation keeps,
  \<open>ProcessTimers\<close> resumes exactly the timers whose deadline is not after the current time (null
  and finished handles apart), in the order of their deadlines and each once; a timer whose
  deadline is in the future is never resumed and stays in the heap; and the heap afterwards
  holds those and the timers armed by the coroutines that were resumed, nothing else.
\<close>

theorem polling_timers_fire:
  fixes w :: "PollingExecutor loop_world" and body :: "run_log \<Rightarrow> work \<Rightarrow> exec_cmd list"
    and is_done :: "run_log \<Rightarrow> handle \<Rightarrow> bool"
  assumes "sorted (map ti_deadline (pe_timer_heap (lw_state w)))"
  defines "now \<equiv> pe_now (lw_state w)" and "w' \<equiv> PollingExecutor_ProcessTimers body is_done w"
  defines "due \<equiv> filter (\<lambda>e. ti_deadline e \<le> now) (pe_timer_heap (lw_state w))"
  shows "lw_log w' = lw_log w @
           map (\<lambda>e. (FromTimer, Coro (ti_handle e), True))
             (filter (\<lambda>e. ti_handle e \<noteq> null_handle \<and> \<not> is_done (lw_log w) (ti_handle e)) due) \<and>
         sorted (map ti_deadline due) \<and>
         (\<exists>cs. lw_cmds w' = lw_cmds w @ cs \<and>
            mset (pe_timer_heap (lw_state w')) =
              mset (filter (\<lambda>e. now < ti_deadline e) (pe_timer_heap (lw_state w))) + mset (pushed now cs)) \<and>
         sorted (map ti_deadline (pe_timer_heap (lw_state w')))"
proof -
  let ?rest = "filter (\<lambda>e. now < ti_deadline e) (pe_timer_heap (lw_state w))"
  let ?run = "filter (\<lambda>e. ti_handle e \<noteq> null_handle \<and> \<not> is_done (lw_log w) (ti_handle e)) due"
  let ?w = "w\<lparr>lw_state := (lw_state w)\<lparr>pe_timer_heap := ?rest\<rparr>\<rparr>"
  have w': "w' = run_items polling_cmd body (\<lambda>_ _. False) FromTimer (map (Coro \<circ> ti_handle) ?run) ?w"
    using pop_expired_sorted [OF assms(1), of now]
    by (simp add: w'_def PollingExecutor_ProcessTimers_def now_def due_def Let_def)
  have log: "lw_log (run_items polling_cmd body (\<lambda>_ _. False) FromTimer (map (Coro \<circ> ti_handle) es) v) =
      lw_log v @ map (\<lambda>e. (FromTimer, Coro (ti_handle e), True)) es" for es v
    by (induction es arbitrary: v) (simp_all add: issue_def)
  have "sorted (map ti_deadline ?rest)" "sorted (map ti_deadline due)"
    using assms(1) by (simp_all add: due_def sorted_filter)
  with run_items_timers [of body "\<lambda>_ _. False" FromTimer "map (Coro \<circ> ti_handle) ?run" ?w] log [of ?run ?w] show ?thesis
    unfolding w' by (auto simp: now_def)
qed

theorem polling_timers_fire_witness:
  "let w = \<lparr>lw_state = (PollingExecutor_init PollingOptions_init 3 4)\<lparr>pe_now := 20,
               pe_timer_heap := [\<lparr>ti_deadline = 10, ti_handle = 1\<rparr>, \<lparr>ti_deadline = 20, ti_handle = 2\<rparr>, \<lparr>ti_deadline = 30, ti_handle = 3\<rparr>]\<rparr>,
             lw_log = [], lw_cmds = []\<rparr>
   in lw_log (PollingExecutor_ProcessTimers (\<lambda>_ _. []) (\<lambda>_ _. False) w) =
        [(FromTimer, Coro 1, True), (FromTimer, Coro 2, True)]"
  using polling_timers_fire [of "\<lparr>lw_state = (PollingExecutor_init PollingOptions_init 3 4)\<lparr>pe_now := 20,
               pe_timer_heap := [\<lparr>ti_deadline = 10, ti_handle = 1\<rparr>, \<lparr>ti_deadline = 20, ti_handle = 2\<rparr>, \<lparr>ti_deadline = 30, ti_handle = 3\<rparr>]\<rparr>,
             lw_log = [], lw_cmds = []\<rparr>" "\<lambda>_ _. []" "\<lambda>_ _. False"]
  by simp

text \<open>The heap is in order at all times.\<close>

definition heap_sorted :: "PollingExecutor loop_world \<Rightarrow> bool" where
  "heap_sorted w \<longleftrightarrow> sorted (map ti_deadline (pe_timer_heap (lw_state w)))"

lemma heap_sorted_issue: "heap_sorted w \<Longrightarrow> heap_sorted (issue polling_cmd cs w)"
  using fold_cmd_timers [of cs "lw_state w"] by (simp add: heap_sorted_def issue_def)

lemma heap_sorted_run: "heap_sorted w \<Longrightarrow> heap_sorted (run_items polling_cmd body skip src xs w)"
  using run_items_timers [of body skip src xs w] by (auto simp: heap_sorted_def)

lemma heap_sorted_iteration: "heap_sorted w \<Longrightarrow> heap_sorted (PollingExecutor_iteration body is_done env w)"
proof -
  have q: "heap_sorted v \<Longrightarrow> heap_sorted (PollingExecutor_ProcessReadyQueue body is_done v)" for v
    unfolding PollingExecutor_ProcessReadyQueue_def Let_def
    by (intro heap_sorted_run) (simp add: heap_sorted_def polling_swap_def)
  have t: "heap_sorted v \<Longrightarrow> heap_sorted (PollingExecutor_ProcessTimers body is_done v)" for v
    unfolding PollingExecutor_ProcessTimers_def Let_def split_beta
    by (intro heap_sorted_run) (simp add: heap_sorted_def pop_expired_sorted sorted_filter)
  have u: "heap_sorted (v\<lparr>lw_state := (lw_state v)\<lparr>pe_event := 0\<rparr>\<rparr>) = heap_sorted v" for v
    by (simp add: heap_sorted_def)
  show "heap_sorted w \<Longrightarrow> heap_sorted (PollingExecutor_iteration body is_done env w)"
    unfolding PollingExecutor_iteration_def Let_def
    by (simp add: heap_sorted_issue u q t heap_sorted_run)
qed

subsection \<open>Stopping\<close>

text \<open>A stop requested in an iteration ends the loop after it.\<close>

lemma polling_stop_ends_run:
  assumes "pe_stop_requested (lw_state (PollingExecutor_iteration body is_done env w))"
    and "\<not> pe_stop_requested (lw_state w)"
  shows "\<exists>r. PollingExecutor_Run_loop body is_done (env # envs) w = Some r"
  using assms by (simp add: PollingExecutor_Run_loop.simps Let_def)

text \<open>A stop requested before \<open>Run\<close> has no effect: \<open>Run\<close> clears the request when it starts.\<close>

lemma polling_stop_before_run_is_lost:
  "PollingExecutor_Run body is_done envs (w\<lparr>lw_state := PollingExecutor_Stop (lw_state w)\<rparr>) =
   PollingExecutor_Run body is_done envs (w\<lparr>lw_state := PollingExecutor_WakeUp (lw_state w)\<rparr>)"
  by (simp add: PollingExecutor_Run_def PollingExecutor_Stop_def PollingExecutor_WakeUp_def)

end
