(* ===== verification/Iouring.thy ===== *)
theory Iouring
  imports Executor Errors Result
begin

text \<open>
  \<open>io/iouring_executor.hpp\<close> and \<open>io/iouring_executor.cpp\<close>: the executor over io_uring with its
  provided-buffer ring, timeouts and wake-up read; and the low-level awaitables of
  \<open>io/iouring_async_ops.hpp\<close>, which prepare one submission entry each.
\<close>

subsection \<open>Configuration and provided buffers\<close>

record IoUringConfig =
  ic_queue_depth :: uint32
  ic_sqpoll :: bool
  ic_provided_buffers :: bool
  ic_buffer_ring_size :: uint32
  ic_buffer_size :: uint32
  ic_buffer_group_id :: uint16

definition IoUringConfig_init :: IoUringConfig where
  "IoUringConfig_init =
    \<lparr>ic_queue_depth = 256, ic_sqpoll = False, ic_provided_buffers = False, ic_buffer_ring_size = 1024,
     ic_buffer_size = 4096, ic_buffer_group_id = 0\<rparr>"

text \<open>
  The buffers in the ring: offset into the allocated block and buffer id.  The offset
  \<open>i * config_.buffer_size\<close> is computed in 32-bit unsigned arithmetic.
\<close>

definition buffer_offset :: "IoUringConfig \<Rightarrow> uint16 \<Rightarrow> uint32" where
  "buffer_offset config i = ucast i * ic_buffer_size config"

text \<open>
  \<open>ring_ok\<close>, \<open>mem_ok\<close>: whether \<open>io_uring_setup_buf_ring\<close> and \<open>posix_memalign\<close> succeed.
  \<open>None\<close> for the ring: \<open>buf_ring_\<close> is null.
\<close>

definition IoUringExecutor_SetupBufferRing ::
  "bool \<Rightarrow> bool \<Rightarrow> IoUringConfig \<Rightarrow> (unit, error_code) Result \<times> (uint32 \<times> uint16) list option" where
  "IoUringExecutor_SetupBufferRing ring_ok mem_ok config =
    (if \<not> ring_ok then (Err (make_error_code IoUringInitFailed), None)
     else if \<not> mem_ok then (Err (make_error_code IoUringInitFailed), None)
     else (Ok (), Some (map (\<lambda>i. (buffer_offset config (word_of_nat i), word_of_nat i)) [0..<unat (ic_buffer_ring_size config)])))"

definition IoUringExecutor_ReturnBuffer ::
  "uint16 \<Rightarrow> uint16 \<Rightarrow> IoUringConfig \<Rightarrow> (uint32 \<times> uint16) list option \<Rightarrow> (uint32 \<times> uint16) list option" where
  "IoUringExecutor_ReturnBuffer bgid bid config ring =
    (case ring of
       None \<Rightarrow> None
     | Some bufs \<Rightarrow>
         if bgid \<noteq> ic_buffer_group_id config \<or> ucast bid \<ge> ic_buffer_ring_size config then Some bufs
         else Some (bufs @ [(buffer_offset config bid, bid)]))"

text \<open>
  The buffers do not overlap and lie inside the block as long as the whole block is at most
  \<open>2 ^ 32\<close> bytes.
\<close>

lemma buffers_disjoint:
  assumes "unat (ic_buffer_ring_size c) * unat (ic_buffer_size c) \<le> 2 ^ 32" and "ic_buffer_size c \<noteq> 0"
    and "unat i < unat (ic_buffer_ring_size c)"
  shows "unat (buffer_offset c i) = unat i * unat (ic_buffer_size c)"
    and "unat (buffer_offset c i) + unat (ic_buffer_size c) \<le> unat (ic_buffer_ring_size c) * unat (ic_buffer_size c)"
proof -
  have u: "unat (ucast i :: uint32) = unat i"
    using unsigned_less [of i, where ?'a = nat] by (simp add: unsigned_ucast_eq take_bit_nat_eq_self)
  have le: "unat i * unat (ic_buffer_size c) + unat (ic_buffer_size c) \<le> unat (ic_buffer_ring_size c) * unat (ic_buffer_size c)"
    using mult_le_mono1 [of "Suc (unat i)" "unat (ic_buffer_ring_size c)" "unat (ic_buffer_size c)"] assms(3) by simp
  have "0 < unat (ic_buffer_size c)" using assms(2) by (simp add: unat_gt_0)
  then have "unat i * unat (ic_buffer_size c) < 2 ^ 32" using le assms(1) by simp
  then show off: "unat (buffer_offset c i) = unat i * unat (ic_buffer_size c)"
    by (simp add: buffer_offset_def unat_word_ariths u)
  show "unat (buffer_offset c i) + unat (ic_buffer_size c) \<le> unat (ic_buffer_ring_size c) * unat (ic_buffer_size c)"
    using le off by simp
qed

text \<open>Beyond that the 32-bit product wraps: two buffers share their memory.\<close>

lemma buffer_offset_wraps:
  "buffer_offset (IoUringConfig_init\<lparr>ic_buffer_ring_size := 32768, ic_buffer_size := 262144\<rparr>) 16384 =
   buffer_offset (IoUringConfig_init\<lparr>ic_buffer_ring_size := 32768, ic_buffer_size := 262144\<rparr>) 0"
  by (simp add: buffer_offset_def IoUringConfig_init_def)

subsection \<open>The executor\<close>

record OpContext =
  oc_handle :: handle
  oc_result :: int
  oc_cqe_flags :: uint32

text \<open>
  \<open>iu_timeouts\<close>: the set \<open>pending_timeouts_\<close> with the coroutine in each context; contexts of
  timeouts are numbered in the order of allocation, \<open>iu_deleted\<close> lists the deleted ones.
  \<open>iu_io\<close>: the contexts inside awaitables, by address.
\<close>

record IoUringExecutor =
  iu_config :: IoUringConfig
  iu_ring :: io_uring
  iu_eventfd :: int
  iu_running :: bool
  iu_stop_requested :: bool
  iu_ready_queue :: "handle list"
  iu_callback_queue :: "nat list"
  iu_timer_queue :: "(int \<times> handle) list"
  iu_timeouts :: "(nat \<times> handle) list"
  iu_next_ctx :: nat
  iu_deleted :: "nat list"
  iu_io :: "nat \<Rightarrow> OpContext"
  iu_event :: nat

definition IoUringExecutor_SubmitWakeupRead :: "IoUringExecutor \<Rightarrow> IoUringExecutor" where
  "IoUringExecutor_SubmitWakeupRead s =
    (case ring_prepare (PrepReadEventfd (iu_eventfd s)) WakeupCtx (iu_ring s) of
       None \<Rightarrow> s
     | Some r \<Rightarrow> s\<lparr>iu_ring := r\<rparr>)"

text \<open>The constructor; the buffer ring is kept apart (above), a failure of it only clears the flag.\<close>

definition IoUringExecutor_init :: "bool \<Rightarrow> int \<Rightarrow> IoUringConfig \<Rightarrow> IoUringExecutor" where
  "IoUringExecutor_init buf_ok efd config =
    (let config = (if ic_provided_buffers config \<and> \<not> buf_ok then config\<lparr>ic_provided_buffers := False\<rparr> else config);
         s = \<lparr>iu_config = config,
              iu_ring = \<lparr>ring_entries = unat (ic_queue_depth config), ring_sq = [], ring_inflight = [], ring_cq = []\<rparr>,
              iu_eventfd = efd, iu_running = False, iu_stop_requested = False, iu_ready_queue = [],
              iu_callback_queue = [], iu_timer_queue = [], iu_timeouts = [], iu_next_ctx = 0, iu_deleted = [],
              iu_io = (\<lambda>_. \<lparr>oc_handle = null_handle, oc_result = 0, oc_cqe_flags = 0\<rparr>), iu_event = 0\<rparr>;
         s = IoUringExecutor_SubmitWakeupRead s
     in s\<lparr>iu_ring := ring_submit (iu_ring s)\<rparr>)"

text \<open>
  \<open>Create\<close>: the results of the (at most two) ring initialisations and of \<open>eventfd\<close> come in;
  the boolean says whether the ring is torn down again.
\<close>

definition EPERM :: int where "EPERM = 1"
definition EINTR :: int where "EINTR = 4"
definition ENXIO :: int where "ENXIO = 6"
definition EAGAIN :: int where "EAGAIN = 11"

definition IoUringExecutor_Create ::
  "IoUringConfig \<Rightarrow> int \<Rightarrow> int \<Rightarrow> int \<Rightarrow> bool \<Rightarrow> (IoUringExecutor, error_code) Result \<times> bool" where
  "IoUringExecutor_Create config ret1 ret2 efd buf_ok =
    (let ret = (if ret1 < 0 \<and> ic_sqpoll config \<and> ret1 = - EPERM then ret2 else ret1)
     in if ret < 0 then (Err (make_error_code IoUringInitFailed), False)
        else if efd < 0 then (Err (make_error_code EventfdFailed), True)
        else (Ok (IoUringExecutor_init buf_ok efd config), False))"

subsection \<open>Scheduling\<close>

definition iouring_wake :: "IoUringExecutor \<Rightarrow> IoUringExecutor" where
  "iouring_wake s = s\<lparr>iu_event := Suc (iu_event s)\<rparr>"

definition IoUringExecutor_Schedule :: "handle \<Rightarrow> IoUringExecutor \<Rightarrow> IoUringExecutor" where
  "IoUringExecutor_Schedule h s = iouring_wake (s\<lparr>iu_ready_queue := iu_ready_queue s @ [h]\<rparr>)"

definition IoUringExecutor_ScheduleAfter :: "int \<Rightarrow> handle \<Rightarrow> IoUringExecutor \<Rightarrow> IoUringExecutor" where
  "IoUringExecutor_ScheduleAfter delay h s = iouring_wake (s\<lparr>iu_timer_queue := iu_timer_queue s @ [(delay, h)]\<rparr>)"

definition IoUringExecutor_Post :: "nat \<Rightarrow> IoUringExecutor \<Rightarrow> IoUringExecutor" where
  "IoUringExecutor_Post callback s = iouring_wake (s\<lparr>iu_callback_queue := iu_callback_queue s @ [callback]\<rparr>)"

definition IoUringExecutor_Stop :: "IoUringExecutor \<Rightarrow> IoUringExecutor" where
  "IoUringExecutor_Stop s = iouring_wake (s\<lparr>iu_stop_requested := True\<rparr>)"

definition IoUringExecutor_IsRunning :: "IoUringExecutor \<Rightarrow> bool" where
  "IoUringExecutor_IsRunning s = iu_running s"

subsection \<open>Awaitables\<close>

text \<open>
  \<open>await_suspend\<close> of the awaitables: without an io_uring executor on this thread the result is
  \<open>-ENXIO\<close>, without a free entry \<open>-EAGAIN\<close>, and the coroutine goes on; otherwise the entry is
  prepared with the awaitable's context and, unless \<open>submit\<close> is false, submitted.
\<close>

definition io_await_suspend ::
  "bool \<Rightarrow> sqe_op \<Rightarrow> nat \<Rightarrow> handle \<Rightarrow> IoUringExecutor option \<Rightarrow> OpContext \<Rightarrow>
   bool \<times> OpContext \<times> IoUringExecutor option" where
  "io_await_suspend submit op a h executor ctx =
    (case executor of
       None \<Rightarrow> (False, ctx\<lparr>oc_result := - ENXIO\<rparr>, None)
     | Some x \<Rightarrow>
         (let ctx = ctx\<lparr>oc_handle := h\<rparr>
          in case ring_prepare op (IoCtx a) (iu_ring x) of
               None \<Rightarrow> (False, ctx\<lparr>oc_result := - EAGAIN\<rparr>, Some x)
             | Some r \<Rightarrow> (True, ctx, Some (x\<lparr>iu_ring := (if submit then ring_submit r else r)\<rparr>))))"

definition io_ctx_init :: OpContext where
  "io_ctx_init = \<lparr>oc_handle = null_handle, oc_result = 0, oc_cqe_flags = 0\<rparr>"

definition io_await_resume :: "OpContext \<Rightarrow> int" where
  "io_await_resume ctx = oc_result ctx"

definition IoUringRecvProvidedAwaitable_await_resume :: "OpContext \<Rightarrow> int \<times> uint32" where
  "IoUringRecvProvidedAwaitable_await_resume ctx = (oc_result ctx, oc_cqe_flags ctx)"

text \<open>Which operations are not submitted at once.\<close>

fun submits_now :: "sqe_op \<Rightarrow> bool" where
  "submits_now (PrepRecvSelect _ _ _) = False"
| "submits_now _ = True"

fun iouring_cmd :: "exec_cmd \<Rightarrow> IoUringExecutor \<Rightarrow> IoUringExecutor" where
  "iouring_cmd (DoSchedule h) s = IoUringExecutor_Schedule h s"
| "iouring_cmd (DoScheduleAfter d h) s = IoUringExecutor_ScheduleAfter d h s"
| "iouring_cmd (DoPost c) s = IoUringExecutor_Post c s"
| "iouring_cmd DoStop s = IoUringExecutor_Stop s"
| "iouring_cmd (DoIo op a h) s =
     (let (suspended, ctx, x) = io_await_suspend (submits_now op) op a h (Some s) io_ctx_init
      in (the x)\<lparr>iu_io := (iu_io s)(a := ctx)\<rparr>)"
| "iouring_cmd (Elapse t) s = s"

definition iouring_swap :: "IoUringExecutor \<Rightarrow> IoUringExecutor" where
  "iouring_swap s = s\<lparr>iu_ready_queue := [], iu_callback_queue := [], iu_timer_queue := []\<rparr>"

lemmas Iouring_defs [op_defs] =
  iouring_wake_def IoUringExecutor_Schedule_def IoUringExecutor_ScheduleAfter_def IoUringExecutor_Post_def
  IoUringExecutor_Stop_def iouring_swap_def

lemma io_cmd_queues:
  "iu_ready_queue (iouring_cmd (DoIo op a h) s) = iu_ready_queue s"
  "iu_callback_queue (iouring_cmd (DoIo op a h) s) = iu_callback_queue s"
  by (simp_all add: io_await_suspend_def Let_def split: option.splits)

interpretation iouring: event_loop iouring_cmd iu_ready_queue iu_callback_queue iouring_swap
proof unfold_locales
  fix c s
  show "iu_ready_queue (iouring_cmd c s) = iu_ready_queue s @ scheduled_by c"
    using io_cmd_queues(1) by (cases c) (simp_all add: Iouring_defs del: iouring_cmd.simps(5))
  show "iu_callback_queue (iouring_cmd c s) = iu_callback_queue s @ posted_by c"
    using io_cmd_queues(2) by (cases c) (simp_all add: Iouring_defs del: iouring_cmd.simps(5))
qed (simp_all add: Iouring_defs)

subsection \<open>The event loop\<close>

definition iouring_delete :: "nat \<Rightarrow> IoUringExecutor \<Rightarrow> IoUringExecutor" where
  "iouring_delete i s = s\<lparr>iu_deleted := iu_deleted s @ [i]\<rparr>"

definition set_state :: "('s \<Rightarrow> 's) \<Rightarrow> 's loop_world \<Rightarrow> 's loop_world" where
  "set_state f w = w\<lparr>lw_state := f (lw_state w)\<rparr>"

lemma set_state_simps [simp]:
  "lw_state (set_state f w) = f (lw_state w)" "lw_log (set_state f w) = lw_log w" "lw_cmds (set_state f w) = lw_cmds w"
  by (simp_all add: set_state_def)

text \<open>The context of a pending timeout.\<close>

definition timeout_handle :: "nat \<Rightarrow> IoUringExecutor \<Rightarrow> handle" where
  "timeout_handle i s = (case map_of (iu_timeouts s) i of Some h \<Rightarrow> h | None \<Rightarrow> null_handle)"

text \<open>One completion entry.\<close>

fun iouring_completion ::
  "(run_log \<Rightarrow> work \<Rightarrow> exec_cmd list) \<Rightarrow> ctx_ref \<times> int \<times> uint32 \<Rightarrow>
   IoUringExecutor loop_world \<Rightarrow> IoUringExecutor loop_world" where
  "iouring_completion body (WakeupCtx, res, flags) w = set_state IoUringExecutor_SubmitWakeupRead w"
| "iouring_completion body (TimeoutCtx i, res, flags) w =
     (let h = timeout_handle i (lw_state w);
          w = set_state (\<lambda>s. s\<lparr>iu_timeouts := filter (\<lambda>t. fst t \<noteq> i) (iu_timeouts s)\<rparr>) w;
          w = run_items iouring_cmd body skip_null FromTimer [Coro h] w
      in set_state (iouring_delete i) w)"
| "iouring_completion body (IoCtx a, res, flags) w =
     (let w = set_state (\<lambda>s. s\<lparr>iu_io := (iu_io s)(a := (iu_io s a)\<lparr>oc_result := res, oc_cqe_flags := flags\<rparr>)\<rparr>) w
      in run_items iouring_cmd body skip_null FromPoll [Coro (oc_handle (iu_io (lw_state w) a))] w)"

definition IoUringExecutor_ProcessCompletions ::
  "(run_log \<Rightarrow> work \<Rightarrow> exec_cmd list) \<Rightarrow> IoUringExecutor loop_world \<Rightarrow> IoUringExecutor loop_world" where
  "IoUringExecutor_ProcessCompletions body w =
    (let cqes = ring_cq (iu_ring (lw_state w)); count = length cqes;
         w = fold (iouring_completion body) cqes w
     in set_state (\<lambda>s. s\<lparr>iu_ring := (iu_ring s)\<lparr>ring_cq := drop count (ring_cq (iu_ring s))\<rparr>\<rparr>) w)"

text \<open>\<open>__kernel_timespec\<close> of a delay in milliseconds; C++ division truncates.\<close>

definition timespec_of :: "int \<Rightarrow> int \<times> int" where
  "timespec_of delay =
    (if delay \<ge> 0 then (delay div 1000, delay mod 1000 * 1000000)
     else (- ((- delay) div 1000), - ((- delay) mod 1000) * 1000000))"

lemma timespec_exact:
  assumes "0 \<le> delay"
  shows "let (sec, nsec) = timespec_of delay in 0 \<le> sec \<and> 0 \<le> nsec \<and> nsec < 1000000000 \<and>
     sec * 1000000000 + nsec = delay * 1000000"
proof -
  have "delay div 1000 * 1000000000 + delay mod 1000 * 1000000 = delay * 1000000"
    using div_mult_mod_eq [of delay 1000] by linarith
  moreover have "0 \<le> delay div 1000" "0 \<le> delay mod 1000" "delay mod 1000 < 1000" using assms by simp_all
  ultimately show ?thesis using assms unfolding timespec_of_def by simp
qed

definition iouring_create_timer ::
  "(run_log \<Rightarrow> work \<Rightarrow> exec_cmd list) \<Rightarrow> int \<times> handle \<Rightarrow>
   IoUringExecutor loop_world \<Rightarrow> IoUringExecutor loop_world" where
  "iouring_create_timer body req w =
    (let i = iu_next_ctx (lw_state w); w = set_state (\<lambda>s. s\<lparr>iu_next_ctx := Suc i\<rparr>) w;
         (sec, nsec) = timespec_of (fst req)
     in case ring_prepare (PrepTimeout sec nsec) (TimeoutCtx i) (iu_ring (lw_state w)) of
          None \<Rightarrow> set_state (iouring_delete i) (run_items iouring_cmd body skip_null FromTimer [Coro (snd req)] w)
        | Some r \<Rightarrow> set_state (\<lambda>s. s\<lparr>iu_ring := r, iu_timeouts := iu_timeouts s @ [(i, snd req)]\<rparr>) w)"

definition IoUringExecutor_ProcessReadyQueue ::
  "(run_log \<Rightarrow> work \<Rightarrow> exec_cmd list) \<Rightarrow> IoUringExecutor loop_world \<Rightarrow> IoUringExecutor loop_world" where
  "IoUringExecutor_ProcessReadyQueue body w =
    (let ready = iu_ready_queue (lw_state w); callbacks = iu_callback_queue (lw_state w);
         timers = iu_timer_queue (lw_state w);
         w = set_state iouring_swap w;
         w = run_items iouring_cmd body skip_null FromQueue (map Coro ready) w;
         w = run_items iouring_cmd body skip_null FromQueue (map Call callbacks) w
     in fold (iouring_create_timer body) timers w)"

text \<open>
  Around one iteration: calls from other threads, the completions the kernel posts while the
  loop waits, and the result of the wait (0 or an error).
\<close>

record ring_env =
  re_external :: "exec_cmd list"
  re_completions :: "((sqe_op \<times> ctx_ref) \<times> int \<times> uint32) list"
  re_wait_result :: int

definition iouring_wait :: "ring_env \<Rightarrow> IoUringExecutor loop_world \<Rightarrow> IoUringExecutor loop_world" where
  "iouring_wait env w =
    (let w = set_state (\<lambda>s. s\<lparr>iu_ring := ring_submit (iu_ring s)\<rparr>) (issue iouring_cmd (re_external env) w)
     in set_state (\<lambda>s. s\<lparr>iu_ring := fold (\<lambda>(e, res, flags). ring_complete e res flags) (re_completions env) (iu_ring s)\<rparr>) w)"

text \<open>\<open>RunOnce\<close> passes over \<open>ProcessCompletions\<close> when there is no entry.\<close>

definition IoUringExecutor_RunOnce ::
  "(run_log \<Rightarrow> work \<Rightarrow> exec_cmd list) \<Rightarrow> ring_env \<Rightarrow> IoUringExecutor loop_world \<Rightarrow> IoUringExecutor loop_world" where
  "IoUringExecutor_RunOnce body env w =
    (let w = iouring_wait env w;
         w = (if length (ring_cq (iu_ring (lw_state w))) > 0 then IoUringExecutor_ProcessCompletions body w else w)
     in IoUringExecutor_ProcessReadyQueue body w)"

fun IoUringExecutor_Run_loop ::
  "(run_log \<Rightarrow> work \<Rightarrow> exec_cmd list) \<Rightarrow> ring_env list \<Rightarrow> IoUringExecutor loop_world \<Rightarrow>
   IoUringExecutor loop_world option" where
  "IoUringExecutor_Run_loop body envs w =
     (if iu_stop_requested (lw_state w) then Some (set_state (\<lambda>s. s\<lparr>iu_running := False\<rparr>) w)
      else (case envs of
              [] \<Rightarrow> None
            | env # envs' \<Rightarrow>
                (let w = iouring_wait env w; ret = re_wait_result env
                 in if ret < 0
                    then (if ret = - EINTR then IoUringExecutor_Run_loop body envs' w
                          else Some (set_state (\<lambda>s. s\<lparr>iu_running := False\<rparr>) w))
                    else IoUringExecutor_Run_loop body envs'
                           (IoUringExecutor_ProcessReadyQueue body (IoUringExecutor_ProcessCompletions body w)))))"

declare IoUringExecutor_Run_loop.simps [simp del]

definition IoUringExecutor_Run ::
  "(run_log \<Rightarrow> work \<Rightarrow> exec_cmd list) \<Rightarrow> ring_env list \<Rightarrow> IoUringExecutor loop_world \<Rightarrow>
   IoUringExecutor loop_world option" where
  "IoUringExecutor_Run body envs w =
    IoUringExecutor_Run_loop body envs (set_state (\<lambda>s. s\<lparr>iu_running := True, iu_stop_requested := False\<rparr>) w)"

text \<open>The destructor: timeouts that completed, then those still pending; the ids deleted.\<close>

fun completed_timeout :: "ctx_ref \<times> int \<times> uint32 \<Rightarrow> nat list" where
  "completed_timeout (TimeoutCtx i, _, _) = [i]"
| "completed_timeout _ = []"

definition IoUringExecutor_destroy :: "IoUringExecutor \<Rightarrow> nat list" where
  "IoUringExecutor_destroy s =
    (let drained = concat (map completed_timeout (ring_cq (iu_ring s)));
         pending = filter (\<lambda>t. fst t \<notin> set drained) (iu_timeouts s)
     in iu_deleted s @ drained @ map fst pending)"

subsection \<open>Queues\<close>

abbreviation iouring_ok :: "IoUringExecutor loop_world \<Rightarrow> bool" where
  "iouring_ok \<equiv> fifo_ok iu_ready_queue iu_callback_queue [] []"

lemma iouring_ok_state:
  "iu_ready_queue (f (lw_state w)) = iu_ready_queue (lw_state w) \<Longrightarrow>
   iu_callback_queue (f (lw_state w)) = iu_callback_queue (lw_state w) \<Longrightarrow> iouring_ok (set_state f w) = iouring_ok w"
  by (simp add: fifo_ok_def)

lemma SubmitWakeupRead_queues [simp]:
  "iu_ready_queue (IoUringExecutor_SubmitWakeupRead s) = iu_ready_queue s"
  "iu_callback_queue (IoUringExecutor_SubmitWakeupRead s) = iu_callback_queue s"
  by (simp_all add: IoUringExecutor_SubmitWakeupRead_def split: option.splits)

lemma completion_ok: "iouring_ok w \<Longrightarrow> iouring_ok (iouring_completion body c w)"
  by (induction body c w rule: iouring_completion.induct)
    (auto simp: iouring_ok_state iouring_delete_def Let_def simp del: run_items.simps intro!: iouring.run_other_fifo)

lemma fold_completion_ok: "iouring_ok w \<Longrightarrow> iouring_ok (fold (iouring_completion body) cs w)"
  by (induction cs arbitrary: w) (simp_all add: completion_ok)

lemma iouring_timer_ok: "iouring_ok w \<Longrightarrow> iouring_ok (iouring_create_timer body r w)"
  by (auto simp: iouring_create_timer_def iouring_ok_state iouring_delete_def Let_def simp del: run_items.simps
      intro!: iouring.run_other_fifo split: option.splits prod.splits)

lemma iouring_timers_ok: "iouring_ok w \<Longrightarrow> iouring_ok (fold (iouring_create_timer body) rs w)"
  by (induction rs arbitrary: w) (simp_all add: iouring_timer_ok)

lemma iouring_round_ok: "iouring_ok w \<Longrightarrow> iouring_ok (IoUringExecutor_ProcessReadyQueue body w)"
proof -
  assume "iouring_ok w"
  from iouring_timers_ok [OF iouring.round_fifo [OF this, of body skip_null]] show ?thesis
    by (simp add: IoUringExecutor_ProcessReadyQueue_def iouring.round_def set_state_def Let_def)
qed

lemma iouring_completions_ok: "iouring_ok w \<Longrightarrow> iouring_ok (IoUringExecutor_ProcessCompletions body w)"
  by (simp add: IoUringExecutor_ProcessCompletions_def Let_def iouring_ok_state fold_completion_ok)

lemma iouring_wait_ok: "iouring_ok w \<Longrightarrow> iouring_ok (iouring_wait env w)"
  by (simp add: iouring_wait_def Let_def iouring_ok_state iouring.issue_fifo)

subsection \<open>Timeouts and wake-ups\<close>

fun timeout_of :: "ctx_ref \<Rightarrow> nat multiset" where
  "timeout_of (TimeoutCtx i) = {#i#}"
| "timeout_of _ = {#}"

definition timeout_ids :: "ctx_ref multiset \<Rightarrow> nat multiset" where
  "timeout_ids M = \<Sum>\<^sub># (image_mset timeout_of M)"

lemma timeout_ids_simps [simp]:
  "timeout_ids {#} = {#}" "timeout_ids (add_mset c M) = timeout_of c + timeout_ids M"
  "timeout_ids (M + N) = timeout_ids M + timeout_ids N"
  by (simp_all add: timeout_ids_def)

text \<open>What the bookkeeping depends on, with \<open>cqes\<close> the completions still to be processed.\<close>

definition ring_view ::
  "(ctx_ref \<times> int \<times> uint32) list \<Rightarrow> IoUringExecutor \<Rightarrow>
   nat multiset \<times> nat \<times> (nat \<times> handle) list \<times> nat list \<times> nat \<times> (ctx_ref \<times> int \<times> uint32) list" where
  "ring_view cqes s =
    (timeout_ids (ring_refs (iu_ring s) cqes), count (ring_refs (iu_ring s) cqes) WakeupCtx,
     iu_timeouts s, iu_deleted s, iu_next_ctx s, ring_cq (iu_ring s))"

lemma cmd_view [simp]: "ring_view cqes (iouring_cmd c s) = ring_view cqes s"
proof (cases c)
  case (DoIo op a h)
  show ?thesis
  proof (cases "ring_prepare op (IoCtx a) (iu_ring s)")
    case None
    then show ?thesis by (simp add: DoIo io_await_suspend_def ring_view_def Let_def)
  next
    case (Some r)
    from ring_refs_prepare [OF Some, of cqes] show ?thesis
      by (simp add: DoIo io_await_suspend_def ring_view_def Let_def Some)
  qed
qed (simp_all add: Iouring_defs ring_view_def)

lemma fold_view [simp]: "ring_view cqes (fold iouring_cmd cs s) = ring_view cqes s"
  by (induction cs arbitrary: s) simp_all

lemma run_view [simp]: "ring_view cqes (lw_state (run_items iouring_cmd body skip src xs w)) = ring_view cqes (lw_state w)"
  by (induction xs arbitrary: w) (simp_all add: issue_def)

definition acct :: "(ctx_ref \<times> int \<times> uint32) list \<Rightarrow> IoUringExecutor \<Rightarrow> bool" where
  "acct cqes s \<longleftrightarrow>
    timeout_ids (ring_refs (iu_ring s) cqes) = mset (map fst (iu_timeouts s)) \<and>
    mset (map fst (iu_timeouts s)) + mset (iu_deleted s) = mset [0..<iu_next_ctx s] \<and>
    count (ring_refs (iu_ring s) cqes) WakeupCtx \<le> 1"

lemma acct_view: "ring_view cqes s = ring_view cqes s' \<Longrightarrow> acct cqes s = acct cqes s'"
  by (simp add: ring_view_def acct_def)

lemma acct_run [simp]: "acct cqes (lw_state (run_items iouring_cmd body skip src xs w)) = acct cqes (lw_state w)"
  by (rule acct_view) simp

lemma acct_distinct: "acct cqes s \<Longrightarrow> distinct (map fst (iu_timeouts s))"
proof -
  assume "acct cqes s"
  then have "mset (map fst (iu_timeouts s) @ iu_deleted s) = mset [0..<iu_next_ctx s]" by (simp add: acct_def)
  then have "distinct (map fst (iu_timeouts s) @ iu_deleted s)" by (metis distinct_upt mset_eq_imp_distinct_iff)
  then show ?thesis by simp
qed

lemma filter_out_one:
  "distinct (map fst ts) \<Longrightarrow> i \<in> set (map fst ts) \<Longrightarrow>
   mset (map fst (filter (\<lambda>t. fst t \<noteq> i) ts)) + {#i#} = mset (map fst ts)"
proof (induction ts)
  case (Cons t ts)
  show ?case
  proof (cases "fst t = i")
    case True
    with Cons.prems(1) have "i \<notin> fst ` set ts" by auto
    then have "filter (\<lambda>t. fst t \<noteq> i) ts = ts" by (metis (mono_tags, lifting) filter_True image_eqI)
    with True show ?thesis by simp
  next
    case False
    with Cons show ?thesis by auto
  qed
qed simp

lemma SubmitWakeupRead_view:
  "iu_timeouts (IoUringExecutor_SubmitWakeupRead s) = iu_timeouts s"
  "iu_deleted (IoUringExecutor_SubmitWakeupRead s) = iu_deleted s"
  "iu_next_ctx (IoUringExecutor_SubmitWakeupRead s) = iu_next_ctx s"
  "ring_cq (iu_ring (IoUringExecutor_SubmitWakeupRead s)) = ring_cq (iu_ring s)"
  "timeout_ids (ring_refs (iu_ring (IoUringExecutor_SubmitWakeupRead s)) cqes) = timeout_ids (ring_refs (iu_ring s) cqes)"
  "count (ring_refs (iu_ring (IoUringExecutor_SubmitWakeupRead s)) cqes) WakeupCtx \<le>
     Suc (count (ring_refs (iu_ring s) cqes) WakeupCtx)"
  using ring_refs_prepare [of "PrepReadEventfd (iu_eventfd s)" WakeupCtx "iu_ring s" _ cqes]
  by (auto simp: IoUringExecutor_SubmitWakeupRead_def split: option.splits)

lemma ring_refs_Cons: "ring_refs r (c # cqes) = add_mset (fst c) (ring_refs r cqes)"
  by (simp add: ring_refs_def)

text \<open>Processing one completion.\<close>

lemma completion_acct:
  assumes "acct (c # cqes) (lw_state w)"
  shows "acct cqes (lw_state (iouring_completion body c w)) \<and>
    ring_cq (iu_ring (lw_state (iouring_completion body c w))) = ring_cq (iu_ring (lw_state w))"
proof -
  obtain k res fl where c: "c = (k, res, fl)" by (cases c)
  show ?thesis
  proof (cases k)
    case WakeupCtx
    then show ?thesis
      using assms SubmitWakeupRead_view(1-5) [where s = "lw_state w"] SubmitWakeupRead_view(6) [of "lw_state w" cqes] by (simp add: c acct_def ring_refs_Cons)
  next
    case (IoCtx a)
    let ?f = "\<lambda>s. s\<lparr>iu_io := (iu_io s)(a := (iu_io s a)\<lparr>oc_result := res, oc_cqe_flags := fl\<rparr>)\<rparr>"
    have v: "ring_view cqes (lw_state (iouring_completion body c w)) = ring_view cqes (?f (lw_state w))"
      by (simp add: c IoCtx Let_def del: run_items.simps)
    moreover have "acct cqes (?f (lw_state w))" using assms by (simp add: c IoCtx acct_def ring_refs_Cons)
    ultimately show ?thesis using acct_view [OF v] by (simp add: ring_view_def)
  next
    case (TimeoutCtx i)
    let ?f = "\<lambda>s. s\<lparr>iu_timeouts := filter (\<lambda>t. fst t \<noteq> i) (iu_timeouts s)\<rparr>" and ?s = "lw_state w"
    let ?w = "run_items iouring_cmd body skip_null FromTimer [Coro (timeout_handle i ?s)] (set_state ?f w)"
    have r: "iouring_completion body c w = set_state (iouring_delete i) ?w"
      by (simp add: c TimeoutCtx Let_def del: run_items.simps)
    have "ring_view cqes (lw_state ?w) = ring_view cqes (?f ?s)" by (simp del: run_items.simps)
    then have v: "timeout_ids (ring_refs (iu_ring (lw_state ?w)) cqes) = timeout_ids (ring_refs (iu_ring ?s) cqes)"
      "count (ring_refs (iu_ring (lw_state ?w)) cqes) WakeupCtx = count (ring_refs (iu_ring ?s) cqes) WakeupCtx"
      "iu_timeouts (lw_state ?w) = filter (\<lambda>t. fst t \<noteq> i) (iu_timeouts ?s)"
      "iu_deleted (lw_state ?w) = iu_deleted ?s" "iu_next_ctx (lw_state ?w) = iu_next_ctx ?s"
      "ring_cq (iu_ring (lw_state ?w)) = ring_cq (iu_ring ?s)"
      unfolding ring_view_def by simp_all
    have a: "add_mset i (timeout_ids (ring_refs (iu_ring ?s) cqes)) = mset (map fst (iu_timeouts ?s))"
      "mset (map fst (iu_timeouts ?s)) + mset (iu_deleted ?s) = mset [0..<iu_next_ctx ?s]"
      "count (ring_refs (iu_ring ?s) cqes) WakeupCtx \<le> 1"
      using assms by (simp_all add: c TimeoutCtx acct_def ring_refs_Cons)
    have "i \<in> set (map fst (iu_timeouts ?s))" using a(1) by (metis set_mset_mset union_single_eq_member)
    from filter_out_one [OF acct_distinct [OF assms] this]
    have f: "mset (map fst (iu_timeouts ?s)) = add_mset i (mset (map fst (filter (\<lambda>t. fst t \<noteq> i) (iu_timeouts ?s))))" by simp
    show ?thesis
      unfolding r acct_def set_state_simps iouring_delete_def using v a f by simp
  qed
qed

lemma fold_completion_acct:
  "acct (cs @ cqes) (lw_state w) \<Longrightarrow>
   acct cqes (lw_state (fold (iouring_completion body) cs w)) \<and>
   ring_cq (iu_ring (lw_state (fold (iouring_completion body) cs w))) = ring_cq (iu_ring (lw_state w))"
proof (induction cs arbitrary: w)
  case (Cons c cs)
  from completion_acct [of c "cs @ cqes" w body] Cons show ?case by simp
qed simp

definition iouring_acct :: "IoUringExecutor \<Rightarrow> bool" where
  "iouring_acct s \<longleftrightarrow> acct (ring_cq (iu_ring s)) s"

lemma completions_acct:
  assumes "iouring_acct (lw_state w)"
  shows "iouring_acct (lw_state (IoUringExecutor_ProcessCompletions body w))"
proof -
  let ?cs = "ring_cq (iu_ring (lw_state w))" and ?w = "fold (iouring_completion body) (ring_cq (iu_ring (lw_state w))) w"
  have "acct (?cs @ []) (lw_state w)" using assms by (simp add: iouring_acct_def)
  from fold_completion_acct [OF this, of body] have "acct [] (lw_state ?w)" "ring_cq (iu_ring (lw_state ?w)) = ?cs" by simp_all
  then show ?thesis
    by (simp add: IoUringExecutor_ProcessCompletions_def iouring_acct_def acct_def ring_refs_def Let_def)
qed

lemma create_timer_acct:
  assumes "acct cqes (lw_state w)"
  shows "acct cqes (lw_state (iouring_create_timer body req w)) \<and>
    ring_cq (iu_ring (lw_state (iouring_create_timer body req w))) = ring_cq (iu_ring (lw_state w))"
proof -
  let ?s = "lw_state w" and ?i = "iu_next_ctx (lw_state w)"
  let ?w = "set_state (\<lambda>s. s\<lparr>iu_next_ctx := Suc ?i\<rparr>) w"
  obtain sec nsec where t: "timespec_of (fst req) = (sec, nsec)" by (cases "timespec_of (fst req)")
  show ?thesis
  proof (cases "ring_prepare (PrepTimeout sec nsec) (TimeoutCtx ?i) (iu_ring ?s)")
    case None
    let ?v = "run_items iouring_cmd body skip_null FromTimer [Coro (snd req)] ?w"
    have r: "iouring_create_timer body req w = set_state (iouring_delete ?i) ?v"
      using None by (simp add: iouring_create_timer_def t Let_def del: run_items.simps)
    have "ring_view cqes (lw_state ?v) = ring_view cqes (?s\<lparr>iu_next_ctx := Suc ?i\<rparr>)" by (simp del: run_items.simps)
    then have "timeout_ids (ring_refs (iu_ring (lw_state ?v)) cqes) = timeout_ids (ring_refs (iu_ring ?s) cqes)"
      "count (ring_refs (iu_ring (lw_state ?v)) cqes) WakeupCtx = count (ring_refs (iu_ring ?s) cqes) WakeupCtx"
      "iu_timeouts (lw_state ?v) = iu_timeouts ?s" "iu_deleted (lw_state ?v) = iu_deleted ?s"
      "iu_next_ctx (lw_state ?v) = Suc ?i" "ring_cq (iu_ring (lw_state ?v)) = ring_cq (iu_ring ?s)"
      unfolding ring_view_def by simp_all
    then show ?thesis
      unfolding r acct_def set_state_simps iouring_delete_def using assms by (simp add: acct_def)
  next
    case (Some r)
    from ring_refs_prepare [OF Some, of cqes] assms show ?thesis
      by (simp add: iouring_create_timer_def t Let_def Some acct_def)
  qed
qed

lemma fold_create_timer_acct:
  "acct cqes (lw_state w) \<Longrightarrow> acct cqes (lw_state (fold (iouring_create_timer body) rs w)) \<and>
    ring_cq (iu_ring (lw_state (fold (iouring_create_timer body) rs w))) = ring_cq (iu_ring (lw_state w))"
  by (induction rs arbitrary: w) (simp_all add: create_timer_acct)

lemma view_cq: "ring_view cqes s = ring_view cqes s' \<Longrightarrow> ring_cq (iu_ring s) = ring_cq (iu_ring s')"
  by (simp add: ring_view_def)

lemma run_cq [simp]: "ring_cq (iu_ring (lw_state (run_items iouring_cmd body skip src xs w))) = ring_cq (iu_ring (lw_state w))"
  by (rule view_cq [of "[]"]) simp

lemma round_acct:
  assumes "iouring_acct (lw_state w)"
  shows "iouring_acct (lw_state (IoUringExecutor_ProcessReadyQueue body w))"
proof -
  let ?cs = "ring_cq (iu_ring (lw_state w))"
  let ?w = "run_items iouring_cmd body skip_null FromQueue (map Call (iu_callback_queue (lw_state w)))
    (run_items iouring_cmd body skip_null FromQueue (map Coro (iu_ready_queue (lw_state w))) (set_state iouring_swap w))"
  have "acct ?cs (iouring_swap (lw_state w))" using assms by (simp add: iouring_acct_def iouring_swap_def acct_def)
  then have "acct ?cs (lw_state ?w)" "ring_cq (iu_ring (lw_state ?w)) = ?cs" by (simp_all add: iouring_swap_def)
  with fold_create_timer_acct [of ?cs ?w body "iu_timer_queue (lw_state w)"] show ?thesis
    by (simp add: IoUringExecutor_ProcessReadyQueue_def iouring_acct_def Let_def)
qed

lemma issue_acct: "iouring_acct (lw_state (issue iouring_cmd cs w)) = iouring_acct (lw_state w)"
  unfolding iouring_acct_def issue_def
  using view_cq [of "[]" "fold iouring_cmd cs (lw_state w)" "lw_state w"]
  by (simp add: acct_view [of _ "fold iouring_cmd cs (lw_state w)" "lw_state w"])

lemma fold_complete_refs:
  "ring_refs (fold (\<lambda>(e, res, flags). ring_complete e res flags) cs r) (ring_cq (fold (\<lambda>(e, res, flags). ring_complete e res flags) cs r)) =
   ring_refs r (ring_cq r)"
proof (induction cs arbitrary: r)
  case (Cons c cs)
  then show ?case by (cases c) (simp add: ring_refs_complete)
qed simp

lemma wait_acct: "iouring_acct (lw_state w) \<Longrightarrow> iouring_acct (lw_state (iouring_wait env w))"
  using issue_acct [of "re_external env" w]
  by (simp add: iouring_wait_def iouring_acct_def acct_def Let_def fold_complete_refs)

subsection \<open>Reachable states\<close>

text \<open>Every state between two phases of \<open>Run\<close> or \<open>RunOnce\<close>, in whatever order they are called.\<close>

definition iouring_start :: "bool \<Rightarrow> int \<Rightarrow> IoUringConfig \<Rightarrow> IoUringExecutor loop_world" where
  "iouring_start buf_ok efd config = \<lparr>lw_state = IoUringExecutor_init buf_ok efd config, lw_log = [], lw_cmds = []\<rparr>"

inductive iouring_reach :: "(run_log \<Rightarrow> work \<Rightarrow> exec_cmd list) \<Rightarrow> IoUringExecutor loop_world \<Rightarrow> bool" for body where
  iu_init: "iouring_reach body (iouring_start buf_ok efd config)"
| iu_call: "iouring_reach body w \<Longrightarrow> iouring_reach body (issue iouring_cmd cs w)"
| iu_flags: "iouring_reach body w \<Longrightarrow> iouring_reach body (set_state (\<lambda>s. s\<lparr>iu_running := r, iu_stop_requested := q\<rparr>) w)"
| iu_wait: "iouring_reach body w \<Longrightarrow> iouring_reach body (iouring_wait env w)"
| iu_completions: "iouring_reach body w \<Longrightarrow> iouring_reach body (IoUringExecutor_ProcessCompletions body w)"
| iu_queue: "iouring_reach body w \<Longrightarrow> iouring_reach body (IoUringExecutor_ProcessReadyQueue body w)"

lemma RunOnce_reach: "iouring_reach body w \<Longrightarrow> iouring_reach body (IoUringExecutor_RunOnce body env w)"
  by (auto simp: IoUringExecutor_RunOnce_def Let_def intro: iouring_reach.intros)

lemma stopped_reach:
  "iouring_reach body w \<Longrightarrow> iouring_reach body (set_state (\<lambda>s. s\<lparr>iu_running := False\<rparr>) w)"
  using iu_flags [of body w "iu_stop_requested (lw_state w)" False] by (simp add: set_state_def)

lemma Run_loop_reach:
  "iouring_reach body w \<Longrightarrow> IoUringExecutor_Run_loop body envs w = Some w' \<Longrightarrow> iouring_reach body w'"
proof (induction envs arbitrary: w)
  case Nil
  then show ?case by (auto simp: IoUringExecutor_Run_loop.simps stopped_reach split: if_splits)
next
  case (Cons env envs)
  note r = IoUringExecutor_Run_loop.simps [of body "env # envs" w]
  from Cons.prems show ?case
    by (auto simp: r stopped_reach Let_def iu_wait split: if_splits
        intro: Cons.IH [OF iu_queue [OF iu_completions [OF iu_wait]]] Cons.IH [OF iu_wait])
qed

lemma Run_reach: "iouring_reach body w \<Longrightarrow> IoUringExecutor_Run body envs w = Some w' \<Longrightarrow> iouring_reach body w'"
  unfolding IoUringExecutor_Run_def by (rule Run_loop_reach [OF iu_flags])

lemma init_acct: "iouring_acct (IoUringExecutor_init buf_ok efd config)"
  by (simp add: IoUringExecutor_init_def IoUringExecutor_SubmitWakeupRead_def iouring_acct_def acct_def Let_def
      ring_prepare_def ring_refs_def ring_submit_def)

lemma iouring_reach_inv: "iouring_reach body w \<Longrightarrow> iouring_ok w \<and> iouring_acct (lw_state w)"
proof (induction rule: iouring_reach.induct)
  case (iu_init buf_ok efd config)
  have "iu_ready_queue (IoUringExecutor_init buf_ok efd config) = []" "iu_callback_queue (IoUringExecutor_init buf_ok efd config) = []"
    by (simp_all add: IoUringExecutor_init_def Let_def)
  then show ?case using init_acct by (simp add: iouring_start_def fifo_ok_def)
next
  case (iu_flags w r q)
  then show ?case by (simp add: iouring_ok_state iouring_acct_def acct_def)
qed (simp_all add: iouring.issue_fifo issue_acct iouring_wait_ok wait_acct iouring_completions_ok completions_acct
    iouring_round_ok round_acct)

lemma destroy_deletes_rest:
  assumes "distinct (map fst ts)" and "mset ds \<subseteq># mset (map fst ts)"
  shows "mset ds + mset (map fst (filter (\<lambda>t. fst t \<notin> set ds) ts)) = mset (map fst ts)"
proof -
  have "distinct ds" using assms by (metis distinct_append mset_append mset_eq_imp_distinct_iff subset_mset.le_iff_add ex_mset)
  moreover have sub: "set ds \<subseteq> fst ` set ts" using assms(2) by (metis list.set_map set_mset_mono set_mset_mset)
  moreover have "distinct (map fst (filter (\<lambda>t. fst t \<notin> set ds) ts))" using assms(1) by (simp add: distinct_map_filter)
  ultimately have "distinct (ds @ map fst (filter (\<lambda>t. fst t \<notin> set ds) ts))" by auto
  moreover have "set (ds @ map fst (filter (\<lambda>t. fst t \<notin> set ds) ts)) = set (map fst ts)" using sub by auto
  ultimately have "mset (ds @ map fst (filter (\<lambda>t. fst t \<notin> set ds) ts)) = mset (map fst ts)"
    using assms(1) set_eq_iff_mset_eq_distinct by blast
  then show ?thesis by simp
qed

lemma cq_timeouts: "mset (concat (map completed_timeout cqes)) = timeout_ids (mset (map fst cqes))"
proof (induction cqes)
  case (Cons c cqes)
  have "mset (completed_timeout c) = timeout_of (fst c)" by (cases c rule: completed_timeout.cases) auto
  with Cons show ?case by simp
qed simp

text \<open>
  Property C5 (the io_uring executor).  In every reachable state, whatever coroutines and other
  threads do and in whatever order the kernel completes requests: scheduled handles and
  posted callbacks are in order those taken from the queues followed by those still in them;
  every timeout context that was allocated is either in \<open>pending_timeouts_\<close> or deleted, and in one
  of these ways only, and the pending ones are exactly those the ring still refers to, each by one
  entry: no context is used after it was deleted, none is deleted twice and each
  coroutine's timeout comes back once; at most one wake-up read is outstanding; and the
  destructor deletes what is left, so that in the end every context was deleted exactly once.
\<close>

theorem iouring_executor_sound:
  assumes "iouring_reach body w"
  shows "concat (map scheduled_by (lw_cmds w)) = concat (map queued_coro (lw_log w)) @ iu_ready_queue (lw_state w) \<and>
         concat (map posted_by (lw_cmds w)) = concat (map queued_call (lw_log w)) @ iu_callback_queue (lw_state w) \<and>
         mset (map fst (iu_timeouts (lw_state w))) + mset (iu_deleted (lw_state w)) = mset [0..<iu_next_ctx (lw_state w)] \<and>
         timeout_ids (ring_refs (iu_ring (lw_state w)) (ring_cq (iu_ring (lw_state w)))) = mset (map fst (iu_timeouts (lw_state w))) \<and>
         count (ring_refs (iu_ring (lw_state w)) (ring_cq (iu_ring (lw_state w)))) WakeupCtx \<le> 1 \<and>
         mset (IoUringExecutor_destroy (lw_state w)) = mset [0..<iu_next_ctx (lw_state w)]"
proof -
  let ?s = "lw_state w"
  let ?d = "concat (map completed_timeout (ring_cq (iu_ring ?s)))"
  have inv: "iouring_ok w" "acct (ring_cq (iu_ring ?s)) ?s"
    using iouring_reach_inv [OF assms] by (simp_all add: iouring_acct_def)
  have "mset ?d \<subseteq># mset (map fst (iu_timeouts ?s))"
    using inv(2) unfolding acct_def cq_timeouts ring_refs_def timeout_ids_simps
    by (metis mset_subset_eq_add_right)
  from destroy_deletes_rest [OF acct_distinct [OF inv(2)] this]
  have "mset (IoUringExecutor_destroy ?s) = mset (iu_deleted ?s) + mset (map fst (iu_timeouts ?s))"
    by (simp add: IoUringExecutor_destroy_def Let_def)
  then show ?thesis using inv by (simp add: fifo_ok_def acct_def union_commute)
qed

theorem iouring_executor_sound_witness:
  "\<exists>w. iouring_reach (\<lambda>_ _. []) w \<and> iu_next_ctx (lw_state w) = 1 \<and>
     mset (IoUringExecutor_destroy (lw_state w)) = {#0#}"
proof -
  let ?w = "IoUringExecutor_ProcessReadyQueue (\<lambda>_ _. []) (issue iouring_cmd [DoScheduleAfter 1500 7] (iouring_start True 3 IoUringConfig_init))"
  have r: "iouring_reach (\<lambda>_ _. []) ?w" by (intro iu_queue iu_call iu_init)
  have n: "iu_next_ctx (lw_state ?w) = 1"
    by (simp add: IoUringExecutor_ProcessReadyQueue_def issue_def iouring_start_def IoUringExecutor_init_def
        IoUringExecutor_SubmitWakeupRead_def ring_prepare_def IoUringConfig_init_def Iouring_defs Let_def
        iouring_create_timer_def ring_submit_def timespec_of_def)
  from iouring_executor_sound [OF r] n have "mset (IoUringExecutor_destroy (lw_state ?w)) = mset [0..<1]" by metis
  then have "mset (IoUringExecutor_destroy (lw_state ?w)) = {#0#}" by simp
  with r n show ?thesis by blast
qed

subsection \<open>Awaitables and the wake-up read\<close>

text \<open>
  Io_uring operations: An operation awaited on a thread without an io_uring
  executor returns \<open>-ENXIO\<close> at once and one for which the submission queue is full returns
  \<open>-EAGAIN\<close> at once, both without touching the ring; otherwise the coroutine suspends with
  exactly one new entry that carries the request and the address of its context; and when
  the completion of that context is processed the result and the flags the coroutine reads are
  those of the completion, and the coroutine (if not null) is what is resumed.
\<close>

theorem io_operation:
  "io_await_suspend sub op a h None ctx = (False, ctx\<lparr>oc_result := - ENXIO\<rparr>, None) \<and>
   (case io_await_suspend sub op a h (Some x) ctx of
      (suspended, ctx', x') \<Rightarrow>
        if length (ring_sq (iu_ring x)) < ring_entries (iu_ring x)
        then suspended \<and> oc_handle ctx' = h \<and>
             ring_sq (iu_ring (the x')) @ ring_inflight (iu_ring (the x')) \<noteq> [] \<and>
             mset (ring_sq (iu_ring (the x'))) + mset (ring_inflight (iu_ring (the x'))) =
               mset (ring_sq (iu_ring x)) + mset (ring_inflight (iu_ring x)) + {#(op, IoCtx a)#}
        else \<not> suspended \<and> io_await_resume ctx' = - EAGAIN \<and> x' = Some x) \<and>
   (let w' = iouring_completion (\<lambda>_ _. []) (IoCtx a, res, flags) w in
      io_await_resume (iu_io (lw_state w') a) = res \<and>
      IoUringRecvProvidedAwaitable_await_resume (iu_io (lw_state w') a) = (res, flags) \<and>
      lw_log w' = lw_log w @ [(FromPoll, Coro (oc_handle (iu_io (lw_state w) a)), oc_handle (iu_io (lw_state w) a) \<noteq> 0)])"
  by (auto simp: io_await_suspend_def ring_prepare_def ring_submit_def io_await_resume_def Let_def
      IoUringRecvProvidedAwaitable_await_resume_def skip_null_def issue_def)

text \<open>
  When the submission queue is full at the moment the wake-up completion is processed, the read is
  not armed again, and nothing arms it later: from then on writing the eventfd cannot wake the
  loop.
\<close>

lemma wakeup_lost_when_queue_full:
  assumes "length (ring_sq (iu_ring (lw_state w))) = ring_entries (iu_ring (lw_state w))"
    and "count (ring_refs (iu_ring (lw_state w)) []) WakeupCtx = 0"
  shows "count (ring_refs (iu_ring (lw_state (iouring_completion body (WakeupCtx, res, flags) w))) []) WakeupCtx = 0"
    and "count (ring_refs (iu_ring (iouring_cmd c (lw_state (iouring_completion body (WakeupCtx, res, flags) w)))) []) WakeupCtx = 0"
proof -
  show 1: "count (ring_refs (iu_ring (lw_state (iouring_completion body (WakeupCtx, res, flags) w))) []) WakeupCtx = 0"
    using assms by (simp add: IoUringExecutor_SubmitWakeupRead_def ring_prepare_def)
  from cmd_view [of "[]" c "lw_state (iouring_completion body (WakeupCtx, res, flags) w)"] 1
  show "count (ring_refs (iu_ring (iouring_cmd c (lw_state (iouring_completion body (WakeupCtx, res, flags) w)))) []) WakeupCtx = 0"
    by (simp add: ring_view_def)
qed

end
