(* ===== verification/Iouring_Ops.thy ===== *)
theory Iouring_Ops
  imports Iouring
begin

text \<open>
  The awaitables of \<open>io/iouring_async_ops.hpp\<close>.  Each is its data members, its constructor and
  \<open>await_suspend\<close>, which is \<open>io_await_suspend\<close> with the request the class prepares.  The member
  \<open>ctx_\<close>, whose address goes to the kernel, is the context that \<open>io_await_suspend\<close> passes; since
  that address must stay valid, the classes can be neither copied nor moved.  \<open>await_ready\<close> is false
  for all of them and \<open>await_resume\<close> is \<open>io_await_resume\<close>, except for the provided buffers.
\<close>

text \<open>\<open>SOCK_CLOEXEC | SOCK_NONBLOCK\<close> are added to the flags of accept.\<close>

definition accept_flags :: "int \<Rightarrow> int" where
  "accept_flags flags = or flags (or 524288 2048)"

type_synonym suspend_fun =
  "nat \<Rightarrow> handle \<Rightarrow> IoUringExecutor option \<Rightarrow> OpContext \<Rightarrow> bool \<times> OpContext \<times> IoUringExecutor option"

subsection \<open>IoUringAcceptAwaitable\<close>

record IoUringAcceptAwaitable =
  acc_listen_fd :: int
  acc_addr :: uint64
  acc_addrlen :: uint64
  acc_flags :: int

definition IoUringAcceptAwaitable_init :: "int \<Rightarrow> uint64 \<Rightarrow> uint64 \<Rightarrow> int \<Rightarrow> IoUringAcceptAwaitable" where
  "IoUringAcceptAwaitable_init listen_fd addr addrlen flags =
    \<lparr>acc_listen_fd = listen_fd, acc_addr = addr, acc_addrlen = addrlen, acc_flags = flags\<rparr>"

definition IoUringAcceptAwaitable_await_suspend :: "IoUringAcceptAwaitable \<Rightarrow> suspend_fun" where
  "IoUringAcceptAwaitable_await_suspend aw =
    io_await_suspend True (PrepAccept (acc_listen_fd aw) (acc_addr aw) (acc_addrlen aw) (accept_flags (acc_flags aw)))"

subsection \<open>IoUringConnectAwaitable\<close>

record IoUringConnectAwaitable =
  con_fd :: int
  con_addr :: uint64
  con_addrlen :: uint32

definition IoUringConnectAwaitable_init :: "int \<Rightarrow> uint64 \<Rightarrow> uint32 \<Rightarrow> IoUringConnectAwaitable" where
  "IoUringConnectAwaitable_init fd addr addrlen =
    \<lparr>con_fd = fd, con_addr = addr, con_addrlen = addrlen\<rparr>"

definition IoUringConnectAwaitable_await_suspend :: "IoUringConnectAwaitable \<Rightarrow> suspend_fun" where
  "IoUringConnectAwaitable_await_suspend aw =
    io_await_suspend True (PrepConnect (con_fd aw) (con_addr aw) (con_addrlen aw))"

subsection \<open>IoUringRecvAwaitable\<close>

record IoUringRecvAwaitable =
  rcv_fd :: int
  rcv_buf :: uint64
  rcv_len :: size_t
  rcv_flags :: int

definition IoUringRecvAwaitable_init :: "int \<Rightarrow> uint64 \<Rightarrow> size_t \<Rightarrow> int \<Rightarrow> IoUringRecvAwaitable" where
  "IoUringRecvAwaitable_init fd buf len flags =
    \<lparr>rcv_fd = fd, rcv_buf = buf, rcv_len = len, rcv_flags = flags\<rparr>"

text \<open>\<open>static_cast<unsigned>(len_)\<close> of a \<open>size_t\<close>.\<close>

definition IoUringRecvAwaitable_await_suspend :: "IoUringRecvAwaitable \<Rightarrow> suspend_fun" where
  "IoUringRecvAwaitable_await_suspend aw =
    io_await_suspend True (PrepRecv (rcv_fd aw) (rcv_buf aw) (ucast (rcv_len aw)) (rcv_flags aw))"

subsection \<open>IoUringRecvProvidedAwaitable\<close>

record IoUringRecvProvidedAwaitable =
  rcp_fd :: int
  rcp_bgid :: uint16
  rcp_flags :: int

definition IoUringRecvProvidedAwaitable_init :: "int \<Rightarrow> uint16 \<Rightarrow> int \<Rightarrow> IoUringRecvProvidedAwaitable" where
  "IoUringRecvProvidedAwaitable_init fd bgid flags =
    \<lparr>rcp_fd = fd, rcp_bgid = bgid, rcp_flags = flags\<rparr>"

text \<open>The request is left in the queue: the executor submits it with its next wait.\<close>

definition IoUringRecvProvidedAwaitable_await_suspend :: "IoUringRecvProvidedAwaitable \<Rightarrow> suspend_fun" where
  "IoUringRecvProvidedAwaitable_await_suspend aw =
    io_await_suspend False (PrepRecvSelect (rcp_fd aw) (rcp_bgid aw) (rcp_flags aw))"

subsection \<open>IoUringSendAwaitable\<close>

record IoUringSendAwaitable =
  sen_fd :: int
  sen_buf :: uint64
  sen_len :: size_t
  sen_flags :: int

definition IoUringSendAwaitable_init :: "int \<Rightarrow> uint64 \<Rightarrow> size_t \<Rightarrow> int \<Rightarrow> IoUringSendAwaitable" where
  "IoUringSendAwaitable_init fd buf len flags =
    \<lparr>sen_fd = fd, sen_buf = buf, sen_len = len, sen_flags = flags\<rparr>"

definition IoUringSendAwaitable_await_suspend :: "IoUringSendAwaitable \<Rightarrow> suspend_fun" where
  "IoUringSendAwaitable_await_suspend aw =
    io_await_suspend True (PrepSend (sen_fd aw) (sen_buf aw) (ucast (sen_len aw)) (sen_flags aw))"

subsection \<open>IoUringOpenAtAwaitable\<close>

record IoUringOpenAtAwaitable =
  opn_dirfd :: int
  opn_path :: string
  opn_flags :: int
  opn_mode :: uint32

definition IoUringOpenAtAwaitable_init :: "int \<Rightarrow> string \<Rightarrow> int \<Rightarrow> uint32 \<Rightarrow> IoUringOpenAtAwaitable" where
  "IoUringOpenAtAwaitable_init dirfd path flags mode =
    \<lparr>opn_dirfd = dirfd, opn_path = path, opn_flags = flags, opn_mode = mode\<rparr>"

definition IoUringOpenAtAwaitable_await_suspend :: "IoUringOpenAtAwaitable \<Rightarrow> suspend_fun" where
  "IoUringOpenAtAwaitable_await_suspend aw =
    io_await_suspend True (PrepOpenAt (opn_dirfd aw) (opn_path aw) (opn_flags aw) (opn_mode aw))"

subsection \<open>IoUringReadFileAwaitable\<close>

record IoUringReadFileAwaitable =
  rdf_fd :: int
  rdf_buf :: uint64
  rdf_nbytes :: uint32
  rdf_offset :: uint64

definition IoUringReadFileAwaitable_init :: "int \<Rightarrow> uint64 \<Rightarrow> uint32 \<Rightarrow> uint64 \<Rightarrow> IoUringReadFileAwaitable" where
  "IoUringReadFileAwaitable_init fd buf nbytes offset =
    \<lparr>rdf_fd = fd, rdf_buf = buf, rdf_nbytes = nbytes, rdf_offset = offset\<rparr>"

definition IoUringReadFileAwaitable_await_suspend :: "IoUringReadFileAwaitable \<Rightarrow> suspend_fun" where
  "IoUringReadFileAwaitable_await_suspend aw =
    io_await_suspend True (PrepRead (rdf_fd aw) (rdf_buf aw) (rdf_nbytes aw) (rdf_offset aw))"

subsection \<open>IoUringWriteFileAwaitable\<close>

record IoUringWriteFileAwaitable =
  wrf_fd :: int
  wrf_buf :: uint64
  wrf_nbytes :: uint32
  wrf_offset :: uint64

definition IoUringWriteFileAwaitable_init :: "int \<Rightarrow> uint64 \<Rightarrow> uint32 \<Rightarrow> uint64 \<Rightarrow> IoUringWriteFileAwaitable" where
  "IoUringWriteFileAwaitable_init fd buf nbytes offset =
    \<lparr>wrf_fd = fd, wrf_buf = buf, wrf_nbytes = nbytes, wrf_offset = offset\<rparr>"

definition IoUringWriteFileAwaitable_await_suspend :: "IoUringWriteFileAwaitable \<Rightarrow> suspend_fun" where
  "IoUringWriteFileAwaitable_await_suspend aw =
    io_await_suspend True (PrepWrite (wrf_fd aw) (wrf_buf aw) (wrf_nbytes aw) (wrf_offset aw))"

subsection \<open>IoUringCloseAwaitable\<close>

record IoUringCloseAwaitable =
  clo_fd :: int

definition IoUringCloseAwaitable_init :: "int \<Rightarrow> IoUringCloseAwaitable" where
  "IoUringCloseAwaitable_init fd =
    \<lparr>clo_fd = fd\<rparr>"

definition IoUringCloseAwaitable_await_suspend :: "IoUringCloseAwaitable \<Rightarrow> suspend_fun" where
  "IoUringCloseAwaitable_await_suspend aw =
    io_await_suspend True (PrepClose (clo_fd aw))"

subsection \<open>IoUringFsyncAwaitable\<close>

record IoUringFsyncAwaitable =
  fsy_fd :: int
  fsy_flags :: uint32

definition IoUringFsyncAwaitable_init :: "int \<Rightarrow> uint32 \<Rightarrow> IoUringFsyncAwaitable" where
  "IoUringFsyncAwaitable_init fd flags =
    \<lparr>fsy_fd = fd, fsy_flags = flags\<rparr>"

definition IoUringFsyncAwaitable_await_suspend :: "IoUringFsyncAwaitable \<Rightarrow> suspend_fun" where
  "IoUringFsyncAwaitable_await_suspend aw =
    io_await_suspend True (PrepFsync (fsy_fd aw) (fsy_flags aw))"

subsection \<open>IoUringStatxAwaitable\<close>

record IoUringStatxAwaitable =
  sta_dirfd :: int
  sta_path :: string
  sta_flags :: int
  sta_mask :: uint32
  sta_statxbuf :: uint64

definition IoUringStatxAwaitable_init :: "int \<Rightarrow> string \<Rightarrow> int \<Rightarrow> uint32 \<Rightarrow> uint64 \<Rightarrow> IoUringStatxAwaitable" where
  "IoUringStatxAwaitable_init dirfd path flags stx_mask statxbuf =
    \<lparr>sta_dirfd = dirfd, sta_path = path, sta_flags = flags, sta_mask = stx_mask, sta_statxbuf = statxbuf\<rparr>"

definition IoUringStatxAwaitable_await_suspend :: "IoUringStatxAwaitable \<Rightarrow> suspend_fun" where
  "IoUringStatxAwaitable_await_suspend aw =
    io_await_suspend True (PrepStatx (sta_dirfd aw) (sta_path aw) (sta_flags aw) (sta_mask aw) (sta_statxbuf aw))"

subsection \<open>IoUringUnlinkAtAwaitable\<close>

record IoUringUnlinkAtAwaitable =
  unl_dirfd :: int
  unl_path :: string
  unl_flags :: int

definition IoUringUnlinkAtAwaitable_init :: "int \<Rightarrow> string \<Rightarrow> int \<Rightarrow> IoUringUnlinkAtAwaitable" where
  "IoUringUnlinkAtAwaitable_init dirfd path flags =
    \<lparr>unl_dirfd = dirfd, unl_path = path, unl_flags = flags\<rparr>"

definition IoUringUnlinkAtAwaitable_await_suspend :: "IoUringUnlinkAtAwaitable \<Rightarrow> suspend_fun" where
  "IoUringUnlinkAtAwaitable_await_suspend aw =
    io_await_suspend True (PrepUnlinkAt (unl_dirfd aw) (unl_path aw) (unl_flags aw))"

subsection \<open>IoUringMkdirAtAwaitable\<close>

record IoUringMkdirAtAwaitable =
  mkd_dirfd :: int
  mkd_path :: string
  mkd_mode :: uint32

definition IoUringMkdirAtAwaitable_init :: "int \<Rightarrow> string \<Rightarrow> uint32 \<Rightarrow> IoUringMkdirAtAwaitable" where
  "IoUringMkdirAtAwaitable_init dirfd path mode =
    \<lparr>mkd_dirfd = dirfd, mkd_path = path, mkd_mode = mode\<rparr>"

definition IoUringMkdirAtAwaitable_await_suspend :: "IoUringMkdirAtAwaitable \<Rightarrow> suspend_fun" where
  "IoUringMkdirAtAwaitable_await_suspend aw =
    io_await_suspend True (PrepMkdirAt (mkd_dirfd aw) (mkd_path aw) (mkd_mode aw))"

lemmas awaitable_defs =
  IoUringAcceptAwaitable_init_def IoUringAcceptAwaitable_await_suspend_def
  IoUringConnectAwaitable_init_def IoUringConnectAwaitable_await_suspend_def
  IoUringRecvAwaitable_init_def IoUringRecvAwaitable_await_suspend_def
  IoUringRecvProvidedAwaitable_init_def IoUringRecvProvidedAwaitable_await_suspend_def
  IoUringSendAwaitable_init_def IoUringSendAwaitable_await_suspend_def
  IoUringOpenAtAwaitable_init_def IoUringOpenAtAwaitable_await_suspend_def
  IoUringReadFileAwaitable_init_def IoUringReadFileAwaitable_await_suspend_def
  IoUringWriteFileAwaitable_init_def IoUringWriteFileAwaitable_await_suspend_def
  IoUringCloseAwaitable_init_def IoUringCloseAwaitable_await_suspend_def
  IoUringFsyncAwaitable_init_def IoUringFsyncAwaitable_await_suspend_def
  IoUringStatxAwaitable_init_def IoUringStatxAwaitable_await_suspend_def
  IoUringUnlinkAtAwaitable_init_def IoUringUnlinkAtAwaitable_await_suspend_def
  IoUringMkdirAtAwaitable_init_def IoUringMkdirAtAwaitable_await_suspend_def

text \<open>A length of a multiple of 4 GiB becomes 0 in the request.\<close>

lemma recv_length_truncated:
  "IoUringRecvAwaitable_await_suspend (IoUringRecvAwaitable_init fd buf (2 ^ 32) flags) =
   io_await_suspend True (PrepRecv fd buf 0 flags)"
proof -
  have "(ucast (2 ^ 32 :: size_t) :: uint32) = 0" by code_simp
  then show ?thesis
    unfolding IoUringRecvAwaitable_await_suspend_def IoUringRecvAwaitable_init_def IoUringRecvAwaitable.select_convs by metis
qed

end
