(* ===== verification/Thread_Pool.thy ===== *)
theory Thread_Pool
  imports Executor
begin

text \<open>
  \<open>io/thread_pool_executor.hpp\<close> and \<open>io/thread_pool_executor.cpp\<close>: worker threads that take items
  from one queue, a timer thread that moves delayed items into it, and callers of \<open>Schedule\<close>,
  \<open>ScheduleAfter\<close>, \<open>Post\<close>, \<open>Run\<close>, \<open>RunOnce\<close> and \<open>Stop\<close>.  A critical section is one step; everything
  between critical sections may interleave.  The code an item runs acts on the pool only
  through the calls above, which may come from any thread at any time.
\<close>

subsection \<open>State\<close>

text \<open>
  A worker is at the head of its loop, in the wait, running an item, or has left.  \<open>th_caller\<close>
  is the item a \<open>RunOnce\<close> has taken, \<open>RcCounted\<close> after its \<open>active_tasks_++\<close>; \<open>th_timer_hand\<close>
  the handle the timer thread has popped and not yet scheduled.
\<close>

datatype worker = WHead | WWait | WRunning work | WExited

datatype run_once = RcNone | RcTaken work | RcCounted work

record ThreadPool =
  th_work_queue :: "work list"
  th_delayed_queue :: "(int \<times> handle) list"
  th_running :: bool
  th_stopping :: bool
  th_active :: size_t
  th_workers :: "worker list"
  th_caller :: run_once
  th_timer_hand :: "(int \<times> handle) option"
  th_timer_exited :: bool

text \<open>The constructor from a number of threads, 0 becoming 1.\<close>

definition ThreadPoolExecutor_init :: "nat \<Rightarrow> ThreadPool" where
  "ThreadPoolExecutor_init num_threads =
    \<lparr>th_work_queue = [], th_delayed_queue = [], th_running = True, th_stopping = False, th_active = 0,
     th_workers = replicate (if num_threads = 0 then 1 else num_threads) WHead, th_caller = RcNone,
     th_timer_hand = None, th_timer_exited = False\<rparr>"

definition ThreadPoolExecutor_NumThreads :: "ThreadPool \<Rightarrow> nat" where
  "ThreadPoolExecutor_NumThreads s = length (th_workers s)"

definition ThreadPoolExecutor_PendingTasks :: "ThreadPool \<Rightarrow> nat" where
  "ThreadPoolExecutor_PendingTasks s = length (th_work_queue s)"

definition ThreadPoolExecutor_IsRunning :: "ThreadPool \<Rightarrow> bool" where
  "ThreadPoolExecutor_IsRunning s = th_running s"

subsection \<open>Operations\<close>

definition ThreadPoolExecutor_Schedule :: "handle \<Rightarrow> ThreadPool \<Rightarrow> ThreadPool" where
  "ThreadPoolExecutor_Schedule h s =
    (if h = null_handle then s else s\<lparr>th_work_queue := th_work_queue s @ [Coro h]\<rparr>)"

definition ThreadPoolExecutor_Post :: "nat option \<Rightarrow> ThreadPool \<Rightarrow> ThreadPool" where
  "ThreadPoolExecutor_Post callback s =
    (case callback of None \<Rightarrow> s | Some c \<Rightarrow> s\<lparr>th_work_queue := th_work_queue s @ [Call c]\<rparr>)"

text \<open>The priority queue is kept in the order of its times.\<close>

definition ThreadPoolExecutor_ScheduleAfter :: "int \<Rightarrow> int \<Rightarrow> handle \<Rightarrow> ThreadPool \<Rightarrow> ThreadPool" where
  "ThreadPoolExecutor_ScheduleAfter now delay h s =
    (if h = null_handle then s
     else s\<lparr>th_delayed_queue := insort_key fst (now + delay, h) (th_delayed_queue s)\<rparr>)"

definition ThreadPoolExecutor_Stop :: "ThreadPool \<Rightarrow> ThreadPool" where
  "ThreadPoolExecutor_Stop s = s\<lparr>th_stopping := True, th_running := False\<rparr>"

text \<open>\<open>Run\<close>: the assignments before its wait, and the condition under which it returns.\<close>

definition ThreadPoolExecutor_Run_begin :: "ThreadPool \<Rightarrow> ThreadPool" where
  "ThreadPoolExecutor_Run_begin s = s\<lparr>th_running := True, th_stopping := False\<rparr>"

definition ThreadPoolExecutor_Run_returns :: "ThreadPool \<Rightarrow> bool" where
  "ThreadPoolExecutor_Run_returns s \<longleftrightarrow> th_stopping s \<or> (th_work_queue s = [] \<and> th_active s = 0)"

text \<open>\<open>while (!stopping_)\<close>\<close>

definition WorkerLoop_head :: "nat \<Rightarrow> ThreadPool \<Rightarrow> ThreadPool option" where
  "WorkerLoop_head i s =
    (if i < length (th_workers s) \<and> th_workers s ! i = WHead
     then Some (s\<lparr>th_workers := (th_workers s)[i := if th_stopping s then WExited else WWait]\<rparr>) else None)"

text \<open>
  The critical section; \<open>None\<close> while the wait does not end.  How the wait blocks and is notified does not matter
  to what is run and counted here; \<open>Pool_Shutdown\<close>, where it does, takes it apart.
\<close>

definition WorkerLoop_take :: "nat \<Rightarrow> ThreadPool \<Rightarrow> ThreadPool option" where
  "WorkerLoop_take i s =
    (if i < length (th_workers s) \<and> th_workers s ! i = WWait \<and> (th_stopping s \<or> th_work_queue s \<noteq> [])
     then (case th_work_queue s of
             [] \<Rightarrow> Some (s\<lparr>th_workers := (th_workers s)[i := WExited]\<rparr>)
           | item # rest \<Rightarrow>
               Some (s\<lparr>th_work_queue := rest, th_active := th_active s + 1,
                       th_workers := (th_workers s)[i := WRunning item]\<rparr>))
     else None)"

definition WorkerLoop_done :: "nat \<Rightarrow> ThreadPool \<Rightarrow> ThreadPool option" where
  "WorkerLoop_done i s =
    (if i < length (th_workers s)
     then (case th_workers s ! i of
             WRunning item \<Rightarrow> Some (s\<lparr>th_active := th_active s - 1, th_workers := (th_workers s)[i := WHead]\<rparr>)
           | _ \<Rightarrow> None)
     else None)"

text \<open>\<open>RunOnce\<close> on a thread of the caller: take, count, uncount.\<close>

definition ThreadPoolExecutor_RunOnce_take :: "ThreadPool \<Rightarrow> ThreadPool option" where
  "ThreadPoolExecutor_RunOnce_take s =
    (if th_caller s = RcNone
     then (case th_work_queue s of
             [] \<Rightarrow> Some s
           | item # rest \<Rightarrow> Some (s\<lparr>th_work_queue := rest, th_caller := RcTaken item\<rparr>))
     else None)"

definition ThreadPoolExecutor_RunOnce_count :: "ThreadPool \<Rightarrow> ThreadPool option" where
  "ThreadPoolExecutor_RunOnce_count s =
    (case th_caller s of
       RcTaken item \<Rightarrow> Some (s\<lparr>th_active := th_active s + 1, th_caller := RcCounted item\<rparr>) | _ \<Rightarrow> None)"

definition ThreadPoolExecutor_RunOnce_done :: "ThreadPool \<Rightarrow> ThreadPool option" where
  "ThreadPoolExecutor_RunOnce_done s =
    (case th_caller s of
       RcCounted item \<Rightarrow> Some (s\<lparr>th_active := th_active s - 1, th_caller := RcNone\<rparr>) | _ \<Rightarrow> None)"

text \<open>The timer thread at time \<open>now\<close>: exit, wait, or pop what is due; then \<open>Schedule\<close>.\<close>

definition TimerLoop_pop :: "int \<Rightarrow> ThreadPool \<Rightarrow> ThreadPool option" where
  "TimerLoop_pop now s =
    (if th_timer_exited s \<or> th_timer_hand s \<noteq> None then None
     else if th_stopping s then Some (s\<lparr>th_timer_exited := True\<rparr>)
     else (case th_delayed_queue s of
             [] \<Rightarrow> None
           | soonest # rest \<Rightarrow>
               if now \<ge> fst soonest then Some (s\<lparr>th_delayed_queue := rest, th_timer_hand := Some soonest\<rparr>) else None))"

definition TimerLoop_schedule :: "ThreadPool \<Rightarrow> ThreadPool option" where
  "TimerLoop_schedule s =
    (case th_timer_hand s of
       None \<Rightarrow> None
     | Some t \<Rightarrow> Some (ThreadPoolExecutor_Schedule (snd t) (s\<lparr>th_timer_hand := None\<rparr>)))"

subsection \<open>Interleavings\<close>

datatype pool_label =
    PSchedule handle | PPost nat | PScheduleAfter int int handle | PStop | PRun
  | PHead nat | PTake nat | PDone nat | POnceTake | POnceCount | POnceDone | PTimerPop int | PTimerSchedule

fun pool_step :: "pool_label \<Rightarrow> ThreadPool \<Rightarrow> ThreadPool option" where
  "pool_step (PSchedule h) s = Some (ThreadPoolExecutor_Schedule h s)"
| "pool_step (PPost c) s = Some (ThreadPoolExecutor_Post (Some c) s)"
| "pool_step (PScheduleAfter now d h) s = Some (ThreadPoolExecutor_ScheduleAfter now d h s)"
| "pool_step PStop s = Some (ThreadPoolExecutor_Stop s)"
| "pool_step PRun s = Some (ThreadPoolExecutor_Run_begin s)"
| "pool_step (PHead i) s = WorkerLoop_head i s"
| "pool_step (PTake i) s = WorkerLoop_take i s"
| "pool_step (PDone i) s = WorkerLoop_done i s"
| "pool_step POnceTake s = ThreadPoolExecutor_RunOnce_take s"
| "pool_step POnceCount s = ThreadPoolExecutor_RunOnce_count s"
| "pool_step POnceDone s = ThreadPoolExecutor_RunOnce_done s"
| "pool_step (PTimerPop now) s = TimerLoop_pop now s"
| "pool_step PTimerSchedule s = TimerLoop_schedule s"

fun pool_exec :: "pool_label list \<Rightarrow> ThreadPool \<Rightarrow> ThreadPool option" where
  "pool_exec [] s = Some s"
| "pool_exec (l # ls) s = (case pool_step l s of None \<Rightarrow> None | Some s' \<Rightarrow> pool_exec ls s')"

text \<open>What a step puts into the work queue and what it takes out to run.\<close>

fun pool_in :: "pool_label \<Rightarrow> ThreadPool \<Rightarrow> work list" where
  "pool_in (PSchedule h) s = (if h = null_handle then [] else [Coro h])"
| "pool_in (PPost c) s = [Call c]"
| "pool_in PTimerSchedule s =
     (case th_timer_hand s of Some t \<Rightarrow> if snd t = null_handle then [] else [Coro (snd t)] | None \<Rightarrow> [])"
| "pool_in _ s = []"

fun pool_out :: "pool_label \<Rightarrow> ThreadPool \<Rightarrow> work list" where
  "pool_out (PTake i) s = take 1 (th_work_queue s)"
| "pool_out POnceTake s = take 1 (th_work_queue s)"
| "pool_out _ s = []"

fun pool_ins :: "pool_label list \<Rightarrow> ThreadPool \<Rightarrow> work list" where
  "pool_ins [] s = []"
| "pool_ins (l # ls) s = pool_in l s @ (case pool_step l s of None \<Rightarrow> [] | Some s' \<Rightarrow> pool_ins ls s')"

fun pool_outs :: "pool_label list \<Rightarrow> ThreadPool \<Rightarrow> work list" where
  "pool_outs [] s = []"
| "pool_outs (l # ls) s = pool_out l s @ (case pool_step l s of None \<Rightarrow> [] | Some s' \<Rightarrow> pool_outs ls s')"

lemmas Pool_defs [op_defs] =
  ThreadPoolExecutor_Schedule_def ThreadPoolExecutor_Post_def ThreadPoolExecutor_ScheduleAfter_def
  ThreadPoolExecutor_Stop_def ThreadPoolExecutor_Run_begin_def WorkerLoop_head_def WorkerLoop_take_def
  WorkerLoop_done_def ThreadPoolExecutor_RunOnce_take_def ThreadPoolExecutor_RunOnce_count_def
  ThreadPoolExecutor_RunOnce_done_def TimerLoop_pop_def TimerLoop_schedule_def

lemma step_queue:
  "pool_step l s = Some s' \<Longrightarrow> th_work_queue s @ pool_in l s = pool_out l s @ th_work_queue s'"
  by (cases l) (auto simp: Pool_defs split: if_splits list.splits option.splits worker.splits run_once.splits)

lemma exec_queue:
  "pool_exec ls s = Some s' \<Longrightarrow> th_work_queue s @ pool_ins ls s = pool_outs ls s @ th_work_queue s'"
proof (induction ls arbitrary: s)
  case (Cons l ls)
  then obtain s1 where 1: "pool_step l s = Some s1" "pool_exec ls s1 = Some s'" by (auto split: option.splits)
  have "th_work_queue s @ pool_ins (l # ls) s = pool_out l s @ th_work_queue s1 @ pool_ins ls s1"
    using step_queue [OF 1(1)] 1(1) by (metis append.assoc option.simps(5) pool_ins.simps(2))
  also have "\<dots> = pool_outs (l # ls) s @ th_work_queue s'" using Cons.IH [OF 1(2)] 1(1) by simp
  finally show ?case .
qed simp

subsection \<open>The counter of active tasks\<close>

fun is_running :: "worker \<Rightarrow> bool" where
  "is_running (WRunning _) = True"
| "is_running _ = False"

definition busy :: "ThreadPool \<Rightarrow> nat" where
  "busy s = length (filter is_running (th_workers s)) + (case th_caller s of RcCounted _ \<Rightarrow> 1 | _ \<Rightarrow> 0)"

lemma busy_upd_same:
  "i < length ws \<Longrightarrow> is_running (ws ! i) = is_running v \<Longrightarrow>
   length (filter is_running (ws[i := v])) = length (filter is_running ws)"
  by (induction ws arbitrary: i) (auto split: nat.splits)

lemma busy_upd_enter:
  "i < length ws \<Longrightarrow> \<not> is_running (ws ! i) \<Longrightarrow> is_running v \<Longrightarrow>
   length (filter is_running (ws[i := v])) = Suc (length (filter is_running ws))"
  by (induction ws arbitrary: i) (auto split: nat.splits)

lemma busy_upd_leave:
  "i < length ws \<Longrightarrow> is_running (ws ! i) \<Longrightarrow> \<not> is_running v \<Longrightarrow>
   Suc (length (filter is_running (ws[i := v]))) = length (filter is_running ws)"
  by (induction ws arbitrary: i) (auto split: nat.splits)

definition active_ok :: "nat \<Rightarrow> ThreadPool \<Rightarrow> bool" where
  "active_ok n s \<longleftrightarrow> length (th_workers s) = n \<and> unat (th_active s) = busy s"

lemma busy_bound: "busy s \<le> length (th_workers s) + 1"
  using length_filter_le [of is_running "th_workers s"] by (auto simp: busy_def le_SucI split: run_once.splits)

lemma active_inc:
  assumes "unat a = b" and "b \<le> n" and "n < 2 ^ 64 - 1"
  shows "unat (a + 1 :: 64 word) = Suc b"
  using unat_inc [of a] assms by simp

lemma active_dec: "unat a = Suc b \<Longrightarrow> unat (a - 1 :: 64 word) = b"
  using unat_dec [of a] by (auto simp: unat_pos_iff)

lemma take_active:
  assumes ok: "active_ok n s" and st: "WorkerLoop_take i s = Some s'" and n: "n < 2 ^ 64 - 2"
  shows "active_ok n s'"
proof -
  have i: "i < length (th_workers s)" "th_workers s ! i = WWait" using st by (auto simp: WorkerLoop_take_def split: if_splits)
  show ?thesis
  proof (cases "th_work_queue s")
    case Nil
    with st i have "s' = s\<lparr>th_workers := (th_workers s)[i := WExited]\<rparr>" by (auto simp: WorkerLoop_take_def split: if_splits)
    with ok i busy_upd_same [of i "th_workers s" WExited] show ?thesis by (simp add: active_ok_def busy_def)
  next
    case (Cons item rest)
    have s': "s' = s\<lparr>th_work_queue := rest, th_active := th_active s + 1, th_workers := (th_workers s)[i := WRunning item]\<rparr>"
      using st i Cons by (simp add: WorkerLoop_take_def)
    have "unat (th_active s + 1) = Suc (busy s)"
      using active_inc [of "th_active s" "busy s" "n + 1"] busy_bound [of s] ok n by (simp add: active_ok_def)
    with ok s' i busy_upd_enter [of i "th_workers s" "WRunning item"] show ?thesis by (simp add: active_ok_def busy_def)
  qed
qed

lemma step_active:
  assumes ok: "active_ok n s" and st: "pool_step l s = Some s'" and n: "n < 2 ^ 64 - 2"
  shows "active_ok n s'"
proof (cases l)
  case (PHead i)
  then have i: "i < length (th_workers s)" "th_workers s ! i = WHead"
    and s': "s' = s\<lparr>th_workers := (th_workers s)[i := if th_stopping s then WExited else WWait]\<rparr>"
    using st by (auto simp: WorkerLoop_head_def split: if_splits)
  with ok busy_upd_same [of i "th_workers s" "if th_stopping s then WExited else WWait"] show ?thesis
    by (simp add: active_ok_def busy_def)
next
  case (PTake i)
  with st have "WorkerLoop_take i s = Some s'" by simp
  from take_active [OF ok this n] show ?thesis .
next
  case (PDone i)
  then obtain item where i: "i < length (th_workers s)" "th_workers s ! i = WRunning item"
    and s': "s' = s\<lparr>th_active := th_active s - 1, th_workers := (th_workers s)[i := WHead]\<rparr>"
    using st by (auto simp: WorkerLoop_done_def split: if_splits worker.splits)
  have "Suc (busy s') = busy s" using busy_upd_leave [of i "th_workers s" WHead] i by (simp add: busy_def s')
  moreover from this have "unat (th_active s - 1) = busy s'" using active_dec [of "th_active s" "busy s'"] ok by (simp add: active_ok_def)
  ultimately show ?thesis using ok by (simp add: active_ok_def s')
next
  case POnceCount
  then obtain item where c: "th_caller s = RcTaken item" and s': "s' = s\<lparr>th_active := th_active s + 1, th_caller := RcCounted item\<rparr>"
    using st by (auto simp: ThreadPoolExecutor_RunOnce_count_def split: run_once.splits)
  have "unat (th_active s + 1) = Suc (busy s)"
    using active_inc [of "th_active s" "busy s" "n + 1"] busy_bound [of s] ok n by (simp add: active_ok_def)
  with ok c s' show ?thesis by (simp add: active_ok_def busy_def)
next
  case POnceDone
  then obtain item where c: "th_caller s = RcCounted item" and s': "s' = s\<lparr>th_active := th_active s - 1, th_caller := RcNone\<rparr>"
    using st by (auto simp: ThreadPoolExecutor_RunOnce_done_def split: run_once.splits)
  have "Suc (busy s') = busy s" using c by (simp add: busy_def s')
  moreover from this have "unat (th_active s - 1) = busy s'" using active_dec [of "th_active s" "busy s'"] ok by (simp add: active_ok_def)
  ultimately show ?thesis using ok by (simp add: active_ok_def s')
next
  case POnceTake
  with st ok show ?thesis
    by (auto simp: ThreadPoolExecutor_RunOnce_take_def active_ok_def busy_def split: if_splits list.splits)
qed (use ok st in \<open>auto simp: Pool_defs active_ok_def busy_def split: if_splits list.splits option.splits\<close>)

lemma exec_active:
  "active_ok n s \<Longrightarrow> n < 2 ^ 64 - 2 \<Longrightarrow> pool_exec ls s = Some s' \<Longrightarrow> active_ok n s'"
proof (induction ls arbitrary: s)
  case (Cons l ls)
  then show ?case using step_active [of n s l] by (auto split: option.splits)
qed simp

lemma init_active:
  "active_ok (if num = 0 then 1 else num) (ThreadPoolExecutor_init num)"
  by (simp add: active_ok_def ThreadPoolExecutor_init_def busy_def)

text \<open>
  Property C12 (the thread pool).  In every interleaving of callers, workers and the timer thread:
  the items put into the work queue are, in order, the items taken out to be run followed by
  those still queued, so each is run once and none is lost; the 64-bit counter of active tasks
  is the number of items being run (by workers, and by a \<open>RunOnce\<close> that has counted itself);
  and if \<open>Run\<close> may return without a stop, no item is queued and no worker is running one.
\<close>

theorem thread_pool_quiescence:
  assumes ex: "pool_exec ls (ThreadPoolExecutor_init num) = Some s" and "num < 2 ^ 64 - 2"
  shows "pool_ins ls (ThreadPoolExecutor_init num) = pool_outs ls (ThreadPoolExecutor_init num) @ th_work_queue s \<and>
         unat (th_active s) = busy s \<and>
         (ThreadPoolExecutor_Run_returns s \<and> \<not> th_stopping s \<longrightarrow>
            ThreadPoolExecutor_PendingTasks s = 0 \<and> (\<forall>w \<in> set (th_workers s). \<not> is_running w))"
proof -
  have "active_ok (if num = 0 then 1 else num) s"
    by (rule exec_active [OF init_active _ ex]) (use assms(2) in simp)
  then have b: "unat (th_active s) = busy s" by (simp add: active_ok_def)
  moreover have "\<forall>w \<in> set (th_workers s). \<not> is_running w" if "th_active s = 0"
    using b that by (auto simp: busy_def filter_empty_conv)
  moreover have "pool_ins ls (ThreadPoolExecutor_init num) = pool_outs ls (ThreadPoolExecutor_init num) @ th_work_queue s"
    using exec_queue [OF ex] by (simp add: ThreadPoolExecutor_init_def)
  ultimately show ?thesis
    by (auto simp: ThreadPoolExecutor_Run_returns_def ThreadPoolExecutor_PendingTasks_def)
qed

theorem thread_pool_quiescence_witness:
  "\<exists>s. pool_exec [PSchedule 7, PPost 3, PHead 0, PTake 0, PHead 1, PTake 1, PDone 0] (ThreadPoolExecutor_init 2) = Some s \<and>
     unat (th_active s) = busy s \<and> th_workers s = [WHead, WRunning (Call 3)] \<and> \<not> ThreadPoolExecutor_Run_returns s"
proof -
  let ?ls = "[PSchedule 7, PPost 3, PHead 0, PTake 0, PHead 1, PTake 1, PDone 0]"
  have i: "ThreadPoolExecutor_init 2 = \<lparr>th_work_queue = [], th_delayed_queue = [], th_running = True, th_stopping = False,
      th_active = 0, th_workers = [WHead, WHead], th_caller = RcNone, th_timer_hand = None, th_timer_exited = False\<rparr>"
    by (simp add: ThreadPoolExecutor_init_def numeral_2_eq_2)
  obtain s where s: "pool_exec ?ls (ThreadPoolExecutor_init 2) = Some s" "th_workers s = [WHead, WRunning (Call 3)]"
      "\<not> th_stopping s"
    by (simp add: Pool_defs i)
  with thread_pool_quiescence [OF s(1)] s show ?thesis by auto
qed

text \<open>
  \<open>RunOnce\<close> counts itself only after it has released the lock: in between \<open>Run\<close> sees an empty
  queue and no active task although an item is about to run.
\<close>

lemma run_returns_during_run_once:
  "\<exists>s. pool_exec [PSchedule 7, POnceTake] (ThreadPoolExecutor_init 1) = Some s \<and>
     ThreadPoolExecutor_Run_returns s \<and> \<not> th_stopping s \<and> th_caller s = RcTaken (Coro 7)"
  by (simp add: Pool_defs ThreadPoolExecutor_init_def ThreadPoolExecutor_Run_returns_def)

end
