(* ===== verification/Posix.thy ===== *)
theory Posix
  imports Result
begin

text \<open>
  What the blocking sockets and the io_uring sockets use of the operating system.  The kernel is
  not part of the repository: its calls are a parameter, a record of functions over a kernel
  state of unspecified type, and what the sources rely on is stated as predicates about such a
  record (\<open>fds_ok\<close>, \<open>stream_ok\<close>).  The addresses the sources fill in are modelled here, as is
  the loop that repeats a partial transfer, which four functions of the library contain.
\<close>

subsection \<open>Addresses\<close>

text \<open>
  \<open>sin_port\<close> is in network byte order, the high byte first; this reading of \<open>htons\<close> and
  \<open>ntohs\<close> does not depend on the byte order of the host.
\<close>

type_synonym net16 = "8 word \<times> 8 word"

definition htons :: "uint16 \<Rightarrow> net16" where
  "htons p = (ucast (drop_bit 8 p), ucast p)"

definition ntohs :: "net16 \<Rightarrow> uint16" where
  "ntohs b = (case b of (hi, lo) \<Rightarrow> or (push_bit 8 (ucast hi)) (ucast lo))"

lemma ntohs_htons [simp]: "ntohs (htons p) = p"
  by (rule bit_word_eqI)
    (auto simp: ntohs_def htons_def bit_or_iff bit_push_bit_iff bit_ucast_iff bit_drop_bit_eq not_le)

record sockaddr_in =
  sin_port :: net16
  sin_addr :: uint32

definition INADDR_ANY :: uint32 where "INADDR_ANY = 0"

subsection \<open>System calls\<close>

text \<open>
  Each call takes the kernel state and returns its C result with the new state.  \<open>px_send\<close> is
  given the bytes offered; \<open>px_recv\<close> is given the length offered and returns the bytes it
  stored at the start of the buffer.  \<open>px_getaddrinfo\<close> is the first resolved address, \<open>None\<close>
  when it returns an error or no result.  \<open>px_socket\<close> is given the flags or-ed to
  \<open>SOCK_STREAM\<close>.
\<close>

record 'k posix =
  px_socket :: "int \<Rightarrow> 'k \<Rightarrow> int \<times> 'k"
  px_inet_pton :: "string \<Rightarrow> uint32 option"
  px_getaddrinfo :: "string \<Rightarrow> 'k \<Rightarrow> uint32 option \<times> 'k"
  px_setsockopt :: "int \<Rightarrow> 'k \<Rightarrow> 'k"
  px_connect :: "int \<Rightarrow> sockaddr_in \<Rightarrow> 'k \<Rightarrow> int \<times> 'k"
  px_bind :: "int \<Rightarrow> sockaddr_in \<Rightarrow> 'k \<Rightarrow> int \<times> 'k"
  px_listen :: "int \<Rightarrow> int \<Rightarrow> 'k \<Rightarrow> int \<times> 'k"
  px_getsockname :: "int \<Rightarrow> 'k \<Rightarrow> sockaddr_in option"
  px_accept :: "int \<Rightarrow> 'k \<Rightarrow> int \<times> 'k"
  px_send :: "int \<Rightarrow> string \<Rightarrow> 'k \<Rightarrow> int \<times> 'k"
  px_recv :: "int \<Rightarrow> nat \<Rightarrow> 'k \<Rightarrow> int \<times> string \<times> 'k"
  px_close :: "int \<Rightarrow> 'k \<Rightarrow> 'k"
  px_errno :: "'k \<Rightarrow> int"

text \<open>
  Descriptors: \<open>socket\<close> and \<open>accept\<close> return a descriptor that was not open and is open
  afterwards, or a negative number; \<open>close\<close> closes its argument; nothing else opens or closes.
\<close>

definition opens_one :: "('k \<Rightarrow> int set) \<Rightarrow> ('k \<Rightarrow> int \<times> 'k) \<Rightarrow> bool" where
  "opens_one opened f \<longleftrightarrow>
    (\<forall>k. let (fd, k') = f k in
       if fd < 0 then opened k' = opened k else fd \<notin> opened k \<and> opened k' = insert fd (opened k))"

definition fds_ok :: "'k posix \<Rightarrow> ('k \<Rightarrow> int set) \<Rightarrow> bool" where
  "fds_ok px opened \<longleftrightarrow>
    (\<forall>flags. opens_one opened (px_socket px flags)) \<and> (\<forall>fd. opens_one opened (px_accept px fd)) \<and>
    (\<forall>fd k. opened (px_close px fd k) = opened k - {fd}) \<and>
    (\<forall>h k. opened (snd (px_getaddrinfo px h k)) = opened k) \<and>
    (\<forall>fd k. opened (px_setsockopt px fd k) = opened k) \<and>
    (\<forall>fd a k. opened (snd (px_connect px fd a k)) = opened k) \<and>
    (\<forall>fd a k. opened (snd (px_bind px fd a k)) = opened k) \<and>
    (\<forall>fd n k. opened (snd (px_listen px fd n k)) = opened k)"

lemma opens_oneD:
  assumes "opens_one opened f" and "f k = (fd, k')"
  shows "fd < 0 \<Longrightarrow> opened k' = opened k"
    and "\<not> fd < 0 \<Longrightarrow> fd \<notin> opened k \<and> opened k' = insert fd (opened k)"
proof -
  have "let (fd, k') = f k in
     if fd < 0 then opened k' = opened k else fd \<notin> opened k \<and> opened k' = insert fd (opened k)"
    using assms(1) unfolding opens_one_def by (rule spec)
  with assms(2) show "fd < 0 \<Longrightarrow> opened k' = opened k"
    and "\<not> fd < 0 \<Longrightarrow> fd \<notin> opened k \<and> opened k' = insert fd (opened k)" by simp_all
qed

lemma fds_ok_opens:
  assumes "fds_ok px opened"
  shows "opens_one opened (px_socket px flags)" and "opens_one opened (px_accept px fd)"
  using assms by (simp_all add: fds_ok_def)

lemma fds_ok_keeps:
  assumes "fds_ok px opened"
  shows "opened (px_close px fd k) = opened k - {fd}"
    and "opened (snd (px_getaddrinfo px h k)) = opened k"
    and "opened (px_setsockopt px fd k) = opened k"
    and "opened (snd (px_connect px fd a k)) = opened k"
    and "opened (snd (px_bind px fd a k)) = opened k"
    and "opened (snd (px_listen px fd n k)) = opened k"
  using assms by (simp_all add: fds_ok_def)

text \<open>
  A connected stream: \<open>sent k\<close> are the bytes the kernel has accepted on a descriptor so far and
  \<open>arriving k\<close> those it has still to deliver.  A transfer returns how many bytes of the front it
  took or delivered, at most what was offered; a failed one transfers nothing.
\<close>

definition send_ok :: "('k \<Rightarrow> string) \<Rightarrow> (string \<Rightarrow> 'k \<Rightarrow> int \<times> 'k) \<Rightarrow> bool" where
  "send_ok sent send \<longleftrightarrow>
    (\<forall>data k. let (n, k') = send data k in
       n \<le> int (length data) \<and> sent k' = sent k @ take (nat n) data)"

definition recv_ok :: "('k \<Rightarrow> string) \<Rightarrow> (nat \<Rightarrow> 'k \<Rightarrow> int \<times> string \<times> 'k) \<Rightarrow> bool" where
  "recv_ok arriving recv \<longleftrightarrow>
    (\<forall>n k. let (r, bs, k') = recv n k in
       r \<le> int n \<and> length bs = nat r \<and> arriving k = bs @ arriving k')"

lemma send_okD:
  assumes "send_ok sent send" and "send data k = (n, k')"
  shows "nat n \<le> length data" and "sent k' = sent k @ take (nat n) data"
  using assms by (auto simp: send_ok_def Let_def nat_le_iff dest!: spec [of _ data] spec [of _ k])

lemma recv_okD:
  assumes "recv_ok arriving recv" and "recv n k = (r, bs, k')"
  shows "nat r \<le> n" and "length bs = nat r" and "arriving k = bs @ arriving k'"
  using assms by (auto simp: recv_ok_def Let_def nat_le_iff dest!: spec [of _ n] spec [of _ k])

subsection \<open>Buffers\<close>

text \<open>
  A \<open>std::vector<char>\<close> or a resized \<open>std::string\<close> of a given size holds null characters, and
  \<open>resize\<close> cuts a buffer off or fills it up with them.  (A size beyond \<open>max_size()\<close>, which
  throws, is not considered.)
\<close>

definition fresh_buffer :: "nat \<Rightarrow> string" where
  "fresh_buffer n = replicate n (char_of (0 :: nat))"

definition vec_resize :: "string \<Rightarrow> nat \<Rightarrow> string" where
  "vec_resize buf n = take n buf @ fresh_buffer (n - length buf)"

lemma length_fresh_buffer [simp]: "length (fresh_buffer n) = n"
  by (simp add: fresh_buffer_def)

lemma fresh_buffer_0 [simp]: "fresh_buffer 0 = []"
  by (simp add: fresh_buffer_def)

lemma vec_resize_shrink [simp]: "n \<le> length buf \<Longrightarrow> vec_resize buf n = take n buf"
  by (simp add: vec_resize_def fresh_buffer_def)

definition store :: "'a list \<Rightarrow> nat \<Rightarrow> 'a list \<Rightarrow> 'a list" where
  "store buf pos bs = take pos buf @ bs @ drop (pos + length bs) buf"

lemma length_store [simp]: "pos + length bs \<le> length buf \<Longrightarrow> length (store buf pos bs) = length buf"
  by (simp add: store_def)

lemma take_store [simp]:
  "pos + length bs \<le> length buf \<Longrightarrow> take (pos + length bs) (store buf pos bs) = take pos buf @ bs"
  by (simp add: store_def)

subsection \<open>Repeated partial transfers\<close>

text \<open>
  The reference for the loops \<open>while (done < len) { n = call(done); if (n <= 0) stop; done += n; }\<close>:
  the position reached, the result that stopped the loop (if any) and the final state.
  Positions are sizes of objects in memory, below \<open>2 ^ 63\<close>, and \<open>n\<close> is a signed 64-bit number, so
  the unsigned additions of the sources do not wrap.
\<close>

function transfer :: "(nat \<Rightarrow> 's \<Rightarrow> int \<times> 's) \<Rightarrow> nat \<Rightarrow> nat \<Rightarrow> 's \<Rightarrow> nat \<times> int option \<times> 's" where
  "transfer call len pos s =
    (if pos < len
     then let (n, s') = call pos s in
       if n \<le> 0 then (pos, Some n, s') else transfer call len (pos + nat n) s'
     else (pos, None, s))"
  by pat_completeness auto
termination
  by (relation "measure (\<lambda>(call, len, pos, s). len - pos)") auto

declare transfer.simps [simp del]

text \<open>
  The rule for such a loop: an invariant of position and state that each call keeps.  The loop
  ends at the full length, or at a call that transferred nothing, made in a state where the
  invariant held.
\<close>

lemma transfer_rule:
  assumes "I pos s" and "pos \<le> len"
    and step: "\<And>p s n s'. I p s \<Longrightarrow> p < len \<Longrightarrow> call p s = (n, s') \<Longrightarrow> I (p + nat n) s' \<and> p + nat n \<le> len"
    and run: "transfer call len pos s = (p', stop, s')"
  shows "I p' s' \<and> pos \<le> p' \<and> p' \<le> len \<and>
    (case stop of None \<Rightarrow> p' = len | Some n \<Rightarrow> p' < len \<and> n \<le> 0 \<and> (\<exists>s1. I p' s1 \<and> call p' s1 = (n, s')))"
  using assms(1,2) run
proof (induction "len - pos" arbitrary: pos s rule: less_induct)
  case less
  show ?case
  proof (cases "pos < len")
    case True
    obtain n s1 where call: "call pos s = (n, s1)" by (cases "call pos s")
    note next_state = step [OF less.prems(1) True call]
    show ?thesis
    proof (cases "n \<le> 0")
      case True
      with \<open>pos < len\<close> call less.prems(1,3) next_state show ?thesis
        by (auto simp: transfer.simps)
    next
      case False
      then have "transfer call len (pos + nat n) s1 = (p', stop, s')"
        using \<open>pos < len\<close> call less.prems(3) by (simp add: transfer.simps [of call len pos])
      moreover have "len - (pos + nat n) < len - pos" using \<open>pos < len\<close> False by simp
      ultimately have "I p' s' \<and> pos + nat n \<le> p' \<and> p' \<le> len \<and>
          (case stop of None \<Rightarrow> p' = len | Some n \<Rightarrow> p' < len \<and> n \<le> 0 \<and> (\<exists>s1. I p' s1 \<and> call p' s1 = (n, s')))"
        using less.hyps [of "pos + nat n" s1] next_state by simp
      then show ?thesis by simp
    qed
  next
    case False
    with less.prems show ?thesis by (simp add: transfer.simps)
  qed
qed

text \<open>
  Sending: each call offers a part of the rest of the data, beginning where the last one ended.
  What the kernel has accepted in the end is the front of the data up to the position reached.
\<close>

lemma transfer_send:
  assumes ok: "send_ok sent send"
    and run: "transfer (\<lambda>p. send (take (c p) (drop p data))) (length data) 0 k = (p, stop, k')"
  shows "sent k' = sent k @ take p data \<and> p \<le> length data \<and>
    (case stop of None \<Rightarrow> p = length data | Some n \<Rightarrow> p < length data \<and> n \<le> 0)"
proof -
  have "sent s' = sent k @ take (p + nat n) data \<and> p + nat n \<le> length data"
    if "sent s = sent k @ take p data" and "p < length data"
      and "send (take (c p) (drop p data)) s = (n, s')" for p s n s'
    using send_okD [OF ok that(3)] that(1,2) by (auto simp: min_absorb1 take_add)
  from transfer_rule [where I = "\<lambda>p s. sent s = sent k @ take p data", OF _ _ this run]
  show ?thesis by (auto split: option.splits)
qed

text \<open>
  Receiving: each call offers the rest of the buffer, or less.  What the kernel has delivered in
  the end is the front of the buffer.
\<close>

lemma transfer_recv:
  assumes ok: "recv_ok arriving recv" and c: "\<And>p. p < n \<Longrightarrow> c p \<le> n - p" and len: "length buf = n"
    and run: "transfer (\<lambda>p (buf, k). let (r, bs, k') = recv (c p) k in (r, store buf p bs, k')) n 0 (buf, k) =
      (p, stop, buf', k')"
  shows "length buf' = n \<and> arriving k = take p buf' @ arriving k' \<and> p \<le> n \<and>
    (case stop of None \<Rightarrow> p = n | Some n' \<Rightarrow> p < n \<and> n' \<le> 0)"
proof -
  let ?I = "\<lambda>p s. length (fst s) = n \<and> arriving k = take p (fst s) @ arriving (snd s)"
    and ?call = "\<lambda>p (buf, k). let (r, bs, k') = recv (c p) k in (r, store buf p bs, k')"
  have step: "?I (p + nat r) s' \<and> p + nat r \<le> n"
    if I: "?I p s" and p: "p < n"
      and eq: "?call p s = (r, s')" for p s r s'
  proof -
    obtain b k1 where s: "s = (b, k1)" by (cases s)
    obtain r' bs k2 where r: "recv (c p) k1 = (r', bs, k2)" by (cases "recv (c p) k1")
    have [simp]: "r' = r" "s' = (store b p bs, k2)" using eq s r by simp_all
    have "length bs = nat r" "p + length bs \<le> n" "arriving k1 = bs @ arriving k2"
      using recv_okD [OF ok r] c [OF p] p by simp_all
    with I s show ?thesis using take_store [of p bs b] by simp
  qed
  have "?I 0 (buf, k)" by (simp add: len)
  then have "?I p (buf', k') \<and> 0 \<le> p \<and> p \<le> n \<and> (case stop of None \<Rightarrow> p = n
      | Some m \<Rightarrow> p < n \<and> m \<le> 0 \<and> (\<exists>s1. ?I p s1 \<and> ?call p s1 = (m, (buf', k'))))"
    by (rule transfer_rule [where I = ?I and call = ?call, OF _ _ _ run]) (simp, erule (2) step)
  then show ?thesis by (auto split: option.splits)
qed

subsection \<open>A kernel for the witnesses\<close>

text \<open>
  Descriptor 3 is a connected socket that accepts two bytes and delivers one at a time; the other
  descriptors are numbered from 4.
\<close>

record toy_kernel =
  tk_open :: "int list"
  tk_sent :: string
  tk_arriving :: string
  tk_buffer :: string

definition toy_new_fd :: "toy_kernel \<Rightarrow> int \<times> toy_kernel" where
  "toy_new_fd k = (let fd = 4 + fold max (tk_open k) 0 in (fd, k\<lparr>tk_open := fd # tk_open k\<rparr>))"

definition toy_posix :: "toy_kernel posix" where
  "toy_posix = \<lparr>px_socket = (\<lambda>_. toy_new_fd), px_inet_pton = (\<lambda>h. if h = ''127.0.0.1'' then Some 1 else None),
    px_getaddrinfo = (\<lambda>_ k. (None, k)), px_setsockopt = (\<lambda>_ k. k), px_connect = (\<lambda>_ _ k. (0, k)),
    px_bind = (\<lambda>_ _ k. (0, k)), px_listen = (\<lambda>_ _ k. (0, k)), px_getsockname = (\<lambda>_ _. None),
    px_accept = (\<lambda>_. toy_new_fd),
    px_send = (\<lambda>_ data k. (int (length (take 2 data)), k\<lparr>tk_sent := tk_sent k @ take 2 data\<rparr>)),
    px_recv = (\<lambda>_ n k. let bs = take (min n 1) (tk_arriving k) in
      (int (length bs), bs, k\<lparr>tk_arriving := drop (min n 1) (tk_arriving k)\<rparr>)),
    px_close = (\<lambda>fd k. k\<lparr>tk_open := filter (\<lambda>x. x \<noteq> fd) (tk_open k)\<rparr>), px_errno = (\<lambda>_. 0)\<rparr>"

lemma fold_max_ge: "(a :: int) \<le> fold max xs a \<and> (\<forall>x \<in> set xs. x \<le> fold max xs a)"
proof (induction xs arbitrary: a)
  case (Cons x xs)
  from Cons [of "max x a"] show ?case by auto
qed simp

lemma toy_new_fd_opens: "opens_one (set \<circ> tk_open) toy_new_fd"
proof -
  have "4 + fold max xs 0 \<notin> set xs \<and> \<not> 4 + fold max xs 0 < (0 :: int)" for xs :: "int list"
    using fold_max_ge [of 0 xs] by fastforce
  then show ?thesis by (simp add: opens_one_def toy_new_fd_def Let_def del: not_less)
qed

lemma toy_posix_ok:
  "fds_ok toy_posix (set \<circ> tk_open)"
  "send_ok tk_sent (px_send toy_posix fd)"
  "recv_ok tk_arriving (px_recv toy_posix fd)"
  using toy_new_fd_opens
  by (auto simp: toy_posix_def fds_ok_def send_ok_def recv_ok_def Let_def min_def)

end
