(* ===== verification/Sync_Tcp.thy ===== *)
theory Sync_Tcp
  imports Posix Raii
begin

text \<open>
  The blocking sockets of \<open>io/sync_tcp.hpp\<close> and \<open>io/sync_tcp.cpp\<close>: \<open>SyncTcpStream\<close> with
  \<open>Connect\<close>, the single and the repeated transfers and its descriptor, and \<open>SyncTcpListener\<close>.
  The system calls are those of a kernel given as parameter.  What a move assignment, \<open>Close\<close>
  or a destructor passes to \<open>close\<close> is returned as a list.
\<close>

subsection \<open>SyncTcpStream\<close>

record SyncTcpStream =
  sts_fd :: int

definition SyncTcpStream_init :: SyncTcpStream where
  "SyncTcpStream_init = \<lparr>sts_fd = -1\<rparr>"

definition SyncTcpStream_Close :: "SyncTcpStream \<Rightarrow> SyncTcpStream \<times> int list" where
  "SyncTcpStream_Close s = (if 0 \<le> sts_fd s then (s\<lparr>sts_fd := -1\<rparr>, [sts_fd s]) else (s, []))"

definition SyncTcpStream_destroy :: "SyncTcpStream \<Rightarrow> int list" where
  "SyncTcpStream_destroy s = snd (SyncTcpStream_Close s)"

definition SyncTcpStream_move :: "SyncTcpStream \<Rightarrow> SyncTcpStream \<times> SyncTcpStream" where
  "SyncTcpStream_move other = (\<lparr>sts_fd = sts_fd other\<rparr>, other\<lparr>sts_fd := -1\<rparr>)"

definition SyncTcpStream_assign ::
  "SyncTcpStream \<Rightarrow> SyncTcpStream \<Rightarrow> SyncTcpStream \<times> SyncTcpStream \<times> int list" where
  "SyncTcpStream_assign this other =
    (let (this, closed) = SyncTcpStream_Close this
     in (this\<lparr>sts_fd := sts_fd other\<rparr>, other\<lparr>sts_fd := -1\<rparr>, closed))"

definition SyncTcpStream_IsOpen :: "SyncTcpStream \<Rightarrow> bool" where
  "SyncTcpStream_IsOpen s \<longleftrightarrow> 0 \<le> sts_fd s"

definition SyncTcpStream_Connect ::
  "'k posix \<Rightarrow> string \<Rightarrow> uint16 \<Rightarrow> 'k \<Rightarrow> (SyncTcpStream, error_code) Result \<times> 'k" where
  "SyncTcpStream_Connect px host port k =
    (let (sockfd, k) = px_socket px 0 k in
     if sockfd < 0 then (Err (make_error_code SocketCreateFailed), k)
     else
       let addr = \<lparr>sin_port = htons port, sin_addr = 0\<rparr>;
           (resolved, k) = (case px_inet_pton px host of
              Some a \<Rightarrow> (Some a, k) | None \<Rightarrow> px_getaddrinfo px host k)
       in case resolved of
            None \<Rightarrow> (Err (make_error_code ResolveFailed), px_close px sockfd k)
          | Some a \<Rightarrow>
              let (r, k) = px_connect px sockfd (addr\<lparr>sin_addr := a\<rparr>) k in
              if r < 0 then (Err (make_error_code ConnectFailed), px_close px sockfd k)
              else (Ok \<lparr>sts_fd = sockfd\<rparr>, k))"

definition SyncTcpStream_Send ::
  "'k posix \<Rightarrow> string \<Rightarrow> SyncTcpStream \<Rightarrow> 'k \<Rightarrow> (int, error_code) Result \<times> 'k" where
  "SyncTcpStream_Send px data s k =
    (if sts_fd s < 0 then (Err (make_error_code NotConnected), k)
     else
       let (n, k) = px_send px (sts_fd s) data k in
       if n < 0 then (Err (make_error_code SendFailed), k) else (Ok n, k))"

function SendAll_loop ::
  "'k posix \<Rightarrow> int \<Rightarrow> string \<Rightarrow> nat \<Rightarrow> 'k \<Rightarrow> error_code VoidResult \<times> 'k" where
  "SendAll_loop px fd data sent k =
    (if sent < length data
     then let (n, k) = px_send px fd (drop sent data) k in
       if n \<le> 0 then (VoidResult_Err (make_error_code SendFailed), k)
       else SendAll_loop px fd data (sent + nat n) k
     else (VoidResult_Ok, k))"
  by pat_completeness auto
termination
  by (relation "measure (\<lambda>(px, fd, data, sent, k). length data - sent)") auto

definition SyncTcpStream_SendAll ::
  "'k posix \<Rightarrow> string \<Rightarrow> SyncTcpStream \<Rightarrow> 'k \<Rightarrow> error_code VoidResult \<times> 'k" where
  "SyncTcpStream_SendAll px data s k =
    (if sts_fd s < 0 then (VoidResult_Err (make_error_code NotConnected), k)
     else SendAll_loop px (sts_fd s) data 0 k)"

definition SyncTcpStream_Recv ::
  "'k posix \<Rightarrow> nat \<Rightarrow> SyncTcpStream \<Rightarrow> 'k \<Rightarrow> (string, error_code) Result \<times> 'k" where
  "SyncTcpStream_Recv px max_bytes s k =
    (if sts_fd s < 0 then (Err (make_error_code NotConnected), k)
     else
       let (n, bs, k) = px_recv px (sts_fd s) max_bytes k;
           buf = store (fresh_buffer max_bytes) 0 bs
       in if n < 0 then (Err (make_error_code RecvFailed), k)
          else (Ok (vec_resize buf (nat n)), k))"

function RecvExact_loop ::
  "'k posix \<Rightarrow> int \<Rightarrow> nat \<Rightarrow> nat \<Rightarrow> string \<Rightarrow> 'k \<Rightarrow> (string, error_code) Result \<times> 'k" where
  "RecvExact_loop px fd n received result k =
    (if received < n
     then let (r, bs, k) = px_recv px fd (n - received) k;
              result = store result received bs
       in if r \<le> 0 then (Err (make_error_code RecvFailed), k)
          else RecvExact_loop px fd n (received + nat r) result k
     else (Ok result, k))"
  by pat_completeness auto
termination
  by (relation "measure (\<lambda>(px, fd, n, received, result, k). n - received)") auto

definition SyncTcpStream_RecvExact ::
  "'k posix \<Rightarrow> nat \<Rightarrow> SyncTcpStream \<Rightarrow> 'k \<Rightarrow> (string, error_code) Result \<times> 'k" where
  "SyncTcpStream_RecvExact px n s k =
    (if sts_fd s < 0 then (Err (make_error_code NotConnected), k)
     else RecvExact_loop px (sts_fd s) n 0 (fresh_buffer n) k)"

declare SendAll_loop.simps [simp del] RecvExact_loop.simps [simp del]

lemmas SyncTcpStream_defs [op_defs] =
  SyncTcpStream_init_def SyncTcpStream_Close_def SyncTcpStream_destroy_def SyncTcpStream_move_def
  SyncTcpStream_assign_def SyncTcpStream_IsOpen_def

subsection \<open>SyncTcpListener\<close>

record SyncTcpListener =
  stl_fd :: int
  stl_port :: uint16

definition SyncTcpListener_init :: SyncTcpListener where
  "SyncTcpListener_init = \<lparr>stl_fd = -1, stl_port = 0\<rparr>"

definition SyncTcpListener_destroy :: "SyncTcpListener \<Rightarrow> int list" where
  "SyncTcpListener_destroy l = (if 0 \<le> stl_fd l then [stl_fd l] else [])"

definition SyncTcpListener_move :: "SyncTcpListener \<Rightarrow> SyncTcpListener \<times> SyncTcpListener" where
  "SyncTcpListener_move other =
    (\<lparr>stl_fd = stl_fd other, stl_port = stl_port other\<rparr>, other\<lparr>stl_fd := -1, stl_port := 0\<rparr>)"

definition SyncTcpListener_assign ::
  "SyncTcpListener \<Rightarrow> SyncTcpListener \<Rightarrow> SyncTcpListener \<times> SyncTcpListener \<times> int list" where
  "SyncTcpListener_assign this other =
    (this\<lparr>stl_fd := stl_fd other, stl_port := stl_port other\<rparr>, other\<lparr>stl_fd := -1, stl_port := 0\<rparr>,
     if 0 \<le> stl_fd this then [stl_fd this] else [])"

definition SyncTcpListener_Listen ::
  "'k posix \<Rightarrow> string \<Rightarrow> uint16 \<Rightarrow> int \<Rightarrow> 'k \<Rightarrow> (SyncTcpListener, error_code) Result \<times> 'k" where
  "SyncTcpListener_Listen px host port backlog k =
    (let (sockfd, k) = px_socket px 0 k in
     if sockfd < 0 then (Err (make_error_code SocketCreateFailed), k)
     else
       let k = px_setsockopt px sockfd k;
           addr = \<lparr>sin_port = htons port, sin_addr = 0\<rparr>;
           parsed = (if host = ''0.0.0.0'' \<or> host = [] then Some INADDR_ANY else px_inet_pton px host)
       in case parsed of
            None \<Rightarrow> (Err (make_error_code InvalidAddress), px_close px sockfd k)
          | Some a \<Rightarrow>
              let addr = addr\<lparr>sin_addr := a\<rparr>; (r, k) = px_bind px sockfd addr k in
              if r < 0 then (Err (make_error_code BindFailed), px_close px sockfd k)
              else let (r, k) = px_listen px sockfd backlog k in
                if r < 0 then (Err (make_error_code ListenFailed), px_close px sockfd k)
                else
                  let addr = (case px_getsockname px sockfd k of Some a' \<Rightarrow> a' | None \<Rightarrow> addr)
                  in (Ok (SyncTcpListener_init\<lparr>stl_fd := sockfd, stl_port := ntohs (sin_port addr)\<rparr>), k))"

definition SyncTcpListener_Accept ::
  "'k posix \<Rightarrow> SyncTcpListener \<Rightarrow> 'k \<Rightarrow> (SyncTcpStream, error_code) Result \<times> 'k" where
  "SyncTcpListener_Accept px l k =
    (if stl_fd l < 0 then (Err (make_error_code ListenerNotInitialized), k)
     else
       let (client_fd, k) = px_accept px (stl_fd l) k in
       if client_fd < 0 then (Err (make_error_code AcceptFailed), k)
       else (Ok \<lparr>sts_fd = client_fd\<rparr>, k))"

lemmas SyncTcpListener_defs [op_defs] =
  SyncTcpListener_init_def SyncTcpListener_destroy_def SyncTcpListener_move_def
  SyncTcpListener_assign_def

subsection \<open>Descriptors have one owner\<close>

definition fd_res :: "int \<Rightarrow> int option" where
  "fd_res fd = (if 0 \<le> fd then Some fd else None)"

lemma opt_list_fd_res [simp]: "opt_list (fd_res fd) = (if 0 \<le> fd then [fd] else [])"
  by (simp add: fd_res_def)

interpretation sync_stream: unique_owner "fd_res \<circ> sts_fd" SyncTcpStream_move SyncTcpStream_assign
  SyncTcpStream_destroy
  by unfold_locales (simp_all add: SyncTcpStream_defs Let_def, simp_all add: fd_res_def)

interpretation sync_listener: unique_owner "fd_res \<circ> stl_fd" SyncTcpListener_move SyncTcpListener_assign
  SyncTcpListener_destroy
  by unfold_locales (simp_all add: SyncTcpListener_defs, simp_all add: fd_res_def)

subsection \<open>No descriptor is leaked\<close>

definition owns_new_fd :: "('k \<Rightarrow> int set) \<Rightarrow> ('a \<Rightarrow> int) \<Rightarrow> 'k \<Rightarrow> ('a, error_code) Result \<times> 'k \<Rightarrow> bool" where
  "owns_new_fd opened fd_of k out \<longleftrightarrow>
    (case out of
       (Ok s, k') \<Rightarrow> 0 \<le> fd_of s \<and> fd_of s \<notin> opened k \<and> opened k' = insert (fd_of s) (opened k)
     | (Err e, k') \<Rightarrow> opened k' = opened k)"

lemma Connect_owns:
  assumes "fds_ok px opened"
  shows "owns_new_fd opened sts_fd k (SyncTcpStream_Connect px host port k)"
proof -
  obtain fd k1 where s: "px_socket px 0 k = (fd, k1)" by (cases "px_socket px 0 k")
  obtain resolved k2 where g: "(case px_inet_pton px host of
      Some a \<Rightarrow> (Some a, k1) | None \<Rightarrow> px_getaddrinfo px host k1) = (resolved, k2)"
    by (cases "case px_inet_pton px host of Some a \<Rightarrow> (Some a, k1) | None \<Rightarrow> px_getaddrinfo px host k1")
  note one = opens_oneD [OF fds_ok_opens(1) [OF assms] s] and keep = fds_ok_keeps [OF assms]
  have k2: "opened k2 = opened k1" using g keep(2) [of host k1] by (auto split: option.splits)
  show ?thesis
  proof (cases "fd < 0")
    case True
    with one(1) show ?thesis by (simp add: owns_new_fd_def SyncTcpStream_Connect_def s)
  next
    case False
    note fresh = one(2) [OF False]
    show ?thesis
    proof (cases resolved)
      case None
      with False fresh k2 show ?thesis
        by (auto simp: owns_new_fd_def SyncTcpStream_Connect_def s g keep Let_def)
    next
      case (Some a)
      obtain r k3 where c: "px_connect px fd \<lparr>sin_port = htons port, sin_addr = a\<rparr> k2 = (r, k3)"
        by (cases "px_connect px fd \<lparr>sin_port = htons port, sin_addr = a\<rparr> k2")
      have "opened k3 = opened k2" using keep(4) [of fd "\<lparr>sin_port = htons port, sin_addr = a\<rparr>" k2] by (simp add: c)
      with False fresh Some k2 show ?thesis
        by (auto simp: owns_new_fd_def SyncTcpStream_Connect_def s g keep Let_def c)
    qed
  qed
qed

lemma Listen_owns:
  assumes "fds_ok px opened"
  shows "owns_new_fd opened stl_fd k (SyncTcpListener_Listen px host port backlog k)"
proof -
  obtain fd k1 where s: "px_socket px 0 k = (fd, k1)" by (cases "px_socket px 0 k")
  define parsed where "parsed = (if host = ''0.0.0.0'' \<or> host = [] then Some INADDR_ANY else px_inet_pton px host)"
  note one = opens_oneD [OF fds_ok_opens(1) [OF assms] s] and keep = fds_ok_keeps [OF assms]
  show ?thesis
  proof (cases "fd < 0")
    case True
    with one(1) show ?thesis by (simp add: owns_new_fd_def SyncTcpListener_Listen_def s)
  next
    case False
    note fresh = one(2) [OF False]
    show ?thesis
    proof (cases parsed)
      case None
      with False fresh show ?thesis
        by (auto simp: owns_new_fd_def SyncTcpListener_Listen_def s keep Let_def parsed_def [symmetric])
    next
      case (Some a)
      define addr where "addr = \<lparr>sin_port = htons port, sin_addr = a\<rparr>"
      obtain r k2 where b: "px_bind px fd addr (px_setsockopt px fd k1) = (r, k2)"
        by (cases "px_bind px fd addr (px_setsockopt px fd k1)")
      obtain r' k3 where l: "px_listen px fd backlog k2 = (r', k3)" by (cases "px_listen px fd backlog k2")
      have "opened k2 = opened k1" "opened k3 = opened k2"
        using keep(5) [of fd addr "px_setsockopt px fd k1"] keep(3) [of fd k1] keep(6) [of fd backlog k2]
        by (simp_all add: b l)
      with False fresh Some show ?thesis
        by (auto simp: owns_new_fd_def SyncTcpListener_Listen_def s keep Let_def b l
            parsed_def [symmetric] addr_def [symmetric])
    qed
  qed
qed

lemma Accept_owns:
  assumes "fds_ok px opened"
  shows "owns_new_fd opened sts_fd k (SyncTcpListener_Accept px l k)"
proof -
  obtain fd k1 where a: "px_accept px (stl_fd l) k = (fd, k1)" by (cases "px_accept px (stl_fd l) k")
  show ?thesis
    using opens_oneD [OF fds_ok_opens(2) [OF assms] a]
    by (auto simp: owns_new_fd_def SyncTcpListener_Accept_def a Let_def)
qed

text \<open>
  Descriptors of blocking sockets:  If the kernel hands out descriptors as documented,
  \<open>Connect\<close>, \<open>Listen\<close> and \<open>Accept\<close> leave exactly one more descriptor open when they succeed, the
  one their result owns, and none when they fail, on every branch.
\<close>

theorem sync_tcp_descriptors:
  assumes "fds_ok px opened"
  shows "owns_new_fd opened sts_fd k (SyncTcpStream_Connect px host port k) \<and>
    owns_new_fd opened stl_fd k (SyncTcpListener_Listen px host port backlog k) \<and>
    owns_new_fd opened sts_fd k (SyncTcpListener_Accept px l k)"
  using assms by (simp add: Connect_owns Listen_owns Accept_owns)

subsection \<open>Repeated transfers\<close>

lemma SendAll_loop_transfer:
  "SendAll_loop px fd data pos k =
    (case transfer (\<lambda>p. px_send px fd (drop p data)) (length data) pos k of
       (p, stop, k') \<Rightarrow> (if stop = None then VoidResult_Ok else VoidResult_Err (make_error_code SendFailed), k'))"
proof (induction px fd data pos k rule: SendAll_loop.induct)
  case (1 px fd data pos k)
  then show ?case
    by (subst SendAll_loop.simps, subst transfer.simps) (auto split: prod.splits)
qed

lemma RecvExact_loop_transfer:
  "RecvExact_loop px fd n pos buf k =
    (case transfer (\<lambda>p (buf, k). let (r, bs, k') = px_recv px fd (n - p) k in (r, store buf p bs, k')) n pos (buf, k) of
       (p, stop, buf', k') \<Rightarrow> (if stop = None then Ok buf' else Err (make_error_code RecvFailed), k'))"
proof (induction px fd n pos buf k rule: RecvExact_loop.induct)
  case (1 px fd n pos buf k)
  then show ?case
    by (subst RecvExact_loop.simps, subst transfer.simps) (auto simp: Let_def split: prod.splits)
qed

lemma SendAll_effect:
  assumes "send_ok sent (px_send px (sts_fd s))" and "SyncTcpStream_IsOpen s"
    and "SyncTcpStream_SendAll px data s k = (r, k')"
  shows "if VoidResult_IsOk r then sent k' = sent k @ data
    else vr_error r = Some (make_error_code SendFailed) \<and> (\<exists>m < length data. sent k' = sent k @ take m data)"
proof -
  obtain p stop k1 where t: "transfer (\<lambda>p. px_send px (sts_fd s) (drop p data)) (length data) 0 k = (p, stop, k1)"
    by (cases "transfer (\<lambda>p. px_send px (sts_fd s) (drop p data)) (length data) 0 k") auto
  have "sent k1 = sent k @ take p data \<and> p \<le> length data \<and>
      (case stop of None \<Rightarrow> p = length data | Some n \<Rightarrow> p < length data \<and> n \<le> 0)"
    using transfer_send [OF assms(1), of "\<lambda>p. length data - p" data k p stop k1] t by simp
  with assms(2,3) t show ?thesis
    by (auto simp: SyncTcpStream_IsOpen_def SyncTcpStream_SendAll_def SendAll_loop_transfer VoidResult_defs
        split: option.splits)
qed

lemma RecvExact_effect:
  assumes "recv_ok arriving (px_recv px (sts_fd s))" and "SyncTcpStream_IsOpen s"
    and "SyncTcpStream_RecvExact px n s k = (r, k')"
  shows "case r of Ok bs \<Rightarrow> length bs = n \<and> arriving k = bs @ arriving k'
    | Err e \<Rightarrow> e = make_error_code RecvFailed \<and> (\<exists>bs. length bs < n \<and> arriving k = bs @ arriving k')"
proof -
  let ?c = "\<lambda>p (buf, k). let (r, bs, k') = px_recv px (sts_fd s) (n - p) k in (r, store buf p bs, k')"
  obtain p stop b k1 where t: "transfer ?c n 0 (fresh_buffer n, k) = (p, stop, b, k1)"
    by (cases "transfer ?c n 0 (fresh_buffer n, k)") auto
  have *: "length b = n \<and> arriving k = take p b @ arriving k1 \<and> p \<le> n \<and>
      (case stop of None \<Rightarrow> p = n | Some n' \<Rightarrow> p < n \<and> n' \<le> 0)"
    using transfer_recv [OF assms(1), of n "\<lambda>p. n - p" "fresh_buffer n" k] t by simp
  have eq: "(r, k') = (if stop = None then Ok b else Err (make_error_code RecvFailed), k1)"
    using assms(2,3) t
    by (simp add: SyncTcpStream_IsOpen_def SyncTcpStream_RecvExact_def RecvExact_loop_transfer)
  show ?thesis
  proof (cases stop)
    case None
    with eq * show ?thesis by simp
  next
    case (Some m)
    with * have "length (take p b) < n \<and> arriving k = take p b @ arriving k1" by simp
    with eq Some show ?thesis by (auto intro: exI [of _ "take p b"])
  qed
qed

text \<open>
  Property C25 (blocking transfers).  On a connected stream, over any kernel that transfers bytes
  in order, in pieces of whatever size: \<open>SendAll\<close> and \<open>RecvExact\<close> return; on success the kernel has
  accepted exactly the given bytes, respectively the result is exactly the next \<open>n\<close> bytes and
  nothing more has been taken; on failure a proper prefix was transferred and the error is
  \<open>SendFailed\<close> or \<open>RecvFailed\<close>.
\<close>

theorem sync_tcp_transfers:
  assumes "send_ok sent (px_send px (sts_fd s))" and "recv_ok arriving (px_recv px (sts_fd s))"
    and "SyncTcpStream_IsOpen s"
  shows "(case SyncTcpStream_SendAll px data s k of (r, k') \<Rightarrow>
      if VoidResult_IsOk r then sent k' = sent k @ data
      else vr_error r = Some (make_error_code SendFailed) \<and> (\<exists>m < length data. sent k' = sent k @ take m data)) \<and>
    (case SyncTcpStream_RecvExact px n s k of
       (Ok bs, k') \<Rightarrow> length bs = n \<and> arriving k = bs @ arriving k'
     | (Err e, k') \<Rightarrow> e = make_error_code RecvFailed \<and> (\<exists>bs. length bs < n \<and> arriving k = bs @ arriving k'))"
proof -
  obtain r k1 where 1: "SyncTcpStream_SendAll px data s k = (r, k1)" by (cases "SyncTcpStream_SendAll px data s k")
  obtain r' k2 where 2: "SyncTcpStream_RecvExact px n s k = (r', k2)" by (cases "SyncTcpStream_RecvExact px n s k")
  from SendAll_effect [OF assms(1,3) 1] RecvExact_effect [OF assms(2,3) 2] 1 2 show ?thesis
    by (cases r') (simp_all split: if_splits)
qed

subsection \<open>Witnesses\<close>

theorem sync_tcp_descriptors_witness:
  "owns_new_fd (set \<circ> tk_open) sts_fd \<lparr>tk_open = [3], tk_sent = [], tk_arriving = [], tk_buffer = []\<rparr>
    (SyncTcpStream_Connect toy_posix ''nowhere'' 80 \<lparr>tk_open = [3], tk_sent = [], tk_arriving = [], tk_buffer = []\<rparr>)"
  using sync_tcp_descriptors [OF toy_posix_ok(1)] by blast

theorem sync_tcp_transfers_witness:
  "tk_sent (snd (SyncTcpStream_SendAll toy_posix ''abc'' \<lparr>sts_fd = 3\<rparr>
     \<lparr>tk_open = [3], tk_sent = [], tk_arriving = ''xyz'', tk_buffer = []\<rparr>)) = ''abc'' \<and>
   fst (SyncTcpStream_RecvExact toy_posix 2 \<lparr>sts_fd = 3\<rparr>
     \<lparr>tk_open = [3], tk_sent = [], tk_arriving = ''xyz'', tk_buffer = []\<rparr>) = Ok ''xy''"
proof -
  let ?k = "\<lparr>tk_open = [3], tk_sent = [], tk_arriving = ''xyz'', tk_buffer = []\<rparr>" and ?s = "\<lparr>sts_fd = 3\<rparr>"
  have 1: "fst (SyncTcpStream_SendAll toy_posix ''abc'' ?s ?k) = VoidResult_Ok"
    by (simp add: SyncTcpStream_SendAll_def SendAll_loop.simps toy_posix_def)
  have 2: "SyncTcpStream_RecvExact toy_posix 2 ?s ?k = (Ok ''xy'', ?k\<lparr>tk_arriving := ''z''\<rparr>)"
    by (simp add: SyncTcpStream_RecvExact_def RecvExact_loop.simps toy_posix_def store_def fresh_buffer_def)
  have "SyncTcpStream_IsOpen ?s" by (simp add: SyncTcpStream_IsOpen_def)
  from sync_tcp_transfers [OF toy_posix_ok(2,3) this, where data = "''abc''" and n = 2 and k = ?k] 1 2
  show ?thesis by (auto simp: VoidResult_defs split: prod.splits)
qed

end
