(* ===== verification/Uring_Await.thy ===== *)
theory Uring_Await
  imports Iouring_Ops Posix
begin

text \<open>
  One \<open>co_await\<close> of an io_uring operation as the awaiting coroutine sees it.  The awaitable's own
  \<open>await_suspend\<close> (theory Iouring_Ops) is run on the executor of the current thread; when it suspends,
  everything up to the resumption (the kernel, the event loop, other coroutines) is the environment,
  a parameter: it is given the request that was prepared and the memory the request points to and
  answers with the completion, what the kernel stored there and the new state of the world.
  \<open>ue_buffers\<close> is the memory of the provided buffers, into which the kernel stores as well.

  The answer is a total function: these definitions describe coroutines whose awaited requests all complete.  A request
  that the kernel never completes, such as a receive from a peer that is connected and silent, leaves its
  coroutine suspended for good; such a run has no counterpart here, and a statement that a coroutine built from these
  operations comes to its end is one about the completed requests only.

  Addresses in requests are relative to the memory passed along, so a request for the bytes from
  \<open>data + pos\<close> has address 0 and the memory \<open>drop pos data\<close>.
\<close>

definition EIO :: int where "EIO = 5"
definition EBADF :: int where "EBADF = 9"
definition EINVAL :: int where "EINVAL = 22"
definition EALREADY :: int where "EALREADY = 114"

datatype io_mem = NoMem | MemBytes string | MemAddr sockaddr_in

record statx =
  stx_size :: uint64

record kernel_out =
  ko_bytes :: string
  ko_statx :: statx

definition no_out :: kernel_out where
  "no_out = \<lparr>ko_bytes = [], ko_statx = \<lparr>stx_size = 0\<rparr>\<rparr>"

record 'k uring_env =
  ue_executor :: "'k \<Rightarrow> IoUringExecutor option"
  ue_complete :: "sqe_op \<Rightarrow> io_mem \<Rightarrow> 'k \<Rightarrow> int \<times> uint32 \<times> kernel_out \<times> 'k"
  ue_buffers :: "'k \<Rightarrow> string"

text \<open>The request that \<open>await_suspend\<close> has just prepared: the last entry of the ring.\<close>

definition prepared_op :: "IoUringExecutor \<Rightarrow> sqe_op" where
  "prepared_op x = fst (last (ring_inflight (iu_ring x) @ ring_sq (iu_ring x)))"

definition co_await_io ::
  "'k uring_env \<Rightarrow> suspend_fun \<Rightarrow> io_mem \<Rightarrow> 'k \<Rightarrow> OpContext \<times> kernel_out \<times> 'k" where
  "co_await_io env suspend mem k =
    (let (suspended, ctx, x) = suspend 0 1 (ue_executor env k) io_ctx_init
     in if suspended
        then let (res, flags, out, k) = ue_complete env (prepared_op (the x)) mem k
             in (ctx\<lparr>oc_result := res, oc_cqe_flags := flags\<rparr>, out, k)
        else (ctx, no_out, k))"

text \<open>
  What is awaited is the request the awaitable describes, or it fails at once: the request reaches
  the kernel unchanged, and a negative result without any effect is the only other outcome.
\<close>

definition submittable :: "'k uring_env \<Rightarrow> 'k \<Rightarrow> bool" where
  "submittable env k \<longleftrightarrow>
    (case ue_executor env k of
       None \<Rightarrow> False | Some x \<Rightarrow> length (ring_sq (iu_ring x)) < ring_entries (iu_ring x))"

definition not_submitted :: "'k uring_env \<Rightarrow> 'k \<Rightarrow> int" where
  "not_submitted env k = (if ue_executor env k = None then - ENXIO else - EAGAIN)"

lemma not_submitted_neg [simp]: "not_submitted env k < 0"
  by (simp add: not_submitted_def ENXIO_def EAGAIN_def)

lemma co_await_io_result:
  "(case co_await_io env (io_await_suspend sub op) mem k of
      (ctx, out, k') \<Rightarrow> (io_await_resume ctx, oc_cqe_flags ctx, out, k')) =
   (if submittable env k then ue_complete env op mem k else (not_submitted env k, 0, no_out, k))"
  by (auto simp: co_await_io_def io_await_suspend_def submittable_def not_submitted_def io_await_resume_def
      io_ctx_init_def ring_prepare_def ring_submit_def prepared_op_def Let_def split: option.splits prod.splits)

subsection \<open>The operations\<close>

definition IoUringAccept :: "'k uring_env \<Rightarrow> int \<Rightarrow> int \<Rightarrow> 'k \<Rightarrow> int \<times> 'k" where
  "IoUringAccept env listen_fd flags k =
    (let (ctx, out, k) = co_await_io env (IoUringAcceptAwaitable_await_suspend (IoUringAcceptAwaitable_init listen_fd 0 0 flags)) NoMem k
     in (io_await_resume ctx, k))"

text \<open>\<open>sizeof(sockaddr_in)\<close> is 16.\<close>

definition IoUringConnect :: "'k uring_env \<Rightarrow> int \<Rightarrow> sockaddr_in \<Rightarrow> 'k \<Rightarrow> int \<times> 'k" where
  "IoUringConnect env fd addr k =
    (let (ctx, out, k) = co_await_io env (IoUringConnectAwaitable_await_suspend (IoUringConnectAwaitable_init fd 0 16)) (MemAddr addr) k
     in (io_await_resume ctx, k))"

definition IoUringRecv :: "'k uring_env \<Rightarrow> int \<Rightarrow> string \<Rightarrow> size_t \<Rightarrow> int \<Rightarrow> 'k \<Rightarrow> int \<times> string \<times> 'k" where
  "IoUringRecv env fd buf len flags k =
    (let (ctx, out, k) = co_await_io env (IoUringRecvAwaitable_await_suspend (IoUringRecvAwaitable_init fd 0 len flags)) (MemBytes buf) k
     in (io_await_resume ctx, ko_bytes out, k))"

definition IoUringRecvProvided ::
  "'k uring_env \<Rightarrow> int \<Rightarrow> uint16 \<Rightarrow> int \<Rightarrow> 'k \<Rightarrow> (int \<times> uint32) \<times> string \<times> 'k" where
  "IoUringRecvProvided env fd bgid flags k =
    (let (ctx, out, k) = co_await_io env (IoUringRecvProvidedAwaitable_await_suspend (IoUringRecvProvidedAwaitable_init fd bgid flags)) NoMem k
     in (IoUringRecvProvidedAwaitable_await_resume ctx, ko_bytes out, k))"

definition IoUringSend :: "'k uring_env \<Rightarrow> int \<Rightarrow> string \<Rightarrow> size_t \<Rightarrow> int \<Rightarrow> 'k \<Rightarrow> int \<times> 'k" where
  "IoUringSend env fd buf len flags k =
    (let (ctx, out, k) = co_await_io env (IoUringSendAwaitable_await_suspend (IoUringSendAwaitable_init fd 0 len flags)) (MemBytes buf) k
     in (io_await_resume ctx, k))"

definition AT_FDCWD :: int where "AT_FDCWD = -100"

definition IoUringOpenAt :: "'k uring_env \<Rightarrow> int \<Rightarrow> string \<Rightarrow> int \<Rightarrow> uint32 \<Rightarrow> 'k \<Rightarrow> int \<times> 'k" where
  "IoUringOpenAt env dirfd path flags mode k =
    (let (ctx, out, k) = co_await_io env (IoUringOpenAtAwaitable_await_suspend (IoUringOpenAtAwaitable_init dirfd path flags mode)) NoMem k
     in (io_await_resume ctx, k))"

definition IoUringOpen :: "'k uring_env \<Rightarrow> string \<Rightarrow> int \<Rightarrow> uint32 \<Rightarrow> 'k \<Rightarrow> int \<times> 'k" where
  "IoUringOpen env path flags mode k = IoUringOpenAt env AT_FDCWD path flags mode k"

definition IoUringReadFile ::
  "'k uring_env \<Rightarrow> int \<Rightarrow> string \<Rightarrow> uint32 \<Rightarrow> uint64 \<Rightarrow> 'k \<Rightarrow> int \<times> string \<times> 'k" where
  "IoUringReadFile env fd buf nbytes offset k =
    (let (ctx, out, k) = co_await_io env (IoUringReadFileAwaitable_await_suspend (IoUringReadFileAwaitable_init fd 0 nbytes offset)) (MemBytes buf) k
     in (io_await_resume ctx, ko_bytes out, k))"

definition IoUringWriteFile ::
  "'k uring_env \<Rightarrow> int \<Rightarrow> string \<Rightarrow> uint32 \<Rightarrow> uint64 \<Rightarrow> 'k \<Rightarrow> int \<times> 'k" where
  "IoUringWriteFile env fd buf nbytes offset k =
    (let (ctx, out, k) = co_await_io env (IoUringWriteFileAwaitable_await_suspend (IoUringWriteFileAwaitable_init fd 0 nbytes offset)) (MemBytes buf) k
     in (io_await_resume ctx, k))"

definition IoUringClose :: "'k uring_env \<Rightarrow> int \<Rightarrow> 'k \<Rightarrow> int \<times> 'k" where
  "IoUringClose env fd k =
    (let (ctx, out, k) = co_await_io env (IoUringCloseAwaitable_await_suspend (IoUringCloseAwaitable_init fd)) NoMem k
     in (io_await_resume ctx, k))"

definition IoUringFsync :: "'k uring_env \<Rightarrow> int \<Rightarrow> uint32 \<Rightarrow> 'k \<Rightarrow> int \<times> 'k" where
  "IoUringFsync env fd flags k =
    (let (ctx, out, k) = co_await_io env (IoUringFsyncAwaitable_await_suspend (IoUringFsyncAwaitable_init fd flags)) NoMem k
     in (io_await_resume ctx, k))"

definition IoUringStatx ::
  "'k uring_env \<Rightarrow> int \<Rightarrow> string \<Rightarrow> int \<Rightarrow> uint32 \<Rightarrow> 'k \<Rightarrow> int \<times> statx \<times> 'k" where
  "IoUringStatx env dirfd path flags stx_mask k =
    (let (ctx, out, k) = co_await_io env (IoUringStatxAwaitable_await_suspend (IoUringStatxAwaitable_init dirfd path flags stx_mask 0)) NoMem k
     in (io_await_resume ctx, ko_statx out, k))"

definition IoUringUnlinkAt :: "'k uring_env \<Rightarrow> int \<Rightarrow> string \<Rightarrow> int \<Rightarrow> 'k \<Rightarrow> int \<times> 'k" where
  "IoUringUnlinkAt env dirfd path flags k =
    (let (ctx, out, k) = co_await_io env (IoUringUnlinkAtAwaitable_await_suspend (IoUringUnlinkAtAwaitable_init dirfd path flags)) NoMem k
     in (io_await_resume ctx, k))"

definition IoUringMkdirAt :: "'k uring_env \<Rightarrow> int \<Rightarrow> string \<Rightarrow> uint32 \<Rightarrow> 'k \<Rightarrow> int \<times> 'k" where
  "IoUringMkdirAt env dirfd path mode k =
    (let (ctx, out, k) = co_await_io env (IoUringMkdirAtAwaitable_await_suspend (IoUringMkdirAtAwaitable_init dirfd path mode)) NoMem k
     in (io_await_resume ctx, k))"

text \<open>Each operation is its request, completed by the environment, or a failed submission.\<close>

definition io_call :: "'k uring_env \<Rightarrow> sqe_op \<Rightarrow> io_mem \<Rightarrow> 'k \<Rightarrow> int \<times> uint32 \<times> kernel_out \<times> 'k" where
  "io_call env op mem k =
    (if submittable env k then ue_complete env op mem k else (not_submitted env k, 0, no_out, k))"

lemma io_call_cong: "io_call env op mem k =
   (case co_await_io env (io_await_suspend sub op) mem k of
      (ctx, out, k') \<Rightarrow> (oc_result ctx, oc_cqe_flags ctx, out, k'))"
  using co_await_io_result [of env sub op mem k] by (simp add: io_call_def io_await_resume_def)

lemmas io_ops_defs =
  IoUringAccept_def IoUringConnect_def IoUringRecv_def IoUringRecvProvided_def IoUringSend_def
  IoUringOpenAt_def IoUringReadFile_def IoUringWriteFile_def IoUringClose_def IoUringFsync_def
  IoUringStatx_def IoUringUnlinkAt_def IoUringMkdirAt_def awaitable_defs

lemma io_calls:
  "IoUringAccept env fd fl k =
     (case io_call env (PrepAccept fd 0 0 (accept_flags fl)) NoMem k of (r, _, _, k') \<Rightarrow> (r, k'))"
  "IoUringConnect env fd addr k = (case io_call env (PrepConnect fd 0 16) (MemAddr addr) k of (r, _, _, k') \<Rightarrow> (r, k'))"
  "IoUringRecv env fd buf len fl k =
     (case io_call env (PrepRecv fd 0 (ucast len) fl) (MemBytes buf) k of (r, _, out, k') \<Rightarrow> (r, ko_bytes out, k'))"
  "IoUringSend env fd buf len fl k =
     (case io_call env (PrepSend fd 0 (ucast len) fl) (MemBytes buf) k of (r, _, _, k') \<Rightarrow> (r, k'))"
  "IoUringReadFile env fd buf n off k =
     (case io_call env (PrepRead fd 0 n off) (MemBytes buf) k of (r, _, out, k') \<Rightarrow> (r, ko_bytes out, k'))"
  "IoUringWriteFile env fd buf n off k =
     (case io_call env (PrepWrite fd 0 n off) (MemBytes buf) k of (r, _, _, k') \<Rightarrow> (r, k'))"
  "IoUringClose env fd k = (case io_call env (PrepClose fd) NoMem k of (r, _, _, k') \<Rightarrow> (r, k'))"
  "IoUringStatx env fd path fl m k =
     (case io_call env (PrepStatx fd path fl m 0) NoMem k of (r, _, out, k') \<Rightarrow> (r, ko_statx out, k'))"
  by (simp_all add: io_ops_defs io_call_cong [where sub = True] io_await_resume_def Let_def split: prod.splits)

lemma io_call_recv_provided:
  "IoUringRecvProvided env fd bgid fl k =
     (case io_call env (PrepRecvSelect fd bgid fl) NoMem k of (r, f, out, k') \<Rightarrow> ((r, f), ko_bytes out, k'))"
  by (simp add: io_ops_defs io_call_cong [where sub = False] IoUringRecvProvidedAwaitable_await_resume_def Let_def
      split: prod.splits)

end
