(* ===== verification/Iouring_File.thy ===== *)
theory Iouring_File
  imports Uring_Await Raii
begin

text \<open>
  Files over io_uring, \<open>io/iouring_file.hpp\<close> and \<open>io/iouring_file.cpp\<close>: the move-only \<open>File\<close>, its
  positional reads and writes, the loops \<open>ReadAll\<close> and \<open>WriteAll\<close>, and the path operations.  The
  bodies are coroutines that run one \<open>co_await\<close> after the other (theory Uring_Await); while one is
  suspended nobody else uses the same \<open>File\<close> object.
\<close>

definition AT_EMPTY_PATH :: int where "AT_EMPTY_PATH = 4096"
definition STATX_SIZE :: uint32 where "STATX_SIZE = 512"
definition STATX_ALL :: uint32 where "STATX_ALL = 4095"

subsection \<open>The descriptor\<close>

record File =
  fl_fd :: int

definition File_move :: "File \<Rightarrow> File \<times> File" where
  "File_move other = (\<lparr>fl_fd = fl_fd other\<rparr>, other\<lparr>fl_fd := -1\<rparr>)"

definition File_assign :: "File \<Rightarrow> File \<Rightarrow> File \<times> File \<times> int list" where
  "File_assign this other =
    (this\<lparr>fl_fd := fl_fd other\<rparr>, other\<lparr>fl_fd := -1\<rparr>, if 0 \<le> fl_fd this then [fl_fd this] else [])"

definition File_destroy :: "File \<Rightarrow> int list" where
  "File_destroy f = (if 0 \<le> fl_fd f then [fl_fd f] else [])"

definition File_IsOpen :: "File \<Rightarrow> bool" where
  "File_IsOpen f \<longleftrightarrow> 0 \<le> fl_fd f"

definition File_res :: "File \<Rightarrow> int option" where
  "File_res f = (if 0 \<le> fl_fd f then Some (fl_fd f) else None)"

interpretation uring_file: unique_owner File_res File_move File_assign File_destroy
  by unfold_locales (simp_all add: File_move_def File_assign_def File_destroy_def File_res_def)

definition File_Open ::
  "'k uring_env \<Rightarrow> string \<Rightarrow> int \<Rightarrow> uint32 \<Rightarrow> 'k \<Rightarrow> (File, error_code) Result \<times> 'k" where
  "File_Open env path flags mode k =
    (let (fd, k) = IoUringOpen env path flags mode k
     in if fd < 0 then (Err (system_error (- fd)), k) else (Ok \<lparr>fl_fd = fd\<rparr>, k))"

text \<open>\<open>Close\<close> gives the descriptor up before the kernel has closed it.\<close>

definition File_Close :: "'k uring_env \<Rightarrow> File \<Rightarrow> 'k \<Rightarrow> int \<times> File \<times> 'k" where
  "File_Close env f k =
    (if fl_fd f < 0 then (- EBADF, f, k)
     else let (r, k) = IoUringClose env (fl_fd f) k in (r, f\<lparr>fl_fd := -1\<rparr>, k))"

subsection \<open>Single transfers\<close>

text \<open>\<open>static_cast<unsigned>(std::min(len, static_cast<size_t>(UINT_MAX)))\<close>\<close>

definition clamp_unsigned :: "size_t \<Rightarrow> uint32" where
  "clamp_unsigned len = ucast (min len 4294967295)"

definition File_ReadAt ::
  "'k uring_env \<Rightarrow> string \<Rightarrow> size_t \<Rightarrow> uint64 \<Rightarrow> File \<Rightarrow> 'k \<Rightarrow> int \<times> string \<times> 'k" where
  "File_ReadAt env buf len offset f k =
    (if fl_fd f < 0 then (- EBADF, [], k)
     else IoUringReadFile env (fl_fd f) buf (clamp_unsigned len) offset k)"

definition File_WriteAt ::
  "'k uring_env \<Rightarrow> string \<Rightarrow> size_t \<Rightarrow> uint64 \<Rightarrow> File \<Rightarrow> 'k \<Rightarrow> int \<times> 'k" where
  "File_WriteAt env buf len offset f k =
    (if fl_fd f < 0 then (- EBADF, k)
     else IoUringWriteFile env (fl_fd f) buf (clamp_unsigned len) offset k)"

definition File_Fsync :: "'k uring_env \<Rightarrow> uint32 \<Rightarrow> File \<Rightarrow> 'k \<Rightarrow> int \<times> 'k" where
  "File_Fsync env flags f k = (if fl_fd f < 0 then (- EBADF, k) else IoUringFsync env (fl_fd f) flags k)"

subsection \<open>Whole files\<close>

function ReadAll_loop ::
  "'k uring_env \<Rightarrow> int \<Rightarrow> nat \<Rightarrow> nat \<Rightarrow> string \<Rightarrow> 'k \<Rightarrow> (string, error_code) Result \<times> 'k" where
  "ReadAll_loop env fd file_size total_read data k =
    (if total_read < file_size
     then let chunk = clamp_unsigned (of_nat (file_size - total_read));
              (n, bs, k) = IoUringReadFile env fd (drop total_read data) chunk (of_nat total_read) k;
              data = store data total_read bs
       in if n = 0 then (Ok (vec_resize data total_read), k)
          else if n < 0 then (Err (system_error (- n)), k)
          else ReadAll_loop env fd file_size (total_read + nat n) data k
     else (Ok data, k))"
  by pat_completeness auto
termination
  by (relation "measure (\<lambda>(env, fd, file_size, total_read, data, k). file_size - total_read)") auto

definition File_ReadAll :: "'k uring_env \<Rightarrow> File \<Rightarrow> 'k \<Rightarrow> (string, error_code) Result \<times> 'k" where
  "File_ReadAll env f k =
    (if fl_fd f < 0 then (Err (system_error EBADF), k)
     else
       let (stat_res, stx, k) = IoUringStatx env (fl_fd f) [] AT_EMPTY_PATH STATX_SIZE k
       in if stat_res < 0 then (Err (system_error (- stat_res)), k)
          else
            let file_size = unat (stx_size stx)
            in if file_size = 0 then (Ok [], k)
               else ReadAll_loop env (fl_fd f) file_size 0 (fresh_buffer file_size) k)"

function WriteAll_loop ::
  "'k uring_env \<Rightarrow> int \<Rightarrow> string \<Rightarrow> uint64 \<Rightarrow> nat \<Rightarrow> 'k \<Rightarrow> (nat, error_code) Result \<times> 'k" where
  "WriteAll_loop env fd buf offset total_written k =
    (if total_written < length buf
     then let chunk = clamp_unsigned (of_nat (length buf - total_written));
              (n, k) = IoUringWriteFile env fd (drop total_written buf) chunk (offset + of_nat total_written) k
       in if n \<le> 0 then (Err (system_error (if n = 0 then EIO else - n)), k)
          else WriteAll_loop env fd buf offset (total_written + nat n) k
     else (Ok total_written, k))"
  by pat_completeness auto
termination
  by (relation "measure (\<lambda>(env, fd, buf, offset, total_written, k). length buf - total_written)") auto

definition File_WriteAll ::
  "'k uring_env \<Rightarrow> string \<Rightarrow> uint64 \<Rightarrow> File \<Rightarrow> 'k \<Rightarrow> (nat, error_code) Result \<times> 'k" where
  "File_WriteAll env buf offset f k =
    (if fl_fd f < 0 then (Err (system_error EBADF), k)
     else WriteAll_loop env (fl_fd f) buf offset 0 k)"

declare ReadAll_loop.simps [simp del] WriteAll_loop.simps [simp del]

subsection \<open>Paths\<close>

definition IoUringUnlink :: "'k uring_env \<Rightarrow> string \<Rightarrow> 'k \<Rightarrow> int \<times> 'k" where
  "IoUringUnlink env path k = IoUringUnlinkAt env AT_FDCWD path 0 k"

definition IoUringMkdir :: "'k uring_env \<Rightarrow> string \<Rightarrow> uint32 \<Rightarrow> 'k \<Rightarrow> int \<times> 'k" where
  "IoUringMkdir env path mode k = IoUringMkdirAt env AT_FDCWD path mode k"

definition IoUringStat :: "'k uring_env \<Rightarrow> string \<Rightarrow> 'k \<Rightarrow> (statx, error_code) Result \<times> 'k" where
  "IoUringStat env path k =
    (let (res, stx, k) = IoUringStatx env AT_FDCWD path 0 STATX_ALL k
     in if res < 0 then (Err (system_error (- res)), k) else (Ok stx, k))"

subsection \<open>A request never exceeds what is left\<close>

lemma unat_clamp: "unat (clamp_unsigned len) = min (unat len) (2 ^ 32 - 1)"
proof -
  have "unat (min len 4294967295) = min (unat len) 4294967295"
    by (simp add: min_def word_le_nat_alt)
  then have "unat (ucast (min len 4294967295) :: uint32) = min (unat len) 4294967295"
    by (simp add: unsigned_ucast_eq take_bit_nat_eq_self)
  then show ?thesis by (simp add: clamp_unsigned_def)
qed

lemma clamp_le: "unat (clamp_unsigned (of_nat n)) \<le> n"
  by (simp add: unat_clamp unat_of_nat min.coboundedI1)

lemma clamp_pos: "0 < n \<Longrightarrow> n < 2 ^ 64 \<Longrightarrow> 0 < unat (clamp_unsigned (of_nat n))"
  by (simp add: unat_clamp unat_of_nat)

subsection \<open>What the kernel does with a file\<close>

text \<open>
  Bytes written at an offset replace those there; a gap before them reads as null bytes.  Writing
  nothing changes nothing.
\<close>

definition file_put :: "string \<Rightarrow> nat \<Rightarrow> string \<Rightarrow> string" where
  "file_put c off bs =
    (if bs = [] then c else take off (vec_resize c (max off (length c))) @ bs @ drop (off + length bs) c)"

lemma file_put_Nil [simp]: "file_put c off [] = c"
  by (simp add: file_put_def)

lemma file_put_front: "length (take off (vec_resize c (max off (length c)))) = off"
  by (simp add: vec_resize_def)

lemma file_put_append: "file_put (file_put c off bs) (off + length bs) bs' = file_put c off (bs @ bs')"
proof (cases "bs = [] \<or> bs' = []")
  case False
  let ?f = "take off (vec_resize c (max off (length c)))"
  have len: "length ?f = off" by (rule file_put_front)
  have "off + length bs \<le> length (file_put c off bs)" using False len by (simp add: file_put_def)
  then have "take (off + length bs) (vec_resize (file_put c off bs) (max (off + length bs) (length (file_put c off bs)))) = ?f @ bs"
    using False len by (simp add: max_absorb2 file_put_def)
  moreover have "drop (off + length bs + length bs') (file_put c off bs) = drop (off + length bs + length bs') c"
    using False len by (simp add: file_put_def add.commute [of "length bs'"] add.assoc)
  ultimately show ?thesis using False by (simp add: file_put_def [of "file_put c off bs"] file_put_def [of c off "bs @ bs'"] add.assoc)
qed (auto simp: file_put_def)

lemma file_put_all: "length c \<le> length bs \<Longrightarrow> file_put c 0 bs = bs"
  by (auto simp: file_put_def)

text \<open>
  The file behind a descriptor that nobody else writes: reads return what is there, nothing only at
  the end; writes take a prefix of what they are given; \<open>statx\<close> knows the size.
\<close>

definition reads_ok :: "'k uring_env \<Rightarrow> int \<Rightarrow> ('k \<Rightarrow> string) \<Rightarrow> bool" where
  "reads_ok env fd content \<longleftrightarrow>
    (\<forall>len off mem k n f out k'. ue_complete env (PrepRead fd 0 len off) mem k = (n, f, out, k') \<longrightarrow>
       content k' = content k \<and> nat n \<le> unat len \<and> length (ko_bytes out) = nat n \<and>
       ko_bytes out = take (nat n) (drop (unat off) (content k)) \<and>
       (n = 0 \<longrightarrow> len = 0 \<or> length (content k) \<le> unat off))"

definition writes_ok :: "'k uring_env \<Rightarrow> int \<Rightarrow> ('k \<Rightarrow> string) \<Rightarrow> bool" where
  "writes_ok env fd content \<longleftrightarrow>
    (\<forall>len off data k n f out k'. ue_complete env (PrepWrite fd 0 len off) (MemBytes data) k = (n, f, out, k') \<longrightarrow>
       nat n \<le> unat len \<and>
       (unat len \<le> length data \<longrightarrow> content k' = file_put (content k) (unat off) (take (nat n) data)))"

definition stat_ok :: "'k uring_env \<Rightarrow> int \<Rightarrow> ('k \<Rightarrow> string) \<Rightarrow> bool" where
  "stat_ok env fd content \<longleftrightarrow>
    (\<forall>k r f out k'. ue_complete env (PrepStatx fd [] AT_EMPTY_PATH STATX_SIZE 0) NoMem k = (r, f, out, k') \<longrightarrow>
       content k' = content k \<and> (0 \<le> r \<longrightarrow> unat (stx_size (ko_statx out)) = length (content k)))"

lemma file_read:
  assumes "reads_ok env fd content" and "IoUringReadFile env fd mem len off k = (n, bs, k')"
  shows "content k' = content k \<and> nat n \<le> unat len \<and> length bs = nat n \<and>
    bs = take (nat n) (drop (unat off) (content k)) \<and> (n = 0 \<longrightarrow> len = 0 \<or> length (content k) \<le> unat off)"
proof (cases "submittable env k")
  case True
  obtain f out where c: "ue_complete env (PrepRead fd 0 len off) (MemBytes mem) k = (n, f, out, k')" and "bs = ko_bytes out"
    using assms(2) True by (auto simp: io_calls io_call_def split: prod.splits)
  with assms(1) show ?thesis unfolding reads_ok_def by blast
next
  case False
  with assms(2) have "n < 0 \<and> k' = k \<and> bs = []"
    by (auto simp: io_calls io_call_def no_out_def)
  then show ?thesis by simp
qed

lemma file_write:
  assumes "writes_ok env fd content" and "IoUringWriteFile env fd data len off k = (n, k')"
    and "unat len \<le> length data"
  shows "nat n \<le> unat len \<and> content k' = file_put (content k) (unat off) (take (nat n) data)"
proof (cases "submittable env k")
  case True
  obtain f out where "ue_complete env (PrepWrite fd 0 len off) (MemBytes data) k = (n, f, out, k')"
    using assms(2) True by (auto simp: io_calls io_call_def split: prod.splits)
  with assms(1,3) show ?thesis unfolding writes_ok_def by blast
next
  case False
  with assms(2) have "n < 0 \<and> k' = k"
    by (auto simp: io_calls io_call_def no_out_def)
  then show ?thesis by simp
qed

lemma file_statx:
  assumes "stat_ok env fd content" and "IoUringStatx env fd [] AT_EMPTY_PATH STATX_SIZE k = (r, stx, k')"
  shows "content k' = content k \<and> (0 \<le> r \<longrightarrow> unat (stx_size stx) = length (content k))"
proof (cases "submittable env k")
  case True
  obtain f out where "ue_complete env (PrepStatx fd [] AT_EMPTY_PATH STATX_SIZE 0) NoMem k = (r, f, out, k')"
    and "stx = ko_statx out"
    using assms(2) True by (auto simp: io_calls io_call_def split: prod.splits)
  with assms(1) show ?thesis unfolding stat_ok_def by blast
next
  case False
  with assms(2) have "r < 0 \<and> k' = k"
    by (auto simp: io_calls io_call_def no_out_def)
  then show ?thesis by simp
qed

subsection \<open>Reading and writing whole files\<close>

abbreviation ReadAll_call :: "'k uring_env \<Rightarrow> int \<Rightarrow> nat \<Rightarrow> nat \<Rightarrow> string \<times> 'k \<Rightarrow> int \<times> string \<times> 'k" where
  "ReadAll_call env fd sz p \<equiv> \<lambda>(data, k).
     let (n, bs, k') = IoUringReadFile env fd (drop p data) (clamp_unsigned (of_nat (sz - p))) (of_nat p) k
     in (n, store data p bs, k')"

lemma ReadAll_loop_transfer:
  "ReadAll_loop env fd sz pos data k =
    (case transfer (ReadAll_call env fd sz) sz pos (data, k) of
       (p, None, data', k') \<Rightarrow> (Ok data', k')
     | (p, Some n, data', k') \<Rightarrow> (if n = 0 then Ok (vec_resize data' p) else Err (system_error (- n)), k'))"
proof (induction env fd sz pos data k rule: ReadAll_loop.induct)
  case (1 env fd sz pos data k)
  then show ?case
    by (subst ReadAll_loop.simps, subst transfer.simps) (auto simp: Let_def split: prod.splits)
qed

lemma ReadAll_loop_content:
  assumes ok: "reads_ok env fd content" and len: "length data = length (content k)" "length (content k) < 2 ^ 64"
    and run: "ReadAll_loop env fd (length (content k)) 0 data k = (r, k')"
  shows "content k' = content k \<and> (r = Ok (content k) \<or> (\<exists>n > 0. r = Err (system_error n)))"
proof -
  let ?c = "content k" and ?call = "ReadAll_call env fd (length (content k))"
  let ?I = "\<lambda>p s. length (fst s) = length ?c \<and> take p (fst s) = take p ?c \<and> content (snd s) = ?c"
  have step: "?I (p + nat n) s' \<and> p + nat n \<le> length ?c \<and> n \<noteq> 0"
    if I: "?I p s" and p: "p < length ?c" and eq: "?call p s = (n, s')" for p s n s'
  proof -
    obtain b k1 where s: "s = (b, k1)" by (cases s)
    let ?len = "clamp_unsigned (of_nat (length ?c - p))"
    obtain n' bs k2 where r: "IoUringReadFile env fd (drop p b) ?len (of_nat p) k1 = (n', bs, k2)"
      by (cases "IoUringReadFile env fd (drop p b) ?len (of_nat p) k1")
    have [simp]: "n' = n" "s' = (store b p bs, k2)" using eq s r by simp_all
    have off: "unat (of_nat p :: uint64) = p" using p len(2) by (simp add: unat_of_nat)
    note rd = file_read [OF ok r]
    have "unat ?len \<le> length ?c - p" by (rule clamp_le)
    moreover have "0 < unat ?len" using p len(2) by (intro clamp_pos) auto
    ultimately have "p + length bs \<le> length ?c" "n \<noteq> 0" "length bs = nat n" "bs = take (nat n) (drop p ?c)"
      using rd off p I s by (auto simp: unat_gt_0)
    with I s rd show ?thesis
      using take_store [of p bs b] by (simp add: take_add)
  qed
  obtain p stop b k1 where t: "transfer ?call (length ?c) 0 (data, k) = (p, stop, b, k1)"
    by (cases "transfer ?call (length ?c) 0 (data, k)") auto
  have "?I 0 (data, k)" using len by simp
  then have "?I p (b, k1) \<and> 0 \<le> p \<and> p \<le> length ?c \<and> (case stop of None \<Rightarrow> p = length ?c
      | Some m \<Rightarrow> p < length ?c \<and> m \<le> 0 \<and> (\<exists>s1. ?I p s1 \<and> ?call p s1 = (m, (b, k1))))"
    by (rule transfer_rule [where I = ?I and call = ?call, OF _ _ _ t]) (simp, drule (2) step, simp)
  note * = this
  show ?thesis
  proof (cases stop)
    case None
    with * run t show ?thesis by (auto simp: ReadAll_loop_transfer)
  next
    case (Some m)
    with * obtain s1 where "?I p s1" "p < length ?c" "?call p s1 = (m, (b, k1))" "m \<le> 0" by auto
    from step [OF this(1,2,3)] this(4) have "m < 0" by simp
    with Some * run t show ?thesis by (auto simp: ReadAll_loop_transfer intro: exI [of _ "- m"])
  qed
qed

lemma File_ReadAll_content:
  assumes "reads_ok env (fl_fd f) content" and "stat_ok env (fl_fd f) content" and "File_IsOpen f"
    and run: "File_ReadAll env f k = (r, k')"
  shows "content k' = content k \<and> (r = Ok (content k) \<or> (\<exists>n > 0. r = Err (system_error n)))"
proof -
  obtain sr stx k1 where st: "IoUringStatx env (fl_fd f) [] AT_EMPTY_PATH STATX_SIZE k = (sr, stx, k1)"
    by (cases "IoUringStatx env (fl_fd f) [] AT_EMPTY_PATH STATX_SIZE k")
  note stat = file_statx [OF assms(2) st]
  have small: "unat (stx_size stx) < 2 ^ 64" using unsigned_less [of "stx_size stx", where ?'a = nat] by simp
  show ?thesis
  proof (cases "sr < 0 \<or> unat (stx_size stx) = 0")
    case True
    with run st stat assms(3) show ?thesis
      by (auto simp: File_ReadAll_def File_IsOpen_def Let_def split: if_splits intro: exI [of _ "- sr"])
  next
    case False
    with stat have sz: "unat (stx_size stx) = length (content k1)" "content k1 = content k" by auto
    have "ReadAll_loop env (fl_fd f) (length (content k1)) 0 (fresh_buffer (length (content k1))) k1 = (r, k')"
      using run st False assms(3) sz by (simp add: File_ReadAll_def File_IsOpen_def Let_def)
    from ReadAll_loop_content [OF assms(1) _ _ this] sz small show ?thesis by simp
  qed
qed

abbreviation WriteAll_call :: "'k uring_env \<Rightarrow> int \<Rightarrow> string \<Rightarrow> uint64 \<Rightarrow> nat \<Rightarrow> 'k \<Rightarrow> int \<times> 'k" where
  "WriteAll_call env fd buf offset p \<equiv>
     IoUringWriteFile env fd (drop p buf) (clamp_unsigned (of_nat (length buf - p))) (offset + of_nat p)"

lemma WriteAll_loop_transfer:
  "WriteAll_loop env fd buf offset pos k =
    (case transfer (WriteAll_call env fd buf offset) (length buf) pos k of
       (p, None, k') \<Rightarrow> (Ok p, k')
     | (p, Some n, k') \<Rightarrow> (Err (system_error (if n = 0 then EIO else - n)), k'))"
proof (induction env fd buf offset pos k rule: WriteAll_loop.induct)
  case (1 env fd buf offset pos k)
  then show ?case
    by (subst WriteAll_loop.simps, subst transfer.simps) (auto simp: Let_def split: prod.splits)
qed

lemma File_WriteAll_content:
  assumes ok: "writes_ok env (fl_fd f) content" and open_f: "File_IsOpen f"
    and fits: "unat offset + length buf < 2 ^ 64"
    and run: "File_WriteAll env buf offset f k = (r, k')"
  shows "\<exists>p \<le> length buf. content k' = file_put (content k) (unat offset) (take p buf) \<and>
    (r = Ok p \<and> p = length buf \<or> p < length buf \<and> (\<exists>n > 0. r = Err (system_error n)))"
proof -
  let ?call = "WriteAll_call env (fl_fd f) buf offset"
  let ?I = "\<lambda>p s. content s = file_put (content k) (unat offset) (take p buf)"
  have step: "?I (p + nat n) s' \<and> p + nat n \<le> length buf"
    if I: "?I p s" and p: "p < length buf" and eq: "?call p s = (n, s')" for p s n s'
  proof -
    have "unat (clamp_unsigned (of_nat (length buf - p))) \<le> length (drop p buf)"
      using clamp_le by simp
    moreover from file_write [OF ok eq this]
    have w: "nat n \<le> unat (clamp_unsigned (of_nat (length buf - p)))"
      "content s' = file_put (content s) (unat (offset + of_nat p)) (take (nat n) (drop p buf))" by simp_all
    moreover have "unat (offset + of_nat p) = unat offset + p"
      using fits p by (simp add: unat_word_ariths unat_of_nat)
    ultimately show ?thesis
      using I p file_put_append [of "content k" "unat offset" "take p buf" "take (nat n) (drop p buf)"]
      by (auto simp: take_add min_absorb2)
  qed
  obtain p stop k1 where t: "transfer ?call (length buf) 0 k = (p, stop, k1)"
    by (cases "transfer ?call (length buf) 0 k") auto
  have "?I p k1 \<and> 0 \<le> p \<and> p \<le> length buf \<and> (case stop of None \<Rightarrow> p = length buf
      | Some m \<Rightarrow> p < length buf \<and> m \<le> 0 \<and> (\<exists>s1. ?I p s1 \<and> ?call p s1 = (m, k1)))"
    by (rule transfer_rule [where I = ?I and call = ?call, OF _ _ _ t]) (simp, simp, erule (2) step)
  note * = this
  show ?thesis
  proof (cases stop)
    case None
    with * run open_f t show ?thesis
      by (auto simp: File_WriteAll_def File_IsOpen_def WriteAll_loop_transfer)
  next
    case (Some m)
    then have "0 < (if m = 0 then EIO else - m)" using * by (simp add: EIO_def)
    with Some * run open_f t show ?thesis
      by (auto simp: File_WriteAll_def File_IsOpen_def WriteAll_loop_transfer intro!: exI [of _ p])
  qed
qed

text \<open>
  Property C19 (file transfers).  Over any kernel that reads and writes a file as documented, in
  pieces of whatever size, and any executor: \<open>ReadAll\<close> returns exactly the contents of the file or
  a system error and leaves the file alone; \<open>WriteAll\<close> returns the full length after exactly
  the given bytes were put at the offset, or a system error after a proper prefix of them was.
\<close>

theorem file_transfers:
  assumes "reads_ok env (fl_fd f) content" and "writes_ok env (fl_fd f) content"
    and "stat_ok env (fl_fd f) content" and "File_IsOpen f" and "unat offset + length buf < 2 ^ 64"
  shows "(case File_ReadAll env f k of (r, k') \<Rightarrow>
      content k' = content k \<and> (r = Ok (content k) \<or> (\<exists>n > 0. r = Err (system_error n)))) \<and>
    (case File_WriteAll env buf offset f k of (r, k') \<Rightarrow>
      \<exists>p \<le> length buf. content k' = file_put (content k) (unat offset) (take p buf) \<and>
        (r = Ok p \<and> p = length buf \<or> p < length buf \<and> (\<exists>n > 0. r = Err (system_error n))))"
  using File_ReadAll_content [OF assms(1,3,4)] File_WriteAll_content [OF assms(2,4,5)]
  by (auto split: prod.splits)

text \<open>
  What is written is read back:  If \<open>WriteAll\<close> at offset 0 succeeds with data at least
  as long as the old contents, a \<open>ReadAll\<close> after it that succeeds returns exactly that data.
\<close>

theorem file_roundtrip:
  assumes "reads_ok env (fl_fd f) content" and "writes_ok env (fl_fd f) content"
    and "stat_ok env (fl_fd f) content" and "File_IsOpen f" and "length buf < 2 ^ 64"
    and "length (content k) \<le> length buf"
    and "File_WriteAll env buf 0 f k = (Ok n, k1)" and "File_ReadAll env f k1 = (Ok bs, k2)"
  shows "n = length buf \<and> bs = buf"
  using File_WriteAll_content [OF assms(2,4) _ assms(7)] File_ReadAll_content [OF assms(1,3,4,8)] assms(5,6)
  by (auto simp: file_put_all)

subsection \<open>A kernel for the witnesses\<close>

text \<open>One file, read and written two bytes at a time, through an executor with a free ring.\<close>

definition toy_uring :: "string uring_env" where
  "toy_uring = \<lparr>
    ue_executor = (\<lambda>_. Some (IoUringExecutor_init True 9 IoUringConfig_init)),
    ue_complete = (\<lambda>op mem c. case op of
        PrepRead _ _ len off \<Rightarrow>
          let bs = take (min (unat len) 2) (drop (unat off) c) in (int (length bs), 0, no_out\<lparr>ko_bytes := bs\<rparr>, c)
      | PrepWrite _ _ len off \<Rightarrow>
          (case mem of
             MemBytes d \<Rightarrow>
               let bs = take (min (unat len) 2) d in (int (length bs), 0, no_out, file_put c (unat off) bs)
           | _ \<Rightarrow> (-22, 0, no_out, c))
      | PrepStatx _ _ _ _ _ \<Rightarrow>
          (if unat (of_nat (length c) :: uint64) = length c then 0 else -75, 0, no_out\<lparr>ko_statx := \<lparr>stx_size = of_nat (length c)\<rparr>\<rparr>, c)
      | _ \<Rightarrow> (-22, 0, no_out, c)),
    ue_buffers = (\<lambda>_. [])\<rparr>"

lemma toy_uring_ok: "reads_ok toy_uring fd id" "writes_ok toy_uring fd id" "stat_ok toy_uring fd id"
  by (auto simp: toy_uring_def reads_ok_def writes_ok_def stat_ok_def Let_def min_def unat_of_nat unat_eq_0)

theorem file_transfers_witness:
  "(case File_ReadAll toy_uring \<lparr>fl_fd = 3\<rparr> ''abc'' of (r, k') \<Rightarrow>
      k' = ''abc'' \<and> (r = Ok ''abc'' \<or> (\<exists>n > 0. r = Err (system_error n))))"
  using file_transfers [OF toy_uring_ok, of "\<lparr>fl_fd = 3\<rparr>" 0 "[]" "''abc''"] by (auto simp: File_IsOpen_def)

theorem file_roundtrip_witness:
  "File_WriteAll toy_uring ''abc'' 0 \<lparr>fl_fd = 3\<rparr> ''zz'' = (Ok 3, ''abc'') \<and>
   fst (File_ReadAll toy_uring \<lparr>fl_fd = 3\<rparr> ''abc'') = Ok ''abc''"
proof -
  have 1: "File_WriteAll toy_uring ''abc'' 0 \<lparr>fl_fd = 3\<rparr> ''zz'' = (Ok 3, ''abc'')" by code_simp
  have 2: "File_ReadAll toy_uring \<lparr>fl_fd = 3\<rparr> ''abc'' = (Ok ''abc'', ''abc'')" by code_simp
  have "(3 :: nat) = length ''abc'' \<and> ''abc'' = ''abc''"
    by (rule file_roundtrip [OF toy_uring_ok _ _ _ 1 2]) (simp_all add: File_IsOpen_def)
  with 1 2 show ?thesis by simp
qed

end
