(* ===== verification/Iouring_Tcp.thy ===== *)
theory Iouring_Tcp
  imports Uring_Await
begin

text \<open>
  TCP over io_uring, \<open>io/iouring_tcp.hpp\<close> and \<open>io/iouring_tcp.cpp\<close>: the listener and the stream.
  Sockets are created, bound and closed by system calls, connections, receives and sends are
  awaited io_uring operations; both work on one state of the world.  The bodies are coroutines that
  run one \<open>co_await\<close> after the other; while one is suspended nobody else uses the same object.
\<close>

definition SOCK_CLOEXEC_NONBLOCK :: int where "SOCK_CLOEXEC_NONBLOCK = 526336"
definition MSG_NOSIGNAL :: int where "MSG_NOSIGNAL = 16384"
definition IORING_CQE_F_BUFFER :: uint32 where "IORING_CQE_F_BUFFER = 1"

subsection \<open>IoUringTcpStream\<close>

record IoUringTcpStream =
  its_fd :: int
  its_closed :: bool

definition IoUringTcpStream_init :: IoUringTcpStream where
  "IoUringTcpStream_init = \<lparr>its_fd = -1, its_closed = False\<rparr>"

definition IoUringTcpStream_IsOpen :: "IoUringTcpStream \<Rightarrow> bool" where
  "IoUringTcpStream_IsOpen s \<longleftrightarrow> 0 \<le> its_fd s \<and> \<not> its_closed s"

definition IoUringTcpStream_InitFromFd :: "int \<Rightarrow> IoUringTcpStream \<Rightarrow> IoUringTcpStream" where
  "IoUringTcpStream_InitFromFd fd s = (if 0 \<le> its_fd s then s else s\<lparr>its_fd := fd, its_closed := False\<rparr>)"

definition IoUringTcpStream_Close :: "'k posix \<Rightarrow> IoUringTcpStream \<Rightarrow> 'k \<Rightarrow> IoUringTcpStream \<times> 'k" where
  "IoUringTcpStream_Close px s k =
    (if \<not> its_closed s \<and> 0 \<le> its_fd s
     then (s\<lparr>its_fd := -1, its_closed := True\<rparr>, px_close px (its_fd s) k)
     else (s, k))"

definition IoUringTcpStream_destroy :: "'k posix \<Rightarrow> IoUringTcpStream \<Rightarrow> 'k \<Rightarrow> 'k" where
  "IoUringTcpStream_destroy px s k = snd (IoUringTcpStream_Close px s k)"

definition IoUringTcpStream_Connect ::
  "'k posix \<Rightarrow> 'k uring_env \<Rightarrow> string \<Rightarrow> uint16 \<Rightarrow> IoUringTcpStream \<Rightarrow> 'k \<Rightarrow> int \<times> IoUringTcpStream \<times> 'k" where
  "IoUringTcpStream_Connect px env host port s k =
    (if 0 \<le> its_fd s then (- EALREADY, s, k)
     else
       let (fd, k) = px_socket px SOCK_CLOEXEC_NONBLOCK k; s = s\<lparr>its_fd := fd\<rparr> in
       if fd < 0 then (- px_errno px k, s, k)
       else
         let addr = \<lparr>sin_port = htons port, sin_addr = 0\<rparr> in
         case px_inet_pton px host of
           None \<Rightarrow> (- EINVAL, s\<lparr>its_fd := -1\<rparr>, px_close px fd k)
         | Some a \<Rightarrow>
             let (result, k) = IoUringConnect env fd (addr\<lparr>sin_addr := a\<rparr>) k in
             if result < 0 then (result, s\<lparr>its_fd := -1\<rparr>, px_close px fd k)
             else (0, s, k))"

definition IoUringTcpStream_Read ::
  "'k uring_env \<Rightarrow> nat \<Rightarrow> IoUringTcpStream \<Rightarrow> 'k \<Rightarrow> string \<times> IoUringTcpStream \<times> 'k" where
  "IoUringTcpStream_Read env max_bytes s k =
    (if \<not> IoUringTcpStream_IsOpen s then ([], s, k)
     else
       let buf = fresh_buffer max_bytes;
           (result, bs, k) = IoUringRecv env (its_fd s) buf (of_nat max_bytes) 0 k;
           buf = store buf 0 bs
       in if result = 0 then ([], s\<lparr>its_closed := True\<rparr>, k)
          else if result < 0 then ([], s, k)
          else (vec_resize buf (nat result), s, k))"

text \<open>
  \<open>ReadProvided\<close>: \<open>config\<close> and \<open>ring\<close> are the executor's configuration and its ring of free
  buffers; the default argument of the fallback \<open>Read\<close> is 4096.
\<close>

definition IoUringTcpStream_ReadProvided ::
  "'k uring_env \<Rightarrow> IoUringConfig \<Rightarrow> IoUringTcpStream \<Rightarrow> (uint32 \<times> uint16) list option \<Rightarrow> 'k \<Rightarrow>
   string \<times> IoUringTcpStream \<times> (uint32 \<times> uint16) list option \<times> 'k" where
  "IoUringTcpStream_ReadProvided env config s ring k =
    (if \<not> IoUringTcpStream_IsOpen s then ([], s, ring, k)
     else if \<not> ic_provided_buffers config
     then let (data, s, k) = IoUringTcpStream_Read env 4096 s k in (data, s, ring, k)
     else
       let bgid = ic_buffer_group_id config;
           ((res, flags), _, k) = IoUringRecvProvided env (its_fd s) bgid 0 k
       in if res = 0 then ([], s\<lparr>its_closed := True\<rparr>, ring, k)
          else if res < 0 then ([], s, ring, k)
          else if and flags IORING_CQE_F_BUFFER = 0
          then let (data, s, k) = IoUringTcpStream_Read env 4096 s k in (data, s, ring, k)
          else
            let bid = ucast (drop_bit 16 flags) :: uint16;
                data = take (nat res) (drop (unat (buffer_offset config bid)) (ue_buffers env k))
            in (data, s, IoUringExecutor_ReturnBuffer bgid bid config ring, k))"

function Write_loop ::
  "'k uring_env \<Rightarrow> int \<Rightarrow> string \<Rightarrow> nat \<Rightarrow> 'k \<Rightarrow> int \<times> 'k" where
  "Write_loop env fd owned total_sent k =
    (if total_sent < length owned
     then let (result, k) =
                IoUringSend env fd (drop total_sent owned) (of_nat (length owned - total_sent)) MSG_NOSIGNAL k
       in if result \<le> 0 then (if 0 < total_sent then int total_sent else result, k)
          else Write_loop env fd owned (total_sent + nat result) k
     else (int total_sent, k))"
  by pat_completeness auto
termination
  by (relation "measure (\<lambda>(env, fd, owned, total_sent, k). length owned - total_sent)") auto

declare Write_loop.simps [simp del]

definition IoUringTcpStream_Write ::
  "'k uring_env \<Rightarrow> string \<Rightarrow> IoUringTcpStream \<Rightarrow> 'k \<Rightarrow> int \<times> 'k" where
  "IoUringTcpStream_Write env data s k =
    (if \<not> IoUringTcpStream_IsOpen s then (- EBADF, k) else Write_loop env (its_fd s) data 0 k)"

lemmas IoUringTcpStream_defs [op_defs] =
  IoUringTcpStream_init_def IoUringTcpStream_IsOpen_def IoUringTcpStream_InitFromFd_def
  IoUringTcpStream_Close_def IoUringTcpStream_destroy_def

subsection \<open>IoUringTcpListener\<close>

record IoUringTcpListener =
  itl_fd :: int
  itl_closed :: bool

definition IoUringTcpListener_init :: IoUringTcpListener where
  "IoUringTcpListener_init = \<lparr>itl_fd = -1, itl_closed = False\<rparr>"

definition IoUringTcpListener_destroy :: "'k posix \<Rightarrow> IoUringTcpListener \<Rightarrow> 'k \<Rightarrow> 'k" where
  "IoUringTcpListener_destroy px l k =
    (if \<not> itl_closed l \<and> 0 \<le> itl_fd l then px_close px (itl_fd l) k else k)"

definition IoUringTcpListener_Bind ::
  "'k posix \<Rightarrow> string \<Rightarrow> uint16 \<Rightarrow> IoUringTcpListener \<Rightarrow> 'k \<Rightarrow> int \<times> IoUringTcpListener \<times> 'k" where
  "IoUringTcpListener_Bind px host port l k =
    (if 0 \<le> itl_fd l then (- EALREADY, l, k)
     else
       let (fd, k) = px_socket px SOCK_CLOEXEC_NONBLOCK k; l = l\<lparr>itl_fd := fd\<rparr> in
       if fd < 0 then (- px_errno px k, l, k)
       else
         let k = px_setsockopt px fd k; addr = \<lparr>sin_port = htons port, sin_addr = 0\<rparr> in
         case px_inet_pton px host of
           None \<Rightarrow> (- EINVAL, l\<lparr>itl_fd := -1\<rparr>, px_close px fd k)
         | Some a \<Rightarrow>
             let (ret, k) = px_bind px fd (addr\<lparr>sin_addr := a\<rparr>) k in
             if ret < 0
             then let err = px_errno px k in (- err, l\<lparr>itl_fd := -1\<rparr>, px_close px fd k)
             else (0, l, k))"

definition IoUringTcpListener_Listen :: "'k posix \<Rightarrow> int \<Rightarrow> IoUringTcpListener \<Rightarrow> 'k \<Rightarrow> int \<times> 'k" where
  "IoUringTcpListener_Listen px backlog l k =
    (if itl_fd l < 0 then (- EBADF, k)
     else let (ret, k) = px_listen px (itl_fd l) backlog k in if ret < 0 then (- px_errno px k, k) else (0, k))"

definition IoUringTcpListener_GetPort :: "'k posix \<Rightarrow> IoUringTcpListener \<Rightarrow> 'k \<Rightarrow> uint16" where
  "IoUringTcpListener_GetPort px l k =
    (if itl_fd l < 0 then 0
     else case px_getsockname px (itl_fd l) k of None \<Rightarrow> 0 | Some addr \<Rightarrow> ntohs (sin_port addr))"

text \<open>\<open>None\<close> is \<open>nullptr\<close>.\<close>

definition IoUringTcpListener_Accept ::
  "'k uring_env \<Rightarrow> IoUringTcpListener \<Rightarrow> 'k \<Rightarrow> IoUringTcpStream option \<times> 'k" where
  "IoUringTcpListener_Accept env l k =
    (let (fd, k) = IoUringAccept env (itl_fd l) 0 k
     in if fd < 0 then (None, k) else (Some (IoUringTcpStream_InitFromFd fd IoUringTcpStream_init), k))"

subsection \<open>Bytes arrive and leave in order\<close>

text \<open>
  What the kernel does with the requests on a connected socket: a send takes a prefix of the bytes
  it is given, a receive delivers the next bytes, at most as many as the request asks for.  A receive
  into a provided buffer stores the bytes at the start of the buffer whose id it reports in the
  upper half of the flags.
\<close>

definition uring_send_ok :: "'k uring_env \<Rightarrow> int \<Rightarrow> ('k \<Rightarrow> string) \<Rightarrow> bool" where
  "uring_send_ok env fd sent \<longleftrightarrow>
    (\<forall>len fl data k n f out k'. ue_complete env (PrepSend fd 0 len fl) (MemBytes data) k = (n, f, out, k') \<longrightarrow>
       nat n \<le> unat len \<and> (unat len \<le> length data \<longrightarrow> sent k' = sent k @ take (nat n) data))"

definition uring_recv_ok :: "'k uring_env \<Rightarrow> int \<Rightarrow> ('k \<Rightarrow> string) \<Rightarrow> bool" where
  "uring_recv_ok env fd arriving \<longleftrightarrow>
    (\<forall>len fl mem k n f out k'. ue_complete env (PrepRecv fd 0 len fl) mem k = (n, f, out, k') \<longrightarrow>
       nat n \<le> unat len \<and> length (ko_bytes out) = nat n \<and> arriving k = ko_bytes out @ arriving k')"

definition uring_provided_ok :: "'k uring_env \<Rightarrow> int \<Rightarrow> IoUringConfig \<Rightarrow> ('k \<Rightarrow> string) \<Rightarrow> bool" where
  "uring_provided_ok env fd config arriving \<longleftrightarrow>
    (\<forall>k n f out k'. ue_complete env (PrepRecvSelect fd (ic_buffer_group_id config) 0) NoMem k = (n, f, out, k') \<longrightarrow>
       (let bid = ucast (drop_bit 16 f) :: uint16 in
        if n \<le> 0 then arriving k' = arriving k
        else and f IORING_CQE_F_BUFFER \<noteq> 0 \<and> unat bid < unat (ic_buffer_ring_size config) \<and>
          nat n \<le> unat (ic_buffer_size config) \<and>
          arriving k =
            take (nat n) (drop (unat bid * unat (ic_buffer_size config)) (ue_buffers env k')) @ arriving k'))"

lemma unat_truncated_le: "unat (ucast (of_nat n :: size_t) :: uint32) \<le> n"
  by (simp add: unsigned_ucast_eq unat_of_nat take_bit_eq_mod)

lemma uring_send:
  assumes "uring_send_ok env fd sent"
  shows "send_ok sent (\<lambda>data k. IoUringSend env fd data (of_nat (length data)) fl k)"
proof -
  have "n \<le> int (length data) \<and> sent k' = sent k @ take (nat n) data"
    if eq: "IoUringSend env fd data (of_nat (length data)) fl k = (n, k')" for data k n k'
  proof (cases "submittable env k")
    case True
    let ?len = "ucast (of_nat (length data) :: size_t) :: uint32"
    obtain f out where "ue_complete env (PrepSend fd 0 ?len fl) (MemBytes data) k = (n, f, out, k')"
      using eq True by (auto simp: io_calls io_call_def split: prod.splits)
    with assms have "nat n \<le> unat ?len" "unat ?len \<le> length data \<longrightarrow> sent k' = sent k @ take (nat n) data"
      unfolding uring_send_ok_def by blast+
    with unat_truncated_le [of "length data"] show ?thesis by linarith
  next
    case False
    with eq have "n < 0 \<and> k' = k" by (auto simp: io_calls io_call_def)
    then show ?thesis by simp
  qed
  then show ?thesis by (auto simp: send_ok_def split: prod.splits)
qed

lemma Write_loop_transfer:
  "Write_loop env fd owned pos k =
    (case transfer (\<lambda>p. IoUringSend env fd (drop p owned) (of_nat (length owned - p)) MSG_NOSIGNAL) (length owned) pos k of
       (p, None, k') \<Rightarrow> (int p, k')
     | (p, Some n, k') \<Rightarrow> (if 0 < p then int p else n, k'))"
proof (induction env fd owned pos k rule: Write_loop.induct)
  case (1 env fd owned pos k)
  then show ?case
    by (subst Write_loop.simps, subst transfer.simps) (auto simp: Let_def split: prod.splits)
qed

lemma Write_effect:
  assumes "uring_send_ok env (its_fd s) sent" and "IoUringTcpStream_IsOpen s"
    and run: "IoUringTcpStream_Write env data s k = (r, k')"
  shows "r \<le> int (length data) \<and> sent k' = sent k @ take (nat r) data"
proof -
  let ?call = "\<lambda>p. IoUringSend env (its_fd s) (drop p data) (of_nat (length data - p)) MSG_NOSIGNAL"
  obtain p stop k1 where t: "transfer ?call (length data) 0 k = (p, stop, k1)"
    by (cases "transfer ?call (length data) 0 k") auto
  from transfer_send [OF uring_send [OF assms(1), of MSG_NOSIGNAL], of "\<lambda>p. length data - p" data k p stop k1] t
  have "sent k1 = sent k @ take p data \<and> p \<le> length data \<and>
      (case stop of None \<Rightarrow> p = length data | Some n \<Rightarrow> p < length data \<and> n \<le> 0)" by simp
  with run assms(2) t show ?thesis
    by (auto simp: IoUringTcpStream_Write_def Write_loop_transfer split: option.splits if_splits)
qed

lemma Read_effect:
  assumes ok: "uring_recv_ok env (its_fd s) arriving"
    and run: "IoUringTcpStream_Read env max_bytes s k = (data, s', k')"
  shows "arriving k = data @ arriving k' \<and> length data \<le> max_bytes"
proof (cases "IoUringTcpStream_IsOpen s \<and> submittable env k")
  case True
  let ?len = "ucast (of_nat max_bytes :: size_t) :: uint32"
  obtain n f out k1 where c: "ue_complete env (PrepRecv (its_fd s) 0 ?len 0) (MemBytes (fresh_buffer max_bytes)) k = (n, f, out, k1)"
    by (cases "ue_complete env (PrepRecv (its_fd s) 0 ?len 0) (MemBytes (fresh_buffer max_bytes)) k") auto
  with ok have n: "nat n \<le> unat ?len" "length (ko_bytes out) = nat n" "arriving k = ko_bytes out @ arriving k1"
    unfolding uring_recv_ok_def by blast+
  with unat_truncated_le [of max_bytes] have "length (ko_bytes out) \<le> max_bytes" by simp
  with run True c n show ?thesis
    by (auto simp: IoUringTcpStream_Read_def io_calls io_call_def store_def Let_def split: if_splits)
next
  case False
  then have "data = [] \<and> k' = k"
    using run not_submitted_neg [of env k]
    by (auto simp: IoUringTcpStream_Read_def io_calls io_call_def Let_def split: if_splits)
  then show ?thesis by simp
qed

lemma ReadProvided_effect:
  assumes ok: "uring_recv_ok env (its_fd s) arriving" "uring_provided_ok env (its_fd s) config arriving"
    and block: "unat (ic_buffer_ring_size config) * unat (ic_buffer_size config) \<le> 2 ^ 32" "ic_buffer_size config \<noteq> 0"
    and run: "IoUringTcpStream_ReadProvided env config s ring k = (data, s', ring', k')"
  shows "arriving k = data @ arriving k'"
proof (cases "IoUringTcpStream_IsOpen s \<and> ic_provided_buffers config")
  case False
  then show ?thesis
    using run Read_effect [OF ok(1), of 4096 k]
    by (auto simp: IoUringTcpStream_ReadProvided_def split: if_splits prod.splits)
next
  case open_s: True
  show ?thesis
  proof (cases "submittable env k")
    case True
    let ?op = "PrepRecvSelect (its_fd s) (ic_buffer_group_id config) 0"
    obtain n f out k1 where c: "ue_complete env ?op NoMem k = (n, f, out, k1)"
      by (cases "ue_complete env ?op NoMem k") auto
    define bid :: uint16 where "bid = ucast (drop_bit 16 f)"
    from ok(2) c have p: "if n \<le> 0 then arriving k1 = arriving k
        else and f IORING_CQE_F_BUFFER \<noteq> 0 \<and> unat bid < unat (ic_buffer_ring_size config) \<and>
          nat n \<le> unat (ic_buffer_size config) \<and>
          arriving k = take (nat n) (drop (unat bid * unat (ic_buffer_size config)) (ue_buffers env k1)) @ arriving k1"
      unfolding uring_provided_ok_def Let_def bid_def by blast
    show ?thesis
    proof (cases "n \<le> 0")
      case True
      with run open_s c p \<open>submittable env k\<close> show ?thesis
        by (auto simp: IoUringTcpStream_ReadProvided_def io_call_recv_provided io_call_def split: if_splits)
    next
      case False
      with p have "unat (buffer_offset config bid) = unat bid * unat (ic_buffer_size config)"
        by (intro buffers_disjoint(1) [OF block]) simp
      with False run open_s c p \<open>submittable env k\<close> show ?thesis
        by (auto simp: IoUringTcpStream_ReadProvided_def io_call_recv_provided io_call_def bid_def Let_def
            split: if_splits)
    qed
  next
    case False
    then have "data = [] \<and> k' = k"
      using run open_s not_submitted_neg [of env k]
      by (auto simp: IoUringTcpStream_ReadProvided_def io_call_recv_provided io_call_def split: if_splits)
    then show ?thesis by simp
  qed
qed

text \<open>
  Property C20 (TCP over io_uring transfers bytes in order).  On an open stream and over any kernel
  that transfers bytes in order in pieces of whatever size, a \<open>Write\<close> that returns \<open>r > 0\<close> has
  sent exactly the first \<open>r\<close> bytes and one that returns at most 0 has sent nothing; \<open>Read\<close> returns
  the next bytes of the connection, at most the number asked for, and skips none; so does
  \<open>ReadProvided\<close>, which reads them out of the executor's buffers, whenever the whole block of
  buffers is at most 4 GiB.
\<close>

theorem iouring_stream_transfers:
  assumes "uring_send_ok env (its_fd s) sent" and "uring_recv_ok env (its_fd s) arriving"
    and "uring_provided_ok env (its_fd s) config arriving" and "IoUringTcpStream_IsOpen s"
    and "unat (ic_buffer_ring_size config) * unat (ic_buffer_size config) \<le> 2 ^ 32" "ic_buffer_size config \<noteq> 0"
  shows "(case IoUringTcpStream_Write env data s k of (r, k') \<Rightarrow>
      r \<le> int (length data) \<and> sent k' = sent k @ take (nat r) data) \<and>
    (case IoUringTcpStream_Read env max_bytes s k of (bs, s', k') \<Rightarrow>
      arriving k = bs @ arriving k' \<and> length bs \<le> max_bytes) \<and>
    (case IoUringTcpStream_ReadProvided env config s ring k of (bs, s', ring', k') \<Rightarrow>
      arriving k = bs @ arriving k')"
  using Write_effect [OF assms(1,4)] Read_effect [OF assms(2)] ReadProvided_effect [OF assms(2,3,5,6)]
  by (intro conjI) (auto split: prod.splits)

subsection \<open>Descriptors\<close>

text \<open>The operations on a stream, as a program may use them one after the other.\<close>

datatype stream_op = OpConnect string uint16 | OpRead nat | OpReadProvided | OpWrite string | OpClose

record 'k stream_world =
  sw_stream :: IoUringTcpStream
  sw_ring :: "(uint32 \<times> uint16) list option"
  sw_kernel :: 'k

fun stream_step :: "'k posix \<Rightarrow> 'k uring_env \<Rightarrow> IoUringConfig \<Rightarrow> stream_op \<Rightarrow> 'k stream_world \<Rightarrow> 'k stream_world" where
  "stream_step px env config (OpConnect host port) w =
     (case IoUringTcpStream_Connect px env host port (sw_stream w) (sw_kernel w) of
        (_, s, k) \<Rightarrow> w\<lparr>sw_stream := s, sw_kernel := k\<rparr>)"
| "stream_step px env config (OpRead n) w =
     (case IoUringTcpStream_Read env n (sw_stream w) (sw_kernel w) of
        (_, s, k) \<Rightarrow> w\<lparr>sw_stream := s, sw_kernel := k\<rparr>)"
| "stream_step px env config OpReadProvided w =
     (case IoUringTcpStream_ReadProvided env config (sw_stream w) (sw_ring w) (sw_kernel w) of
        (_, s, ring, k) \<Rightarrow> w\<lparr>sw_stream := s, sw_ring := ring, sw_kernel := k\<rparr>)"
| "stream_step px env config (OpWrite data) w =
     (case IoUringTcpStream_Write env data (sw_stream w) (sw_kernel w) of (_, k) \<Rightarrow> w\<lparr>sw_kernel := k\<rparr>)"
| "stream_step px env config OpClose w =
     (case IoUringTcpStream_Close px (sw_stream w) (sw_kernel w) of (s, k) \<Rightarrow> w\<lparr>sw_stream := s, sw_kernel := k\<rparr>)"

text \<open>
  The requests of a stream neither open nor close a descriptor, an accept opens the one it returns.
\<close>

fun stream_request :: "sqe_op \<Rightarrow> bool" where
  "stream_request (PrepConnect _ _ _) = True"
| "stream_request (PrepRecv _ _ _ _) = True"
| "stream_request (PrepRecvSelect _ _ _) = True"
| "stream_request (PrepSend _ _ _ _) = True"
| "stream_request _ = False"

definition uring_fds_ok :: "'k uring_env \<Rightarrow> ('k \<Rightarrow> int set) \<Rightarrow> bool" where
  "uring_fds_ok env opened \<longleftrightarrow>
    (\<forall>op mem k. stream_request op \<longrightarrow> opened (snd (snd (snd (ue_complete env op mem k)))) = opened k) \<and>
    (\<forall>lfd ad al fl. opens_one opened (\<lambda>k. let (fd, _, _, k') = ue_complete env (PrepAccept lfd ad al fl) NoMem k in (fd, k')))"

lemma uring_fds_keeps:
  assumes "uring_fds_ok env opened"
  shows "opened (snd (IoUringConnect env fd addr k)) = opened k"
    and "opened (snd (snd (IoUringRecv env fd buf len fl k))) = opened k"
    and "opened (snd (snd (IoUringRecvProvided env fd bgid fl k))) = opened k"
    and "opened (snd (IoUringSend env fd buf len fl k)) = opened k"
proof -
  have "opened (snd (snd (snd (io_call env op mem k)))) = opened k" if "stream_request op" for op mem
    using assms that by (simp add: uring_fds_ok_def io_call_def)
  then show "opened (snd (IoUringConnect env fd addr k)) = opened k"
    and "opened (snd (snd (IoUringRecv env fd buf len fl k))) = opened k"
    and "opened (snd (snd (IoUringRecvProvided env fd bgid fl k))) = opened k"
    and "opened (snd (IoUringSend env fd buf len fl k)) = opened k"
    by (simp_all add: io_calls io_call_recv_provided split: prod.splits) (metis stream_request.simps snd_conv)+
qed

text \<open>
  The stream owns at most one descriptor beside those of the rest of the program.
\<close>

definition stream_fds :: "('k \<Rightarrow> int set) \<Rightarrow> int set \<Rightarrow> IoUringTcpStream \<Rightarrow> 'k \<Rightarrow> bool" where
  "stream_fds opened base s k \<longleftrightarrow>
    (if 0 \<le> its_fd s then its_fd s \<notin> base \<and> opened k = insert (its_fd s) base else opened k = base)"

lemma Connect_fds:
  assumes px: "fds_ok px opened" and env: "uring_fds_ok env opened" and inv: "stream_fds opened base s k"
    and run: "IoUringTcpStream_Connect px env host port s k = (r, s', k')"
  shows "stream_fds opened base s' k'"
proof (cases "0 \<le> its_fd s")
  case False
  obtain fd k1 where so: "px_socket px SOCK_CLOEXEC_NONBLOCK k = (fd, k1)" by (cases "px_socket px SOCK_CLOEXEC_NONBLOCK k")
  note one = opens_oneD [OF fds_ok_opens(1) [OF px] so]
  have base: "opened k = base" using inv False by (simp add: stream_fds_def)
  show ?thesis
  proof (cases "fd < 0 \<or> px_inet_pton px host = None")
    case True
    have "fd < 0 \<Longrightarrow> s' = s\<lparr>its_fd := fd\<rparr> \<and> k' = k1"
      and "\<not> fd < 0 \<Longrightarrow> s' = s\<lparr>its_fd := -1\<rparr> \<and> k' = px_close px fd k1"
      using run False so True by (simp_all add: IoUringTcpStream_Connect_def Let_def)
    with one base show ?thesis
      by (cases "fd < 0") (simp_all add: stream_fds_def fds_ok_keeps [OF px])
  next
    case good: False
    then obtain a where a: "px_inet_pton px host = Some a" by auto
    let ?addr = "\<lparr>sin_port = htons port, sin_addr = a\<rparr>"
    obtain r1 k2 where c: "IoUringConnect env fd ?addr k1 = (r1, k2)" by (cases "IoUringConnect env fd ?addr k1")
    have "opened k2 = opened k1" using uring_fds_keeps(1) [OF env, of fd ?addr k1] c by simp
    with one good base have "fd \<notin> base" "opened k2 = insert fd base" by auto
    moreover have "r1 < 0 \<Longrightarrow> s' = s\<lparr>its_fd := -1\<rparr> \<and> k' = px_close px fd k2"
      and "\<not> r1 < 0 \<Longrightarrow> s' = s\<lparr>its_fd := fd\<rparr> \<and> k' = k2"
      using run False good so a c by (simp_all add: IoUringTcpStream_Connect_def Let_def)
    ultimately show ?thesis
      using good by (cases "r1 < 0") (simp_all add: stream_fds_def fds_ok_keeps [OF px])
  qed
qed (use run inv in \<open>simp add: IoUringTcpStream_Connect_def\<close>)

lemma Read_fds:
  assumes "uring_fds_ok env opened" and "IoUringTcpStream_Read env n s k = (bs, s', k')"
  shows "opened k' = opened k \<and> its_fd s' = its_fd s"
  using assms(2) uring_fds_keeps(2) [OF assms(1), of "its_fd s" "fresh_buffer n" "of_nat n" 0 k]
  by (auto simp: IoUringTcpStream_Read_def Let_def split: if_splits prod.splits)

lemma ReadProvided_fds:
  assumes env: "uring_fds_ok env opened" and run: "IoUringTcpStream_ReadProvided env config s ring k = (bs, s', ring', k')"
  shows "opened k' = opened k \<and> its_fd s' = its_fd s"
proof -
  obtain r f x k1 where p: "IoUringRecvProvided env (its_fd s) (ic_buffer_group_id config) 0 k = ((r, f), x, k1)"
    by (cases "IoUringRecvProvided env (its_fd s) (ic_buffer_group_id config) 0 k") auto
  have "opened k1 = opened k"
    using uring_fds_keeps(3) [OF env, of "its_fd s" "ic_buffer_group_id config" 0 k] p by simp
  with run p Read_fds [OF env, of 4096 s] show ?thesis
    by (auto simp: IoUringTcpStream_ReadProvided_def Let_def split: if_splits prod.splits)
qed

lemma Write_fds:
  assumes "uring_fds_ok env opened"
  shows "opened (snd (Write_loop env fd data pos k)) = opened k"
  using assms
proof (induction env fd data pos k rule: Write_loop.induct)
  case (1 env fd data pos k)
  obtain n k1 where s: "IoUringSend env fd (drop pos data) (of_nat (length data - pos)) MSG_NOSIGNAL k = (n, k1)"
    by (cases "IoUringSend env fd (drop pos data) (of_nat (length data - pos)) MSG_NOSIGNAL k")
  have "opened k1 = opened k"
    using uring_fds_keeps(4) [OF "1.prems", of fd "drop pos data" "of_nat (length data - pos)" MSG_NOSIGNAL k] s by simp
  with 1 s show ?case by (subst Write_loop.simps) (auto split: if_splits)
qed

lemma stream_step_fds:
  assumes px: "fds_ok px opened" and env: "uring_fds_ok env opened"
    and inv: "stream_fds opened base (sw_stream w) (sw_kernel w)"
  shows "stream_fds opened base (sw_stream (stream_step px env config op w)) (sw_kernel (stream_step px env config op w))"
proof (cases op)
  case OpConnect
  with Connect_fds [OF px env inv] show ?thesis by (auto split: prod.splits)
next
  case OpRead
  with Read_fds [OF env] inv show ?thesis by (auto simp: stream_fds_def split: prod.splits)
next
  case OpReadProvided
  with ReadProvided_fds [OF env] inv show ?thesis by (auto simp: stream_fds_def split: prod.splits)
next
  case (OpWrite data)
  have "opened (snd (IoUringTcpStream_Write env data (sw_stream w) (sw_kernel w))) = opened (sw_kernel w)"
    by (simp add: IoUringTcpStream_Write_def Write_fds [OF env])
  with OpWrite inv show ?thesis by (auto simp: stream_fds_def split: prod.splits)
next
  case OpClose
  with inv show ?thesis by (auto simp: stream_fds_def IoUringTcpStream_Close_def fds_ok_keeps [OF px])
qed

lemma stream_run_fds:
  assumes "fds_ok px opened" and "uring_fds_ok env opened"
    and "stream_fds opened base (sw_stream w) (sw_kernel w)"
  shows "stream_fds opened base (sw_stream (fold (stream_step px env config) ops w))
    (sw_kernel (fold (stream_step px env config) ops w))"
  using assms(3) by (induction ops arbitrary: w) (simp_all add: stream_step_fds [OF assms(1,2)])

text \<open>
  Descriptors of io_uring streams:  Whatever operations are performed on a new stream,
  at each moment it owns at most one descriptor and no other descriptor is opened, closed or
  closed twice on its behalf; and destroying it closes the one it owns, except when the stream is
  marked closed while it has a descriptor.
\<close>

theorem iouring_stream_descriptors:
  assumes "fds_ok px opened" and "uring_fds_ok env opened"
    and "opened k = base" and "w = \<lparr>sw_stream = IoUringTcpStream_init, sw_ring = ring, sw_kernel = k\<rparr>"
  shows "let w' = fold (stream_step px env config) ops w; s = sw_stream w' in
    (0 \<le> its_fd s \<longrightarrow> its_fd s \<notin> base) \<and>
    opened (sw_kernel w') = (if 0 \<le> its_fd s then insert (its_fd s) base else base) \<and>
    opened (IoUringTcpStream_destroy px s (sw_kernel w')) =
      (if 0 \<le> its_fd s \<and> its_closed s then insert (its_fd s) base else base)"
proof -
  have "stream_fds opened base (sw_stream w) (sw_kernel w)"
    using assms(3,4) by (simp add: stream_fds_def IoUringTcpStream_init_def)
  from stream_run_fds [OF assms(1,2) this, of config ops] show ?thesis
    by (auto simp: stream_fds_def IoUringTcpStream_destroy_def IoUringTcpStream_Close_def
        fds_ok_keeps [OF assms(1)] Let_def split: if_splits)
qed

text \<open>
  The exception occurs: a \<open>Read\<close> that sees the end of the stream marks it closed, after which
  \<open>Close\<close> and the destructor do nothing, so the descriptor stays open for good.  And a stream that
  is connected again after \<open>Close\<close> keeps its mark: it is not open for \<open>Read\<close> and \<open>Write\<close> and its
  descriptor is never closed either.
\<close>

lemma eof_leaks_descriptor:
  assumes "IoUringTcpStream_IsOpen s" and "IoUringRecv env (its_fd s) (fresh_buffer n) (of_nat n) 0 k = (0, bs, k')"
  shows "case IoUringTcpStream_Read env n s k of (_, s', k') \<Rightarrow>
    its_fd s' = its_fd s \<and> IoUringTcpStream_Close px s' k' = (s', k') \<and> IoUringTcpStream_destroy px s' k' = k'"
  using assms by (simp add: IoUringTcpStream_Read_def IoUringTcpStream_defs)

lemma reconnect_leaks_descriptor:
  assumes "IoUringTcpStream_Close px s k = (s1, k1)" and "IoUringTcpStream_IsOpen s"
    and "IoUringTcpStream_Connect px env host port s1 k1 = (0, s2, k2)"
  shows "\<not> IoUringTcpStream_IsOpen s2 \<and> IoUringTcpStream_destroy px s2 k2 = k2"
  using assms
  by (auto simp: IoUringTcpStream_defs IoUringTcpStream_Connect_def EINVAL_def Let_def
      split: if_splits prod.splits option.splits)

subsection \<open>Witnesses\<close>

text \<open>The same kernel behind a ring; receives into provided buffers use buffer 0.\<close>

definition toy_net :: "toy_kernel uring_env" where
  "toy_net = \<lparr>
    ue_executor = (\<lambda>_. Some (IoUringExecutor_init True 9 IoUringConfig_init)),
    ue_complete = (\<lambda>op mem k. case op of
        PrepAccept fd _ _ _ \<Rightarrow> (case toy_new_fd k of (fd, k') \<Rightarrow> (fd, 0, no_out, k'))
      | PrepConnect _ _ _ \<Rightarrow> (0, 0, no_out, k)
      | PrepSend _ _ len _ \<Rightarrow>
          (case mem of
             MemBytes d \<Rightarrow>
               let bs = take (min (unat len) 2) d in (int (length bs), 0, no_out, k\<lparr>tk_sent := tk_sent k @ bs\<rparr>)
           | _ \<Rightarrow> (-22, 0, no_out, k))
      | PrepRecv _ _ len _ \<Rightarrow>
          let bs = take (min (unat len) 2) (tk_arriving k)
          in (int (length bs), 0, no_out\<lparr>ko_bytes := bs\<rparr>, k\<lparr>tk_arriving := drop (min (unat len) 2) (tk_arriving k)\<rparr>)
      | PrepRecvSelect _ _ _ \<Rightarrow>
          let bs = take 2 (tk_arriving k)
          in (int (length bs), 1, no_out, k\<lparr>tk_arriving := drop 2 (tk_arriving k), tk_buffer := bs\<rparr>)
      | _ \<Rightarrow> (-22, 0, no_out, k)),
    ue_buffers = tk_buffer\<rparr>"

lemma toy_net_ok:
  "uring_send_ok toy_net fd tk_sent"
  "uring_recv_ok toy_net fd tk_arriving"
  "uring_provided_ok toy_net fd IoUringConfig_init tk_arriving"
  "uring_fds_ok toy_net (set \<circ> tk_open)"
proof -
  show "uring_send_ok toy_net fd tk_sent" "uring_recv_ok toy_net fd tk_arriving"
    by (auto simp: toy_net_def uring_send_ok_def uring_recv_ok_def Let_def min_def)
  show "uring_provided_ok toy_net fd IoUringConfig_init tk_arriving"
    by (auto simp: toy_net_def uring_provided_ok_def IORING_CQE_F_BUFFER_def IoUringConfig_init_def Let_def min_def)
  show "uring_fds_ok toy_net (set \<circ> tk_open)"
    using toy_new_fd_opens
    by (auto simp: toy_net_def uring_fds_ok_def Let_def case_prod_unfold elim!: stream_request.elims split: io_mem.splits)
qed

theorem iouring_stream_transfers_witness:
  "tk_sent (snd (IoUringTcpStream_Write toy_net ''abc'' \<lparr>its_fd = 3, its_closed = False\<rparr>
     \<lparr>tk_open = [3], tk_sent = [], tk_arriving = ''xyz'', tk_buffer = []\<rparr>)) = ''abc''"
proof -
  let ?s = "\<lparr>its_fd = 3, its_closed = False\<rparr>"
    and ?k = "\<lparr>tk_open = [3], tk_sent = [], tk_arriving = ''xyz'', tk_buffer = []\<rparr>"
  have "fst (IoUringTcpStream_Write toy_net ''abc'' ?s ?k) = 3" by code_simp
  moreover have "IoUringTcpStream_IsOpen ?s"
    "unat (ic_buffer_ring_size IoUringConfig_init) * unat (ic_buffer_size IoUringConfig_init) \<le> 2 ^ 32"
    "ic_buffer_size IoUringConfig_init \<noteq> 0" by (simp_all add: IoUringTcpStream_IsOpen_def IoUringConfig_init_def)
  note iouring_stream_transfers [OF toy_net_ok(1,2,3) this, of "''abc''" ?k, THEN conjunct1]
  ultimately show ?thesis by (auto split: prod.splits)
qed

theorem iouring_stream_descriptors_witness:
  "let w' = fold (stream_step toy_posix toy_net IoUringConfig_init) [OpConnect ''127.0.0.1'' 80, OpRead 4, OpClose]
     \<lparr>sw_stream = IoUringTcpStream_init, sw_ring = None,
      sw_kernel = \<lparr>tk_open = [3], tk_sent = [], tk_arriving = ''xyz'', tk_buffer = []\<rparr>\<rparr>
   in its_fd (sw_stream w') < 0 \<longrightarrow> set (tk_open (sw_kernel w')) = {3}"
  using iouring_stream_descriptors [OF toy_posix_ok(1) toy_net_ok(4) refl refl,
      where k = "\<lparr>tk_open = [3], tk_sent = [], tk_arriving = ''xyz'', tk_buffer = []\<rparr>" and ring = None
        and config = IoUringConfig_init and ops = "[OpConnect ''127.0.0.1'' 80, OpRead 4, OpClose]"]
  by (simp add: Let_def)

end
