(* ===== verification/Tcp.thy ===== *)
theory Tcp
  imports Posix
begin

text \<open>
  TCP streams and listeners over libuv, \<open>io/tcp.hpp\<close> and \<open>io/tcp.cpp\<close>.  libuv is not part of the
  repository: what the sources ask it for is recorded as a list of calls, and what it answers and
  when it calls back are arguments, so a theorem over all sequences of operations and callbacks
  holds for whatever libuv does.  A \<open>uv_tcp_t\<close> is allocated with the stream and named by a number;
  \<open>None\<close> is the null pointer.
\<close>

type_synonym uv_handle = "nat option"

datatype uv_call =
    UvTcpInit uv_handle
  | UvBind uv_handle sockaddr_in
  | UvListen uv_handle int
  | UvAccept uv_handle
  | UvConnect uv_handle sockaddr_in
  | UvReadStart uv_handle
  | UvReadStop uv_handle
  | UvWrite uv_handle string
  | UvClose uv_handle
  | UvDelete uv_handle

definition UV_EALREADY :: int where "UV_EALREADY = -114"

subsection \<open>TcpStream\<close>

record TcpStream =
  ts_socket :: uv_handle
  ts_closed :: bool
  ts_initialized :: bool
  ts_reading :: bool
  ts_read_buffer :: string
  ts_read_waiter :: handle
  ts_read_result :: int
  ts_connect_waiter :: handle
  ts_connect_result :: int

text \<open>The constructor allocates the handle \<open>h\<close> and clears it.\<close>

definition TcpStream_init :: "nat \<Rightarrow> TcpStream" where
  "TcpStream_init h =
    \<lparr>ts_socket = Some h, ts_closed = False, ts_initialized = False, ts_reading = False, ts_read_buffer = [],
     ts_read_waiter = null_handle, ts_read_result = 0, ts_connect_waiter = null_handle, ts_connect_result = 0\<rparr>"

definition TcpStream_destroy :: "TcpStream \<Rightarrow> uv_call list" where
  "TcpStream_destroy s =
    (if ts_closed s then []
     else (if ts_reading s \<and> ts_initialized s then [UvReadStop (ts_socket s)] else []) @
       (if ts_initialized s then [UvClose (ts_socket s)] else [UvDelete (ts_socket s)]))"

definition TcpStream_InitFromAccept :: "int \<Rightarrow> TcpStream \<Rightarrow> TcpStream \<times> uv_call list" where
  "TcpStream_InitFromAccept result s =
    (if ts_initialized s then (s, [])
     else
       let calls = [UvTcpInit (ts_socket s), UvAccept (ts_socket s)]; s' = s\<lparr>ts_initialized := True\<rparr> in
       if result \<noteq> 0
       then (s'\<lparr>ts_socket := None, ts_closed := True, ts_initialized := False\<rparr>, calls @ [UvClose (ts_socket s)])
       else (s', calls))"

definition TcpStream_Close :: "TcpStream \<Rightarrow> TcpStream \<times> uv_call list" where
  "TcpStream_Close s =
    (if ts_closed s then (s, [])
     else
       let s = s\<lparr>ts_closed := True\<rparr>;
           (s, calls) = (if ts_reading s then (s\<lparr>ts_reading := False\<rparr>, [UvReadStop (ts_socket s)]) else (s, []))
       in (s, calls @ [UvClose (ts_socket s)]))"

definition TcpStream_IsOpen :: "TcpStream \<Rightarrow> bool" where
  "TcpStream_IsOpen s \<longleftrightarrow> \<not> ts_closed s"

subsubsection \<open>Connect\<close>

text \<open>
  \<open>resolved\<close> is the answer of \<open>uv_ip4_addr\<close> (an address or an error), \<open>result\<close> that of
  \<open>uv_tcp_connect\<close>; the awaitable keeps \<open>sync_error_\<close>.  The boolean is that of \<open>await_suspend\<close>.
\<close>

definition ConnectAwaitable_await_suspend ::
  "int + uint32 \<Rightarrow> int \<Rightarrow> uint16 \<Rightarrow> handle \<Rightarrow> TcpStream \<Rightarrow> bool \<times> int \<times> TcpStream \<times> uv_call list" where
  "ConnectAwaitable_await_suspend resolved result port h s =
    (if ts_initialized s then (False, UV_EALREADY, s, [])
     else
       let s = s\<lparr>ts_connect_waiter := h\<rparr>; calls = [UvTcpInit (ts_socket s)]; s = s\<lparr>ts_initialized := True\<rparr> in
       case resolved of
         Inl err \<Rightarrow> (False, err, s, calls)
       | Inr a \<Rightarrow>
           let calls = calls @ [UvConnect (ts_socket s) \<lparr>sin_port = htons port, sin_addr = a\<rparr>] in
           if result \<noteq> 0 then (False, result, s, calls) else (True, 0, s, calls))"

definition ConnectAwaitable_await_resume :: "int \<Rightarrow> TcpStream \<Rightarrow> int" where
  "ConnectAwaitable_await_resume sync_error s = (if sync_error \<noteq> 0 then sync_error else ts_connect_result s)"

definition TcpStream_OnConnect :: "int \<Rightarrow> TcpStream \<Rightarrow> TcpStream \<times> handle list" where
  "TcpStream_OnConnect status s =
    (let s = s\<lparr>ts_connect_result := status\<rparr>
     in if ts_connect_waiter s \<noteq> null_handle
        then (s\<lparr>ts_connect_waiter := null_handle\<rparr>, [ts_connect_waiter s])
        else (s, []))"

subsubsection \<open>Read\<close>

definition ReadAwaitable_await_ready :: "TcpStream \<Rightarrow> bool" where
  "ReadAwaitable_await_ready s \<longleftrightarrow> ts_read_buffer s \<noteq> []"

definition ReadAwaitable_await_suspend :: "handle \<Rightarrow> TcpStream \<Rightarrow> TcpStream \<times> uv_call list" where
  "ReadAwaitable_await_suspend h s =
    (s\<lparr>ts_read_waiter := h, ts_reading := True\<rparr>, [UvReadStart (ts_socket s)])"

definition ReadAwaitable_await_resume :: "TcpStream \<Rightarrow> string \<times> TcpStream \<times> uv_call list" where
  "ReadAwaitable_await_resume s =
    (ts_read_buffer s, s\<lparr>ts_reading := False, ts_read_buffer := []\<rparr>, [UvReadStop (ts_socket s)])"

text \<open>\<open>AllocBuffer\<close> returns \<open>buf\<close>: the position of its base in the read buffer and its length.\<close>

definition TcpStream_AllocBuffer :: "nat \<Rightarrow> TcpStream \<Rightarrow> TcpStream \<times> nat \<times> nat" where
  "TcpStream_AllocBuffer suggested s =
    (let sz = (if 0 < suggested then suggested else 4096);
         current_size = length (ts_read_buffer s)
     in (s\<lparr>ts_read_buffer := vec_resize (ts_read_buffer s) (current_size + sz)\<rparr>, current_size, sz))"

text \<open>\<open>OnRead\<close>: \<open>buf\<close> is the length of the buffer, \<open>None\<close> when libuv passes none.\<close>

definition TcpStream_OnRead :: "int \<Rightarrow> nat option \<Rightarrow> TcpStream \<Rightarrow> TcpStream \<times> handle list" where
  "TcpStream_OnRead nread buf s =
    (let drop_alloc = (\<lambda>s. case buf of
           None \<Rightarrow> s
         | Some len \<Rightarrow>
             if 0 < len then s\<lparr>ts_read_buffer := vec_resize (ts_read_buffer s) (length (ts_read_buffer s) - len)\<rparr> else s);
         s = (if nread < 0 then (drop_alloc s)\<lparr>ts_closed := True\<rparr>
              else if 0 < nread
              then s\<lparr>ts_read_buffer :=
                     vec_resize (ts_read_buffer s) (length (ts_read_buffer s) - (the buf - nat nread))\<rparr>
              else drop_alloc s);
         s = s\<lparr>ts_read_result := nread\<rparr>
     in if ts_read_waiter s \<noteq> null_handle
        then (s\<lparr>ts_read_waiter := null_handle\<rparr>, [ts_read_waiter s])
        else (s, []))"

subsubsection \<open>Write\<close>

text \<open>
  The request owns a copy of the data, of which the length cast to \<open>unsigned\<close> is passed on.
  \<open>result\<close> is the answer of \<open>uv_write\<close>; \<open>bytes_written_\<close> and, when the coroutine suspends, the
  request are returned.
\<close>

record WriteRequest =
  wr_waiter :: handle
  wr_data :: string

definition WriteAwaitable_await_suspend ::
  "int \<Rightarrow> string \<Rightarrow> handle \<Rightarrow> TcpStream \<Rightarrow> bool \<times> int \<times> WriteRequest option \<times> uv_call list" where
  "WriteAwaitable_await_suspend result data h s =
    (let write_req = \<lparr>wr_waiter = h, wr_data = data\<rparr>;
         len = (of_nat (length data) :: uint32);
         calls = [UvWrite (ts_socket s) (take (unat len) data)]
     in if result \<noteq> 0 then (False, result, None, calls) else (True, 0, Some write_req, calls))"

text \<open>\<open>OnWrite\<close>: what is stored through \<open>result\<close> (an \<open>int\<close>), and the coroutine resumed.\<close>

definition TcpStream_OnWrite :: "int \<Rightarrow> WriteRequest \<Rightarrow> int \<times> handle" where
  "TcpStream_OnWrite status req =
    (if 0 \<le> status then (sint (of_nat (length (wr_data req)) :: 32 word), wr_waiter req) else (status, wr_waiter req))"

lemmas TcpStream_defs [op_defs] =
  TcpStream_init_def TcpStream_destroy_def TcpStream_InitFromAccept_def TcpStream_Close_def
  ConnectAwaitable_await_suspend_def TcpStream_OnConnect_def ReadAwaitable_await_suspend_def
  ReadAwaitable_await_resume_def TcpStream_AllocBuffer_def TcpStream_OnRead_def

subsection \<open>TcpListener\<close>

record TcpListener =
  tl_server :: uv_handle
  tl_pending :: "TcpStream list"
  tl_waiter :: handle
  tl_closed :: bool
  tl_bound :: bool

definition TcpListener_init :: "nat \<Rightarrow> TcpListener \<times> uv_call list" where
  "TcpListener_init h =
    (\<lparr>tl_server = Some h, tl_pending = [], tl_waiter = null_handle, tl_closed = False, tl_bound = False\<rparr>,
     [UvTcpInit (Some h)])"

text \<open>The destructor also destroys the streams nobody accepted.\<close>

definition TcpListener_destroy :: "TcpListener \<Rightarrow> uv_call list" where
  "TcpListener_destroy l =
    (if \<not> tl_closed l then [UvClose (tl_server l)] else []) @ concat (map TcpStream_destroy (tl_pending l))"

definition TcpListener_Bind :: "int + uint32 \<Rightarrow> int \<Rightarrow> uint16 \<Rightarrow> TcpListener \<Rightarrow> int \<times> TcpListener \<times> uv_call list" where
  "TcpListener_Bind resolved result port l =
    (if tl_bound l then (UV_EALREADY, l, [])
     else case resolved of
         Inl err \<Rightarrow> (err, l, [])
       | Inr a \<Rightarrow>
           (result, if result = 0 then l\<lparr>tl_bound := True\<rparr> else l,
            [UvBind (tl_server l) \<lparr>sin_port = htons port, sin_addr = a\<rparr>]))"

definition TcpListener_Listen :: "int \<Rightarrow> int \<Rightarrow> TcpListener \<Rightarrow> int \<times> uv_call list" where
  "TcpListener_Listen result backlog l = (result, [UvListen (tl_server l) backlog])"

text \<open>\<open>OnConnection\<close> allocates the stream (with the handle \<open>h\<close>) and accepts into it.\<close>

definition TcpListener_OnConnection ::
  "int \<Rightarrow> nat \<Rightarrow> int \<Rightarrow> TcpListener \<Rightarrow> TcpListener \<times> handle list \<times> uv_call list" where
  "TcpListener_OnConnection status h accept_result l =
    (if status < 0 then (l, [], [])
     else
       let (stream, calls) = TcpStream_InitFromAccept accept_result (TcpStream_init h);
           l = l\<lparr>tl_pending := tl_pending l @ [stream]\<rparr>
       in if tl_waiter l \<noteq> null_handle
          then (l\<lparr>tl_waiter := null_handle\<rparr>, [tl_waiter l], calls)
          else (l, [], calls))"

definition AcceptAwaitable_await_ready :: "TcpListener \<Rightarrow> bool" where
  "AcceptAwaitable_await_ready l \<longleftrightarrow> tl_pending l \<noteq> []"

definition AcceptAwaitable_await_suspend :: "handle \<Rightarrow> TcpListener \<Rightarrow> TcpListener" where
  "AcceptAwaitable_await_suspend h l = l\<lparr>tl_waiter := h\<rparr>"

definition AcceptAwaitable_await_resume :: "TcpListener \<Rightarrow> TcpStream option \<times> TcpListener" where
  "AcceptAwaitable_await_resume l =
    (case tl_pending l of
       [] \<Rightarrow> (None, l)
     | stream # rest \<Rightarrow> (Some stream, l\<lparr>tl_pending := rest\<rparr>))"

subsection \<open>A stream in use\<close>

text \<open>
  The operations of the program and the callbacks of libuv, one after the other in any order.  A
  read callback comes with the allocation made for it (\<open>UvData\<close>, \<open>UvAgain\<close>, \<open>UvFail\<close>) or without
  any (\<open>UvFailNoBuf\<close>); libuv stores at most as many bytes as were allocated.
\<close>

datatype uv_outcome = UvData string | UvAgain | UvFail int | UvFailNoBuf int

fun uv_read_callback :: "nat \<Rightarrow> uv_outcome \<Rightarrow> TcpStream \<Rightarrow> TcpStream \<times> handle list \<times> string" where
  "uv_read_callback suggested (UvData bs) s =
     (let (s, base, len) = TcpStream_AllocBuffer suggested s;
          bs = take len bs;
          s = s\<lparr>ts_read_buffer := store (ts_read_buffer s) base bs\<rparr>;
          (s, hs) = TcpStream_OnRead (int (length bs)) (Some len) s
      in (s, hs, bs))"
| "uv_read_callback suggested UvAgain s =
     (let (s, base, len) = TcpStream_AllocBuffer suggested s; (s, hs) = TcpStream_OnRead 0 (Some len) s in (s, hs, []))"
| "uv_read_callback suggested (UvFail err) s =
     (let (s, base, len) = TcpStream_AllocBuffer suggested s;
          (s, hs) = TcpStream_OnRead (- (\<bar>err\<bar> + 1)) (Some len) s
      in (s, hs, []))"
| "uv_read_callback suggested (UvFailNoBuf err) s =
     (let (s, hs) = TcpStream_OnRead (- (\<bar>err\<bar> + 1)) None s in (s, hs, []))"

datatype tcp_event =
    EvConnect "int + uint32" int uint16 handle
  | EvOnConnect int
  | EvReadSuspend handle
  | EvReadResume
  | EvRead nat uv_outcome
  | EvWrite int string handle
  | EvClose

record tcp_world =
  tw_stream :: TcpStream
  tw_calls :: "uv_call list"
  tw_resumed :: "handle list"
  tw_arrived :: string
  tw_returned :: string

fun tcp_step :: "tcp_event \<Rightarrow> tcp_world \<Rightarrow> tcp_world" where
  "tcp_step (EvConnect resolved r port h) w =
     (case ConnectAwaitable_await_suspend resolved r port h (tw_stream w) of
        (_, _, s, cs) \<Rightarrow> w\<lparr>tw_stream := s, tw_calls := tw_calls w @ cs\<rparr>)"
| "tcp_step (EvOnConnect status) w =
     (case TcpStream_OnConnect status (tw_stream w) of (s, hs) \<Rightarrow> w\<lparr>tw_stream := s, tw_resumed := tw_resumed w @ hs\<rparr>)"
| "tcp_step (EvReadSuspend h) w =
     (case ReadAwaitable_await_suspend h (tw_stream w) of (s, cs) \<Rightarrow> w\<lparr>tw_stream := s, tw_calls := tw_calls w @ cs\<rparr>)"
| "tcp_step EvReadResume w =
     (case ReadAwaitable_await_resume (tw_stream w) of
        (bs, s, cs) \<Rightarrow> w\<lparr>tw_stream := s, tw_calls := tw_calls w @ cs, tw_returned := tw_returned w @ bs\<rparr>)"
| "tcp_step (EvRead suggested out) w =
     (case uv_read_callback suggested out (tw_stream w) of
        (s, hs, bs) \<Rightarrow> w\<lparr>tw_stream := s, tw_resumed := tw_resumed w @ hs, tw_arrived := tw_arrived w @ bs\<rparr>)"
| "tcp_step (EvWrite r data h) w =
     (case WriteAwaitable_await_suspend r data h (tw_stream w) of (_, _, _, cs) \<Rightarrow> w\<lparr>tw_calls := tw_calls w @ cs\<rparr>)"
| "tcp_step EvClose w =
     (case TcpStream_Close (tw_stream w) of (s, cs) \<Rightarrow> w\<lparr>tw_stream := s, tw_calls := tw_calls w @ cs\<rparr>)"

text \<open>A stream is constructed by the program, or by the listener, which accepts into it at once.\<close>

definition tcp_start :: "nat \<Rightarrow> int option \<Rightarrow> tcp_world" where
  "tcp_start h accepted =
    (let (s, cs) = (case accepted of None \<Rightarrow> (TcpStream_init h, []) | Some r \<Rightarrow> TcpStream_InitFromAccept r (TcpStream_init h))
     in \<lparr>tw_stream = s, tw_calls = cs, tw_resumed = [], tw_arrived = [], tw_returned = []\<rparr>)"

abbreviation tcp_run :: "nat \<Rightarrow> int option \<Rightarrow> tcp_event list \<Rightarrow> tcp_world" where
  "tcp_run h accepted evs \<equiv> fold tcp_step evs (tcp_start h accepted)"

subsubsection \<open>Received bytes\<close>

lemma OnRead_waiter:
  "ts_read_waiter (fst (TcpStream_OnRead n buf s)) = null_handle"
  "snd (TcpStream_OnRead n buf s) = resume_if (ts_read_waiter s)"
  by (auto simp: TcpStream_OnRead_def resume_if_def Let_def split: option.splits)

lemma OnRead_buffer:
  "n \<le> 0 \<Longrightarrow> ts_read_buffer (fst (TcpStream_OnRead n (Some len) s)) =
     (if 0 < len then vec_resize (ts_read_buffer s) (length (ts_read_buffer s) - len) else ts_read_buffer s)"
  "0 < n \<Longrightarrow> ts_read_buffer (fst (TcpStream_OnRead n (Some len) s)) =
     vec_resize (ts_read_buffer s) (length (ts_read_buffer s) - (len - nat n))"
  "n < 0 \<Longrightarrow> ts_read_buffer (fst (TcpStream_OnRead n None s)) = ts_read_buffer s"
  by (simp_all add: TcpStream_OnRead_def Let_def)

text \<open>Allocated, filled with \<open>bs\<close> and trimmed, the buffer has grown by exactly \<open>bs\<close>.\<close>

lemma alloc_read_buffer:
  assumes "TcpStream_AllocBuffer suggested s = (s1, base, len)" and "length bs \<le> len"
    and "n = int (length bs) \<or> n < 0 \<and> bs = []"
  shows "ts_read_buffer (fst (TcpStream_OnRead n (Some len) (s1\<lparr>ts_read_buffer := store (ts_read_buffer s1) base bs\<rparr>))) =
    ts_read_buffer s @ bs"
proof -
  have s1: "ts_read_buffer s1 = ts_read_buffer s @ fresh_buffer len" "base = length (ts_read_buffer s)" "0 < len"
    using assms(1) by (auto simp: TcpStream_AllocBuffer_def vec_resize_def Let_def)
  have st: "store (ts_read_buffer s1) base bs = ts_read_buffer s @ bs @ fresh_buffer (len - length bs)"
    using assms(2) by (simp add: s1 store_def fresh_buffer_def)
  show ?thesis
  proof (cases "bs = []")
    case True
    then have "store (ts_read_buffer s1) base [] = ts_read_buffer s @ fresh_buffer len" using st by simp
    then show ?thesis using True assms(3) s1(3) by (auto simp: OnRead_buffer)
  next
    case False
    then have "0 < n" "nat n = length bs" using assms(3) by auto
    then show ?thesis using assms(2) by (simp add: OnRead_buffer st)
  qed
qed

lemma read_callback_buffer:
  assumes "uv_read_callback suggested out s = (s', hs, bs)"
  shows "ts_read_buffer s' = ts_read_buffer s @ bs" and "ts_read_waiter s' = null_handle"
    and "hs = resume_if (ts_read_waiter s)"
proof -
  obtain s1 base len where al: "TcpStream_AllocBuffer suggested s = (s1, base, len)"
    by (cases "TcpStream_AllocBuffer suggested s")
  have w: "ts_read_waiter s1 = ts_read_waiter s" and st: "store (ts_read_buffer s1) base [] = ts_read_buffer s1"
    using al by (auto simp: TcpStream_AllocBuffer_def Let_def store_def)
  have buf: "ts_read_buffer (fst (TcpStream_OnRead n (Some len) s1)) = ts_read_buffer s" if "n \<le> 0" for n
  proof -
    have "n = 0 \<or> n < 0" using that by linarith
    then show ?thesis using alloc_read_buffer [OF al, of "[]" n] by (simp add: st)
  qed
  show "ts_read_buffer s' = ts_read_buffer s @ bs"
    using assms alloc_read_buffer [OF al, of "take len d" "int (length (take len d))" for d] buf OnRead_buffer(3) [of _ s]
    by (cases out) (auto simp: al Let_def case_prod_unfold)
  show "ts_read_waiter s' = null_handle" "hs = resume_if (ts_read_waiter s)"
    using assms OnRead_waiter by (cases out; auto simp: al w Let_def case_prod_unfold)+
qed

lemma tcp_step_bytes:
  assumes "tw_arrived w = tw_returned w @ ts_read_buffer (tw_stream w)"
  shows "tw_arrived (tcp_step ev w) = tw_returned (tcp_step ev w) @ ts_read_buffer (tw_stream (tcp_step ev w))"
proof (cases ev)
  case (EvRead suggested out)
  obtain s hs bs where r: "uv_read_callback suggested out (tw_stream w) = (s, hs, bs)"
    by (cases "uv_read_callback suggested out (tw_stream w)")
  from read_callback_buffer(1) [OF r] r EvRead assms show ?thesis by simp
next
  case (EvConnect resolved r port h)
  with assms show ?thesis
    by (auto simp: ConnectAwaitable_await_suspend_def Let_def split: sum.splits prod.splits if_splits)
next
  case EvClose
  with assms show ?thesis by (auto simp: TcpStream_Close_def Let_def)
qed (use assms in \<open>auto simp: TcpStream_defs WriteAwaitable_await_suspend_def Let_def\<close>)

text \<open>
  Property C14 (TCP reads).  Whatever the program does with a stream and whatever libuv reports in
  whatever pieces and order: the bytes libuv has stored so far are, in order, those the \<open>Read\<close>s
  have returned followed by those still in the read buffer, so nothing is lost, repeated,
  reordered or made up from unused buffer space; and a read callback resumes exactly the waiting
  reader, once.
\<close>

theorem tcp_reads_in_order:
  "(let w = tcp_run h accepted evs in tw_arrived w = tw_returned w @ ts_read_buffer (tw_stream w)) \<and>
   (case uv_read_callback suggested out s of
      (s', hs, bs) \<Rightarrow> hs = resume_if (ts_read_waiter s) \<and> ts_read_waiter s' = null_handle)"
proof -
  have "tw_arrived (fold tcp_step evs w) = tw_returned (fold tcp_step evs w) @ ts_read_buffer (tw_stream (fold tcp_step evs w))"
    if "tw_arrived w = tw_returned w @ ts_read_buffer (tw_stream w)" for w
    using that by (induction evs arbitrary: w) (simp_all add: tcp_step_bytes)
  moreover have "tw_arrived (tcp_start h accepted) = tw_returned (tcp_start h accepted) @ ts_read_buffer (tw_stream (tcp_start h accepted))"
    by (auto simp: tcp_start_def TcpStream_init_def TcpStream_InitFromAccept_def Let_def split: option.splits)
  ultimately show ?thesis
    using read_callback_buffer(2,3) [of suggested out s] by (auto split: prod.splits)
qed

subsubsection \<open>The handle\<close>

fun frees :: "uv_call \<Rightarrow> bool" where
  "frees (UvClose _) = True"
| "frees (UvDelete _) = True"
| "frees _ = False"

fun read_failed :: "tcp_event \<Rightarrow> bool" where
  "read_failed (EvRead _ (UvFail _)) = True"
| "read_failed (EvRead _ (UvFailNoBuf _)) = True"
| "read_failed _ = False"

definition tcp_freed :: "tcp_world \<Rightarrow> nat" where
  "tcp_freed w = length (filter frees (tw_calls w))"

text \<open>Only \<open>Close\<close> gives the handle up, and only \<open>Close\<close> and a failed read mark the stream closed.\<close>

lemma read_callback_closed:
  "uv_read_callback suggested out s = (s', hs, bs) \<Longrightarrow>
   ts_closed s' \<longleftrightarrow> ts_closed s \<or> read_failed (EvRead suggested out)"
  by (cases out)
    (auto simp: TcpStream_AllocBuffer_def TcpStream_OnRead_def Let_def split: if_splits)

lemma tcp_step_handle:
  "tcp_freed (tcp_step ev w) = tcp_freed w + (if ev = EvClose \<and> \<not> ts_closed (tw_stream w) then 1 else 0) \<and>
   (ts_closed (tw_stream (tcp_step ev w)) \<longleftrightarrow> ts_closed (tw_stream w) \<or> ev = EvClose \<or> read_failed ev)"
proof (cases ev)
  case (EvRead suggested out)
  obtain s hs bs where r: "uv_read_callback suggested out (tw_stream w) = (s, hs, bs)"
    by (cases "uv_read_callback suggested out (tw_stream w)")
  from read_callback_closed [OF r] r EvRead show ?thesis by (simp add: tcp_freed_def)
next
  case (EvConnect resolved r port h)
  then show ?thesis
    by (auto simp: tcp_freed_def ConnectAwaitable_await_suspend_def Let_def split: sum.splits prod.splits if_splits)
next
  case EvClose
  then show ?thesis by (auto simp: tcp_freed_def TcpStream_Close_def Let_def)
qed (auto simp: tcp_freed_def TcpStream_OnConnect_def ReadAwaitable_await_suspend_def ReadAwaitable_await_resume_def
    WriteAwaitable_await_suspend_def Let_def)

lemma tcp_run_freed:
  "tcp_freed (fold tcp_step evs w) \<le> tcp_freed w + (if ts_closed (tw_stream w) then 0 else 1) \<and>
   (\<not> ts_closed (tw_stream (fold tcp_step evs w)) \<longrightarrow> tcp_freed (fold tcp_step evs w) = tcp_freed w) \<and>
   ((\<forall>ev \<in> set evs. \<not> read_failed ev) \<and> \<not> ts_closed (tw_stream w) \<and> ts_closed (tw_stream (fold tcp_step evs w)) \<longrightarrow>
     tcp_freed (fold tcp_step evs w) = tcp_freed w + 1) \<and>
   (ts_closed (tw_stream w) \<longrightarrow> tcp_freed (fold tcp_step evs w) = tcp_freed w \<and> ts_closed (tw_stream (fold tcp_step evs w)))"
proof (induction evs arbitrary: w)
  case (Cons ev evs)
  from Cons [of "tcp_step ev w"] tcp_step_handle [of ev w] show ?case
    by (cases "ts_closed (tw_stream w)"; cases "ev = EvClose"; cases "read_failed ev") auto
qed simp

text \<open>
  TCP handles:  Over the whole life of a stream, whatever the program and libuv do,
  its \<open>uv_tcp_t\<close> is handed to \<open>uv_close\<close> or deleted at most once (by the failed accept, \<open>Close\<close> or
  the destructor); and exactly once, unless a read failed or met the end of the stream.
\<close>

theorem tcp_handle_freed_once:
  assumes "w = tcp_run h accepted evs"
    and "freed = length (filter frees (tw_calls w @ TcpStream_destroy (tw_stream w)))"
  shows "freed \<le> 1 \<and> ((\<forall>ev \<in> set evs. \<not> read_failed ev) \<longrightarrow> freed = 1)"
proof -
  have start: "tcp_freed (tcp_start h accepted) = (if ts_closed (tw_stream (tcp_start h accepted)) then 1 else 0)"
    by (auto simp: tcp_start_def tcp_freed_def TcpStream_init_def TcpStream_InitFromAccept_def Let_def split: option.splits)
  have destroy: "length (filter frees (TcpStream_destroy s)) = (if ts_closed s then 0 else 1)" for s
    by (simp add: TcpStream_destroy_def)
  have freed: "freed = tcp_freed w + (if ts_closed (tw_stream w) then 0 else 1)"
    using assms(2) destroy [of "tw_stream w"] by (simp add: tcp_freed_def)
  show ?thesis
    unfolding freed assms(1) using tcp_run_freed [of evs "tcp_start h accepted"] start
    by (auto split: if_splits)
qed

theorem tcp_handle_freed_once_witness:
  "length (filter frees (tw_calls (tcp_run 7 (Some 0) [EvReadSuspend 5, EvRead 10 (UvData ''ab''), EvReadResume, EvClose]) @
     TcpStream_destroy (tw_stream (tcp_run 7 (Some 0) [EvReadSuspend 5, EvRead 10 (UvData ''ab''), EvReadResume, EvClose])))) = 1"
  using tcp_handle_freed_once [OF refl refl, of "[EvReadSuspend 5, EvRead 10 (UvData ''ab''), EvReadResume, EvClose]" 7 "Some 0"]
  by auto

text \<open>
  After a failed read the handle is lost: neither \<open>Close\<close> nor the destructor gives it up.  A stream
  that was never initialised is passed to \<open>uv_close\<close> by \<open>Close\<close> all the same, where the destructor
  only frees the memory.  And a reader that waits when \<open>Close\<close> is called stays suspended: reading is
  stopped and nothing resumes it.
\<close>

lemma tcp_eof_loses_handle:
  assumes "uv_read_callback suggested (UvFail err) s = (s', hs, bs)"
  shows "TcpStream_Close s' = (s', []) \<and> TcpStream_destroy s' = []"
  using read_callback_closed [OF assms] by (simp add: TcpStream_Close_def TcpStream_destroy_def)

lemma tcp_close_uninitialised:
  "TcpStream_Close (TcpStream_init h) = (TcpStream_init h\<lparr>ts_closed := True\<rparr>, [UvClose (Some h)]) \<and>
   TcpStream_destroy (TcpStream_init h) = [UvDelete (Some h)]"
  by (simp add: TcpStream_Close_def TcpStream_destroy_def TcpStream_init_def)

lemma tcp_close_keeps_reader:
  "ts_read_waiter (fst (TcpStream_Close s)) = ts_read_waiter s"
  by (simp add: TcpStream_Close_def Let_def)

subsection \<open>A listener in use\<close>

datatype accept_event = EvConnection int nat int | EvAcceptSuspend handle | EvAcceptResume

record accept_world =
  aw_listener :: TcpListener
  aw_calls :: "uv_call list"
  aw_resumed :: "handle list"
  aw_accepted :: "TcpStream list"
  aw_returned :: "TcpStream option list"

fun accept_step :: "accept_event \<Rightarrow> accept_world \<Rightarrow> accept_world" where
  "accept_step (EvConnection status h r) w =
     (case TcpListener_OnConnection status h r (aw_listener w) of
        (l, hs, cs) \<Rightarrow> w\<lparr>aw_listener := l, aw_calls := aw_calls w @ cs, aw_resumed := aw_resumed w @ hs,
          aw_accepted := aw_accepted w @ (if status < 0 then [] else [fst (TcpStream_InitFromAccept r (TcpStream_init h))])\<rparr>)"
| "accept_step (EvAcceptSuspend h) w = w\<lparr>aw_listener := AcceptAwaitable_await_suspend h (aw_listener w)\<rparr>"
| "accept_step EvAcceptResume w =
     (case AcceptAwaitable_await_resume (aw_listener w) of
        (s, l) \<Rightarrow> w\<lparr>aw_listener := l, aw_returned := aw_returned w @ [s]\<rparr>)"

definition accept_start :: "nat \<Rightarrow> accept_world" where
  "accept_start h = (case TcpListener_init h of (l, cs) \<Rightarrow>
    \<lparr>aw_listener = l, aw_calls = cs, aw_resumed = [], aw_accepted = [], aw_returned = []\<rparr>)"

definition returned_streams :: "TcpStream option list \<Rightarrow> TcpStream list" where
  "returned_streams rs = map the (filter (\<lambda>r. r \<noteq> None) rs)"

lemma accept_step_fifo:
  assumes "aw_accepted w = returned_streams (aw_returned w) @ tl_pending (aw_listener w)"
  shows "aw_accepted (accept_step ev w) =
    returned_streams (aw_returned (accept_step ev w)) @ tl_pending (aw_listener (accept_step ev w))"
  using assms
  by (cases ev)
    (auto simp: TcpListener_OnConnection_def AcceptAwaitable_await_suspend_def AcceptAwaitable_await_resume_def
      returned_streams_def Let_def split: prod.splits list.splits)

text \<open>
  TCP accept.  Whatever connections libuv reports and whatever \<open>Accept\<close>s are awaited:
  the connections taken over are, in order, those the \<open>Accept\<close>s returned (each to one of them)
  followed by those pending; and a connection resumes exactly the waiting coroutine, which
  then finds a stream.
\<close>

theorem tcp_accept_fifo:
  "(let w = fold accept_step evs (accept_start h0) in
      aw_accepted w = returned_streams (aw_returned w) @ tl_pending (aw_listener w)) \<and>
   (case TcpListener_OnConnection status h r l of
      (l', hs, cs) \<Rightarrow>
        if status < 0 then l' = l \<and> hs = []
        else hs = resume_if (tl_waiter l) \<and> tl_waiter l' = null_handle \<and>
          fst (AcceptAwaitable_await_resume l') \<noteq> None)"
proof -
  have "aw_accepted (fold accept_step evs w) =
      returned_streams (aw_returned (fold accept_step evs w)) @ tl_pending (aw_listener (fold accept_step evs w))"
    if "aw_accepted w = returned_streams (aw_returned w) @ tl_pending (aw_listener w)" for w
    using that by (induction evs arbitrary: w) (simp_all add: accept_step_fifo)
  moreover have "aw_accepted (accept_start h0) =
      returned_streams (aw_returned (accept_start h0)) @ tl_pending (aw_listener (accept_start h0))"
    by (simp add: accept_start_def TcpListener_init_def returned_streams_def)
  ultimately show ?thesis
    by (auto simp: TcpListener_OnConnection_def AcceptAwaitable_await_resume_def Let_def split: prod.splits list.splits)
qed

text \<open>A second coroutine that waits replaces the first, which is then never resumed.\<close>

lemma second_accept_replaces_first:
  "AcceptAwaitable_await_suspend h2 (AcceptAwaitable_await_suspend h1 l) = AcceptAwaitable_await_suspend h2 l"
  by (simp add: AcceptAwaitable_await_suspend_def)

end
