(* ===== verification/Tcp_Await.thy ===== *)
theory Tcp_Await
  imports Tcp
begin

text \<open>
  A coroutine that uses the streams of \<open>io/tcp.hpp\<close>: the awaitable objects it makes, each \<open>co_await\<close> from
  \<open>await_ready\<close> to \<open>await_resume\<close>, and the client handler of \<open>examples/04_tcp_echo_server.cpp\<close>.  What libuv
  calls back is a list; a \<open>co_await\<close> takes from it what happens while the coroutine is suspended, and is \<open>None\<close>
  when the coroutine is still suspended at the end of the list.
\<close>

subsection \<open>The awaitables\<close>

text \<open>The stream or listener that an awaitable refers to is passed along with it.\<close>

record ConnectAwaitable =
  ca_host :: string
  ca_port :: uint16
  ca_sync_error :: int

definition ConnectAwaitable_init :: "string \<Rightarrow> uint16 \<Rightarrow> ConnectAwaitable" where
  "ConnectAwaitable_init host port = \<lparr>ca_host = host, ca_port = port, ca_sync_error = 0\<rparr>"

definition TcpStream_Connect :: "string \<Rightarrow> uint16 \<Rightarrow> ConnectAwaitable" where
  "TcpStream_Connect host port = ConnectAwaitable_init host port"

record ReadAwaitable =
  ra_max_bytes :: size_t

definition ReadAwaitable_init :: "size_t \<Rightarrow> ReadAwaitable" where
  "ReadAwaitable_init max_bytes = \<lparr>ra_max_bytes = max_bytes\<rparr>"

definition TcpStream_Read :: "size_t option \<Rightarrow> ReadAwaitable" where
  "TcpStream_Read max_bytes = ReadAwaitable_init (case max_bytes of None \<Rightarrow> 4096 | Some n \<Rightarrow> n)"

record WriteAwaitable =
  wa_data :: string
  wa_bytes_written :: int

definition WriteAwaitable_init :: "string \<Rightarrow> WriteAwaitable" where
  "WriteAwaitable_init data = \<lparr>wa_data = data, wa_bytes_written = 0\<rparr>"

definition TcpStream_Write :: "string \<Rightarrow> WriteAwaitable" where
  "TcpStream_Write data = WriteAwaitable_init data"

definition WriteAwaitable_await_resume :: "WriteAwaitable \<Rightarrow> int" where
  "WriteAwaitable_await_resume aw = wa_bytes_written aw"

subsection \<open>Connect\<close>

text \<open>
  \<open>resolve\<close> is \<open>uv_ip4_addr\<close>, \<open>result\<close> the answer of \<open>uv_tcp_connect\<close>; if that accepted the request, \<open>OnConnect\<close>
  is called with \<open>status\<close>, or is still to come (\<open>None\<close>).
\<close>

definition co_connect ::
  "(string \<Rightarrow> uint16 \<Rightarrow> int + uint32) \<Rightarrow> int \<Rightarrow> int option \<Rightarrow> handle \<Rightarrow> ConnectAwaitable \<Rightarrow> TcpStream \<Rightarrow> int option \<times> TcpStream" where
  "co_connect resolve result status h aw s =
    (case ConnectAwaitable_await_suspend (resolve (ca_host aw) (ca_port aw)) result (ca_port aw) h s of
       (suspended, err, s, _) \<Rightarrow>
         let aw = aw\<lparr>ca_sync_error := err\<rparr> in
         if \<not> suspended then (Some (ConnectAwaitable_await_resume (ca_sync_error aw) s), s)
         else case status of
             None \<Rightarrow> (None, s)
           | Some st \<Rightarrow>
               (case TcpStream_OnConnect st s of
                  (s, hs) \<Rightarrow> (if h \<in> set hs then Some (ConnectAwaitable_await_resume (ca_sync_error aw) s) else None, s)))"

text \<open>
  The value of \<open>co_await Connect\<close> is the first error on the way, or what libuv reported; a stream can be
  connected only once, even if the first attempt failed.
\<close>

lemma co_connect_result:
  assumes "h \<noteq> null_handle" and "\<not> ts_initialized s" and "\<And>err. resolve host port = Inl err \<Longrightarrow> err \<noteq> 0"
  shows "fst (co_connect resolve result (Some status) h (TcpStream_Connect host port) s) =
      Some (case resolve host port of Inl err \<Rightarrow> err | Inr _ \<Rightarrow> if result \<noteq> 0 then result else status)"
    and "ts_initialized (snd (co_connect resolve result (Some status) h (TcpStream_Connect host port) s))"
  using assms
  by (auto simp: co_connect_def TcpStream_Connect_def ConnectAwaitable_init_def ConnectAwaitable_await_suspend_def
      ConnectAwaitable_await_resume_def TcpStream_OnConnect_def Let_def split: sum.splits)

lemma co_connect_again:
  "ts_initialized s \<Longrightarrow> co_connect resolve result status h (TcpStream_Connect host port) s = (Some UV_EALREADY, s)"
  by (simp add: co_connect_def ConnectAwaitable_await_suspend_def ConnectAwaitable_await_resume_def UV_EALREADY_def)

subsection \<open>Read\<close>

type_synonym read_callbacks = "(nat \<times> uv_outcome) list"

fun read_wait :: "handle \<Rightarrow> read_callbacks \<Rightarrow> TcpStream \<Rightarrow> (TcpStream \<times> read_callbacks) option" where
  "read_wait h [] s = None"
| "read_wait h ((suggested, out) # cbs) s =
     (case uv_read_callback suggested out s of
        (s, hs, _) \<Rightarrow> if h \<in> set hs then Some (s, cbs) else read_wait h cbs s)"

definition co_read :: "handle \<Rightarrow> read_callbacks \<Rightarrow> TcpStream \<Rightarrow> (string \<times> TcpStream \<times> uv_call list \<times> read_callbacks) option" where
  "co_read h cbs s =
    (case (if ReadAwaitable_await_ready s then Some (s, cbs, [])
           else case ReadAwaitable_await_suspend h s of (s, calls) \<Rightarrow>
             map_option (\<lambda>(s, cbs). (s, cbs, calls)) (read_wait h cbs s)) of
       None \<Rightarrow> None
     | Some (s, cbs, calls) \<Rightarrow>
         (case ReadAwaitable_await_resume s of (data, s, calls') \<Rightarrow> Some (data, s, calls @ calls', cbs)))"

text \<open>What one callback brings: libuv stores at most as many bytes as were allocated.\<close>

fun piece :: "nat \<times> uv_outcome \<Rightarrow> string" where
  "piece (suggested, UvData bs) = take (if 0 < suggested then suggested else 4096) bs"
| "piece _ = []"

lemma callback_piece: "uv_read_callback suggested out s = (s', hs, bs) \<Longrightarrow> bs = piece (suggested, out)"
  by (cases out) (auto simp: TcpStream_AllocBuffer_def Let_def split: prod.splits)

lemma callback_socket:
  "uv_read_callback suggested out s = (s', hs, bs) \<Longrightarrow> ts_socket s' = ts_socket s"
  by (cases out) (auto simp: TcpStream_AllocBuffer_def TcpStream_OnRead_def Let_def split: if_splits)

text \<open>A suspended reader is resumed by the next callback, whatever it is, and gets what that one brings.\<close>

lemma co_read_suspends:
  assumes "h \<noteq> null_handle" and "ts_read_buffer s = []"
  shows "co_read h [] s = None"
    and "\<exists>s'. co_read h ((suggested, out) # cbs) s =
        Some (piece (suggested, out), s', [UvReadStart (ts_socket s), UvReadStop (ts_socket s)], cbs) \<and>
      ts_read_buffer s' = [] \<and> \<not> ts_reading s' \<and> ts_socket s' = ts_socket s \<and>
      (ts_closed s' \<longleftrightarrow> ts_closed s \<or> read_failed (EvRead suggested out))"
proof -
  show "co_read h [] s = None"
    using assms by (simp add: co_read_def ReadAwaitable_await_ready_def ReadAwaitable_await_suspend_def)
  let ?s = "s\<lparr>ts_read_waiter := h, ts_reading := True\<rparr>"
  obtain s' hs bs where cb: "uv_read_callback suggested out ?s = (s', hs, bs)" by (metis prod.exhaust)
  note b = read_callback_buffer [OF cb] and p = callback_piece [OF cb] and c = read_callback_closed [OF cb]
    and so = callback_socket [OF cb]
  have "h \<in> set hs" using b(3) assms(1) by (simp add: resume_if_def)
  then show "\<exists>s'. co_read h ((suggested, out) # cbs) s =
        Some (piece (suggested, out), s', [UvReadStart (ts_socket s), UvReadStop (ts_socket s)], cbs) \<and>
      ts_read_buffer s' = [] \<and> \<not> ts_reading s' \<and> ts_socket s' = ts_socket s \<and>
      (ts_closed s' \<longleftrightarrow> ts_closed s \<or> read_failed (EvRead suggested out))"
    using cb b(1) p c so assms(2)
    by (simp add: co_read_def ReadAwaitable_await_ready_def ReadAwaitable_await_suspend_def ReadAwaitable_await_resume_def)
qed

subsection \<open>Write\<close>

text \<open>\<open>uv_write\<close> answers \<open>result\<close>; the callback comes with \<open>status\<close>, or is still to come.\<close>

definition co_write :: "int \<times> int option \<Rightarrow> handle \<Rightarrow> WriteAwaitable \<Rightarrow> TcpStream \<Rightarrow> int option \<times> uv_call list" where
  "co_write rs h aw s =
    (case WriteAwaitable_await_suspend (fst rs) (wa_data aw) h s of
       (suspended, n, req, calls) \<Rightarrow>
         let aw = aw\<lparr>wa_bytes_written := n\<rparr> in
         (case (req, snd rs) of
            (None, _) \<Rightarrow> Some (WriteAwaitable_await_resume aw)
          | (Some req, None) \<Rightarrow> None
          | (Some req, Some status) \<Rightarrow>
              (case TcpStream_OnWrite status req of
                 (n, waiter) \<Rightarrow> if waiter = h then Some (WriteAwaitable_await_resume (aw\<lparr>wa_bytes_written := n\<rparr>)) else None),
          calls))"

lemma co_write_result:
  assumes "length data < 2 ^ 31"
  shows "co_write (result, Some status) h (TcpStream_Write data) s =
    (Some (if result \<noteq> 0 then result else if 0 \<le> status then int (length data) else status), [UvWrite (ts_socket s) data])"
proof -
  have "unat (of_nat (length data) :: uint32) = length data" using assms by (simp add: unat_of_nat)
  moreover have "sint (of_nat (length data) :: 32 word) = int (length data)"
    using assms by (simp add: signed_of_nat signed_take_bit_int_eq_self)
  ultimately show ?thesis
    by (simp add: co_write_def TcpStream_Write_def WriteAwaitable_init_def WriteAwaitable_await_suspend_def
        TcpStream_OnWrite_def WriteAwaitable_await_resume_def Let_def)
qed

subsection \<open>Accept\<close>

type_synonym connections = "(int \<times> nat \<times> int) list"

fun accept_wait :: "handle \<Rightarrow> connections \<Rightarrow> TcpListener \<Rightarrow> (TcpListener \<times> connections) option" where
  "accept_wait h [] l = None"
| "accept_wait h ((status, sock, r) # cs) l =
     (case TcpListener_OnConnection status sock r l of
        (l, hs, _) \<Rightarrow> if h \<in> set hs then Some (l, cs) else accept_wait h cs l)"

definition co_accept :: "handle \<Rightarrow> connections \<Rightarrow> TcpListener \<Rightarrow> (TcpStream option \<times> TcpListener \<times> connections) option" where
  "co_accept h cs l =
    (case (if AcceptAwaitable_await_ready l then Some (l, cs) else accept_wait h cs (AcceptAwaitable_await_suspend h l)) of
       None \<Rightarrow> None
     | Some (l, cs) \<Rightarrow> (case AcceptAwaitable_await_resume l of (stream, l) \<Rightarrow> Some (stream, l, cs)))"

text \<open>\<open>Accept\<close> returns as soon as a connection is there, and then never the null pointer.\<close>

lemma accept_wait_stream:
  assumes "tl_waiter l = h" and "h \<noteq> null_handle"
  shows "(accept_wait h cs l = None \<longleftrightarrow> (\<forall>c \<in> set cs. fst c < 0)) \<and>
    (\<forall>l' cs'. accept_wait h cs l = Some (l', cs') \<longrightarrow> tl_pending l' \<noteq> [])"
  using assms
  by (induction h cs l rule: accept_wait.induct) (auto simp: TcpListener_OnConnection_def Let_def split: prod.splits)

lemma co_accept_returns:
  assumes "h \<noteq> null_handle"
  shows "(co_accept h cs l = None \<longleftrightarrow> tl_pending l = [] \<and> (\<forall>c \<in> set cs. fst c < 0)) \<and>
    (\<forall>stream l' cs'. co_accept h cs l = Some (stream, l', cs') \<longrightarrow> stream \<noteq> None)"
  using accept_wait_stream [of "AcceptAwaitable_await_suspend h l" h cs] assms
  by (auto simp: co_accept_def AcceptAwaitable_await_ready_def AcceptAwaitable_await_suspend_def AcceptAwaitable_await_resume_def
      split: option.splits prod.splits list.splits)

end
