(* ===== verification/Sync_Wait.thy ===== *)
theory Sync_Wait
  imports Prelude
begin

text \<open>
  \<open>sync/sync_wait.hpp\<close>: the thread that calls \<open>SyncWait\<close> starts a wrapper coroutine around the task
  and then blocks on an event, a flag with a mutex and a condition variable, until the wrapper
  has stored the result and signalled.  The wrapper runs on the calling thread until the task
  suspends, and from then on wherever the task is resumed.  \<open>SyncWait(Task<void>)\<close> is the case of the
  unit value.
\<close>

subsection \<open>SyncWaitEvent\<close>

text \<open>
  Both operations hold the mutex, so each is one step.  \<open>Wait\<close> evaluates the predicate and either
  returns or blocks; \<open>Signal\<close> sets the flag and makes a blocked thread evaluate the predicate again,
  which may also happen without a signal.
\<close>

datatype waiter = NotWaiting | Evaluating | Blocked

record SyncWaitEvent =
  swe_signaled :: bool
  swe_waiter :: waiter

definition SyncWaitEvent_init :: SyncWaitEvent where
  "SyncWaitEvent_init = \<lparr>swe_signaled = False, swe_waiter = NotWaiting\<rparr>"

definition SyncWaitEvent_Signal :: "SyncWaitEvent \<Rightarrow> SyncWaitEvent" where
  "SyncWaitEvent_Signal e =
    e\<lparr>swe_signaled := True, swe_waiter := (if swe_waiter e = Blocked then Evaluating else swe_waiter e)\<rparr>"

text \<open>The result says whether \<open>Wait\<close> returns.\<close>

definition SyncWaitEvent_Wait :: "SyncWaitEvent \<Rightarrow> bool \<times> SyncWaitEvent" where
  "SyncWaitEvent_Wait e =
    (if swe_signaled e then (True, e\<lparr>swe_waiter := NotWaiting\<rparr>) else (False, e\<lparr>swe_waiter := Blocked\<rparr>))"

subsection \<open>SyncWait\<close>

text \<open>
  The caller: before the start, inside \<open>resume()\<close> of the wrapper, in \<open>Wait\<close>, returned (with
  \<open>*result\<close>, after which the wrapper's frame is destroyed).  The wrapper: not started, awaiting
  the task, about to signal, about to suspend finally, suspended at its end.
\<close>

datatype 'v caller = CallerStart | CallerResuming | CallerWaiting | CallerReturned "'v option"
datatype wrapper = WrapperStart | WrapperAwaiting | WrapperSignalling | WrapperEnding | WrapperDone

record 'v sync_wait =
  sw_event :: SyncWaitEvent
  sw_result :: "'v option"
  sw_caller :: "'v caller"
  sw_wrapper :: wrapper
  sw_completed :: "'v list"
  sw_suspended :: bool

definition SyncWait_init :: "'v sync_wait" where
  "SyncWait_init = \<lparr>sw_event = SyncWaitEvent_init, sw_result = None, sw_caller = CallerStart,
    sw_wrapper = WrapperStart, sw_completed = [], sw_suspended = False\<rparr>"

text \<open>
  \<open>CompleteTask v\<close>: the task returns \<open>v\<close> and the wrapper assigns \<open>result\<close>.  \<open>SuspendTask\<close>: the task
  suspends while the caller is inside \<open>resume()\<close>, which then returns; the rest of the wrapper runs
  elsewhere.
\<close>

datatype 'v sw_label = StartWrapper | SuspendTask | CompleteTask 'v | SignalEvent | EndWrapper | CallWait | Wakeup

fun SyncWait_step :: "'v sw_label \<Rightarrow> 'v sync_wait \<Rightarrow> 'v sync_wait option" where
  "SyncWait_step StartWrapper w =
     (if sw_caller w = CallerStart
      then Some (w\<lparr>sw_caller := CallerResuming, sw_wrapper := WrapperAwaiting\<rparr>) else None)"
| "SyncWait_step SuspendTask w =
     (if sw_caller w = CallerResuming \<and> sw_wrapper w = WrapperAwaiting
      then Some (w\<lparr>sw_caller := CallerWaiting, sw_event := (sw_event w)\<lparr>swe_waiter := Evaluating\<rparr>, sw_suspended := True\<rparr>)
      else None)"
| "SyncWait_step (CompleteTask v) w =
     (if sw_wrapper w = WrapperAwaiting
      then Some (w\<lparr>sw_result := Some v, sw_wrapper := WrapperSignalling, sw_completed := sw_completed w @ [v]\<rparr>) else None)"
| "SyncWait_step SignalEvent w =
     (if sw_wrapper w = WrapperSignalling
      then Some (w\<lparr>sw_event := SyncWaitEvent_Signal (sw_event w), sw_wrapper := WrapperEnding\<rparr>) else None)"
| "SyncWait_step EndWrapper w =
     (if sw_wrapper w = WrapperEnding
      then Some (if sw_caller w = CallerResuming
                 then w\<lparr>sw_wrapper := WrapperDone, sw_caller := CallerWaiting,
                        sw_event := (sw_event w)\<lparr>swe_waiter := Evaluating\<rparr>\<rparr>
                 else w\<lparr>sw_wrapper := WrapperDone\<rparr>)
      else None)"
| "SyncWait_step CallWait w =
     (if sw_caller w = CallerWaiting \<and> swe_waiter (sw_event w) = Evaluating
      then (case SyncWaitEvent_Wait (sw_event w) of
              (returns, e) \<Rightarrow>
                Some (w\<lparr>sw_event := e, sw_caller := (if returns then CallerReturned (sw_result w) else CallerWaiting)\<rparr>))
      else None)"
| "SyncWait_step Wakeup w =
     (if swe_waiter (sw_event w) = Blocked then Some (w\<lparr>sw_event := (sw_event w)\<lparr>swe_waiter := Evaluating\<rparr>\<rparr>) else None)"

inductive sync_wait_reach :: "'v sync_wait \<Rightarrow> bool" where
  start: "sync_wait_reach SyncWait_init"
| step: "sync_wait_reach w \<Longrightarrow> SyncWait_step l w = Some w' \<Longrightarrow> sync_wait_reach w'"

lemmas SyncWait_defs [op_defs] = SyncWaitEvent_Signal_def SyncWaitEvent_Wait_def

text \<open>
  The result is the one value the task completed with, set before the signal; the caller is blocked
  only while there is no signal, and is in \<open>resume()\<close> only while the task has not suspended.
\<close>

fun has_result :: "wrapper \<Rightarrow> bool" where
  "has_result WrapperStart = False"
| "has_result WrapperAwaiting = False"
| "has_result _ = True"

fun has_signalled :: "wrapper \<Rightarrow> bool" where
  "has_signalled WrapperEnding = True"
| "has_signalled WrapperDone = True"
| "has_signalled _ = False"

definition swi_result :: "'v sync_wait \<Rightarrow> bool" where
  "swi_result w \<longleftrightarrow>
     (case sw_result w of None \<Rightarrow> sw_completed w = [] | Some v \<Rightarrow> sw_completed w = [v]) \<and>
     (sw_result w \<noteq> None) = has_result (sw_wrapper w)"

definition swi_event :: "'v sync_wait \<Rightarrow> bool" where
  "swi_event w \<longleftrightarrow>
     swe_signaled (sw_event w) = has_signalled (sw_wrapper w) \<and>
     (swe_waiter (sw_event w) = Blocked \<longrightarrow> \<not> swe_signaled (sw_event w)) \<and>
     (swe_waiter (sw_event w) = NotWaiting \<longleftrightarrow> sw_caller w \<noteq> CallerWaiting)"

definition swi_caller :: "'v sync_wait \<Rightarrow> bool" where
  "swi_caller w \<longleftrightarrow>
     (case sw_caller w of
        CallerStart \<Rightarrow> sw_wrapper w = WrapperStart
      | CallerResuming \<Rightarrow> sw_wrapper w \<noteq> WrapperStart \<and> sw_wrapper w \<noteq> WrapperDone
      | CallerWaiting \<Rightarrow> sw_wrapper w \<noteq> WrapperStart \<and> (sw_suspended w \<or> sw_wrapper w = WrapperDone)
      | CallerReturned r \<Rightarrow> r = sw_result w \<and> has_signalled (sw_wrapper w) \<and> (sw_suspended w \<or> sw_wrapper w = WrapperDone))"

definition sync_wait_inv :: "'v sync_wait \<Rightarrow> bool" where
  "sync_wait_inv w \<longleftrightarrow> swi_result w \<and> swi_event w \<and> swi_caller w"

lemma swi_result_step: "swi_result w \<Longrightarrow> swi_caller w \<Longrightarrow> SyncWait_step l w = Some w' \<Longrightarrow> swi_result w'"
  by (cases l) (auto simp: swi_result_def swi_caller_def SyncWait_defs split: if_splits option.splits)

lemma swi_event_step: "swi_event w \<Longrightarrow> swi_caller w \<Longrightarrow> SyncWait_step l w = Some w' \<Longrightarrow> swi_event w'"
  by (cases l) (auto simp: swi_event_def swi_caller_def SyncWait_defs split: if_splits)

lemma swi_caller_step:
  "swi_caller w \<Longrightarrow> swi_event w \<Longrightarrow> SyncWait_step l w = Some w' \<Longrightarrow> swi_caller w'"
  by (cases l) (auto simp: swi_caller_def swi_event_def SyncWait_defs split: if_splits caller.splits)

lemma sync_wait_step_inv: "sync_wait_inv w \<Longrightarrow> SyncWait_step l w = Some w' \<Longrightarrow> sync_wait_inv w'"
  unfolding sync_wait_inv_def using swi_result_step swi_event_step swi_caller_step by blast

lemma sync_wait_reach_inv: "sync_wait_reach w \<Longrightarrow> sync_wait_inv w"
proof (induction rule: sync_wait_reach.induct)
  case start
  show ?case by (simp add: sync_wait_inv_def swi_result_def swi_event_def swi_caller_def SyncWait_init_def SyncWaitEvent_init_def)
next
  case (step w l w')
  then show ?case using sync_wait_step_inv by blast
qed

text \<open>
  Property C21 (SyncWait).  In every interleaving of the calling thread and the threads the task runs
  on: \<open>SyncWait\<close> returns only a value, the one the task completed with, and the task
  completes at most once; once the wrapper has signalled, the calling thread is not blocked and, if
  it has not returned, can return in at most two further steps; and when the task never suspended,
  the wrapper's frame is destroyed only after the wrapper is suspended at its end.
\<close>

theorem sync_wait_returns:
  assumes "sync_wait_reach w"
  shows "(\<forall>r. sw_caller w = CallerReturned r \<longrightarrow> (\<exists>v. r = Some v \<and> sw_completed w = [v])) \<and>
    length (sw_completed w) \<le> 1 \<and>
    (swe_signaled (sw_event w) \<longrightarrow>
       swe_waiter (sw_event w) \<noteq> Blocked \<and>
       (\<exists>ls w' r. length ls \<le> 2 \<and> fold (\<lambda>l ow. Option.bind ow (SyncWait_step l)) ls (Some w) = Some w' \<and>
          sw_caller w' = CallerReturned r)) \<and>
    (\<forall>r. sw_caller w = CallerReturned r \<and> \<not> sw_suspended w \<longrightarrow> sw_wrapper w = WrapperDone)"
proof -
  have "sync_wait_inv w" by (rule sync_wait_reach_inv [OF assms])
  then have inv: "swi_result w" "swi_event w" "swi_caller w" by (simp_all add: sync_wait_inv_def)
  have "\<exists>ls w' r. length ls \<le> 2 \<and> fold (\<lambda>l ow. Option.bind ow (SyncWait_step l)) ls (Some w) = Some w' \<and>
      sw_caller w' = CallerReturned r" if sig: "swe_signaled (sw_event w)"
  proof (cases "sw_caller w")
    case CallerStart
    with inv sig show ?thesis by (simp add: swi_event_def swi_caller_def)
  next
    case CallerResuming
    with inv sig have "sw_wrapper w = WrapperEnding"
      by (cases "sw_wrapper w") (simp_all add: swi_event_def swi_caller_def)
    with CallerResuming sig show ?thesis
      by (intro exI [of _ "[EndWrapper, CallWait]"]) (simp add: SyncWait_defs)
  next
    case CallerWaiting
    with inv sig have "swe_waiter (sw_event w) = Evaluating"
      by (cases "swe_waiter (sw_event w)") (simp_all add: swi_event_def)
    with CallerWaiting sig show ?thesis
      by (intro exI [of _ "[CallWait]"]) (simp add: SyncWait_defs)
  next
    case (CallerReturned r)
    then show ?thesis by (intro exI [of _ "[]"]) simp
  qed
  moreover have "sw_result w \<noteq> None" if "sw_caller w = CallerReturned r" for r
    using inv that by (cases "sw_wrapper w") (simp_all add: swi_result_def swi_caller_def)
  ultimately show ?thesis
    using inv by (auto simp: swi_result_def swi_event_def swi_caller_def split: option.splits)
qed

definition sync_wait_example :: "nat sync_wait" where
  "sync_wait_example = SyncWait_init\<lparr>sw_event := \<lparr>swe_signaled = True, swe_waiter = NotWaiting\<rparr>, sw_result := Some 7,
    sw_caller := CallerReturned (Some 7), sw_wrapper := WrapperEnding, sw_completed := [7], sw_suspended := True\<rparr>"

lemma sync_wait_example_reach: "sync_wait_reach sync_wait_example"
proof -
  have "sync_wait_reach w" if "fold (\<lambda>l ow. Option.bind ow (SyncWait_step l)) ls (Some w0) = Some w"
    and "sync_wait_reach w0" for ls and w0 w :: "nat sync_wait"
    using that
  proof (induction ls arbitrary: w0)
    case (Cons l ls)
    show ?case
    proof (cases "SyncWait_step l w0")
      case None
      have "fold (\<lambda>l ow. Option.bind ow (SyncWait_step l)) ls None = None" by (induction ls) simp_all
      with None Cons.prems show ?thesis by simp
    next
      case (Some w1)
      with Cons show ?thesis by (auto intro: sync_wait_reach.step)
    qed
  qed simp
  from this [OF _ sync_wait_reach.start, of "[StartWrapper, SuspendTask, CallWait, CompleteTask 7, SignalEvent, CallWait]"]
  show ?thesis by (simp add: SyncWait_init_def SyncWaitEvent_init_def SyncWait_defs sync_wait_example_def)
qed

theorem sync_wait_returns_witness:
  "\<exists>v. sw_caller sync_wait_example = CallerReturned (Some v) \<and> sw_completed sync_wait_example = [v]"
  using sync_wait_returns [OF sync_wait_example_reach] by (simp add: sync_wait_example_def)

text \<open>
  When the task did suspend, the calling thread may return, and destroy the wrapper's frame, while
  the wrapper is still on its way to its final suspension on another thread.
\<close>

lemma wrapper_destroyed_while_running:
  "\<exists>w :: nat sync_wait. sync_wait_reach w \<and> sw_caller w = CallerReturned (Some 7) \<and> sw_wrapper w = WrapperEnding"
  using sync_wait_example_reach by (intro exI [of _ sync_wait_example]) (simp add: sync_wait_example_def)

end
