(* ===== verification/Periodic_Timer.thy ===== *)
theory Periodic_Timer
  imports Prelude
begin

text \<open>
  \<open>io/periodic_timer.hpp\<close>: a repeating libuv timer that one coroutine at a time waits for.  The
  calls to libuv are recorded; the moments at which libuv reports an expiry are arguments.
\<close>

datatype uv_timer_call = UvTimerInit | UvTimerStart uint64 uint64 | UvTimerStop | UvTimerSetRepeat uint64 | UvTimerClose

record PeriodicTimer =
  pt_interval :: int
  pt_running :: bool
  pt_waiting :: handle

definition PeriodicTimer_init :: "int \<Rightarrow> PeriodicTimer \<times> uv_timer_call list" where
  "PeriodicTimer_init interval =
    (\<lparr>pt_interval = interval, pt_running = False, pt_waiting = null_handle\<rparr>, [UvTimerInit])"

definition WaitAwaitable_await_suspend :: "handle \<Rightarrow> PeriodicTimer \<Rightarrow> PeriodicTimer \<times> uv_timer_call list" where
  "WaitAwaitable_await_suspend h t =
    (let t = t\<lparr>pt_waiting := h\<rparr>
     in if \<not> pt_running t
        then (t\<lparr>pt_running := True\<rparr>, [UvTimerStart (of_int (pt_interval t)) (of_int (pt_interval t))])
        else (t, []))"

definition PeriodicTimer_Stop :: "PeriodicTimer \<Rightarrow> PeriodicTimer \<times> uv_timer_call list" where
  "PeriodicTimer_Stop t = (if pt_running t then (t\<lparr>pt_running := False\<rparr>, [UvTimerStop]) else (t, []))"

definition PeriodicTimer_SetInterval :: "int \<Rightarrow> PeriodicTimer \<Rightarrow> PeriodicTimer \<times> uv_timer_call list" where
  "PeriodicTimer_SetInterval interval t =
    (let t = t\<lparr>pt_interval := interval\<rparr>
     in (t, if pt_running t then [UvTimerSetRepeat (of_int (pt_interval t))] else []))"

definition PeriodicTimer_OnTimer :: "PeriodicTimer \<Rightarrow> PeriodicTimer \<times> handle list" where
  "PeriodicTimer_OnTimer t =
    (if pt_waiting t \<noteq> null_handle then (t\<lparr>pt_waiting := null_handle\<rparr>, [pt_waiting t]) else (t, []))"

subsection \<open>A timer in use\<close>

datatype timer_event = TmWait handle | TmStop | TmSetInterval int | TmExpired

record timer_world =
  tm_timer :: PeriodicTimer
  tm_calls :: "uv_timer_call list"
  tm_waited :: "handle list"
  tm_resumed :: "handle list"

fun timer_step :: "timer_event \<Rightarrow> timer_world \<Rightarrow> timer_world" where
  "timer_step (TmWait h) w =
     (case WaitAwaitable_await_suspend h (tm_timer w) of
        (t, cs) \<Rightarrow> w\<lparr>tm_timer := t, tm_calls := tm_calls w @ cs, tm_waited := tm_waited w @ [h]\<rparr>)"
| "timer_step TmStop w =
     (case PeriodicTimer_Stop (tm_timer w) of (t, cs) \<Rightarrow> w\<lparr>tm_timer := t, tm_calls := tm_calls w @ cs\<rparr>)"
| "timer_step (TmSetInterval i) w =
     (case PeriodicTimer_SetInterval i (tm_timer w) of (t, cs) \<Rightarrow> w\<lparr>tm_timer := t, tm_calls := tm_calls w @ cs\<rparr>)"
| "timer_step TmExpired w =
     (case PeriodicTimer_OnTimer (tm_timer w) of (t, hs) \<Rightarrow> w\<lparr>tm_timer := t, tm_resumed := tm_resumed w @ hs\<rparr>)"

text \<open>
  The destructor resumes the coroutine that waits; \<open>after\<close> is what that coroutine does with the timer
  before it suspends again or ends.
\<close>

definition PeriodicTimer_destroy :: "timer_event list \<Rightarrow> timer_world \<Rightarrow> timer_world" where
  "PeriodicTimer_destroy after w =
    (let w = timer_step TmStop w;
         w = (if pt_waiting (tm_timer w) \<noteq> null_handle
              then fold timer_step after
                (w\<lparr>tm_timer := (tm_timer w)\<lparr>pt_waiting := null_handle\<rparr>,
                   tm_resumed := tm_resumed w @ [pt_waiting (tm_timer w)]\<rparr>)
              else w)
     in w\<lparr>tm_calls := tm_calls w @ [UvTimerClose]\<rparr>)"

definition timer_start :: "int \<Rightarrow> timer_world" where
  "timer_start i = (case PeriodicTimer_init i of (t, cs) \<Rightarrow>
    \<lparr>tm_timer = t, tm_calls = cs, tm_waited = [], tm_resumed = []\<rparr>)"

text \<open>One coroutine at a time: a \<open>Wait\<close> only when nobody waits, by an existing coroutine.\<close>

fun single_waiter :: "timer_event list \<Rightarrow> timer_world \<Rightarrow> bool" where
  "single_waiter [] w = True"
| "single_waiter (ev # evs) w =
     ((case ev of TmWait h \<Rightarrow> h \<noteq> null_handle \<and> pt_waiting (tm_timer w) = null_handle | _ \<Rightarrow> True) \<and>
      single_waiter evs (timer_step ev w))"

text \<open>The state of the libuv timer after the calls: whether it is active.\<close>

fun uv_active :: "bool \<Rightarrow> uv_timer_call list \<Rightarrow> bool" where
  "uv_active a [] = a"
| "uv_active a (UvTimerStart _ _ # cs) = uv_active True cs"
| "uv_active a (UvTimerStop # cs) = uv_active False cs"
| "uv_active a (UvTimerClose # cs) = uv_active False cs"
| "uv_active a (_ # cs) = uv_active a cs"

lemma uv_active_append: "uv_active a (xs @ ys) = uv_active (uv_active a xs) ys"
  by (induction a xs rule: uv_active.induct) simp_all

lemmas timer_defs [op_defs] =
  WaitAwaitable_await_suspend_def PeriodicTimer_Stop_def PeriodicTimer_SetInterval_def PeriodicTimer_OnTimer_def

definition timer_inv :: "timer_world \<Rightarrow> bool" where
  "timer_inv w \<longleftrightarrow> pt_running (tm_timer w) = uv_active False (tm_calls w) \<and>
     tm_waited w = tm_resumed w @ resume_if (pt_waiting (tm_timer w))"

lemma timer_step_inv:
  assumes "timer_inv w" and "single_waiter [ev] w"
  shows "timer_inv (timer_step ev w)"
  using assms by (cases ev) (auto simp: timer_inv_def timer_defs uv_active_append resume_if_def Let_def)

lemma timer_run_inv: "timer_inv w \<Longrightarrow> single_waiter evs w \<Longrightarrow> timer_inv (fold timer_step evs w)"
  by (induction evs arbitrary: w) (simp_all add: timer_step_inv)

text \<open>
  Periodic timer.  In every use by one coroutine at a time, the libuv timer is active
  exactly while \<open>running_\<close> is set, and the \<open>Wait\<close>s are completed in order, each once, by the next
  expiry: all but the one still waiting, if any; and destroying the timer, when the coroutine it
  resumes does not touch it again, completes that one too and leaves the libuv timer closed.
\<close>

theorem periodic_timer_waits:
  assumes "single_waiter evs (timer_start i)" and "w = fold timer_step evs (timer_start i)"
  shows "(pt_running (tm_timer w) \<longleftrightarrow> uv_active False (tm_calls w)) \<and>
    tm_waited w = tm_resumed w @ resume_if (pt_waiting (tm_timer w)) \<and>
    tm_resumed (timer_step TmExpired w) = tm_waited w \<and>
    tm_resumed (PeriodicTimer_destroy [] w) = tm_waited w \<and>
    last (tm_calls (PeriodicTimer_destroy [] w)) = UvTimerClose"
proof -
  have "timer_inv (timer_start i)" by (simp add: timer_inv_def timer_start_def PeriodicTimer_init_def)
  from timer_run_inv [OF this assms(1)] have "timer_inv w" by (simp add: assms(2))
  then show ?thesis
    by (auto simp: timer_inv_def timer_defs PeriodicTimer_destroy_def resume_if_def Let_def)
qed

theorem periodic_timer_waits_witness:
  "tm_resumed (PeriodicTimer_destroy [] (fold timer_step [TmWait 5, TmExpired, TmWait 6, TmStop] (timer_start 100))) = [5, 6]"
  using periodic_timer_waits [of "[TmWait 5, TmExpired, TmWait 6, TmStop]" 100, OF _ refl]
  by (auto simp: timer_start_def PeriodicTimer_init_def timer_defs)

text \<open>
  A coroutine that waits in a loop waits again when the destructor resumes it: it is then
  suspended on a timer that is started once more and closed at once, and nothing resumes it.
\<close>

lemma timer_destroyed_under_loop:
  assumes "pt_waiting (tm_timer w) = h" and "h \<noteq> null_handle" and "tm_resumed w = hs"
  shows "pt_waiting (tm_timer (PeriodicTimer_destroy [TmWait h] w)) = h \<and>
    tm_resumed (PeriodicTimer_destroy [TmWait h] w) = hs @ [h] \<and>
    pt_running (tm_timer (PeriodicTimer_destroy [TmWait h] w))"
  using assms by (auto simp: PeriodicTimer_destroy_def timer_defs Let_def)

end
