(* ===== verification/Thread_Utils.thy ===== *)
theory Thread_Utils
  imports Prelude
begin

text \<open>
  \<open>io/thread_utils.hpp\<close> and \<open>io/thread_utils.cpp\<close>: the arguments the library passes to the thread
  calls of the operating system, which are parameters here and return 0 on success.
\<close>

record CpuAffinity =
  ca_cpus :: "int list"

definition CpuAffinity_None :: CpuAffinity where
  "CpuAffinity_None = \<lparr>ca_cpus = []\<rparr>"

definition CpuAffinity_SingleCore :: "int \<Rightarrow> CpuAffinity" where
  "CpuAffinity_SingleCore cpu = \<lparr>ca_cpus = [cpu]\<rparr>"

text \<open>
  The loop of \<open>Range\<close>, for bounds below the largest \<open>int\<close>: with that one as \<open>last_cpu\<close> the loop
  variable would overflow.
\<close>

function Range_loop :: "int \<Rightarrow> int \<Rightarrow> int list \<Rightarrow> int list" where
  "Range_loop i last_cpu cpus = (if i \<le> last_cpu then Range_loop (i + 1) last_cpu (cpus @ [i]) else cpus)"
  by pat_completeness auto
termination
  by (relation "measure (\<lambda>(i, last_cpu, cpus). nat (last_cpu + 1 - i))") auto

definition CpuAffinity_Range :: "int \<Rightarrow> int \<Rightarrow> CpuAffinity" where
  "CpuAffinity_Range first_cpu last_cpu = \<lparr>ca_cpus = Range_loop first_cpu last_cpu []\<rparr>"

definition CpuAffinity_Cores :: "int list \<Rightarrow> CpuAffinity" where
  "CpuAffinity_Cores cores = \<lparr>ca_cpus = cores\<rparr>"

definition CpuAffinity_IsSet :: "CpuAffinity \<Rightarrow> bool" where
  "CpuAffinity_IsSet a \<longleftrightarrow> ca_cpus a \<noteq> []"

text \<open>\<open>CPU_SETSIZE\<close> is 1024; a \<open>cpu_set_t\<close> is the set of its members.\<close>

definition CPU_SETSIZE :: int where "CPU_SETSIZE = 1024"

definition cpuset_of :: "int list \<Rightarrow> int set" where
  "cpuset_of cpus = fold (\<lambda>cpu cpuset. if 0 \<le> cpu \<and> cpu < CPU_SETSIZE then insert cpu cpuset else cpuset) cpus {}"

definition SetThreadAffinity :: "(int set \<Rightarrow> int) \<Rightarrow> CpuAffinity \<Rightarrow> bool" where
  "SetThreadAffinity setaffinity affinity =
    (if \<not> CpuAffinity_IsSet affinity then True else setaffinity (cpuset_of (ca_cpus affinity)) = 0)"

definition SetThreadName :: "(string \<Rightarrow> int) \<Rightarrow> string \<Rightarrow> bool" where
  "SetThreadName setname name \<longleftrightarrow> setname (take 15 name) = 0"

definition SetThreadNice :: "(int \<Rightarrow> int) \<Rightarrow> int \<Rightarrow> bool" where
  "SetThreadNice setpriority nice_value \<longleftrightarrow> setpriority (max (-20) (min 19 nice_value)) = 0"

lemma Range_loop_upto: "Range_loop i last_cpu cpus = cpus @ [i..last_cpu]"
proof (induction i last_cpu cpus rule: Range_loop.induct)
  case (1 i last_cpu cpus)
  then show ?case by (subst Range_loop.simps) (simp add: upto_rec1 del: Range_loop.simps)
qed

lemma cpuset_of_eq: "cpuset_of cpus = {c \<in> set cpus. 0 \<le> c \<and> c < 1024}"
proof -
  have "fold (\<lambda>cpu cpuset. if 0 \<le> cpu \<and> cpu < CPU_SETSIZE then insert cpu cpuset else cpuset) cpus A =
      A \<union> {c \<in> set cpus. 0 \<le> c \<and> c < 1024}" for A
    by (induction cpus arbitrary: A) (auto simp: CPU_SETSIZE_def)
  then show ?thesis by (simp add: cpuset_of_def)
qed

text \<open>
  What reaches the operating system is in range: the processors asked for that exist in a
  \<open>cpu_set_t\<close>, and a nice value between -20 and 19.
\<close>

lemma thread_arguments_in_range:
  "SetThreadAffinity f (CpuAffinity_Range a b) \<longleftrightarrow> b < a \<or> f {c. a \<le> c \<and> c \<le> b \<and> 0 \<le> c \<and> c < 1024} = 0"
  "SetThreadNice h v \<longleftrightarrow> h (if v < -20 then -20 else if 19 < v then 19 else v) = 0"
proof -
  have "{c \<in> set [a..b]. 0 \<le> c \<and> c < 1024} = {c. a \<le> c \<and> c \<le> b \<and> 0 \<le> c \<and> c < 1024}" by auto
  then show "SetThreadAffinity f (CpuAffinity_Range a b) \<longleftrightarrow> b < a \<or> f {c. a \<le> c \<and> c \<le> b \<and> 0 \<le> c \<and> c < 1024} = 0"
    by (auto simp: SetThreadAffinity_def CpuAffinity_IsSet_def CpuAffinity_Range_def Range_loop_upto cpuset_of_eq
        simp del: Range_loop.simps)
  show "SetThreadNice h v \<longleftrightarrow> h (if v < -20 then -20 else if 19 < v then 19 else v) = 0"
    by (auto simp: SetThreadNice_def max_def min_def)
qed

end
