(* ===== verification/When_All_Forms.thy ===== *)
theory When_All_Forms
  imports When_All
begin

text \<open>
  The other forms of \<open>WhenAll\<close> in \<open>core/when_all.hpp\<close>: the variadic one, whose children are a tuple
  started along an index sequence, and the one for a vector of tasks without a value, whose
  promises hold only the latch.  Each is shown to be a simulation of the vector form of theory
  When_All, so what is proved there holds for them.  The members of a tuple may have different
  types: \<open>'v\<close> is their union.
\<close>

subsection \<open>The variadic form\<close>

text \<open>\<open>StartingAt Is\<close>: the indices whose \<open>Start\<close> is still to be called by \<open>StartAll\<close>.\<close>

datatype tuple_phase = StartingAt "nat list" | TupleWaiting | TupleJoined

record 'v WhenAllTupleAwaitable =
  wu_tasks :: "'v WhenAllTaskPromise list"
  wu_latch :: WhenAllLatch
  wu_phase :: "child_phase list"
  wu_parent :: tuple_phase
  wu_resumed :: "handle list"

definition WhenAllTupleAwaitable_await_ready :: "nat \<Rightarrow> bool" where
  "WhenAllTupleAwaitable_await_ready n \<longleftrightarrow> n = 0"

definition WhenAllTupleAwaitable_init :: "nat \<Rightarrow> 'v WhenAllTupleAwaitable" where
  "WhenAllTupleAwaitable_init n =
    \<lparr>wu_tasks = replicate n WhenAllTaskPromise_init, wu_latch = WhenAllLatch_init (word_of_nat n),
     wu_phase = replicate n Unstarted,
     wu_parent = (if WhenAllTupleAwaitable_await_ready n then TupleJoined else StartingAt [0..<n]), wu_resumed = []\<rparr>"

fun when_all_tuple_next :: "handle \<Rightarrow> 'v wa_label \<Rightarrow> 'v WhenAllTupleAwaitable \<Rightarrow> 'v WhenAllTupleAwaitable option" where
  "when_all_tuple_next h StartChild a =
     (case wu_parent a of
        StartingAt (i # is) \<Rightarrow>
          Some (a\<lparr>wu_tasks := (wu_tasks a)[i := WhenAllTask_Start (wu_tasks a ! i)],
                  wu_phase := (wu_phase a)[i := Running], wu_parent := StartingAt is\<rparr>)
      | _ \<Rightarrow> None)"
| "when_all_tuple_next h (ChildReturns i v) a =
     (if i < length (wu_phase a) \<and> wu_phase a ! i = Running
      then (let p = WhenAllTaskPromise_return_value v (wu_tasks a ! i) in
            case CompletionNotifier_await_suspend p (wu_latch a) of
              None \<Rightarrow> None
            | Some (l, resumed) \<Rightarrow>
                Some (a\<lparr>wu_tasks := (wu_tasks a)[i := p], wu_phase := (wu_phase a)[i := Completed],
                        wu_latch := l, wu_resumed := wu_resumed a @ resumed,
                        wu_parent := (if resumed \<noteq> [] then TupleJoined else wu_parent a)\<rparr>))
      else None)"
| "when_all_tuple_next h ParentAwaits a =
     (case wu_parent a of
        StartingAt [] \<Rightarrow>
          (let (b, l) = WhenAllLatch_TryAwait h (wu_latch a)
           in Some (a\<lparr>wu_latch := l, wu_parent := if b then TupleWaiting else TupleJoined\<rparr>))
      | _ \<Rightarrow> None)"

definition WhenAllTupleAwaitable_GetResults :: "'v WhenAllTupleAwaitable \<Rightarrow> 'v option list" where
  "WhenAllTupleAwaitable_GetResults a = map (\<lambda>i. wp_result (wu_tasks a ! i)) [0..<length (wu_tasks a)]"

fun when_all_tuple_exec ::
  "handle \<Rightarrow> 'v wa_label list \<Rightarrow> 'v WhenAllTupleAwaitable \<Rightarrow> 'v WhenAllTupleAwaitable option" where
  "when_all_tuple_exec h [] a = Some a"
| "when_all_tuple_exec h (l # ls) a =
     (case when_all_tuple_next h l a of None \<Rightarrow> None | Some a' \<Rightarrow> when_all_tuple_exec h ls a')"

text \<open>The vector form that behaves the same: the index sequence becomes the loop position.\<close>

definition tuple_view :: "'v WhenAllTupleAwaitable \<Rightarrow> 'v when_all" where
  "tuple_view a =
    \<lparr>wa_latch = wu_latch a, wa_tasks = wu_tasks a, wa_phase = wu_phase a,
     wa_parent = (case wu_parent a of
        StartingAt is \<Rightarrow> Starting (length (wu_tasks a) - length is)
      | TupleWaiting \<Rightarrow> Waiting | TupleJoined \<Rightarrow> Joined),
     wa_resumed = wu_resumed a\<rparr>"

definition tuple_ok :: "'v WhenAllTupleAwaitable \<Rightarrow> bool" where
  "tuple_ok a \<longleftrightarrow>
    (\<forall>is. wu_parent a = StartingAt is \<longrightarrow>
       length is \<le> length (wu_tasks a) \<and> is = [length (wu_tasks a) - length is..<length (wu_tasks a)])"

lemma tuple_ok_step:
  assumes "tuple_ok a" and "when_all_tuple_next h l a = Some a'"
  shows "tuple_ok a'"
proof (cases l)
  case StartChild
  then obtain i "is" where p: "wu_parent a = StartingAt (i # is)"
    and a': "length (wu_tasks a') = length (wu_tasks a)" "wu_parent a' = StartingAt is"
    using assms(2) by (auto split: tuple_phase.splits list.splits)
  let ?n = "length (wu_tasks a)"
  from assms(1) p have le: "Suc (length is) \<le> ?n" and eq: "i # is = [?n - Suc (length is)..<?n]"
    by (auto simp: tuple_ok_def)
  then have "is = [Suc (?n - Suc (length is))..<?n]" by (simp add: upt_rec [of "?n - Suc (length is)"] split: if_splits)
  moreover have "Suc (?n - Suc (length is)) = ?n - length is" using le by simp
  ultimately show ?thesis using a' le by (simp add: tuple_ok_def)
next
  case (ChildReturns i v)
  with assms show ?thesis
    by (auto simp: tuple_ok_def Let_def split: if_splits option.splits)
next
  case ParentAwaits
  with assms show ?thesis
    by (auto simp: tuple_ok_def WhenAllLatch_TryAwait_def Let_def split: tuple_phase.splits list.splits if_splits)
qed

lemma tuple_step_view:
  assumes ok: "tuple_ok a" and step: "when_all_tuple_next h l a = Some a'"
  shows "when_all_next h l (tuple_view a) = Some (tuple_view a')"
proof (cases l)
  case StartChild
  then obtain i "is" where p: "wu_parent a = StartingAt (i # is)"
    using step by (auto split: tuple_phase.splits list.splits)
  let ?n = "length (wu_tasks a)"
  from ok p have le: "Suc (length is) \<le> ?n" and eq: "i # is = [?n - Suc (length is)..<?n]"
    by (auto simp: tuple_ok_def)
  then have i: "i = ?n - Suc (length is)" by (simp add: upt_rec [of "?n - Suc (length is)"] split: if_splits)
  then have "i < ?n" "Suc i = ?n - length is" using le by auto
  with StartChild p step i show ?thesis by (auto simp: tuple_view_def)
next
  case (ChildReturns i v)
  with step show ?thesis
    by (cases "wu_parent a") (auto simp: tuple_view_def Let_def split: if_splits option.splits)
next
  case ParentAwaits
  with step show ?thesis
    by (auto simp: tuple_view_def Let_def split: tuple_phase.splits list.splits prod.splits)
qed

lemma tuple_exec_view:
  "tuple_ok a \<Longrightarrow> when_all_tuple_exec h ls a = Some a' \<Longrightarrow>
   tuple_ok a' \<and> when_all_exec h ls (tuple_view a) = Some (tuple_view a')"
proof (induction ls arbitrary: a)
  case (Cons l ls)
  then obtain a1 where s: "when_all_tuple_next h l a = Some a1" and r: "when_all_tuple_exec h ls a1 = Some a'"
    by (auto split: option.splits simp del: when_all_tuple_next.simps)
  from Cons.IH [OF tuple_ok_step [OF Cons.prems(1) s] r] tuple_step_view [OF Cons.prems(1) s]
  show ?case by (simp del: when_all_next.simps)
qed simp

lemma tuple_view_init: "tuple_view (WhenAllTupleAwaitable_init n) = WhenAllVectorAwaitable_init n"
  by (auto simp: tuple_view_def WhenAllTupleAwaitable_init_def WhenAllVectorAwaitable_init_def
      WhenAllTupleAwaitable_await_ready_def)

lemma tuple_ok_init: "tuple_ok (WhenAllTupleAwaitable_init n)"
  by (auto simp: tuple_ok_def WhenAllTupleAwaitable_init_def split: if_splits)

lemma GetResults_view: "WhenAllTupleAwaitable_GetResults a = WhenAllVectorAwaitable_await_resume (tuple_view a)"
  unfolding WhenAllTupleAwaitable_GetResults_def WhenAllVectorAwaitable_await_resume_def tuple_view_def
  by (rule nth_equalityI) simp_all

subsection \<open>The form without values\<close>

record WhenAllTaskPromise_void =
  wpv_latch :: bool

definition WhenAllTask_void_Start :: "WhenAllTaskPromise_void \<Rightarrow> WhenAllTaskPromise_void" where
  "WhenAllTask_void_Start p = p\<lparr>wpv_latch := True\<rparr>"

definition CompletionNotifier_void_await_suspend ::
  "WhenAllTaskPromise_void \<Rightarrow> WhenAllLatch \<Rightarrow> (WhenAllLatch \<times> handle list) option" where
  "CompletionNotifier_void_await_suspend p l = (if wpv_latch p then Some (WhenAllLatch_Notify l) else None)"

record WhenAllVoidAwaitable =
  wv_tasks :: "WhenAllTaskPromise_void list"
  wv_latch :: WhenAllLatch
  wv_phase :: "child_phase list"
  wv_parent :: parent_phase
  wv_resumed :: "handle list"

definition WhenAllVoidAwaitable_init :: "nat \<Rightarrow> WhenAllVoidAwaitable" where
  "WhenAllVoidAwaitable_init n =
    \<lparr>wv_tasks = replicate n \<lparr>wpv_latch = False\<rparr>, wv_latch = WhenAllLatch_init (word_of_nat n),
     wv_phase = replicate n Unstarted, wv_parent = (if n = 0 then Joined else Starting 0), wv_resumed = []\<rparr>"

definition WhenAllVoidAwaitable_await_ready :: "WhenAllVoidAwaitable \<Rightarrow> bool" where
  "WhenAllVoidAwaitable_await_ready a \<longleftrightarrow> wv_tasks a = []"

fun when_all_void_next :: "handle \<Rightarrow> unit wa_label \<Rightarrow> WhenAllVoidAwaitable \<Rightarrow> WhenAllVoidAwaitable option" where
  "when_all_void_next h StartChild a =
     (case wv_parent a of
        Starting k \<Rightarrow>
          if k < length (wv_tasks a)
          then Some (a\<lparr>wv_tasks := (wv_tasks a)[k := WhenAllTask_void_Start (wv_tasks a ! k)],
                      wv_phase := (wv_phase a)[k := Running], wv_parent := Starting (Suc k)\<rparr>)
          else None
      | _ \<Rightarrow> None)"
| "when_all_void_next h (ChildReturns i v) a =
     (if i < length (wv_phase a) \<and> wv_phase a ! i = Running
      then (case CompletionNotifier_void_await_suspend (wv_tasks a ! i) (wv_latch a) of
              None \<Rightarrow> None
            | Some (l, resumed) \<Rightarrow>
                Some (a\<lparr>wv_phase := (wv_phase a)[i := Completed], wv_latch := l, wv_resumed := wv_resumed a @ resumed,
                        wv_parent := (if resumed \<noteq> [] then Joined else wv_parent a)\<rparr>))
      else None)"
| "when_all_void_next h ParentAwaits a =
     (case wv_parent a of
        Starting k \<Rightarrow>
          if k = length (wv_tasks a)
          then (let (b, l) = WhenAllLatch_TryAwait h (wv_latch a)
                in Some (a\<lparr>wv_latch := l, wv_parent := if b then Waiting else Joined\<rparr>))
          else None
      | _ \<Rightarrow> None)"

text \<open>Forgetting the values, the vector form is the one without.\<close>

definition promise_void :: "unit WhenAllTaskPromise \<Rightarrow> WhenAllTaskPromise_void" where
  "promise_void p = \<lparr>wpv_latch = wp_latch p\<rparr>"

definition void_of :: "unit when_all \<Rightarrow> WhenAllVoidAwaitable" where
  "void_of a = \<lparr>wv_tasks = map promise_void (wa_tasks a), wv_latch = wa_latch a, wv_phase = wa_phase a,
    wv_parent = wa_parent a, wv_resumed = wa_resumed a\<rparr>"

lemma map_update_same: "i < length xs \<Longrightarrow> f x = f (xs ! i) \<Longrightarrow> map f (xs[i := x]) = map f xs"
  by (metis list_update_id map_update)

lemma void_step:
  assumes "length (wa_phase a) = length (wa_tasks a)"
  shows "when_all_void_next h l (void_of a) = map_option void_of (when_all_next h l a)"
proof (cases l)
  case StartChild
  then show ?thesis
    by (auto simp: void_of_def map_update promise_void_def WhenAllTask_void_Start_def WhenAllTask_Start_def
        split: parent_phase.splits)
next
  case (ChildReturns i v)
  have "map promise_void ((wa_tasks a)[i := WhenAllTaskPromise_return_value v (wa_tasks a ! i)]) = map promise_void (wa_tasks a)"
    if "i < length (wa_tasks a)"
    using that by (rule map_update_same) (simp add: promise_void_def WhenAllTaskPromise_return_value_def)
  with ChildReturns assms show ?thesis
    by (auto simp: void_of_def promise_void_def CompletionNotifier_void_await_suspend_def
        CompletionNotifier_await_suspend_def WhenAllTaskPromise_return_value_def WhenAllLatch_Notify_def Let_def)
next
  case ParentAwaits
  then show ?thesis
    by (auto simp: void_of_def WhenAllLatch_TryAwait_def Let_def split: parent_phase.splits)
qed

text \<open>
  Property C27 (all forms of WhenAll agree).  Every sequence of steps of the variadic form is, step
  by step, one of the vector form, and its results are those of that form; and the vector form
  without values takes exactly the steps of the form with values, forgetting them.
\<close>

theorem when_all_forms_agree:
  assumes "when_all_tuple_exec h ls (WhenAllTupleAwaitable_init n) = Some a"
  shows "when_all_exec h ls (WhenAllVectorAwaitable_init n) = Some (tuple_view a) \<and>
    WhenAllTupleAwaitable_GetResults a = WhenAllVectorAwaitable_await_resume (tuple_view a) \<and>
    void_of (WhenAllVectorAwaitable_init n) = WhenAllVoidAwaitable_init n \<and>
    (length (wa_phase b) = length (wa_tasks b) \<longrightarrow>
       when_all_void_next h l (void_of b) = map_option void_of (when_all_next h l b))"
  using tuple_exec_view [OF tuple_ok_init assms] void_step [of b]
  by (simp add: tuple_view_init GetResults_view void_of_def WhenAllVoidAwaitable_init_def
      WhenAllVectorAwaitable_init_def promise_void_def WhenAllTaskPromise_init_def del: when_all_next.simps when_all_void_next.simps)

theorem when_all_forms_agree_witness:
  "\<exists>a :: nat WhenAllTupleAwaitable.
     when_all_exec 5 [StartChild, ParentAwaits, ChildReturns 0 9] (WhenAllVectorAwaitable_init 1) = Some (tuple_view a)"
proof -
  obtain a :: "nat WhenAllTupleAwaitable" where
    "when_all_tuple_exec 5 [StartChild, ParentAwaits, ChildReturns 0 9] (WhenAllTupleAwaitable_init 1) = Some a"
    by (simp add: WhenAllTupleAwaitable_init_def WhenAllTupleAwaitable_await_ready_def WhenAllLatch_defs
        WhenAllTaskPromise_init_def WhenAllTask_Start_def WhenAllTaskPromise_return_value_def
        CompletionNotifier_await_suspend_def)
  from when_all_forms_agree [OF this] show ?thesis by blast
qed

end
