(* ===== verification/When_All_Run.thy ===== *)
theory When_All_Run
  imports When_All Combinators
begin

text \<open>
  \<open>WhenAll\<close> of a vector of tasks, from its call to its value: the composition of the awaitable of
  \<open>core/when_all.hpp\<close> with the coroutines it wraps.  A task is the tree of the operations it
  awaits; what answers them, and in which order, is the environment: executors, other threads, timers.
\<close>

subsection \<open>The coroutines\<close>

text \<open>\<open>MakeWhenAllTask\<close>: the body of the wrapper; its promise notifies the latch at the end.\<close>

definition MakeWhenAllTask :: "('op, 'ans, 'v) coro \<Rightarrow> ('op, 'ans, 'v) coro" where
  "MakeWhenAllTask task = co_await task CoReturn"

text \<open>
  \<open>jw_frames\<close>: what is left of each wrapper; \<open>jw_ops\<close>: the operations performed, with the
  number of the child; \<open>jw_value\<close>: what the coroutine \<open>WhenAll\<close> has returned.
\<close>

record ('op, 'ans, 'v) join_world =
  jw_when_all :: "'v when_all"
  jw_frames :: "('op, 'ans, 'v) coro list"
  jw_ops :: "(nat \<times> 'op) list"
  jw_value :: "'v option list option"

text \<open>The rest of \<open>WhenAll\<close> after its \<open>co_await\<close> returns the results.\<close>

definition WhenAll_resume :: "('op, 'ans, 'v) join_world \<Rightarrow> ('op, 'ans, 'v) join_world" where
  "WhenAll_resume w =
    (if wa_parent (jw_when_all w) = Joined
     then w\<lparr>jw_value := Some (WhenAllVectorAwaitable_await_resume (jw_when_all w))\<rparr> else w)"

text \<open>The constructor of the awaitable, and \<open>await_ready\<close>.\<close>

definition WhenAll :: "('op, 'ans, 'v) coro list \<Rightarrow> ('op, 'ans, 'v) join_world" where
  "WhenAll tasks =
    WhenAll_resume \<lparr>jw_when_all = WhenAllVectorAwaitable_init (length tasks), jw_frames = map MakeWhenAllTask tasks,
      jw_ops = [], jw_value = None\<rparr>"

text \<open>A wrapper runs until it awaits an operation or ends.\<close>

definition child_runs ::
  "handle \<Rightarrow> nat \<Rightarrow> ('op, 'ans, 'v) coro \<Rightarrow> ('op, 'ans, 'v) join_world \<Rightarrow> ('op, 'ans, 'v) join_world option" where
  "child_runs h i t w =
    (let w = w\<lparr>jw_frames := (jw_frames w)[i := t]\<rparr> in
     case t of
       CoOp q k \<Rightarrow> Some (w\<lparr>jw_ops := jw_ops w @ [(i, q)]\<rparr>)
     | CoReturn v \<Rightarrow> map_option (\<lambda>a. WhenAll_resume (w\<lparr>jw_when_all := a\<rparr>)) (when_all_next h (ChildReturns i v) (jw_when_all w)))"

text \<open>
  What may happen: \<open>await_suspend\<close> starts the next child, which runs at once; after the last one
  it calls \<open>TryAwait\<close>; the operation of a child is answered and the child goes on.
\<close>

datatype 'ans join_event = Launch | TryJoin | Reply nat 'ans

fun join_step :: "handle \<Rightarrow> 'ans join_event \<Rightarrow> ('op, 'ans, 'v) join_world \<Rightarrow> ('op, 'ans, 'v) join_world option" where
  "join_step h Launch w =
     (case wa_parent (jw_when_all w) of
        Starting k \<Rightarrow>
          (case when_all_next h StartChild (jw_when_all w) of
             None \<Rightarrow> None
           | Some a \<Rightarrow> child_runs h k (jw_frames w ! k) (w\<lparr>jw_when_all := a\<rparr>))
      | _ \<Rightarrow> None)"
| "join_step h TryJoin w =
     map_option (\<lambda>a. WhenAll_resume (w\<lparr>jw_when_all := a\<rparr>)) (when_all_next h ParentAwaits (jw_when_all w))"
| "join_step h (Reply i r) w =
     (if i < length (jw_frames w) \<and> wa_phase (jw_when_all w) ! i = Running
      then (case jw_frames w ! i of CoOp q k \<Rightarrow> child_runs h i (k r) w | CoReturn v \<Rightarrow> None)
      else None)"

fun join_exec :: "handle \<Rightarrow> 'ans join_event list \<Rightarrow> ('op, 'ans, 'v) join_world \<Rightarrow> ('op, 'ans, 'v) join_world option" where
  "join_exec h [] w = Some w"
| "join_exec h (e # es) w = (case join_step h e w of None \<Rightarrow> None | Some w' \<Rightarrow> join_exec h es w')"

text \<open>The projections of a run to one child.\<close>

fun reply_to :: "nat \<Rightarrow> 'ans join_event \<Rightarrow> 'ans list" where
  "reply_to i (Reply j r) = (if j = i then [r] else [])"
| "reply_to i _ = []"

definition replies_to :: "nat \<Rightarrow> 'ans join_event list \<Rightarrow> 'ans list" where
  "replies_to i es = concat (map (reply_to i) es)"

definition ops_of :: "nat \<Rightarrow> (nat \<times> 'op) list \<Rightarrow> 'op list" where
  "ops_of i ops = map snd (filter (\<lambda>p. fst p = i) ops)"

lemma projection_simps [simp]:
  "replies_to i [] = []" "replies_to i (es @ [e]) = replies_to i es @ reply_to i e"
  "ops_of i [] = []" "ops_of i (ops @ [(j, q)]) = ops_of i ops @ (if j = i then [q] else [])"
  by (simp_all add: replies_to_def ops_of_def)

lemma MakeWhenAllTask_same [simp]: "MakeWhenAllTask t = t"
  by (simp add: MakeWhenAllTask_def)

subsection \<open>The invariant\<close>

text \<open>A child \<open>t\<close> that got the answers \<open>rs\<close>.\<close>

definition child_ok ::
  "('op, 'ans, 'v) coro \<Rightarrow> 'ans list \<Rightarrow> 'op list \<Rightarrow> ('op, 'ans, 'v) coro \<Rightarrow> child_phase \<Rightarrow> 'v option \<Rightarrow> bool" where
  "child_ok t rs ops frame ph res \<longleftrightarrow>
     frame = coro_left t rs \<and>
     (case ph of
        Unstarted \<Rightarrow> rs = [] \<and> ops = []
      | Running \<Rightarrow> ops = fst (coro_feed t rs) \<and> snd (coro_feed t rs) = None
      | Completed \<Rightarrow> ops = fst (coro_feed t rs) \<and> snd (coro_feed t rs) = res \<and> res \<noteq> None)"

definition all_started :: "nat \<Rightarrow> 'v when_all \<Rightarrow> bool" where
  "all_started n a \<longleftrightarrow> (case wa_parent a of Starting k \<Rightarrow> True | _ \<Rightarrow> \<forall>i < n. wa_phase a ! i \<noteq> Unstarted)"

definition join_inv :: "handle \<Rightarrow> ('op, 'ans, 'v) coro list \<Rightarrow> 'ans join_event list \<Rightarrow> ('op, 'ans, 'v) join_world \<Rightarrow> bool" where
  "join_inv h ts es w \<longleftrightarrow>
     when_all_reach (length ts) h (jw_when_all w) \<and> length (jw_frames w) = length ts \<and>
     (\<forall>i < length ts. child_ok (ts ! i) (replies_to i es) (ops_of i (jw_ops w)) (jw_frames w ! i)
        (wa_phase (jw_when_all w) ! i) (wp_result (wa_tasks (jw_when_all w) ! i))) \<and>
     all_started (length ts) (jw_when_all w) \<and>
     jw_value w = (if wa_parent (jw_when_all w) = Joined
                   then Some (WhenAllVectorAwaitable_await_resume (jw_when_all w)) else None)"

lemma reach_inv:
  "when_all_reach (length ts) h a \<Longrightarrow> ts \<noteq> [] \<Longrightarrow> length ts < 2 ^ 64 - 1 \<Longrightarrow> wa_inv (length ts) h a"
  by (rule when_all_reach_inv) auto

text \<open>The end of a running child is always possible.\<close>

lemma child_returns:
  assumes inv: "wa_inv n h a" and i: "i < n" "wa_phase a ! i = Running"
  shows "\<exists>a'. when_all_next h (ChildReturns i v) a = Some a' \<and> wa_phase a' = (wa_phase a)[i := Completed] \<and>
    wa_tasks a' = (wa_tasks a)[i := WhenAllTaskPromise_return_value v (wa_tasks a ! i)] \<and>
    (wa_parent a' = wa_parent a \<or> wa_parent a' = Joined)"
proof -
  have "length (wa_phase a) = n" and "wp_latch (wa_tasks a ! i)" using assms by (auto simp: wa_inv_def)
  then show ?thesis using i
    by (cases "WhenAllLatch_Notify (wa_latch a)")
      (simp add: CompletionNotifier_await_suspend_def WhenAllTaskPromise_return_value_def Let_def)
qed

lemma joined_all_completed:
  assumes "wa_inv n h a" and "wa_parent a = Joined" and "i < n"
  shows "wa_phase a ! i = Completed"
  using assms completed_all [of "wa_phase a" "wa_phase a ! i"] by (auto simp: wa_inv_def)

text \<open>A started child runs on with \<open>t\<close>.\<close>

lemma child_runs_inv:
  assumes n: "ts \<noteq> []" "length ts < 2 ^ 64 - 1" and reach: "when_all_reach (length ts) h (jw_when_all w)"
    and len: "length (jw_frames w) = length ts"
    and i: "i < length ts" "wa_phase (jw_when_all w) ! i = Running"
    and others: "\<And>j. j < length ts \<Longrightarrow> j \<noteq> i \<Longrightarrow> child_ok (ts ! j) (replies_to j es) (ops_of j (jw_ops w)) (jw_frames w ! j)
        (wa_phase (jw_when_all w) ! j) (wp_result (wa_tasks (jw_when_all w) ! j))"
    and t: "t = coro_left (ts ! i) (replies_to i es)"
    and ops: "ops_of i (jw_ops w) @ first_op t = fst (coro_feed (ts ! i) (replies_to i es))"
    and started: "all_started (length ts) (jw_when_all w)"
    and v: "jw_value w = None"
  shows "\<exists>w'. child_runs h i t w = Some w' \<and> join_inv h ts es w' \<and>
    (\<forall>j. j \<noteq> i \<longrightarrow> wa_phase (jw_when_all w') ! j = wa_phase (jw_when_all w) ! j) \<and>
    (wa_parent (jw_when_all w') = wa_parent (jw_when_all w) \<or> wa_parent (jw_when_all w') = Joined) \<and>
    wa_phase (jw_when_all w') ! i = (case t of CoOp q k \<Rightarrow> Running | CoReturn v \<Rightarrow> Completed)"
proof -
  let ?a = "jw_when_all w"
  have inv: "wa_inv (length ts) h ?a" by (rule reach_inv [OF reach n])
  have nj: "wa_parent ?a \<noteq> Joined" using joined_all_completed [OF inv _ i(1)] i(2) by auto
  have lens: "length (wa_phase ?a) = length ts" "length (wa_tasks ?a) = length ts" using inv by (auto simp: wa_inv_def)
  show ?thesis
  proof (cases t)
    case (CoOp q k)
    let ?w = "w\<lparr>jw_frames := (jw_frames w)[i := t], jw_ops := jw_ops w @ [(i, q)]\<rparr>"
    have c: "child_ok (ts ! j) (replies_to j es) (ops_of j (jw_ops ?w)) (jw_frames ?w ! j) (wa_phase ?a ! j)
        (wp_result (wa_tasks ?a ! j))" if "j < length ts" for j
      using others [OF that] t [symmetric] ops i len CoOp by (cases "j = i") (simp_all add: child_ok_def coro_feed_value)
    have "join_inv h ts es ?w" using reach len started c v nj by (simp add: join_inv_def)
    then show ?thesis using CoOp i(2) by (simp add: child_runs_def)
  next
    case (CoReturn v)
    obtain a' where a': "when_all_next h (ChildReturns i v) ?a = Some a'" "wa_phase a' = (wa_phase ?a)[i := Completed]"
      "wa_tasks a' = (wa_tasks ?a)[i := WhenAllTaskPromise_return_value v (wa_tasks ?a ! i)]"
      "wa_parent a' = wa_parent ?a \<or> wa_parent a' = Joined"
      using child_returns [OF inv i, of v] by blast
    let ?w = "w\<lparr>jw_frames := (jw_frames w)[i := t], jw_when_all := a'\<rparr>"
    have reach': "when_all_reach (length ts) h a'" using wa_step [OF reach a'(1)] .
    have c: "child_ok (ts ! j) (replies_to j es) (ops_of j (jw_ops w)) ((jw_frames w)[i := t] ! j) (wa_phase a' ! j)
        (wp_result (wa_tasks a' ! j))" if "j < length ts" for j
      using others [OF that] t [symmetric] ops i len lens a' CoReturn
      by (cases "j = i") (simp_all add: child_ok_def coro_feed_value WhenAllTaskPromise_return_value_def)
    have st: "all_started (length ts) a'"
      using joined_all_completed [OF reach_inv [OF reach' n]] a'(2,4) started i(1) lens
      by (auto simp: all_started_def nth_list_update split: parent_phase.splits)
    have "join_inv h ts es (WhenAll_resume ?w)"
      using reach' len st c v by (simp add: join_inv_def WhenAll_resume_def)
    moreover have "child_runs h i t w = Some (WhenAll_resume ?w)"
      using CoReturn a'(1) by (simp add: child_runs_def Let_def del: when_all_next.simps)
    moreover have "jw_when_all (WhenAll_resume ?w) = a'" by (simp add: WhenAll_resume_def)
    ultimately show ?thesis using CoReturn a' i lens by simp
  qed
qed

lemma launch_inv:
  assumes n: "ts \<noteq> []" "length ts < 2 ^ 64 - 1" and inv: "join_inv h ts es w"
    and k: "wa_parent (jw_when_all w) = Starting k" "k < length ts"
  shows "\<exists>w'. join_step h Launch w = Some w' \<and> join_inv h ts (es @ [Launch]) w' \<and>
    (wa_parent (jw_when_all w') = Starting (Suc k) \<or> wa_parent (jw_when_all w') = Joined)"
proof -
  let ?a = "jw_when_all w"
  have reach: "when_all_reach (length ts) h ?a" using inv by (simp add: join_inv_def)
  have wi: "wa_inv (length ts) h ?a" by (rule reach_inv [OF reach n])
  have lens: "length (wa_tasks ?a) = length ts" "length (wa_phase ?a) = length ts" "wa_phase ?a ! k = Unstarted"
    using wi k by (auto simp: wa_inv_def)
  let ?a' = "?a\<lparr>wa_tasks := (wa_tasks ?a)[k := WhenAllTask_Start (wa_tasks ?a ! k)],
    wa_phase := (wa_phase ?a)[k := Running], wa_parent := Starting (Suc k)\<rparr>"
  have a': "when_all_next h StartChild ?a = Some ?a'" using k lens by simp
  let ?w = "w\<lparr>jw_when_all := ?a'\<rparr>"
  have ck: "child_ok (ts ! k) (replies_to k es) (ops_of k (jw_ops w)) (jw_frames w ! k) Unstarted (wp_result (wa_tasks ?a ! k))"
    using inv k(2) lens(3) by (auto simp: join_inv_def)
  have "\<exists>w'. child_runs h k (jw_frames w ! k) ?w = Some w' \<and> join_inv h ts (es @ [Launch]) w' \<and>
      (\<forall>j. j \<noteq> k \<longrightarrow> wa_phase (jw_when_all w') ! j = wa_phase (jw_when_all ?w) ! j) \<and>
      (wa_parent (jw_when_all w') = wa_parent (jw_when_all ?w) \<or> wa_parent (jw_when_all w') = Joined) \<and>
      wa_phase (jw_when_all w') ! k = (case jw_frames w ! k of CoOp q k \<Rightarrow> Running | CoReturn v \<Rightarrow> Completed)"
  proof (rule child_runs_inv [OF n])
    show "when_all_reach (length ts) h (jw_when_all ?w)" using wa_step [OF reach a'] by simp
    show "wa_phase (jw_when_all ?w) ! k = Running" using k lens by simp
    show "child_ok (ts ! j) (replies_to j (es @ [Launch])) (ops_of j (jw_ops ?w)) (jw_frames ?w ! j)
        (wa_phase (jw_when_all ?w) ! j) (wp_result (wa_tasks (jw_when_all ?w) ! j))" if "j < length ts" "j \<noteq> k" for j
      using inv that by (simp add: join_inv_def)
    show "jw_frames w ! k = coro_left (ts ! k) (replies_to k (es @ [Launch]))"
      and "ops_of k (jw_ops ?w) @ first_op (jw_frames w ! k) = fst (coro_feed (ts ! k) (replies_to k (es @ [Launch])))"
      using ck by (simp_all add: child_ok_def coro_feed_Nil)
    show "jw_value ?w = None" using inv k(1) by (simp add: join_inv_def)
  qed (use inv k(2) in \<open>simp_all add: join_inv_def all_started_def\<close>)
  then show ?thesis using k(1) a' by (auto simp del: when_all_next.simps)
qed

lemma try_join_inv:
  assumes n: "ts \<noteq> []" "length ts < 2 ^ 64 - 1" and inv: "join_inv h ts es w"
    and k: "wa_parent (jw_when_all w) = Starting (length ts)"
  shows "\<exists>w'. join_step h TryJoin w = Some w' \<and> join_inv h ts (es @ [TryJoin]) w' \<and>
    (wa_parent (jw_when_all w') = Waiting \<or> wa_parent (jw_when_all w') = Joined)"
proof -
  let ?a = "jw_when_all w"
  have reach: "when_all_reach (length ts) h ?a" using inv by (simp add: join_inv_def)
  have wi: "wa_inv (length ts) h ?a" by (rule reach_inv [OF reach n])
  obtain b l where l: "WhenAllLatch_TryAwait h (wa_latch ?a) = (b, l)" by (metis prod.exhaust)
  let ?a' = "?a\<lparr>wa_latch := l, wa_parent := if b then Waiting else Joined\<rparr>"
  have a': "when_all_next h ParentAwaits ?a = Some ?a'" using k l wi by (simp add: wa_inv_def)
  have "all_started (length ts) ?a'" using wi k by (auto simp: wa_inv_def all_started_def)
  then have "join_inv h ts (es @ [TryJoin]) (WhenAll_resume (w\<lparr>jw_when_all := ?a'\<rparr>))"
    using inv wa_step [OF reach a'] k
    by (cases b) (simp_all add: join_inv_def WhenAll_resume_def WhenAllVectorAwaitable_await_resume_def)
  then show ?thesis using a' by (simp add: WhenAll_resume_def del: when_all_next.simps)
qed

lemma reply_inv:
  assumes n: "ts \<noteq> []" "length ts < 2 ^ 64 - 1" and inv: "join_inv h ts es w"
    and i: "i < length ts" "wa_phase (jw_when_all w) ! i = Running" "jw_frames w ! i = CoOp q k"
  shows "\<exists>w'. join_step h (Reply i r) w = Some w' \<and> join_inv h ts (es @ [Reply i r]) w' \<and>
    (\<forall>j. j \<noteq> i \<longrightarrow> wa_phase (jw_when_all w') ! j = wa_phase (jw_when_all w) ! j) \<and>
    (wa_parent (jw_when_all w') = wa_parent (jw_when_all w) \<or> wa_parent (jw_when_all w') = Joined) \<and>
    wa_phase (jw_when_all w') ! i = (case k r of CoOp q k \<Rightarrow> Running | CoReturn v \<Rightarrow> Completed) \<and>
    (\<forall>q' k'. k r = CoOp q' k' \<longrightarrow> jw_frames w' ! i = CoOp q' k')"
proof -
  let ?a = "jw_when_all w" and ?es = "es @ [Reply i r]"
  have reach: "when_all_reach (length ts) h ?a" and len: "length (jw_frames w) = length ts"
    using inv by (simp_all add: join_inv_def)
  have wi: "wa_inv (length ts) h ?a" by (rule reach_inv [OF reach n])
  have nj: "wa_parent ?a \<noteq> Joined" using joined_all_completed [OF wi _ i(1)] i(2) by auto
  have ck: "coro_left (ts ! i) (replies_to i es) = CoOp q k" "ops_of i (jw_ops w) = fst (coro_feed (ts ! i) (replies_to i es))"
    using inv i by (auto simp: join_inv_def child_ok_def)
  have "\<exists>w'. child_runs h i (k r) w = Some w' \<and> join_inv h ts ?es w' \<and>
      (\<forall>j. j \<noteq> i \<longrightarrow> wa_phase (jw_when_all w') ! j = wa_phase ?a ! j) \<and>
      (wa_parent (jw_when_all w') = wa_parent ?a \<or> wa_parent (jw_when_all w') = Joined) \<and>
      wa_phase (jw_when_all w') ! i = (case k r of CoOp q k \<Rightarrow> Running | CoReturn v \<Rightarrow> Completed)"
  proof (rule child_runs_inv [OF n reach len i(1,2)])
    show "child_ok (ts ! j) (replies_to j ?es) (ops_of j (jw_ops w)) (jw_frames w ! j) (wa_phase ?a ! j)
        (wp_result (wa_tasks ?a ! j))" if "j < length ts" "j \<noteq> i" for j
      using inv that by (simp add: join_inv_def)
    show "k r = coro_left (ts ! i) (replies_to i ?es)"
      and "ops_of i (jw_ops w) @ first_op (k r) = fst (coro_feed (ts ! i) (replies_to i ?es))"
      using coro_feed_snoc [OF ck(1), of r] ck(2) by simp_all
  qed (use inv nj in \<open>simp_all add: join_inv_def\<close>)
  moreover have "jw_frames w' ! i = CoOp q' k'" if "child_runs h i (k r) w = Some w'" "k r = CoOp q' k'" for w' q' k'
    using that i(1) len by (auto simp: child_runs_def)
  ultimately show ?thesis using i len by auto
qed

lemma join_wa_inv:
  "join_inv h ts es w \<Longrightarrow> ts \<noteq> [] \<Longrightarrow> length ts < 2 ^ 64 - 1 \<Longrightarrow> wa_inv (length ts) h (jw_when_all w)"
  by (rule reach_inv) (simp_all add: join_inv_def)

lemma join_step_inv:
  assumes n: "ts \<noteq> []" "length ts < 2 ^ 64 - 1" and inv: "join_inv h ts es w" and step: "join_step h e w = Some w'"
  shows "join_inv h ts (es @ [e]) w'"
proof (cases e)
  case Launch
  have "length (wa_tasks (jw_when_all w)) = length ts"
    using join_wa_inv [OF inv n] by (simp add: wa_inv_def)
  then obtain k where "wa_parent (jw_when_all w) = Starting k" "k < length ts"
    using step Launch by (auto split: parent_phase.splits if_splits)
  from launch_inv [OF n inv this] step Launch show ?thesis by auto
next
  case TryJoin
  have "length (wa_tasks (jw_when_all w)) = length ts"
    using join_wa_inv [OF inv n] by (simp add: wa_inv_def)
  then have "wa_parent (jw_when_all w) = Starting (length ts)"
    using step TryJoin by (auto split: parent_phase.splits if_splits)
  from try_join_inv [OF n inv this] step TryJoin show ?thesis by auto
next
  case (Reply i r)
  then obtain q k where "i < length ts" "wa_phase (jw_when_all w) ! i = Running" "jw_frames w ! i = CoOp q k"
    using step inv by (auto simp: join_inv_def split: if_splits coro.splits)
  from reply_inv [OF n inv this, of r] step Reply show ?thesis by auto
qed

lemma join_exec_inv:
  assumes n: "ts \<noteq> []" "length ts < 2 ^ 64 - 1"
  shows "join_inv h ts es w \<Longrightarrow> join_exec h es' w = Some w' \<Longrightarrow> join_inv h ts (es @ es') w'"
proof (induction es' arbitrary: es w)
  case (Cons e es')
  then obtain w1 where 1: "join_step h e w = Some w1" "join_exec h es' w1 = Some w'" by (auto split: option.splits)
  from Cons.IH [OF join_step_inv [OF n Cons.prems(1) 1(1)] 1(2)] show ?case by simp
qed simp

lemma join_exec_append:
  "join_exec h (es @ es') w = (case join_exec h es w of None \<Rightarrow> None | Some w' \<Rightarrow> join_exec h es' w')"
  by (induction es arbitrary: w) (auto split: option.splits)

lemma join_start: "join_inv h ts [] (WhenAll ts)" if "ts \<noteq> []"
  using that wa_start [of "length ts" h]
  by (auto simp: join_inv_def WhenAll_def WhenAll_resume_def WhenAllVectorAwaitable_init_def child_ok_def all_started_def)

subsection \<open>It can always be brought to its end\<close>

lemma finish_child:
  assumes n: "ts \<noteq> []" "length ts < 2 ^ 64 - 1" and i: "i < length ts"
  shows "join_inv h ts es w \<Longrightarrow> wa_phase (jw_when_all w) ! i = Running \<Longrightarrow> jw_frames w ! i = t \<Longrightarrow>
    \<exists>es' w'. join_exec h es' w = Some w' \<and> wa_phase (jw_when_all w') ! i = Completed \<and>
      (\<forall>j. j \<noteq> i \<longrightarrow> wa_phase (jw_when_all w') ! j = wa_phase (jw_when_all w) ! j) \<and>
      (wa_parent (jw_when_all w') = wa_parent (jw_when_all w) \<or> wa_parent (jw_when_all w') = Joined)"
proof (induction t arbitrary: es w)
  case (CoReturn v)
  then show ?case using i by (auto simp: join_inv_def child_ok_def coro_feed_value)
next
  case (CoOp q k)
  obtain r :: 'b where True by blast
  from reply_inv [OF n CoOp.prems(1) i CoOp.prems(2,3), of r] obtain w1 where
    1: "join_step h (Reply i r) w = Some w1" "join_inv h ts (es @ [Reply i r]) w1"
      "\<forall>j. j \<noteq> i \<longrightarrow> wa_phase (jw_when_all w1) ! j = wa_phase (jw_when_all w) ! j"
      "wa_parent (jw_when_all w1) = wa_parent (jw_when_all w) \<or> wa_parent (jw_when_all w1) = Joined"
    and p: "wa_phase (jw_when_all w1) ! i = (case k r of CoOp q k \<Rightarrow> Running | CoReturn v \<Rightarrow> Completed)"
      "\<forall>q' k'. k r = CoOp q' k' \<longrightarrow> jw_frames w1 ! i = CoOp q' k'" by blast
  show ?case
  proof (cases "k r")
    case (CoReturn v)
    then show ?thesis using 1 p by (intro exI [of _ "[Reply i r]"] exI [of _ w1]) (simp del: join_step.simps)
  next
    case c: (CoOp q' k')
    have "wa_phase (jw_when_all w1) ! i = Running" "jw_frames w1 ! i = k r" using p c by simp_all
    from CoOp.IH [OF _ 1(2) this] obtain es' w' where "join_exec h es' w1 = Some w'"
      "wa_phase (jw_when_all w') ! i = Completed"
      "\<forall>j. j \<noteq> i \<longrightarrow> wa_phase (jw_when_all w') ! j = wa_phase (jw_when_all w1) ! j"
      "wa_parent (jw_when_all w') = wa_parent (jw_when_all w1) \<or> wa_parent (jw_when_all w') = Joined" by auto
    then show ?thesis using 1
      by (intro exI [of _ "Reply i r # es'"] exI [of _ w']) (auto simp del: join_step.simps)
  qed
qed

lemma finish_waiting:
  assumes n: "ts \<noteq> []" "length ts < 2 ^ 64 - 1"
  shows "join_inv h ts es w \<Longrightarrow> wa_parent (jw_when_all w) = Waiting \<Longrightarrow>
    \<exists>es' w'. join_exec h es' w = Some w' \<and> wa_parent (jw_when_all w') = Joined"
proof (induction "length ts - completed (wa_phase (jw_when_all w))" arbitrary: es w rule: less_induct)
  case less
  let ?a = "jw_when_all w"
  have wi: "wa_inv (length ts) h ?a" by (rule join_wa_inv [OF less.prems(1) n])
  then have len: "length (wa_phase ?a) = length ts" and c: "completed (wa_phase ?a) < length ts"
    using less.prems(2) by (auto simp: wa_inv_def)
  then have "\<exists>i < length ts. wa_phase ?a ! i \<noteq> Completed"
    unfolding completed_def by (metis (mono_tags, lifting) filter_True in_set_conv_nth less_irrefl)
  then obtain i where i: "i < length ts" "wa_phase ?a ! i \<noteq> Completed" by blast
  then have r: "wa_phase ?a ! i = Running"
    using less.prems by (cases "wa_phase ?a ! i") (auto simp: join_inv_def all_started_def)
  from finish_child [OF n i(1) less.prems(1) r refl] obtain es1 w1 where
    1: "join_exec h es1 w = Some w1" "wa_phase (jw_when_all w1) ! i = Completed"
      "\<forall>j. j \<noteq> i \<longrightarrow> wa_phase (jw_when_all w1) ! j = wa_phase ?a ! j"
      "wa_parent (jw_when_all w1) = Waiting \<or> wa_parent (jw_when_all w1) = Joined"
    using less.prems(2) by auto
  have inv1: "join_inv h ts (es @ es1) w1" by (rule join_exec_inv [OF n less.prems(1) 1(1)])
  show ?case
  proof (cases "wa_parent (jw_when_all w1) = Joined")
    case True
    then show ?thesis using 1(1) by blast
  next
    case False
    have "length (wa_phase (jw_when_all w1)) = length ts"
      using join_wa_inv [OF inv1 n] by (simp add: wa_inv_def)
    then have "wa_phase (jw_when_all w1) = (wa_phase ?a)[i := Completed]"
      using 1(2,3) len i(1) by (intro nth_equalityI) (simp, metis nth_list_update)
    then have "completed (wa_phase (jw_when_all w1)) = Suc (completed (wa_phase ?a))"
      using completed_update [of i "wa_phase ?a"] i len by simp
    with c have "length ts - completed (wa_phase (jw_when_all w1)) < length ts - completed (wa_phase ?a)" by linarith
    from less.hyps [OF this inv1] False 1(4) obtain es' w' where
      "join_exec h es' w1 = Some w'" "wa_parent (jw_when_all w') = Joined" by auto
    then show ?thesis using 1(1) by (intro exI [of _ "es1 @ es'"] exI [of _ w']) (simp add: join_exec_append)
  qed
qed

lemma finish_starting:
  assumes n: "ts \<noteq> []" "length ts < 2 ^ 64 - 1"
  shows "join_inv h ts es w \<Longrightarrow> wa_parent (jw_when_all w) = Starting k \<Longrightarrow>
    \<exists>es' w'. join_exec h es' w = Some w' \<and> wa_parent (jw_when_all w') = Joined"
proof (induction "length ts - k" arbitrary: k es w)
  case 0
  have "wa_inv (length ts) h (jw_when_all w)" by (rule join_wa_inv [OF 0(2) n])
  with 0 have "wa_parent (jw_when_all w) = Starting (length ts)" by (auto simp: wa_inv_def)
  from try_join_inv [OF n 0(2) this] obtain w1 where 1: "join_step h TryJoin w = Some w1" "join_inv h ts (es @ [TryJoin]) w1"
    "wa_parent (jw_when_all w1) = Waiting \<or> wa_parent (jw_when_all w1) = Joined" by blast
  then obtain es' w' where "join_exec h es' w1 = Some w'" "wa_parent (jw_when_all w') = Joined"
    using finish_waiting [OF n 1(2)] join_exec.simps(1) by metis
  with 1(1) show ?case by (intro exI [of _ "TryJoin # es'"] exI [of _ w']) (simp del: join_step.simps)
next
  case (Suc m)
  then have "k < length ts" by simp
  from launch_inv [OF n Suc.prems this] obtain w1 where 1: "join_step h Launch w = Some w1" "join_inv h ts (es @ [Launch]) w1"
    "wa_parent (jw_when_all w1) = Starting (Suc k) \<or> wa_parent (jw_when_all w1) = Joined" by blast
  then obtain es' w' where "join_exec h es' w1 = Some w'" "wa_parent (jw_when_all w') = Joined"
    using Suc.hyps(1) [OF _ 1(2)] Suc.hyps(2) join_exec.simps(1) by (metis diff_Suc_1 diff_Suc_eq_diff_pred diff_commute)
  with 1(1) show ?case by (intro exI [of _ "Launch # es'"] exI [of _ w']) (simp del: join_step.simps)
qed

subsection \<open>Properties\<close>

lemma joined_values:
  assumes n: "ts \<noteq> []" "length ts < 2 ^ 64 - 1" and inv: "join_inv h ts es w" and v: "jw_value w = Some vs"
  shows "length vs = length ts" and "i < length ts \<Longrightarrow> vs ! i = snd (coro_feed (ts ! i) (replies_to i es)) \<and> vs ! i \<noteq> None"
    and "join_step h e w = None"
proof -
  have j: "wa_parent (jw_when_all w) = Joined" "vs = map wp_result (wa_tasks (jw_when_all w))"
    using inv v by (auto simp: join_inv_def WhenAllVectorAwaitable_await_resume_def split: if_splits)
  have wi: "wa_inv (length ts) h (jw_when_all w)" by (rule join_wa_inv [OF inv n])
  note fin = joined_all_completed [OF wi j(1)]
  show len: "length vs = length ts" using wi j(2) by (simp add: wa_inv_def)
  show "vs ! i = snd (coro_feed (ts ! i) (replies_to i es)) \<and> vs ! i \<noteq> None" if "i < length ts"
    using inv that fin [OF that] j(2) len by (auto simp: join_inv_def child_ok_def)
  show "join_step h e w = None"
    using j(1) fin inv by (cases e) (auto simp: join_inv_def)
qed

text \<open>
  Property C4 (a vector of tasks is joined).  \<open>WhenAll\<close> over any number of tasks whose operations are
  answered in any order, each child resumed by whatever answers it.  Every child performs exactly
  the operations it performs alone with the answers given to it, in order, and nothing else.  The
  value of \<open>WhenAll\<close> is there only when all children have ended, and then it is the list of their values in the
  order of the tasks, whatever the order of their ends; the awaiting coroutine is resumed at
  most once; afterwards nothing can happen any more.  From every reachable moment on the run can be
  continued until the value is there: no order of answers and ends leaves the caller waiting.
\<close>

theorem when_all_of_tasks:
  fixes ts :: "('op, 'ans, 'v) coro list"
  assumes n: "length ts < 2 ^ 64 - 1" and exec: "join_exec h es (WhenAll ts) = Some w"
  shows "(\<forall>i < length ts. ops_of i (jw_ops w) = [] \<or> ops_of i (jw_ops w) = fst (coro_feed (ts ! i) (replies_to i es))) \<and>
    (\<forall>vs. jw_value w = Some vs \<longrightarrow> length vs = length ts \<and>
       (\<forall>i < length ts. ops_of i (jw_ops w) = fst (coro_feed (ts ! i) (replies_to i es)) \<and>
          vs ! i = snd (coro_feed (ts ! i) (replies_to i es)) \<and> vs ! i \<noteq> None) \<and>
       (\<forall>e. join_step h e w = None)) \<and>
    (wa_resumed (jw_when_all w) = [] \<or> wa_resumed (jw_when_all w) = [h]) \<and>
    (\<exists>es' w'. join_exec h es' w = Some w' \<and> jw_value w' \<noteq> None)"
proof (cases "ts = []")
  case True
  let ?w = "WhenAll ts"
  have w: "jw_value ?w = Some []" "jw_frames ?w = []" "wa_resumed (jw_when_all ?w) = []" "wa_parent (jw_when_all ?w) = Joined"
    using True by (simp_all add: WhenAll_def WhenAll_resume_def WhenAllVectorAwaitable_init_def WhenAllVectorAwaitable_await_resume_def)
  then have none: "join_step h e ?w = None" for e by (cases e) simp_all
  then have "w = ?w" using exec by (cases es) (auto simp del: join_step.simps)
  then show ?thesis using w none True by (intro conjI exI [of _ "[]"] exI [of _ w]) (simp_all del: join_step.simps)
next
  case False
  have inv: "join_inv h ts es w" using join_exec_inv [OF False n join_start [OF False] exec] by simp
  have wi: "wa_inv (length ts) h (jw_when_all w)" by (rule join_wa_inv [OF inv False n])
  have ops: "ops_of i (jw_ops w) = [] \<or> ops_of i (jw_ops w) = fst (coro_feed (ts ! i) (replies_to i es))" if "i < length ts" for i
    using inv that by (cases "wa_phase (jw_when_all w) ! i") (auto simp: join_inv_def child_ok_def)
  have full: "ops_of i (jw_ops w) = fst (coro_feed (ts ! i) (replies_to i es))" if "jw_value w = Some vs" "i < length ts" for i vs
    using inv that joined_all_completed [OF wi _ that(2)] by (auto simp: join_inv_def child_ok_def split: if_splits)
  have "\<exists>es' w'. join_exec h es' w = Some w' \<and> wa_parent (jw_when_all w') = Joined"
    using finish_starting [OF False n inv] finish_waiting [OF False n inv] join_exec.simps(1)
    by (cases "wa_parent (jw_when_all w)") blast+
  then obtain es' w' where w': "join_exec h es' w = Some w'" "wa_parent (jw_when_all w') = Joined" by blast
  have "jw_value w' \<noteq> None" using join_exec_inv [OF False n inv w'(1)] w'(2) by (simp add: join_inv_def)
  moreover have "wa_resumed (jw_when_all w) = [] \<or> wa_resumed (jw_when_all w) = [h]"
    using wi by (auto simp: wa_inv_def split: parent_phase.splits)
  moreover have "\<exists>y. snd (coro_feed (ts ! i) (replies_to i es)) = Some y" if "jw_value w = Some vs" "i < length ts" for vs i
    using joined_values(2) [OF False n inv that] by (metis option.exhaust)
  ultimately show ?thesis
    by (intro conjI allI impI exI [of _ es'] exI [of _ w'])
      (simp_all add: ops full joined_values [OF False n inv] w'(1) del: join_step.simps)
qed

text \<open>Two children; the second one ends first.\<close>

theorem when_all_of_tasks_witness:
  "\<exists>w. join_exec 5 [Launch, Launch, TryJoin, Reply 1 (20 :: nat), Reply 0 7]
      (WhenAll [CoOp ''a'' (\<lambda>r. CoReturn (r + 1)), CoOp ''b'' CoReturn]) = Some w \<and>
    jw_value w = Some [Some 8, Some 20] \<and> join_step 5 TryJoin w = None"
proof -
  let ?ts = "[CoOp ''a'' (\<lambda>r. CoReturn (r + 1)), CoOp ''b'' CoReturn]"
  have "map_option jw_value (join_exec 5 [Launch, Launch, TryJoin, Reply 1 (20 :: nat), Reply 0 7] (WhenAll ?ts)) =
      Some (Some [Some 8, Some 20])" by code_simp
  then obtain w where w: "join_exec 5 [Launch, Launch, TryJoin, Reply 1 (20 :: nat), Reply 0 7] (WhenAll ?ts) = Some w"
    "jw_value w = Some [Some 8, Some 20]" by (auto simp del: join_exec.simps)
  have "length ?ts < 2 ^ 64 - 1" by simp
  from when_all_of_tasks [OF this w(1)] have "join_step 5 TryJoin w = None" using w(2) by blast
  then show ?thesis using w by (intro exI [of _ w] conjI)
qed

end
