(* ===== verification/Libuv_Lifetime.thy ===== *)
theory Libuv_Lifetime
  imports Libuv
begin

text \<open>
  The lifetime of a \<open>LibuvExecutor\<close> (\<open>io/libuv_executor.cpp\<close>): what creating and destroying it asks of
  libuv, the destructor's loop, and \<open>RunOnce\<close>.
\<close>

subsection \<open>Handles are closed that were never opened\<close>

text \<open>
  Which objects libuv has open: the loop, the async and the idle handle.  \<open>None\<close>: a call on an
  object that is not open.  The initialisers' results decide what they open.
\<close>

fun uv_calls ::
  "int \<Rightarrow> int \<Rightarrow> int \<Rightarrow> uv_call list \<Rightarrow> bool \<times> bool \<times> bool \<Rightarrow> (bool \<times> bool \<times> bool) option" where
  "uv_calls li ai ii [] st = Some st"
| "uv_calls li ai ii (UvLoopInit # cs) (lp, a, i) = uv_calls li ai ii cs (li = 0, a, i)"
| "uv_calls li ai ii (UvAsyncInit # cs) (lp, a, i) = (if lp then uv_calls li ai ii cs (lp, ai = 0, i) else None)"
| "uv_calls li ai ii (UvIdleInit # cs) (lp, a, i) = (if lp then uv_calls li ai ii cs (lp, a, ii = 0) else None)"
| "uv_calls li ai ii (UvCloseAsync # cs) (lp, a, i) = (if lp \<and> a then uv_calls li ai ii cs (lp, False, i) else None)"
| "uv_calls li ai ii (UvCloseIdle # cs) (lp, a, i) = (if lp \<and> i then uv_calls li ai ii cs (lp, a, False) else None)"
| "uv_calls li ai ii (UvRunOnce # cs) (lp, a, i) = (if lp then uv_calls li ai ii cs (lp, a, i) else None)"
| "uv_calls li ai ii (UvRunWhileAlive # cs) (lp, a, i) = (if lp then uv_calls li ai ii cs (lp, a, i) else None)"
| "uv_calls li ai ii (UvLoopClose # cs) (lp, a, i) = (if lp then uv_calls li ai ii cs (False, a, i) else None)"

lemma libuv_create_destroy_calls:
  "snd (LibuvExecutor_Create 0 0 0) @ libuv_destroy_calls = cs \<Longrightarrow> uv_calls 0 0 0 cs (False, False, False) = Some (False, False, False)"
  "li \<noteq> 0 \<or> ai \<noteq> 0 \<or> ii \<noteq> 0 \<Longrightarrow> uv_calls li ai ii (snd (LibuvExecutor_Create li ai ii)) (False, False, False) = None"
  by (auto simp: LibuvExecutor_Create_def libuv_destroy_calls_def)

subsection \<open>\<open>RunOnce\<close> and the destructor\<close>

text \<open>\<open>uv_run\<close> with \<open>UV_RUN_NOWAIT\<close>: the callbacks that are due; \<open>running_\<close> is not touched.\<close>

definition LibuvExecutor_RunOnce ::
  "(run_log \<Rightarrow> work \<Rightarrow> exec_cmd list) \<Rightarrow> (run_log \<Rightarrow> bool) \<Rightarrow> uv_event list \<Rightarrow>
   LibuvExecutor loop_world \<Rightarrow> LibuvExecutor loop_world option" where
  "LibuvExecutor_RunOnce body init_ok es w = libuv_exec body init_ok es w"

text \<open>
  The destructor closes the async and the idle handle, after which libuv no longer calls their
  callbacks, and runs the loop while a handle is open: the executor's timers with their close callbacks, and
  whatever else was opened on \<open>GetLoop()\<close>, such as TCP listeners and streams, of which \<open>others\<close> is the number.  One entry
  of the list is one callback.  A timer's callback and those of the other handles run code of the program, which may
  open and close other handles; \<open>n\<close> is their number afterwards, \<open>cs\<close> what the code asks of the executor.
\<close>

definition libuv_loop_alive :: "nat \<Rightarrow> LibuvExecutor \<Rightarrow> bool" where
  "libuv_loop_alive others s \<longleftrightarrow> lu_active s \<noteq> [] \<or> lu_closing s \<noteq> [] \<or> 0 < others"

definition LibuvExecutor_destroy_begin :: "LibuvExecutor \<Rightarrow> LibuvExecutor" where
  "LibuvExecutor_destroy_begin s =
    (let s = (if lu_running s then LibuvExecutor_Stop s else s) in s\<lparr>lu_async_pending := False, lu_uv_idle := False\<rparr>)"

datatype destroy_event = DeTimer nat handle nat | DeClosed nat | DeOther "exec_cmd list" nat

fun destroy_step ::
  "(run_log \<Rightarrow> work \<Rightarrow> exec_cmd list) \<Rightarrow> destroy_event \<Rightarrow> nat \<Rightarrow> LibuvExecutor loop_world \<Rightarrow> (nat \<times> LibuvExecutor loop_world) option" where
  "destroy_step body (DeTimer i h n) others w = map_option (Pair n) (libuv_step body (\<lambda>_. True) (UvTimer i h) w)"
| "destroy_step body (DeClosed i) others w = map_option (Pair others) (libuv_step body (\<lambda>_. True) (UvClosed i) w)"
| "destroy_step body (DeOther cs n) others w = (if 0 < others then Some (n, issue libuv_cmd cs w) else None)"

fun LibuvExecutor_destroy_loop ::
  "(run_log \<Rightarrow> work \<Rightarrow> exec_cmd list) \<Rightarrow> destroy_event list \<Rightarrow> nat \<Rightarrow> LibuvExecutor loop_world \<Rightarrow> LibuvExecutor loop_world option" where
  "LibuvExecutor_destroy_loop body [] others w = (if libuv_loop_alive others (lw_state w) then None else Some w)"
| "LibuvExecutor_destroy_loop body (e # es) others w =
     (if libuv_loop_alive others (lw_state w)
      then (case destroy_step body e others w of None \<Rightarrow> None | Some (n, w') \<Rightarrow> LibuvExecutor_destroy_loop body es n w')
      else None)"

definition LibuvExecutor_destroy ::
  "(run_log \<Rightarrow> work \<Rightarrow> exec_cmd list) \<Rightarrow> destroy_event list \<Rightarrow> nat \<Rightarrow> LibuvExecutor loop_world \<Rightarrow> LibuvExecutor loop_world option" where
  "LibuvExecutor_destroy body es others w =
    LibuvExecutor_destroy_loop body es others (w\<lparr>lw_state := LibuvExecutor_destroy_begin (lw_state w)\<rparr>)"

fun timer_event :: "destroy_event \<Rightarrow> bool" where
  "timer_event (DeOther _ _) = False"
| "timer_event _ = True"

fun leaves_others :: "destroy_event \<Rightarrow> bool" where
  "leaves_others (DeTimer _ _ n) = (0 < n)"
| "leaves_others (DeClosed _) = True"
| "leaves_others (DeOther _ n) = (0 < n)"

definition timer_rank :: "LibuvExecutor \<Rightarrow> nat" where
  "timer_rank s = 2 * length (lu_active s) + length (lu_closing s)"

text \<open>
  What the callbacks of the destructor's loop do: those of the timers one step nearer to the end, no new timers, nothing
  taken out of the queues.
\<close>

lemma closing_step:
  assumes "destroy_step body e others w = Some (n, w')"
  shows "timer_rank (lw_state w) = timer_rank (lw_state w') + (if timer_event e then 1 else 0)"
    and "lu_next_timer (lw_state w') = lu_next_timer (lw_state w)"
    and "concat (map queued_coro (lw_log w')) = concat (map queued_coro (lw_log w))"
    and "concat (map queued_call (lw_log w')) = concat (map queued_call (lw_log w))"
    and "\<exists>hs. lu_ready_queue (lw_state w') = lu_ready_queue (lw_state w) @ hs"
    and "\<exists>cs. lu_callback_queue (lw_state w') = lu_callback_queue (lw_state w) @ cs"
proof -
  show "timer_rank (lw_state w) = timer_rank (lw_state w') + (if timer_event e then 1 else 0)"
  proof (cases e)
    case (DeTimer i h m)
    then have "(i, h) \<in> set (lu_active (lw_state w))" using assms by (auto split: if_splits)
    then have "length (lu_active (lw_state w)) = Suc (length (remove1 (i, h) (lu_active (lw_state w))))"
      by (rule length_remove1_Suc)
    with DeTimer assms show ?thesis
      by (auto simp: LibuvExecutor_OnTimer_def Let_def timer_rank_def skip_null_def issue_def split: if_splits)
  next
    case (DeClosed i)
    then have "i \<in> set (lu_closing (lw_state w))" using assms by (auto split: if_splits)
    then have "length (lu_closing (lw_state w)) = Suc (length (remove1 i (lu_closing (lw_state w))))"
      by (rule length_remove1_Suc)
    with DeClosed assms show ?thesis
      by (auto simp: LibuvExecutor_OnClose_def timer_rank_def split: if_splits)
  next
    case (DeOther cs m)
    then show ?thesis using assms by (auto simp: issue_def timer_rank_def split: if_splits)
  qed
  show "lu_next_timer (lw_state w') = lu_next_timer (lw_state w)"
    and "concat (map queued_coro (lw_log w')) = concat (map queued_coro (lw_log w))"
    and "concat (map queued_call (lw_log w')) = concat (map queued_call (lw_log w))"
    and "\<exists>hs. lu_ready_queue (lw_state w') = lu_ready_queue (lw_state w) @ hs"
    and "\<exists>cs. lu_callback_queue (lw_state w') = lu_callback_queue (lw_state w) @ cs"
    using assms
    by (cases e; auto simp: LibuvExecutor_OnTimer_def LibuvExecutor_OnClose_def Let_def skip_null_def issue_def
        libuv.fold_app split: if_splits)+
qed

lemma destroy_step_timers: "destroy_step body e others w = Some (n, w') \<Longrightarrow> timers_ok (lw_state w) \<Longrightarrow> timers_ok (lw_state w')"
proof (cases e)
  case (DeOther cs m)
  then show "destroy_step body e others w = Some (n, w') \<Longrightarrow> timers_ok (lw_state w) \<Longrightarrow> timers_ok (lw_state w')"
    using step_timers [of w body "\<lambda>_. True" "UvExternal cs"] by (auto split: if_splits)
next
  case (DeTimer i h m)
  then show "destroy_step body e others w = Some (n, w') \<Longrightarrow> timers_ok (lw_state w) \<Longrightarrow> timers_ok (lw_state w')"
    using step_timers [of w body "\<lambda>_. True" "UvTimer i h"] by (auto simp del: libuv_step.simps)
next
  case (DeClosed i)
  then show "destroy_step body e others w = Some (n, w') \<Longrightarrow> timers_ok (lw_state w) \<Longrightarrow> timers_ok (lw_state w')"
    using step_timers [of w body "\<lambda>_. True" "UvClosed i"] by (auto simp del: libuv_step.simps)
qed

lemma closing_progress:
  assumes "libuv_loop_alive 0 (lw_state w)"
  shows "\<exists>e w'. timer_event e \<and> destroy_step body e 0 w = Some (0, w')"
proof (cases "lu_active (lw_state w)")
  case (Cons t ts)
  then show ?thesis by (intro exI [of _ "DeTimer (fst t) (snd t) 0"]) simp
next
  case Nil
  with assms obtain i "is" where "lu_closing (lw_state w) = i # is"
    by (cases "lu_closing (lw_state w)") (auto simp: libuv_loop_alive_def)
  then show ?thesis by (intro exI [of _ "DeClosed i"]) simp
qed

text \<open>With no other handle open the timers' callbacks end the loop.\<close>

lemma destroy_loop_ends: "\<exists>es w'. (\<forall>e \<in> set es. timer_event e) \<and> LibuvExecutor_destroy_loop body es 0 w = Some w'"
proof (induction w rule: measure_induct_rule [of "\<lambda>w. timer_rank (lw_state w)"])
  case (less w)
  show ?case
  proof (cases "libuv_loop_alive 0 (lw_state w)")
    case True
    then obtain e w1 where e: "timer_event e" "destroy_step body e 0 w = Some (0, w1)"
      using closing_progress by blast
    from less.IH [of w1] closing_step(1) [OF e(2)] e(1) obtain es w' where
      "\<forall>e \<in> set es. timer_event e" "LibuvExecutor_destroy_loop body es 0 w1 = Some w'" by auto
    with e True show ?thesis by (intro exI [of _ "e # es"] exI [of _ w']) simp
  next
    case False
    then show ?thesis by (intro exI [of _ "[]"] exI [of _ w]) simp
  qed
qed

lemma destroy_loop_waits:
  "LibuvExecutor_destroy_loop body es others w = Some w' \<Longrightarrow> 0 < others \<Longrightarrow> \<exists>e \<in> set es. \<not> leaves_others e"
proof (induction es arbitrary: others w)
  case (Cons e es)
  then obtain n w1 where 1: "destroy_step body e others w = Some (n, w1)" "LibuvExecutor_destroy_loop body es n w1 = Some w'"
    by (auto split: option.splits if_splits)
  show ?case
  proof (cases "0 < n")
    case True
    with Cons.IH [OF 1(2)] show ?thesis by auto
  next
    case False
    with 1(1) Cons.prems(2) have "\<not> leaves_others e" by (cases e) (auto split: if_splits)
    then show ?thesis by simp
  qed
qed (simp add: libuv_loop_alive_def)

lemma destroy_loop_result:
  assumes "LibuvExecutor_destroy_loop body es others w = Some w'" and "timers_ok (lw_state w)"
  shows "length (filter timer_event es) = timer_rank (lw_state w) \<and> timers_ok (lw_state w') \<and> \<not> libuv_loop_alive 0 (lw_state w') \<and>
    lu_next_timer (lw_state w') = lu_next_timer (lw_state w) \<and>
    concat (map queued_coro (lw_log w')) = concat (map queued_coro (lw_log w)) \<and>
    concat (map queued_call (lw_log w')) = concat (map queued_call (lw_log w)) \<and>
    (\<exists>hs. lu_ready_queue (lw_state w') = lu_ready_queue (lw_state w) @ hs) \<and>
    (\<exists>cs. lu_callback_queue (lw_state w') = lu_callback_queue (lw_state w) @ cs)"
  using assms
proof (induction es arbitrary: others w)
  case Nil
  then show ?case by (auto simp: timer_rank_def libuv_loop_alive_def split: if_splits)
next
  case (Cons e es)
  then obtain n w1 where 1: "destroy_step body e others w = Some (n, w1)" "LibuvExecutor_destroy_loop body es n w1 = Some w'"
    by (auto split: option.splits if_splits)
  from Cons.IH [OF 1(2) destroy_step_timers [OF 1(1) Cons.prems(2)]] closing_step [OF 1(1)] show ?case by auto
qed

text \<open>
  Property C26 (the destructor of the libuv executor).  Take any state the executor can reach, with any number of other handles
  open on its loop.  If no other handle is open, the callbacks of the timers alone bring the destructor's loop to its
  end; if one is, the loop does not end before a callback has left none open.  Every way to the end takes exactly two
  callbacks per active timer and one per timer being closed.  Then every timer object ever allocated has been freed
  exactly once.  It waits for the timers, whose coroutines it resumes; but nothing is run from the queues: what is
  in the ready queue and in the callback queue is still there, followed by what was added meanwhile.
\<close>

theorem libuv_destructor:
  assumes "libuv_exec body init_ok es libuv_start = Some w"
  shows "(\<exists>es' w'. (\<forall>e \<in> set es'. timer_event e) \<and> LibuvExecutor_destroy body es' 0 w = Some w') \<and>
    (LibuvExecutor_destroy body es' others w = Some w' \<longrightarrow>
       (0 < others \<longrightarrow> (\<exists>e \<in> set es'. \<not> leaves_others e)) \<and>
       length (filter timer_event es') = 2 * length (lu_active (lw_state w)) + length (lu_closing (lw_state w)) \<and>
       mset (lu_freed (lw_state w')) = mset [0..<lu_next_timer (lw_state w)] \<and>
       concat (map queued_coro (lw_log w')) = concat (map queued_coro (lw_log w)) \<and>
       concat (map queued_call (lw_log w')) = concat (map queued_call (lw_log w)) \<and>
       (\<exists>hs. lu_ready_queue (lw_state w') = lu_ready_queue (lw_state w) @ hs) \<and>
       (\<exists>cs. lu_callback_queue (lw_state w') = lu_callback_queue (lw_state w) @ cs))"
proof -
  have "libuv_inv libuv_start"
    by (simp add: libuv_inv_def libuv_start_def LibuvExecutor_init_def fifo_ok_def awake_ok_def has_work_def timers_ok_def)
  from exec_libuv_inv [OF this assms] have t: "timers_ok (lw_state w)" by (simp add: libuv_inv_def)
  let ?w = "w\<lparr>lw_state := LibuvExecutor_destroy_begin (lw_state w)\<rparr>"
  have f: "timers_ok (lw_state ?w)" "timer_rank (lw_state ?w) = timer_rank (lw_state w)"
    "lu_next_timer (lw_state ?w) = lu_next_timer (lw_state w)" "lu_ready_queue (lw_state ?w) = lu_ready_queue (lw_state w)"
    "lu_callback_queue (lw_state ?w) = lu_callback_queue (lw_state w)"
    using t by (simp_all add: LibuvExecutor_destroy_begin_def LibuvExecutor_Stop_def Let_def timers_ok_def timer_rank_def)
  show ?thesis
    unfolding LibuvExecutor_destroy_def
    using destroy_loop_ends [of body ?w] destroy_loop_result [OF _ f(1), of body es' others w'] f(2-)
      destroy_loop_waits [of body es' others ?w w']
    by (auto simp: timer_rank_def timers_ok_def libuv_loop_alive_def)
qed

text \<open>A timer, a queued coroutine, and a TCP handle whose callback closes it.\<close>

theorem libuv_destructor_witness:
  "\<exists>w w'. libuv_exec (\<lambda>_ _. []) (\<lambda>_. True) [UvExternal [DoScheduleAfter 10 7], UvAsync, UvIdle, UvExternal [DoSchedule 5]] libuv_start = Some w \<and>
     LibuvExecutor_destroy (\<lambda>_ _. []) [DeTimer 0 7 1, DeClosed 0, DeOther [] 0] 1 w = Some w' \<and>
     mset (lu_freed (lw_state w')) = {#0#} \<and> lu_ready_queue (lw_state w') = [5]"
proof -
  obtain w w' where w: "libuv_exec (\<lambda>_ _. []) (\<lambda>_. True)
        [UvExternal [DoScheduleAfter 10 7], UvAsync, UvIdle, UvExternal [DoSchedule 5]] libuv_start = Some w"
    "LibuvExecutor_destroy (\<lambda>_ _. []) [DeTimer 0 7 1, DeClosed 0, DeOther [] 0] 1 w = Some w'"
    "lu_next_timer (lw_state w) = 1" "lu_ready_queue (lw_state w') = [5]"
    by (simp add: libuv_start_def LibuvExecutor_init_def issue_def Libuv_defs LibuvExecutor_OnAsync_def
        LibuvExecutor_OnIdle_def LibuvExecutor_ProcessReadyQueue_def libuv_create_timer_def skip_null_def Let_def
        LibuvExecutor_destroy_def LibuvExecutor_destroy_begin_def libuv_loop_alive_def LibuvExecutor_OnTimer_def LibuvExecutor_OnClose_def)
  from libuv_destructor [OF w(1)] w show ?thesis by fastforce
qed

end
