(* ===== verification/Pool_Shutdown.thy ===== *)
theory Pool_Shutdown
  imports Thread_Pool Thread_Utils Decimal
begin

text \<open>
  The rest of \<open>io/thread_pool_executor.cpp\<close>: the constructors with their options, what a worker
  thread configures before its loop, and the destructor, which stops the pool and joins its threads.
\<close>

subsection \<open>Options and the configuration of a worker\<close>

record Options =
  op_num_threads :: nat
  op_cpu_affinity :: CpuAffinity
  op_thread_name_prefix :: string
  op_nice_value :: int

text \<open>\<open>hardware_concurrency\<close> is the standard library's answer, which may be 0.\<close>

definition Options_init :: "nat \<Rightarrow> Options" where
  "Options_init hardware_concurrency =
    \<lparr>op_num_threads = hardware_concurrency, op_cpu_affinity = CpuAffinity_None,
     op_thread_name_prefix = ''hotcoco-worker'', op_nice_value = 0\<rparr>"

definition ThreadPoolExecutor_init_options :: "Options \<Rightarrow> Options \<times> ThreadPool" where
  "ThreadPoolExecutor_init_options options =
    (let options = (if op_num_threads options = 0 then options\<lparr>op_num_threads := 1\<rparr> else options)
     in (options, ThreadPoolExecutor_init (op_num_threads options)))"

definition ThreadPoolExecutor_default :: "nat \<Rightarrow> Options \<times> ThreadPool" where
  "ThreadPoolExecutor_default hardware_concurrency = ThreadPoolExecutor_init_options (Options_init hardware_concurrency)"

text \<open>The thread calls worker \<open>i\<close> makes before its loop, with the arguments the library functions get.\<close>

datatype thread_call = CallAffinity CpuAffinity | CallName string | CallNice int

definition WorkerLoop_configure :: "Options \<Rightarrow> nat \<Rightarrow> thread_call list" where
  "WorkerLoop_configure options worker_index =
    (let cpus = ca_cpus (op_cpu_affinity options) in
     (if CpuAffinity_IsSet (op_cpu_affinity options)
      then [CallAffinity (CpuAffinity_SingleCore (cpus ! (worker_index mod length cpus)))] else []) @
     (if op_thread_name_prefix options \<noteq> []
      then [CallName (op_thread_name_prefix options @ ''-'' @ nat_to_string worker_index)] else []) @
     (if op_nice_value options \<noteq> 0 then [CallNice (op_nice_value options)] else []))"

text \<open>Workers are spread over the processors asked for in turn, always at a valid index.\<close>

lemma workers_round_robin:
  assumes "CallAffinity a \<in> set (WorkerLoop_configure options i)"
  shows "\<exists>cpu \<in> set (ca_cpus (op_cpu_affinity options)). a = CpuAffinity_SingleCore cpu"
    and "WorkerLoop_configure options (i + length (ca_cpus (op_cpu_affinity options))) ! 0 = WorkerLoop_configure options i ! 0"
  using assms by (auto simp: WorkerLoop_configure_def CpuAffinity_IsSet_def Let_def)

text \<open>
  With the default prefix of 14 characters the names are cut before the index: the system is
  given the same name for every worker.
\<close>

lemma default_names_equal:
  "SetThreadName setname (''hotcoco-worker'' @ ''-'' @ nat_to_string i) \<longleftrightarrow> setname ''hotcoco-worker-'' = 0"
  by (simp add: SetThreadName_def)

subsection \<open>Waiting and notifying\<close>

text \<open>
  The pool with its condition variables.  A worker in its wait is about to lock and evaluate the predicate
  (\<open>CvReady\<close>), has found it false and is about to block, still holding \<open>queue_mutex_\<close> (\<open>CvAbout\<close>), or is blocked, with the
  mutex released.  A notification reaches only threads that are blocked; \<open>Stop\<close> sets the flag and notifies
  without any mutex.  The timer thread waits in the same way, without a limit while nothing is delayed and until
  the first item is due otherwise; \<open>TmWoken\<close> evaluates the predicate again.  The time is the one of the first
  item when the wait began; the code holds a reference to that item, which a push may leave dangling.
\<close>

datatype wait_phase = CvReady | CvAbout | CvBlocked

datatype timer_wait = TmAtHead | TmReady | TmAbout "int option" | TmBlocked "int option" | TmWoken "int option"

record cv_pool =
  cp_pool :: ThreadPool
  cp_wait :: "wait_phase list"
  cp_timer :: timer_wait

definition cv_pool_init :: "nat \<Rightarrow> cv_pool" where
  "cv_pool_init num =
    \<lparr>cp_pool = ThreadPoolExecutor_init num, cp_wait = replicate (if num = 0 then 1 else num) CvReady, cp_timer = TmAtHead\<rparr>"

abbreviation cp_workers :: "cv_pool \<Rightarrow> worker list" where
  "cp_workers s \<equiv> th_workers (cp_pool s)"

definition in_wait :: "wait_phase \<Rightarrow> nat \<Rightarrow> cv_pool \<Rightarrow> bool" where
  "in_wait ph i s \<longleftrightarrow> i < length (cp_workers s) \<and> cp_workers s ! i = WWait \<and> i < length (cp_wait s) \<and> cp_wait s ! i = ph"

definition queue_locked :: "cv_pool \<Rightarrow> bool" where
  "queue_locked s \<longleftrightarrow> (\<exists>i < length (cp_workers s). in_wait CvAbout i s)"

fun delayed_locked :: "timer_wait \<Rightarrow> bool" where
  "delayed_locked (TmAbout _) = True"
| "delayed_locked _ = False"

fun wake :: "wait_phase \<Rightarrow> wait_phase" where
  "wake CvBlocked = CvReady"
| "wake ph = ph"

fun timer_wake :: "timer_wait \<Rightarrow> timer_wait" where
  "timer_wake (TmBlocked until) = TmWoken until"
| "timer_wake t = t"

text \<open>
  \<open>work_available_.notify_all()\<close>; \<open>notify_one\<close> wakes one blocked thread, which may be a caller of \<open>Run\<close>
  instead of a worker (\<open>None\<close>); a wait may also end spuriously.
\<close>

definition notify_workers :: "cv_pool \<Rightarrow> cv_pool" where
  "notify_workers s = s\<lparr>cp_wait := map wake (cp_wait s)\<rparr>"

definition notify_worker :: "nat option \<Rightarrow> cv_pool \<Rightarrow> cv_pool" where
  "notify_worker j s = (case j of None \<Rightarrow> s | Some i \<Rightarrow> s\<lparr>cp_wait := (cp_wait s)[i := wake (cp_wait s ! i)]\<rparr>)"

definition notify_timer :: "cv_pool \<Rightarrow> cv_pool" where
  "notify_timer s = s\<lparr>cp_timer := timer_wake (cp_timer s)\<rparr>"

text \<open>
  \<open>Stop\<close> in its two parts (the notifications of both condition variables are one step), and the destructor, which calls it,
  notifies once more and returns when all threads have left.
\<close>

definition cv_Stop_set :: "cv_pool \<Rightarrow> cv_pool" where
  "cv_Stop_set s = s\<lparr>cp_pool := ThreadPoolExecutor_Stop (cp_pool s)\<rparr>"

definition cv_notify_all :: "cv_pool \<Rightarrow> cv_pool" where
  "cv_notify_all s = notify_timer (notify_workers s)"

definition ThreadPoolExecutor_destroy_returns :: "cv_pool \<Rightarrow> bool" where
  "ThreadPoolExecutor_destroy_returns s \<longleftrightarrow> (\<forall>w \<in> set (cp_workers s). w = WExited) \<and> th_timer_exited (cp_pool s)"

text \<open>The steps of a worker; the item's code itself may make any of the callers' steps.\<close>

definition cv_worker_head :: "nat \<Rightarrow> cv_pool \<Rightarrow> cv_pool option" where
  "cv_worker_head i s =
    map_option (\<lambda>p. s\<lparr>cp_pool := p, cp_wait := (cp_wait s)[i := CvReady]\<rparr>) (WorkerLoop_head i (cp_pool s))"

definition cv_worker_check :: "nat \<Rightarrow> cv_pool \<Rightarrow> cv_pool option" where
  "cv_worker_check i s =
    (if in_wait CvReady i s \<and> \<not> queue_locked s
     then (if th_stopping (cp_pool s) \<or> th_work_queue (cp_pool s) \<noteq> []
           then map_option (\<lambda>p. s\<lparr>cp_pool := p\<rparr>) (WorkerLoop_take i (cp_pool s))
           else Some (s\<lparr>cp_wait := (cp_wait s)[i := CvAbout]\<rparr>))
     else None)"

definition cv_worker_block :: "nat \<Rightarrow> cv_pool \<Rightarrow> cv_pool option" where
  "cv_worker_block i s = (if in_wait CvAbout i s then Some (s\<lparr>cp_wait := (cp_wait s)[i := CvBlocked]\<rparr>) else None)"

definition cv_worker_done :: "nat \<Rightarrow> cv_pool \<Rightarrow> cv_pool option" where
  "cv_worker_done i s = map_option (\<lambda>p. notify_workers (s\<lparr>cp_pool := p\<rparr>)) (WorkerLoop_done i (cp_pool s))"

text \<open>
  The timer thread: the head of its loop; with the lock, the wait or the exit; blocking; the predicate again after a
  notification; the end of the time; and \<open>Schedule\<close> of the item taken.
\<close>

definition timer_exit :: "cv_pool \<Rightarrow> cv_pool" where
  "timer_exit s = s\<lparr>cp_pool := (cp_pool s)\<lparr>th_timer_exited := True\<rparr>\<rparr>"

definition timer_free :: "cv_pool \<Rightarrow> bool" where
  "timer_free s \<longleftrightarrow> \<not> th_timer_exited (cp_pool s) \<and> th_timer_hand (cp_pool s) = None"

definition cv_timer_step :: "int \<Rightarrow> cv_pool \<Rightarrow> cv_pool option" where
  "cv_timer_step now s =
    (let p = cp_pool s; stopping = th_stopping p; queue = th_delayed_queue p in
     if \<not> timer_free s then None
     else case cp_timer s of
         TmAtHead \<Rightarrow> Some (if stopping then timer_exit s else s\<lparr>cp_timer := TmReady\<rparr>)
       | TmReady \<Rightarrow>
           Some (case queue of
                   [] \<Rightarrow> s\<lparr>cp_timer := if stopping then TmAtHead else TmAbout None\<rparr>
                 | soonest # _ \<Rightarrow> if stopping then timer_exit s else s\<lparr>cp_timer := TmAbout (Some (fst soonest))\<rparr>)
       | TmAbout until \<Rightarrow> Some (s\<lparr>cp_timer := TmBlocked until\<rparr>)
       | TmWoken None \<Rightarrow> Some (s\<lparr>cp_timer := if stopping \<or> queue \<noteq> [] then TmAtHead else TmAbout None\<rparr>)
       | TmWoken (Some until) \<Rightarrow> Some (if stopping then timer_exit s else s\<lparr>cp_timer := TmAbout (Some until)\<rparr>)
       | TmBlocked None \<Rightarrow> None
       | TmBlocked (Some until) \<Rightarrow>
           if now < until then None
           else Some (if stopping then timer_exit s
                      else case queue of
                          [] \<Rightarrow> s\<lparr>cp_timer := TmAtHead\<rparr>
                        | soonest # rest \<Rightarrow>
                            if now \<ge> fst soonest
                            then s\<lparr>cp_pool := p\<lparr>th_delayed_queue := rest, th_timer_hand := Some soonest\<rparr>, cp_timer := TmAtHead\<rparr>
                            else s\<lparr>cp_timer := TmAtHead\<rparr>))"

definition cv_timer_schedule :: "nat option \<Rightarrow> cv_pool \<Rightarrow> cv_pool option" where
  "cv_timer_schedule j s =
    (if queue_locked s then None
     else map_option (\<lambda>p. notify_worker j (s\<lparr>cp_pool := p\<rparr>)) (TimerLoop_schedule (cp_pool s)))"

datatype cv_label =
    VSchedule handle "nat option" | VPost nat "nat option" | VScheduleAfter int int handle | VStopSet | VNotifyAll
  | VWakeWorker nat | VWakeTimer
  | VHead nat | VCheck nat | VBlock nat | VDone nat | VTimer int | VTimerSchedule "nat option"

fun cv_step :: "cv_label \<Rightarrow> cv_pool \<Rightarrow> cv_pool option" where
  "cv_step (VSchedule h j) s =
     (if queue_locked s then None else Some (notify_worker j (s\<lparr>cp_pool := ThreadPoolExecutor_Schedule h (cp_pool s)\<rparr>)))"
| "cv_step (VPost c j) s =
     (if queue_locked s then None else Some (notify_worker j (s\<lparr>cp_pool := ThreadPoolExecutor_Post (Some c) (cp_pool s)\<rparr>)))"
| "cv_step (VScheduleAfter now d h) s =
     (if delayed_locked (cp_timer s) then None
      else Some (notify_timer (s\<lparr>cp_pool := ThreadPoolExecutor_ScheduleAfter now d h (cp_pool s)\<rparr>)))"
| "cv_step VStopSet s = Some (cv_Stop_set s)"
| "cv_step VNotifyAll s = Some (cv_notify_all s)"
| "cv_step (VWakeWorker i) s = Some (notify_worker (Some i) s)"
| "cv_step VWakeTimer s = Some (notify_timer s)"
| "cv_step (VHead i) s = cv_worker_head i s"
| "cv_step (VCheck i) s = cv_worker_check i s"
| "cv_step (VBlock i) s = cv_worker_block i s"
| "cv_step (VDone i) s = cv_worker_done i s"
| "cv_step (VTimer now) s = cv_timer_step now s"
| "cv_step (VTimerSchedule j) s = cv_timer_schedule j s"

fun cv_exec :: "cv_label list \<Rightarrow> cv_pool \<Rightarrow> cv_pool option" where
  "cv_exec [] s = Some s"
| "cv_exec (l # ls) s = (case cv_step l s of None \<Rightarrow> None | Some s' \<Rightarrow> cv_exec ls s')"

text \<open>The steps the pool's own threads make by themselves.\<close>

fun own_step :: "cv_label \<Rightarrow> bool" where
  "own_step (VHead _) = True"
| "own_step (VCheck _) = True"
| "own_step (VBlock _) = True"
| "own_step (VDone _) = True"
| "own_step (VTimer _) = True"
| "own_step (VTimerSchedule _) = True"
| "own_step _ = False"

lemmas Cv_defs = notify_workers_def notify_worker_def notify_timer_def cv_Stop_set_def cv_notify_all_def cv_worker_head_def
  cv_worker_check_def cv_worker_block_def cv_worker_done_def cv_timer_step_def cv_timer_schedule_def timer_exit_def timer_free_def

subsection \<open>Stopping and joining\<close>

text \<open>How many steps a thread of a stopped pool has left.\<close>

fun wait_rank :: "wait_phase \<Rightarrow> nat" where
  "wait_rank CvReady = 3"
| "wait_rank CvBlocked = 4"
| "wait_rank CvAbout = 5"

fun worker_rank :: "worker \<times> wait_phase \<Rightarrow> nat" where
  "worker_rank (WExited, _) = 0"
| "worker_rank (WHead, _) = 1"
| "worker_rank (WRunning _, _) = 2"
| "worker_rank (WWait, ph) = wait_rank ph"

fun timer_rank :: "timer_wait \<Rightarrow> nat" where
  "timer_rank TmAtHead = 1"
| "timer_rank TmReady = 2"
| "timer_rank (TmWoken _) = 3"
| "timer_rank (TmBlocked _) = 4"
| "timer_rank (TmAbout _) = 5"

definition workers_rank :: "cv_pool \<Rightarrow> nat" where
  "workers_rank s = sum_list (map worker_rank (zip (cp_workers s) (cp_wait s)))"

definition shutdown_rank :: "cv_pool \<Rightarrow> nat" where
  "shutdown_rank s = workers_rank s +
    (if th_timer_exited (cp_pool s) then 0 else timer_rank (cp_timer s) + (if th_timer_hand (cp_pool s) = None then 0 else 1))"

lemma sum_update:
  fixes f :: "'a \<Rightarrow> nat"
  shows "i < length xs \<Longrightarrow> sum_list (map f (xs[i := y])) + f (xs ! i) = sum_list (map f xs) + f y"
  by (induction xs arbitrary: i) (auto split: nat.splits)

lemma workers_rank_upd:
  assumes "i < length (cp_workers s)" and "length (cp_wait s) = length (cp_workers s)"
    and "cp_workers s' = (cp_workers s)[i := w]" and "cp_wait s' = (cp_wait s)[i := ph]"
  shows "workers_rank s' + worker_rank (cp_workers s ! i, cp_wait s ! i) = workers_rank s + worker_rank (w, ph)"
  using sum_update [of i "zip (cp_workers s) (cp_wait s)" worker_rank "(w, ph)"] assms
  by (simp add: workers_rank_def update_zip)

lemma worker_rank_wake: "worker_rank (w, wake ph) \<le> worker_rank (w, ph)"
  by (cases w; cases ph) simp_all

lemma notify_workers_rank: "workers_rank (notify_workers s) \<le> workers_rank s"
proof -
  have "sum_list (map worker_rank (zip ws (map wake cs))) \<le> sum_list (map worker_rank (zip ws cs))" for ws cs
    by (induction ws cs rule: list_induct2') (auto intro: add_mono worker_rank_wake)
  then show ?thesis by (simp add: workers_rank_def notify_workers_def)
qed

lemma notify_worker_rank:
  assumes "length (cp_wait s) = length (cp_workers s)"
  shows "workers_rank (notify_worker j s) \<le> workers_rank s"
proof (cases j)
  case (Some i)
  show ?thesis
  proof (cases "i < length (cp_wait s)")
    case True
    with assms workers_rank_upd [of i s "notify_worker j s" "cp_workers s ! i" "wake (cp_wait s ! i)"]
      worker_rank_wake [of "cp_workers s ! i" "cp_wait s ! i"]
    show ?thesis by (simp add: notify_worker_def Some)
  qed (simp add: notify_worker_def Some list_update_beyond workers_rank_def)
qed (simp add: notify_worker_def)

text \<open>What is true of a pool whose flag is set, and what its steps keep.\<close>

definition cv_stopped :: "cv_pool \<Rightarrow> bool" where
  "cv_stopped s \<longleftrightarrow> th_stopping (cp_pool s)"

definition cv_wf :: "cv_pool \<Rightarrow> bool" where
  "cv_wf s \<longleftrightarrow> length (cp_wait s) = length (cp_workers s) \<and>
     (th_timer_hand (cp_pool s) \<noteq> None \<longrightarrow> \<not> th_timer_exited (cp_pool s) \<and> cp_timer s = TmAtHead)"

text \<open>\<open>G\<close> and \<open>g\<close>: the workers, and whether the timer thread, may still block or be blocked for good.\<close>

definition gap_ok :: "nat set \<Rightarrow> bool \<Rightarrow> cv_pool \<Rightarrow> bool" where
  "gap_ok G g s \<longleftrightarrow> (\<forall>i. in_wait CvAbout i s \<or> in_wait CvBlocked i s \<longrightarrow> i \<in> G) \<and>
     (cp_timer s = TmAbout None \<or> cp_timer s = TmBlocked None \<longrightarrow> g)"

lemma wake_eq: "wake ph = CvAbout \<longleftrightarrow> ph = CvAbout" "wake ph \<noteq> CvBlocked"
  by (cases ph; simp)+

lemma timer_wake_rank: "timer_rank (timer_wake t) \<le> timer_rank t"
  by (cases t) simp_all

lemma wake_keep: "wake ph \<noteq> CvReady \<Longrightarrow> wake ph = ph"
  by (cases ph) simp_all

lemma notify_in_wait:
  assumes "ph \<noteq> CvReady"
  shows "in_wait ph i (notify_workers s) \<Longrightarrow> in_wait ph i s"
    and "in_wait ph i (notify_worker j s) \<Longrightarrow> in_wait ph i s"
proof -
  show "in_wait ph i (notify_workers s) \<Longrightarrow> in_wait ph i s"
    using assms wake_keep [of "cp_wait s ! i"] by (auto simp: in_wait_def notify_workers_def)
  show "in_wait ph i (notify_worker j s) \<Longrightarrow> in_wait ph i s"
    using assms wake_keep [of "cp_wait s ! i"]
    by (cases j; cases "j = Some i") (auto simp: in_wait_def notify_worker_def)
qed

text \<open>What the steps of the workers do, in a pool whose flag is set.\<close>

definition same_timer :: "cv_pool \<Rightarrow> cv_pool \<Rightarrow> bool" where
  "same_timer s s' \<longleftrightarrow> th_stopping (cp_pool s') = th_stopping (cp_pool s) \<and> cp_timer s' = cp_timer s \<and>
     th_timer_hand (cp_pool s') = th_timer_hand (cp_pool s) \<and> th_timer_exited (cp_pool s') = th_timer_exited (cp_pool s)"

lemma head_step:
  assumes "cv_worker_head i s = Some s'" and "cv_stopped s"
  shows "i < length (cp_workers s) \<and> cp_workers s ! i = WHead \<and> same_timer s s' \<and>
    cp_workers s' = (cp_workers s)[i := WExited] \<and> cp_wait s' = (cp_wait s)[i := CvReady]"
  using assms by (auto simp: cv_worker_head_def WorkerLoop_head_def cv_stopped_def same_timer_def split: if_splits)

lemma check_step:
  assumes "cv_worker_check i s = Some s'" and "cv_stopped s"
  shows "in_wait CvReady i s \<and> same_timer s s' \<and> cp_wait s' = cp_wait s \<and>
    (\<exists>w. cp_workers s' = (cp_workers s)[i := w] \<and> (w = WExited \<or> is_running w))"
proof (cases "th_work_queue (cp_pool s)")
  case Nil
  then show ?thesis
    using assms by (auto simp: cv_worker_check_def WorkerLoop_take_def cv_stopped_def same_timer_def split: if_splits)
next
  case (Cons x xs)
  then show ?thesis
    using assms
    by (auto simp: cv_worker_check_def WorkerLoop_take_def cv_stopped_def same_timer_def split: if_splits
        intro!: exI [of _ "WRunning x"])
qed

lemma done_step:
  assumes "cv_worker_done i s = Some s'"
  shows "i < length (cp_workers s) \<and> is_running (cp_workers s ! i) \<and> same_timer s s' \<and>
    cp_workers s' = (cp_workers s)[i := WHead] \<and> cp_wait s' = map wake (cp_wait s)"
  using assms
  by (auto simp: cv_worker_done_def WorkerLoop_done_def notify_workers_def same_timer_def split: if_splits worker.splits)

lemma block_step:
  assumes "cv_worker_block i s = Some s'"
  shows "in_wait CvAbout i s \<and> same_timer s s' \<and> cp_workers s' = cp_workers s \<and> cp_wait s' = (cp_wait s)[i := CvBlocked]"
  using assms by (auto simp: cv_worker_block_def same_timer_def split: if_splits)

lemma rank_running: "is_running w \<Longrightarrow> worker_rank (w, ph) = 2"
  by (cases w) simp_all

text \<open>Each step of a worker brings it nearer to its end and puts no new one into the gap.\<close>

lemma worker_step_rank:
  assumes "cv_step l s = Some s'" and st: "cv_stopped s" and wf: "cv_wf s"
    and l: "l \<in> {VHead i, VCheck i, VBlock i, VDone i}"
  shows "workers_rank s' < workers_rank s \<and> same_timer s s' \<and> length (cp_wait s') = length (cp_workers s') \<and>
    length (cp_workers s') = length (cp_workers s) \<and>
    (\<forall>j. in_wait CvAbout j s' \<or> in_wait CvBlocked j s' \<longrightarrow> in_wait CvAbout j s \<or> in_wait CvBlocked j s)"
proof -
  have len: "length (cp_wait s) = length (cp_workers s)" using wf by (simp add: cv_wf_def)
  consider "l = VHead i" | "l = VCheck i" | "l = VBlock i" | "l = VDone i" using l by blast
  then show ?thesis
  proof cases
    case 1
    with assms(1) have h: "cv_worker_head i s = Some s'" by simp
    note h = head_step [OF h st]
    with workers_rank_upd [of i s s' WExited CvReady] len have "workers_rank s' < workers_rank s" by simp
    with h len show ?thesis by (auto simp: in_wait_def nth_list_update split: if_splits)
  next
    case 2
    with assms(1) have c: "cv_worker_check i s = Some s'" by simp
    from check_step [OF this st] obtain w where c: "in_wait CvReady i s" "same_timer s s'" "cp_wait s' = cp_wait s"
      "cp_workers s' = (cp_workers s)[i := w]" "w = WExited \<or> is_running w" by blast
    then have "worker_rank (w, cp_wait s ! i) < worker_rank (cp_workers s ! i, cp_wait s ! i)"
      by (auto simp: in_wait_def rank_running)
    with workers_rank_upd [of i s s' w "cp_wait s ! i"] c len have "workers_rank s' < workers_rank s" by (simp add: in_wait_def)
    with c len show ?thesis by (auto simp: in_wait_def nth_list_update split: if_splits)
  next
    case 3
    with assms(1) have b: "cv_worker_block i s = Some s'" by simp
    note b = block_step [OF b]
    with workers_rank_upd [of i s s' "cp_workers s ! i" CvBlocked] len have "workers_rank s' < workers_rank s" by (simp add: in_wait_def)
    with b len show ?thesis by (auto simp: in_wait_def nth_list_update split: if_splits)
  next
    case 4
    with assms(1) have d: "cv_worker_done i s = Some s'" by simp
    note d = done_step [OF d]
    let ?s = "s\<lparr>cp_pool := (cp_pool s)\<lparr>th_workers := (cp_workers s)[i := WHead]\<rparr>\<rparr>"
    have "workers_rank ?s < workers_rank s"
      using workers_rank_upd [of i s ?s WHead "cp_wait s ! i"] d len by (simp add: rank_running)
    moreover have "workers_rank s' \<le> workers_rank ?s"
      using notify_workers_rank [of ?s] d by (simp add: workers_rank_def notify_workers_def)
    ultimately have "workers_rank s' < workers_rank s" by simp
    with d len wake_eq show ?thesis by (auto simp: in_wait_def nth_list_update split: if_splits)
  qed
qed

lemma timer_step_rank:
  assumes "cv_timer_step now s = Some s'" and "cv_stopped s"
  shows "shutdown_rank s' < shutdown_rank s \<and> cv_stopped s' \<and> cp_workers s' = cp_workers s \<and> cp_wait s' = cp_wait s \<and>
    (th_timer_hand (cp_pool s') \<noteq> None \<longrightarrow> \<not> th_timer_exited (cp_pool s') \<and> cp_timer s' = TmAtHead) \<and>
    (cp_timer s' = TmAbout None \<or> cp_timer s' = TmBlocked None \<longrightarrow> cp_timer s = TmAbout None \<or> cp_timer s = TmBlocked None)"
  using assms
  by (auto simp: cv_timer_step_def Let_def timer_free_def timer_exit_def cv_stopped_def shutdown_rank_def workers_rank_def
      split: if_splits timer_wait.splits list.splits option.splits)

lemma shutdown_rank_same_timer:
  "same_timer s s' \<Longrightarrow> shutdown_rank s' + workers_rank s = shutdown_rank s + workers_rank s'"
  by (simp add: shutdown_rank_def same_timer_def)

lemma notify_worker_same:
  "cp_pool (notify_worker j s) = cp_pool s" "cp_timer (notify_worker j s) = cp_timer s"
  "length (cp_wait (notify_worker j s)) = length (cp_wait s)"
  by (cases j; simp add: notify_worker_def)+

text \<open>Callers, notifications and the timer's \<open>Schedule\<close>: only waits end.\<close>

definition only_wakes :: "cv_pool \<Rightarrow> cv_pool \<Rightarrow> bool" where
  "only_wakes s s' \<longleftrightarrow> cp_workers s' = cp_workers s \<and> length (cp_wait s') = length (cp_wait s) \<and> workers_rank s' \<le> workers_rank s \<and>
     (\<forall>j. in_wait CvAbout j s' \<or> in_wait CvBlocked j s' \<longrightarrow> in_wait CvAbout j s \<or> in_wait CvBlocked j s) \<and>
     cp_timer s' \<in> {cp_timer s, timer_wake (cp_timer s)}"

lemma only_wakes_notify:
  assumes "cv_wf s" and "th_workers p = cp_workers s"
  shows "only_wakes s (notify_worker j (s\<lparr>cp_pool := p\<rparr>))" and "only_wakes s (notify_timer (s\<lparr>cp_pool := p\<rparr>))"
    and "only_wakes s (notify_workers s)"
proof -
  let ?s = "s\<lparr>cp_pool := p\<rparr>"
  have r: "workers_rank ?s = workers_rank s" and iw: "in_wait ph i ?s = in_wait ph i s" for ph i
    using assms(2) by (simp_all add: workers_rank_def in_wait_def)
  have "workers_rank (notify_worker j ?s) \<le> workers_rank s"
    using notify_worker_rank [of ?s j] assms r by (simp add: cv_wf_def)
  then show "only_wakes s (notify_worker j ?s)"
    using assms(2) notify_in_wait(2) [of _ _ j ?s] by (auto simp: only_wakes_def notify_worker_same iw)
  show "only_wakes s (notify_timer ?s)"
    using assms(2) by (simp add: only_wakes_def notify_timer_def workers_rank_def in_wait_def)
  show "only_wakes s (notify_workers s)"
    using notify_workers_rank [of s] notify_in_wait(1) [of _ _ s] by (auto simp: only_wakes_def notify_workers_def)
qed

lemma only_wakes_trans: "only_wakes s s1 \<Longrightarrow> only_wakes s1 s2 \<Longrightarrow> cp_timer s1 = cp_timer s \<Longrightarrow> only_wakes s s2"
  unfolding only_wakes_def by (intro conjI allI impI) (auto dest: le_trans)

lemma other_step:
  assumes "cv_step l s = Some s'" and st: "cv_stopped s" and wf: "cv_wf s"
    and l: "\<forall>i. l \<notin> {VHead i, VCheck i, VBlock i, VDone i}" "\<forall>now. l \<noteq> VTimer now"
  shows "only_wakes s s' \<and> cv_stopped s' \<and> th_timer_exited (cp_pool s') = th_timer_exited (cp_pool s) \<and>
    (if own_step l then th_timer_hand (cp_pool s) \<noteq> None \<and> th_timer_hand (cp_pool s') = None
     else th_timer_hand (cp_pool s') = th_timer_hand (cp_pool s))"
proof -
  note ow = only_wakes_notify [OF wf]
  show ?thesis
  proof (cases l)
    case (VSchedule h j)
    then have s': "s' = notify_worker j (s\<lparr>cp_pool := ThreadPoolExecutor_Schedule h (cp_pool s)\<rparr>)"
      using assms(1) by (simp split: if_splits)
    show ?thesis unfolding s' using ow(1) [of "ThreadPoolExecutor_Schedule h (cp_pool s)" j] st VSchedule
      by (simp add: notify_worker_same cv_stopped_def ThreadPoolExecutor_Schedule_def)
  next
    case (VPost c j)
    then have s': "s' = notify_worker j (s\<lparr>cp_pool := ThreadPoolExecutor_Post (Some c) (cp_pool s)\<rparr>)"
      using assms(1) by (simp split: if_splits)
    show ?thesis unfolding s' using ow(1) [of "ThreadPoolExecutor_Post (Some c) (cp_pool s)" j] st VPost
      by (simp add: notify_worker_same cv_stopped_def ThreadPoolExecutor_Post_def)
  next
    case (VScheduleAfter now d h)
    then have s': "s' = notify_timer (s\<lparr>cp_pool := ThreadPoolExecutor_ScheduleAfter now d h (cp_pool s)\<rparr>)"
      using assms(1) by (simp split: if_splits)
    show ?thesis unfolding s' using ow(2) [of "ThreadPoolExecutor_ScheduleAfter now d h (cp_pool s)"] st VScheduleAfter
      by (simp add: notify_timer_def cv_stopped_def ThreadPoolExecutor_ScheduleAfter_def)
  next
    case VStopSet
    then show ?thesis using assms(1) st
      by (auto simp: cv_Stop_set_def only_wakes_def cv_stopped_def ThreadPoolExecutor_Stop_def in_wait_def workers_rank_def)
  next
    case VNotifyAll
    have "only_wakes (notify_workers s) (notify_timer (notify_workers s))"
      by (simp add: only_wakes_def notify_timer_def workers_rank_def in_wait_def)
    then have "only_wakes s (cv_notify_all s)"
      using only_wakes_trans [OF ow(3)] by (simp add: cv_notify_all_def notify_workers_def)
    then show ?thesis using assms(1) st VNotifyAll
      by (auto simp: cv_notify_all_def notify_timer_def notify_workers_def cv_stopped_def)
  next
    case (VWakeWorker i)
    then show ?thesis using assms(1) ow(1) [of "cp_pool s" "Some i"] st by (auto simp: notify_worker_same cv_stopped_def)
  next
    case VWakeTimer
    then show ?thesis using assms(1) ow(2) [of "cp_pool s"] st by (auto simp: notify_timer_def cv_stopped_def)
  next
    case (VTimerSchedule j)
    then obtain t where t: "th_timer_hand (cp_pool s) = Some t"
      and s': "s' = notify_worker j (s\<lparr>cp_pool := ThreadPoolExecutor_Schedule (snd t) ((cp_pool s)\<lparr>th_timer_hand := None\<rparr>)\<rparr>)"
      using assms(1) by (auto simp: cv_timer_schedule_def TimerLoop_schedule_def split: if_splits option.splits)
    show ?thesis
      unfolding s' using ow(1) [of "ThreadPoolExecutor_Schedule (snd t) ((cp_pool s)\<lparr>th_timer_hand := None\<rparr>)" j] st VTimerSchedule t
      by (simp add: notify_worker_same cv_stopped_def ThreadPoolExecutor_Schedule_def)
  qed (use l in auto)
qed

lemma stopped_step:
  assumes "cv_step l s = Some s'" and st: "cv_stopped s" and wf: "cv_wf s" and gap: "gap_ok G g s"
  shows "cv_stopped s' \<and> cv_wf s' \<and> gap_ok G g s' \<and> length (cp_workers s') = length (cp_workers s) \<and>
    shutdown_rank s' + (if own_step l then 1 else 0) \<le> shutdown_rank s"
proof -
  consider (worker) i where "l \<in> {VHead i, VCheck i, VBlock i, VDone i}" | (timer) now where "l = VTimer now"
    | (other) "\<forall>i. l \<notin> {VHead i, VCheck i, VBlock i, VDone i}" "\<forall>now. l \<noteq> VTimer now" by blast
  then show ?thesis
  proof cases
    case worker
    note r = worker_step_rank [OF assms(1-3) worker]
    with shutdown_rank_same_timer [of s s'] st wf gap show ?thesis
      by (auto simp: cv_stopped_def cv_wf_def gap_ok_def same_timer_def)
  next
    case timer
    then have "cv_timer_step now s = Some s'" using assms(1) by simp
    from timer_step_rank [OF this st] wf gap timer show ?thesis by (auto simp: cv_wf_def gap_ok_def in_wait_def)
  next
    case other
    note o = other_step [OF assms(1-3) other]
    have "timer_rank (cp_timer s') \<le> timer_rank (cp_timer s)" using o timer_wake_rank by (auto simp: only_wakes_def)
    moreover have "own_step l \<Longrightarrow> \<not> th_timer_exited (cp_pool s)" using o wf by (auto simp: cv_wf_def)
    ultimately have "shutdown_rank s' + (if own_step l then 1 else 0) \<le> shutdown_rank s"
      using o by (auto simp: shutdown_rank_def only_wakes_def)
    moreover have "cp_timer s' = TmAbout None \<or> cp_timer s' = TmBlocked None \<Longrightarrow> cp_timer s = TmAbout None \<or> cp_timer s = TmBlocked None"
      and head: "cp_timer s = TmAtHead \<Longrightarrow> cp_timer s' = TmAtHead"
      using o by (cases "cp_timer s"; auto simp: only_wakes_def)+
    then have "gap_ok G g s'" using o gap unfolding gap_ok_def only_wakes_def by blast
    moreover have "cv_wf s'" using o wf head by (auto simp: cv_wf_def only_wakes_def split: if_splits)
    ultimately show ?thesis using o by (auto simp: only_wakes_def)
  qed
qed

lemma stopped_exec:
  "cv_exec ls s = Some s' \<Longrightarrow> cv_stopped s \<Longrightarrow> cv_wf s \<Longrightarrow> gap_ok G g s \<Longrightarrow>
   cv_stopped s' \<and> cv_wf s' \<and> gap_ok G g s' \<and> length (cp_workers s') = length (cp_workers s) \<and>
   length (filter own_step ls) + shutdown_rank s' \<le> shutdown_rank s"
proof (induction ls arbitrary: s)
  case (Cons l ls)
  then obtain s1 where 1: "cv_step l s = Some s1" "cv_exec ls s1 = Some s'" by (auto split: option.splits)
  from stopped_step [OF 1(1) Cons.prems(2-4)] Cons.IH [OF 1(2)] show ?case by (auto split: if_splits)
qed simp

text \<open>While the destructor waits, a thread can take a step, or all that are left are blocked.\<close>

lemma queue_lock_released:
  assumes "queue_locked s"
  shows "\<exists>l. own_step l \<and> cv_step l s \<noteq> None"
proof -
  obtain i where "in_wait CvAbout i s" using assms by (auto simp: queue_locked_def)
  then show ?thesis by (intro exI [of _ "VBlock i"]) (simp add: cv_worker_block_def)
qed

lemma shutdown_progress:
  assumes wf: "cv_wf s" and "\<not> ThreadPoolExecutor_destroy_returns s" and stuck: "\<nexists>l. own_step l \<and> cv_step l s \<noteq> None" and st: "cv_stopped s"
  shows "(\<forall>i < length (cp_workers s). cp_workers s ! i = WExited \<or> in_wait CvBlocked i s) \<and>
    (th_timer_exited (cp_pool s) \<or> cp_timer s = TmBlocked None)"
proof (intro conjI allI impI)
  have none: "cv_step l s = None" if "own_step l" for l using stuck that by blast
  have lock: "\<not> queue_locked s" using queue_lock_released stuck by blast
  fix i
  assume i: "i < length (cp_workers s)"
  show "cp_workers s ! i = WExited \<or> in_wait CvBlocked i s"
  proof (cases "cp_workers s ! i")
    case WHead
    with i none [of "VHead i"] show ?thesis by (simp add: cv_worker_head_def WorkerLoop_head_def)
  next
    case (WRunning w)
    with i none [of "VDone i"] show ?thesis by (simp add: cv_worker_done_def WorkerLoop_done_def)
  next
    case WWait
    have "\<not> in_wait CvReady i s"
      using none [of "VCheck i"] lock st WWait i
      by (auto simp: cv_worker_check_def WorkerLoop_take_def cv_stopped_def split: list.splits)
    moreover have "\<not> in_wait CvAbout i s" using none [of "VBlock i"] by (simp add: cv_worker_block_def split: if_splits)
    ultimately show ?thesis using WWait i wf by (cases "cp_wait s ! i") (auto simp: in_wait_def cv_wf_def)
  qed simp
next
  have none: "cv_step l s = None" if "own_step l" for l using stuck that by blast
  have "\<not> queue_locked s" using queue_lock_released stuck by blast
  with none [of "VTimerSchedule None"] have hand: "th_timer_hand (cp_pool s) = None"
    by (auto simp: cv_timer_schedule_def TimerLoop_schedule_def split: option.splits)
  have "cv_timer_step now s = None" for now using none [of "VTimer now"] by simp
  from this [of "case cp_timer s of TmBlocked (Some until) \<Rightarrow> until | _ \<Rightarrow> 0"] hand
  show "th_timer_exited (cp_pool s) \<or> cp_timer s = TmBlocked None"
    by (auto simp: cv_timer_step_def timer_free_def Let_def split: timer_wait.splits option.splits list.splits if_splits)
qed

lemma shutdown_completes:
  "cv_stopped s \<Longrightarrow> cv_wf s \<Longrightarrow> gap_ok {} False s \<Longrightarrow>
   \<exists>ls s'. (\<forall>l \<in> set ls. own_step l) \<and> cv_exec ls s = Some s' \<and> ThreadPoolExecutor_destroy_returns s'"
proof (induction s rule: measure_induct_rule [of shutdown_rank])
  case (less s)
  show ?case
  proof (cases "ThreadPoolExecutor_destroy_returns s")
    case True
    then show ?thesis by (intro exI [of _ "[]"] exI [of _ s]) simp
  next
    case False
    have "\<exists>l. own_step l \<and> cv_step l s \<noteq> None"
    proof (rule ccontr)
      assume "\<nexists>l. own_step l \<and> cv_step l s \<noteq> None"
      from shutdown_progress [OF less.prems(2) False this less.prems(1)] less.prems(3) False show False
        by (auto simp: gap_ok_def ThreadPoolExecutor_destroy_returns_def in_set_conv_nth)
    qed
    then obtain l s1 where l: "own_step l" "cv_step l s = Some s1" by blast
    from stopped_step [OF l(2) less.prems] l(1) less.IH [of s1] obtain ls s' where
      "\<forall>l \<in> set ls. own_step l" "cv_exec ls s1 = Some s'" "ThreadPoolExecutor_destroy_returns s'" by auto
    with l show ?thesis by (intro exI [of _ "l # ls"] exI [of _ s']) simp
  qed
qed

text \<open>Every state the pool reaches is well-formed, and five steps per worker and six of the timer thread are enough.\<close>

lemma rank_bound: "shutdown_rank s \<le> 5 * length (cp_workers s) + 6"
proof -
  have "worker_rank (w, ph) \<le> 5" for w ph by (cases w; cases ph) auto
  then have "sum_list (map worker_rank (zip ws cs)) \<le> 5 * length ws" for ws cs
    by (induction ws cs rule: list_induct2') (auto simp: add_le_mono)
  from this [of "cp_workers s" "cp_wait s"] show ?thesis
    by (cases "cp_timer s") (auto simp: shutdown_rank_def workers_rank_def)
qed

lemma step_wf: "cv_step l s = Some s' \<Longrightarrow> cv_wf s \<Longrightarrow> cv_wf s'"
proof (cases l)
  case (VTimer now)
  then show "cv_step l s = Some s' \<Longrightarrow> cv_wf s \<Longrightarrow> cv_wf s'"
    by (auto simp: cv_timer_step_def timer_free_def timer_exit_def cv_wf_def Let_def
        split: if_splits timer_wait.splits list.splits option.splits)
next
  case (VScheduleAfter now d h)
  then show "cv_step l s = Some s' \<Longrightarrow> cv_wf s \<Longrightarrow> cv_wf s'"
    by (auto simp: cv_wf_def notify_timer_def ThreadPoolExecutor_ScheduleAfter_def split: if_splits)
qed (auto simp: cv_wf_def Cv_defs notify_worker_same Pool_defs split: if_splits list.splits option.splits worker.splits)

lemma exec_wf: "cv_exec ls s = Some s' \<Longrightarrow> cv_wf s \<Longrightarrow> cv_wf s'"
  by (induction ls arbitrary: s) (auto split: option.splits dest: step_wf)

text \<open>
  Property C24 (the destructor of the thread pool).  Take any state \<open>s\<close> the pool reaches in which the destructor has set
  the flag and is about to notify for the last time, and let the threads go on in any interleaving with
  callers that still schedule.  The pool's threads take at most five steps per worker and six of the timer thread, however much is
  queued.  A thread that is blocked afterwards was in the gap at that notification: it had found its predicate false and not
  blocked yet.  While the joins have not returned, a thread can take a step, or all threads that are left are blocked.  So
  if no thread was in the gap, the joins return: there is a way to that state, and every way that goes on leads there.
\<close>

theorem thread_pool_shutdown:
  assumes "cv_exec ls (cv_pool_init num) = Some s" and "th_stopping (cp_pool s)" and "cv_exec ls' (cv_notify_all s) = Some s'"
  shows "length (filter own_step ls') \<le> 5 * length (cp_workers s) + 6 \<and>
    (\<forall>i. in_wait CvBlocked i s' \<longrightarrow> in_wait CvAbout i s) \<and> (cp_timer s' = TmBlocked None \<longrightarrow> cp_timer s = TmAbout None) \<and>
    (ThreadPoolExecutor_destroy_returns s' \<or> (\<exists>l. own_step l \<and> cv_step l s' \<noteq> None) \<or>
      (\<forall>i < length (cp_workers s'). cp_workers s' ! i = WExited \<or> in_wait CvBlocked i s') \<and>
      (th_timer_exited (cp_pool s') \<or> cp_timer s' = TmBlocked None)) \<and>
    ((\<forall>i. \<not> in_wait CvAbout i s) \<and> cp_timer s \<noteq> TmAbout None \<longrightarrow>
      (ThreadPoolExecutor_destroy_returns s' \<or> (\<exists>l. own_step l \<and> cv_step l s' \<noteq> None)) \<and>
      (\<exists>ls'' s''. (\<forall>l \<in> set ls''. own_step l) \<and> cv_exec ls'' s' = Some s'' \<and> ThreadPoolExecutor_destroy_returns s''))"
proof -
  let ?G = "{i. in_wait CvAbout i s}" and ?g = "cp_timer s = TmAbout None" and ?s = "cv_notify_all s"
  have "cv_wf (cv_pool_init num)" by (simp add: cv_wf_def cv_pool_init_def ThreadPoolExecutor_init_def)
  then have wf: "cv_wf s" by (rule exec_wf [OF assms(1)])
  have n: "cv_step VNotifyAll s = Some ?s" by simp
  have wf1: "cv_wf ?s" by (rule step_wf [OF n wf])
  have w: "cv_stopped ?s" "cp_workers ?s = cp_workers s"
    using assms(2) by (simp_all add: cv_stopped_def cv_notify_all_def notify_timer_def notify_workers_def)
  have gap: "gap_ok ?G ?g ?s"
  proof -
    have "\<not> in_wait CvBlocked i ?s" for i using wake_eq by (simp add: in_wait_def cv_notify_all_def notify_timer_def notify_workers_def)
    moreover have "in_wait CvAbout i ?s \<Longrightarrow> in_wait CvAbout i s" for i
      using notify_in_wait(1) [of CvAbout i s] by (simp add: in_wait_def cv_notify_all_def notify_timer_def)
    moreover have "cp_timer ?s = TmAbout None \<or> cp_timer ?s = TmBlocked None \<Longrightarrow> ?g"
      by (cases "cp_timer s") (auto simp: cv_notify_all_def notify_timer_def notify_workers_def)
    ultimately show ?thesis unfolding gap_ok_def by blast
  qed
  note r = stopped_exec [OF assms(3) w(1) wf1 gap]
  have "length (filter own_step ls') \<le> 5 * length (cp_workers s) + 6" using r rank_bound [of ?s] w(2) by simp
  moreover have "\<forall>i. in_wait CvBlocked i s' \<longrightarrow> in_wait CvAbout i s" "cp_timer s' = TmBlocked None \<longrightarrow> ?g"
    using r by (auto simp: gap_ok_def)
  moreover have prog: "ThreadPoolExecutor_destroy_returns s' \<or> (\<exists>l. own_step l \<and> cv_step l s' \<noteq> None) \<or>
      (\<forall>i < length (cp_workers s'). cp_workers s' ! i = WExited \<or> in_wait CvBlocked i s') \<and>
      (th_timer_exited (cp_pool s') \<or> cp_timer s' = TmBlocked None)"
    using shutdown_progress [of s'] r by blast
  moreover have "(ThreadPoolExecutor_destroy_returns s' \<or> (\<exists>l. own_step l \<and> cv_step l s' \<noteq> None)) \<and>
      (\<exists>ls'' s''. (\<forall>l \<in> set ls''. own_step l) \<and> cv_exec ls'' s' = Some s'' \<and> ThreadPoolExecutor_destroy_returns s'')"
    if none: "\<forall>i. \<not> in_wait CvAbout i s" "\<not> ?g"
  proof -
    have g: "gap_ok {} False s'" using r none by (auto simp: gap_ok_def)
    have "ThreadPoolExecutor_destroy_returns s' \<or> (\<exists>l. own_step l \<and> cv_step l s' \<noteq> None)"
      using prog g by (auto simp: gap_ok_def ThreadPoolExecutor_destroy_returns_def in_set_conv_nth)
    then show ?thesis using shutdown_completes [of s'] r g by blast
  qed
  ultimately show ?thesis by blast
qed

text \<open>One worker, which is blocked when the pool is stopped, and a timer thread at its head.\<close>

theorem thread_pool_shutdown_witness:
  "\<exists>s ls'' s''. cv_exec [VHead 0, VCheck 0, VBlock 0, VStopSet, VNotifyAll] (cv_pool_init 1) = Some s \<and> th_stopping (cp_pool s) \<and>
     cv_exec ls'' (cv_notify_all s) = Some s'' \<and> ThreadPoolExecutor_destroy_returns s''"
proof -
  obtain s where s: "cv_exec [VHead 0, VCheck 0, VBlock 0, VStopSet, VNotifyAll] (cv_pool_init 1) = Some s"
    and st: "th_stopping (cp_pool s)" "cp_wait s = [CvReady]" "cp_timer s = TmAtHead" "length (cp_workers s) = 1"
    by (simp add: cv_pool_init_def ThreadPoolExecutor_init_def Cv_defs Pool_defs in_wait_def queue_locked_def)
  have none: "(\<forall>i. \<not> in_wait CvAbout i s) \<and> cp_timer s \<noteq> TmAbout None" using st by (auto simp: in_wait_def less_Suc_eq)
  have "cv_exec [] (cv_notify_all s) = Some (cv_notify_all s)" by simp
  from thread_pool_shutdown [OF s st(1) this] none s st(1) show ?thesis by blast
qed

text \<open>
  The gap is real: if the flag and both notifications of the destructor come between the check and the blocking, the worker
  blocks for good, and once the timer thread has left no step of the pool remains.
\<close>

lemma stop_misses_worker:
  "\<exists>s. cv_exec [VHead 0, VCheck 0, VStopSet, VNotifyAll, VNotifyAll, VBlock 0, VTimer 0] (cv_pool_init 1) = Some s \<and>
     in_wait CvBlocked 0 s \<and> \<not> ThreadPoolExecutor_destroy_returns s \<and> (\<forall>l. own_step l \<longrightarrow> cv_step l s = None)"
proof -
  obtain s where s: "cv_exec [VHead 0, VCheck 0, VStopSet, VNotifyAll, VNotifyAll, VBlock 0, VTimer 0] (cv_pool_init 1) = Some s"
    "cp_workers s = [WWait]" "cp_wait s = [CvBlocked]" "th_timer_exited (cp_pool s)" "th_timer_hand (cp_pool s) = None"
    by (simp add: cv_pool_init_def ThreadPoolExecutor_init_def Cv_defs Pool_defs in_wait_def queue_locked_def)
  have "cv_step l s = None" if "own_step l" for l
    using that s(2-) by (cases l) (auto simp: Cv_defs Pool_defs in_wait_def nth_Cons' split: option.splits)
  with s show ?thesis by (intro exI [of _ s]) (auto simp: in_wait_def ThreadPoolExecutor_destroy_returns_def)
qed

subsection \<open>Running again\<close>

fun thread_label :: "pool_label \<Rightarrow> bool" where
  "thread_label (PHead _) = True"
| "thread_label (PTake _) = True"
| "thread_label (PDone _) = True"
| "thread_label (PTimerPop _) = True"
| "thread_label PTimerSchedule = True"
| "thread_label _ = False"

text \<open>
  \<open>Run\<close> clears the stop flag, but workers that have left do not come back: what is scheduled
  afterwards is never run and \<open>Run\<close> waits.
\<close>

lemma run_after_stop_has_no_workers:
  "\<exists>s. pool_exec [PStop, PHead 0, PTimerPop 0, PRun, PSchedule 7] (ThreadPoolExecutor_init 1) = Some s \<and>
     th_workers s = [WExited] \<and> th_work_queue s = [Coro 7] \<and> \<not> ThreadPoolExecutor_Run_returns s \<and>
     (\<forall>l. thread_label l \<longrightarrow> pool_step l s = None)"
proof -
  obtain s where s: "pool_exec [PStop, PHead 0, PTimerPop 0, PRun, PSchedule 7] (ThreadPoolExecutor_init 1) = Some s"
    "th_workers s = [WExited]" "th_work_queue s = [Coro 7]" "\<not> th_stopping s" "th_timer_exited s" "th_timer_hand s = None"
    by (simp add: Pool_defs ThreadPoolExecutor_init_def)
  have "pool_step l s = None" if "thread_label l" for l
    using that s(2-) by (cases l) (simp_all add: Pool_defs nth_Cons')
  with s show ?thesis by (intro exI [of _ s]) (simp add: ThreadPoolExecutor_Run_returns_def)
qed

end
