(* ===== verification/Exec_Bridge.thy ===== *)
theory Exec_Bridge
  imports Combinators Libuv
begin

text \<open>
  The adapters of \<open>execution/\<close> between hotcoco and std::execution: \<open>as_awaitable.hpp\<close> (a sender is
  awaited by a coroutine), \<open>sender.hpp\<close> (a task becomes a sender) and \<open>scheduler.hpp\<close> (an executor
  becomes a scheduler).  The sender library is outside the sources: a sender and what connecting
  it gives are parameters, and a completion is one of the three calls it makes on a receiver.
\<close>

datatype 'v completion = SetValue 'v | SetStopped | SetError

subsection \<open>Awaiting a sender\<close>

record 'v AwaitableState =
  aw_result :: "'v option"
  aw_continuation :: handle
  aw_stopped :: bool

record AwaitableState_void =
  awv_continuation :: handle
  awv_completed :: bool
  awv_stopped :: bool

text \<open>The receiver's functions return the handles they resume; \<open>set_error\<close> aborts, \<open>None\<close>.\<close>

definition BridgeReceiver_set_value :: "'v \<Rightarrow> 'v AwaitableState \<Rightarrow> 'v AwaitableState \<times> handle list" where
  "BridgeReceiver_set_value val st = (st\<lparr>aw_result := Some val\<rparr>, [aw_continuation st])"

definition BridgeReceiver_set_stopped :: "'v AwaitableState \<Rightarrow> 'v AwaitableState \<times> handle list" where
  "BridgeReceiver_set_stopped st = (st\<lparr>aw_stopped := True\<rparr>, [aw_continuation st])"

fun BridgeReceiver_complete ::
  "'v completion \<Rightarrow> 'v AwaitableState \<Rightarrow> ('v AwaitableState \<times> handle list) option" where
  "BridgeReceiver_complete (SetValue v) st = Some (BridgeReceiver_set_value v st)"
| "BridgeReceiver_complete SetStopped st = Some (BridgeReceiver_set_stopped st)"
| "BridgeReceiver_complete SetError st = None"

fun BridgeReceiver_void_complete ::
  "unit completion \<Rightarrow> AwaitableState_void \<Rightarrow> (AwaitableState_void \<times> handle list) option" where
  "BridgeReceiver_void_complete (SetValue _) st = Some (st\<lparr>awv_completed := True\<rparr>, [awv_continuation st])"
| "BridgeReceiver_void_complete SetStopped st = Some (st\<lparr>awv_stopped := True\<rparr>, [awv_continuation st])"
| "BridgeReceiver_void_complete SetError st = None"

text \<open>
  \<open>sa_sender\<close> is \<open>None\<close> once it was moved from; \<open>sa_op\<close> is the object that lives in the union.
\<close>

record ('s, 'o, 'v) SenderAwaitable =
  sa_sender :: "'s option"
  sa_state :: "'v AwaitableState"
  sa_op :: "'o option"
  sa_has_op :: bool

definition AsAwaitable :: "'s \<Rightarrow> ('s, 'o, 'v) SenderAwaitable" where
  "AsAwaitable sender =
    \<lparr>sa_sender = Some sender, sa_state = \<lparr>aw_result = None, aw_continuation = null_handle, aw_stopped = False\<rparr>,
     sa_op = None, sa_has_op = False\<rparr>"

definition SenderAwaitable_await_ready :: "('s, 'o, 'v) SenderAwaitable \<Rightarrow> bool" where
  "SenderAwaitable_await_ready a \<longleftrightarrow> False"

text \<open>\<open>connect\<close> is the sender's; the awaitable returned is the one on which \<open>start(op_)\<close> is called.\<close>

definition SenderAwaitable_await_suspend ::
  "('s \<Rightarrow> 'o) \<Rightarrow> handle \<Rightarrow> ('s, 'o, 'v) SenderAwaitable \<Rightarrow> ('s, 'o, 'v) SenderAwaitable option" where
  "SenderAwaitable_await_suspend connect cont a =
    (let a = a\<lparr>sa_state := (sa_state a)\<lparr>aw_continuation := cont\<rparr>\<rparr>
     in case sa_sender a of
          None \<Rightarrow> None
        | Some s \<Rightarrow> Some (a\<lparr>sa_sender := None, sa_op := Some (connect s), sa_has_op := True\<rparr>))"

text \<open>\<open>None\<close>: the check fails, or the empty result is read.\<close>

definition SenderAwaitable_await_resume :: "('s, 'o, 'v) SenderAwaitable \<Rightarrow> 'v option" where
  "SenderAwaitable_await_resume a = (if aw_stopped (sa_state a) then None else aw_result (sa_state a))"

definition SenderAwaitable_void_await_resume :: "AwaitableState_void \<Rightarrow> unit option" where
  "SenderAwaitable_void_await_resume st = (if awv_stopped st then None else Some ())"

text \<open>The destructor: the operation states it destroys.\<close>

definition SenderAwaitable_destroy :: "('s, 'o, 'v) SenderAwaitable \<Rightarrow> 'o list" where
  "SenderAwaitable_destroy a = (if sa_has_op a then (case sa_op a of Some x \<Rightarrow> [x] | None \<Rightarrow> []) else [])"

lemmas SenderAwaitable_defs [op_defs] =
  BridgeReceiver_set_value_def BridgeReceiver_set_stopped_def AsAwaitable_def SenderAwaitable_await_suspend_def
  SenderAwaitable_await_resume_def SenderAwaitable_destroy_def

text \<open>The awaitable of a sender without a value is the general one, told only that it completed.\<close>

definition awaitable_void :: "unit AwaitableState \<Rightarrow> AwaitableState_void" where
  "awaitable_void st =
    \<lparr>awv_continuation = aw_continuation st, awv_completed = (aw_result st \<noteq> None), awv_stopped = aw_stopped st\<rparr>"

lemma awaitable_void_complete:
  "BridgeReceiver_void_complete c (awaitable_void st) =
    map_option (map_prod awaitable_void id) (BridgeReceiver_complete c st)"
  by (cases c) (simp_all add: awaitable_void_def SenderAwaitable_defs)

subsection \<open>A task as a sender\<close>

text \<open>
  Tasks are trees as in theory Combinators.  A member is \<open>None\<close> once it was moved from.
\<close>

record ('op, 'ans, 'v) TaskSender =
  tk_task :: "('op, 'ans, 'v) coro option"

record ('op, 'ans, 'v, 'rc) TaskSenderOperation =
  to_task :: "('op, 'ans, 'v) coro option"
  to_receiver :: "'rc option"

definition AsSender :: "('op, 'ans, 'v) coro \<Rightarrow> ('op, 'ans, 'v) TaskSender" where
  "AsSender task = \<lparr>tk_task = Some task\<rparr>"

definition TaskSender_connect ::
  "'rc \<Rightarrow> ('op, 'ans, 'v) TaskSender \<Rightarrow> ('op, 'ans, 'v, 'rc) TaskSenderOperation \<times> ('op, 'ans, 'v) TaskSender" where
  "TaskSender_connect rcvr this = (\<lparr>to_task = tk_task this, to_receiver = Some rcvr\<rparr>, this\<lparr>tk_task := None\<rparr>)"

text \<open>
  \<open>run_bridge\<close>: what the eager coroutine does until it suspends or ends.  It runs the task; at an
  operation of the task it is suspended there; at the task's end it completes the receiver and its
  frame is destroyed, because it does not suspend finally.  \<open>set_value\<close> is the receiver's function
  on the state 'st behind it.  The result: the frame that is left, what was delivered, the state and
  the handles resumed.
\<close>

definition run_bridge ::
  "('rc \<Rightarrow> 'v \<Rightarrow> 'st \<Rightarrow> 'st \<times> handle list) \<Rightarrow> ('op, 'ans, 'v) coro \<Rightarrow> 'rc \<Rightarrow> 'st \<Rightarrow>
   (('op \<times> ('ans \<Rightarrow> ('op, 'ans, 'v) coro) \<times> 'rc) option) \<times> 'v list \<times> 'st \<times> handle list" where
  "run_bridge set_value t rcvr st =
    (case t of
       CoReturn result \<Rightarrow> (let (st', hs) = set_value rcvr result st in (None, [result], st', hs))
     | CoOp q k \<Rightarrow> (Some (q, k, rcvr), [], st, []))"

text \<open>
  The operation state and the bridge's frame are separate objects: \<open>bw_operation\<close> is \<open>None\<close> when
  the operation state was destroyed, \<open>bw_frame\<close> when the frame was, or does not exist yet.
\<close>

record ('op, 'ans, 'v, 'rc, 'st) bridge_world =
  bw_operation :: "('op, 'ans, 'v, 'rc) TaskSenderOperation option"
  bw_frame :: "('op \<times> ('ans \<Rightarrow> ('op, 'ans, 'v) coro) \<times> 'rc) option"
  bw_ops :: "'op list"
  bw_delivered :: "'v list"
  bw_state :: 'st
  bw_resumed :: "handle list"

text \<open>Install the outcome of running the bridge; an operation it suspends at is recorded.\<close>

definition bridge_runs ::
  "('rc \<Rightarrow> 'v \<Rightarrow> 'st \<Rightarrow> 'st \<times> handle list) \<Rightarrow> ('op, 'ans, 'v) coro \<Rightarrow> 'rc \<Rightarrow>
   ('op, 'ans, 'v, 'rc, 'st) bridge_world \<Rightarrow> ('op, 'ans, 'v, 'rc, 'st) bridge_world" where
  "bridge_runs set_value t rcvr w =
    (let (fr, vs, st, hs) = run_bridge set_value t rcvr (bw_state w)
     in w\<lparr>bw_frame := fr, bw_ops := bw_ops w @ (case fr of Some (q, _) \<Rightarrow> [q] | None \<Rightarrow> []),
          bw_delivered := bw_delivered w @ vs, bw_state := st, bw_resumed := bw_resumed w @ hs\<rparr>)"

text \<open>\<open>None\<close>: a task or receiver that was already moved from.\<close>

definition TaskSenderOperation_start ::
  "('rc \<Rightarrow> 'v \<Rightarrow> 'st \<Rightarrow> 'st \<times> handle list) \<Rightarrow>
   ('op, 'ans, 'v, 'rc, 'st) bridge_world \<Rightarrow> ('op, 'ans, 'v, 'rc, 'st) bridge_world option" where
  "TaskSenderOperation_start set_value w =
    (case bw_operation w of
       None \<Rightarrow> None
     | Some x \<Rightarrow>
         (case (to_task x, to_receiver x) of
            (Some t, Some r) \<Rightarrow>
              Some (bridge_runs set_value t r (w\<lparr>bw_operation := Some (x\<lparr>to_task := None, to_receiver := None\<rparr>)\<rparr>))
          | _ \<Rightarrow> None))"

text \<open>Afterwards: the awaited operation is answered, or the owner destroys the operation state.\<close>

datatype 'ans bridge_event = Answer 'ans | DropOperation

fun bridge_step ::
  "('rc \<Rightarrow> 'v \<Rightarrow> 'st \<Rightarrow> 'st \<times> handle list) \<Rightarrow> 'ans bridge_event \<Rightarrow>
   ('op, 'ans, 'v, 'rc, 'st) bridge_world \<Rightarrow> ('op, 'ans, 'v, 'rc, 'st) bridge_world option" where
  "bridge_step set_value (Answer r) w =
     (case bw_frame w of None \<Rightarrow> None | Some (q, k, rcvr) \<Rightarrow> Some (bridge_runs set_value (k r) rcvr w))"
| "bridge_step set_value DropOperation w =
     (case bw_operation w of None \<Rightarrow> None | Some _ \<Rightarrow> Some (w\<lparr>bw_operation := None\<rparr>))"

fun bridge_exec ::
  "('rc \<Rightarrow> 'v \<Rightarrow> 'st \<Rightarrow> 'st \<times> handle list) \<Rightarrow> 'ans bridge_event list \<Rightarrow>
   ('op, 'ans, 'v, 'rc, 'st) bridge_world \<Rightarrow> ('op, 'ans, 'v, 'rc, 'st) bridge_world option" where
  "bridge_exec set_value [] w = Some w"
| "bridge_exec set_value (e # es) w =
     (case bridge_step set_value e w of None \<Rightarrow> None | Some w' \<Rightarrow> bridge_exec set_value es w')"

definition bridge_start :: "('op, 'ans, 'v, 'rc) TaskSenderOperation \<Rightarrow> 'st \<Rightarrow> ('op, 'ans, 'v, 'rc, 'st) bridge_world" where
  "bridge_start x st =
    \<lparr>bw_operation = Some x, bw_frame = None, bw_ops = [], bw_delivered = [], bw_state = st, bw_resumed = []\<rparr>"

fun answers :: "'ans bridge_event list \<Rightarrow> 'ans list" where
  "answers [] = []"
| "answers (Answer r # es) = r # answers es"
| "answers (DropOperation # es) = answers es"

text \<open>After the end of the bridge only the operation state can change.\<close>

lemma bridge_ended:
  "bridge_exec sv es w = Some w' \<Longrightarrow> bw_frame w = None \<Longrightarrow>
   answers es = [] \<and> bw_frame w' = None \<and> bw_ops w' = bw_ops w \<and> bw_delivered w' = bw_delivered w \<and>
   bw_state w' = bw_state w \<and> bw_resumed w' = bw_resumed w"
proof (induction es arbitrary: w)
  case (Cons e es)
  then obtain w1 where 1: "bridge_step sv e w = Some w1" "bridge_exec sv es w1 = Some w'"
    by (auto split: option.splits)
  show ?case
  proof (cases e)
    case DropOperation
    with 1(1) have "w1 = w\<lparr>bw_operation := None\<rparr>" by (auto split: option.splits)
    with Cons.IH [OF 1(2)] Cons.prems(2) DropOperation show ?thesis by simp
  qed (use 1(1) Cons.prems(2) in auto)
qed simp

definition bridge_outcome ::
  "('rc \<Rightarrow> 'v \<Rightarrow> 'st \<Rightarrow> 'st \<times> handle list) \<Rightarrow> 'rc \<Rightarrow> 'op list \<times> 'v option \<Rightarrow>
   ('op, 'ans, 'v, 'rc, 'st) bridge_world \<Rightarrow> ('op, 'ans, 'v, 'rc, 'st) bridge_world \<Rightarrow> bool" where
  "bridge_outcome sv rc res w w' \<longleftrightarrow>
     bw_ops w' = bw_ops w @ fst res \<and>
     (case snd res of
        None \<Rightarrow> bw_frame w' \<noteq> None \<and> bw_delivered w' = bw_delivered w \<and> bw_state w' = bw_state w \<and> bw_resumed w' = bw_resumed w
      | Some v \<Rightarrow> bw_frame w' = None \<and> bw_delivered w' = bw_delivered w @ [v] \<and>
          bw_state w' = fst (sv rc v (bw_state w)) \<and> bw_resumed w' = bw_resumed w @ snd (sv rc v (bw_state w)))"

lemma bridge_exec_outcome:
  "bridge_exec sv es (bridge_runs sv t rc w) = Some w' \<Longrightarrow> bridge_outcome sv rc (coro_feed t (answers es)) w w'"
proof (induction es arbitrary: t w)
  case Nil
  then show ?case
    by (cases t) (auto simp: bridge_outcome_def bridge_runs_def run_bridge_def split: prod.splits)
next
  case (Cons e es)
  show ?case
  proof (cases t)
    case (CoReturn v)
    have "bw_frame (bridge_runs sv t rc w) = None"
      using CoReturn by (simp add: bridge_runs_def run_bridge_def split: prod.splits)
    from bridge_ended [OF Cons.prems this] CoReturn show ?thesis
      by (auto simp: bridge_outcome_def bridge_runs_def run_bridge_def split: prod.splits)
  next
    case (CoOp q k)
    show ?thesis
    proof (cases e)
      case (Answer r)
      with Cons.prems CoOp have "bridge_exec sv es (bridge_runs sv (k r) rc (w\<lparr>bw_frame := Some (q, k, rc), bw_ops := bw_ops w @ [q]\<rparr>)) = Some w'"
        by (simp add: bridge_runs_def run_bridge_def)
      from Cons.IH [OF this] CoOp Answer show ?thesis
        by (auto simp: bridge_outcome_def split: prod.splits option.splits)
    next
      case DropOperation
      with Cons.prems CoOp have "bridge_exec sv es (bridge_runs sv t rc (w\<lparr>bw_operation := None\<rparr>)) = Some w'"
        by (cases w) (auto simp: bridge_runs_def run_bridge_def split: option.splits)
      from Cons.IH [OF this] DropOperation show ?thesis by (simp add: bridge_outcome_def split: option.splits)
    qed
  qed
qed

text \<open>An answer is accepted as long as the bridge waits, whether the operation state exists or not.\<close>

lemma bridge_accepts_answer: "bw_frame w \<noteq> None \<Longrightarrow> bridge_step sv (Answer r) w \<noteq> None"
  by auto

lemma answers_map [simp]: "answers (map Answer rs) = rs"
  by (induction rs) simp_all

lemma bridge_exec_env:
  "\<exists>w'. bridge_exec sv (map Answer (env_answers env t past)) (bridge_runs sv t rc w) = Some w'"
proof (induction t arbitrary: past w)
  case (CoOp q k)
  have "\<exists>w'. bridge_exec sv (map Answer (env_answers env (k (env past q)) (q # past)))
      (bridge_runs sv (k (env past q)) rc (bridge_runs sv (CoOp q k) rc w)) = Some w'"
    by (rule CoOp.IH) simp
  then show ?case by (simp add: bridge_runs_def run_bridge_def)
qed simp

text \<open>
  Whatever happens after the start, in any order: the receiver is completed at most once, exactly
  when the task has ended and with its value, and then the bridge is gone; until then the bridge
  waits at the task's operation.  Destroying the operation state meanwhile changes nothing.
\<close>

theorem sender_delivers_once:
  assumes "TaskSenderOperation_start sv (bridge_start (fst (TaskSender_connect rc (AsSender task))) st) = Some w"
    and "bridge_exec sv es w = Some w'"
  shows "bw_ops w' = fst (coro_feed task (answers es)) \<and>
    (case snd (coro_feed task (answers es)) of
       None \<Rightarrow> bw_frame w' \<noteq> None \<and> bw_delivered w' = [] \<and> bw_resumed w' = [] \<and> bw_state w' = st
     | Some v \<Rightarrow> bw_frame w' = None \<and> bw_delivered w' = [v] \<and> (bw_state w', bw_resumed w') = sv rc v st)"
proof -
  let ?w0 = "bridge_start \<lparr>to_task = None, to_receiver = None\<rparr> st"
  have "w = bridge_runs sv task rc ?w0"
    using assms(1) by (simp add: TaskSenderOperation_start_def bridge_start_def TaskSender_connect_def AsSender_def)
  with bridge_exec_outcome [of sv es task rc ?w0 w'] assms(2) show ?thesis
    by (auto simp: bridge_outcome_def bridge_start_def split: option.splits)
qed

text \<open>
  Property C23 (a task through the bridge and back).  A coroutine \<open>h\<close> that awaits
  \<open>AsAwaitable(AsSender(task))\<close> performs, whatever the environment answers, exactly the operations
  of the task in their order; it is resumed exactly once, after the last of them; \<open>await_resume\<close>
  passes its check and gives the task's value; and the awaitable's destructor destroys the one
  operation state that was made.
\<close>

theorem sender_round_trip:
  "\<exists>a x w w'.
     SenderAwaitable_await_suspend (fst \<circ> TaskSender_connect ()) h (AsAwaitable (AsSender task)) = Some a \<and>
     sa_op a = Some x \<and> TaskSenderOperation_start (\<lambda>_. BridgeReceiver_set_value) (bridge_start x (sa_state a)) = Some w \<and>
     bridge_exec (\<lambda>_. BridgeReceiver_set_value) (map Answer (env_answers env task [])) w = Some w' \<and>
     rev (bw_ops w') = fst (coro_run env task []) \<and> bw_resumed w' = [h] \<and>
     SenderAwaitable_await_resume (a\<lparr>sa_state := bw_state w'\<rparr>) = Some (snd (coro_run env task [])) \<and>
     SenderAwaitable_destroy (a\<lparr>sa_state := bw_state w'\<rparr>) = [x]"
proof -
  let ?sv = "\<lambda>_ :: unit. BridgeReceiver_set_value"
  let ?x = "fst (TaskSender_connect () (AsSender task))"
  let ?st = "\<lparr>aw_result = None, aw_continuation = h, aw_stopped = False\<rparr>"
  let ?a = "\<lparr>sa_sender = None, sa_state = ?st, sa_op = Some ?x, sa_has_op = True\<rparr>"
  have a: "SenderAwaitable_await_suspend (fst \<circ> TaskSender_connect ()) h (AsAwaitable (AsSender task)) = Some ?a"
    by (simp add: SenderAwaitable_defs)
  obtain w where w: "TaskSenderOperation_start ?sv (bridge_start ?x ?st) = Some w"
    "w = bridge_runs ?sv task () (bridge_start \<lparr>to_task = None, to_receiver = None\<rparr> ?st)"
    by (simp add: TaskSenderOperation_start_def bridge_start_def TaskSender_connect_def AsSender_def)
  obtain w' where w': "bridge_exec ?sv (map Answer (env_answers env task [])) w = Some w'"
    unfolding w(2) by (rule exE [OF bridge_exec_env [of ?sv env task "[]" "()"]])
  obtain qs where qs: "coro_feed task (env_answers env task []) = (qs, Some (snd (coro_run env task [])))"
    "fst (coro_run env task []) = rev qs"
    using coro_feed_env [of env task "[]"] by (cases "coro_run env task []") auto
  from sender_delivers_once [OF w(1) w'] have "bw_ops w' = qs"
    "(bw_state w', bw_resumed w') = BridgeReceiver_set_value (snd (coro_run env task [])) ?st"
    by (simp_all add: qs(1))
  with a w(1) w' qs(2) show ?thesis
    by (intro exI [of _ ?a] exI [of _ ?x] exI [of _ w] exI [of _ w']) (simp add: SenderAwaitable_defs)
qed

text \<open>A sender that is stopped makes the awaiting coroutine abort, one that fails aborts at once.\<close>

lemma awaitable_stopped_aborts:
  "BridgeReceiver_complete SetStopped (sa_state a) = Some (st, hs) \<Longrightarrow>
   hs = [aw_continuation (sa_state a)] \<and> SenderAwaitable_await_resume (a\<lparr>sa_state := st\<rparr>) = None"
  "BridgeReceiver_complete SetError (sa_state a) = None"
  by (auto simp: SenderAwaitable_defs)

subsection \<open>An executor as a scheduler\<close>

text \<open>Executors are addresses, as in theory Executor.\<close>

record HotcocoScheduler =
  hs_executor :: uint64

record ScheduleSender =
  sd_executor :: uint64

record 'rc ScheduleOperation =
  so_executor :: uint64
  so_receiver :: "'rc option"

definition AsScheduler :: "uint64 \<Rightarrow> HotcocoScheduler" where
  "AsScheduler exec = \<lparr>hs_executor = exec\<rparr>"

definition HotcocoScheduler_schedule :: "HotcocoScheduler \<Rightarrow> ScheduleSender" where
  "HotcocoScheduler_schedule s = \<lparr>sd_executor = hs_executor s\<rparr>"

definition HotcocoScheduler_eq :: "HotcocoScheduler \<Rightarrow> HotcocoScheduler \<Rightarrow> bool" where
  "HotcocoScheduler_eq a b \<longleftrightarrow> hs_executor a = hs_executor b"

definition ScheduleSender_connect :: "'rc \<Rightarrow> ScheduleSender \<Rightarrow> 'rc ScheduleOperation" where
  "ScheduleSender_connect rcvr s = \<lparr>so_executor = sd_executor s, so_receiver = Some rcvr\<rparr>"

text \<open>
  The executors of the program are a store from addresses to their states, as in theory Executor.  \<open>start\<close> posts
  the callback numbered \<open>c\<close>, which refers to the operation, to the operation's executor; the callback completes
  the receiver, which it moves from.  \<open>unstoppable\<close> is the static test on the receiver's stop token,
  \<open>stop_requested\<close> what the token answers when the callback runs.  Theory Sched_Run has what this does on
  a running executor.
\<close>

definition ScheduleOperation_start ::
  "(exec_cmd \<Rightarrow> 'x \<Rightarrow> 'x) \<Rightarrow> nat \<Rightarrow> 'rc ScheduleOperation \<Rightarrow> (uint64 \<Rightarrow> 'x) \<Rightarrow> uint64 \<Rightarrow> 'x" where
  "ScheduleOperation_start app c this execs =
    execs(so_executor this := app (DoPost c) (execs (so_executor this)))"

definition ScheduleOperation_callback ::
  "bool \<Rightarrow> bool \<Rightarrow> 'rc ScheduleOperation \<Rightarrow> ('rc ScheduleOperation \<times> 'rc \<times> unit completion) option" where
  "ScheduleOperation_callback unstoppable stop_requested this =
    (case so_receiver this of
       None \<Rightarrow> None
     | Some r \<Rightarrow>
         Some (this\<lparr>so_receiver := None\<rparr>, r,
               if unstoppable then SetValue () else if stop_requested then SetStopped else SetValue ()))"

end
