(* ===== verification/Sched_Run.thy ===== *)
theory Sched_Run
  imports Exec_Bridge Spawn_Run
begin

text \<open>
  Operations of \<open>execution/scheduler.hpp\<close> on a running libuv executor.  Programs connect receivers to
  \<open>AsScheduler(executor).schedule()\<close> and start the operations, from other threads or from the coroutines
  and callbacks that run on the loop; the executor runs the callbacks that \<open>start\<close> posted, and each completes its
  receiver.
\<close>

subsection \<open>Programs that start operations\<close>

text \<open>
  The numbers of callbacks stand for the closures that are posted.  \<open>receivers c\<close> is the receiver of the operation
  whose \<open>start\<close> posts callback \<open>c\<close>, if it is one, with whether the receiver's token is unstoppable; \<open>operation a receivers\<close>
  are the connected operations on the executor at address \<open>a\<close>.
\<close>

definition operation :: "uint64 \<Rightarrow> (nat \<Rightarrow> ('rc \<times> bool) option) \<Rightarrow> nat \<Rightarrow> ('rc ScheduleOperation \<times> bool) option" where
  "operation a receivers c =
    map_option (\<lambda>(r, unstoppable). (ScheduleSender_connect r (HotcocoScheduler_schedule (AsScheduler a)), unstoppable))
      (receivers c)"

text \<open>What code does: any command on the executor, or the start of an operation.\<close>

datatype sched_cmd = OtherCmd exec_cmd | StartOp nat

text \<open>The calls on the executor at \<open>a\<close> that a command makes, in order.\<close>

fun sched_cmds :: "uint64 \<Rightarrow> (nat \<Rightarrow> ('rc \<times> bool) option) \<Rightarrow> sched_cmd \<Rightarrow> exec_cmd list" where
  "sched_cmds a receivers (OtherCmd c) = [c]"
| "sched_cmds a receivers (StartOp c) =
     (case operation a receivers c of
        None \<Rightarrow> []
      | Some (this, _) \<Rightarrow> ScheduleOperation_start (\<lambda>cmd cmds. cmds @ [cmd]) c this (\<lambda>_. []) a)"

fun start_id :: "sched_cmd \<Rightarrow> nat list" where
  "start_id (StartOp c) = [c]"
| "start_id (OtherCmd _) = []"

text \<open>
  Code other than \<open>start\<close> does not post the closures of operations, and only connected operations are started.
\<close>

fun own_closures :: "(nat \<Rightarrow> ('rc \<times> bool) option) \<Rightarrow> sched_cmd \<Rightarrow> bool" where
  "own_closures receivers (OtherCmd (DoPost c)) = (receivers c = None)"
| "own_closures receivers (OtherCmd _) = True"
| "own_closures receivers (StartOp c) = (receivers c \<noteq> None)"

text \<open>The commands of the code that a part of the log has run, in order, when \<open>past\<close> is the log before it.\<close>

fun log_cmds :: "(run_log \<Rightarrow> work \<Rightarrow> 'c list) \<Rightarrow> run_log \<Rightarrow> run_log \<Rightarrow> 'c list" where
  "log_cmds prog past [] = []"
| "log_cmds prog past ((src, x, b) # log) =
     (if b then prog past x else []) @ log_cmds prog (past @ [(src, x, b)]) log"

text \<open>The world: the executor, and everything that code has done so far.\<close>

record sched_world =
  sg_loop :: "LibuvExecutor loop_world"
  sg_issued :: "sched_cmd list"

definition sched_start :: sched_world where
  "sched_start = \<lparr>sg_loop = libuv_start, sg_issued = []\<rparr>"

definition sched_body ::
  "uint64 \<Rightarrow> (nat \<Rightarrow> ('rc \<times> bool) option) \<Rightarrow> (run_log \<Rightarrow> work \<Rightarrow> sched_cmd list) \<Rightarrow> run_log \<Rightarrow> work \<Rightarrow> exec_cmd list" where
  "sched_body a receivers prog log x = concat (map (sched_cmds a receivers) (prog log x))"

text \<open>Other threads do something, or libuv makes a callback.\<close>

datatype sched_event = SgCode "sched_cmd list" | SgLoop uv_event

fun sched_step ::
  "uint64 \<Rightarrow> (nat \<Rightarrow> ('rc \<times> bool) option) \<Rightarrow> (run_log \<Rightarrow> work \<Rightarrow> sched_cmd list) \<Rightarrow> (run_log \<Rightarrow> bool) \<Rightarrow>
   sched_event \<Rightarrow> sched_world \<Rightarrow> sched_world option" where
  "sched_step a receivers prog init_ok (SgCode cs) w =
     Some \<lparr>sg_loop = issue libuv_cmd (concat (map (sched_cmds a receivers) cs)) (sg_loop w), sg_issued = sg_issued w @ cs\<rparr>"
| "sched_step a receivers prog init_ok (SgLoop e) w =
     (if loop_event e
      then map_option (\<lambda>l. \<lparr>sg_loop = l, sg_issued = sg_issued w @
               log_cmds prog (lw_log (sg_loop w)) (drop (length (lw_log (sg_loop w))) (lw_log l))\<rparr>)
             (libuv_step (sched_body a receivers prog) init_ok e (sg_loop w))
      else None)"

fun sched_exec ::
  "uint64 \<Rightarrow> (nat \<Rightarrow> ('rc \<times> bool) option) \<Rightarrow> (run_log \<Rightarrow> work \<Rightarrow> sched_cmd list) \<Rightarrow> (run_log \<Rightarrow> bool) \<Rightarrow>
   sched_event list \<Rightarrow> sched_world \<Rightarrow> sched_world option" where
  "sched_exec a receivers prog init_ok [] w = Some w"
| "sched_exec a receivers prog init_ok (e # es) w =
     Option.bind (sched_step a receivers prog init_ok e w) (sched_exec a receivers prog init_ok es)"

definition started :: "sched_world \<Rightarrow> nat list" where
  "started w = concat (map start_id (sg_issued w))"

text \<open>
  The completions along the executor's log, with the state of each operation: \<open>stopped past c\<close> is what the stop
  token of operation \<open>c\<close>'s receiver answers when the executor's log is \<open>past\<close>, whoever requested the stop.
\<close>

fun schedule_completions ::
  "(nat \<Rightarrow> ('rc ScheduleOperation \<times> bool) option) \<Rightarrow> (run_log \<Rightarrow> nat \<Rightarrow> bool) \<Rightarrow> run_log \<Rightarrow> run_log \<Rightarrow>
   (nat \<times> 'rc \<times> unit completion) list" where
  "schedule_completions ops stopped past [] = []"
| "schedule_completions ops stopped past ((FromQueue, Call c, True) # log) =
     (let past' = past @ [(FromQueue, Call c, True)] in
      case ops c of
        None \<Rightarrow> schedule_completions ops stopped past' log
      | Some (this, unstoppable) \<Rightarrow>
          (case ScheduleOperation_callback unstoppable (stopped past c) this of
             None \<Rightarrow> schedule_completions ops stopped past' log
           | Some (this, r, sig) \<Rightarrow>
               (c, r, sig) # schedule_completions (ops(c \<mapsto> (this, unstoppable))) stopped past' log))"
| "schedule_completions ops stopped past (e # log) = schedule_completions ops stopped (past @ [e]) log"

definition completed ::
  "uint64 \<Rightarrow> (nat \<Rightarrow> ('rc \<times> bool) option) \<Rightarrow> (run_log \<Rightarrow> nat \<Rightarrow> bool) \<Rightarrow> sched_world \<Rightarrow> (nat \<times> 'rc \<times> unit completion) list" where
  "completed a receivers stopped w = schedule_completions (operation a receivers) stopped [] (lw_log (sg_loop w))"

subsection \<open>The commands behind the log\<close>

definition follows :: "(run_log \<Rightarrow> work \<Rightarrow> exec_cmd list) \<Rightarrow> 's loop_world \<Rightarrow> 's loop_world \<Rightarrow> bool" where
  "follows body w w' \<longleftrightarrow>
    (\<exists>l. lw_log w' = lw_log w @ l \<and> lw_cmds w' = lw_cmds w @ log_cmds body (lw_log w) l)"

lemma log_cmds_append: "log_cmds prog past (l @ l') = log_cmds prog past l @ log_cmds prog (past @ l) l'"
  by (induction prog past l rule: log_cmds.induct) simp_all

lemma follows_refl [simp]: "lw_log w' = lw_log w \<Longrightarrow> lw_cmds w' = lw_cmds w \<Longrightarrow> follows body w w'"
  by (auto simp: follows_def intro: exI [of _ "[]"])

lemma follows_trans: "follows body w w1 \<Longrightarrow> follows body w1 w2 \<Longrightarrow> follows body w w2"
  by (auto simp: follows_def log_cmds_append)

lemma follows_state: "follows body w (w'\<lparr>lw_state := s\<rparr>) = follows body w w'" "follows body (w\<lparr>lw_state := s\<rparr>) w' = follows body w w'"
  by (simp_all add: follows_def)

lemma run_items_follows: "follows body w (run_items app body skip src xs w)"
proof (induction xs arbitrary: w)
  case (Cons x xs)
  let ?w = "if skip (lw_log w) x then w\<lparr>lw_log := lw_log w @ [(src, x, False)]\<rparr>
            else issue app (body (lw_log w) x) (w\<lparr>lw_log := lw_log w @ [(src, x, True)]\<rparr>)"
  have "follows body w ?w" by (auto simp: follows_def issue_def intro: exI [of _ "[(src, x, _)]"])
  from follows_trans [OF this Cons.IH] show ?case by (auto split: if_splits)
qed simp

lemma create_timers_follow: "follows body w (fold (libuv_create_timer body init_ok) ts w)"
proof (induction ts arbitrary: w)
  case (Cons t ts)
  have "follows body w (libuv_create_timer body init_ok t w)"
    by (simp add: libuv_create_timer_def run_items_follows follows_state del: run_items.simps)
  from follows_trans [OF this Cons.IH] show ?case by simp
qed simp

lemma step_follows:
  assumes "loop_event e" and "libuv_step body init_ok e w = Some w'"
  shows "follows body w w'"
proof (cases e)
  case UvIdle
  let ?s = "lw_state w"
  let ?w1 = "run_items libuv_cmd body skip_null FromQueue (map Coro (lu_ready_queue ?s)) (w\<lparr>lw_state := libuv_swap ?s\<rparr>)"
  let ?w2 = "run_items libuv_cmd body skip_null FromQueue (map Call (lu_callback_queue ?s)) ?w1"
  have "follows body w ?w1"
    using run_items_follows [of body "w\<lparr>lw_state := libuv_swap ?s\<rparr>"] by (simp add: follows_state)
  from follows_trans [OF follows_trans [OF this run_items_follows] create_timers_follow]
  have "follows body w (LibuvExecutor_ProcessReadyQueue body init_ok w)"
    by (simp add: LibuvExecutor_ProcessReadyQueue_def Let_def)
  with UvIdle assms(2) show ?thesis
    by (auto simp: LibuvExecutor_OnIdle_def Let_def follows_state split: if_splits)
next
  case (UvTimer i h)
  then show ?thesis
    using assms run_items_follows [of body "w\<lparr>lw_state := (lw_state w)\<lparr>lu_active := remove1 (i, h) (lu_active (lw_state w))\<rparr>\<rparr>"
        libuv_cmd skip_null FromTimer "[Coro h]"]
    by (auto simp: LibuvExecutor_OnTimer_def Let_def follows_state simp del: run_items.simps split: if_splits)
qed (use assms in \<open>auto split: if_splits\<close>)

lemma log_cmds_body: "log_cmds (sched_body a receivers prog) past l = concat (map (sched_cmds a receivers) (log_cmds prog past l))"
  by (induction prog past l rule: log_cmds.induct) (simp_all add: sched_body_def)

text \<open>Of a run: the executor's calls are those of everything the code has done.\<close>

definition sched_inv :: "uint64 \<Rightarrow> (nat \<Rightarrow> ('rc \<times> bool) option) \<Rightarrow> sched_world \<Rightarrow> bool" where
  "sched_inv a receivers w \<longleftrightarrow>
    libuv_inv (sg_loop w) \<and> lw_cmds (sg_loop w) = concat (map (sched_cmds a receivers) (sg_issued w))"

lemma sched_inv_start: "sched_inv a receivers sched_start"
  by (simp add: sched_inv_def sched_start_def libuv_inv_def libuv_start_def LibuvExecutor_init_def fifo_ok_def awake_ok_def
      has_work_def timers_ok_def)

lemma libuv_inv_step: "libuv_inv w \<Longrightarrow> libuv_step body init_ok e w = Some w' \<Longrightarrow> libuv_inv w'"
  using exec_libuv_inv [of w body init_ok "[e]" w'] by simp

lemma sched_inv_step:
  assumes inv: "sched_inv a receivers w" and step: "sched_step a receivers prog init_ok e w = Some w'"
  shows "sched_inv a receivers w'"
proof (cases e)
  case (SgCode cs)
  with inv step libuv_inv_step [of "sg_loop w" "\<lambda>_ _. []" "\<lambda>_. True" "UvExternal (concat (map (sched_cmds a receivers) cs))"]
  show ?thesis by (auto simp: sched_inv_def issue_def)
next
  case (SgLoop u)
  then obtain l where l: "loop_event u" "libuv_step (sched_body a receivers prog) init_ok u (sg_loop w) = Some l"
    and w': "w' = \<lparr>sg_loop = l, sg_issued = sg_issued w @
               log_cmds prog (lw_log (sg_loop w)) (drop (length (lw_log (sg_loop w))) (lw_log l))\<rparr>"
    using step by (auto split: if_splits)
  from step_follows [OF l] libuv_inv_step [OF _ l(2)] inv show ?thesis
    by (auto simp: w' sched_inv_def follows_def log_cmds_body)
qed

lemma sched_exec_inv: "sched_inv a receivers w \<Longrightarrow> sched_exec a receivers prog init_ok es w = Some w' \<Longrightarrow> sched_inv a receivers w'"
  by (induction es arbitrary: w) (auto simp: bind_eq_Some_conv dest: sched_inv_step)

lemma posted_starts:
  "\<forall>x \<in> set cs. own_closures receivers x \<Longrightarrow>
   filter (\<lambda>c. receivers c \<noteq> None) (concat (map posted_by (concat (map (sched_cmds a receivers) cs)))) = concat (map start_id cs)"
proof (induction cs)
  case (Cons x cs)
  have "filter (\<lambda>c. receivers c \<noteq> None) (concat (map posted_by (sched_cmds a receivers x))) = start_id x"
  proof (cases x)
    case (OtherCmd c)
    with Cons.prems show ?thesis by (cases c) auto
  next
    case (StartOp c)
    with Cons.prems show ?thesis
      by (auto simp: operation_def ScheduleOperation_start_def ScheduleSender_connect_def HotcocoScheduler_schedule_def
          AsScheduler_def)
  qed
  with Cons show ?case by simp
qed simp

subsection \<open>Completions\<close>

definition calls_run :: "run_log \<Rightarrow> bool" where
  "calls_run log \<longleftrightarrow> (\<forall>e \<in> set log. case e of (_, Call _, b) \<Rightarrow> b | _ \<Rightarrow> True)"

lemma calls_run_simps [simp]:
  "calls_run []" "calls_run (log @ log') \<longleftrightarrow> calls_run log \<and> calls_run log'"
  "calls_run ((src, Coro h, b) # log) \<longleftrightarrow> calls_run log" "calls_run ((src, Call c, b) # log) \<longleftrightarrow> b \<and> calls_run log"
  by (simp_all add: calls_run_def ball_Un)

lemma run_items_calls_run:
  "calls_run (lw_log w) \<Longrightarrow> calls_run (lw_log (run_items app body skip_null src xs w))"
proof (induction xs arbitrary: w)
  case (Cons x xs)
  then show ?case by (cases x) (simp_all add: issue_def skip_null_def)
qed simp

lemma fold_timers_calls_run:
  "calls_run (lw_log w) \<Longrightarrow> calls_run (lw_log (fold (libuv_create_timer body init_ok) ts w))"
proof (induction ts arbitrary: w)
  case (Cons t ts)
  have "calls_run (lw_log (libuv_create_timer body init_ok t w))"
    using Cons.prems run_items_calls_run [OF Cons.prems] by (simp add: libuv_create_timer_def del: run_items.simps)
  then show ?case by (simp add: Cons.IH)
qed simp

lemma libuv_step_calls_run:
  assumes "calls_run (lw_log w)" and "libuv_step body init_ok e w = Some w'"
  shows "calls_run (lw_log w')"
proof (cases e)
  case UvIdle
  have "calls_run (lw_log (LibuvExecutor_ProcessReadyQueue body init_ok w))"
    unfolding LibuvExecutor_ProcessReadyQueue_def Let_def
    using assms(1) by (intro fold_timers_calls_run run_items_calls_run) simp
  with UvIdle assms(2) show ?thesis by (auto simp: LibuvExecutor_OnIdle_def Let_def split: if_splits)
next
  case (UvTimer i h)
  with assms show ?thesis
    by (auto simp: LibuvExecutor_OnTimer_def Let_def intro!: run_items_calls_run simp del: run_items.simps split: if_splits)
qed (use assms in \<open>auto simp: issue_def split: if_splits\<close>)

lemma sched_exec_calls_run:
  "calls_run (lw_log (sg_loop w)) \<Longrightarrow> sched_exec a receivers prog init_ok es w = Some w' \<Longrightarrow> calls_run (lw_log (sg_loop w'))"
proof (induction es arbitrary: w)
  case (Cons e es)
  then obtain w1 where w1: "sched_step a receivers prog init_ok e w = Some w1" "sched_exec a receivers prog init_ok es w1 = Some w'"
    by (auto simp: bind_eq_Some_conv)
  have "calls_run (lw_log (sg_loop w1))"
    using w1(1) Cons.prems(1) libuv_step_calls_run
    by (cases e) (auto simp: issue_def split: if_splits)
  with Cons.IH w1(2) show ?case by blast
qed simp

text \<open>An operation whose receiver is still there.\<close>

definition pending_op :: "(nat \<Rightarrow> ('rc ScheduleOperation \<times> bool) option) \<Rightarrow> nat \<Rightarrow> bool" where
  "pending_op ops c \<longleftrightarrow> (case ops c of Some (x, _) \<Rightarrow> so_receiver x \<noteq> None | None \<Rightarrow> False)"

lemma pending_operation [simp]: "pending_op (operation a receivers) c \<longleftrightarrow> receivers c \<noteq> None"
  by (auto simp: pending_op_def operation_def ScheduleSender_connect_def split: option.split)

lemma pending_upd [simp]:
  "pending_op (ops(c \<mapsto> (this\<lparr>so_receiver := None\<rparr>, u))) d \<longleftrightarrow> d \<noteq> c \<and> pending_op ops d"
  by (simp add: pending_op_def)

text \<open>One entry of the log: a completion of a pending operation, or nothing.\<close>

lemma completions_Cons:
  assumes "calls_run (e # log)"
  shows "schedule_completions ops stopped past (e # log) =
    (case queued_call e of
       [] \<Rightarrow> schedule_completions ops stopped (past @ [e]) log
     | c # _ \<Rightarrow>
         if pending_op ops c
         then (case ops c of Some (this, u) \<Rightarrow>
           (c, the (so_receiver this), if \<not> u \<and> stopped past c then SetStopped else SetValue ()) #
           schedule_completions (ops(c \<mapsto> (this\<lparr>so_receiver := None\<rparr>, u))) stopped (past @ [e]) log)
         else schedule_completions ops stopped (past @ [e]) log)"
proof -
  obtain src x b where e: "e = (src, x, b)" by (cases e)
  show ?thesis
  proof (cases "src = FromQueue \<and> (\<exists>c. x = Call c)")
    case True
    with e assms show ?thesis
      by (auto simp: pending_op_def ScheduleOperation_callback_def Let_def split: option.splits)
  next
    case False
    with e show ?thesis by (cases src; cases x; cases b; simp)
  qed
qed

lemma completions_in_order:
  "calls_run log \<Longrightarrow> distinct (filter (pending_op ops) (concat (map queued_call log))) \<Longrightarrow>
   map fst (schedule_completions ops stopped past log) = filter (pending_op ops) (concat (map queued_call log))"
proof (induction log arbitrary: ops past)
  case (Cons e log)
  have log: "calls_run log" using Cons.prems(1) by (simp add: calls_run_def)
  show ?case
  proof (cases "queued_call e")
    case Nil
    then show ?thesis using Cons.IH [OF log] Cons.prems by (simp add: completions_Cons)
  next
    case (Cons c cs)
    then have q: "queued_call e = [c]" by (cases e rule: queued_call.cases) simp_all
    show ?thesis
    proof (cases "pending_op ops c")
      case True
      then obtain this u where ops: "ops c = Some (this, u)" by (auto simp: pending_op_def split: option.splits)
      define ops' where "ops' = ops(c \<mapsto> (this\<lparr>so_receiver := None\<rparr>, u))"
      have pend: "pending_op ops' d \<longleftrightarrow> d \<noteq> c \<and> pending_op ops d" for d by (simp add: ops'_def)
      have "c \<notin> set (filter (pending_op ops) (concat (map queued_call log)))"
        using Cons.prems(2) True by (simp add: q)
      then have "filter (pending_op ops') (concat (map queued_call log)) = filter (pending_op ops) (concat (map queued_call log))"
        using True by (intro filter_cong) (auto simp: pend)
      with Cons.IH [OF log, of ops' "past @ [e]"] Cons.prems True show ?thesis
        by (simp add: completions_Cons q ops ops'_def [symmetric])
    next
      case False
      then show ?thesis using Cons.IH [OF log] Cons.prems by (simp add: completions_Cons q)
    qed
  qed
qed simp

lemma queued_call_cases:
  assumes "calls_run (e # log)"
  obtains "queued_call e = []" | c where "e = (FromQueue, Call c, True)"
  using assms by (cases e rule: queued_call.cases) (auto simp: calls_run_def)

lemma completion_signals:
  "calls_run log \<Longrightarrow> (c, r, sig) \<in> set (schedule_completions ops stopped past log) \<Longrightarrow>
   \<exists>this u l l'. ops c = Some (this, u) \<and> so_receiver this = Some r \<and> log = l @ (FromQueue, Call c, True) # l' \<and>
     c \<notin> set (concat (map queued_call l)) \<and>
     sig = (if \<not> u \<and> stopped (past @ l) c then SetStopped else SetValue ())"
proof (induction log arbitrary: ops past)
  case (Cons e log)
  have log: "calls_run log" using Cons.prems(1) by (simp add: calls_run_def)
  have later: ?case
    if done': "(c, r, sig) \<in> set (schedule_completions ops' stopped (past @ [e]) log)"
      and same: "\<And>this u. ops' c = Some (this, u) \<Longrightarrow> so_receiver this = Some r \<Longrightarrow> ops c = Some (this, u) \<and> c \<notin> set (queued_call e)"
    for ops'
  proof -
    obtain this u l l' where x: "ops' c = Some (this, u)" "so_receiver this = Some r" "log = l @ (FromQueue, Call c, True) # l'"
      "c \<notin> set (concat (map queued_call l))" "sig = (if \<not> u \<and> stopped ((past @ [e]) @ l) c then SetStopped else SetValue ())"
      using Cons.IH [OF log done'] by blast
    with same [OF x(1,2)] show ?thesis
      by (intro exI [of _ this] exI [of _ u] exI [of _ "e # l"] exI [of _ l']) simp
  qed
  show ?case
  proof (cases rule: queued_call_cases [OF Cons.prems(1)])
    case 1
    then show ?thesis using Cons.prems by (intro later [of ops]) (simp_all add: completions_Cons)
  next
    case (2 d)
    show ?thesis
    proof (cases "pending_op ops d")
      case True
      then obtain this u where ops: "ops d = Some (this, u)" "so_receiver this \<noteq> None"
        by (auto simp: pending_op_def split: option.splits)
      show ?thesis
      proof (cases "(c, r, sig) \<in> set (schedule_completions (ops(d \<mapsto> (this\<lparr>so_receiver := None\<rparr>, u))) stopped (past @ [e]) log)")
        case tail: True
        show ?thesis by (rule later [OF tail]) (auto simp: 2 split: if_splits)
      next
        case False
        with Cons.prems(2) True ops show ?thesis
          unfolding completions_Cons [OF Cons.prems(1)]
          by (intro exI [of _ this] exI [of _ u] exI [of _ "[]"] exI [of _ log]) (auto simp: 2)
      qed
    next
      case False
      then have "(c, r, sig) \<in> set (schedule_completions ops stopped (past @ [e]) log)"
        using Cons.prems by (simp add: completions_Cons 2 del: schedule_completions.simps)
      then show ?thesis by (rule later) (use False in \<open>auto simp: 2 pending_op_def\<close>)
    qed
  qed
qed simp

lemma completion_happens:
  "calls_run log \<Longrightarrow> c \<in> set (concat (map queued_call log)) \<Longrightarrow> pending_op ops c \<Longrightarrow>
   c \<in> fst ` set (schedule_completions ops stopped past log)"
proof (induction log arbitrary: ops past)
  case (Cons e log)
  have log: "calls_run log" using Cons.prems(1) by (simp add: calls_run_def)
  show ?case
  proof (cases rule: queued_call_cases [OF Cons.prems(1)])
    case 1
    with Cons.prems Cons.IH [OF log] show ?thesis by (simp add: completions_Cons)
  next
    case (2 d)
    show ?thesis
    proof (cases "pending_op ops d")
      case True
      then obtain this u where ops: "ops d = Some (this, u)" by (auto simp: pending_op_def split: option.splits)
      define ops' where "ops' = ops(d \<mapsto> (this\<lparr>so_receiver := None\<rparr>, u))"
      have "pending_op ops' c" if "c \<noteq> d" using Cons.prems(3) that by (simp add: ops'_def)
      then show ?thesis
        unfolding completions_Cons [OF Cons.prems(1)]
        using True Cons.prems(2) Cons.IH [OF log, of ops' "past @ [e]"]
        by (cases "c = d") (auto simp: 2 ops ops'_def [symmetric])
    next
      case False
      then show ?thesis
        unfolding completions_Cons [OF Cons.prems(1)] using Cons.prems Cons.IH [OF log, of ops "past @ [e]"] by (auto simp: 2)
    qed
  qed
qed simp

subsection \<open>The loop processes what is queued\<close>

lemma run_items_logs: "x \<in> set xs \<Longrightarrow> src = FromQueue \<Longrightarrow> x = Call c \<Longrightarrow>
  c \<in> set (concat (map queued_call (lw_log (run_items app body skip src xs w))))"
proof (induction xs arbitrary: w)
  case (Cons y xs)
  have keep: "c \<in> set (concat (map queued_call (lw_log v))) \<Longrightarrow>
      c \<in> set (concat (map queued_call (lw_log (run_items app body skip src xs v))))" for v
    using run_items_follows [of body v app skip src xs] by (auto simp: follows_def)
  show ?case
  proof (cases "x = y")
    case True
    have "c \<in> set (concat (map queued_call (log @ [(src, y, b)])))" for log b using True Cons.prems(2,3) by auto
    then show ?thesis
      using keep [of "w\<lparr>lw_log := lw_log w @ [(src, y, False)]\<rparr>"]
        keep [of "issue app (body (lw_log w) y) (w\<lparr>lw_log := lw_log w @ [(src, y, True)]\<rparr>)"]
      by (simp add: issue_def)
  next
    case False
    then show ?thesis using Cons by (simp add: issue_def)
  qed
qed simp

lemma idle_calls:
  assumes "c \<in> set (lu_callback_queue (lw_state w))"
  shows "c \<in> set (concat (map queued_call (lw_log (LibuvExecutor_OnIdle body init_ok w))))"
proof -
  let ?s = "lw_state w"
  let ?w1 = "run_items libuv_cmd body skip_null FromQueue (map Coro (lu_ready_queue ?s)) (w\<lparr>lw_state := libuv_swap ?s\<rparr>)"
  let ?w2 = "run_items libuv_cmd body skip_null FromQueue (map Call (lu_callback_queue ?s)) ?w1"
  have "c \<in> set (concat (map queued_call (lw_log ?w2)))"
    using assms by (intro run_items_logs [of "Call c"]) simp_all
  moreover have "follows body ?w2 (fold (libuv_create_timer body init_ok) (lu_timer_queue ?s) ?w2)"
    by (rule create_timers_follow)
  ultimately have "c \<in> set (concat (map queued_call (lw_log (LibuvExecutor_ProcessReadyQueue body init_ok w))))"
    by (auto simp: LibuvExecutor_ProcessReadyQueue_def Let_def follows_def)
  then show ?thesis by (simp add: LibuvExecutor_OnIdle_def Let_def)
qed

lemma sched_loop_exec:
  "libuv_exec (sched_body a receivers prog) init_ok es (sg_loop w) = Some l \<Longrightarrow> \<forall>e \<in> set es. loop_event e \<Longrightarrow>
   \<exists>w'. sched_exec a receivers prog init_ok (map SgLoop es) w = Some w' \<and> sg_loop w' = l"
proof (induction es arbitrary: w)
  case (Cons e es)
  then obtain l1 where l1: "libuv_step (sched_body a receivers prog) init_ok e (sg_loop w) = Some l1"
    "libuv_exec (sched_body a receivers prog) init_ok es l1 = Some l" by (auto split: option.splits)
  let ?w1 = "\<lparr>sg_loop = l1, sg_issued = sg_issued w @
               log_cmds prog (lw_log (sg_loop w)) (drop (length (lw_log (sg_loop w))) (lw_log l1))\<rparr>"
  have "sched_step a receivers prog init_ok (SgLoop e) w = Some ?w1" using l1(1) Cons.prems(2) by simp
  with Cons.IH [of ?w1] l1(2) Cons.prems(2) show ?case by simp
qed simp

lemma calls_processed:
  assumes "awake_ok (lw_state w)"
  shows "\<exists>es w'. (\<forall>e \<in> set es. loop_event e) \<and> libuv_exec body init_ok es w = Some w' \<and>
    set (concat (map queued_call (lw_log w))) \<union> set (lu_callback_queue (lw_state w)) \<subseteq> set (concat (map queued_call (lw_log w')))"
proof (cases "lu_callback_queue (lw_state w) = []")
  case True
  then show ?thesis by (intro exI [of _ "[]"] exI [of _ w]) simp
next
  case False
  then have "has_work (lw_state w)" by (simp add: has_work_def)
  from idle_reached [OF assms this, of body init_ok] obtain es w1 where w1: "\<forall>e \<in> set es. loop_event e"
    "libuv_exec body init_ok es w = Some w1" "lw_log w1 = lw_log w" "lu_uv_idle (lw_state w1)"
    "lu_callback_queue (lw_state w1) = lu_callback_queue (lw_state w)" by blast
  let ?w2 = "LibuvExecutor_OnIdle body init_ok w1"
  have step: "libuv_step body init_ok UvIdle w1 = Some ?w2" using w1(4) by simp
  have "follows body w1 ?w2" using step_follows [OF _ step] by simp
  then have "set (concat (map queued_call (lw_log w1))) \<subseteq> set (concat (map queued_call (lw_log ?w2)))"
    by (auto simp: follows_def)
  moreover have "libuv_exec body init_ok (es @ [UvIdle]) w = Some ?w2" using w1 by (simp add: libuv_exec_append)
  ultimately show ?thesis
    using w1 idle_calls [of _ w1 body init_ok] by (intro exI [of _ "es @ [UvIdle]"] exI [of _ ?w2]) auto
qed

text \<open>A completion of an operation that was started once.\<close>

lemma completed_signal:
  assumes "calls_run (lw_log (sg_loop w))"
    and "distinct (filter (\<lambda>c. receivers c \<noteq> None) (concat (map queued_call (lw_log (sg_loop w)))))"
    and "(c, r, sig) \<in> set (completed a receivers stopped w)"
  shows "\<exists>unstoppable l l'. receivers c = Some (r, unstoppable) \<and> lw_log (sg_loop w) = l @ (FromQueue, Call c, True) # l' \<and>
    c \<notin> set (concat (map queued_call (l @ l'))) \<and> sig = (if \<not> unstoppable \<and> stopped l c then SetStopped else SetValue ())"
proof -
  from completion_signals [OF assms(1) assms(3) [unfolded completed_def]] obtain this u l l' where
    x: "operation a receivers c = Some (this, u)" "so_receiver this = Some r" "lw_log (sg_loop w) = l @ (FromQueue, Call c, True) # l'"
    "c \<notin> set (concat (map queued_call l))" "sig = (if \<not> u \<and> stopped l c then SetStopped else SetValue ())" by auto
  then have rc: "receivers c = Some (r, u)" by (auto simp: operation_def ScheduleSender_connect_def)
  with assms(2) x(3) have "c \<notin> set (concat (map queued_call l'))" by auto
  with x rc show ?thesis by (intro exI [of _ u] exI [of _ l] exI [of _ l']) simp
qed

text \<open>
  Property C28 (scheduling through std::execution).  Programs on any threads and on the loop start operations connected to
  the scheduler of a libuv executor, each at most once, among anything else they do on that executor.  In every run: the
  operations started are, in the order of their starts, those completed followed by those whose callback is
  queued, so each is completed at most once and in order; a completion goes to the operation's own receiver, at the
  one moment the executor runs its callback, and is stopped exactly if the receiver's token can be stopped and
  says so at that moment, and the value otherwise.  And from every moment the callbacks libuv owes are enough
  to complete all operations started so far.
\<close>

theorem scheduler_completes_in_order:
  assumes run: "sched_exec a receivers prog init_ok es sched_start = Some w"
    and own: "\<forall>x \<in> set (sg_issued w). own_closures receivers x" and once: "distinct (started w)"
  shows "started w = map fst (completed a receivers stopped w) @
      filter (\<lambda>c. receivers c \<noteq> None) (lu_callback_queue (lw_state (sg_loop w))) \<and>
    (\<forall>c r sig. (c, r, sig) \<in> set (completed a receivers stopped w) \<longrightarrow>
      (\<exists>unstoppable l l'. receivers c = Some (r, unstoppable) \<and> lw_log (sg_loop w) = l @ (FromQueue, Call c, True) # l' \<and>
         c \<notin> set (concat (map queued_call (l @ l'))) \<and>
         sig = (if \<not> unstoppable \<and> stopped l c then SetStopped else SetValue ()))) \<and>
    (\<exists>es' w'. (\<forall>e \<in> set es'. loop_event e) \<and> sched_exec a receivers prog init_ok (map SgLoop es') w = Some w' \<and>
       set (started w) \<subseteq> fst ` set (completed a receivers stopped w'))"
proof -
  let ?op = "\<lambda>c. receivers c \<noteq> None" and ?log = "lw_log (sg_loop w)"
  have inv: "sched_inv a receivers w" by (rule sched_exec_inv [OF sched_inv_start run])
  have runs: "calls_run ?log" by (rule sched_exec_calls_run [OF _ run]) (simp add: sched_start_def libuv_start_def)
  have "started w = filter ?op (concat (map posted_by (lw_cmds (sg_loop w))))"
    using posted_starts [OF own, of a] inv by (simp add: started_def sched_inv_def)
  moreover have fifo: "concat (map posted_by (lw_cmds (sg_loop w))) = concat (map queued_call ?log) @ lu_callback_queue (lw_state (sg_loop w))"
    using inv unfolding sched_inv_def libuv_inv_def fifo_ok_def by (elim conjE) simp
  ultimately have st: "started w = filter ?op (concat (map queued_call ?log)) @ filter ?op (lu_callback_queue (lw_state (sg_loop w)))"
    using fifo by simp
  have pend: "pending_op (operation a receivers) = ?op" by (intro ext) simp
  have calls: "distinct (filter ?op (concat (map queued_call ?log)))" using once st by simp
  then have order: "map fst (completed a receivers stopped w) = filter ?op (concat (map queued_call ?log))"
    using completions_in_order [OF runs, of "operation a receivers" stopped "[]"] by (simp add: completed_def pend)
  have "awake_ok (lw_state (sg_loop w))" using inv by (simp add: sched_inv_def libuv_inv_def)
  from calls_processed [OF this, of "sched_body a receivers prog" init_ok] obtain es' v where
    v: "\<forall>e \<in> set es'. loop_event e" "libuv_exec (sched_body a receivers prog) init_ok es' (sg_loop w) = Some v"
      "set (concat (map queued_call ?log)) \<union> set (lu_callback_queue (lw_state (sg_loop w))) \<subseteq> set (concat (map queued_call (lw_log v)))"
    by blast
  obtain w' where w': "sched_exec a receivers prog init_ok (map SgLoop es') w = Some w'" "sg_loop w' = v"
    using sched_loop_exec [OF v(2,1)] by blast
  have runs': "calls_run (lw_log v)" using sched_exec_calls_run [OF runs w'(1)] w'(2) by simp
  have "set (started w) \<subseteq> fst ` set (completed a receivers stopped w')"
  proof
    fix c assume "c \<in> set (started w)"
    then have "receivers c \<noteq> None" "c \<in> set (concat (map queued_call (lw_log v)))" using st v(3) by auto
    then show "c \<in> fst ` set (completed a receivers stopped w')"
      using completion_happens [OF runs', of c "operation a receivers" stopped "[]"] w'(2) by (simp add: completed_def)
  qed
  with st order completed_signal [OF runs calls, of _ _ _ a stopped] v(1) w'(1) show ?thesis by (intro conjI allI impI exI [of _ es'] exI [of _ w']) simp_all
qed

text \<open>
  Operations 7 and 9 are started by another thread around a callback of its own, 8, which starts operation 5;
  the token of 9 says stopped.
\<close>

theorem scheduler_completes_in_order_witness:
  "\<exists>w es' w'. let rcv = (\<lambda>c :: nat. if c = 8 then None else Some (c + 100, c = 7));
       prog = (\<lambda>_ x. if x = Call 8 then [StartOp 5] else []); stop = (\<lambda>_ c. c = 9) in
     sched_exec 1 rcv prog (\<lambda>_. True) [SgCode [StartOp 7, OtherCmd (DoPost 8), StartOp 9], SgLoop UvAsync, SgLoop UvIdle] sched_start = Some w \<and>
     completed 1 rcv stop w = [(7, 107, SetValue ()), (9, 109, SetStopped)] \<and> started w = [7, 9, 5] \<and>
     sched_exec 1 rcv prog (\<lambda>_. True) (map SgLoop es') w = Some w' \<and>
     {7, 9, 5} \<subseteq> fst ` set (completed 1 rcv stop w')"
proof -
  let ?r = "\<lambda>c :: nat. if c = 8 then None else Some (c + 100, c = 7)"
  let ?p = "\<lambda>(_ :: run_log) x. if x = Call 8 then [StartOp 5] else []"
  let ?s = "\<lambda>(_ :: run_log) c. c = (9 :: nat)"
  let ?es = "[SgCode [StartOp 7, OtherCmd (DoPost 8), StartOp 9], SgLoop UvAsync, SgLoop UvIdle]"
  have "map_option (\<lambda>w. (completed 1 ?r ?s w, sg_issued w)) (sched_exec 1 ?r ?p (\<lambda>_. True) ?es sched_start) =
      Some ([(7, 107, SetValue ()), (9, 109, SetStopped)], [StartOp 7, OtherCmd (DoPost 8), StartOp 9, StartOp 5])"
    by code_simp
  then obtain w where w: "sched_exec 1 ?r ?p (\<lambda>_. True) ?es sched_start = Some w"
    "completed 1 ?r ?s w = [(7, 107, SetValue ()), (9, 109, SetStopped)]"
    "sg_issued w = [StartOp 7, OtherCmd (DoPost 8), StartOp 9, StartOp 5]" by auto
  have st: "started w = [7, 9, 5]" by (simp add: started_def w(3))
  have own: "\<forall>x \<in> set (sg_issued w). own_closures ?r x" "distinct (started w)" by (simp_all add: w(3) st)
  from scheduler_completes_in_order [OF w(1) own, of ?s, THEN conjunct2, THEN conjunct2] obtain es' w' where
    "sched_exec 1 ?r ?p (\<lambda>_. True) (map SgLoop es') w = Some w'" "set (started w) \<subseteq> fst ` set (completed 1 ?r ?s w')"
    by blast
  with w st show ?thesis by (intro exI [of _ w] exI [of _ es'] exI [of _ w']) (simp add: Let_def)
qed

end
