(* ===== verification/Stop_Adapter.thy ===== *)
theory Stop_Adapter
  imports Cancel_Token
begin

text \<open>
  \<open>execution/stop_token_adapter.hpp\<close>: \<open>StopTokenBridge\<close> and \<open>FromStopToken\<close> (a \<open>std::stop_token\<close>
  drives a \<open>CancellationToken\<close>), \<open>CancellationLink\<close> and \<open>LinkCancellation\<close> (a \<open>CancellationToken\<close> drives
  a \<open>std::stop_source\<close>).  What the adapters use of \<open>std::stop_source\<close>, \<open>std::stop_token\<close> and
  \<open>std::stop_callback\<close> is modelled first.
\<close>

subsection \<open>Stop states of the standard library\<close>

text \<open>
  The state a stop source and its tokens share.  \<open>ps_sources\<close>: the number of stop sources;
  \<open>ps_callbacks\<close>: the stop callbacks that are registered.
\<close>

record 'k stop_state =
  ps_requested :: bool
  ps_sources :: nat
  ps_callbacks :: "'k list"

definition stop_state_init :: "'k stop_state" where
  "stop_state_init = \<lparr>ps_requested = False, ps_sources = 1, ps_callbacks = []\<rparr>"

definition stop_possible :: "'k stop_state \<Rightarrow> bool" where
  "stop_possible p \<longleftrightarrow> ps_requested p \<or> 0 < ps_sources p"

text \<open>The first request takes and calls the registered callbacks, others do nothing.\<close>

definition request_stop :: "'k stop_state \<Rightarrow> 'k list \<times> 'k stop_state" where
  "request_stop p = (if ps_requested p then ([], p) else (ps_callbacks p, p\<lparr>ps_requested := True, ps_callbacks := []\<rparr>))"

text \<open>
  The constructor of a stop callback: called at once if a stop was requested, otherwise registered
  if one is possible.  Its destructor takes it out.
\<close>

definition stop_callback_init :: "'k \<Rightarrow> 'k stop_state \<Rightarrow> 'k list \<times> 'k stop_state" where
  "stop_callback_init k p =
    (if ps_requested p then ([k], p)
     else if stop_possible p then ([], p\<lparr>ps_callbacks := ps_callbacks p @ [k]\<rparr>) else ([], p))"

definition stop_callback_destroy :: "'k \<Rightarrow> 'k stop_state \<Rightarrow> 'k stop_state" where
  "stop_callback_destroy k p = p\<lparr>ps_callbacks := remove1 k (ps_callbacks p)\<rparr>"

lemmas stop_defs [op_defs] =
  stop_state_init_def stop_possible_def request_stop_def stop_callback_init_def stop_callback_destroy_def

subsection \<open>\<open>StopTokenBridge\<close>\<close>

text \<open>The callbacks on a stop state: the bridge's lambda, or others.\<close>

datatype 'k stop_cb = BridgeCancel | OtherStop 'k

record 'c StopTokenBridge =
  sb_source :: "'c CancellationState option"
  sb_callback :: bool

text \<open>\<open>source_.Cancel()\<close> of the lambda; the second component: the cancellation callbacks called.\<close>

definition bridge_lambda :: "'c StopTokenBridge \<Rightarrow> 'c StopTokenBridge \<times> 'c list" where
  "bridge_lambda b = (let (called, src) = CancellationSource_Cancel (sb_source b) in (b\<lparr>sb_source := src\<rparr>, called))"

text \<open>Calling a list of stop callbacks: the bridge's cancels, others are not the adapter's.\<close>

fun run_stop_callbacks :: "'k stop_cb list \<Rightarrow> 'c StopTokenBridge \<Rightarrow> 'c StopTokenBridge \<times> 'c list" where
  "run_stop_callbacks [] b = (b, [])"
| "run_stop_callbacks (BridgeCancel # ks) b =
     (let (b, called) = bridge_lambda b; (b, called') = run_stop_callbacks ks b in (b, called @ called'))"
| "run_stop_callbacks (OtherStop k # ks) b = run_stop_callbacks ks b"

text \<open>
  The constructor, for a token of the stop state \<open>st\<close> (\<open>None\<close>: a token without state).
\<close>

definition StopTokenBridge_init ::
  "'k stop_cb stop_state option \<Rightarrow> 'c StopTokenBridge \<times> 'c list \<times> 'k stop_cb stop_state option" where
  "StopTokenBridge_init st =
    (let b = \<lparr>sb_source = CancellationSource_init, sb_callback = False\<rparr>
     in case st of
          None \<Rightarrow> (b, [], None)
        | Some p \<Rightarrow>
            if stop_possible p
            then (let b = b\<lparr>sb_callback := True\<rparr>; (ks, p') = stop_callback_init BridgeCancel p;
                      (b, called) = run_stop_callbacks ks b
                  in (b, called, Some p'))
            else (b, [], Some p))"

definition StopTokenBridge_GetToken :: "'c StopTokenBridge \<Rightarrow> 'c CancellationState option" where
  "StopTokenBridge_GetToken b = CancellationSource_GetToken (sb_source b)"

definition StopTokenBridge_destroy ::
  "'c StopTokenBridge \<Rightarrow> 'k stop_cb stop_state option \<Rightarrow> 'k stop_cb stop_state option" where
  "StopTokenBridge_destroy b st =
    (if sb_callback b then map_option (stop_callback_destroy BridgeCancel) st else st)"

text \<open>
  \<open>FromStopToken\<close>.  The handle's token shares its state with the bridge's source, so the token is
  read from there; the bridge lives as long as the handle.
\<close>

definition FromStopToken ::
  "'k stop_cb stop_state option \<Rightarrow> 'c StopTokenBridge \<times> 'c list \<times> 'k stop_cb stop_state option" where
  "FromStopToken st = StopTokenBridge_init st"

lemmas Bridge_defs [op_defs] =
  bridge_lambda_def StopTokenBridge_init_def StopTokenBridge_GetToken_def StopTokenBridge_destroy_def FromStopToken_def
  CancellationSource_init_def CancellationSource_GetToken_def CancellationSource_Cancel_def

subsection \<open>Programs over a bridge\<close>

text \<open>
  What can happen to a stop state that has one bridge: stop requests and the end of sources, other
  stop callbacks, registrations on the bridged token, and the end of the bridge.  \<open>bp_bridge\<close> keeps
  the cancellation state after the bridge is gone, since tokens share it; \<open>bp_alive\<close> tells.
\<close>

datatype ('k, 'c) adapter_op = RequestStop | CopySource | DropSource | AddStopCallback 'k | RemoveStopCallback 'k
  | TokenOnCancel 'c | TokenUnregister size_t | DropBridge

record ('k, 'c) bridge_program =
  bp_stop :: "'k stop_cb stop_state"
  bp_bridge :: "'c StopTokenBridge"
  bp_alive :: bool
  bp_called :: "'c list"

fun bridge_op :: "('k, 'c) adapter_op \<Rightarrow> ('k, 'c) bridge_program \<Rightarrow> ('k, 'c) bridge_program option" where
  "bridge_op RequestStop w =
     (if ps_sources (bp_stop w) = 0 then None
      else (let (ks, p) = request_stop (bp_stop w); (b, called) = run_stop_callbacks ks (bp_bridge w)
            in Some (w\<lparr>bp_stop := p, bp_bridge := b, bp_called := bp_called w @ called\<rparr>)))"
| "bridge_op CopySource w =
     (if ps_sources (bp_stop w) = 0 then None
      else Some (w\<lparr>bp_stop := (bp_stop w)\<lparr>ps_sources := Suc (ps_sources (bp_stop w))\<rparr>\<rparr>))"
| "bridge_op DropSource w =
     (if ps_sources (bp_stop w) = 0 then None
      else Some (w\<lparr>bp_stop := (bp_stop w)\<lparr>ps_sources := ps_sources (bp_stop w) - 1\<rparr>\<rparr>))"
| "bridge_op (AddStopCallback k) w = Some (w\<lparr>bp_stop := snd (stop_callback_init (OtherStop k) (bp_stop w))\<rparr>)"
| "bridge_op (RemoveStopCallback k) w = Some (w\<lparr>bp_stop := stop_callback_destroy (OtherStop k) (bp_stop w)\<rparr>)"
| "bridge_op (TokenOnCancel c) w =
     (let (h, called, t) = CancellationToken_OnCancel c (StopTokenBridge_GetToken (bp_bridge w))
      in Some (w\<lparr>bp_bridge := (bp_bridge w)\<lparr>sb_source := t\<rparr>, bp_called := bp_called w @ called\<rparr>))"
| "bridge_op (TokenUnregister h) w =
     Some (w\<lparr>bp_bridge := (bp_bridge w)
        \<lparr>sb_source := CancellationToken_Unregister h (StopTokenBridge_GetToken (bp_bridge w))\<rparr>\<rparr>)"
| "bridge_op DropBridge w =
     (if bp_alive w
      then Some (w\<lparr>bp_alive := False, bp_stop := the (StopTokenBridge_destroy (bp_bridge w) (Some (bp_stop w)))\<rparr>)
      else None)"

fun bridge_ops :: "('k, 'c) adapter_op list \<Rightarrow> ('k, 'c) bridge_program \<Rightarrow> ('k, 'c) bridge_program option" where
  "bridge_ops [] w = Some w"
| "bridge_ops (x # xs) w = (case bridge_op x w of None \<Rightarrow> None | Some w' \<Rightarrow> bridge_ops xs w')"

definition bridge_program_init :: "'k stop_cb stop_state \<Rightarrow> ('k, 'c) bridge_program" where
  "bridge_program_init p =
    (let (b, called, st) = FromStopToken (Some p)
     in \<lparr>bp_stop = the st, bp_bridge = b, bp_alive = True, bp_called = called\<rparr>)"

lemma Cancel_twice: "CancellationState_Cancel (snd (CancellationState_Cancel s)) = ([], snd (CancellationState_Cancel s))"
  by (simp add: CancellationState_defs)

lemma Cancel_cancelled: "cs_cancelled (snd (CancellationState_Cancel s))"
  by (simp add: CancellationState_defs)

lemma run_stop_callbacks_eq:
  "sb_source b = Some s \<Longrightarrow>
   run_stop_callbacks ks b =
     (if BridgeCancel \<in> set ks
      then (b\<lparr>sb_source := Some (snd (CancellationState_Cancel s))\<rparr>, fst (CancellationState_Cancel s)) else (b, []))"
proof (induction ks b arbitrary: s rule: run_stop_callbacks.induct)
  case (2 ks b)
  let ?b = "b\<lparr>sb_source := Some (snd (CancellationState_Cancel s))\<rparr>"
  have b: "bridge_lambda b = (?b, fst (CancellationState_Cancel s))"
    using "2.prems" by (simp add: bridge_lambda_def CancellationSource_Cancel_def split: prod.splits)
  have "run_stop_callbacks ks ?b = (?b, [])"
    using "2.IH" [of "(?b, fst (CancellationState_Cancel s))" ?b "fst (CancellationState_Cancel s)" "snd (CancellationState_Cancel s)"] b
    by (simp add: Cancel_twice)
  with b show ?case by simp
qed auto

definition adapter_inv :: "('k, 'c) bridge_program \<Rightarrow> bool" where
  "adapter_inv w \<longleftrightarrow>
     (\<exists>s. sb_source (bp_bridge w) = Some s \<and> (bp_alive w \<longrightarrow> cs_cancelled s = ps_requested (bp_stop w)) \<and>
        (cs_cancelled s \<longrightarrow> ps_requested (bp_stop w))) \<and>
     (bp_alive w \<and> \<not> ps_requested (bp_stop w) \<and> 0 < ps_sources (bp_stop w) \<longrightarrow> sb_callback (bp_bridge w)) \<and>
     count_list (ps_callbacks (bp_stop w)) BridgeCancel =
       (if bp_alive w \<and> \<not> ps_requested (bp_stop w) \<and> sb_callback (bp_bridge w) then 1 else 0)"

lemma count_list_remove1_other [simp]: "x \<noteq> y \<Longrightarrow> count_list (remove1 x xs) y = count_list xs y"
  by (induction xs) auto

lemma count_list_remove1_same [simp]: "count_list (remove1 x xs) x = count_list xs x - 1"
  by (induction xs) auto

lemma count_list_mem: "x \<in> set xs \<longleftrightarrow> count_list xs x \<noteq> 0"
  by (simp add: count_list_0_iff)

lemma adapter_inv_init:
  assumes "count_list (ps_callbacks p) BridgeCancel = 0"
  shows "adapter_inv (bridge_program_init p)"
  using assms
  by (cases "ps_requested p"; cases "0 < ps_sources p")
    (simp_all add: bridge_program_init_def Bridge_defs stop_defs adapter_inv_def CancellationState_defs)

lemma request_stop_inv:
  assumes inv: "adapter_inv w" and step: "bridge_op RequestStop w = Some w'"
  shows "adapter_inv w'"
proof (cases "ps_requested (bp_stop w)")
  case True
  with step have "w' = w" by (auto simp: request_stop_def split: if_splits)
  with inv show ?thesis by simp
next
  case False
  obtain s where s: "sb_source (bp_bridge w) = Some s" using inv by (auto simp: adapter_inv_def)
  with False assms show ?thesis
    by (auto simp: request_stop_def adapter_inv_def run_stop_callbacks_eq [OF s] Cancel_cancelled count_list_mem
        split: if_splits)
qed

lemma stop_callback_init_fields [simp]:
  "ps_requested (snd (stop_callback_init k p)) = ps_requested p" "ps_sources (snd (stop_callback_init k p)) = ps_sources p"
  "k \<noteq> k' \<Longrightarrow> count_list (ps_callbacks (snd (stop_callback_init k p))) k' = count_list (ps_callbacks p) k'"
  by (simp_all add: stop_defs)

lemmas token_simps =
  StopTokenBridge_GetToken_def CancellationSource_GetToken_def CancellationToken_IsCancelled_def CancellationState_IsCancelled_def

lemma token_ops_keep_cancelled:
  "CancellationToken_OnCancel c (Some s) = (h, called, t) \<Longrightarrow> \<exists>s'. t = Some s' \<and> cs_cancelled s' = cs_cancelled s"
  "\<exists>s'. CancellationToken_Unregister h (Some s) = Some s' \<and> cs_cancelled s' = cs_cancelled s"
  by (auto simp: CancellationToken_OnCancel_def CancellationToken_Unregister_def CancellationState_RegisterCallback_def
      CancellationState_UnregisterCallback_def split: if_splits prod.splits)

lemma adapter_inv_token:
  assumes "adapter_inv w" and "sb_source (bp_bridge w) = Some s" and "cs_cancelled s' = cs_cancelled s"
  shows "adapter_inv (w\<lparr>bp_bridge := (bp_bridge w)\<lparr>sb_source := Some s'\<rparr>, bp_called := cs\<rparr>)"
  using assms by (simp add: adapter_inv_def)

lemma token_op_inv:
  assumes inv: "adapter_inv w"
  shows "bridge_op (TokenOnCancel c) w = Some w' \<Longrightarrow> adapter_inv w'"
    and "bridge_op (TokenUnregister h) w = Some w' \<Longrightarrow> adapter_inv w'"
proof -
  obtain s where s: "sb_source (bp_bridge w) = Some s" using inv by (auto simp: adapter_inv_def)
  show "adapter_inv w'" if step: "bridge_op (TokenOnCancel c) w = Some w'"
  proof -
    obtain h called t where t: "CancellationToken_OnCancel c (Some s) = (h, called, t)"
      by (cases "CancellationToken_OnCancel c (Some s)") auto
    with step s have "w' = w\<lparr>bp_bridge := (bp_bridge w)\<lparr>sb_source := t\<rparr>, bp_called := bp_called w @ called\<rparr>"
      by (simp add: StopTokenBridge_GetToken_def CancellationSource_GetToken_def)
    with token_ops_keep_cancelled(1) [OF t] adapter_inv_token [OF inv s] show ?thesis by blast
  qed
  show "adapter_inv w'" if step: "bridge_op (TokenUnregister h) w = Some w'"
  proof -
    obtain s' where s': "CancellationToken_Unregister h (Some s) = Some s'" "cs_cancelled s' = cs_cancelled s"
      using token_ops_keep_cancelled(2) by blast
    with step s have "w' = w\<lparr>bp_bridge := (bp_bridge w)\<lparr>sb_source := Some s'\<rparr>, bp_called := bp_called w\<rparr>"
      by (cases w) (auto simp: token_simps)
    with adapter_inv_token [OF inv s s'(2)] show ?thesis by blast
  qed
qed

lemma adapter_inv_step:
  assumes inv: "adapter_inv w" and step: "bridge_op x w = Some w'"
  shows "adapter_inv w'"
proof (cases x)
  case RequestStop
  show ?thesis by (rule request_stop_inv [OF inv step [unfolded RequestStop]])
next
  case (TokenOnCancel c)
  show ?thesis by (rule token_op_inv(1) [OF inv step [unfolded TokenOnCancel]])
next
  case (TokenUnregister h)
  show ?thesis by (rule token_op_inv(2) [OF inv step [unfolded TokenUnregister]])
next
  case (AddStopCallback k)
  with step have "w' = w\<lparr>bp_stop := snd (stop_callback_init (OtherStop k) (bp_stop w))\<rparr>" by simp
  with inv show ?thesis by (simp add: adapter_inv_def)
next
  case (RemoveStopCallback k)
  with step have "w' = w\<lparr>bp_stop := stop_callback_destroy (OtherStop k) (bp_stop w)\<rparr>" by simp
  with inv show ?thesis by (simp add: adapter_inv_def stop_callback_destroy_def)
next
  case DropBridge
  with step have "bp_alive w" and w': "w' = w\<lparr>bp_alive := False, bp_stop := if sb_callback (bp_bridge w)
      then stop_callback_destroy BridgeCancel (bp_stop w) else bp_stop w\<rparr>"
    by (simp_all add: StopTokenBridge_destroy_def split: if_splits)
  with inv show ?thesis unfolding w'
    by (cases "sb_callback (bp_bridge w)") (auto simp: adapter_inv_def stop_callback_destroy_def)
next
  case CopySource
  with step have "0 < ps_sources (bp_stop w)" "w' = w\<lparr>bp_stop := (bp_stop w)\<lparr>ps_sources := Suc (ps_sources (bp_stop w))\<rparr>\<rparr>"
    by (simp_all split: if_splits)
  with inv show ?thesis by (simp add: adapter_inv_def)
next
  case DropSource
  with step have "0 < ps_sources (bp_stop w)" "w' = w\<lparr>bp_stop := (bp_stop w)\<lparr>ps_sources := ps_sources (bp_stop w) - 1\<rparr>\<rparr>"
    by (simp_all split: if_splits)
  with inv show ?thesis by (simp add: adapter_inv_def)
qed

lemma adapter_inv_ops: "adapter_inv w \<Longrightarrow> bridge_ops xs w = Some w' \<Longrightarrow> adapter_inv w'"
  by (induction xs arbitrary: w) (auto split: option.splits dest: adapter_inv_step)

text \<open>Once the bridge is gone, its token does not change any more.\<close>

lemma dropped_step:
  assumes "adapter_inv w" and "\<not> bp_alive w" and "bridge_op x w = Some w'"
  shows "\<not> bp_alive w' \<and> CancellationToken_IsCancelled (sb_source (bp_bridge w')) = CancellationToken_IsCancelled (sb_source (bp_bridge w))"
proof -
  obtain s where s: "sb_source (bp_bridge w) = Some s" using assms(1) by (auto simp: adapter_inv_def)
  have "BridgeCancel \<notin> set (ps_callbacks (bp_stop w))" using assms(1,2) by (auto simp: adapter_inv_def count_list_mem)
  then have r: "run_stop_callbacks (fst (request_stop (bp_stop w))) (bp_bridge w) = (bp_bridge w, [])"
    by (simp add: run_stop_callbacks_eq [OF s] request_stop_def)
  show ?thesis
  proof (cases x)
    case RequestStop
    with r assms(2,3) show ?thesis by (simp split: if_splits prod.splits) auto
  next
    case (TokenOnCancel c)
    obtain h called t where t: "CancellationToken_OnCancel c (Some s) = (h, called, t)"
      by (cases "CancellationToken_OnCancel c (Some s)") auto
    with TokenOnCancel assms(2,3) s token_ops_keep_cancelled(1) [OF t] show ?thesis
      by (auto simp: token_simps)
  next
    case (TokenUnregister h)
    with assms(2,3) s token_ops_keep_cancelled(2) [of h s] show ?thesis by (auto simp: token_simps)
  qed (use assms(2,3) in \<open>auto split: if_splits\<close>)
qed

lemma dropped_ops:
  "adapter_inv w \<Longrightarrow> \<not> bp_alive w \<Longrightarrow> bridge_ops xs w = Some w' \<Longrightarrow>
   CancellationToken_IsCancelled (sb_source (bp_bridge w')) = CancellationToken_IsCancelled (sb_source (bp_bridge w))"
proof (induction xs arbitrary: w)
  case (Cons x xs)
  then obtain w1 where 1: "bridge_op x w = Some w1" "bridge_ops xs w1 = Some w'" by (auto split: option.splits)
  from dropped_step [OF Cons.prems(1,2) 1(1)] Cons.IH [OF adapter_inv_step [OF Cons.prems(1) 1(1)] _ 1(2)] show ?case by simp
qed simp

text \<open>
  Property C29 (a stop token as a cancellation token).  Take a stop state in any condition, bridge it
  with \<open>FromStopToken\<close> and let anything happen to it, to the token and to the bridge.  While the
  bridge exists its token is cancelled exactly when a stop was requested, also when the request
  came before the bridge; a request that is still possible cancels the token and calls the
  callbacks registered on it in their order; and once the bridge is destroyed the token never
  changes again.
\<close>

theorem stop_token_bridge:
  assumes "BridgeCancel \<notin> set (ps_callbacks p)" and "bridge_ops xs (bridge_program_init p) = Some w"
  shows "(bp_alive w \<longrightarrow>
            CancellationToken_IsCancelled (StopTokenBridge_GetToken (bp_bridge w)) = ps_requested (bp_stop w)) \<and>
    (bp_alive w \<and> \<not> ps_requested (bp_stop w) \<and> 0 < ps_sources (bp_stop w) \<longrightarrow>
       (\<exists>w' s. bridge_op RequestStop w = Some w' \<and> StopTokenBridge_GetToken (bp_bridge w) = Some s \<and>
          bp_called w' = bp_called w @ cs_callbacks s \<and>
          CancellationToken_IsCancelled (StopTokenBridge_GetToken (bp_bridge w')))) \<and>
    (\<not> bp_alive w \<and> bridge_ops ys w = Some w'' \<longrightarrow>
       CancellationToken_IsCancelled (StopTokenBridge_GetToken (bp_bridge w'')) =
       CancellationToken_IsCancelled (StopTokenBridge_GetToken (bp_bridge w)))"
proof -
  have inv: "adapter_inv w"
    using adapter_inv_ops [OF adapter_inv_init assms(2)] assms(1) by (simp add: count_list_mem)
  then obtain s where s: "sb_source (bp_bridge w) = Some s" "bp_alive w \<longrightarrow> cs_cancelled s = ps_requested (bp_stop w)"
    by (auto simp: adapter_inv_def)
  have "\<exists>w'. bridge_op RequestStop w = Some w' \<and> bp_called w' = bp_called w @ cs_callbacks s \<and>
      sb_source (bp_bridge w') = Some (snd (CancellationState_Cancel s))"
    if "bp_alive w" "\<not> ps_requested (bp_stop w)" "0 < ps_sources (bp_stop w)"
  proof -
    have "BridgeCancel \<in> set (ps_callbacks (bp_stop w))"
      using inv that by (auto simp: adapter_inv_def count_list_mem)
    with that s show ?thesis by (simp add: request_stop_def run_stop_callbacks_eq CancellationState_defs)
  qed
  with s dropped_ops [OF inv, of ys w''] show ?thesis
    by (fastforce simp: StopTokenBridge_GetToken_def CancellationSource_GetToken_def CancellationToken_IsCancelled_def
        CancellationState_IsCancelled_def Cancel_cancelled)
qed

theorem stop_token_bridge_witness:
  "\<exists>w :: (nat, nat) bridge_program. bridge_ops [TokenOnCancel 4, RequestStop] (bridge_program_init stop_state_init) = Some w \<and>
     bp_called w = [4] \<and> CancellationToken_IsCancelled (StopTokenBridge_GetToken (bp_bridge w))"
proof -
  obtain w :: "(nat, nat) bridge_program" where
    w: "bridge_ops [TokenOnCancel 4, RequestStop] (bridge_program_init stop_state_init) = Some w"
    "bp_called w = [4]" "bp_alive w" "ps_requested (bp_stop w)"
    by (simp add: bridge_program_init_def Bridge_defs stop_defs CancellationState_defs CancellationToken_OnCancel_def)
  from stop_token_bridge [OF _ w(1)] w show ?thesis by (simp add: stop_state_init_def)
qed

subsection \<open>\<open>CancellationLink\<close>\<close>

text \<open>The callbacks on a cancellation state: the link's lambda, which owns a stop source, or others.\<close>

datatype 'c link_cb = LinkRequestStop | OtherCancel 'c

record CancellationLink =
  cl_handle :: size_t

text \<open>
  Calling cancellation callbacks: the link's requests the stop.  The stop callbacks this calls are
  returned.
\<close>

fun run_cancel_callbacks :: "'c link_cb list \<Rightarrow> 'k stop_state \<Rightarrow> 'k list \<times> 'k stop_state" where
  "run_cancel_callbacks [] p = ([], p)"
| "run_cancel_callbacks (LinkRequestStop # cs) p =
     (let (ks, p) = request_stop p; (ks', p) = run_cancel_callbacks cs p in (ks @ ks', p))"
| "run_cancel_callbacks (OtherCancel c # cs) p = run_cancel_callbacks cs p"

definition CancellationLink_init ::
  "'c link_cb CancellationState option \<Rightarrow> 'k stop_state \<Rightarrow>
   CancellationLink \<times> 'k list \<times> 'k stop_state \<times> 'c link_cb CancellationState option" where
  "CancellationLink_init token source =
    (let (h, called, token) = CancellationToken_OnCancel LinkRequestStop token;
         (ks, source) = run_cancel_callbacks called source
     in (\<lparr>cl_handle = h\<rparr>, ks, source, token))"

definition CancellationLink_destroy ::
  "CancellationLink \<Rightarrow> 'c link_cb CancellationState option \<Rightarrow> 'c link_cb CancellationState option" where
  "CancellationLink_destroy link token = CancellationToken_Unregister (cl_handle link) token"

definition LinkCancellation ::
  "'c link_cb CancellationState option \<Rightarrow> 'k stop_state \<Rightarrow>
   CancellationLink \<times> 'k list \<times> 'k stop_state \<times> 'c link_cb CancellationState option" where
  "LinkCancellation token source = CancellationLink_init token source"

text \<open>\<open>Cancel\<close> on the source of the linked token.\<close>

definition cancel_linked ::
  "'c link_cb CancellationState option \<Rightarrow> 'k stop_state \<Rightarrow> 'k list \<times> 'k stop_state \<times> 'c link_cb CancellationState option" where
  "cancel_linked src source =
    (let (called, src) = CancellationSource_Cancel src; (ks, source) = run_cancel_callbacks called source
     in (ks, source, src))"

lemma run_cancel_callbacks_eq:
  "run_cancel_callbacks cs p = (if LinkRequestStop \<in> set cs then request_stop p else ([], p))"
  by (induction cs p rule: run_cancel_callbacks.induct) (auto simp: request_stop_def split: prod.splits)

lemma erase_first_last:
  "length cs = length ks \<Longrightarrow> k \<notin> set ks \<Longrightarrow> erase_first k (cs @ [c]) (ks @ [k]) = (cs, ks)"
  by (induction k cs ks rule: erase_first.induct) auto

text \<open>
  A cancellation token that drives a stop source.  The token's state is one in which
  handles are below the next one and no link is registered.  Linking a token that is cancelled requests the stop at
  once; linking one that is not requests nothing, and then cancelling it requests the stop, and
  through a bridge back, cancels the bridged token; a link that was destroyed before has no effect, and
  the token's callbacks are as they were.
\<close>

theorem cancellation_link:
  assumes "length (cs_callbacks s) = length (cs_callback_handles s)" and "cs_next_handle s \<notin> set (cs_callback_handles s)"
    and "cs_next_handle s \<noteq> 0" and "LinkRequestStop \<notin> set (cs_callbacks s)"
    and "LinkCancellation (Some s) p = (link, ks, p', t)"
  shows "(if CancellationState_IsCancelled s
          then ps_requested p' \<and> CancellationLink_destroy link t = Some s
          else p' = p \<and> ks = [] \<and>
            (\<exists>ks'. cancel_linked t p = (ks', snd (request_stop p), snd (CancellationSource_Cancel t)) \<and> ps_requested (snd (request_stop p)) \<and>
               (BridgeCancel \<in> set (ps_callbacks p) \<and> \<not> ps_requested p \<and> sb_source b = Some s2 \<longrightarrow>
                  CancellationToken_IsCancelled (StopTokenBridge_GetToken (fst (run_stop_callbacks ks' b))))) \<and>
            (\<exists>s'. CancellationLink_destroy link t = Some s' \<and> cs_callbacks s' = cs_callbacks s \<and>
               cs_callback_handles s' = cs_callback_handles s \<and>
               fst (cancel_linked (Some s') p) = [] \<and> fst (snd (cancel_linked (Some s') p)) = p))"
proof (cases "cs_cancelled s")
  case True
  with assms(5) show ?thesis
    by (auto simp: LinkCancellation_def CancellationLink_init_def CancellationToken_OnCancel_def CancellationState_defs
        CancellationLink_destroy_def CancellationToken_Unregister_def request_stop_def split: prod.splits if_splits)
next
  case False
  let ?s = "s\<lparr>cs_next_handle := cs_next_handle s + 1, cs_callbacks := cs_callbacks s @ [LinkRequestStop],
      cs_callback_handles := cs_callback_handles s @ [cs_next_handle s]\<rparr>"
  have link: "link = \<lparr>cl_handle = cs_next_handle s\<rparr>" "ks = []" "p' = p" "t = Some ?s"
    using assms(5) False
    by (simp_all add: LinkCancellation_def CancellationLink_init_def CancellationToken_OnCancel_def CancellationState_RegisterCallback_def)
  have c: "cancel_linked t p = (fst (request_stop p), snd (request_stop p), snd (CancellationSource_Cancel t))"
    using False by (simp add: link(4) cancel_linked_def CancellationSource_Cancel_def CancellationState_defs run_cancel_callbacks_eq split: prod.splits)
  have b: "CancellationToken_IsCancelled (StopTokenBridge_GetToken (fst (run_stop_callbacks (fst (request_stop p)) b)))"
    if "BridgeCancel \<in> set (ps_callbacks p)" "\<not> ps_requested p" "sb_source b = Some s2"
    using that by (simp add: request_stop_def run_stop_callbacks_eq token_simps Cancel_cancelled)
  obtain s' where s': "CancellationLink_destroy link t = Some s'" "cs_callbacks s' = cs_callbacks s"
      "cs_callback_handles s' = cs_callback_handles s" "\<not> cs_cancelled s'"
    using assms(3) False erase_first_last [OF assms(1,2), of LinkRequestStop]
    by (simp add: link CancellationLink_destroy_def CancellationToken_Unregister_def CancellationState_UnregisterCallback_def)
  with assms(4) have "fst (cancel_linked (Some s') p) = []" "fst (snd (cancel_linked (Some s') p)) = p"
    by (simp_all add: cancel_linked_def CancellationSource_Cancel_def CancellationState_defs run_cancel_callbacks_eq)
  with False link c b s' show ?thesis by (auto simp: CancellationState_IsCancelled_def request_stop_def)
qed

theorem cancellation_link_witness:
  "(let (link, ks, p', t) = LinkCancellation (Some (CancellationState_init :: nat link_cb CancellationState))
         (stop_state_init :: nat stop_cb stop_state)
    in \<not> ps_requested p' \<and> ps_requested (fst (snd (cancel_linked t p'))))"
proof -
  let ?s = "CancellationState_init :: nat link_cb CancellationState" and ?p = "stop_state_init :: nat stop_cb stop_state"
  obtain link ks p' t where l: "LinkCancellation (Some ?s) ?p = (link, ks, p', t)" by (metis prod_cases4)
  from cancellation_link [OF _ _ _ _ l, of "\<lparr>sb_source = None, sb_callback = False\<rparr> :: nat StopTokenBridge" CancellationState_init]
  have "p' = ?p" "ps_requested (fst (snd (cancel_linked t ?p)))"
    by (auto simp: CancellationState_init_def CancellationState_IsCancelled_def)
  with l show ?thesis by (simp add: stop_state_init_def)
qed

end
