(* ===== verification/Ex_Http_Server.thy ===== *)
theory Ex_Http_Server
  imports Http_Service
begin

text \<open>
  \<open>examples/05_http_server.cpp\<close>: the routes of the example server, its request counter and its console,
  run by the server of theory Http_Service.  The system clock and the formatting of a date are
  given by the texts \<open>GetCurrentTime\<close> returns, one per call.
\<close>

subsection \<open>The program\<close>

record app =
  g_request_count :: "32 word"
  app_clock :: "nat \<Rightarrow> string"
  app_reads :: nat
  app_cout :: "string list"

definition GetCurrentTime :: "app \<Rightarrow> string \<times> app" where
  "GetCurrentTime a = (app_clock a (app_reads a), a\<lparr>app_reads := Suc (app_reads a)\<rparr>)"

text \<open>\<open>int\<close> is a 32-bit word read with its sign; this is how a stream prints it.\<close>

definition print_int :: "32 word \<Rightarrow> string" where
  "print_int n = int_to_string (sint n)"

definition index_html_head :: string where
  \<open>index_html_head = concat (map (\<lambda>l. l @ [LF])
    [''<!DOCTYPE html>'',
     ''<html>'',
     ''<head>'',
     ''    <title>Hotcoco HTTP Server</title>'',
     ''    <style>'',
     ''        body {'',
     ''            font-family: -apple-system, BlinkMacSystemFont, 'Segoe UI', Roboto, Arial, sans-serif;'',
     ''            max-width: 800px;'',
     ''            margin: 50px auto;'',
     ''            padding: 20px;'',
     ''            background: linear-gradient(135deg, #667eea 0%, #764ba2 100%);'',
     ''            min-height: 100vh;'',
     ''        }'',
     ''        .container {'',
     ''            background: white;'',
     ''            border-radius: 10px;'',
     ''            padding: 30px;'',
     ''            box-shadow: 0 10px 40px rgba(0,0,0,0.2);'',
     ''        }'',
     ''        h1 {'',
     ''            color: #667eea;'',
     ''            margin-bottom: 10px;'',
     ''        }'',
     ''        .subtitle {'',
     ''            color: #666;'',
     ''            margin-bottom: 30px;'',
     ''        }'',
     ''        .endpoint {'',
     ''            background: #f5f5f5;'',
     ''            border-radius: 5px;'',
     ''            padding: 15px;'',
     ''            margin: 10px 0;'',
     ''            font-family: monospace;'',
     ''        }'',
     ''        .method {'',
     ''            background: #667eea;'',
     ''            color: white;'',
     ''            padding: 3px 8px;'',
     ''            border-radius: 3px;'',
     ''            font-size: 12px;'',
     ''        }'',
     ''        .stats {'',
     ''            margin-top: 30px;'',
     ''            padding-top: 20px;'',
     ''            border-top: 1px solid #eee;'',
     ''            color: #666;'',
     ''        }'',
     ''    </style>'',
     ''</head>'',
     ''<body>'',
     ''    <div class="container">'',
     ''        <h1>'' @ [CHR 0xF0, CHR 0x9F, CHR 0xA5, CHR 0xA5] @ '' Hotcoco HTTP Server</h1>'',
     ''        <p class="subtitle">A C++20 coroutine-based HTTP server</p>'',
     ''        '',
     ''        <h3>Available Endpoints</h3>'',
     ''        <div class="endpoint">'',
     ''            <span class="method">GET</span> /'',
     ''            <br><small>This page</small>'',
     ''        </div>'',
     ''        <div class="endpoint">'',
     ''            <span class="method">GET</span> /api/hello'',
     ''            <br><small>Returns a greeting in JSON</small>'',
     ''        </div>'',
     ''        <div class="endpoint">'',
     ''            <span class="method">GET</span> /api/time'',
     ''            <br><small>Returns current server time</small>'',
     ''        </div>'',
     ''        <div class="endpoint">'',
     ''            <span class="method">GET</span> /api/stats'',
     ''            <br><small>Returns request statistics</small>'',
     ''        </div>'',
     ''        '',
     ''        <div class="stats">'']) @ ''            <strong>Server Time:</strong> ''\<close>

definition index_html_count :: string where
  \<open>index_html_count = concat (map (\<lambda>l. l @ [LF])
    [[],
     ''            <br>'']) @ ''            <strong>Requests Served:</strong> ''\<close>

definition index_html_tail :: string where
  \<open>index_html_tail = concat (map (\<lambda>l. l @ [LF])
    [[],
     ''        </div>'',
     ''    </div>'',
     ''</body>'',
     ''</html>''])\<close>

definition GetIndexHtml :: "app \<Rightarrow> string \<times> app" where
  "GetIndexHtml a =
    (let (now, a) = GetCurrentTime a
     in (index_html_head @ now @ index_html_count @ print_int (g_request_count a) @ index_html_tail, a))"

definition HandleRequest :: "HttpRequest \<Rightarrow> app \<Rightarrow> HttpResponse \<times> app" where
  \<open>HandleRequest req a =
    (let a = a\<lparr>g_request_count := g_request_count a + 1\<rparr>;
         (now, a) = GetCurrentTime a;
         a = a\<lparr>app_cout := app_cout a @ [''['' @ now @ ''] '' @ HttpMethodToString (rq_method req) @ '' '' @ rq_path req]\<rparr>
     in if rq_path req = ''/'' \<or> rq_path req = ''/index.html''
        then let (html, a) = GetIndexHtml a in (HttpResponse_Html html, a)
        else if rq_path req = ''/api/hello''
        then (HttpResponse_Json ''{"message": "Hello from hotcoco!", "status": "ok"}'', a)
        else if rq_path req = ''/api/time''
        then let (now, a) = GetCurrentTime a
             in (HttpResponse_Json (''{"time": "'' @ now @ ''", "timezone": "server"}''), a)
        else if rq_path req = ''/api/stats''
        then (HttpResponse_Json (''{"requests": '' @ print_int (g_request_count a) @ '', "uptime": "running"}''), a)
        else (HttpResponse_NotFound (''404 - Page not found: '' @ rq_path req), a))\<close>

text \<open>
  \<open>main\<close>: the server with this handler, started; \<open>bind\<close> and \<open>listen\<close> are the results of the listener's
  calls.
\<close>

definition http_main :: "int \<Rightarrow> int \<Rightarrow> (nat \<Rightarrow> string) \<Rightarrow> (app, 'p) http_world" where
  "http_main bind listen clock =
    (let server = HttpServer_OnRequest HandleRequest HttpServer_init
     in Run_start bind listen server
          \<lparr>g_request_count = 0, app_clock = clock, app_reads = 0, app_cout = []\<rparr>)"

subsection \<open>Routing\<close>

definition routes :: "string set" where
  "routes = {''/'', ''/index.html'', ''/api/hello'', ''/api/time'', ''/api/stats''}"

definition stats_json :: "nat \<Rightarrow> string" where
  \<open>stats_json k = ''{"requests": '' @ nat_to_string k @ '', "uptime": "running"}''\<close>

lemma page_simps [simp]:
  "framed 200 (HttpResponse_Html b)" "framed 200 (HttpResponse_Json b)" "framed 404 (HttpResponse_NotFound b)"
  "rs_body (HttpResponse_Json b) = b" "rs_body (HttpResponse_NotFound b) = b"
  using response_framing [of b] by (simp_all add: HttpResponse_Json_def HttpResponse_Ok_def HttpResponse_NotFound_def Let_def)

lemma HandleRequest_route:
  assumes "HandleRequest rq a = (rs, a')"
  shows "rq_path rq \<in> routes \<Longrightarrow> framed 200 rs"
    and "rq_path rq \<notin> routes \<Longrightarrow> rs = HttpResponse_NotFound (''404 - Page not found: '' @ rq_path rq)"
    and \<open>rq_path rq = ''/api/stats'' \<Longrightarrow>
      rs_body rs = ''{"requests": '' @ print_int (g_request_count a + 1) @ '', "uptime": "running"}''\<close>
    and "g_request_count a' = g_request_count a + 1"
    and "length (app_cout a') = Suc (length (app_cout a))"
  using assms
  by (auto simp: HandleRequest_def GetCurrentTime_def GetIndexHtml_def routes_def Let_def split: if_splits)

text \<open>The calls of the handler one after the other.\<close>

lemma respond_all_HandleRequest:
  assumes "hs_handler sv = Some HandleRequest" and "respond_all sv rqs a = (rss, a')"
  shows "g_request_count a' = g_request_count a + word_of_nat (length rqs) \<and>
    length (app_cout a') = length (app_cout a) + length rqs \<and> length rss = length rqs \<and>
    (\<forall>n < length rqs. \<exists>b b'. HandleRequest (rqs ! n) b = (rss ! n, b') \<and> g_request_count b = g_request_count a + word_of_nat n)"
  using assms(2)
proof (induction rqs arbitrary: a rss)
  case (Cons rq rqs)
  obtain rs b where rs: "HandleRequest rq a = (rs, b)" by (cases "HandleRequest rq a")
  from Cons.prems obtain rss' where rss: "rss = rs # rss'" "respond_all sv rqs b = (rss', a')"
    by (auto simp: HttpServer_respond_def assms(1) rs split: prod.splits)
  note count = HandleRequest_route(4,5) [OF rs]
  note IH = Cons.IH [OF rss(2)]
  have "\<exists>b b'. HandleRequest ((rq # rqs) ! n) b = (rss ! n, b') \<and> g_request_count b = g_request_count a + word_of_nat n"
    if "n < length (rq # rqs)" for n
  proof (cases n)
    case 0
    then show ?thesis using rs by (auto simp: rss(1))
  next
    case (Suc m)
    with IH that obtain c c' where "HandleRequest (rqs ! m) c = (rss' ! m, c')" "g_request_count c = g_request_count b + word_of_nat m"
      by auto
    then show ?thesis by (intro exI [of _ c] exI [of _ c']) (simp add: Suc rss(1) count)
  qed
  with IH show ?case by (simp add: count rss(1))
qed simp

lemma print_count: "n < 2 ^ 31 \<Longrightarrow> print_int (word_of_nat n) = nat_to_string n"
  by (simp add: print_int_def int_to_string_def signed_of_nat signed_take_bit_int_eq_self)

text \<open>What a client needs of a response to read it back.\<close>

definition clean_response :: "HttpResponse \<Rightarrow> bool" where
  "clean_response rs \<longleftrightarrow> 0 \<le> rs_status_code rs \<and> CR \<notin> set (rs_status_text rs) \<and> (\<forall>kv \<in> set (rs_headers rs). clean_header kv)"

lemma clean_length: "CR \<notin> set (nat_to_string n)"
  using nat_to_string_digits [of _ n] digit_not(2) by metis

lemma headers_set_clean: "clean_header (f, v) \<Longrightarrow> \<forall>kv \<in> set m. clean_header kv \<Longrightarrow> \<forall>kv \<in> set (headers_set f v m). clean_header kv"
  by (induction f v m rule: headers_set.induct) (auto simp: clean_header_def split: if_splits)

lemma headers_clean:
  assumes "CR \<notin> set t"
  shows "\<forall>kv \<in> set (headers_set ''Content-Length'' (nat_to_string n) (headers_set ''Content-Type'' t [])). clean_header kv"
  by (intro headers_set_clean) (use assms clean_length in \<open>simp_all add: clean_header_def\<close>)

lemma factory_clean:
  "CR \<notin> set t \<Longrightarrow> clean_response (HttpResponse_Ok b t)" "clean_response (HttpResponse_NotFound b)"
  using headers_clean [of t "length b"] headers_clean [of "''text/plain''" "length b"]
  by (simp_all add: clean_response_def HttpResponse_Ok_def HttpResponse_NotFound_def HttpResponse_init_def Let_def
      del: headers_set.simps)

lemma page_clean [simp]: "clean_response (HttpResponse_Html b)" "clean_response (HttpResponse_Json b)" "clean_response (HttpResponse_NotFound b)"
  by (simp_all add: HttpResponse_Html_def HttpResponse_Json_def factory_clean)

lemma HandleRequest_clean: "HandleRequest rq a = (rs, a') \<Longrightarrow> clean_response rs"
  by (auto simp: HandleRequest_def GetCurrentTime_def GetIndexHtml_def Let_def split: if_splits)

subsection \<open>The running server\<close>

text \<open>
  Property C40 (what the example server serves).  In every run of the example, whatever its clients send
  on however many connections: \<open>g_request_count\<close> has counted the requests answered on all of them and
  one line was printed per request.  The answer to the \<open>n\<close>-th request is written on its own
  connection and reads back unchanged; it is a page with status 200 and the right length if the
  path is one of the five routes, and otherwise status 404 with the path in its text;
  \<open>/api/stats\<close> reports the number of this request, as long as it fits an \<open>int\<close>.
\<close>

theorem http_example_serves:
  assumes run: "http_exec ll es (http_main bind listen clock) = Some w"
    and n: "n < length (hw_history w)" "hw_history w ! n = (i, rq, rs)"
  shows "g_request_count (hw_app w) = word_of_nat (length (hw_history w)) \<and> length (app_cout (hw_app w)) = length (hw_history w) \<and>
    HttpResponse_Serialize rs \<in> set (cn_writes (cx_log (hw_conns w ! i))) \<and>
    decode_response (HttpResponse_Serialize rs) = Some (nat (rs_status_code rs), rs_status_text rs, rs_headers rs, rs_body rs) \<and>
    (rq_path rq \<in> routes \<longrightarrow> framed 200 rs) \<and>
    (rq_path rq \<notin> routes \<longrightarrow> framed 404 rs \<and> rs_body rs = ''404 - Page not found: '' @ rq_path rq) \<and>
    (rq_path rq = ''/api/stats'' \<and> Suc n < 2 ^ 31 \<longrightarrow> rs_body rs = stats_json (Suc n))"
proof -
  let ?sv = "HttpServer_OnRequest HandleRequest HttpServer_init"
  let ?a = "\<lparr>g_request_count = 0, app_clock = clock, app_reads = 0, app_cout = []\<rparr>"
  have mem: "(i, rq, rs) \<in> set (hw_history w)" using nth_mem [OF n(1)] n(2) by simp
  have "http_inv ?sv ?a w"
    using http_exec_inv [OF http_inv_start] run by (simp add: http_main_def Let_def)
  then have all: "respond_all ?sv (map (fst \<circ> snd) (hw_history w)) ?a = (map (snd \<circ> snd) (hw_history w), hw_app w)"
    and i: "i < length (hw_conns w)" and ex: "cn_exchanges (cx_log (hw_conns w ! i)) = exchanges_of i w"
    and ci: "connection_inv (hw_conns w ! i)"
    using mem by (force simp: http_inv_def)+
  have sv: "hs_handler ?sv = Some HandleRequest" by (simp add: HttpServer_OnRequest_def)
  note hist = respond_all_HandleRequest [OF sv all]
  from hist n obtain b b' where h: "HandleRequest rq b = (rs, b')" "g_request_count b = word_of_nat n" by fastforce
  have "(rq, rs) \<in> set (exchanges_of i w)"
    using mem by (force simp: exchanges_of_def)
  then have "HttpResponse_Serialize rs \<in> set (conn_answers (cx_log (hw_conns w ! i)))" by (force simp: conn_answers_def ex)
  with connection_ok_writes [OF connection_inv_ok [OF ci]] have "HttpResponse_Serialize rs \<in> set (cn_writes (cx_log (hw_conns w ! i)))"
    by blast
  moreover have "decode_response (HttpResponse_Serialize rs) = Some (nat (rs_status_code rs), rs_status_text rs, rs_headers rs, rs_body rs)"
    using HandleRequest_clean [OF h(1)] by (intro decode_serialized) (auto simp: clean_response_def)
  moreover have "rs_body rs = stats_json (Suc n)" if "rq_path rq = ''/api/stats''" "Suc n < 2 ^ 31"
    using HandleRequest_route(3) [OF h(1) that(1)] print_count [OF that(2)] by (simp add: h(2) stats_json_def add.commute)
  moreover have "framed 404 rs \<and> rs_body rs = ''404 - Page not found: '' @ rq_path rq" if "rq_path rq \<notin> routes"
    unfolding HandleRequest_route(2) [OF h(1) that] by simp
  ultimately show ?thesis using hist HandleRequest_route(1) [OF h(1)] by simp
qed

theorem http_example_serves_witness:
  "\<exists>w rq rs. http_exec (script_ll [[EvUrl ''/no'', EvMessageComplete]]) [HAccept True, HStart 0 0, HCheck 0 True 1, HRead 0 ''GET'']
       (http_main 0 0 (\<lambda>_. ''now'')) = Some w \<and>
     hw_history w = [(0, rq, rs)] \<and> rq_path rq = ''/no'' \<and> framed 404 rs \<and> g_request_count (hw_app w) = 1"
proof -
  let ?ll = "script_ll [[EvUrl ''/no'', EvMessageComplete]]"
  define rq where "rq = HttpRequest_init\<lparr>rq_url := ''/no'', rq_path := ''/no''\<rparr>"
  obtain w where w: "http_exec ?ll [HAccept True, HStart 0 0, HCheck 0 True 1, HRead 0 ''GET''] (http_main 0 0 (\<lambda>_. ''now'')) = Some w"
    and hist: "map (\<lambda>(i, rq, rs). (i, rq)) (hw_history w) = [(0, rq)]"
    by (simp add: http_main_def Run_start_def HttpServer_init_def HttpServer_OnRequest_def
        Run_accepted_def in_phase_def on_conn_def connection_spawned_def HandleConnection_start_def HandleConnection_check_def
        http_read_def HandleConnection_read_def kDefaultReadTimeout_def script_ll_def HttpParser_Parse_def
        HttpParser_defs HttpRequest_init_def kMaxUrlLength_def HttpParser_GetRequest_def HttpServer_respond_def Let_def
        case_prod_unfold rq_def)
  from hist obtain rs where h: "hw_history w = [(0, rq, rs)]" by auto
  then have n: "0 < length (hw_history w)" "hw_history w ! 0 = (0, rq, rs)" by simp_all
  have path: "rq_path rq = ''/no''" "rq_path rq \<notin> routes" by (simp_all add: rq_def routes_def)
  from http_example_serves [OF w n] path(2) have "framed 404 rs" "g_request_count (hw_app w) = 1"
    by (simp_all add: h)
  with w h path(1) show ?thesis by (intro exI [of _ w] exI [of _ rq] exI [of _ rs] conjI)
qed

end
