(* ===== verification/Ex_Generators.thy ===== *)
theory Ex_Generators
  imports Generator
begin

text \<open>
  \<open>examples/02_generator.cpp\<close>: the generators \<open>Range\<close>, \<open>Fibonacci\<close> and \<open>Squares\<close> as bodies of theory
  Generator, and the loops \<open>main\<close> makes over them.  \<open>int\<close> and \<open>long long\<close> are 32- and 64-bit words
  read with their sign; where C++ leaves an overflow undefined the words wrap around, and
  the theorems say up to where there is none.  The console output is left out.
\<close>

subsection \<open>The bodies\<close>

text \<open>The local variables at a suspension and what the body does until the next one.\<close>

definition Range_body :: "32 word \<Rightarrow> 32 word \<Rightarrow> 32 word \<times> 32 word" where
  "Range_body start end' = (start, end')"

fun Range_step :: "32 word \<times> 32 word \<Rightarrow> (32 word \<times> 32 word \<times> 32 word) option" where
  "Range_step (i, end') = (if i <s end' then Some (i, i + 1, end') else None)"

definition Fibonacci :: "64 word \<times> 64 word" where
  "Fibonacci = (0, 1)"

fun Fibonacci_step :: "64 word \<times> 64 word \<Rightarrow> (64 word \<times> 64 word \<times> 64 word) option" where
  "Fibonacci_step (a, b) = Some (a, let next = a + b in (b, next))"

definition Squares :: "32 word \<Rightarrow> 32 word \<times> 32 word" where
  "Squares n = (1, n)"

fun Squares_step :: "32 word \<times> 32 word \<Rightarrow> (32 word \<times> 32 word \<times> 32 word) option" where
  "Squares_step (i, n) = (if i \<le>s n then Some (i * i, i + 1, n) else None)"

text \<open>
  The second loop of \<open>main\<close>: \<open>auto it = fib.begin()\<close>, then \<open>n\<close> times \<open>*it\<close> and \<open>++it\<close>.
\<close>

fun take_loop ::
  "('b \<Rightarrow> ('v \<times> 'b) option) \<Rightarrow> nat \<Rightarrow> GeneratorIterator \<Rightarrow> ('b, 'v) gen_frame \<Rightarrow> ('v list \<times> ('b, 'v) gen_frame) option" where
  "take_loop step 0 it f = Some ([], f)"
| "take_loop step (Suc n) it f =
    (case GeneratorIterator_deref it f of
       None \<Rightarrow> None
     | Some v \<Rightarrow>
         (case GeneratorIterator_increment step it f of
            None \<Rightarrow> None
          | Some (it, f) \<Rightarrow> map_option (apfst (Cons v)) (take_loop step n it f)))"

definition first_fibonacci :: "nat \<Rightarrow> Generator \<Rightarrow> (64 word list \<times> (64 word \<times> 64 word, 64 word) gen_frame) option" where
  "first_fibonacci n fib =
    (case Generator_begin Fibonacci_step fib (GeneratorPromise_init Fibonacci) of
       None \<Rightarrow> None
     | Some (it, f) \<Rightarrow> take_loop Fibonacci_step n it f)"

text \<open>The fourth loop: the even numbers of a range.\<close>

definition even_numbers :: "32 word \<Rightarrow> 32 word \<Rightarrow> nat \<Rightarrow> Generator \<Rightarrow> 32 word list option" where
  "even_numbers start end' n g =
    map_option (filter (\<lambda>x. sint x mod 2 = 0) \<circ> fst)
      (range_for Range_step n g (GeneratorPromise_init (Range_body start end')))"

subsection \<open>What the bodies yield\<close>

lemma sint_plus_one: "sint (i :: 32 word) < 2 ^ 31 - 1 \<Longrightarrow> sint (i + 1) = sint i + 1"
  using sint_ge [of i] by (simp add: sint_word_ariths(1) signed_take_bit_int_eq_self)

lemma sint_below: "sint i < sint (e :: 32 word) \<Longrightarrow> sint i < 2 ^ 31 - 1"
  using sint_lt [of e] by simp

lemma yields_Range:
  "nat (sint end' - sint i) < n \<Longrightarrow> map sint (yields Range_step n (i, end')) = [sint i..sint end' - 1]"
proof (induction n arbitrary: i)
  case (Suc n)
  show ?case
  proof (cases "sint i < sint end'")
    case True
    with Suc.IH [of "i + 1"] Suc.prems show ?thesis
      by (simp add: word_sless_alt sint_plus_one [OF sint_below] upto_rec1)
  next
    case False
    then show ?thesis by (simp add: word_sless_alt)
  qed
qed simp

lemma sint_square:
  assumes "0 \<le> sint (i :: 32 word)" and "sint i \<le> 46340"
  shows "sint (i * i) = sint i * sint i"
proof -
  define x where "x = sint i * sint i"
  have "x \<le> 46340 * 46340" unfolding x_def by (rule mult_mono) (use assms in simp_all)
  moreover have "0 \<le> x" by (simp add: x_def)
  ultimately have "signed_take_bit 31 x = x" by (intro signed_take_bit_int_eq_self) simp_all
  then show ?thesis by (simp add: sint_word_ariths(3) x_def)
qed

lemma yields_Squares:
  "0 \<le> sint i \<Longrightarrow> sint n \<le> 46340 \<Longrightarrow> nat (sint n + 1 - sint i) < k \<Longrightarrow>
   map sint (yields Squares_step k (i, n)) = map (\<lambda>j. j * j) [sint i..sint n]"
proof (induction k arbitrary: i)
  case (Suc k)
  show ?case
  proof (cases "sint i \<le> sint n")
    case True
    with Suc.prems have next1: "sint (i + 1) = sint i + 1" by (intro sint_plus_one) simp
    with Suc.IH [of "i + 1"] Suc.prems True show ?thesis
      by (simp add: word_sle_eq sint_square upto_rec1)
  next
    case False
    then show ?thesis by (simp add: word_sle_eq)
  qed
qed simp

fun fib_pair :: "nat \<Rightarrow> nat \<times> nat" where
  "fib_pair 0 = (0, 1)"
| "fib_pair (Suc n) = (let (a, b) = fib_pair n in (b, a + b))"

definition fib :: "nat \<Rightarrow> nat" where
  "fib n = fst (fib_pair n)"

lemma fib_simps [simp]: "fib 0 = 0" "fib (Suc 0) = 1" "fib (Suc (Suc n)) = fib n + fib (Suc n)"
  by (simp_all add: fib_def case_prod_unfold Let_def)

lemma fib_pair: "fib_pair n = (fib n, fib (Suc n))"
  by (induction n) simp_all

text \<open>Ten steps at once, to evaluate large members.\<close>

lemma fib_ten: "fib (n + 10) = 34 * fib n + 55 * fib (Suc n)" "fib (Suc n + 10) = 55 * fib n + 89 * fib (Suc n)"
  by (simp_all add: eval_nat_numeral)

lemma fib_pair_ten: "10 \<le> n \<Longrightarrow> fib_pair n = (case fib_pair (n - 10) of (a, b) \<Rightarrow> (34 * a + 55 * b, 55 * a + 89 * b))"
  using fib_ten [of "n - 10"] by (simp add: fib_pair)

lemma fib_mono: "m \<le> n \<Longrightarrow> fib m \<le> fib n"
proof (induction n rule: dec_induct)
  case (step n)
  then show ?case by (cases n) simp_all
qed simp

lemma fib_92: "fib 92 < 2 ^ 63"
proof -
  have "fib_pair 2 = (1, 2)" by (simp add: eval_nat_numeral)
  then show ?thesis by (simp add: fib_def fib_pair_ten)
qed

lemma yields_Fibonacci:
  "yields Fibonacci_step n (word_of_nat (fib k), word_of_nat (fib (Suc k))) = map (\<lambda>j. word_of_nat (fib j)) [k..<k + n]"
proof (induction n arbitrary: k)
  case (Suc n)
  from Suc.IH [of "Suc k"] show ?case by (simp add: upt_conv_Cons del: upt_Suc)
qed simp

subsection \<open>The loops of main\<close>

lemma take_loop_yields:
  assumes "it_handle it \<noteq> 0" and "\<not> gf_done f" and "gf_current f = Some v" and "\<And>b. step b \<noteq> None"
  shows "\<exists>f'. take_loop step n it f = Some (take n (v # yields step n (gf_body f)), f') \<and> gf_resumes f' = gf_resumes f + n"
  using assms(2,3)
proof (induction n arbitrary: f v)
  case (Suc n)
  obtain u b where u: "step (gf_body f) = Some (u, b)" using assms(4) by fastforce
  let ?f = "f\<lparr>gf_body := b, gf_resumes := Suc (gf_resumes f), gf_current := Some u\<rparr>"
  from Suc.IH [of ?f u] Suc.prems(1) obtain f' where
    "take_loop step n it ?f = Some (take n (u # yields step n b), f')" "gf_resumes f' = gf_resumes f + Suc n" by auto
  then show ?case using Suc.prems assms(1) u by (auto simp: Generator_defs)
qed simp

lemma take_yields: "take n (yields step (Suc n) b) = yields step n b"
  by (induction n arbitrary: b) (auto split: option.splits)

lemma first_fibonacci_eq:
  assumes "gen_handle g \<noteq> 0"
  shows "\<exists>f. first_fibonacci n g = Some (map (\<lambda>j. word_of_nat (fib j)) [0..<n], f) \<and> gf_resumes f = Suc n"
proof -
  let ?f = "\<lparr>gf_body = (1, 1), gf_current = Some 0, gf_done = False, gf_resumes = 1\<rparr> :: (64 word \<times> 64 word, 64 word) gen_frame"
  have begin': "Generator_begin Fibonacci_step g (GeneratorPromise_init Fibonacci) = Some (\<lparr>it_handle = gen_handle g\<rparr>, ?f)"
    using assms by (simp add: Generator_defs GeneratorPromise_init_def Fibonacci_def)
  have "\<And>b. Fibonacci_step b \<noteq> None" by auto
  from take_loop_yields [of "\<lparr>it_handle = gen_handle g\<rparr>" ?f 0 Fibonacci_step n] this assms obtain f where
    f: "take_loop Fibonacci_step n \<lparr>it_handle = gen_handle g\<rparr> ?f = Some (take n (0 # yields Fibonacci_step n (1, 1)), f)"
      "gf_resumes f = Suc n" by auto
  have "0 # yields Fibonacci_step n (1, 1) = yields Fibonacci_step (Suc n) (0, 1)" by simp
  then have "take n (0 # yields Fibonacci_step n (1, 1)) = yields Fibonacci_step n (0, 1)" by (simp only: take_yields)
  with yields_Fibonacci [of n 0] f begin' show ?thesis by (simp add: first_fibonacci_def)
qed

lemma range_for_all:
  assumes "gen_handle g \<noteq> 0" and "length (yields step n b) < n"
  shows "\<exists>f. range_for step n g (GeneratorPromise_init b) = Some (yields step n b, f) \<and> gf_done f"
  using generator_range_for [OF assms(1), of n step b] assms(2) by auto

text \<open>
  The example generators.  A range-for loop over \<open>Range(start, end)\<close> that does not break sees exactly the
  integers from \<open>start\<close> to \<open>end - 1\<close>, none if there are none, over the whole range of \<open>int\<close>, and ends; filtered
  for even numbers it gives the even ones.  Over \<open>Squares(n)\<close>, for \<open>n\<close> up to 46340, it sees the squares
  of 1 to \<open>n\<close> and ends.  The iterator over the endless \<open>Fibonacci()\<close> gives the first \<open>n\<close> Fibonacci numbers,
  exactly as far as \<open>long long\<close> reaches, after \<open>n + 1\<close> resumptions: nothing is computed further ahead.
\<close>

theorem generator_examples:
  assumes "gen_handle g \<noteq> 0"
  shows "(nat (sint end' - sint start) < n \<longrightarrow>
      (\<exists>xs f. range_for Range_step n g (GeneratorPromise_init (Range_body start end')) = Some (xs, f) \<and> gf_done f \<and>
         map sint xs = [sint start..sint end' - 1] \<and>
         map_option (map sint) (even_numbers start end' n g) = Some (filter even [sint start..sint end' - 1]))) \<and>
    (sint m \<le> 46340 \<and> nat (sint m) < n \<longrightarrow>
      (\<exists>xs f. range_for Squares_step n g (GeneratorPromise_init (Squares m)) = Some (xs, f) \<and> gf_done f \<and>
         map sint xs = map (\<lambda>j. j * j) [1..sint m])) \<and>
    (n \<le> 93 \<longrightarrow>
      (\<exists>xs f. first_fibonacci n g = Some (xs, f) \<and> map sint xs = map (int \<circ> fib) [0..<n] \<and> gf_resumes f = Suc n))"
proof (intro conjI impI)
  assume n: "nat (sint end' - sint start) < n"
  have r: "map sint (yields Range_step n (start, end')) = [sint start..sint end' - 1]" by (rule yields_Range [OF n])
  from arg_cong [OF this, of length] have "length (yields Range_step n (start, end')) < n" using n by simp
  from range_for_all [OF assms this] obtain f where
    f: "range_for Range_step n g (GeneratorPromise_init (Range_body start end')) = Some (yields Range_step n (start, end'), f)" "gf_done f"
    by (auto simp: Range_body_def)
  have "map sint (filter (\<lambda>x. sint x mod 2 = 0) xs) = filter even (map sint xs)" for xs :: "32 word list"
    by (simp add: filter_map comp_def even_iff_mod_2_eq_zero)
  with r f show "\<exists>xs f. range_for Range_step n g (GeneratorPromise_init (Range_body start end')) = Some (xs, f) \<and> gf_done f \<and>
         map sint xs = [sint start..sint end' - 1] \<and>
         map_option (map sint) (even_numbers start end' n g) = Some (filter even [sint start..sint end' - 1])"
    by (auto simp: even_numbers_def)
next
  assume m: "sint m \<le> 46340 \<and> nat (sint m) < n"
  then have s: "map sint (yields Squares_step n (1, m)) = map (\<lambda>j. j * j) [1..sint m]" by (subst yields_Squares) simp_all
  from arg_cong [OF this, of length] have "length (yields Squares_step n (1, m)) = nat (sint m)" by simp
  with m range_for_all [OF assms, of Squares_step n "(1, m)"] s
  show "\<exists>xs f. range_for Squares_step n g (GeneratorPromise_init (Squares m)) = Some (xs, f) \<and> gf_done f \<and>
         map sint xs = map (\<lambda>j. j * j) [1..sint m]"
    by (auto simp: Squares_def)
next
  assume n: "n \<le> 93"
  have "sint (word_of_nat (fib j) :: 64 word) = int (fib j)" if "j < n" for j
    using fib_mono [of j 92] fib_92 that n by (simp add: signed_of_nat signed_take_bit_int_eq_self)
  then show "\<exists>xs f. first_fibonacci n g = Some (xs, f) \<and> map sint xs = map (int \<circ> fib) [0..<n] \<and> gf_resumes f = Suc n"
    using first_fibonacci_eq [OF assms, of n] by fastforce
qed

theorem generator_examples_witness:
  "\<exists>xs f. range_for Range_step 10 \<lparr>gen_handle = 7\<rparr> (GeneratorPromise_init (Range_body 1 4)) = Some (xs, f) \<and> map sint xs = [1, 2, 3]"
proof -
  have "gen_handle \<lparr>gen_handle = 7\<rparr> \<noteq> 0" by simp
  from generator_examples [OF this, where end' = 4 and start = 1 and n = 10 and m = 0] show ?thesis by (auto simp: upto_rec1)
qed

text \<open>From 46341 on the squares do not fit an \<open>int\<close>; with wrap-around the first one is negative.\<close>

lemma square_overflows: "sint (46341 * 46341 :: 32 word) < 0"
  by simp

end
