(* ===== verification/Ex_Echo_Server.thy ===== *)
theory Ex_Echo_Server
  imports Iouring_Tcp Spawn_Run Task
begin

text \<open>
  The echo servers \<open>examples/06_iouring_echo_server.cpp\<close> (io_uring) and \<open>examples/04_tcp_echo_server.cpp\<close> (libuv).
  First one client of the io_uring server, with the bytes that go through its socket; then that
  server as a whole, its accept loop and its clients interleaved, with \<open>g_connection_count\<close> and the stop.  The libuv
  server is the same program but for one thing: how it starts a client's handler, and so what becomes of the
  handler's frame, is the last part.
\<close>

subsection \<open>One client over io_uring\<close>

text \<open>
  The loop of \<open>HandleClient\<close>: it runs until the client is gone, so its result is \<open>None\<close> if it runs forever.
  As in theory Uring_Await every awaited request completes: a client that stays connected and silent, for which \<open>Read\<close>
  stays suspended, is not described.
  \<open>received\<close> are the messages so far, which it prints.
\<close>

partial_function (option) HandleClient_loop ::
  "'k uring_env \<Rightarrow> IoUringTcpStream \<Rightarrow> string list \<Rightarrow> 'k \<Rightarrow> (IoUringTcpStream \<times> string list \<times> 'k) option" where
  "HandleClient_loop env client received k =
    (if IoUringTcpStream_IsOpen client
     then case IoUringTcpStream_Read env 4096 client k of (data, client, k) \<Rightarrow>
       (if data = [] then Some (client, received, k)
        else case IoUringTcpStream_Write env (''Echo: '' @ data) client k of (_, k) \<Rightarrow>
          HandleClient_loop env client (received @ [data]) k)
     else Some (client, received, k))"

definition MAX_CONNECTIONS :: int where "MAX_CONNECTIONS = 3"

text \<open>
  The rest of \<open>HandleClient\<close>: \<open>connections\<close> is \<open>g_connection_count\<close>, an \<open>int\<close> that is not taken to its overflow; the flag says that it stops the executor.
  The destructor of \<open>client\<close> runs at the end.
\<close>

definition HandleClient ::
  "'k posix \<Rightarrow> 'k uring_env \<Rightarrow> IoUringTcpStream \<Rightarrow> int \<Rightarrow> 'k \<Rightarrow> (string list \<times> int \<times> bool \<times> 'k) option" where
  "HandleClient px env client connections k =
    (case HandleClient_loop env client [] k of
       None \<Rightarrow> None
     | Some (client, received, k) \<Rightarrow>
         let (client, k) = IoUringTcpStream_Close px client k;
             connections = connections + 1;
             stop = (connections \<ge> MAX_CONNECTIONS);
             k = IoUringTcpStream_destroy px client k
         in Some (received, connections, stop, k))"

text \<open>
  A connected socket: sends take bytes in order, receives deliver the bytes that arrive in order, and
  neither disturbs the other direction.
\<close>

definition uring_socket_ok :: "'k uring_env \<Rightarrow> int \<Rightarrow> ('k \<Rightarrow> string) \<Rightarrow> ('k \<Rightarrow> string) \<Rightarrow> bool" where
  "uring_socket_ok env fd sent arriving \<longleftrightarrow>
    uring_send_ok env fd sent \<and> uring_recv_ok env fd arriving \<and>
    (\<forall>len fl mem k n f out k'. ue_complete env (PrepSend fd 0 len fl) mem k = (n, f, out, k') \<longrightarrow> arriving k' = arriving k) \<and>
    (\<forall>len fl mem k n f out k'. ue_complete env (PrepRecv fd 0 len fl) mem k = (n, f, out, k') \<longrightarrow> sent k' = sent k)"

lemma Send_arriving:
  assumes "uring_socket_ok env fd sent arriving" and "IoUringSend env fd d len fl k = (r, k')"
  shows "arriving k' = arriving k"
  using assms by (auto simp: uring_socket_ok_def io_calls io_call_def split: prod.splits if_splits)

lemma Write_loop_arriving:
  assumes "uring_socket_ok env fd sent arriving"
  shows "Write_loop env fd d pos k = (r, k') \<Longrightarrow> arriving k' = arriving k"
  using assms
proof (induction env fd d pos k arbitrary: r k' rule: Write_loop.induct)
  case (1 env fd d pos k)
  obtain r1 k1 where send: "IoUringSend env fd (drop pos d) (of_nat (length d - pos)) MSG_NOSIGNAL k = (r1, k1)"
    by (cases "IoUringSend env fd (drop pos d) (of_nat (length d - pos)) MSG_NOSIGNAL k")
  show ?case
    using 1 send Send_arriving [OF 1(3) send] by (subst (asm) (2) Write_loop.simps) (auto split: if_splits)
qed

lemma Write_arriving:
  "uring_socket_ok env (its_fd s) sent arriving \<Longrightarrow> IoUringTcpStream_Write env d s k = (r, k') \<Longrightarrow> arriving k' = arriving k"
  by (auto simp: IoUringTcpStream_Write_def dest: Write_loop_arriving split: if_splits)

lemma Read_sent:
  "uring_socket_ok env (its_fd s) sent arriving \<Longrightarrow> IoUringTcpStream_Read env n s k = (d, s', k') \<Longrightarrow>
   sent k' = sent k \<and> its_fd s' = its_fd s \<and> (d \<noteq> [] \<longrightarrow> s' = s)"
  by (auto simp: uring_socket_ok_def IoUringTcpStream_Read_def io_calls io_call_def Let_def split: prod.splits if_splits)

text \<open>
  The replies to messages when the kernel took only \<open>ns ! i\<close> bytes of the \<open>i\<close>-th one.
\<close>

definition replies :: "nat list \<Rightarrow> string list \<Rightarrow> string" where
  "replies ns ms = concat (map2 (\<lambda>n m. take n (''Echo: '' @ m)) ns ms)"

definition full :: "nat list \<Rightarrow> string list \<Rightarrow> bool" where
  "full ns ms \<longleftrightarrow> ns = map (\<lambda>m. length (''Echo: '' @ m)) ms"

lemma replies_full: "full ns ms \<Longrightarrow> replies ns ms = concat (map ((@) ''Echo: '') ms)"
  unfolding full_def by (induction ms arbitrary: ns) (simp_all add: replies_def)

lemma replies_snoc: "length ns = length ms \<Longrightarrow> replies (ns @ [n]) (ms @ [m]) = replies ns ms @ take n (''Echo: '' @ m)"
  by (simp add: replies_def)

text \<open>A socket on which no send fails: every request is submitted and takes at least one byte.\<close>

definition uring_send_progress :: "'k uring_env \<Rightarrow> int \<Rightarrow> bool" where
  "uring_send_progress env fd \<longleftrightarrow> (\<forall>k. submittable env k) \<and>
    (\<forall>len fl mem k n f out k'. ue_complete env (PrepSend fd 0 len fl) mem k = (n, f, out, k') \<longrightarrow> 0 < len \<longrightarrow> 0 < n)"

lemma Write_loop_full:
  assumes "uring_send_progress env fd" and "uring_send_ok env fd sent" and "length d < 2 ^ 32" and "pos \<le> length d"
  shows "fst (Write_loop env fd d pos k) = int (length d)"
  using assms
proof (induction env fd d pos k rule: Write_loop.induct)
  case (1 env fd d pos k)
  let ?n = "length d - pos"
  obtain r k1 where send: "IoUringSend env fd (drop pos d) (of_nat ?n) MSG_NOSIGNAL k = (r, k1)"
    by (cases "IoUringSend env fd (drop pos d) (of_nat ?n) MSG_NOSIGNAL k")
  have len: "unat (ucast (of_nat ?n :: size_t) :: uint32) = ?n"
    using 1(4) by (simp add: unsigned_ucast_eq unat_of_nat take_bit_eq_mod)
  have "0 < r" if "pos < length d"
  proof -
    have "0 < (ucast (of_nat ?n :: size_t) :: uint32)" using len that by (metis unat_0 word_neq_0_conv zero_less_diff less_irrefl)
    moreover obtain f out where
      "ue_complete env (PrepSend fd 0 (ucast (of_nat ?n :: size_t)) MSG_NOSIGNAL) (MemBytes (drop pos d)) k = (r, f, out, k1)"
      using 1(2) send by (auto simp: uring_send_progress_def io_calls io_call_def split: prod.splits)
    ultimately show ?thesis using 1(2) unfolding uring_send_progress_def by blast
  qed
  moreover have "r \<le> int ?n"
    using uring_send [OF 1(3), of MSG_NOSIGNAL] send by (auto simp: send_ok_def dest: spec [of _ "drop pos d"] split: prod.splits)
  ultimately show ?case
    using 1 send by (cases "pos < length d") (subst Write_loop.simps, auto simp: nat_le_iff)+
qed

lemma HandleClient_loop_echo:
  assumes "uring_socket_ok env (its_fd client) sent arriving" and "[] \<notin> set received" and "length ns = length received"
    and "sent k = out @ replies ns received" and "uring_send_progress env (its_fd client) \<longrightarrow> full ns received"
  shows "\<exists>client' received' ns' k'. HandleClient_loop env client received k = Some (client', received @ received', k') \<and>
    its_fd client' = its_fd client \<and> [] \<notin> set received' \<and> arriving k = concat received' @ arriving k' \<and>
    length ns' = length (received @ received') \<and> sent k' = out @ replies ns' (received @ received') \<and>
    (uring_send_progress env (its_fd client) \<longrightarrow> full ns' (received @ received'))"
  using assms
proof (induction "length (arriving k)" arbitrary: client received ns k rule: less_induct)
  case less
  obtain d c1 k1 where rd: "IoUringTcpStream_Read env 4096 client k = (d, c1, k1)"
    by (cases "IoUringTcpStream_Read env 4096 client k")
  have recv: "uring_recv_ok env (its_fd client) arriving" and send: "uring_send_ok env (its_fd client) sent"
    using less.prems(1) by (auto simp: uring_socket_ok_def)
  note r1 = Read_effect [OF recv rd] and r2 = Read_sent [OF less.prems(1) rd]
  show ?case
  proof (cases "IoUringTcpStream_IsOpen client \<and> d \<noteq> []")
    case False
    define kk where "kk = (if IoUringTcpStream_IsOpen client then k1 else k)"
    define cc where "cc = (if IoUringTcpStream_IsOpen client then c1 else client)"
    have "HandleClient_loop env client received k = Some (cc, received @ [], kk)"
      using False rd by (subst HandleClient_loop.simps) (simp add: kk_def cc_def)
    moreover have "its_fd cc = its_fd client" "arriving k = concat [] @ arriving kk" "sent kk = sent k"
      using False r1 r2 by (auto simp: kk_def cc_def)
    ultimately show ?thesis using less.prems(3,4,5) by (intro exI [of _ cc] exI [of _ "[]"] exI [of _ ns] exI [of _ kk]) simp
  next
    case True
    then have c1: "c1 = client" and open': "IoUringTcpStream_IsOpen client" and d: "d \<noteq> []" using r2 by auto
    obtain r k2 where wr: "IoUringTcpStream_Write env (''Echo: '' @ d) client k1 = (r, k2)"
      by (cases "IoUringTcpStream_Write env (''Echo: '' @ d) client k1")
    note w1 = Write_effect [OF send open' wr] and w2 = Write_arriving [OF less.prems(1) wr]
    have k: "arriving k = d @ arriving k2" using r1 w2 by simp
    have loop: "HandleClient_loop env client received k = HandleClient_loop env client (received @ [d]) k2"
      using rd wr d open' c1 by (subst HandleClient_loop.simps) simp
    have "sent k2 = out @ replies (ns @ [nat r]) (received @ [d])"
      using w1 r2 less.prems(3,4) by (simp add: replies_snoc)
    moreover have "uring_send_progress env (its_fd client) \<longrightarrow> full (ns @ [nat r]) (received @ [d])"
    proof
      assume p: "uring_send_progress env (its_fd client)"
      have "r = int (length (''Echo: '' @ d))"
        using Write_loop_full [OF p send, of "''Echo: '' @ d" 0 k1] wr open' r1 by (simp add: IoUringTcpStream_Write_def)
      with p less.prems(5) show "full (ns @ [nat r]) (received @ [d])" by (simp add: full_def)
    qed
    moreover have "length (arriving k2) < length (arriving k)" "[] \<notin> set (received @ [d])"
      "length (ns @ [nat r]) = length (received @ [d])" using k d less.prems(2,3) by auto
    ultimately obtain client' received' ns' k' where
      "HandleClient_loop env client (received @ [d]) k2 = Some (client', (received @ [d]) @ received', k')"
      "its_fd client' = its_fd client" "[] \<notin> set received'" "arriving k2 = concat received' @ arriving k'"
      "length ns' = length ((received @ [d]) @ received')" "sent k' = out @ replies ns' ((received @ [d]) @ received')"
      "uring_send_progress env (its_fd client) \<longrightarrow> full ns' ((received @ [d]) @ received')"
      using less.hyps [of k2 client "received @ [d]" "ns @ [nat r]", OF _ less.prems(1)] by blast
    then show ?thesis
      unfolding loop using k d by (intro exI [of _ client'] exI [of _ "d # received'"] exI [of _ ns'] exI [of _ k']) simp
  qed
qed

text \<open>
  Property C39 (a client of the echo server).  Over any kernel that transfers bytes in order in pieces and completes
  every request, so that a receive with nothing left to deliver reports the end of the stream or an error (the client
  has closed its side or failed; one that stays connected and silent keeps \<open>Read\<close> suspended and is not covered), the
  handler of a client comes to its end.  The messages it has received are
  pieces of what arrived, in order and none empty; what it sent is a reply \<open>Echo: \<close> and the message for each of
  them, in order, each cut where the kernel refused the rest of it, and none cut if no send fails; the
  connection is counted, and the third and every later one stops the executor.
\<close>

theorem echo_client:
  assumes "uring_socket_ok env (its_fd client) sent arriving"
    and "\<And>k. sent (px_close px (its_fd client) k) = sent k \<and> arriving (px_close px (its_fd client) k) = arriving k"
  shows "\<exists>received ns k'. HandleClient px env client n k = Some (received, n + 1, n + 1 \<ge> MAX_CONNECTIONS, k') \<and>
    arriving k = concat received @ arriving k' \<and> [] \<notin> set received \<and>
    length ns = length received \<and> sent k' = sent k @ replies ns received \<and>
    (uring_send_progress env (its_fd client) \<longrightarrow> sent k' = sent k @ concat (map ((@) ''Echo: '') received))"
proof -
  have "sent k = sent k @ replies [] []" "uring_send_progress env (its_fd client) \<longrightarrow> full [] []"
    by (simp_all add: replies_def full_def)
  from HandleClient_loop_echo [OF assms(1) _ _ this] obtain c received ns k1 where
    loop: "HandleClient_loop env client [] k = Some (c, received, k1)" "its_fd c = its_fd client" "[] \<notin> set received"
      "arriving k = concat received @ arriving k1" "length ns = length received" "sent k1 = sent k @ replies ns received"
      "uring_send_progress env (its_fd client) \<longrightarrow> full ns received" by auto
  define c2 where "c2 = fst (IoUringTcpStream_Close px c k1)"
  define k2 where "k2 = IoUringTcpStream_destroy px c2 (snd (IoUringTcpStream_Close px c k1))"
  have "sent k2 = sent k1" "arriving k2 = arriving k1"
    using assms(2) loop(2) by (auto simp: k2_def c2_def IoUringTcpStream_destroy_def IoUringTcpStream_Close_def)
  moreover have "HandleClient px env client n k = Some (received, n + 1, n + 1 \<ge> MAX_CONNECTIONS, k2)"
    by (simp add: HandleClient_def loop(1) k2_def c2_def case_prod_unfold Let_def)
  ultimately show ?thesis
    using loop(3-7) replies_full [of ns received] by (intro exI [of _ received] exI [of _ ns] exI [of _ k2]) auto
qed

theorem echo_client_witness:
  "\<exists>received ns k'. HandleClient toy_posix toy_net \<lparr>its_fd = 3, its_closed = False\<rparr> 2
      \<lparr>tk_open = [3], tk_sent = [], tk_arriving = ''abc'', tk_buffer = []\<rparr> = Some (received, 3, True, k') \<and>
    ''abc'' = concat received @ tk_arriving k' \<and> tk_sent k' = replies ns received"
proof -
  let ?c = "\<lparr>its_fd = 3, its_closed = False\<rparr>"
    and ?k = "\<lparr>tk_open = [3], tk_sent = [], tk_arriving = ''abc'', tk_buffer = []\<rparr>"
  have "uring_socket_ok toy_net (its_fd ?c) tk_sent tk_arriving"
    unfolding uring_socket_ok_def using toy_net_ok(1,2)
    by (auto simp: toy_net_def Let_def split: io_mem.splits)
  moreover have "\<And>k. tk_sent (px_close toy_posix (its_fd ?c) k) = tk_sent k \<and> tk_arriving (px_close toy_posix (its_fd ?c) k) = tk_arriving k"
    by (simp add: toy_posix_def)
  ultimately obtain received ns k' where
    "HandleClient toy_posix toy_net ?c 2 ?k = Some (received, 2 + 1, 2 + 1 \<ge> MAX_CONNECTIONS, k')"
    "tk_arriving ?k = concat received @ tk_arriving k'" "tk_sent k' = tk_sent ?k @ replies ns received"
    using echo_client [of toy_net ?c tk_sent tk_arriving toy_posix 2 ?k] by blast
  then show ?thesis by (auto simp: MAX_CONNECTIONS_def)
qed

subsection \<open>The server\<close>

text \<open>
  \<open>RunServer\<close> and the handlers it has spawned, on one thread: the events are what resumes them, an accepted
  stream or none, what \<open>IsOpen\<close> and \<open>Read\<close> return, a finished write.
\<close>

datatype client_phase = ClientLoop | ClientReading | ClientWriting | ClientDone

record client =
  cl_id :: int
  cl_phase :: client_phase
  cl_received :: "string list"
  cl_written :: "string list"

record echo_world =
  ew_accepting :: bool
  ew_client_id :: int
  ew_clients :: "client list"
  g_connection_count :: int
  ew_stops :: nat

definition RunServer_start :: "int \<Rightarrow> int \<Rightarrow> echo_world" where
  "RunServer_start bind_result listen_result =
    (let failed = (bind_result \<noteq> 0 \<or> listen_result \<noteq> 0)
     in \<lparr>ew_accepting = \<not> failed, ew_client_id = 0, ew_clients = [], g_connection_count = 0,
         ew_stops = (if failed then 1 else 0)\<rparr>)"

definition RunServer_accepted :: "bool \<Rightarrow> echo_world \<Rightarrow> echo_world" where
  "RunServer_accepted stream w =
    (let w = (if stream
              then let id = ew_client_id w + 1
                in w\<lparr>ew_client_id := id,
                     ew_clients := ew_clients w @ [\<lparr>cl_id = id, cl_phase = ClientLoop, cl_received = [], cl_written = []\<rparr>]\<rparr>
              else w)
     in w\<lparr>ew_accepting := g_connection_count w < MAX_CONNECTIONS\<rparr>)"

definition set_client :: "nat \<Rightarrow> client \<Rightarrow> echo_world \<Rightarrow> echo_world" where
  "set_client i c w = w\<lparr>ew_clients := (ew_clients w)[i := c]\<rparr>"

text \<open>After the loop: \<open>Close\<close>, the count, and the stop.\<close>

definition client_leaves :: "nat \<Rightarrow> echo_world \<Rightarrow> echo_world" where
  "client_leaves i w =
    (let w = set_client i ((ew_clients w ! i)\<lparr>cl_phase := ClientDone\<rparr>) w;
         w = w\<lparr>g_connection_count := g_connection_count w + 1\<rparr>
     in if g_connection_count w \<ge> MAX_CONNECTIONS then w\<lparr>ew_stops := Suc (ew_stops w)\<rparr> else w)"

definition client_loop :: "nat \<Rightarrow> bool \<Rightarrow> echo_world \<Rightarrow> echo_world" where
  "client_loop i is_open w =
    (if is_open then set_client i ((ew_clients w ! i)\<lparr>cl_phase := ClientReading\<rparr>) w else client_leaves i w)"

definition client_read :: "nat \<Rightarrow> string \<Rightarrow> echo_world \<Rightarrow> echo_world" where
  "client_read i data w =
    (let c = ew_clients w ! i in
     if data = [] then client_leaves i w
     else set_client i (c\<lparr>cl_phase := ClientWriting, cl_received := cl_received c @ [data],
                          cl_written := cl_written c @ [''Echo: '' @ data]\<rparr>) w)"

datatype echo_event = EAccept bool | ELoop nat bool | ERead nat string | EWritten nat

definition client_at :: "nat \<Rightarrow> client_phase \<Rightarrow> echo_world \<Rightarrow> bool" where
  "client_at i ph w \<longleftrightarrow> i < length (ew_clients w) \<and> cl_phase (ew_clients w ! i) = ph"

fun echo_step :: "echo_event \<Rightarrow> echo_world \<Rightarrow> echo_world option" where
  "echo_step (EAccept stream) w = (if ew_accepting w then Some (RunServer_accepted stream w) else None)"
| "echo_step (ELoop i is_open) w = (if client_at i ClientLoop w then Some (client_loop i is_open w) else None)"
| "echo_step (ERead i data) w = (if client_at i ClientReading w then Some (client_read i data w) else None)"
| "echo_step (EWritten i) w =
     (if client_at i ClientWriting w then Some (set_client i ((ew_clients w ! i)\<lparr>cl_phase := ClientLoop\<rparr>) w) else None)"

fun echo_exec :: "echo_event list \<Rightarrow> echo_world \<Rightarrow> echo_world option" where
  "echo_exec [] w = Some w"
| "echo_exec (e # es) w = Option.bind (echo_step e w) (echo_exec es)"

definition client_ok :: "int \<Rightarrow> client \<Rightarrow> bool" where
  "client_ok i c \<longleftrightarrow> cl_id c = i \<and> [] \<notin> set (cl_received c) \<and> cl_written c = map ((@) ''Echo: '') (cl_received c)"

definition done_count :: "echo_world \<Rightarrow> nat" where
  "done_count w = length (filter (\<lambda>c. cl_phase c = ClientDone) (ew_clients w))"

definition echo_inv :: "echo_world \<Rightarrow> bool" where
  "echo_inv w \<longleftrightarrow>
     (\<forall>i < length (ew_clients w). client_ok (int i + 1) (ew_clients w ! i)) \<and>
     ew_client_id w = int (length (ew_clients w)) \<and> g_connection_count w = int (done_count w) \<and>
     ew_stops w = done_count w - 2 \<and> (ew_accepting w \<or> 3 \<le> done_count w)"

lemma done_count_set:
  assumes "i < length (ew_clients w)" and "cl_phase (ew_clients w ! i) \<noteq> ClientDone"
  shows "done_count (set_client i c w) = (if cl_phase c = ClientDone then Suc (done_count w) else done_count w)"
proof -
  have "length (filter P (xs[i := c])) = (if P c then Suc (length (filter P xs)) else length (filter P xs))"
    if "i < length xs" "\<not> P (xs ! i)" for P and xs :: "client list"
    using that by (induction xs arbitrary: i) (auto split: nat.splits)
  from this [OF assms(1), of "\<lambda>c. cl_phase c = ClientDone"] assms(2) show ?thesis
    by (simp add: done_count_def set_client_def)
qed

lemma client_ok_phase [simp]: "client_ok i (c\<lparr>cl_phase := p\<rparr>) = client_ok i c"
  by (simp add: client_ok_def)

lemma echo_inv_set:
  assumes inv: "echo_inv w" and i: "i < length (ew_clients w)" "cl_phase (ew_clients w ! i) \<noteq> ClientDone"
    and c: "client_ok (int i + 1) c" "cl_phase c \<noteq> ClientDone"
  shows "echo_inv (set_client i c w)"
proof -
  have "\<forall>j < length (ew_clients w). client_ok (int j + 1) ((ew_clients w)[i := c] ! j)"
    using inv c i by (auto simp: echo_inv_def nth_list_update)
  with inv done_count_set [OF i, of c] c(2) show ?thesis by (simp add: echo_inv_def set_client_def)
qed

lemma echo_inv_leaves:
  assumes inv: "echo_inv w" and i: "i < length (ew_clients w)" "cl_phase (ew_clients w ! i) \<noteq> ClientDone"
  shows "echo_inv (client_leaves i w)"
proof -
  let ?c = "(ew_clients w ! i)\<lparr>cl_phase := ClientDone\<rparr>"
  have "\<forall>j < length (ew_clients w). client_ok (int j + 1) ((ew_clients w)[i := ?c] ! j)"
    using inv i by (auto simp: echo_inv_def nth_list_update)
  with inv done_count_set [OF i, of ?c] show ?thesis
    by (auto simp: echo_inv_def client_leaves_def set_client_def MAX_CONNECTIONS_def done_count_def Let_def)
qed

lemma echo_step_inv:
  assumes inv: "echo_inv w" and step: "echo_step e w = Some w'"
  shows "echo_inv w'"
proof -
  have ok: "client_ok (int i + 1) (ew_clients w ! i)" if "client_at i ph w" for i ph
    using inv that by (simp add: echo_inv_def client_at_def)
  show ?thesis
  proof (cases e)
    case (EAccept stream)
    with inv step show ?thesis
      by (auto simp: echo_inv_def RunServer_accepted_def client_ok_def done_count_def nth_append less_Suc_eq MAX_CONNECTIONS_def
          Let_def split: if_splits)
  next
    case (ELoop i b)
    with step ok [of i ClientLoop] show ?thesis
      by (auto simp: client_loop_def client_at_def intro!: echo_inv_set [OF inv] echo_inv_leaves [OF inv] split: if_splits)
  next
    case (ERead i d)
    with step ok [of i ClientReading] show ?thesis
      by (auto simp: client_read_def client_at_def Let_def intro!: echo_inv_set [OF inv] echo_inv_leaves [OF inv] split: if_splits)
        (auto simp: client_ok_def)
  next
    case (EWritten i)
    with step ok [of i ClientWriting] show ?thesis
      by (auto simp: client_at_def intro!: echo_inv_set [OF inv] split: if_splits)
  qed
qed

lemma echo_exec_inv: "echo_inv w \<Longrightarrow> echo_exec es w = Some w' \<Longrightarrow> echo_inv w'"
  by (induction es arbitrary: w) (auto simp: bind_eq_Some_conv dest: echo_step_inv)

text \<open>
  The echo server counts and stops: however accepts and the clients' reads and writes interleave, as
  long as \<open>Bind\<close> and \<open>Listen\<close> succeed: clients are numbered in the order they were accepted; every client has been written exactly
  \<open>Echo: \<close> and the message for each message read from it, in order; \<open>g_connection_count\<close> is the number of clients that
  have left; the executor has been stopped once for each client from the third on, and so not before; and the accept loop is
  left only then.  If \<open>Bind\<close> or \<open>Listen\<close> fails, nobody is accepted and the executor is stopped once.
\<close>

theorem echo_server:
  assumes "echo_exec es (RunServer_start bind_result listen_result) = Some w"
  shows "if bind_result = 0 \<and> listen_result = 0
    then (\<forall>i < length (ew_clients w). client_ok (int i + 1) (ew_clients w ! i)) \<and>
      g_connection_count w = int (done_count w) \<and> ew_stops w = done_count w - 2 \<and> (ew_accepting w \<or> 3 \<le> done_count w)
    else w = RunServer_start bind_result listen_result \<and> ew_clients w = [] \<and> \<not> ew_accepting w \<and> ew_stops w = 1"
proof (cases "bind_result = 0 \<and> listen_result = 0")
  case True
  then have "echo_inv (RunServer_start bind_result listen_result)"
    by (simp add: echo_inv_def RunServer_start_def done_count_def)
  from echo_exec_inv [OF this assms] show ?thesis using True by (auto simp: echo_inv_def)
next
  case False
  have "echo_step e (RunServer_start bind_result listen_result) = None" for e
    using False by (cases e) (auto simp: RunServer_start_def client_at_def Let_def)
  with assms have "w = RunServer_start bind_result listen_result" by (cases es) auto
  with False show ?thesis by (auto simp: RunServer_start_def Let_def)
qed

theorem echo_server_witness:
  "\<exists>w. echo_exec [EAccept True, ELoop 0 True, ERead 0 ''hi'', EWritten 0, ELoop 0 True, ERead 0 []] (RunServer_start 0 0) = Some w \<and>
     map cl_written (ew_clients w) = [[''Echo: hi'']] \<and> g_connection_count w = 1 \<and> ew_stops w = 0"
proof -
  let ?es = "[EAccept True, ELoop 0 True, ERead 0 ''hi'', EWritten 0, ELoop 0 True, ERead 0 []]"
  obtain w where w: "echo_exec ?es (RunServer_start 0 0) = Some w" "map cl_written (ew_clients w) = [[''Echo: hi'']]" "done_count w = 1"
    by (simp add: RunServer_start_def RunServer_accepted_def client_at_def client_loop_def client_read_def client_leaves_def
        set_client_def MAX_CONNECTIONS_def done_count_def Let_def)
  from echo_server [OF w(1)] w(3) have "g_connection_count w = 1" "ew_stops w = 0" by auto
  with w(1,2) show ?thesis by (intro exI [of _ w] conjI)
qed

subsection \<open>How a handler is started\<close>

text \<open>
  The libuv server of example 04 makes the handler a local variable, schedules its frame and leaves the block,
  which destroys the frame; the result is the executor and the frames destroyed.
\<close>

definition RunServer_start_handler :: "handle \<Rightarrow> LibuvExecutor \<Rightarrow> LibuvExecutor \<times> handle list" where
  "RunServer_start_handler h executor =
    (let handler = \<lparr>taskv_handle = h\<rparr>;
         executor = LibuvExecutor_Schedule (taskv_handle handler) executor
     in (executor, TaskVoid_destroy handler))"

text \<open>
  The frame is destroyed while it is queued, and the callbacks libuv owes resume it: from every state of
  the executor in which no wake-up is lost, the server uses a handler's frame after it was freed.
\<close>

lemma handler_resumed_after_destroy:
  assumes "awake_ok (lw_state w)" and "h \<noteq> 0" and start: "RunServer_start_handler h (lw_state w) = (s, destroyed)"
  shows "destroyed = [h] \<and>
    (\<exists>es w' l. (\<forall>e \<in> set es. loop_event e) \<and> libuv_exec body init_ok es (w\<lparr>lw_state := s\<rparr>) = Some w' \<and>
       resumed {h} (lw_log w') = resumed {h} (lw_log w) @ l \<and> l \<noteq> [])"
proof -
  let ?w = "w\<lparr>lw_state := s\<rparr>"
  have s: "s = libuv_cmd (DoSchedule h) (lw_state w)" and d: "destroyed = [h]"
    using start assms(2) by (auto simp: RunServer_start_handler_def TaskVoid_destroy_def Let_def)
  have q: "h \<in> set (lu_ready_queue s)" and aw: "awake_ok (lw_state ?w)" and work: "has_work (lw_state ?w)"
    using cmd_awake [OF assms(1), of "DoSchedule h"] by (auto simp: s has_work_def LibuvExecutor_Schedule_def)
  from idle_reached [OF aw work, of body init_ok] obtain es w1 where
    es: "\<forall>e \<in> set es. loop_event e" "libuv_exec body init_ok es ?w = Some w1" "lw_log w1 = lw_log w" "lu_uv_idle (lw_state w1)"
      "lu_ready_queue (lw_state w1) = lu_ready_queue s" by auto
  let ?w2 = "LibuvExecutor_OnIdle body init_ok w1"
  have idle: "libuv_exec body init_ok (es @ [UvIdle]) ?w = Some ?w2" by (simp add: libuv_exec_append es(2,4))
  from idle_resumes [of h "{h}" w1 body init_ok] q assms(2) es(3,5) obtain l where
    l: "resumed {h} (lw_log ?w2) = resumed {h} (lw_log w) @ l" "l \<noteq> [] \<or> h \<in> snd ` set (lu_active (lw_state ?w2))" by auto
  have "\<exists>es w' l. (\<forall>e \<in> set es. loop_event e) \<and> libuv_exec body init_ok es ?w = Some w' \<and>
       resumed {h} (lw_log w') = resumed {h} (lw_log w) @ l \<and> l \<noteq> []"
  proof (cases "l = []")
    case False
    then show ?thesis using es(1) idle l(1) by (intro exI [of _ "es @ [UvIdle]"] exI [of _ ?w2] exI [of _ l]) auto
  next
    case True
    with l(2) obtain i where "(i, h) \<in> set (lu_active (lw_state ?w2))" by force
    from timer_resumes [OF this, of "{h}" body init_ok] assms(2) obtain w3 l' where
      w3: "libuv_step body init_ok (UvTimer i h) ?w2 = Some w3" "resumed {h} (lw_log w3) = resumed {h} (lw_log ?w2) @ l'" "l' \<noteq> []" by auto
    have "libuv_exec body init_ok ((es @ [UvIdle]) @ [UvTimer i h]) ?w = Some w3"
      unfolding libuv_exec_append [of _ _ "es @ [UvIdle]"] idle using w3(1) by simp
    then show ?thesis
      using es(1) w3(2,3) l(1) True by (intro exI [of _ "(es @ [UvIdle]) @ [UvTimer i h]"] exI [of _ w3] exI [of _ l']) auto
  qed
  with d show ?thesis by blast
qed

end
