(* ===== verification/Ex_Echo_Uv.thy ===== *)
theory Ex_Echo_Uv
  imports Tcp_Await
begin

text \<open>
  The client handler of \<open>examples/04_tcp_echo_server.cpp\<close> over the libuv streams.  \<open>cbs\<close> are the read callbacks of
  libuv, \<open>ws\<close> its answers to the writes; the result is \<open>None\<close> while the handler waits for one of them.
  This is the handler as written, with a frame that lives until it ends; \<open>Ex_Echo_Server\<close> shows that the server of the
  example destroys it earlier.
\<close>

text \<open>What \<open>HandleClient\<close> prints as received, the calls it makes to libuv, and the stream.\<close>

record uv_client =
  uc_stream :: TcpStream
  uc_received :: "string list"
  uc_calls :: "uv_call list"

definition uv_client_init :: "TcpStream \<Rightarrow> uv_client" where
  "uv_client_init s = \<lparr>uc_stream = s, uc_received = [], uc_calls = []\<rparr>"

lemma read_wait_shorter: "read_wait h cbs s = Some (s', cbs') \<Longrightarrow> length cbs' < length cbs"
proof (induction cbs arbitrary: s)
  case (Cons cb cbs)
  then show ?case by (cases cb) (fastforce split: prod.splits if_splits)
qed simp

lemma co_read_shorter:
  "co_read h cbs s = Some (data, s', calls, cbs') \<Longrightarrow>
   ts_read_buffer s' = [] \<and> (ts_read_buffer s = [] \<longrightarrow> length cbs' < length cbs) \<and> length cbs' \<le> length cbs"
  by (auto simp: co_read_def ReadAwaitable_await_ready_def ReadAwaitable_await_suspend_def ReadAwaitable_await_resume_def
      dest: read_wait_shorter less_imp_le split: option.splits if_splits)

function uv_client_loop :: "handle \<Rightarrow> read_callbacks \<Rightarrow> (int \<times> int option) list \<Rightarrow> uv_client \<Rightarrow> uv_client option" where
  "uv_client_loop h cbs ws c =
    (if \<not> TcpStream_IsOpen (uc_stream c) then Some c
     else case co_read h cbs (uc_stream c) of
       None \<Rightarrow> None
     | Some (data, s, calls, cbs') \<Rightarrow>
         let c = c\<lparr>uc_stream := s, uc_calls := uc_calls c @ calls\<rparr> in
         if data = [] then Some c
         else case ws of
             [] \<Rightarrow> None
           | w # ws' \<Rightarrow>
               (case co_write w h (TcpStream_Write (''Echo: '' @ data)) s of
                  (None, _) \<Rightarrow> None
                | (Some _, calls) \<Rightarrow>
                    uv_client_loop h cbs' ws' (c\<lparr>uc_received := uc_received c @ [data], uc_calls := uc_calls c @ calls\<rparr>)))"
  by pat_completeness auto

termination
  by (relation "measure (\<lambda>(h, cbs, ws, c). length cbs + (if ts_read_buffer (uc_stream c) = [] then 0 else 1))")
    (auto dest: co_read_shorter)

declare uv_client_loop.simps [simp del]

text \<open>The whole handler; \<open>connections\<close> is \<open>g_connection_count\<close>, the flag says that it stops the executor.\<close>

definition uv_HandleClient ::
  "handle \<Rightarrow> read_callbacks \<Rightarrow> (int \<times> int option) list \<Rightarrow> TcpStream \<Rightarrow> int \<Rightarrow> (uv_client \<times> int \<times> bool) option" where
  "uv_HandleClient h cbs ws s connections =
    (case uv_client_loop h cbs ws (uv_client_init s) of
       None \<Rightarrow> None
     | Some c \<Rightarrow>
         let (s, calls) = TcpStream_Close (uc_stream c);
             connections = connections + 1;
             c = c\<lparr>uc_stream := s, uc_calls := uc_calls c @ calls @ TcpStream_destroy s\<rparr>
         in Some (c, connections, connections \<ge> 3))"

subsection \<open>What a client sees\<close>

text \<open>The messages: the pieces that arrive, up to the first callback that brings nothing.\<close>

definition messages :: "read_callbacks \<Rightarrow> string list" where
  "messages cbs = takeWhile (\<lambda>m. m \<noteq> []) (map piece cbs)"

fun write_data :: "uv_call \<Rightarrow> string list" where
  "write_data (UvWrite _ d) = [d]"
| "write_data _ = []"

definition writes :: "uv_call list \<Rightarrow> string list" where
  "writes cs = concat (map write_data cs)"

lemma writes_append [simp]: "writes (cs @ ds) = writes cs @ writes ds"
  by (simp add: writes_def)

definition echoes :: "string list \<Rightarrow> string list" where
  "echoes ms = map ((@) ''Echo: '') ms"

definition writes_answered :: "nat \<Rightarrow> (int \<times> int option) list \<Rightarrow> bool" where
  "writes_answered n ws \<longleftrightarrow> n \<le> length ws \<and> (\<forall>w \<in> set ws. snd w \<noteq> None)"

lemma writes_answered_Suc:
  "writes_answered (Suc n) ws \<Longrightarrow> \<exists>r st ws'. ws = (r, Some st) # ws' \<and> writes_answered n ws'"
  by (cases ws) (auto simp: writes_answered_def)

definition uv_ended :: "read_callbacks \<Rightarrow> bool" where
  "uv_ended cbs \<longleftrightarrow> [] \<in> set (map piece cbs)"

text \<open>The callback that ended the loop.\<close>

definition ending :: "read_callbacks \<Rightarrow> nat \<times> uv_outcome" where
  "ending cbs = hd (dropWhile (\<lambda>cb. piece cb \<noteq> []) cbs)"

definition ended_by_failure :: "read_callbacks \<Rightarrow> bool" where
  "ended_by_failure cbs = (case ending cbs of (suggested, out) \<Rightarrow> read_failed (EvRead suggested out))"

lemma failed_piece: "read_failed (EvRead suggested out) \<Longrightarrow> piece (suggested, out) = []"
  by (cases out) auto

lemma uv_client_loop_echo:
  assumes "h \<noteq> null_handle" and "ts_read_buffer (uc_stream c) = []" and "\<not> ts_closed (uc_stream c)" and "\<not> ts_reading (uc_stream c)"
    and "writes_answered (length (messages cbs)) ws" and "\<forall>m \<in> set (messages cbs). length m + 6 < 2 ^ 31"
  shows "case uv_client_loop h cbs ws c of
      None \<Rightarrow> \<not> uv_ended cbs
    | Some c' \<Rightarrow> uv_ended cbs \<and> uc_received c' = uc_received c @ messages cbs \<and>
        writes (uc_calls c') = writes (uc_calls c) @ echoes (messages cbs) \<and>
        filter frees (uc_calls c') = filter frees (uc_calls c) \<and> ts_socket (uc_stream c') = ts_socket (uc_stream c) \<and>
        \<not> ts_reading (uc_stream c') \<and> (ts_closed (uc_stream c') \<longleftrightarrow> ended_by_failure cbs)"
  using assms
proof (induction cbs arbitrary: ws c)
  case Nil
  then show ?case
    by (subst uv_client_loop.simps) (simp add: TcpStream_IsOpen_def co_read_suspends(1) uv_ended_def)
next
  case (Cons cb cbs)
  obtain suggested out where cb: "cb = (suggested, out)" by (cases cb)
  obtain s' where rd: "co_read h (cb # cbs) (uc_stream c) =
        Some (piece cb, s', [UvReadStart (ts_socket (uc_stream c)), UvReadStop (ts_socket (uc_stream c))], cbs)"
    and s': "ts_read_buffer s' = []" "\<not> ts_reading s'" "ts_socket s' = ts_socket (uc_stream c)"
      "ts_closed s' \<longleftrightarrow> read_failed (EvRead suggested out)"
    using co_read_suspends(2) [OF Cons.prems(1,2), of suggested out cbs] Cons.prems(3) cb by auto
  show ?case
  proof (cases "piece cb = []")
    case True
    then show ?thesis
      using Cons.prems(3) rd s' cb
      by (subst uv_client_loop.simps)
        (simp add: TcpStream_IsOpen_def uv_ended_def messages_def echoes_def writes_def ended_by_failure_def ending_def)
  next
    case False
    let ?m = "piece cb"
    have ms: "messages (cb # cbs) = ?m # messages cbs" and en: "uv_ended (cb # cbs) = uv_ended cbs"
      and eb: "ended_by_failure (cb # cbs) = ended_by_failure cbs"
      using False by (auto simp: messages_def uv_ended_def ended_by_failure_def ending_def)
    have open': "\<not> ts_closed s'" using s'(4) failed_piece [of suggested out] False cb by auto
    obtain r st ws' where ws: "ws = (r, Some st) # ws'" and ans: "writes_answered (length (messages cbs)) ws'"
      using writes_answered_Suc [of "length (messages cbs)" ws] Cons.prems(5) ms by auto
    let ?c = "c\<lparr>uc_stream := s', uc_received := uc_received c @ [?m],
      uc_calls := (uc_calls c @ [UvReadStart (ts_socket (uc_stream c)), UvReadStop (ts_socket (uc_stream c))]) @
        [UvWrite (ts_socket s') (''Echo: '' @ ?m)]\<rparr>"
    have "length (''Echo: '' @ ?m) < 2 ^ 31" using Cons.prems(6) ms by simp
    note wr = co_write_result [OF this, of r st h s']
    have step: "uv_client_loop h (cb # cbs) ws c = uv_client_loop h cbs ws' ?c"
      using Cons.prems(3) rd False wr ws by (subst uv_client_loop.simps) (simp add: TcpStream_IsOpen_def)
    have "\<forall>m \<in> set (messages cbs). length m + 6 < 2 ^ 31" using Cons.prems(6) ms by simp
    note IH = Cons.IH [of ?c ws', OF Cons.prems(1) _ _ _ ans this]
    show ?thesis
      using IH s' open' unfolding step ms en eb
      by (auto simp: writes_def echoes_def split: option.splits)
  qed
qed

text \<open>
  An echo client over libuv.  For an accepted stream and any read callbacks, if libuv answers the
  writes: the handler comes to its end exactly if some callback brings no bytes; it has then received the pieces before that
  one, each as one message, has written \<open>Echo:\<close> and the message for each in order, and counts the
  connection.  The handle is given up exactly once if the callback that ended it was not a failure; after the end of the
  stream or an error it is never given up.  In particular a callback that only says that there is nothing to
  read yet (\<open>UvAgain\<close>) ends the connection like the end of the stream.
\<close>

theorem uv_echo_client:
  assumes "h \<noteq> null_handle" and s: "(s, calls) = TcpStream_InitFromAccept 0 (TcpStream_init sock)"
    and ans: "writes_answered (length (messages cbs)) ws" and len: "\<forall>m \<in> set (messages cbs). length m + 6 < 2 ^ 31"
  shows "(uv_HandleClient h cbs ws s n = None \<longleftrightarrow> \<not> uv_ended cbs) \<and>
    (\<forall>c n' stop. uv_HandleClient h cbs ws s n = Some (c, n', stop) \<longrightarrow>
       uc_received c = messages cbs \<and> writes (uc_calls c) = echoes (messages cbs) \<and>
       n' = n + 1 \<and> (stop \<longleftrightarrow> n' \<ge> 3) \<and>
       filter frees (uc_calls c) = (if ended_by_failure cbs then [] else [UvClose (Some sock)]))"
proof -
  have s': "ts_read_buffer s = []" "\<not> ts_closed s" "\<not> ts_reading s" "ts_socket s = Some sock"
    using s by (simp_all add: TcpStream_InitFromAccept_def TcpStream_init_def Let_def)
  note echo = uv_client_loop_echo [of h "uv_client_init s" cbs ws, OF assms(1) _ _ _ ans len]
  show ?thesis
  proof (cases "uv_client_loop h cbs ws (uv_client_init s)")
    case None
    then show ?thesis using echo s' by (simp add: uv_HandleClient_def uv_client_init_def)
  next
    case (Some c)
    then show ?thesis
      using echo s'
      by (auto simp: uv_HandleClient_def uv_client_init_def TcpStream_Close_def TcpStream_destroy_def writes_def Let_def)
  qed
qed

theorem uv_echo_client_witness:
  "let cbs = [(10, UvData ''ab''), (2, UvData ''cde''), (10, UvAgain), (10, UvData ''lost'')];
       s = fst (TcpStream_InitFromAccept 0 (TcpStream_init 7)) in
   messages cbs = [''ab'', ''cd''] \<and> \<not> ended_by_failure cbs \<and> uv_ended cbs \<and>
   (\<exists>c. uv_HandleClient 5 cbs [(0, Some 0), (0, Some 0)] s 2 = Some (c, 3, True) \<and>
      writes (uc_calls c) = [''Echo: ab'', ''Echo: cd''] \<and> filter frees (uc_calls c) = [UvClose (Some 7)])"
proof -
  define cbs where "cbs = [(10 :: nat, UvData ''ab''), (2, UvData ''cde''), (10, UvAgain), (10, UvData ''lost'')]"
  define ws where "ws = [(0 :: int, Some (0 :: int)), (0, Some 0)]"
  define s where "s = fst (TcpStream_InitFromAccept 0 (TcpStream_init 7))"
  have ms: "messages cbs = [''ab'', ''cd'']" "uv_ended cbs" "\<not> ended_by_failure cbs"
    by (simp_all add: cbs_def messages_def uv_ended_def ended_by_failure_def ending_def)
  have "(5::handle) \<noteq> null_handle" by simp
  moreover have "(s, snd (TcpStream_InitFromAccept 0 (TcpStream_init 7))) = TcpStream_InitFromAccept 0 (TcpStream_init 7)"
    by (simp add: s_def)
  moreover have "writes_answered (length (messages cbs)) ws" "\<forall>m \<in> set (messages cbs). length m + 6 < 2 ^ 31"
    by (simp_all add: ms writes_answered_def ws_def)
  ultimately have "(uv_HandleClient 5 cbs ws s 2 = None \<longleftrightarrow> \<not> uv_ended cbs) \<and>
    (\<forall>c n' stop. uv_HandleClient 5 cbs ws s 2 = Some (c, n', stop) \<longrightarrow>
       uc_received c = messages cbs \<and> writes (uc_calls c) = echoes (messages cbs) \<and> n' = 2 + 1 \<and> (stop \<longleftrightarrow> n' \<ge> 3) \<and>
       filter frees (uc_calls c) = (if ended_by_failure cbs then [] else [UvClose (Some 7)]))"
    by (rule uv_echo_client)
  then have "\<exists>c. uv_HandleClient 5 cbs ws s 2 = Some (c, 3, True) \<and> writes (uc_calls c) = echoes [''ab'', ''cd''] \<and>
      filter frees (uc_calls c) = [UvClose (Some 7)]"
    using ms by (cases "uv_HandleClient 5 cbs ws s 2") auto
  then show ?thesis using ms by (simp add: echoes_def cbs_def [symmetric] ws_def [symmetric] s_def [symmetric])
qed

end
