(* ===== verification/Ex_Async_Sleep.thy ===== *)
theory Ex_Async_Sleep
  imports Spawn_Run
begin

text \<open>
  The example program \<open>examples/03_async_sleep.cpp\<close> on the libuv executor.  A coroutine is what it
  does each time it is resumed, given the number of earlier resumptions: the commands to the
  executor.  \<open>MainTask\<close> owns the three tasks it starts: their frames are destroyed when it ends.
\<close>

subsection \<open>The coroutines\<close>

definition sleep_ms :: "int \<Rightarrow> handle \<Rightarrow> exec_cmd" where
  "sleep_ms ms h = op_cmd (OpSleep (ms * 1000000) h)"

fun SleepAndPrint :: "int \<Rightarrow> handle \<Rightarrow> nat \<Rightarrow> exec_cmd list" where
  "SleepAndPrint delay h 0 = [sleep_ms delay h]"
| "SleepAndPrint delay h (Suc k) = []"

fun MainTask :: "handle \<Rightarrow> handle \<Rightarrow> handle \<Rightarrow> handle \<Rightarrow> nat \<Rightarrow> exec_cmd list" where
  "MainTask m t1 t2 t3 0 = [DoSchedule t1, DoSchedule t2, DoSchedule t3, sleep_ms 200 m]"
| "MainTask m t1 t2 t3 (Suc k) = [DoStop]"

definition SequentialDemo :: "handle \<Rightarrow> nat \<Rightarrow> exec_cmd list" where
  "SequentialDemo s k = (if k < 3 then [sleep_ms 50 s] else if k = 3 then [DoStop] else [])"

definition sleep_program ::
  "handle \<Rightarrow> handle \<Rightarrow> handle \<Rightarrow> handle \<Rightarrow> handle \<Rightarrow> run_log \<Rightarrow> work \<Rightarrow> exec_cmd list" where
  "sleep_program m t1 t2 t3 s log x =
    (case x of
       Coro g \<Rightarrow>
         let k = length (resumed {g} log) in
         if g = m then MainTask m t1 t2 t3 k
         else if g = t1 then SleepAndPrint 100 t1 k
         else if g = t2 then SleepAndPrint 50 t2 k
         else if g = t3 then SleepAndPrint 150 t3 k
         else if g = s then SequentialDemo s k
         else []
     | Call c \<Rightarrow> [])"

text \<open>
  \<open>main\<close>: \<open>MainTask\<close> is scheduled and the loop runs (the events \<open>es1\<close>); then the same for
  \<open>SequentialDemo\<close> on the same executor.
\<close>

definition main_03 ::
  "handle \<Rightarrow> handle \<Rightarrow> handle \<Rightarrow> handle \<Rightarrow> handle \<Rightarrow> (run_log \<Rightarrow> bool) \<Rightarrow> uv_event list \<Rightarrow> uv_event list \<Rightarrow>
   LibuvExecutor loop_world option" where
  "main_03 m t1 t2 t3 s init_ok es1 es2 =
    (let body = sleep_program m t1 t2 t3 s in
     case LibuvExecutor_Run body init_ok es1 (issue libuv_cmd [DoSchedule m] libuv_start) of
       None \<Rightarrow> None
     | Some w \<Rightarrow> LibuvExecutor_Run body init_ok es2 (issue libuv_cmd [DoSchedule s] w))"

subsection \<open>What a program does from some moment on\<close>

text \<open>Two programs that do the same whenever the log extends \<open>L\<close> have the same executions from there.\<close>

definition agree_from :: "run_log \<Rightarrow> (run_log \<Rightarrow> work \<Rightarrow> exec_cmd list) \<Rightarrow> (run_log \<Rightarrow> work \<Rightarrow> exec_cmd list) \<Rightarrow> bool" where
  "agree_from L b b' \<longleftrightarrow> (\<forall>l x. b (L @ l) x = b' (L @ l) x)"

definition after :: "run_log \<Rightarrow> 's loop_world \<Rightarrow> bool" where
  "after L w \<longleftrightarrow> (\<exists>l. lw_log w = L @ l)"

lemma after_log: "after L w \<Longrightarrow> after L (w'\<lparr>lw_log := lw_log w @ l\<rparr>)"
  "after L (w\<lparr>lw_state := x\<rparr>) = after L w" "after L (issue app cs w) = after L w"
  by (auto simp: after_def issue_def)

lemma run_items_agree:
  assumes "agree_from L b b'"
  shows "after L w \<Longrightarrow> run_items app b skip src xs w = run_items app b' skip src xs w \<and>
    after L (run_items app b' skip src xs w)"
proof (induction xs arbitrary: w)
  case (Cons x xs)
  have "b (lw_log w) x = b' (lw_log w) x" using assms Cons.prems by (auto simp: agree_from_def after_def)
  with Cons show ?case by (simp add: after_log)
qed simp

lemma fold_timers_agree:
  assumes "agree_from L b b'"
  shows "after L w \<Longrightarrow> fold (libuv_create_timer b init_ok) rs w = fold (libuv_create_timer b' init_ok) rs w \<and>
    after L (fold (libuv_create_timer b' init_ok) rs w)"
proof (induction rs arbitrary: w)
  case (Cons r rs)
  have "libuv_create_timer b init_ok r w = libuv_create_timer b' init_ok r w \<and> after L (libuv_create_timer b' init_ok r w)"
    using run_items_agree [OF assms Cons.prems] Cons.prems
    by (simp add: libuv_create_timer_def after_log del: run_items.simps)
  with Cons.IH show ?case by simp
qed simp

lemma ProcessReadyQueue_agree:
  assumes ag: "agree_from L b b'" and w: "after L w"
  shows "LibuvExecutor_ProcessReadyQueue b init_ok w = LibuvExecutor_ProcessReadyQueue b' init_ok w \<and>
    after L (LibuvExecutor_ProcessReadyQueue b' init_ok w)"
proof -
  have "after L (w\<lparr>lw_state := libuv_swap (lw_state w)\<rparr>)" using w by (simp add: after_log)
  then show ?thesis
    unfolding LibuvExecutor_ProcessReadyQueue_def Let_def
    by (metis run_items_agree [OF ag] fold_timers_agree [OF ag])
qed

lemma step_agree:
  assumes ag: "agree_from L b b'" and w: "after L w"
  shows "libuv_step b init_ok e w = libuv_step b' init_ok e w \<and>
    (\<forall>w'. libuv_step b' init_ok e w = Some w' \<longrightarrow> after L w')"
proof (cases e)
  case UvIdle
  with ProcessReadyQueue_agree [OF ag w, of init_ok] show ?thesis
    by (simp add: LibuvExecutor_OnIdle_def Let_def after_log)
next
  case (UvTimer i h)
  with run_items_agree [OF ag, of "w\<lparr>lw_state := (lw_state w)\<lparr>lu_active := remove1 (i, h) (lu_active (lw_state w))\<rparr>\<rparr>"] w
  show ?thesis by (simp add: LibuvExecutor_OnTimer_def Let_def after_log del: run_items.simps)
qed (use w in \<open>auto simp: after_log split: if_splits\<close>)

lemma exec_agree:
  assumes "agree_from L b b'"
  shows "after L w \<Longrightarrow> libuv_exec b init_ok es w = libuv_exec b' init_ok es w"
proof (induction es arbitrary: w)
  case (Cons e es)
  from step_agree [OF assms Cons.prems, of init_ok e] Cons.IH show ?case
    by (auto simp del: libuv_step.simps split: option.splits)
qed simp

subsection \<open>Each coroutine goes through its resumptions\<close>

lemma sleep_cmd_handles [simp]: "cmd_handles (sleep_ms ms h) = [h]"
  by (simp add: sleep_ms_def)

lemmas program_defs = sleep_program_def SequentialDemo_def foreign_def Let_def

definition handles_ok :: "handle \<Rightarrow> handle \<Rightarrow> handle \<Rightarrow> handle \<Rightarrow> handle \<Rightarrow> bool" where
  "handles_ok m t1 t2 t3 s \<longleftrightarrow> distinct [0, m, t1, t2, t3, s]"

text \<open>\<open>MainTask\<close> is resumed twice.\<close>

lemma program_main:
  assumes "handles_ok m t1 t2 t3 s"
  shows "goes_on {m} [m, m] (sleep_program m t1 t2 t3 s)"
proof -
  note h = assms [unfolded handles_ok_def]
  have "filter (\<lambda>g. g \<in> {m}) (concat (map cmd_handles (sleep_program m t1 t2 t3 s log (Coro m)))) =
      (if Suc k < length [m, m] then [[m, m] ! Suc k] else [])"
    if "resumed {m} log = take k [m, m]" "k < length [m, m]" for log k
    using that h by (cases k) (auto simp: program_defs)
  moreover have "foreign {m} (sleep_program m t1 t2 t3 s log x)" if "x \<noteq> Coro m" for log x
    using that h
    by (cases x; cases "length (resumed {case x of Coro g \<Rightarrow> g | Call c \<Rightarrow> 0} log)") (auto simp: program_defs)
  ultimately show ?thesis using h unfolding goes_on_def by auto
qed

text \<open>
  Once \<open>MainTask\<close> has started the tasks nothing else uses their handles: from there on the
  program is the one in which its first resumption does nothing.
\<close>

definition started :: "handle \<Rightarrow> (run_log \<Rightarrow> work \<Rightarrow> exec_cmd list) \<Rightarrow> run_log \<Rightarrow> work \<Rightarrow> exec_cmd list" where
  "started m body log x = (if x = Coro m \<and> resumed {m} log = [] then [] else body log x)"

lemma started_agree: "resumed {m} L \<noteq> [] \<Longrightarrow> agree_from L body (started m body)"
  by (simp add: agree_from_def started_def)

lemma program_task:
  assumes "handles_ok m t1 t2 t3 s" and t: "t \<in> {t1, t2, t3}"
  shows "goes_on {t} [t, t] (started m (sleep_program m t1 t2 t3 s))"
proof -
  note h = assms(1) [unfolded handles_ok_def]
  have "filter (\<lambda>g. g \<in> {t}) (concat (map cmd_handles (started m (sleep_program m t1 t2 t3 s) log (Coro t)))) =
      (if Suc k < length [t, t] then [[t, t] ! Suc k] else [])"
    if "resumed {t} log = take k [t, t]" "k < length [t, t]" for log k
    using that t h by (cases k) (auto simp: program_defs started_def)
  moreover have "foreign {t} (started m (sleep_program m t1 t2 t3 s) log x)" if "x \<noteq> Coro t" for log x
    using that t h
    by (cases x; cases "length (resumed {case x of Coro g \<Rightarrow> g | Call c \<Rightarrow> 0} log)") (auto simp: program_defs started_def)
  ultimately show ?thesis using t h unfolding goes_on_def by auto
qed

lemma program_seq:
  assumes "handles_ok m t1 t2 t3 s"
  shows "goes_on {s} (replicate 4 s) (sleep_program m t1 t2 t3 s)"
proof -
  note h = assms [unfolded handles_ok_def]
  have "filter (\<lambda>g. g \<in> {s}) (concat (map cmd_handles (sleep_program m t1 t2 t3 s log (Coro s)))) =
      (if Suc k < length (replicate 4 s) then [replicate 4 s ! Suc k] else [])"
    if "resumed {s} log = take k (replicate 4 s)" "k < length (replicate 4 s)" for log k
    using that h by (auto simp: program_defs)
  moreover have "foreign {s} (sleep_program m t1 t2 t3 s log x)" if "x \<noteq> Coro s" for log x
    using that h
    by (cases x; cases "length (resumed {case x of Coro g \<Rightarrow> g | Call c \<Rightarrow> 0} log)") (auto simp: program_defs)
  ultimately show ?thesis using h unfolding goes_on_def by auto
qed

subsection \<open>The runs of the program\<close>

lemma run_inv_running: "run_inv F hs e (w\<lparr>lw_state := (lw_state w)\<lparr>lu_running := b\<rparr>\<rparr>) = run_inv F hs e w"
  by (simp add: run_inv_state waiting_def)

lemma Run_task:
  assumes "goes_on F hs b" and "run_inv F hs {#} w" and "LibuvExecutor_Run b init_ok es w = Some w'"
    and "\<forall>e \<in> set es. loop_event e"
  shows "run_inv F hs {#} w'"
  using assms exec_task [OF assms(1), of "w\<lparr>lw_state := (lw_state w)\<lparr>lu_running := True\<rparr>\<rparr>" init_ok es] loop_event_foreign
  by (auto simp: LibuvExecutor_Run_def run_inv_running)

lemma exec_after:
  "after L w \<Longrightarrow> libuv_exec b init_ok es w = Some w' \<Longrightarrow> after L w'"
proof (induction es arbitrary: w)
  case (Cons e es)
  have "agree_from L b b" by (simp add: agree_from_def)
  from step_agree [OF this Cons.prems(1), of init_ok e] Cons show ?case
    by (auto simp del: libuv_step.simps split: option.splits)
qed simp

lemma Run_agree:
  assumes "agree_from L b b'" and "after L w"
  shows "LibuvExecutor_Run b init_ok es w = LibuvExecutor_Run b' init_ok es w"
  using exec_agree [OF assms(1), of "w\<lparr>lw_state := (lw_state w)\<lparr>lu_running := True\<rparr>\<rparr>"] assms(2)
  by (simp add: LibuvExecutor_Run_def after_log)

text \<open>The first two callbacks of the first run: \<open>MainTask\<close> has scheduled the tasks and sleeps.\<close>

definition main_sleeping :: "handle \<Rightarrow> handle \<Rightarrow> handle \<Rightarrow> handle \<Rightarrow> LibuvExecutor loop_world" where
  "main_sleeping m t1 t2 t3 =
    \<lparr>lw_state = LibuvExecutor_init\<lparr>lu_running := True, lu_idle_active := True, lu_uv_idle := True, lu_async_pending := True,
       lu_ready_queue := [t1, t2, t3], lu_timer_queue := [(200, m)]\<rparr>,
     lw_log = [(FromQueue, Coro m, True)],
     lw_cmds = [DoSchedule m, DoSchedule t1, DoSchedule t2, DoSchedule t3, sleep_ms 200 m]\<rparr>"

lemmas loop_defs = libuv_start_def LibuvExecutor_init_def issue_def Libuv_defs LibuvExecutor_OnAsync_def
  LibuvExecutor_OnIdle_def LibuvExecutor_ProcessReadyQueue_def LibuvExecutor_OnTimer_def libuv_create_timer_def skip_null_def
  sleep_ms_def AsyncSleep_init_def duration_cast_ms_def Let_def

lemma first_round:
  assumes "handles_ok m t1 t2 t3 s"
  shows "LibuvExecutor_Run (sleep_program m t1 t2 t3 s) init_ok (UvAsync # UvIdle # es) (issue libuv_cmd [DoSchedule m] libuv_start) =
    map_option (\<lambda>w. w\<lparr>lw_state := (lw_state w)\<lparr>lu_running := False\<rparr>\<rparr>)
      (libuv_exec (sleep_program m t1 t2 t3 s) init_ok es (main_sleeping m t1 t2 t3))"
  using assms
  by (simp add: LibuvExecutor_Run_def loop_defs program_defs main_sleeping_def handles_ok_def)

definition progress :: "handle \<Rightarrow> nat \<Rightarrow> LibuvExecutor loop_world \<Rightarrow> bool" where
  "progress g n w \<longleftrightarrow> (\<exists>k \<le> n. resumed {g} (lw_log w) = replicate k g \<and>
     waiting {g} (lw_state w) = (if k < n then {#g#} else {#}))"

lemma run_inv_progress: "run_inv {g} (replicate n g) {#} w \<Longrightarrow> progress g n w"
  unfolding run_inv_def progress_def
  by (elim exE conjE, rule_tac x = k in exI) (simp add: min_def split: if_splits)

lemma replicate_two: "replicate 2 g = [g, g]"
  by (simp add: eval_nat_numeral)

text \<open>
  Example 03.  Whatever callbacks libuv makes in the two runs, in any order, and whichever timer
  initialisations fail: \<open>MainTask\<close> and each of the three tasks is resumed at most twice, the
  sequential coroutine at most four times, and each is waiting in exactly one queue or timer unless it has
  ended.  So when \<open>MainTask\<close> ends and destroys the frames of the tasks, a timer still refers to
  a frame exactly if that task has not woken up.
\<close>

theorem async_sleep_example:
  assumes ok: "handles_ok m t1 t2 t3 s" and es: "\<forall>e \<in> set es1 \<union> set es2. loop_event e"
    and main: "main_03 m t1 t2 t3 s init_ok (UvAsync # UvIdle # es1) es2 = Some w"
  shows "progress m 2 w" and "t \<in> {t1, t2, t3} \<Longrightarrow> progress t 2 w" and "progress s 4 w"
proof -
  let ?b = "sleep_program m t1 t2 t3 s" and ?w0 = "main_sleeping m t1 t2 t3"
  let ?stop = "\<lambda>w. w\<lparr>lw_state := (lw_state w)\<lparr>lu_running := False\<rparr>\<rparr>"
  obtain wa where a: "libuv_exec ?b init_ok es1 ?w0 = Some wa"
    and b: "LibuvExecutor_Run ?b init_ok es2 (issue libuv_cmd [DoSchedule s] (?stop wa)) = Some w"
    using main unfolding main_03_def Let_def first_round [OF ok] by (auto split: option.splits)
  have f1: "\<forall>e \<in> set es1. foreign_event F e" for F using es loop_event_foreign by blast
  have e2: "\<forall>e \<in> set es2. loop_event e" using es by blast
  note h = ok [unfolded handles_ok_def]
  note wait = waiting_def main_sleeping_def LibuvExecutor_init_def run_inv_def
  have "run_inv {m} [m, m] {#} ?w0" using h by (auto simp: wait intro!: exI [of _ 1])
  from exec_task [OF program_main [OF ok] this a f1] have "run_inv {m} [m, m] {#} (?stop wa)" by (simp add: run_inv_running)
  then have "run_inv {m} [m, m] {#} (issue libuv_cmd [DoSchedule s] (?stop wa))"
    using h by (intro run_inv_issue) (auto simp: foreign_def)
  from Run_task [OF program_main [OF ok] this b e2] show "progress m 2 w" by (intro run_inv_progress) (simp add: replicate_two)
  show "progress t 2 w" if t: "t \<in> {t1, t2, t3}"
  proof -
    let ?b' = "started m ?b" and ?L = "[(FromQueue, Coro m, True)]"
    have ag: "agree_from ?L ?b ?b'" by (rule started_agree) simp
    have w0: "after ?L ?w0" by (simp add: after_def main_sleeping_def)
    have "run_inv {t} [t, t] {#} ?w0" using h t by (auto simp: wait intro!: exI [of _ 0])
    from exec_task [OF program_task [OF ok t] this _ f1] a exec_agree [OF ag w0]
    have "run_inv {t} [t, t] {#} (?stop wa)" by (simp add: run_inv_running)
    then have i: "run_inv {t} [t, t] {#} (issue libuv_cmd [DoSchedule s] (?stop wa))"
      using h t by (intro run_inv_issue) (auto simp: foreign_def)
    have "after ?L (issue libuv_cmd [DoSchedule s] (?stop wa))" using exec_after [OF w0 a] by (simp add: after_log)
    from Run_task [OF program_task [OF ok t] i _ e2] b Run_agree [OF ag this] show ?thesis
      by (intro run_inv_progress) (simp add: replicate_two)
  qed
  have "run_inv {s} [] {#} ?w0" using h by (auto simp: wait)
  from exec_task [OF goes_on_none [OF program_seq [OF ok]] this a f1] have "run_inv {s} [] {#} (?stop wa)"
    by (simp add: run_inv_running)
  from spawn_inv [OF this, of s "replicate 3 s"] have "run_inv {s} (replicate 4 s) {#} (issue libuv_cmd [DoSchedule s] (?stop wa))"
    by (simp add: eval_nat_numeral)
  from Run_task [OF program_seq [OF ok] this b e2] show "progress s 4 w" by (rule run_inv_progress)
qed

subsection \<open>Two runs\<close>

text \<open>
  With timers that fire in the order of their delays the tasks wake up as the program announces:
  the second, the first, the third, then \<open>MainTask\<close>, then the four resumptions of the sequence.
\<close>

lemma sleep_example_in_order:
  "map_option (\<lambda>w. map (fst \<circ> snd) (lw_log w)) (main_03 1 2 3 4 5 (\<lambda>_. True)
      [UvAsync, UvIdle, UvIdle, UvIdle, UvTimer 2 3, UvTimer 1 2, UvTimer 3 4, UvTimer 0 1]
      [UvAsync, UvIdle, UvIdle, UvTimer 4 5, UvAsync, UvIdle, UvTimer 5 5, UvAsync, UvIdle, UvTimer 6 5]) =
    Some (map Coro [1, 2, 3, 4, 3, 2, 4, 1, 5, 5, 5, 5])"
  by code_simp

text \<open>
  The timer of \<open>MainTask\<close> is started one round of the loop before those of the tasks, so a delay of more than 50 ms
  between the rounds makes it fire before the third task's.  \<open>MainTask\<close> ends and destroys the
  frame of that task; its timer fires in the second run and resumes the destroyed frame.
\<close>

lemma sleep_example_destroyed_frame:
  "map_option (\<lambda>w. map (fst \<circ> snd) (lw_log w)) (main_03 1 2 3 4 5 (\<lambda>_. True)
      [UvAsync, UvIdle, UvIdle, UvIdle, UvTimer 2 3, UvTimer 1 2, UvTimer 0 1] [UvTimer 3 4]) =
    Some (map Coro [1, 2, 3, 4, 3, 2, 1, 4])"
  by code_simp

end
