(* ===== verification/Bench_File.thy ===== *)
theory Bench_File
  imports Raii
begin

unbundle bit_operations_syntax

text \<open>
  The helpers of \<open>benchmarks/file_io_bench.cpp\<close>: buffers for direct I/O, the generator of random
  offsets, the creation of the test file and the requests of one round.
\<close>

definition kTestFileSize :: size_t where "kTestFileSize = 1 * 1024 * 1024 * 1024"
definition kBlockSize :: size_t where "kBlockSize = 4096"

subsection \<open>AlignedBuffer\<close>

text \<open>
  \<open>ab_ptr\<close> is the block, 0 when there is none.  \<open>aligned_alloc\<close> is the system's: it is given the size
  rounded up, and its result is an argument.  \<open>free\<close> of the null pointer does nothing.  The assignment is that of a
  different object; an object assigned to itself is left as it is.  The bytes of the block (all \<open>X\<close>) are left out.
\<close>

record AlignedBuffer =
  ab_ptr :: "64 word"
  ab_size :: size_t

definition aligned_size :: "size_t \<Rightarrow> size_t" where
  "aligned_size sz = (sz + 4095) AND NOT 4095"

definition AlignedBuffer_init :: "64 word \<Rightarrow> size_t \<Rightarrow> AlignedBuffer" where
  "AlignedBuffer_init p sz = \<lparr>ab_ptr = p, ab_size = sz\<rparr>"

definition free_block :: "64 word \<Rightarrow> 64 word list" where
  "free_block p = (if p \<noteq> 0 then [p] else [])"

definition AlignedBuffer_move :: "AlignedBuffer \<Rightarrow> AlignedBuffer \<times> AlignedBuffer" where
  "AlignedBuffer_move other = (\<lparr>ab_ptr = ab_ptr other, ab_size = ab_size other\<rparr>, other\<lparr>ab_ptr := 0, ab_size := 0\<rparr>)"

definition AlignedBuffer_assign :: "AlignedBuffer \<Rightarrow> AlignedBuffer \<Rightarrow> AlignedBuffer \<times> AlignedBuffer \<times> 64 word list" where
  "AlignedBuffer_assign this other =
    (this\<lparr>ab_ptr := ab_ptr other, ab_size := ab_size other\<rparr>, other\<lparr>ab_ptr := 0, ab_size := 0\<rparr>, free_block (ab_ptr this))"

definition AlignedBuffer_destroy :: "AlignedBuffer \<Rightarrow> 64 word list" where
  "AlignedBuffer_destroy this = free_block (ab_ptr this)"

definition AlignedBuffer_res :: "AlignedBuffer \<Rightarrow> 64 word option" where
  "AlignedBuffer_res b = (if ab_ptr b \<noteq> 0 then Some (ab_ptr b) else None)"

interpretation aligned_buffer: unique_owner AlignedBuffer_res AlignedBuffer_move AlignedBuffer_assign AlignedBuffer_destroy
  by unfold_locales
    (simp_all add: AlignedBuffer_res_def AlignedBuffer_move_def AlignedBuffer_assign_def AlignedBuffer_destroy_def free_block_def)

text \<open>The size passed to \<open>aligned_alloc\<close> is the next multiple of 4096.\<close>

lemma aligned_size_eq:
  assumes "unat sz + 4095 < 2 ^ 64"
  shows "unat (aligned_size sz) = (unat sz + 4095) div 4096 * 4096"
proof -
  let ?x = "sz + 4095 :: size_t"
  have m: "(4095 :: size_t) = mask 12" by (simp add: mask_eq_exp_minus_1)
  have "?x AND NOT (mask 12) = push_bit 12 (drop_bit 12 ?x)"
    by (rule bit_word_eqI) (auto simp: bit_simps)
  then have "aligned_size sz = push_bit 12 (drop_bit 12 ?x)" by (simp add: aligned_size_def m)
  moreover have "unat ?x = unat sz + 4095" using assms by (simp add: unat_plus_if_size word_size)
  moreover have "unat (push_bit 12 (drop_bit 12 ?x)) = unat ?x div 4096 * 4096"
  proof -
    have "unat ?x div 4096 * 4096 \<le> unat ?x" by simp
    also have "\<dots> < 2 ^ 64" using unsigned_less [of ?x, where ?'a = nat] by simp
    finally have lt: "unat ?x div 4096 * 4096 < 2 ^ 64" .
    have "unat (push_bit 12 (drop_bit 12 ?x)) = (unat ?x div 4096 * 4096) mod 2 ^ 64"
      by (simp only: push_bit_eq_mult drop_bit_eq_div unat_word_ariths) (simp add: unat_div)
    then show ?thesis using lt by simp
  qed
  ultimately show ?thesis by simp
qed

subsection \<open>Random offsets\<close>

text \<open>The xorshift generator; the operators are those of unsigned 64-bit integers.\<close>

record Rng =
  rng_state :: uint64

definition Rng_init :: "uint64 \<Rightarrow> Rng" where
  "Rng_init seed = \<lparr>rng_state = seed\<rparr>"

definition Rng_Next :: "Rng \<Rightarrow> uint64 \<times> Rng" where
  "Rng_Next r =
    (let s = rng_state r;
         s = s XOR push_bit 13 s;
         s = s XOR drop_bit 7 s;
         s = s XOR push_bit 17 s
     in (s, r\<lparr>rng_state := s\<rparr>))"

definition Rng_RandOffset :: "size_t \<Rightarrow> size_t \<Rightarrow> Rng \<Rightarrow> uint64 \<times> Rng" where
  "Rng_RandOffset file_size block_size r =
    (let max_blocks = file_size div block_size; (x, r) = Rng_Next r
     in ((x mod max_blocks) * block_size, r))"

text \<open>A word that a shift leaves as it is must be 0, so no round of the generator loses a bit.\<close>

lemma push_bit_fixed:
  fixes x :: uint64
  assumes x: "x = push_bit n x" and n: "0 < n"
  shows "x = 0"
proof (rule bit_word_eqI)
  fix i
  show "bit x i \<longleftrightarrow> bit 0 i"
  proof (induction i rule: less_induct)
    case (less i)
    have "bit x i \<longleftrightarrow> bit (push_bit n x) i" using x by simp
    then show ?case using less [of "i - n"] n by (auto simp: bit_push_bit_iff)
  qed
qed

lemma drop_bit_fixed:
  fixes x :: uint64
  assumes x: "x = drop_bit n x" and n: "0 < n"
  shows "x = 0"
proof (rule bit_word_eqI)
  fix i
  show "bit x i \<longleftrightarrow> bit 0 i"
  proof (induction "64 - i" arbitrary: i rule: less_induct)
    case less
    have b: "bit x i \<longleftrightarrow> bit x (n + i)" using arg_cong [OF x, of "\<lambda>y. bit y i"] by (simp add: bit_drop_bit_eq)
    show ?case
    proof (cases "i < 64")
      case True
      then show ?thesis using less [of "n + i"] n b by simp
    qed (use bit_imp_le_length [of x i] in auto)
  qed
qed

lemma xor_self_zero: "s XOR t = 0 \<Longrightarrow> s = (t :: uint64)"
proof -
  assume "s XOR t = 0"
  then have "(s XOR t) XOR t = t" by simp
  then show ?thesis by (simp add: xor.assoc)
qed

lemma Rng_Next_nonzero:
  assumes "rng_state r \<noteq> 0"
  shows "rng_state (snd (Rng_Next r)) \<noteq> 0" and "fst (Rng_Next r) = rng_state (snd (Rng_Next r))"
proof -
  have "s XOR push_bit n s \<noteq> 0" if "s \<noteq> 0" "0 < n" for s :: uint64 and n
    using push_bit_fixed [OF xor_self_zero] that by blast
  moreover have "s XOR drop_bit n s \<noteq> 0" if "s \<noteq> 0" "0 < n" for s :: uint64 and n
    using drop_bit_fixed [OF xor_self_zero] that by blast
  ultimately have step: "(let s = s XOR push_bit 13 s; s = s XOR drop_bit 7 s in s XOR push_bit 17 s) \<noteq> 0"
    if "s \<noteq> 0" for s :: uint64
    using that unfolding Let_def by (metis zero_less_numeral)
  show "rng_state (snd (Rng_Next r)) \<noteq> 0"
    using step [OF assms] unfolding Rng_Next_def Let_def by (cases r) (simp only: snd_conv Rng.select_convs Rng.update_convs simp_thms)
  show "fst (Rng_Next r) = rng_state (snd (Rng_Next r))" by (simp add: Rng_Next_def Let_def)
qed

lemma RandOffset_in_file:
  assumes "0 < block_size" and "block_size \<le> file_size"
  shows "unat (fst (Rng_RandOffset file_size block_size r)) + unat block_size \<le> unat file_size"
    and "unat block_size dvd unat (fst (Rng_RandOffset file_size block_size r))"
proof -
  let ?x = "fst (Rng_Next r)" and ?m = "file_size div block_size"
  let ?q = "unat ?x mod (unat file_size div unat block_size)"
  have b: "0 < unat block_size" "unat block_size \<le> unat file_size"
    using assms by (simp_all add: unat_gt_0 word_le_nat_alt)
  have "0 < unat file_size div unat block_size" using b by (simp add: div_greater_zero_iff)
  then have "Suc ?q \<le> unat file_size div unat block_size" by (simp add: Suc_leI)
  then have "Suc ?q * unat block_size \<le> unat file_size div unat block_size * unat block_size" by (rule mult_le_mono1)
  also have "\<dots> \<le> unat file_size" by simp
  finally have le: "Suc ?q * unat block_size \<le> unat file_size" .
  have "?q * unat block_size < 2 ^ 64"
    using le b unsigned_less [of file_size, where ?'a = nat] by simp
  moreover have "unat (?x mod ?m) = ?q" by (simp add: unat_mod unat_div)
  ultimately have "unat (?x mod ?m * block_size) = ?q * unat block_size"
    by (simp add: unat_mult_lem [THEN iffD1])
  moreover have "fst (Rng_RandOffset file_size block_size r) = ?x mod ?m * block_size"
    by (simp add: Rng_RandOffset_def case_prod_unfold Let_def)
  ultimately have off: "unat (fst (Rng_RandOffset file_size block_size r)) = ?q * unat block_size" by simp
  show "unat (fst (Rng_RandOffset file_size block_size r)) + unat block_size \<le> unat file_size"
    using le off by simp
  show "unat block_size dvd unat (fst (Rng_RandOffset file_size block_size r))" using off by simp
qed

subsection \<open>The test file\<close>

lemma chunk_step:
  assumes "written < target" and "0 < (c :: size_t)"
  shows "unat (written + min c (target - written)) = unat written + unat (min c (target - written))"
    and "0 < unat (min c (target - written))"
    and "unat written + unat (min c (target - written)) \<le> unat target"
proof -
  have s: "unat (target - written) = unat target - unat written"
    using assms(1) by (simp add: unat_sub_if_size word_less_nat_alt)
  have lt: "unat written < unat target" using assms(1) by (simp add: word_less_nat_alt)
  have m: "unat (min c (target - written)) \<le> unat target - unat written"
    using s by (simp add: min_def word_le_nat_alt)
  show "0 < unat (min c (target - written))" using assms(2) s lt by (auto simp: min_def unat_gt_0)
  show le: "unat written + unat (min c (target - written)) \<le> unat target" using m lt by simp
  show "unat (written + min c (target - written)) = unat written + unat (min c (target - written))"
    using le unsigned_less [of target, where ?'a = nat] by (simp add: unat_plus_if_size word_size)
qed

text \<open>
  The loop of \<open>EnsureLargeTestFile\<close>: the offsets and lengths of the writes.  \<open>chunk\<close> is \<open>kChunkSize\<close>; all sizes stay below
  the target, so that nothing wraps around.
\<close>

function write_chunks :: "size_t \<Rightarrow> size_t \<Rightarrow> size_t \<Rightarrow> (size_t \<times> size_t) list" where
  "write_chunks kChunkSize target written =
     (if written < target \<and> 0 < kChunkSize
      then (let chunk = min kChunkSize (target - written)
            in (written, chunk) # write_chunks kChunkSize target (written + chunk))
      else [])"
  by pat_completeness auto

termination
proof (relation "measure (\<lambda>(c, t, w). unat t - unat w)", simp)
  fix c t w chunk :: size_t
  assume "w < t \<and> 0 < c" and "chunk = min c (t - w)"
  with chunk_step [of w t c] show "((c, t, w + chunk), c, t, w) \<in> measure (\<lambda>(c, t, w). unat t - unat w)"
    by simp
qed

declare write_chunks.simps [simp del]

definition kChunkSize :: size_t where "kChunkSize = 1024 * 1024"

text \<open>The file exists with the right size, or it is written; \<open>current\<close> is what \<open>stat\<close> reports.\<close>

definition EnsureLargeTestFile :: "size_t option \<Rightarrow> size_t \<Rightarrow> (size_t \<times> size_t) list" where
  "EnsureLargeTestFile current target =
    (if current = Some target then [] else write_chunks kChunkSize target 0)"

lemma write_chunks_cover:
  "0 < c \<Longrightarrow> w \<le> t \<Longrightarrow> concat (map (\<lambda>(off, len). [unat off..<unat off + unat len]) (write_chunks c t w)) = [unat w..<unat t] \<and>
    (\<forall>(off, len) \<in> set (write_chunks c t w). 0 < len \<and> len \<le> c)"
proof (induction c t w rule: write_chunks.induct)
  case (1 c t w)
  let ?k = "min c (t - w)"
  show ?case
  proof (cases "w < t \<and> 0 < c")
    case True
    note st = chunk_step [of w t c, OF conjunct1 [OF True] conjunct2 [OF True]]
    have "w + ?k \<le> t" using st(1,3) by (simp add: word_le_nat_alt)
    note IH = "1.IH" [OF True refl "1.prems"(1) this]
    have "[unat w..<unat t] = [unat w..<unat w + unat ?k] @ [unat w + unat ?k..<unat t]"
      using st(3) by (metis le_add1 le_add_diff_inverse upt_add_eq_append)
    moreover have "0 < ?k" using st(2) by (metis unat_gt_0 word_gt_0)
    ultimately show ?thesis using IH st(1) True by (subst (1 2) write_chunks.simps) (simp add: Let_def)
  next
    case False
    then show ?thesis using "1.prems" by (subst (1 2) write_chunks.simps) (auto simp: word_le_nat_alt word_less_nat_alt)
  qed
qed

subsection \<open>One round of requests\<close>

text \<open>
  The loop of \<open>RunMultiDepthRandRead\<close> and \<open>RunMultiDepthRandWrite\<close>: the number of the buffer and the
  offset of each of the tasks passed to \<open>WhenAll\<close>.
\<close>

primrec rand_requests :: "nat \<Rightarrow> nat \<Rightarrow> Rng \<Rightarrow> (nat \<times> uint64) list \<times> Rng" where
  "rand_requests 0 i rng = ([], rng)"
| "rand_requests (Suc n) i rng =
     (let (offset, rng) = Rng_RandOffset kTestFileSize kBlockSize rng; (rest, rng) = rand_requests n (Suc i) rng
      in ((i, offset) # rest, rng))"

lemma rand_requests_ok:
  "map fst (fst (rand_requests n i r)) = [i..<i + n] \<and>
   (\<forall>(b, off) \<in> set (fst (rand_requests n i r)). unat off + 4096 \<le> 2 ^ 30 \<and> 4096 dvd unat off) \<and>
   (rng_state r \<noteq> 0 \<longrightarrow> rng_state (snd (rand_requests n i r)) \<noteq> 0)"
proof (induction n arbitrary: i r)
  case (Suc n)
  have "0 < kBlockSize" "kBlockSize \<le> kTestFileSize" by (simp_all add: kBlockSize_def kTestFileSize_def)
  note off = RandOffset_in_file [OF this, of r]
  have c: "unat kBlockSize = 4096" "unat kTestFileSize = 2 ^ 30" by (simp_all add: kBlockSize_def kTestFileSize_def)
  obtain o' r' where r': "Rng_RandOffset kTestFileSize kBlockSize r = (o', r')" by (metis prod.exhaust)
  obtain rest r'' where rest: "rand_requests n (Suc i) r' = (rest, r'')" by (metis prod.exhaust)
  have "rng_state r' \<noteq> 0" if "rng_state r \<noteq> 0"
    using Rng_Next_nonzero(1) [OF that] r' by (auto simp: Rng_RandOffset_def Let_def split: prod.splits)
  then show ?case using Suc.IH [of "Suc i" r'] off r' rest c by (simp add: upt_conv_Cons)
qed simp

text \<open>
  The files and requests of the benchmark.  If the test file does not have its size, the writes
  cover every byte of it once, in order, in pieces of at most one megabyte.  Each round then asks for
  the given number of blocks, each with a buffer of its own, at offsets that are multiples of the block size and
  inside the file, and the generator never gets stuck at 0.
\<close>

theorem file_bench_requests:
  "(current \<noteq> Some t \<longrightarrow>
      concat (map (\<lambda>(off, len). [unat off..<unat off + unat len]) (EnsureLargeTestFile current t)) = [0..<unat t]) \<and>
   map fst (fst (rand_requests n 0 r)) = [0..<n] \<and>
   (\<forall>(b, off) \<in> set (fst (rand_requests n 0 r)). unat off + unat kBlockSize \<le> unat kTestFileSize \<and> unat kBlockSize dvd unat off) \<and>
   (rng_state r \<noteq> 0 \<longrightarrow> rng_state (snd (rand_requests n 0 r)) \<noteq> 0)"
proof -
  have "0 < kChunkSize" by (simp add: kChunkSize_def)
  from write_chunks_cover [OF this, of 0 t] show ?thesis
    using rand_requests_ok [of n 0 r] by (auto simp: EnsureLargeTestFile_def kBlockSize_def kTestFileSize_def)
qed

end
