(* ===== verification/Spec2Isabelle.thy ===== *)
theory Spec2Isabelle
  imports
    Errors Result Raii Permit_Lock Mutex Semaphore RWLock RWLock_Fair Gate Event Channel Channel_Spec
    Http_Headers Decimal Check Http_Message Http_Parser Http_Server Http_Service
    Frame_Pool Cancel_Token Retry Task When_All Race When_Any Task_Group Spawn Spawn_Run Generator
    Uring Executor Polling Libuv Iouring Iouring_Ops Thread_Pool
    Posix Sync_Tcp Uring_Await Iouring_File Iouring_Tcp Tcp Tcp_Await
    Sync_Wait Combinators Periodic_Timer Thread_Utils
    When_All_Forms When_All_Run Libuv_Lifetime Pool_Shutdown Exec_Bridge Sched_Run Stop_Adapter
    Ex_Http_Server Ex_Generators Ex_Echo_Server Ex_Echo_Uv Ex_Async_Sleep Bench_File
begin

text \<open>
  Verification of hotcoco, a C++20 coroutine library (\<open>src/include/hotcoco\<close>, \<open>src/src\<close>)
  and of some of its example programs (\<open>src/examples\<close>).

  \<^bold>\<open>The program.\<close>  hotcoco has four layers.  At the bottom are lazy coroutine types (\<open>Task\<close>,
  \<open>Generator\<close>, \<open>DetachedTask\<close>), whose frames come from a thread-local pool and which hand
  control to each other by symmetric transfer.  On them stand the combinators (\<open>WhenAll\<close>,
  \<open>WhenAny\<close>, \<open>WithTimeout\<close>, \<open>TaskGroup\<close>, \<open>Spawn\<close>, \<open>Retry\<close>) and the synchronisation objects (mutex,
  semaphore, read-write lock, event, latch, channel, cancellation), which suspend a
  coroutine by storing its handle and resume it later.  Executors (polling, libuv, io_uring,
  thread pool) run scheduled coroutines, callbacks and timers.  On top there are I/O streams
  and an HTTP/1 server built on llhttp.

  \<^bold>\<open>How code becomes definitions.\<close>  Each class is a \<open>record\<close> with the data members as fields; each
  member function is a definition named \<open>Class_Function\<close> (an awaitable's \<open>await_ready\<close>,
  \<open>await_suspend\<close> and \<open>await_resume\<close> each have their own).  A function returns the changed
  objects and what it hands on: the handles it resumes, the frames it destroys, the callbacks it
  calls.  A coroutine handle is a 64-bit address, null is 0.  \<open>size_t\<close> and other machine
  integers are words where their width can matter.  \<open>None\<close> stands for an abort of
  \<open>HOTCOCO_CHECK\<close>, for undefined behaviour, or for a step that is not enabled, as the text
  at each definition says.  Errors are values of \<open>Result\<close> with an \<open>error_code\<close>.

  Concurrency is interleaving: a critical section or a single atomic access is one step, and a
  component theory has a step function or step relation over labels with its set of runs.
  Properties quantify over all runs.  Where the code releases a lock between two accesses, or
  reads two atomics one after the other, there are two steps.  Three places are coarser, because only the order of
  their two parts on one thread is relied on: an executor's \<open>Schedule\<close> or \<open>Post\<close> with the wake-up it sends after
  unlocking its queue, \<open>TryAwait\<close> of the \<open>WhenAll\<close> latch with the store of the handle before its decrement, and the two
  notifications of the pool's \<open>Stop\<close>.  Statements about a queue and its wake-up are about the moments after such a call.

  \<^bold>\<open>Interfaces.\<close>  Contracts that several classes share are locales, interpreted on the classes' own
  definitions: \<open>unique_owner\<close> (\<open>Raii\<close>) for the move-only owners; \<open>permit_lock\<close>
  (\<open>Permit_Lock\<close>) for a mutex, and a semaphore used through one guard per coroutine; \<open>gate\<close> (\<open>Gate\<close>) for event, latch and task group;
  \<open>header_map\<close> (\<open>Http_Headers\<close>) for the header container the HTTP classes use; \<open>race_state\<close>
  (\<open>Race\<close>) for \<open>WhenAny\<close> and both forms of \<open>WithTimeout\<close>; \<open>event_loop\<close> (\<open>Executor\<close>) for the three
  executors that swap their queues out.

  \<^bold>\<open>Theories.\<close>
  \<^item> \<open>Prelude\<close>: machine types, collections of facts, lemmas on words, lists and sets of handles.
  \<^item> \<open>Errors\<close>, \<open>Result\<close>: \<open>core/error.hpp\<close>, \<open>core/error.cpp\<close>, \<open>core/result.hpp\<close>; the laws of \<open>Map\<close>, \<open>AndThen\<close>,
    \<open>OrElse\<close>; error values and messages are pairwise different.
  \<^item> \<open>Raii\<close>: programs over owner variables; over any sequence of moves, assignments and
    destructions a resource is released exactly once.
  \<^item> \<open>Permit_Lock\<close>, \<open>Mutex\<close>, \<open>Semaphore\<close>: \<open>sync/mutex.hpp\<close>, \<open>sync/semaphore.hpp\<close>; mutual exclusion,
    FIFO hand-over, the mutex refines a semaphore with one permit; a general use of the semaphore, with several guards
    per coroutine and direct calls of \<open>Release\<close>, in which permits are conserved.
  \<^item> \<open>RWLock\<close>, \<open>RWLock_Fair\<close>: \<open>sync/rwlock.hpp\<close>; exclusion of writers, the reader count, no lost wake-up; how
    soon a suspended reader or writer is granted the lock.
  \<^item> \<open>Gate\<close>, \<open>Event\<close>: \<open>sync/event.hpp\<close>, \<open>sync/latch.hpp\<close>; each waiter is released exactly once, the
    latch count saturates at 0.
  \<^item> \<open>Channel\<close>: \<open>core/channel.hpp\<close>, with the pointers into the awaitables of suspended coroutines as
    an explicit store; FIFO delivery, exactly once per coroutine, no stranded waiter, closing.
  \<^item> \<open>Channel_Spec\<close>: an atomic bounded closable queue and the proof that the channel refines it: every
    operation takes effect at one moment between its start and its return.
  \<^item> \<open>Decimal\<close>, \<open>Check\<close>: \<open>core/check.hpp\<close>; the report of a failed check names its line and fits its buffer.
  \<^item> \<open>Http_Headers\<close>, \<open>Http_Message\<close>, \<open>Http_Parser\<close>, \<open>Http_Server\<close>: \<open>http/http.hpp\<close>,
    \<open>http/http.cpp\<close>.  llhttp is a parameter: the parser theorems hold for any sequence of its callbacks, the assembly theorem for callbacks that deliver one
    message in any split into pieces.  Sockets and clock are scripts of what they return.
  \<^item> \<open>Http_Service\<close>: the whole HTTP server, its accept loop and connections interleaved over one handler with
    state.  All requests pass the handler one after the other; those of a connection are what a parser reset after each
    request assembles from the connection's own reads, and their answers are written in order; a malformed request gets one error response, the state stays well-formed.
  \<^item> \<open>Frame_Pool\<close>: \<open>core/frame_pool.hpp\<close>; pools of several threads over one heap, with or without
    AddressSanitizer.
  \<^item> \<open>Cancel_Token\<close>: \<open>core/cancellation.hpp\<close>; registration, cancellation in its two parts, the guard.
  \<^item> \<open>Retry\<close>: \<open>core/retry.hpp\<close>; delays are rationals, the random jitter is a parameter.
  \<^item> \<open>Task\<close>: \<open>core/task.hpp\<close> and \<open>core/defer.hpp\<close>; ownership of frames, and worlds of coroutines
    that start, await each other's tasks in any state and return: the value given to \<open>co_return\<close> is delivered once, and
    a second \<open>co_await\<close> aborts.
  \<^item> \<open>When_All\<close>, \<open>When_All_Forms\<close>: \<open>core/when_all.hpp\<close>; fork and join through the latch for a vector of
    tasks; the variadic form and the one without values are simulations of it.
  \<^item> \<open>When_All_Run\<close>: \<open>WhenAll\<close> of tasks from its call to its value, the operations of the tasks answered in any
    order: every task runs as it would alone, the values come in order, the caller can always be reached.
  \<^item> \<open>Race\<close>, \<open>When_Any\<close>: \<open>core/when_any.hpp\<close>, \<open>io/timer.hpp\<close>, \<open>core/timeout.hpp\<close>; compare-exchange, store
    and notification are separate steps.
  \<^item> \<open>Task_Group\<close>: \<open>core/detached_task.hpp\<close>, \<open>core/task_group.hpp\<close>.
  \<^item> \<open>Spawn\<close>: \<open>core/spawn.hpp\<close>; the callbacks of a handle, with moved-from values explicit; the state that handle and
    promise share is behind a pointer.
  \<^item> \<open>Spawn_Run\<close>: a spawned task that yields and sleeps on the libuv executor beside any other code, callbacks
    being registered meanwhile; it is never lost, can always be brought to its end, and then completes its state, calls
    the callbacks and destroys its frame.
  \<^item> \<open>Generator\<close>: \<open>core/generator.hpp\<close>; the body of a generator is a parameter and may be infinite.
  \<^item> \<open>Uring\<close>, \<open>Executor\<close>: the documented behaviour of an io_uring; \<open>io/executor.hpp\<close>,
    \<open>io/executor.cpp\<close>, \<open>core/schedule_on.hpp\<close>.  What a coroutine or callback does when it
    runs is a parameter: the commands it issues, as a function of everything run before.
  \<^item> \<open>Polling\<close>, \<open>Libuv\<close>, \<open>Iouring\<close>, \<open>Iouring_Ops\<close>, \<open>Thread_Pool\<close>: the executors of \<open>io/\<close> and the awaitables
    of \<open>io/iouring_async_ops.hpp\<close>.  Queues are FIFO and lose nothing, timers fire when due and their
    objects are released once, wake-ups are not lost, the pool's \<open>Run\<close> returns only when idle.

  \<^item> \<open>Posix\<close>: addresses, the system calls the sources make (a parameter, with the contracts \<open>fds_ok\<close>,
    \<open>send_ok\<close>, \<open>recv_ok\<close>), and \<open>transfer\<close>, the reference for the four loops that repeat partial
    transfers, with its rule; each loop is proved equal to an instance of it.
  \<^item> \<open>Sync_Tcp\<close>: \<open>io/sync_tcp.hpp\<close>, \<open>io/sync_tcp.cpp\<close>; all bytes sent or exactly \<open>n\<close> received, no
    descriptor leaked on any branch.
  \<^item> \<open>Uring_Await\<close>, \<open>Iouring_File\<close>, \<open>Iouring_Tcp\<close>: the operations of \<open>io/iouring_async_ops.hpp\<close> as a coroutine
    awaits them, and their clients \<open>io/iouring_file.cpp\<close> and \<open>io/iouring_tcp.cpp\<close>.  A \<open>co_await\<close> runs
    the awaitable of \<open>Iouring\<close>; until the resumption the kernel and the rest of the program are an
    environment given as parameter, which completes every request (one that never completes leaves its
    coroutine suspended and is outside these theories).  Files are read and written completely and read back, streams
    transfer bytes in order, the descriptor of a stream is accounted for.
  \<^item> \<open>Tcp\<close>, \<open>Tcp_Await\<close>: \<open>io/tcp.hpp\<close>, \<open>io/tcp.cpp\<close>; calls to libuv are recorded, its answers and callbacks come in any
    order.  Reads in order, handles freed once, connections accepted in order; what each \<open>co_await\<close> returns.
  \<^item> \<open>Sync_Wait\<close>, \<open>Combinators\<close>, \<open>Periodic_Timer\<close>, \<open>Thread_Utils\<close>: \<open>sync/sync_wait.hpp\<close>; \<open>core/combinators.hpp\<close>,
    \<open>core/invoke.hpp\<close>; \<open>io/periodic_timer.hpp\<close>; \<open>io/thread_utils\<close>.

  \<^item> \<open>Libuv_Lifetime\<close>, \<open>Pool_Shutdown\<close>: creating and destroying the libuv executor and the thread pool.
    The loop of the libuv destructor ends once no other handle is open on the loop, with every timer object freed once.
    The pool has its condition variables with waits cut into evaluating the predicate, blocking and being notified:
    its threads take boundedly many steps after the destructor's notification, and the joins return unless a thread was
    between predicate and blocking at that moment, which \<open>Stop\<close> does not exclude.
  \<^item> \<open>Exec_Bridge\<close>, \<open>Stop_Adapter\<close>: \<open>execution/\<close>, the adapters to std::execution.  The sender library is a
    parameter.  A task sent through the bridge and awaited again gives its value and resumes its
    awaiter once; stop tokens and cancellation tokens follow each other.
  \<^item> \<open>Sched_Run\<close>: the operations of \<open>execution/scheduler.hpp\<close> started by programs on a libuv executor; they complete
    in the order of their starts, once, with what the stop token says when the callback runs, and always can.
  \<^item> \<open>Ex_Http_Server\<close>, \<open>Ex_Generators\<close>, \<open>Ex_Echo_Server\<close>, \<open>Ex_Echo_Uv\<close>, \<open>Ex_Async_Sleep\<close>: the examples 05, 02, 04 and 06, and 03, as clients of the
    components above: the routes and counter of the example HTTP server on every connection, the sequences the
    generators give and where their integers overflow, the bytes an echo client gets back over io_uring and over libuv, the
    frame example 04 resumes after it was destroyed, and the resumptions of the sleeping tasks of example 03.
  \<^item> \<open>Bench_File\<close>: the helpers of \<open>benchmarks/file_io_bench.cpp\<close>: aligned buffers, random offsets inside the file, the
    writes that create the file.

  \<^bold>\<open>Bounds and fuel.\<close>  There is no fuel in the sense of an arbitrary bound.  Loops over data are
  structural, or measured by the bytes still to transfer.  Loops that wait for the outside (\<open>Run\<close> of the executors, the HTTP and echo
  servers) recurse over the list of what the outside does, one entry per iteration;
  \<open>None\<close> or an unfinished result then means that the loop is still running when that list ends,
  and the theorems say exactly when it returns.  Counters of coroutines do not wrap
  because fewer than \<open>2 ^ 64\<close> handles exist; where a theorem bounds a number of tasks or
  threads by about \<open>2 ^ 64\<close> it is for that reason.

  \<^bold>\<open>Not modelled.\<close>  Memory orders weaker than interleaving; concepts, compiler shims and the deduction
  of the value types of senders (compile-time only); the promise types of \<open>SyncWaitTask\<close>, which nothing uses;
  third-party libraries, the examples 01 and 07 (fixed values printed after single library calls), the
  other benchmarks (timing loops around single library calls) and tests.
\<close>

end
